(* ===== verification/Prelude.thy ===== *)
theory Prelude
  imports Main "HOL-Library.Monad_Syntax" "HOL-Library.Multiset"
begin

text \<open>
  What the component theories share.

  \<^item> \<open>addr\<close> and \<open>ptr\<close>: addresses of heap objects, and C pointers, which are null
    (\<^term>\<open>None\<close>) or an address; \<open>val\<close>: the values that containers hold and do not look
    into.
  \<^item> \<open>exn\<close>: the exception types of \<^verbatim>\<open>libhilti/exceptions.c\<close> and
    \<^verbatim>\<open>libspicy/exceptions.c\<close> that the modelled code raises. A HILTI run-time function
    reports an exception through its \<open>excpt\<close> argument and returns; the state it has changed
    by then stays changed. A modelled operation therefore returns its result and state together
    with an \<open>exn option\<close>.
  \<^item> An operation that dereferences pointers or indexes raw memory has type
    \<open>\<dots> option\<close>, where \<^term>\<open>None\<close> is undefined behaviour of the C code (a null or dangling
    dereference, an index out of the allocated range, a failed assertion). That an operation
    returns \<^term>\<open>Some\<close> is a memory-safety result.
  \<^item> \<open>add64\<close>, \<open>sub64\<close>: arithmetic on \<open>uint64_t\<close> with its wrap-around.
\<close>

named_theorems safe_simps
  \<open>rules that evaluate checked reads and writes under the invariants\<close>

named_theorems inv_intros
  \<open>preservation of the components' invariants\<close>

type_synonym addr = nat
type_synonym ptr = "addr option"
type_synonym val = nat

datatype exn =
    OutOfMemory | Underflow | InvalidIterator | CloningNotSupported | NullReference
  | TimerNotScheduled | TimerAlreadyScheduled | InternalError | ValueError | IndexError
  | WouldBlock | TypeError | Frozen | Yield | ParserDisabled | FilterUnsupported | NotImplemented | UserException nat

subsection \<open>Enumerations\<close>

text \<open>A value of an enum type is undefined or one of the type's labels (\<^verbatim>\<open>libhilti/enum.c\<close>).\<close>

datatype hlt_enum = EUndef | ELabel string

definition hlt_enum_unset :: hlt_enum where
  "hlt_enum_unset = EUndef"

definition hlt_enum_equal :: "hlt_enum \<Rightarrow> hlt_enum \<Rightarrow> bool" where
  "hlt_enum_equal e1 e2 =
     (if e1 = EUndef \<or> e2 = EUndef then e1 = EUndef \<and> e2 = EUndef else e1 = e2)"

subsection \<open>Unsigned 64-bit arithmetic\<close>

abbreviation max64 :: nat where
  "max64 \<equiv> 18446744073709551615"

definition add64 :: "nat \<Rightarrow> nat \<Rightarrow> nat" where
  "add64 a b = (a + b) mod 18446744073709551616"

definition sub64 :: "nat \<Rightarrow> nat \<Rightarrow> nat" where
  "sub64 a b = (a + (18446744073709551616 - b)) mod 18446744073709551616"

lemma add64_exact: "a + b \<le> max64 \<Longrightarrow> add64 a b = a + b"
  by (simp add: add64_def)

lemma add64_le: "add64 a b \<le> max64"
  unfolding add64_def
  using mod_less_divisor [of 18446744073709551616 "a + b"] by simp

lemma sub64_exact: "b \<le> a \<Longrightarrow> a \<le> max64 \<Longrightarrow> sub64 a b = a - b"
proof -
  assume "b \<le> a" "a \<le> max64"
  then have eq: "a + (18446744073709551616 - b) = (a - b) + 18446744073709551616"
    by simp
  show ?thesis
    unfolding sub64_def eq using \<open>a \<le> max64\<close> by (simp del: add_diff_assoc2)
qed

subsection \<open>Checked reads and writes\<close>

text \<open>Reading and writing a slot of an allocated array; out of range is undefined.\<close>

definition rd :: "'a list \<Rightarrow> nat \<Rightarrow> 'a option" where
  "rd xs i = (if i < length xs then Some (xs ! i) else None)"

definition wr :: "'a list \<Rightarrow> nat \<Rightarrow> 'a \<Rightarrow> 'a list option" where
  "wr xs i v = (if i < length xs then Some (xs[i := v]) else None)"

lemma rd_Some [safe_simps]: "i < length xs \<Longrightarrow> rd xs i = Some (xs ! i)"
  by (simp add: rd_def)

lemma wr_Some [safe_simps]: "i < length xs \<Longrightarrow> wr xs i v = Some (xs[i := v])"
  by (simp add: wr_def)

lemma rd_eq_Some: "rd xs i = Some v \<longleftrightarrow> i < length xs \<and> xs ! i = v"
  by (auto simp: rd_def)

lemma wr_eq_Some: "wr xs i v = Some ys \<longleftrightarrow> i < length xs \<and> ys = xs[i := v]"
  by (auto simp: wr_def)

subsection \<open>Lists\<close>

lemma mset_swap_update:
  assumes "i < length xs" "j < length xs"
  shows "mset (xs[i := xs ! j, j := xs ! i]) = mset xs"
  using mset_swap [OF assms(2) assms(1)] assms
  by (cases "i = j") (simp_all add: list_update_swap)

lemma take_update_less: "i < n \<Longrightarrow> take n (xs[i := v]) = (take n xs)[i := v]"
  by (simp add: take_update_swap)

subsection \<open>Traversing a container\<close>

text \<open>
  The loop in which compiled code traverses a container: it compares an iterator with the end, dereferences it and
  increments it, until the end is reached. All three may change the state (an access can postpone the expiration of an element).
\<close>

partial_function (option) walk ::
  "('i \<Rightarrow> 's \<Rightarrow> (bool \<times> 's) option) \<Rightarrow> ('i \<Rightarrow> 's \<Rightarrow> ('v option \<times> 's) option) \<Rightarrow> ('i \<Rightarrow> 's \<Rightarrow> 'i option) \<Rightarrow>
   'i \<Rightarrow> 's \<Rightarrow> ('v option list \<times> 's) option" where
  "walk at_end deref incr i s = do {
     (e, s1) \<leftarrow> at_end i s;
     (if e then Some ([], s1)
      else do {
        (x, s2) \<leftarrow> deref i s1;
        j \<leftarrow> incr i s2;
        (xs, s3) \<leftarrow> walk at_end deref incr j s2;
        Some (x # xs, s3)
      })
   }"

declare walk.simps [code]

text \<open>
  What the loop relies on: \<open>at c k\<close> is the iterator to position \<open>k\<close> of a container with content \<open>c\<close>, comparing
  and dereferencing keep the content, and incrementing moves on by one position.
\<close>

locale traversal =
  fixes inv :: "'c \<Rightarrow> 's \<Rightarrow> bool" and vals :: "'c \<Rightarrow> 'v list" and at :: "'c \<Rightarrow> nat \<Rightarrow> 'i"
    and at_end :: "'i \<Rightarrow> 's \<Rightarrow> (bool \<times> 's) option" and deref :: "'i \<Rightarrow> 's \<Rightarrow> ('v option \<times> 's) option"
    and incr :: "'i \<Rightarrow> 's \<Rightarrow> 'i option"
  assumes at_end: "inv c s \<Longrightarrow> k \<le> length (vals c) \<Longrightarrow> \<exists>s'. at_end (at c k) s = Some (k = length (vals c), s') \<and> inv c s'"
    and deref: "inv c s \<Longrightarrow> k < length (vals c) \<Longrightarrow> \<exists>s'. deref (at c k) s = Some (Some (vals c ! k), s') \<and> inv c s'"
    and incr: "inv c s \<Longrightarrow> k < length (vals c) \<Longrightarrow> incr (at c k) s = Some (at c (Suc k))"
begin

lemma walk_from:
  assumes "inv c s" "k \<le> length (vals c)"
  shows "\<exists>s'. walk at_end deref incr (at c k) s = Some (map Some (drop k (vals c)), s') \<and> inv c s'"
  using assms
proof (induction "length (vals c) - k" arbitrary: k s)
  case 0
  then have k: "k = length (vals c)" by simp
  from at_end [OF 0(2,3)] k show ?case by (subst walk.simps) auto
next
  case (Suc n)
  then have k: "k < length (vals c)" by simp
  from at_end [OF Suc.prems] k obtain s1 where s1: "at_end (at c k) s = Some (False, s1)" "inv c s1" by auto
  from deref [OF s1(2) k] obtain s2 where s2: "deref (at c k) s1 = Some (Some (vals c ! k), s2)" "inv c s2" by blast
  have "n = length (vals c) - Suc k" using Suc.hyps(2) by simp
  from Suc.hyps(1) [OF this s2(2)] k obtain s3 where
    s3: "walk at_end deref incr (at c (Suc k)) s2 = Some (map Some (drop (Suc k) (vals c)), s3)" "inv c s3" by auto
  have "map Some (drop k (vals c)) = Some (vals c ! k) # map Some (drop (Suc k) (vals c))"
    using Cons_nth_drop_Suc [OF k] by (metis list.simps(9))
  then show ?case using s1 s2 s3 incr [OF s2(2) k] by (subst walk.simps) simp
qed

lemma walk_all:
  assumes "inv c s"
  shows "\<exists>s'. walk at_end deref incr (at c 0) s = Some (map Some (vals c), s') \<and> inv c s'"
  using walk_from [OF assms, of 0] by simp

end

end
