(* ===== verification/PQueue.thy ===== *)
theory PQueue
  imports Prelude
begin

text \<open>
  The timer record of \<^verbatim>\<open>libhilti/timer.h\<close> and the priority queue of timers,
  \<^verbatim>\<open>libhilti/3rdparty/libpqueue/src/pqueue.c\<close>: an array heap with a one-based root that is
  hard-wired to \<^verbatim>\<open>hlt_timer\<close> (it reads the expiration time as the priority, and writes each
  timer's array position back into the timer so that it can be removed or moved later).

  The store of timers is a map from addresses; the array is a list whose length is the allocated
  size. \<open>pq_inv\<close> is the queue's invariant: the array segment \<open>1..<size\<close> holds live timers, each of
  which knows its own position, in heap order. The lemmas show that every operation, run on a queue
  with that invariant, neither faults nor loses timers, keeps the invariant, and returns the timer
  with the least expiration time; the locale \<open>timer_queue\<close> collects these facts as the contract
  the timer manager relies on.
\<close>

section \<open>Timers\<close>

datatype timer_cookie =
    CFunction nat
  | CList addr addr
  | CMap addr nat
  | CSet addr nat
  | CVector addr int
  | CProfiler nat
  | CUnknown int

record hlt_timer =
  timer_mgr :: ptr
  timer_time :: nat
  queue_pos :: nat
  cookie :: timer_cookie

type_synonym theap = "addr \<rightharpoonup> hlt_timer"

section \<open>The queue\<close>

record pqueue =
  pq_size :: nat
  pq_avail :: nat
  pq_step :: nat
  pq_d :: "addr list"

definition getpri :: "theap \<Rightarrow> addr \<Rightarrow> nat option" where
  "getpri ts a = map_option timer_time (ts a)"

definition setpri :: "theap \<Rightarrow> addr \<Rightarrow> nat \<Rightarrow> theap option" where
  "setpri ts a pri = map_option (\<lambda>t. ts(a \<mapsto> t\<lparr>timer_time := pri\<rparr>)) (ts a)"

definition cmppri :: "nat \<Rightarrow> nat \<Rightarrow> bool" where
  "cmppri nxt cur \<longleftrightarrow> nxt > cur"

definition getpos :: "theap \<Rightarrow> addr \<Rightarrow> nat option" where
  "getpos ts a = map_option queue_pos (ts a)"

definition setpos :: "theap \<Rightarrow> addr \<Rightarrow> nat \<Rightarrow> theap option" where
  "setpos ts a pos = map_option (\<lambda>t. ts(a \<mapsto> t\<lparr>queue_pos := pos\<rparr>)) (ts a)"

definition left_pos :: "nat \<Rightarrow> nat" where
  "left_pos i = 2 * i"

definition right_pos :: "nat \<Rightarrow> nat" where
  "right_pos i = 2 * i + 1"

definition parent_pos :: "nat \<Rightarrow> nat" where
  "parent_pos i = i div 2"

definition priority_queue_init :: "nat \<Rightarrow> pqueue" where
  "priority_queue_init n =
     \<lparr>pq_size = 1, pq_avail = n + 1, pq_step = n + 1, pq_d = replicate (n + 1) 0\<rparr>"

definition priority_queue_size :: "pqueue \<Rightarrow> nat" where
  "priority_queue_size q = pq_size q - 1"

function bubble_up_loop ::
  "theap \<Rightarrow> addr list \<Rightarrow> nat \<Rightarrow> nat \<Rightarrow> (theap \<times> addr list \<times> nat) option" where
  "bubble_up_loop ts d i moving_pri =
     (if i > 1 then do {
        p \<leftarrow> rd d (parent_pos i);
        ppri \<leftarrow> getpri ts p;
        if cmppri ppri moving_pri then do {
          d' \<leftarrow> wr d i p;
          ts' \<leftarrow> setpos ts p i;
          bubble_up_loop ts' d' (parent_pos i) moving_pri
        } else Some (ts, d, i)
      } else Some (ts, d, i))"
  by pat_completeness auto
termination
  by (relation "measure (\<lambda>(ts, d, i, pri). i)") (auto simp: parent_pos_def)

declare bubble_up_loop.simps [simp del]

definition bubble_up :: "theap \<Rightarrow> pqueue \<Rightarrow> nat \<Rightarrow> (theap \<times> pqueue) option" where
  "bubble_up ts q i = do {
     moving_node \<leftarrow> rd (pq_d q) i;
     moving_pri \<leftarrow> getpri ts moving_node;
     (ts1, d1, i1) \<leftarrow> bubble_up_loop ts (pq_d q) i moving_pri;
     d2 \<leftarrow> wr d1 i1 moving_node;
     ts2 \<leftarrow> setpos ts1 moving_node i1;
     Some (ts2, q\<lparr>pq_d := d2\<rparr>)
   }"

definition maxchild :: "theap \<Rightarrow> addr list \<Rightarrow> nat \<Rightarrow> nat \<Rightarrow> nat option" where
  "maxchild ts d sz i =
     (let child_node = left_pos i in
      if child_node \<ge> sz then Some 0
      else if child_node + 1 < sz then do {
        a \<leftarrow> rd d child_node;
        b \<leftarrow> rd d (child_node + 1);
        pa \<leftarrow> getpri ts a;
        pb \<leftarrow> getpri ts b;
        Some (if cmppri pa pb then child_node + 1 else child_node)
      } else Some child_node)"

lemma maxchild_bounds:
  "maxchild ts d sz i = Some c \<Longrightarrow> c \<noteq> 0 \<Longrightarrow> i < c \<and> c < sz \<and> c div 2 = i"
  by (auto simp: maxchild_def Let_def left_pos_def bind_eq_Some_conv split: if_splits)

function percolate_down_loop ::
  "theap \<Rightarrow> addr list \<Rightarrow> nat \<Rightarrow> nat \<Rightarrow> nat \<Rightarrow> (theap \<times> addr list \<times> nat) option" where
  "percolate_down_loop ts d sz i moving_pri = do {
     child_node \<leftarrow> maxchild ts d sz i;
     if child_node = 0 then Some (ts, d, i)
     else do {
       c \<leftarrow> rd d child_node;
       cpri \<leftarrow> getpri ts c;
       if cmppri moving_pri cpri then do {
         d' \<leftarrow> wr d i c;
         ts' \<leftarrow> setpos ts c i;
         percolate_down_loop ts' d' sz child_node moving_pri
       } else Some (ts, d, i)
     }
   }"
  by pat_completeness auto
termination
  by (relation "measure (\<lambda>(ts, d, sz, i, pri). sz - i)")
    (auto dest: maxchild_bounds)

declare percolate_down_loop.simps [simp del]

definition percolate_down :: "theap \<Rightarrow> pqueue \<Rightarrow> nat \<Rightarrow> (theap \<times> pqueue) option" where
  "percolate_down ts q i = do {
     moving_node \<leftarrow> rd (pq_d q) i;
     moving_pri \<leftarrow> getpri ts moving_node;
     (ts1, d1, i1) \<leftarrow> percolate_down_loop ts (pq_d q) (pq_size q) i moving_pri;
     d2 \<leftarrow> wr d1 i1 moving_node;
     ts2 \<leftarrow> setpos ts1 moving_node i1;
     Some (ts2, q\<lparr>pq_d := d2\<rparr>)
   }"

text \<open>
  \<open>priority_queue_insert\<close> grows the array by \<open>step\<close> when it is full; the reallocated tail is not
  initialised by the C code and never read before it is written. The code 0 is success;
  \<^verbatim>\<open>hlt_realloc_no_init\<close> terminates the process when memory runs out, so the error code 1
  of the source is not produced.
\<close>

definition priority_queue_insert :: "theap \<Rightarrow> pqueue \<Rightarrow> addr \<Rightarrow> (nat \<times> theap \<times> pqueue) option" where
  "priority_queue_insert ts q a = do {
     let q1 = (if pq_size q \<ge> pq_avail q
               then q\<lparr>pq_d := pq_d q @ replicate (pq_size q + pq_step q - length (pq_d q)) 0,
                      pq_avail := pq_size q + pq_step q\<rparr>
               else q);
     let i = pq_size q1;
     d1 \<leftarrow> wr (pq_d q1) i a;
     (ts', q') \<leftarrow> bubble_up ts (q1\<lparr>pq_size := i + 1, pq_d := d1\<rparr>) i;
     Some (0, ts', q')
   }"

definition priority_queue_change_priority ::
  "theap \<Rightarrow> pqueue \<Rightarrow> nat \<Rightarrow> addr \<Rightarrow> (theap \<times> pqueue) option" where
  "priority_queue_change_priority ts q new_pri a = do {
     old_pri \<leftarrow> getpri ts a;
     ts1 \<leftarrow> setpri ts a new_pri;
     posn \<leftarrow> getpos ts1 a;
     if cmppri old_pri new_pri then bubble_up ts1 q posn else percolate_down ts1 q posn
   }"

definition priority_queue_remove :: "theap \<Rightarrow> pqueue \<Rightarrow> addr \<Rightarrow> (theap \<times> pqueue) option" where
  "priority_queue_remove ts q a = do {
     posn \<leftarrow> getpos ts a;
     let size' = pq_size q - 1;
     moved \<leftarrow> rd (pq_d q) size';
     d1 \<leftarrow> wr (pq_d q) posn moved;
     let q1 = q\<lparr>pq_size := size', pq_d := d1\<rparr>;
     apri \<leftarrow> getpri ts a;
     m \<leftarrow> rd d1 posn;
     mpri \<leftarrow> getpri ts m;
     if cmppri apri mpri then bubble_up ts q1 posn else percolate_down ts q1 posn
   }"

definition priority_queue_pop :: "theap \<Rightarrow> pqueue \<Rightarrow> (addr option \<times> theap \<times> pqueue) option" where
  "priority_queue_pop ts q =
     (if pq_size q = 1 then Some (None, ts, q)
      else do {
        head \<leftarrow> rd (pq_d q) 1;
        let size' = pq_size q - 1;
        moved \<leftarrow> rd (pq_d q) size';
        d1 \<leftarrow> wr (pq_d q) 1 moved;
        (ts', q') \<leftarrow> percolate_down ts (q\<lparr>pq_size := size', pq_d := d1\<rparr>) 1;
        Some (Some head, ts', q')
      })"

definition priority_queue_peek :: "pqueue \<Rightarrow> addr option option" where
  "priority_queue_peek q =
     (if pq_size q = 1 then Some None else map_option Some (rd (pq_d q) 1))"

partial_function (option) subtree_is_valid :: "theap \<Rightarrow> pqueue \<Rightarrow> nat \<Rightarrow> bool option" where
  "subtree_is_valid ts q pos = do {
     l \<leftarrow> (if left_pos pos < pq_size q then do {
             a \<leftarrow> rd (pq_d q) pos;
             b \<leftarrow> rd (pq_d q) (left_pos pos);
             pa \<leftarrow> getpri ts a;
             pb \<leftarrow> getpri ts b;
             if cmppri pa pb then Some False else subtree_is_valid ts q (left_pos pos)
           } else Some True);
     if \<not> l then Some False
     else if right_pos pos < pq_size q then do {
             a \<leftarrow> rd (pq_d q) pos;
             b \<leftarrow> rd (pq_d q) (right_pos pos);
             pa \<leftarrow> getpri ts a;
             pb \<leftarrow> getpri ts b;
             if cmppri pa pb then Some False else subtree_is_valid ts q (right_pos pos)
           } else Some True
   }"

declare subtree_is_valid.simps [code]

definition priority_queue_is_valid :: "theap \<Rightarrow> pqueue \<Rightarrow> bool option" where
  "priority_queue_is_valid ts q = subtree_is_valid ts q 1"

section \<open>Heap order\<close>

text \<open>
  Heap order is stated on the function \<open>f\<close> from positions to priorities. While a node moves
  through the array, the order holds everywhere but at the moving position: \<open>up_ok\<close> is what
  \<open>bubble_up\<close> keeps, \<open>down_ok\<close> what \<open>percolate_down\<close> keeps.
\<close>

definition heap_fun :: "(nat \<Rightarrow> nat) \<Rightarrow> nat \<Rightarrow> bool" where
  "heap_fun f n \<longleftrightarrow> (\<forall>j. 2 \<le> j \<longrightarrow> j < n \<longrightarrow> f (j div 2) \<le> f j)"

definition up_ok :: "(nat \<Rightarrow> nat) \<Rightarrow> nat \<Rightarrow> nat \<Rightarrow> bool" where
  "up_ok f n i \<longleftrightarrow>
     (\<forall>j. 2 \<le> j \<longrightarrow> j < n \<longrightarrow> j \<noteq> i \<longrightarrow> f (j div 2) \<le> f j) \<and>
     (\<forall>j. 2 \<le> j \<longrightarrow> j < n \<longrightarrow> j div 2 = i \<longrightarrow> 2 \<le> i \<longrightarrow> f (i div 2) \<le> f j)"

definition down_ok :: "(nat \<Rightarrow> nat) \<Rightarrow> nat \<Rightarrow> nat \<Rightarrow> bool" where
  "down_ok f n i \<longleftrightarrow>
     (\<forall>j. 2 \<le> j \<longrightarrow> j < n \<longrightarrow> j div 2 \<noteq> i \<longrightarrow> f (j div 2) \<le> f j) \<and>
     (\<forall>j. 2 \<le> j \<longrightarrow> j < n \<longrightarrow> j div 2 = i \<longrightarrow> 2 \<le> i \<longrightarrow> f (i div 2) \<le> f j)"

lemma up_ok_done: "up_ok f n i \<Longrightarrow> i \<le> 1 \<or> f (i div 2) \<le> f i \<Longrightarrow> heap_fun f n"
  unfolding up_ok_def heap_fun_def by (metis Suc_1 not_less_eq_eq)

lemma up_ok_swap:
  assumes "up_ok f n i" "1 < i" "i < n" "f i < f (i div 2)"
  shows "up_ok (f(i := f (i div 2), i div 2 := f i)) n (i div 2)"
proof -
  let ?p = "i div 2" and ?g = "f(i := f (i div 2), i div 2 := f i)"
  have a: "\<And>j. 2 \<le> j \<Longrightarrow> j < n \<Longrightarrow> j \<noteq> i \<Longrightarrow> f (j div 2) \<le> f j"
    and b: "\<And>j. 2 \<le> j \<Longrightarrow> j < n \<Longrightarrow> j div 2 = i \<Longrightarrow> f ?p \<le> f j"
    using assms(1,2) unfolding up_ok_def by auto
  have pi: "?p < i" using assms(2) by simp
  have "?g (j div 2) \<le> ?g j" if "2 \<le> j" "j < n" "j \<noteq> ?p" for j
  proof (cases "j = i")
    case True then show ?thesis using pi assms(4) by auto
  next
    case False
    then show ?thesis
      using a [of j] b [of j] that pi assms(4) by (auto intro: order_trans less_imp_le)
  qed
  moreover have "?g (?p div 2) \<le> ?g j" if "2 \<le> j" "j < n" "j div 2 = ?p" "2 \<le> ?p" for j
  proof -
    have "f (?p div 2) \<le> f ?p" using a [of ?p] that pi assms(3) by auto
    moreover have "?p div 2 \<noteq> ?p" "?p div 2 \<noteq> i" "j \<noteq> ?p" using that pi by auto
    ultimately show ?thesis using a [of j] that by (cases "j = i") auto
  qed
  ultimately show ?thesis unfolding up_ok_def by blast
qed

lemma down_ok_done:
  "down_ok f n i \<Longrightarrow> (\<And>j. 2 \<le> j \<Longrightarrow> j < n \<Longrightarrow> j div 2 = i \<Longrightarrow> f i \<le> f j) \<Longrightarrow> heap_fun f n"
  unfolding down_ok_def heap_fun_def by metis

lemma down_ok_swap:
  assumes "down_ok f n i" "c < n" "c div 2 = i" "1 \<le> i" "f c < f i"
    and min: "\<And>j. 2 \<le> j \<Longrightarrow> j < n \<Longrightarrow> j div 2 = i \<Longrightarrow> f c \<le> f j"
  shows "down_ok (f(i := f c, c := f i)) n c"
proof -
  let ?g = "f(i := f c, c := f i)"
  have a: "\<And>j. 2 \<le> j \<Longrightarrow> j < n \<Longrightarrow> j div 2 \<noteq> i \<Longrightarrow> f (j div 2) \<le> f j"
    and b: "\<And>j. 2 \<le> j \<Longrightarrow> j < n \<Longrightarrow> j div 2 = i \<Longrightarrow> 2 \<le> i \<Longrightarrow> f (i div 2) \<le> f j"
    using assms(1) unfolding down_ok_def by auto
  have ic: "i < c" "2 \<le> c" using assms(3,4) by auto
  have "?g (j div 2) \<le> ?g j" if j: "2 \<le> j" "j < n" "j div 2 \<noteq> c" for j
  proof (cases "j div 2 = i")
    case True
    then show ?thesis using min [of j] j ic assms(3-5) by auto
  next
    case False
    then have "j \<noteq> c" using assms(3) by auto
    show ?thesis
    proof (cases "j = i")
      case True
      then have "f (i div 2) \<le> f c" using b [of c] j ic assms(2,3) by auto
      then show ?thesis using True j ic by auto
    next
      case False
      then show ?thesis using a [of j] j \<open>j div 2 \<noteq> i\<close> \<open>j \<noteq> c\<close> by auto
    qed
  qed
  moreover have "?g (c div 2) \<le> ?g j" if "2 \<le> j" "j < n" "j div 2 = c" for j
  proof -
    have "f (j div 2) \<le> f j" using a [of j] that ic by auto
    moreover have "j \<noteq> i" "j \<noteq> c" using that ic by auto
    ultimately show ?thesis using that ic assms(3) by auto
  qed
  ultimately show ?thesis unfolding down_ok_def using assms(3) by auto
qed

lemma heap_fun_root: "heap_fun f n \<Longrightarrow> 1 \<le> i \<Longrightarrow> i < n \<Longrightarrow> f 1 \<le> f i"
proof (induction i rule: less_induct)
  case (less i)
  show ?case
  proof (cases "i = 1")
    case False
    then have "f 1 \<le> f (i div 2)" using less by auto
    also have "f (i div 2) \<le> f i" using less.prems False unfolding heap_fun_def by auto
    finally show ?thesis .
  qed simp
qed

section \<open>The moving node\<close>

text \<open>
  \<open>strip\<close> forgets the array positions stored in the timers: it is what the queue operations leave
  unchanged. \<open>placed\<close> says that every slot but \<open>i\<close> holds a timer that knows its position, and
  \<open>hole\<close> that in addition the moving node \<open>m\<close> is live and in none of these slots.
\<close>

definition strip :: "theap \<Rightarrow> theap" where
  "strip ts = (\<lambda>a. map_option (\<lambda>t. t\<lparr>queue_pos := 0\<rparr>) (ts a))"

definition pri :: "theap \<Rightarrow> addr \<Rightarrow> nat" where
  "pri ts a = (case ts a of None \<Rightarrow> 0 | Some t \<Rightarrow> timer_time t)"

definition seg :: "addr list \<Rightarrow> nat \<Rightarrow> addr list" where
  "seg d n = map ((!) d) [1..<n]"

definition placed :: "theap \<Rightarrow> addr list \<Rightarrow> nat \<Rightarrow> nat \<Rightarrow> bool" where
  "placed ts d n i \<longleftrightarrow>
     (\<forall>j. 1 \<le> j \<longrightarrow> j < n \<longrightarrow> j \<noteq> i \<longrightarrow> (\<exists>t. ts (d ! j) = Some t \<and> queue_pos t = j))"

definition hole :: "theap \<Rightarrow> addr list \<Rightarrow> nat \<Rightarrow> nat \<Rightarrow> addr \<Rightarrow> bool" where
  "hole ts d n i m \<longleftrightarrow> 1 \<le> i \<and> i < n \<and> n \<le> length d \<and> ts m \<noteq> None \<and> placed ts d n i \<and>
     (\<forall>j. 1 \<le> j \<longrightarrow> j < n \<longrightarrow> j \<noteq> i \<longrightarrow> d ! j \<noteq> m)"

lemma strip_apply: "strip ts a = map_option (\<lambda>t. t\<lparr>queue_pos := 0\<rparr>) (ts a)"
  by (simp add: strip_def)

lemma strip_eqD:
  assumes "strip ts = strip ts'"
  shows "map_option (\<lambda>t. t\<lparr>queue_pos := 0\<rparr>) (ts a) = map_option (\<lambda>t. t\<lparr>queue_pos := 0\<rparr>) (ts' a)"
  using fun_cong [OF assms, of a] by (simp add: strip_apply)

lemma strip_pri: "strip ts = strip ts' \<Longrightarrow> pri ts = pri ts'"
proof
  fix a assume "strip ts = strip ts'"
  from strip_eqD [OF this, of a] show "pri ts a = pri ts' a"
    by (cases "ts a"; cases "ts' a") (auto simp: pri_def dest: arg_cong [where f = timer_time])
qed

lemma strip_None: "strip ts = strip ts' \<Longrightarrow> ts a = None \<longleftrightarrow> ts' a = None"
  using strip_eqD [of ts ts' a] by (cases "ts a"; cases "ts' a") auto

lemma strip_upd_pos: "ts a = Some t \<Longrightarrow> strip (ts(a \<mapsto> t\<lparr>queue_pos := p\<rparr>)) = strip ts"
  by (auto simp: strip_def)

lemma getpri_pri: "ts a \<noteq> None \<Longrightarrow> getpri ts a = Some (pri ts a)"
  by (auto simp: getpri_def pri_def)

lemma placed_live: "placed ts d n i \<Longrightarrow> 1 \<le> j \<Longrightarrow> j < n \<Longrightarrow> j \<noteq> i \<Longrightarrow> ts (d ! j) \<noteq> None"
  unfolding placed_def by force

lemma placed_inj:
  assumes "placed ts d n i" "1 \<le> j" "j < n" "j \<noteq> i" "1 \<le> k" "k < n" "k \<noteq> i" "d ! j = d ! k"
  shows "j = k"
  using assms unfolding placed_def by (metis option.inject)

lemma hole_step:
  assumes h: "hole ts d n i m" and k: "1 \<le> k" "k < n" "k \<noteq> i"
  shows "\<exists>ts'. setpos ts (d ! k) i = Some ts' \<and> hole ts' (d[i := d ! k]) n k m \<and> strip ts' = strip ts"
proof -
  from h have hp: "placed ts d n i" and i: "1 \<le> i" "i < n" "n \<le> length d"
    and m: "ts m \<noteq> None" and nm: "\<And>j. 1 \<le> j \<Longrightarrow> j < n \<Longrightarrow> j \<noteq> i \<Longrightarrow> d ! j \<noteq> m"
    unfolding hole_def by auto
  obtain t where t: "ts (d ! k) = Some t" using placed_live [OF hp k] by auto
  let ?ts' = "ts(d ! k \<mapsto> t\<lparr>queue_pos := i\<rparr>)"
  have "placed ?ts' (d[i := d ! k]) n k"
    unfolding placed_def
  proof (intro allI impI)
    fix j assume j: "1 \<le> j" "j < n" "j \<noteq> k"
    show "\<exists>t. ?ts' (d[i := d ! k] ! j) = Some t \<and> queue_pos t = j"
    proof (cases "j = i")
      case True then show ?thesis using i by simp
    next
      case False
      then have "d ! j \<noteq> d ! k" using placed_inj [OF hp] j k by blast
      then show ?thesis using False hp j unfolding placed_def by auto
    qed
  qed
  then have "hole ?ts' (d[i := d ! k]) n k m"
    using i k m nm unfolding hole_def by (auto simp: nth_list_update)
  then show ?thesis using t by (auto simp: setpos_def strip_upd_pos)
qed

lemma hole_finish:
  assumes h: "hole ts d n i m"
  shows "\<exists>ts'. setpos ts m i = Some ts' \<and> strip ts' = strip ts \<and> placed ts' (d[i := m]) n 0"
proof -
  from h obtain t where t: "ts m = Some t" unfolding hole_def by auto
  let ?ts' = "ts(m \<mapsto> t\<lparr>queue_pos := i\<rparr>)"
  have "placed ?ts' (d[i := m]) n 0"
    using h unfolding placed_def hole_def by (auto simp: nth_list_update)
  then show ?thesis using t by (auto simp: setpos_def strip_upd_pos)
qed

lemma mset_seg_swap:
  assumes "1 \<le> i" "i < n" "1 \<le> k" "k < n" "n \<le> length d"
  shows "mset (seg (d[i := d ! k, k := d ! i]) n) = mset (seg d n)"
proof -
  have eq: "seg (d[i := d ! k, k := d ! i]) n =
      (seg d n)[i - 1 := seg d n ! (k - 1), k - 1 := seg d n ! (i - 1)]"
    using assms by (intro nth_equalityI) (auto simp: seg_def nth_list_update)
  show ?thesis unfolding eq using assms by (intro mset_swap_update) (auto simp: seg_def)
qed

text \<open>One step of either loop, seen on the array \<open>d[i := m]\<close> in which the node is put back.\<close>

lemma virtual_step:
  assumes h: "hole ts d n i m" and k: "1 \<le> k" "k < n" "k \<noteq> i"
  shows "mset (seg (d[i := d ! k, k := m]) n) = mset (seg (d[i := m]) n)"
    and "(\<lambda>j. g (d[i := d ! k, k := m] ! j)) =
         (\<lambda>j. g (d[i := m] ! j))(i := g (d[i := m] ! k), k := g (d[i := m] ! i))"
proof -
  from h have i: "1 \<le> i" "i < n" "n \<le> length d" unfolding hole_def by auto
  have "d[i := d ! k, k := m] = (d[i := m])[i := (d[i := m]) ! k, k := (d[i := m]) ! i]"
    using i k by simp
  then show "mset (seg (d[i := d ! k, k := m]) n) = mset (seg (d[i := m]) n)"
    using mset_seg_swap [of i n k "d[i := m]"] i k by simp
  show "(\<lambda>j. g (d[i := d ! k, k := m] ! j)) =
         (\<lambda>j. g (d[i := m] ! j))(i := g (d[i := m] ! k), k := g (d[i := m] ! i))"
    using i k by (auto simp: nth_list_update fun_eq_iff)
qed

definition moved_to ::
  "theap \<Rightarrow> addr list \<Rightarrow> nat \<Rightarrow> nat \<Rightarrow> addr \<Rightarrow> theap \<times> addr list \<times> nat \<Rightarrow> bool" where
  "moved_to ts d n i m r \<longleftrightarrow> (case r of (ts', d', i') \<Rightarrow>
     hole ts' d' n i' m \<and> strip ts' = strip ts \<and> length d' = length d \<and>
     mset (seg (d'[i' := m]) n) = mset (seg (d[i := m]) n))"

definition vpri :: "theap \<Rightarrow> addr list \<Rightarrow> nat \<Rightarrow> addr \<Rightarrow> nat \<Rightarrow> nat" where
  "vpri ts d i m = (\<lambda>j. pri ts (d[i := m] ! j))"

lemma moved_to_refl: "hole ts d n i m \<Longrightarrow> moved_to ts d n i m (ts, d, i)"
  by (simp add: moved_to_def)

lemma moved_to_step:
  assumes "hole ts d n i m" "1 \<le> k" "k < n" "k \<noteq> i" "strip ts' = strip ts"
    and "moved_to ts' (d[i := d ! k]) n k m r"
  shows "moved_to ts d n i m r"
  using assms virtual_step(1) [OF assms(1-4)] unfolding moved_to_def by auto

lemma vpri_step:
  assumes "hole ts d n i m" "1 \<le> k" "k < n" "k \<noteq> i" "strip ts' = strip ts"
  shows "vpri ts' (d[i := d ! k]) k m = (vpri ts d i m)(i := vpri ts d i m k, k := vpri ts d i m i)"
  unfolding vpri_def using virtual_step(2) [OF assms(1-4), of "pri ts"] strip_pri [OF assms(5)]
  by simp

lemma vpri_hole: "hole ts d n i m \<Longrightarrow> vpri ts d i m i = pri ts m"
  by (simp add: vpri_def hole_def)

lemma vpri_other: "k \<noteq> i \<Longrightarrow> vpri ts d i m k = pri ts (d ! k)"
  by (simp add: vpri_def)

lemma bubble_up_loop_ok:
  "hole ts d n i m \<Longrightarrow> p = pri ts m \<Longrightarrow>
   \<exists>r. bubble_up_loop ts d i p = Some r \<and> moved_to ts d n i m r \<and>
     (up_ok (vpri ts d i m) n i \<longrightarrow> heap_fun (case r of (ts', d', i') \<Rightarrow> vpri ts' d' i' m) n)"
proof (induction ts d i p rule: bubble_up_loop.induct)
  case (1 ts d i p)
  note h = \<open>hole ts d n i m\<close>
  then have i: "1 \<le> i" "i < n" "n \<le> length d" and pl: "placed ts d n i" unfolding hole_def by auto
  show ?case
  proof (cases "1 < i \<and> p < pri ts (d ! (i div 2))")
    case False
    have "bubble_up_loop ts d i p = Some (ts, d, i)"
    proof (cases "1 < i")
      case True
      then have "ts (d ! (i div 2)) \<noteq> None" using placed_live [OF pl, of "i div 2"] i by auto
      then show ?thesis using True False i
        by (simp add: bubble_up_loop.simps safe_simps parent_pos_def getpri_pri cmppri_def)
    qed (simp add: bubble_up_loop.simps)
    moreover have "i \<le> 1 \<or> vpri ts d i m (i div 2) \<le> vpri ts d i m i"
      using False i h \<open>p = pri ts m\<close> by (cases "i \<le> 1") (auto simp: vpri_hole vpri_other)
    then have "up_ok (vpri ts d i m) n i \<Longrightarrow> heap_fun (vpri ts d i m) n"
      by (rule up_ok_done [rotated])
    ultimately show ?thesis using moved_to_refl [OF h] by auto
  next
    case True
    let ?k = "i div 2"
    have k: "1 \<le> ?k" "?k < n" "?k \<noteq> i" using True i by auto
    have live: "ts (d ! ?k) \<noteq> None" using placed_live [OF pl k] .
    obtain ts' where s: "setpos ts (d ! ?k) i = Some ts'" and h': "hole ts' (d[i := d ! ?k]) n ?k m"
      and st: "strip ts' = strip ts" using hole_step [OF h k] by auto
    have rec: "bubble_up_loop ts d i p = bubble_up_loop ts' (d[i := d ! ?k]) ?k p"
      using True i k live s
      by (subst bubble_up_loop.simps) (simp add: safe_simps parent_pos_def getpri_pri cmppri_def)
    have p': "p = pri ts' m" using strip_pri [OF st] \<open>p = pri ts m\<close> by simp
    have "\<exists>r. bubble_up_loop ts' (d[i := d ! ?k]) (parent_pos i) p = Some r \<and>
        moved_to ts' (d[i := d ! ?k]) n (parent_pos i) m r \<and>
        (up_ok (vpri ts' (d[i := d ! ?k]) (parent_pos i) m) n (parent_pos i) \<longrightarrow>
         heap_fun (case r of (ts', d', i') \<Rightarrow> vpri ts' d' i' m) n)"
      using True i k live s h' p'
      by (intro "1.IH" [of "d ! ?k" "pri ts (d ! ?k)"])
        (auto simp: safe_simps parent_pos_def getpri_pri cmppri_def)
    then obtain r where r: "bubble_up_loop ts' (d[i := d ! ?k]) ?k p = Some r"
        "moved_to ts' (d[i := d ! ?k]) n ?k m r"
        "up_ok (vpri ts' (d[i := d ! ?k]) ?k m) n ?k \<longrightarrow>
         heap_fun (case r of (ts', d', i') \<Rightarrow> vpri ts' d' i' m) n"
      unfolding parent_pos_def by auto
    have "up_ok (vpri ts d i m) n i \<Longrightarrow> up_ok (vpri ts' (d[i := d ! ?k]) ?k m) n ?k"
      unfolding vpri_step [OF h k st] using True i k h \<open>p = pri ts m\<close>
      by (intro up_ok_swap) (auto simp: vpri_hole vpri_other)
    then show ?thesis using r rec moved_to_step [OF h k st r(2)] by auto
  qed
qed

lemma maxchild_none: "n \<le> 2 * i \<Longrightarrow> maxchild ts d n i = Some 0"
  by (simp add: maxchild_def left_pos_def)

lemma maxchild_some:
  assumes h: "hole ts d n i m" and i: "2 * i < n"
  shows "\<exists>c. maxchild ts d n i = Some c \<and> 1 \<le> c \<and> c < n \<and> c \<noteq> i \<and> c div 2 = i \<and>
    (\<forall>j. 2 \<le> j \<longrightarrow> j < n \<longrightarrow> j div 2 = i \<longrightarrow> vpri ts d i m c \<le> vpri ts d i m j)"
proof -
  from h have i1: "1 \<le> i" "i < n" "n \<le> length d" and pl: "placed ts d n i" unfolding hole_def by auto
  have live: "ts (d ! j) \<noteq> None" if "j \<in> {2 * i, 2 * i + 1}" "j < n" for j
    using placed_live [OF pl, of j] that i1 by auto
  have kids: "\<forall>j. 2 \<le> j \<longrightarrow> j < n \<longrightarrow> j div 2 = i \<longrightarrow> Q \<le> g j"
    if "Q \<le> g (2 * i)" "2 * i + 1 < n \<Longrightarrow> Q \<le> g (2 * i + 1)" for Q :: nat and g
  proof (intro allI impI)
    fix j assume "j < n" "j div 2 = i"
    then have "j = 2 * i \<or> j = 2 * i + 1 \<and> 2 * i + 1 < n" by auto
    then show "Q \<le> g j" using that by auto
  qed
  show ?thesis
  proof (cases "2 * i + 1 < n")
    case True
    let ?c = "if pri ts (d ! (2 * i)) > pri ts (d ! (2 * i + 1)) then 2 * i + 1 else 2 * i"
    have mc: "maxchild ts d n i = Some ?c"
      using live [of "2 * i"] live [of "2 * i + 1"] i i1 True
      by (simp add: maxchild_def left_pos_def safe_simps getpri_pri cmppri_def)
    have "\<forall>j. 2 \<le> j \<longrightarrow> j < n \<longrightarrow> j div 2 = i \<longrightarrow> vpri ts d i m ?c \<le> vpri ts d i m j"
      by (rule kids) (use i1 in \<open>auto simp: vpri_other\<close>)
    then show ?thesis using True i i1 by (intro exI [of _ ?c]) (simp add: mc)
  next
    case False
    then have mc: "maxchild ts d n i = Some (2 * i)" using i by (simp add: maxchild_def left_pos_def)
    have "\<forall>j. 2 \<le> j \<longrightarrow> j < n \<longrightarrow> j div 2 = i \<longrightarrow> vpri ts d i m (2 * i) \<le> vpri ts d i m j"
      by (rule kids) (use False in auto)
    then show ?thesis using i i1 by (intro exI [of _ "2 * i"]) (simp add: mc)
  qed
qed

lemma percolate_down_loop_ok:
  "hole ts d n i m \<Longrightarrow> p = pri ts m \<Longrightarrow>
   \<exists>r. percolate_down_loop ts d n i p = Some r \<and> moved_to ts d n i m r \<and>
     (down_ok (vpri ts d i m) n i \<longrightarrow> heap_fun (case r of (ts', d', i') \<Rightarrow> vpri ts' d' i' m) n)"
proof (induction ts d n i p rule: percolate_down_loop.induct)
  case (1 ts d n i p)
  note h = \<open>hole ts d n i m\<close>
  then have i: "1 \<le> i" "i < n" "n \<le> length d" and pl: "placed ts d n i" unfolding hole_def by auto
  have stop: ?case if "percolate_down_loop ts d n i p = Some (ts, d, i)"
      "\<And>j. 2 \<le> j \<Longrightarrow> j < n \<Longrightarrow> j div 2 = i \<Longrightarrow> vpri ts d i m i \<le> vpri ts d i m j"
    using that moved_to_refl [OF h] down_ok_done [of "vpri ts d i m" n i] by auto
  show ?case
  proof (cases "2 * i < n")
    case False
    then show ?thesis
      by (intro stop) (auto simp: percolate_down_loop.simps maxchild_none)
  next
    case True
    from maxchild_some [OF h True] obtain c where
      mc: "maxchild ts d n i = Some c" and c: "1 \<le> c" "c < n" "c \<noteq> i" and ci: "c div 2 = i"
      and min: "\<And>j. 2 \<le> j \<Longrightarrow> j < n \<Longrightarrow> j div 2 = i \<Longrightarrow> vpri ts d i m c \<le> vpri ts d i m j"
      by blast
    have live: "ts (d ! c) \<noteq> None" using placed_live [OF pl c] .
    show ?thesis
    proof (cases "pri ts (d ! c) < p")
      case False
      have "percolate_down_loop ts d n i p = Some (ts, d, i)"
        using mc c i live False
        by (subst percolate_down_loop.simps) (simp add: safe_simps getpri_pri cmppri_def)
      moreover have "vpri ts d i m i \<le> vpri ts d i m c"
        using False h c \<open>p = pri ts m\<close> by (simp add: vpri_hole vpri_other)
      ultimately show ?thesis using min by (intro stop) (auto intro: order_trans)
    next
      case True
      obtain ts' where s: "setpos ts (d ! c) i = Some ts'" and h': "hole ts' (d[i := d ! c]) n c m"
        and st: "strip ts' = strip ts" using hole_step [OF h c] by auto
      have rec: "percolate_down_loop ts d n i p = percolate_down_loop ts' (d[i := d ! c]) n c p"
        using True c i live s mc
        by (subst percolate_down_loop.simps) (simp add: safe_simps getpri_pri cmppri_def)
      have p': "p = pri ts' m" using strip_pri [OF st] \<open>p = pri ts m\<close> by simp
      have "\<exists>r. percolate_down_loop ts' (d[i := d ! c]) n c p = Some r \<and>
          moved_to ts' (d[i := d ! c]) n c m r \<and>
          (down_ok (vpri ts' (d[i := d ! c]) c m) n c \<longrightarrow>
           heap_fun (case r of (ts', d', i') \<Rightarrow> vpri ts' d' i' m) n)"
        using True c i live s h' p' mc
        by (intro "1.IH" [of c "d ! c" "pri ts (d ! c)"])
          (auto simp: safe_simps getpri_pri cmppri_def)
      then obtain r where r: "percolate_down_loop ts' (d[i := d ! c]) n c p = Some r"
          "moved_to ts' (d[i := d ! c]) n c m r"
          "down_ok (vpri ts' (d[i := d ! c]) c m) n c \<longrightarrow>
           heap_fun (case r of (ts', d', i') \<Rightarrow> vpri ts' d' i' m) n"
        by auto
      have "down_ok (vpri ts d i m) n i \<Longrightarrow> down_ok (vpri ts' (d[i := d ! c]) c m) n c"
        unfolding vpri_step [OF h c st] using True c ci i h \<open>p = pri ts m\<close> min
        by (intro down_ok_swap) (auto simp: vpri_hole vpri_other)
      then show ?thesis using r rec moved_to_step [OF h c st r(2)] by auto
    qed
  qed
qed

section \<open>The invariant and the operations\<close>

definition pq_wf :: "theap \<Rightarrow> pqueue \<Rightarrow> bool" where
  "pq_wf ts q \<longleftrightarrow> 1 \<le> pq_size q \<and> pq_size q \<le> pq_avail q \<and> pq_avail q = length (pq_d q) \<and>
     1 \<le> pq_step q \<and> placed ts (pq_d q) (pq_size q) 0"

definition pq_inv :: "theap \<Rightarrow> pqueue \<Rightarrow> bool" where
  "pq_inv ts q \<longleftrightarrow> pq_wf ts q \<and> heap_fun (\<lambda>j. pri ts (pq_d q ! j)) (pq_size q)"

text \<open>The timers in the queue, as a multiset.\<close>

definition pq_elems :: "pqueue \<Rightarrow> addr multiset" where
  "pq_elems q = mset (seg (pq_d q) (pq_size q))"

definition same_shape :: "pqueue \<Rightarrow> pqueue \<Rightarrow> bool" where
  "same_shape q q' \<longleftrightarrow> pq_size q' = pq_size q \<and> pq_avail q' = pq_avail q \<and> pq_step q' = pq_step q"

text \<open>A queue whose slot \<open>i\<close> holds a live timer that may be out of place.\<close>

definition pq_loose :: "theap \<Rightarrow> pqueue \<Rightarrow> nat \<Rightarrow> bool" where
  "pq_loose ts q i \<longleftrightarrow> pq_size q \<le> pq_avail q \<and> pq_avail q = length (pq_d q) \<and>
     1 \<le> pq_step q \<and> hole ts (pq_d q) (pq_size q) i (pq_d q ! i)"

lemma set_seg: "set (seg d n) = (!) d ` {1..<n}"
  by (auto simp: seg_def)

lemma vpri_self: "vpri ts d i (d ! i) = (\<lambda>j. pri ts (d ! j))"
  by (simp add: vpri_def)

lemma reinsert:
  assumes "moved_to ts d n i (d ! i) (ts1, d1, i1)"
  shows "\<exists>ts2. wr d1 i1 (d ! i) = Some (d1[i1 := d ! i]) \<and> setpos ts1 (d ! i) i1 = Some ts2 \<and>
    strip ts2 = strip ts \<and> placed ts2 (d1[i1 := d ! i]) n 0 \<and> length d1 = length d \<and>
    mset (seg (d1[i1 := d ! i]) n) = mset (seg d n)"
proof -
  from assms have h: "hole ts1 d1 n i1 (d ! i)" and st: "strip ts1 = strip ts"
    and l: "length d1 = length d" and ms: "mset (seg (d1[i1 := d ! i]) n) = mset (seg d n)"
    unfolding moved_to_def by auto
  from h have "i1 < length d1" unfolding hole_def by auto
  then show ?thesis using hole_finish [OF h] st l ms by (auto simp: wr_Some)
qed

lemma bubble_up_ok:
  assumes "pq_loose ts q i"
  shows "\<exists>ts' q'. bubble_up ts q i = Some (ts', q') \<and> pq_wf ts' q' \<and> strip ts' = strip ts \<and>
    same_shape q q' \<and> pq_elems q' = pq_elems q \<and>
    (up_ok (\<lambda>j. pri ts (pq_d q ! j)) (pq_size q) i \<longrightarrow> pq_inv ts' q')"
proof -
  let ?d = "pq_d q" and ?n = "pq_size q" and ?m = "pq_d q ! i"
  from assms have h: "hole ts ?d ?n i ?m" unfolding pq_loose_def by simp
  then have i: "i < length ?d" "ts ?m \<noteq> None" "1 \<le> ?n" unfolding hole_def by auto
  from bubble_up_loop_ok [OF h refl] obtain ts1 d1 i1 where
    r: "bubble_up_loop ts ?d i (pri ts ?m) = Some (ts1, d1, i1)"
       "moved_to ts ?d ?n i ?m (ts1, d1, i1)"
       "up_ok (\<lambda>j. pri ts (?d ! j)) ?n i \<longrightarrow> heap_fun (vpri ts1 d1 i1 ?m) ?n"
    by (auto simp: vpri_self)
  from reinsert [OF r(2)] obtain ts2 where ts2: "wr d1 i1 ?m = Some (d1[i1 := ?m])"
    "setpos ts1 ?m i1 = Some ts2" "strip ts2 = strip ts" "placed ts2 (d1[i1 := ?m]) ?n 0"
    "length d1 = length ?d" "mset (seg (d1[i1 := ?m]) ?n) = mset (seg ?d ?n)" by auto
  have "bubble_up ts q i = Some (ts2, q\<lparr>pq_d := d1[i1 := ?m]\<rparr>)"
    using i r(1) ts2(1,2) by (simp add: bubble_up_def rd_Some getpri_pri)
  moreover have "pri ts2 = pri ts1"
    using ts2(3) r(2) strip_pri [of ts2 ts1] unfolding moved_to_def by simp
  ultimately show ?thesis using ts2 r(3) assms i
    by (auto simp: pq_wf_def pq_inv_def pq_loose_def same_shape_def pq_elems_def vpri_def)
qed

lemma percolate_down_ok:
  assumes "pq_loose ts q i"
  shows "\<exists>ts' q'. percolate_down ts q i = Some (ts', q') \<and> pq_wf ts' q' \<and> strip ts' = strip ts \<and>
    same_shape q q' \<and> pq_elems q' = pq_elems q \<and>
    (down_ok (\<lambda>j. pri ts (pq_d q ! j)) (pq_size q) i \<longrightarrow> pq_inv ts' q')"
proof -
  let ?d = "pq_d q" and ?n = "pq_size q" and ?m = "pq_d q ! i"
  from assms have h: "hole ts ?d ?n i ?m" unfolding pq_loose_def by simp
  then have i: "i < length ?d" "ts ?m \<noteq> None" "1 \<le> ?n" unfolding hole_def by auto
  from percolate_down_loop_ok [OF h refl] obtain ts1 d1 i1 where
    r: "percolate_down_loop ts ?d ?n i (pri ts ?m) = Some (ts1, d1, i1)"
       "moved_to ts ?d ?n i ?m (ts1, d1, i1)"
       "down_ok (\<lambda>j. pri ts (?d ! j)) ?n i \<longrightarrow> heap_fun (vpri ts1 d1 i1 ?m) ?n"
    by (auto simp: vpri_self)
  from reinsert [OF r(2)] obtain ts2 where ts2: "wr d1 i1 ?m = Some (d1[i1 := ?m])"
    "setpos ts1 ?m i1 = Some ts2" "strip ts2 = strip ts" "placed ts2 (d1[i1 := ?m]) ?n 0"
    "length d1 = length ?d" "mset (seg (d1[i1 := ?m]) ?n) = mset (seg ?d ?n)" by auto
  have "percolate_down ts q i = Some (ts2, q\<lparr>pq_d := d1[i1 := ?m]\<rparr>)"
    using i r(1) ts2(1,2) by (simp add: percolate_down_def rd_Some getpri_pri)
  moreover have "pri ts2 = pri ts1"
    using ts2(3) r(2) strip_pri [of ts2 ts1] unfolding moved_to_def by simp
  ultimately show ?thesis using ts2 r(3) assms i
    by (auto simp: pq_wf_def pq_inv_def pq_loose_def same_shape_def pq_elems_def vpri_def)
qed

lemma heap_fun_grand:
  assumes "heap_fun f n" "2 \<le> j" "j < n" "j div 2 = i" "2 \<le> i"
  shows "f (i div 2) \<le> f j"
proof -
  have "i < n" using assms by linarith
  then have "f (i div 2) \<le> f i" "f (j div 2) \<le> f j" using assms unfolding heap_fun_def by auto
  then show ?thesis using assms by simp
qed

lemma up_ok_lower: "heap_fun f n \<Longrightarrow> 1 \<le> i \<Longrightarrow> x \<le> f i \<Longrightarrow> up_ok (f(i := x)) n i"
proof -
  assume h: "heap_fun f n" and i: "1 \<le> i" and x: "x \<le> f i"
  have s: "f (j div 2) \<le> f j" if "2 \<le> j" "j < n" for j using h that unfolding heap_fun_def by auto
  have "f (i div 2) \<le> f j" if "2 \<le> j" "j < n" "j div 2 = i" "2 \<le> i" for j
    using heap_fun_grand [OF h that] .
  then show ?thesis using s x i unfolding up_ok_def
    by (auto intro: order_trans)
qed

lemma down_ok_raise: "heap_fun f n \<Longrightarrow> 1 \<le> i \<Longrightarrow> f i \<le> x \<Longrightarrow> down_ok (f(i := x)) n i"
proof -
  assume h: "heap_fun f n" and i: "1 \<le> i" and x: "f i \<le> x"
  have s: "f (j div 2) \<le> f j" if "2 \<le> j" "j < n" for j using h that unfolding heap_fun_def by auto
  have "f (i div 2) \<le> f j" if "2 \<le> j" "j < n" "j div 2 = i" "2 \<le> i" for j
    using heap_fun_grand [OF h that] .
  then show ?thesis using s x i unfolding down_ok_def
    by (auto intro: order_trans)
qed

lemma heap_fun_less: "heap_fun f n \<Longrightarrow> k \<le> n \<Longrightarrow> heap_fun f k"
  unfolding heap_fun_def by auto

lemma pq_init_inv [inv_intros]: "pq_inv ts (priority_queue_init n)"
  by (simp add: pq_inv_def pq_wf_def placed_def heap_fun_def priority_queue_init_def)

lemma pq_init_elems: "pq_elems (priority_queue_init n) = {#}"
  by (simp add: pq_elems_def seg_def priority_queue_init_def)

lemma pq_wf_pos:
  assumes "pq_wf ts q" "a \<in># pq_elems q"
  shows "\<exists>t. ts a = Some t \<and> 1 \<le> queue_pos t \<and> queue_pos t < pq_size q \<and> pq_d q ! queue_pos t = a"
  using assms unfolding pq_wf_def placed_def pq_elems_def by (auto simp: set_seg)

lemma pq_wf_nth: "pq_wf ts q \<Longrightarrow> 1 \<le> i \<Longrightarrow> i < pq_size q \<Longrightarrow>
    \<exists>t. ts (pq_d q ! i) = Some t \<and> queue_pos t = i \<and> pq_d q ! i \<in># pq_elems q"
  unfolding pq_wf_def placed_def pq_elems_def by (auto simp: set_seg)

lemma pq_elems_snoc:
  assumes "1 \<le> n"
  shows "mset (seg d (Suc n)) = add_mset (d ! n) (mset (seg d n))"
  using assms by (simp add: seg_def)

lemma pq_insert_ok:
  assumes inv: "pq_inv ts q" and live: "ts a \<noteq> None" and new: "a \<notin># pq_elems q"
  shows "\<exists>ts' q'. priority_queue_insert ts q a = Some (0, ts', q') \<and> pq_inv ts' q' \<and>
    strip ts' = strip ts \<and> pq_elems q' = add_mset a (pq_elems q)"
proof -
  define q1 where "q1 = (if pq_size q \<ge> pq_avail q
      then q\<lparr>pq_d := pq_d q @ replicate (pq_size q + pq_step q - length (pq_d q)) 0,
             pq_avail := pq_size q + pq_step q\<rparr> else q)"
  let ?n = "pq_size q"
  define q2 where "q2 = q1\<lparr>pq_size := ?n + 1, pq_d := (pq_d q1)[?n := a]\<rparr>"
  from inv have wf: "pq_wf ts q" and hp: "heap_fun (\<lambda>j. pri ts (pq_d q ! j)) ?n"
    unfolding pq_inv_def by auto
  have q1: "?n < length (pq_d q1)" "pq_size q1 = ?n" "pq_avail q1 = length (pq_d q1)"
      "1 \<le> pq_step q1" "\<And>j. j < ?n \<Longrightarrow> pq_d q1 ! j = pq_d q ! j"
    using wf unfolding q1_def pq_wf_def by (auto simp: nth_append)
  have q2: "pq_size q2 = ?n + 1" "\<And>j. j < ?n \<Longrightarrow> pq_d q2 ! j = pq_d q ! j" "pq_d q2 ! ?n = a"
    using q1 unfolding q2_def by auto
  have out: "pq_d q ! j \<noteq> a" if "1 \<le> j" "j < ?n" for j
    using new that unfolding pq_elems_def by (auto simp: set_seg)
  have "pq_loose ts q2 ?n"
    using q1 q2 wf live out unfolding pq_loose_def hole_def placed_def pq_wf_def q2_def
    by (auto simp: less_Suc_eq)
  from bubble_up_ok [OF this] obtain ts' q' where b: "bubble_up ts q2 ?n = Some (ts', q')"
      "strip ts' = strip ts" "pq_elems q' = pq_elems q2"
      "up_ok (\<lambda>j. pri ts (pq_d q2 ! j)) (pq_size q2) ?n \<longrightarrow> pq_inv ts' q'" by auto
  have "up_ok (\<lambda>j. pri ts (pq_d q2 ! j)) (pq_size q2) ?n"
    using hp q2 unfolding up_ok_def heap_fun_def by auto
  moreover have "seg (pq_d q2) ?n = seg (pq_d q) ?n"
    using q2(2) by (simp add: seg_def)
  then have "pq_elems q2 = add_mset a (pq_elems q)"
    using wf q2 unfolding pq_elems_def pq_wf_def by (simp add: pq_elems_snoc)
  moreover have "priority_queue_insert ts q a = Some (0, ts', q')"
    using b(1) q1(1,2) unfolding priority_queue_insert_def q1_def [symmetric] Let_def q2_def
    by (simp add: wr_Some)
  ultimately show ?thesis using b by auto
qed

lemma percolate_down_end:
  assumes "pq_size q \<le> i" "1 \<le> i" "i < length (pq_d q)" "ts (pq_d q ! i) = Some t" "queue_pos t = i"
  shows "percolate_down ts q i = Some (ts, q)"
proof -
  have "maxchild ts (pq_d q) (pq_size q) i = Some 0" using assms by (intro maxchild_none) simp
  then have "percolate_down_loop ts (pq_d q) (pq_size q) i p = Some (ts, pq_d q, i)" for p
    by (simp add: percolate_down_loop.simps)
  moreover have "ts(pq_d q ! i \<mapsto> t\<lparr>queue_pos := i\<rparr>) = ts" using assms by (auto simp: fun_upd_idem_iff)
  ultimately show ?thesis using assms
    by (simp add: percolate_down_def safe_simps getpri_def setpos_def)
qed

text \<open>Taking a timer out: the last array slot is moved into the freed one.\<close>

lemma fill_loose:
  assumes wf: "pq_wf ts q" and i: "1 \<le> i" "i < pq_size q - 1"
  shows "pq_loose ts (q\<lparr>pq_size := pq_size q - 1, pq_d := (pq_d q)[i := pq_d q ! (pq_size q - 1)]\<rparr>) i"
proof -
  let ?k = "pq_size q - 1"
  have pl: "placed ts (pq_d q) (pq_size q) 0" and l: "pq_size q \<le> length (pq_d q)"
    using wf unfolding pq_wf_def by auto
  have "pq_d q ! j \<noteq> pq_d q ! ?k" if "1 \<le> j" "j < ?k" for j
  proof
    assume eq: "pq_d q ! j = pq_d q ! ?k"
    have "j = ?k" by (rule placed_inj [OF pl _ _ _ _ _ _ eq]) (use that i in auto)
    with that show False by simp
  qed
  then show ?thesis using wf i placed_live [OF pl, of ?k]
    unfolding pq_loose_def hole_def pq_wf_def placed_def by (auto simp: nth_list_update)
qed

lemma fill_elems:
  assumes "pq_wf ts q" "1 \<le> i" "i < pq_size q"
  shows "pq_elems q = add_mset (pq_d q ! i)
    (pq_elems (q\<lparr>pq_size := pq_size q - 1, pq_d := (pq_d q)[i := pq_d q ! (pq_size q - 1)]\<rparr>))"
proof -
  let ?d = "pq_d q" and ?k = "pq_size q - 1"
  have l: "pq_size q \<le> length ?d" using assms(1) unfolding pq_wf_def by auto
  have "pq_elems q = mset (seg ?d (Suc ?k))" using assms by (simp add: pq_elems_def)
  also have "\<dots> = mset (seg (?d[i := ?d ! ?k, ?k := ?d ! i]) (Suc ?k))"
    using assms l by (intro mset_seg_swap [symmetric]) auto
  also have "\<dots> = add_mset (?d ! i) (mset (seg (?d[i := ?d ! ?k, ?k := ?d ! i]) ?k))"
    using assms l by (subst pq_elems_snoc) auto
  also have "seg (?d[i := ?d ! ?k, ?k := ?d ! i]) ?k = seg (?d[i := ?d ! ?k]) ?k"
    by (simp add: seg_def)
  finally show ?thesis by (simp add: pq_elems_def)
qed

lemma pq_remove_ok:
  assumes inv: "pq_inv ts q" and a: "a \<in># pq_elems q"
  shows "\<exists>ts' q'. priority_queue_remove ts q a = Some (ts', q') \<and> pq_inv ts' q' \<and>
    strip ts' = strip ts \<and> pq_elems q = add_mset a (pq_elems q')"
proof -
  let ?k = "pq_size q - 1"
  from inv have wf: "pq_wf ts q" and hp: "heap_fun (\<lambda>j. pri ts (pq_d q ! j)) (pq_size q)"
    unfolding pq_inv_def by auto
  from pq_wf_pos [OF wf a] obtain t i where t: "ts a = Some t" "queue_pos t = i"
    and i: "1 \<le> i" "i < pq_size q" "pq_d q ! i = a" by auto
  define q1 where "q1 = q\<lparr>pq_size := ?k, pq_d := (pq_d q)[i := pq_d q ! ?k]\<rparr>"
  have l: "pq_size q \<le> length (pq_d q)" using wf unfolding pq_wf_def by auto
  have live: "ts (pq_d q ! ?k) \<noteq> None" using pq_wf_nth [OF wf, of ?k] i by fastforce
  have el: "pq_elems q = add_mset a (pq_elems q1)"
    using fill_elems [OF wf i(1,2)] i(3) unfolding q1_def by simp
  have rm: "priority_queue_remove ts q a =
      (if pri ts a > pri ts (pq_d q ! ?k) then bubble_up ts q1 i else percolate_down ts q1 i)"
    using t i l live
    by (simp add: priority_queue_remove_def getpos_def q1_def safe_simps getpri_pri cmppri_def Let_def)
  show ?thesis
  proof (cases "i = ?k")
    case True
    have "q1 = q\<lparr>pq_size := ?k\<rparr>" unfolding q1_def True by simp
    moreover have "percolate_down ts q1 i = Some (ts, q1)"
      using True i l t by (intro percolate_down_end [where t = t]) (auto simp: q1_def)
    moreover have "pq_inv ts (q\<lparr>pq_size := ?k\<rparr>)"
      using wf hp True i heap_fun_less [OF hp, of ?k] unfolding pq_inv_def pq_wf_def placed_def by auto
    ultimately show ?thesis using rm el True i by auto
  next
    case False
    let ?f = "\<lambda>j. pri ts (pq_d q ! j)"
    have loose: "pq_loose ts q1 i" using fill_loose [OF wf i(1)] False i unfolding q1_def by simp
    have f: "(\<lambda>j. pri ts (pq_d q1 ! j)) = ?f(i := pri ts (pq_d q ! ?k))"
      using i l by (auto simp: q1_def nth_list_update fun_eq_iff)
    have hk: "heap_fun ?f (pq_size q1)" using heap_fun_less [OF hp] by (simp add: q1_def)
    show ?thesis
      using bubble_up_ok [OF loose] percolate_down_ok [OF loose] rm el i
        up_ok_lower [OF hk i(1), of "pri ts (pq_d q ! ?k)"]
        down_ok_raise [OF hk i(1), of "pri ts (pq_d q ! ?k)"]
      unfolding f by (cases "pri ts a > pri ts (pq_d q ! ?k)") auto
  qed
qed

lemma pq_elems_empty: "pq_wf ts q \<Longrightarrow> pq_elems q = {#} \<longleftrightarrow> pq_size q = 1"
  by (auto simp: pq_elems_def seg_def pq_wf_def mset_set_empty_iff)

lemma pq_pop_empty: "pq_wf ts q \<Longrightarrow> pq_elems q = {#} \<Longrightarrow> priority_queue_pop ts q = Some (None, ts, q)"
  by (simp add: pq_elems_empty priority_queue_pop_def)

lemma pq_root_min:
  assumes "pq_inv ts q" "b \<in># pq_elems q"
  shows "pri ts (pq_d q ! 1) \<le> pri ts b"
proof -
  from assms obtain i where "1 \<le> i" "i < pq_size q" "b = pq_d q ! i"
    unfolding pq_elems_def by (auto simp: set_seg)
  then show ?thesis using assms(1) heap_fun_root unfolding pq_inv_def by fastforce
qed

text \<open>\<open>pop\<close> is \<open>remove\<close> of the root: the root's slot is 1, so no node above it can need to move.\<close>

lemma pq_pop_remove:
  assumes inv: "pq_inv ts q" and ne: "pq_elems q \<noteq> {#}"
  shows "priority_queue_pop ts q =
    map_option (\<lambda>(ts', q'). (Some (pq_d q ! 1), ts', q')) (priority_queue_remove ts q (pq_d q ! 1))"
proof -
  let ?k = "pq_size q - 1" and ?a = "pq_d q ! 1"
  from inv have wf: "pq_wf ts q" unfolding pq_inv_def by auto
  then have n: "1 < pq_size q" "pq_size q \<le> length (pq_d q)"
    using ne pq_elems_empty [OF wf] unfolding pq_wf_def by auto
  obtain t where t: "ts ?a = Some t" "queue_pos t = 1" using pq_wf_nth [OF wf, of 1] n by auto
  have live: "ts (pq_d q ! ?k) \<noteq> None" "pq_d q ! ?k \<in># pq_elems q"
    using pq_wf_nth [OF wf, of ?k] n by force+
  have "pri ts ?a \<le> pri ts (pq_d q ! ?k)" using pq_root_min [OF inv live(2)] .
  then show ?thesis using n t live(1)
    by (auto simp: priority_queue_pop_def priority_queue_remove_def getpos_def safe_simps getpri_pri
        cmppri_def map_option_case Let_def split: option.splits)
qed

lemma pq_pop_ok:
  assumes inv: "pq_inv ts q" and ne: "pq_elems q \<noteq> {#}"
  shows "\<exists>a ts' q'. priority_queue_pop ts q = Some (Some a, ts', q') \<and> pq_inv ts' q' \<and>
    strip ts' = strip ts \<and> pq_elems q = add_mset a (pq_elems q') \<and> (\<forall>b\<in>#pq_elems q. pri ts a \<le> pri ts b)"
proof -
  from inv have wf: "pq_wf ts q" unfolding pq_inv_def by auto
  then have "1 < pq_size q" using ne pq_elems_empty [OF wf] unfolding pq_wf_def by auto
  then have "pq_d q ! 1 \<in># pq_elems q" using pq_wf_nth [OF wf, of 1] by auto
  from pq_remove_ok [OF inv this] pq_pop_remove [OF inv ne] pq_root_min [OF inv] show ?thesis
    by auto
qed

lemma pq_peek_ok:
  assumes "pq_inv ts q"
  shows "priority_queue_peek q = Some (if pq_elems q = {#} then None else Some (pq_d q ! 1))"
proof -
  have wf: "pq_wf ts q" using assms unfolding pq_inv_def by auto
  then show ?thesis using pq_elems_empty [OF wf] unfolding priority_queue_peek_def pq_wf_def
    by (auto simp: safe_simps)
qed

lemma pq_change_priority_ok:
  assumes inv: "pq_inv ts q" and a: "a \<in># pq_elems q" "ts a = Some t"
  shows "\<exists>ts' q'. priority_queue_change_priority ts q p a = Some (ts', q') \<and> pq_inv ts' q' \<and>
    strip ts' = strip (ts(a \<mapsto> t\<lparr>timer_time := p\<rparr>)) \<and> pq_elems q' = pq_elems q"
proof -
  let ?ts = "ts(a \<mapsto> t\<lparr>timer_time := p\<rparr>)" and ?f = "\<lambda>j. pri ts (pq_d q ! j)"
  from inv have wf: "pq_wf ts q" and hp: "heap_fun ?f (pq_size q)" unfolding pq_inv_def by auto
  from pq_wf_pos [OF wf a(1)] a(2) obtain i where i: "queue_pos t = i" "1 \<le> i" "i < pq_size q"
    "pq_d q ! i = a" by auto
  have pl: "placed ts (pq_d q) (pq_size q) 0" and l: "pq_size q \<le> length (pq_d q)"
    using wf unfolding pq_wf_def by auto
  have ne: "pq_d q ! j \<noteq> a" if "1 \<le> j" "j < pq_size q" "j \<noteq> i" for j
    using placed_inj [OF pl, of j i] that i by auto
  have loose: "pq_loose ?ts q i"
    using wf ne i a(2) unfolding pq_loose_def hole_def pq_wf_def placed_def by auto
  have f: "(\<lambda>j. pri ?ts (pq_d q ! j)) j = (?f(i := p)) j" if "1 \<le> j" "j < pq_size q" for j
    using ne [OF that] i by (auto simp: pri_def)
  have up: "p \<le> timer_time t \<Longrightarrow> up_ok (\<lambda>j. pri ?ts (pq_d q ! j)) (pq_size q) i"
  proof -
    assume "p \<le> timer_time t"
    then have "up_ok (?f(i := p)) (pq_size q) i"
      using up_ok_lower [OF hp i(2)] i(4) a(2) by (simp add: pri_def)
    moreover have "i < pq_size q" using i by simp
    ultimately show ?thesis using f unfolding up_ok_def by (auto simp del: fun_upd_apply)
  qed
  have down: "timer_time t \<le> p \<Longrightarrow> down_ok (\<lambda>j. pri ?ts (pq_d q ! j)) (pq_size q) i"
  proof -
    assume "timer_time t \<le> p"
    then have "down_ok (?f(i := p)) (pq_size q) i"
      using down_ok_raise [OF hp i(2)] i(4) a(2) by (simp add: pri_def)
    moreover have "i < pq_size q" using i by simp
    ultimately show ?thesis using f unfolding down_ok_def by (auto simp del: fun_upd_apply)
  qed
  have "priority_queue_change_priority ts q p a =
      (if timer_time t > p then bubble_up ?ts q i else percolate_down ?ts q i)"
    using a(2) i(1)
    by (simp add: priority_queue_change_priority_def getpri_def setpri_def getpos_def cmppri_def)
  then show ?thesis
    using bubble_up_ok [OF loose] percolate_down_ok [OF loose] up down
    by (cases "timer_time t > p") auto
qed

text \<open>Only the times and positions of the queued timers matter to the invariant.\<close>

lemma pq_inv_frame:
  assumes "pq_inv ts q"
    and "\<And>a. a \<in># pq_elems q \<Longrightarrow>
      map_option (\<lambda>t. (timer_time t, queue_pos t)) (ts' a) = map_option (\<lambda>t. (timer_time t, queue_pos t)) (ts a)"
  shows "pq_inv ts' q"
proof -
  have wf: "pq_wf ts q" using assms(1) unfolding pq_inv_def by auto
  have e: "pri ts' (pq_d q ! j) = pri ts (pq_d q ! j) \<and>
      (\<exists>t. ts' (pq_d q ! j) = Some t \<and> queue_pos t = j)" if "1 \<le> j" "j < pq_size q" for j
  proof -
    from pq_wf_nth [OF wf that] obtain t where "ts (pq_d q ! j) = Some t" "queue_pos t = j"
      "pq_d q ! j \<in># pq_elems q" by auto
    then show ?thesis using assms(2) [of "pq_d q ! j"] by (auto simp: pri_def)
  qed
  have "heap_fun (\<lambda>j. pri ts' (pq_d q ! j)) (pq_size q)"
    unfolding heap_fun_def
  proof (intro allI impI)
    fix j assume j: "2 \<le> j" "j < pq_size q"
    then have "1 \<le> j div 2" "j div 2 < pq_size q" by auto
    then show "pri ts' (pq_d q ! (j div 2)) \<le> pri ts' (pq_d q ! j)"
      using e [of j] e [of "j div 2"] assms(1) j unfolding pq_inv_def heap_fun_def by auto
  qed
  then show ?thesis using wf e unfolding pq_inv_def pq_wf_def placed_def by auto
qed

section \<open>The validity check\<close>

text \<open>
  \<open>priority_queue_is_valid\<close> walks the whole tree from the root; \<open>below p\<close> are the positions of the
  subtree at \<open>p\<close>.
\<close>

inductive below :: "nat \<Rightarrow> nat \<Rightarrow> bool" where
  here: "below p p"
| left: "below p j \<Longrightarrow> below p (2 * j)"
| right: "below p j \<Longrightarrow> below p (2 * j + 1)"

definition node_ok :: "(nat \<Rightarrow> nat) \<Rightarrow> nat \<Rightarrow> nat \<Rightarrow> bool" where
  "node_ok f n j \<longleftrightarrow> (2 * j < n \<longrightarrow> f j \<le> f (2 * j)) \<and> (2 * j + 1 < n \<longrightarrow> f j \<le> f (2 * j + 1))"

lemma below_ge: "below p j \<Longrightarrow> p \<le> j"
  by (induction rule: below.induct) auto

lemma below_trans: "below q j \<Longrightarrow> below p q \<Longrightarrow> below p j"
  by (induction rule: below.induct) (auto intro: below.left below.right [simplified])

lemma below_unfold: "below p j \<longleftrightarrow> j = p \<or> below (2 * p) j \<or> below (2 * p + 1) j"
proof
  assume "below p j"
  then show "j = p \<or> below (2 * p) j \<or> below (2 * p + 1) j"
    by (induction rule: below.induct) (metis below.intros)+
next
  assume "j = p \<or> below (2 * p) j \<or> below (2 * p + 1) j"
  then show "below p j"
    using below_trans [OF _ below.left [OF below.here]] below_trans [OF _ below.right [OF below.here]]
      below.here by blast
qed

lemma below_root: "1 \<le> j \<Longrightarrow> below 1 j"
proof (induction j rule: less_induct)
  case (less j)
  show ?case
  proof (cases "j = 1")
    case False
    then have b: "below 1 (j div 2)" using less by auto
    show ?thesis
      using below.left [OF b] below.right [OF b] by (cases "even j") auto
  qed (simp add: below.here)
qed

lemma heap_fun_nodes: "heap_fun f n \<longleftrightarrow> (\<forall>j. below 1 j \<longrightarrow> node_ok f n j)"
proof
  assume "heap_fun f n"
  then have h: "\<And>j. 2 \<le> j \<Longrightarrow> j < n \<Longrightarrow> f (j div 2) \<le> f j" unfolding heap_fun_def by auto
  show "\<forall>j. below 1 j \<longrightarrow> node_ok f n j"
    using h [of "2 * j" for j] h [of "2 * j + 1" for j] unfolding node_ok_def by (auto dest!: below_ge)
next
  assume a: "\<forall>j. below 1 j \<longrightarrow> node_ok f n j"
  show "heap_fun f n" unfolding heap_fun_def
  proof (intro allI impI)
    fix j :: nat assume "2 \<le> j" "j < n"
    then have "node_ok f n (j div 2)" using a below_root [of "j div 2"] by auto
    then show "f (j div 2) \<le> f j"
      using \<open>j < n\<close> unfolding node_ok_def by (cases "even j") auto
  qed
qed

lemma nodes_out: "n \<le> p \<Longrightarrow> below p j \<Longrightarrow> node_ok f n j"
  by (auto simp: node_ok_def dest: below_ge)

lemma subtree_is_valid_ok:
  assumes wf: "pq_wf ts q" and p: "1 \<le> p" "p < pq_size q"
  shows "\<exists>b. subtree_is_valid ts q p = Some b \<and>
    (b \<longleftrightarrow> (\<forall>j. below p j \<longrightarrow> node_ok (\<lambda>j. pri ts (pq_d q ! j)) (pq_size q) j))"
  using p
proof (induction "pq_size q - p" arbitrary: p rule: less_induct)
  case less
  let ?f = "\<lambda>j. pri ts (pq_d q ! j)" and ?n = "pq_size q"
  let ?ok = "\<lambda>p. \<forall>j. below p j \<longrightarrow> node_ok ?f ?n j"
  have acc: "rd (pq_d q) j = Some (pq_d q ! j)" "getpri ts (pq_d q ! j) = Some (?f j)"
    if "1 \<le> j" "j < ?n" for j
    using pq_wf_nth [OF wf that] that wf unfolding pq_wf_def by (auto simp: rd_Some getpri_pri)
  have sub: "\<exists>b. subtree_is_valid ts q c = Some b \<and> (b \<longleftrightarrow> ?ok c)"
    if "c < ?n" "p < c" for c
    using less.hyps [of c] that less.prems by auto
  have ok: "?ok p \<longleftrightarrow> node_ok ?f ?n p \<and> ?ok (2 * p) \<and> ?ok (2 * p + 1)"
    by (auto simp: below_unfold [of p])
  have outl: "?n \<le> 2 * p \<Longrightarrow> ?ok (2 * p)" and outr: "?n \<le> 2 * p + 1 \<Longrightarrow> ?ok (2 * p + 1)"
    using nodes_out by blast+
  have "1 \<le> p" "p < ?n" using less.prems by auto
  consider "?n \<le> 2 * p" | "2 * p < ?n" "?n \<le> 2 * p + 1" | "2 * p + 1 < ?n" by linarith
  then show ?case
  proof cases
    case 1
    then show ?thesis using ok outl outr
      by (subst subtree_is_valid.simps) (auto simp: left_pos_def right_pos_def node_ok_def)
  next
    case 2
    obtain b where b: "subtree_is_valid ts q (2 * p) = Some b" "b \<longleftrightarrow> ?ok (2 * p)"
      using sub [of "2 * p"] 2 \<open>1 \<le> p\<close> by auto
    have "node_ok ?f ?n p \<longleftrightarrow> ?f p \<le> ?f (2 * p)" using 2 by (auto simp: node_ok_def)
    then show ?thesis using 2 ok outr b acc [of p] acc [of "2 * p"] \<open>1 \<le> p\<close>
      by (subst subtree_is_valid.simps) (simp add: left_pos_def right_pos_def cmppri_def not_less)
  next
    case 3
    obtain b where b: "subtree_is_valid ts q (2 * p) = Some b" "b \<longleftrightarrow> ?ok (2 * p)"
      using sub [of "2 * p"] 3 \<open>1 \<le> p\<close> by auto
    obtain c where c: "subtree_is_valid ts q (2 * p + 1) = Some c" "c \<longleftrightarrow> ?ok (2 * p + 1)"
      using sub [of "2 * p + 1"] 3 \<open>1 \<le> p\<close> by auto
    have "node_ok ?f ?n p \<longleftrightarrow> ?f p \<le> ?f (2 * p) \<and> ?f p \<le> ?f (2 * p + 1)"
      using 3 by (auto simp: node_ok_def)
    then show ?thesis using 3 ok b c acc [of p] acc [of "2 * p"] acc [of "2 * p + 1"] \<open>1 \<le> p\<close>
      by (subst subtree_is_valid.simps) (simp add: left_pos_def right_pos_def cmppri_def not_less)
  qed
qed

lemma pq_is_valid_iff:
  assumes "pq_wf ts q" "1 < pq_size q"
  shows "priority_queue_is_valid ts q = Some (heap_fun (\<lambda>j. pri ts (pq_d q ! j)) (pq_size q))"
  using subtree_is_valid_ok [OF assms(1), of 1] assms(2)
  by (auto simp: priority_queue_is_valid_def heap_fun_nodes)

section \<open>The contract of the queue\<close>

locale timer_queue =
  fixes inv :: "theap \<Rightarrow> 'q \<Rightarrow> bool"
    and elems :: "'q \<Rightarrow> addr multiset"
    and insert_timer :: "theap \<Rightarrow> 'q \<Rightarrow> addr \<Rightarrow> (nat \<times> theap \<times> 'q) option"
    and remove_timer :: "theap \<Rightarrow> 'q \<Rightarrow> addr \<Rightarrow> (theap \<times> 'q) option"
    and pop_timer :: "theap \<Rightarrow> 'q \<Rightarrow> (addr option \<times> theap \<times> 'q) option"
    and peek_timer :: "'q \<Rightarrow> addr option option"
  assumes insert_law: "inv ts q \<Longrightarrow> ts a \<noteq> None \<Longrightarrow> a \<notin># elems q \<Longrightarrow>
      \<exists>ts' q'. insert_timer ts q a = Some (0, ts', q') \<and> inv ts' q' \<and> strip ts' = strip ts \<and>
        elems q' = add_mset a (elems q)"
    and remove_law: "inv ts q \<Longrightarrow> a \<in># elems q \<Longrightarrow>
      \<exists>ts' q'. remove_timer ts q a = Some (ts', q') \<and> inv ts' q' \<and> strip ts' = strip ts \<and>
        elems q = add_mset a (elems q')"
    and pop_empty_law: "inv ts q \<Longrightarrow> elems q = {#} \<Longrightarrow>
      pop_timer ts q = Some (None, ts, q) \<and> peek_timer q = Some None"
    and pop_law: "inv ts q \<Longrightarrow> elems q \<noteq> {#} \<Longrightarrow>
      \<exists>a ts' q'. peek_timer q = Some (Some a) \<and> pop_timer ts q = Some (Some a, ts', q') \<and>
        inv ts' q' \<and> strip ts' = strip ts \<and> elems q = add_mset a (elems q') \<and>
        (\<forall>b\<in>#elems q. pri ts a \<le> pri ts b)"
    and frame_law: "inv ts q \<Longrightarrow>
      (\<And>a. a \<in># elems q \<Longrightarrow> map_option (\<lambda>t. (timer_time t, queue_pos t)) (ts' a) =
        map_option (\<lambda>t. (timer_time t, queue_pos t)) (ts a)) \<Longrightarrow> inv ts' q"
begin

lemma pop_Some:
  assumes "inv ts q" "pop_timer ts q = Some (Some a, ts', q')"
  shows "inv ts' q'" "strip ts' = strip ts" "elems q = add_mset a (elems q')"
    "\<forall>b\<in>#elems q. pri ts a \<le> pri ts b" "peek_timer q = Some (Some a)"
  using assms pop_law [of ts q] pop_empty_law [of ts q] by (cases "elems q = {#}"; force)+

lemma pops_sorted:
  assumes "inv ts q" "pop_timer ts q = Some (Some a, ts1, q1)"
    "pop_timer ts1 q1 = Some (Some b, ts2, q2)"
  shows "pri ts a \<le> pri ts b"
  using pop_Some [OF assms(1,2)] pop_Some(3) [of ts1 q1 b ts2 q2] assms(3) by auto

lemma insert_remove:
  assumes "inv ts q" "ts a \<noteq> None" "a \<notin># elems q"
  shows "\<exists>ts1 q1 ts2 q2. insert_timer ts q a = Some (0, ts1, q1) \<and>
    remove_timer ts1 q1 a = Some (ts2, q2) \<and> inv ts2 q2 \<and> strip ts2 = strip ts \<and> elems q2 = elems q"
proof -
  from insert_law [OF assms] obtain ts1 q1 where i: "insert_timer ts q a = Some (0, ts1, q1)"
    "inv ts1 q1" "strip ts1 = strip ts" "elems q1 = add_mset a (elems q)" by auto
  from remove_law [OF i(2), of a] i(4) obtain ts2 q2 where "remove_timer ts1 q1 a = Some (ts2, q2)"
    "inv ts2 q2" "strip ts2 = strip ts1" "add_mset a (elems q) = add_mset a (elems q2)" by auto
  with i show ?thesis by auto
qed

end

interpretation tq: timer_queue pq_inv pq_elems priority_queue_insert priority_queue_remove
  priority_queue_pop priority_queue_peek
proof (unfold_locales, goal_cases)
  case (1 ts q a) then show ?case by (rule pq_insert_ok)
next
  case (2 ts q a) then show ?case by (rule pq_remove_ok)
next
  case (3 ts q)
  then have "pq_wf ts q" unfolding pq_inv_def by simp
  with 3 show ?case by (simp add: pq_pop_empty pq_peek_ok)
next
  case (4 ts q)
  from pq_pop_ok [OF 4] obtain a ts' q' where p: "priority_queue_pop ts q = Some (Some a, ts', q')"
    "pq_inv ts' q'" "strip ts' = strip ts" "pq_elems q = add_mset a (pq_elems q')"
    "\<forall>b\<in>#pq_elems q. pri ts a \<le> pri ts b" by blast
  then have "a = pq_d q ! 1" using pq_pop_remove [OF 4] by auto
  then have "priority_queue_peek q = Some (Some a)" using pq_peek_ok [OF 4(1)] 4(2) by simp
  with p show ?case by blast
next
  case (5 ts q ts') then show ?case by (rule pq_inv_frame)
qed

section \<open>Emptying the queue\<close>

text \<open>\<open>pop_all\<close> pops until the queue is empty and collects the timers.\<close>

partial_function (option) pop_all :: "theap \<Rightarrow> pqueue \<Rightarrow> addr list option" where
  "pop_all ts q = do {
     (a, ts1, q1) \<leftarrow> priority_queue_pop ts q;
     (case a of None \<Rightarrow> Some [] | Some x \<Rightarrow> do { xs \<leftarrow> pop_all ts1 q1; Some (x # xs) })
   }"

fun insert_all :: "addr list \<Rightarrow> theap \<Rightarrow> pqueue \<Rightarrow> (theap \<times> pqueue) option" where
  "insert_all [] ts q = Some (ts, q)"
| "insert_all (a # as) ts q = do { (_, ts1, q1) \<leftarrow> priority_queue_insert ts q a; insert_all as ts1 q1 }"

lemma pop_all_ok:
  assumes "pq_inv ts q"
  shows "\<exists>xs. pop_all ts q = Some xs \<and> mset xs = pq_elems q \<and> sorted (map (pri ts) xs)"
  using assms
proof (induction "size (pq_elems q)" arbitrary: ts q)
  case 0
  then have "priority_queue_pop ts q = Some (None, ts, q)" using tq.pop_empty_law by auto
  then have "pop_all ts q = Some []" by (subst pop_all.simps) simp
  then show ?case using 0 by simp
next
  case (Suc k)
  then have "pq_elems q \<noteq> {#}" by auto
  from tq.pop_law [OF Suc.prems this] obtain a ts1 q1 where p: "priority_queue_pop ts q = Some (Some a, ts1, q1)" "pq_inv ts1 q1"
    "strip ts1 = strip ts" "pq_elems q = add_mset a (pq_elems q1)" "\<forall>b \<in># pq_elems q. pri ts a \<le> pri ts b" by blast
  from Suc.hyps(1) [of q1, OF _ p(2)] Suc.hyps(2) p(4) obtain xs where
    xs: "pop_all ts1 q1 = Some xs" "mset xs = pq_elems q1" "sorted (map (pri ts1) xs)" by auto
  have "pop_all ts q = Some (a # xs)" using p(1) xs(1) by (subst pop_all.simps) simp
  moreover have "pri ts1 = pri ts" using strip_pri [OF p(3)] .
  moreover have "\<forall>b \<in> set xs. pri ts a \<le> pri ts b" using p(4,5) xs(2) by (metis set_mset_mset union_iff add_mset_add_single)
  ultimately show ?case using xs p(4) by simp
qed

lemma insert_all_ok:
  assumes "pq_inv ts q" "\<forall>a \<in> set as. ts a \<noteq> None" "distinct as" "\<forall>a \<in> set as. a \<notin># pq_elems q"
  shows "\<exists>ts' q'. insert_all as ts q = Some (ts', q') \<and> pq_inv ts' q' \<and> strip ts' = strip ts \<and> pq_elems q' = pq_elems q + mset as"
  using assms
proof (induction as arbitrary: ts q)
  case (Cons a as)
  from tq.insert_law [OF Cons.prems(1), of a] Cons.prems obtain ts1 q1 where
    i: "priority_queue_insert ts q a = Some (0, ts1, q1)" "pq_inv ts1 q1" "strip ts1 = strip ts" "pq_elems q1 = add_mset a (pq_elems q)" by auto
  have "\<forall>b \<in> set as. ts1 b \<noteq> None" using Cons.prems(2) strip_None [OF i(3)] by auto
  moreover have "\<forall>b \<in> set as. b \<notin># pq_elems q1" using Cons.prems(3,4) i(4) by auto
  ultimately obtain ts' q' where "insert_all as ts1 q1 = Some (ts', q')" "pq_inv ts' q'" "strip ts' = strip ts1"
    "pq_elems q' = pq_elems q1 + mset as" using Cons.IH [OF i(2)] Cons.prems(3) by auto
  then show ?case using i by auto
qed simp

section \<open>Properties\<close>

text \<open>Three timers, the first two of them queued.\<close>

definition three_timers :: theap where
  "three_timers =
     [5 \<mapsto> \<lparr>timer_mgr = None, timer_time = 10, queue_pos = 1, cookie = CFunction 0\<rparr>,
      6 \<mapsto> \<lparr>timer_mgr = None, timer_time = 20, queue_pos = 2, cookie = CFunction 1\<rparr>,
      7 \<mapsto> \<lparr>timer_mgr = None, timer_time = 3, queue_pos = 0, cookie = CFunction 2\<rparr>]"

definition two_queued :: pqueue where
  "two_queued = \<lparr>pq_size = 3, pq_avail = 3, pq_step = 2, pq_d = [0, 5, 6]\<rparr>"

lemma two_queued_wf: "pq_wf three_timers two_queued"
proof -
  have "j = 1 \<or> j = 2" if "1 \<le> j" "j < 3" for j :: nat using that by arith
  then show ?thesis by (fastforce simp: pq_wf_def placed_def two_queued_def three_timers_def)
qed

lemma two_queued_inv: "pq_inv three_timers two_queued"
proof -
  have "j = 2" if "2 \<le> j" "j < 3" for j :: nat using that by arith
  then show ?thesis
    using two_queued_wf by (fastforce simp: pq_inv_def heap_fun_def two_queued_def three_timers_def pri_def)
qed

lemma two_queued_elems: "pq_elems two_queued = {#5, 6#}"
  by (simp add: pq_elems_def seg_def two_queued_def upt_rec)

text \<open>
  C13: Heap sort. Inserting any distinct live timers into a new queue and popping until it is empty
  returns: the timers come out exactly once each, in the order of their expiration times, whatever
  the initial capacity; the array grows as needed and no access is out of bounds.
\<close>

theorem pqueue_sorts:
  assumes "distinct as" "\<forall>a \<in> set as. ts a \<noteq> None"
  shows "\<exists>ts' q xs. insert_all as ts (priority_queue_init n) = Some (ts', q) \<and> pop_all ts' q = Some xs \<and>
    mset xs = mset as \<and> sorted (map (pri ts) xs)"
proof -
  from insert_all_ok [OF pq_init_inv, of as ts n] assms pq_init_elems [of n] obtain ts' q where
    i: "insert_all as ts (priority_queue_init n) = Some (ts', q)" "pq_inv ts' q" "strip ts' = strip ts" "pq_elems q = mset as" by auto
  from pop_all_ok [OF i(2)] obtain xs where "pop_all ts' q = Some xs" "mset xs = pq_elems q" "sorted (map (pri ts') xs)" by blast
  then show ?thesis using i strip_pri [OF i(3)] by auto
qed

theorem pqueue_sorts_witness:
  "\<exists>ts' q xs. insert_all [5, 6, 7] three_timers (priority_queue_init 1) = Some (ts', q) \<and> pop_all ts' q = Some xs \<and>
    mset xs = mset [5, 6, 7] \<and> sorted (map (pri three_timers) xs)"
  by (rule pqueue_sorts) (simp_all add: three_timers_def)

text \<open>
  Inserting a live timer that is not queued succeeds and keeps the heap order and the back
  references from timers to their slots; it adds the timer and changes nothing else of any timer.
\<close>

theorem pqueue_insert_correct:
  assumes "pq_inv ts q" "ts a \<noteq> None" "a \<notin># pq_elems q"
  shows "\<exists>ts' q'. priority_queue_insert ts q a = Some (0, ts', q') \<and> pq_inv ts' q' \<and> strip ts' = strip ts \<and>
    pq_elems q' = add_mset a (pq_elems q)"
  by (rule tq.insert_law [OF assms])

theorem pqueue_insert_correct_witness:
  "\<exists>ts' q'. priority_queue_insert three_timers two_queued 7 = Some (0, ts', q') \<and> pq_inv ts' q' \<and>
    strip ts' = strip three_timers \<and> pq_elems q' = add_mset 7 (pq_elems two_queued)"
  by (rule pqueue_insert_correct [OF two_queued_inv]) (simp_all add: three_timers_def two_queued_elems)

text \<open>
  C33: Removing a queued timer from the middle of the heap: the slot is refilled with the last timer, which
  is moved up or down; the heap order holds again and exactly that timer is gone.
\<close>

theorem pqueue_remove_correct:
  assumes "pq_inv ts q" "a \<in># pq_elems q"
  shows "\<exists>ts' q'. priority_queue_remove ts q a = Some (ts', q') \<and> pq_inv ts' q' \<and> strip ts' = strip ts \<and>
    pq_elems q = add_mset a (pq_elems q')"
  by (rule tq.remove_law [OF assms])

theorem pqueue_remove_correct_witness:
  "\<exists>ts' q'. priority_queue_remove three_timers two_queued 5 = Some (ts', q') \<and> pq_inv ts' q' \<and>
    strip ts' = strip three_timers \<and> pq_elems two_queued = add_mset 5 (pq_elems q')"
  by (rule pqueue_remove_correct [OF two_queued_inv]) (simp add: two_queued_elems)

text \<open>
  Changing the priority of a queued timer, up or down, stores the new time, moves the timer to its
  place and keeps the set of queued timers.
\<close>

theorem pqueue_change_priority_correct:
  assumes "pq_inv ts q" "a \<in># pq_elems q" "ts a = Some t"
  shows "\<exists>ts' q'. priority_queue_change_priority ts q p a = Some (ts', q') \<and> pq_inv ts' q' \<and>
    strip ts' = strip (ts(a \<mapsto> t\<lparr>timer_time := p\<rparr>)) \<and> pq_elems q' = pq_elems q"
  by (rule pq_change_priority_ok [OF assms])

theorem pqueue_change_priority_correct_witness:
  "\<exists>ts' q'. priority_queue_change_priority three_timers two_queued 4 6 = Some (ts', q') \<and> pq_inv ts' q' \<and>
    strip ts' = strip (three_timers(6 \<mapsto> \<lparr>timer_mgr = None, timer_time = 20, queue_pos = 2, cookie = CFunction 1\<rparr>\<lparr>timer_time := 4\<rparr>)) \<and>
    pq_elems q' = pq_elems two_queued"
  by (rule pqueue_change_priority_correct [OF two_queued_inv]) (simp_all add: two_queued_elems three_timers_def)

text \<open>
  The recursive validity check of the code terminates on every non-empty well-formed queue and
  returns true exactly when the array is in heap order.
\<close>

theorem pqueue_is_valid_iff_heap:
  assumes "pq_wf ts q" "1 < pq_size q"
  shows "priority_queue_is_valid ts q = Some (heap_fun (\<lambda>j. pri ts (pq_d q ! j)) (pq_size q))"
  by (rule pq_is_valid_iff [OF assms])

theorem pqueue_is_valid_iff_heap_witness:
  "priority_queue_is_valid three_timers two_queued =
     Some (heap_fun (\<lambda>j. pri three_timers (pq_d two_queued ! j)) (pq_size two_queued))"
  by (rule pqueue_is_valid_iff_heap [OF two_queued_wf]) (simp add: two_queued_def)

end
