(* ===== verification/Timer.thy ===== *)
theory Timer
  imports PQueue
begin

text \<open>
  Timers and timer managers, \<^verbatim>\<open>libhilti/timer.c\<close>.

  The state is the record \<open>timer_world\<close>: the store of timers, the store of timer managers (each a
  current time and a priority queue), the manager of the execution context, and the exception
  reported so far. It is extensible: the containers that attach timers to their elements add their
  own stores to it.

  A timer that fires dispatches on its cookie. The actions (\<open>expiry_ops\<close>) belong to the containers
  and to compiled HILTI code, so the operations that fire take them as an argument; they may do
  anything to the state, and since they may schedule further timers the two loops that fire timers
  are partial functions (\<^term>\<open>None\<close> includes not returning). What the containers' actions really
  do is the contract \<open>quiet_expiry\<close>, under which the loops are shown to terminate and to fire exactly
  the timers that are due, earliest first.
\<close>

section \<open>State\<close>

record hlt_timer_mgr =
  mgr_time :: nat
  mgr_timers :: pqueue

record timer_world =
  tw_timers :: theap
  tw_mgrs :: "addr \<rightharpoonup> hlt_timer_mgr"
  tw_next :: addr
  tw_ctx_tmgr :: addr
  tw_vid_main :: bool
  tw_global_time :: nat
  tw_excpt :: "exn option"

record 'w expiry_ops =
  x_function :: "nat \<Rightarrow> 'w \<Rightarrow> 'w option"
  x_list :: "addr \<Rightarrow> addr \<Rightarrow> 'w \<Rightarrow> 'w option"
  x_map :: "addr \<Rightarrow> nat \<Rightarrow> 'w \<Rightarrow> 'w option"
  x_set :: "addr \<Rightarrow> nat \<Rightarrow> 'w \<Rightarrow> 'w option"
  x_vector :: "addr \<Rightarrow> int \<Rightarrow> 'w \<Rightarrow> 'w option"
  x_profiler :: "nat \<Rightarrow> 'w \<Rightarrow> 'w option"

definition hlt_time_unset :: nat where
  "hlt_time_unset = max64"

definition hlt_set_exception :: "exn \<Rightarrow> 'a timer_world_scheme \<Rightarrow> 'a timer_world_scheme" where
  "hlt_set_exception e w = w\<lparr>tw_excpt := Some e\<rparr>"

abbreviation set_timers :: "theap \<Rightarrow> 'a timer_world_scheme \<Rightarrow> 'a timer_world_scheme" where
  "set_timers ts w \<equiv> w\<lparr>tw_timers := ts\<rparr>"

definition set_queue ::
  "addr \<Rightarrow> hlt_timer_mgr \<Rightarrow> theap \<Rightarrow> pqueue \<Rightarrow> 'a timer_world_scheme \<Rightarrow> 'a timer_world_scheme" where
  "set_queue m mg ts q w = w\<lparr>tw_timers := ts, tw_mgrs := (tw_mgrs w)(m \<mapsto> mg\<lparr>mgr_timers := q\<rparr>)\<rparr>"

section \<open>Operations\<close>

text \<open>The \<open>switch\<close> of \<^verbatim>\<open>__hlt_timer_fire\<close>.\<close>

fun expire_cookie ::
  "'a timer_world_scheme expiry_ops \<Rightarrow> timer_cookie \<Rightarrow> 'a timer_world_scheme \<Rightarrow> 'a timer_world_scheme option" where
  "expire_cookie ops (CFunction f) w = x_function ops f w"
| "expire_cookie ops (CList l n) w = x_list ops l n w"
| "expire_cookie ops (CMap m k) w = x_map ops m k w"
| "expire_cookie ops (CSet s k) w = x_set ops s k w"
| "expire_cookie ops (CVector v i) w = x_vector ops v i w"
| "expire_cookie ops (CProfiler p) w = x_profiler ops p w"
| "expire_cookie ops (CUnknown _) w = Some (hlt_set_exception InternalError w)"

definition hlt_timer_fire ::
  "'a timer_world_scheme expiry_ops \<Rightarrow> addr \<Rightarrow> 'a timer_world_scheme \<Rightarrow> 'a timer_world_scheme option" where
  "hlt_timer_fire ops timer w = do {
     t \<leftarrow> tw_timers w timer;
     (if timer_mgr t = None then Some w
      else do {
        w1 \<leftarrow> expire_cookie ops (cookie t) w;
        t1 \<leftarrow> tw_timers w1 timer;
        Some (w1\<lparr>tw_timers := (tw_timers w1)(timer \<mapsto> t1\<lparr>timer_mgr := None\<rparr>)\<rparr>)
      })
   }"

text \<open>
  The six constructors \<^verbatim>\<open>__hlt_timer_new_*\<close> differ only in the cookie they store.
\<close>

definition hlt_timer_new :: "timer_cookie \<Rightarrow> 'a timer_world_scheme \<Rightarrow> addr \<times> 'a timer_world_scheme" where
  "hlt_timer_new c w =
     (tw_next w,
      w\<lparr>tw_timers := (tw_timers w)(tw_next w \<mapsto>
           \<lparr>timer_mgr = None, timer_time = hlt_time_unset, queue_pos = 0, cookie = c\<rparr>),
        tw_next := tw_next w + 1\<rparr>)"

definition hlt_timer_time :: "addr \<Rightarrow> 'a timer_world_scheme \<Rightarrow> nat option" where
  "hlt_timer_time timer w = map_option timer_time (tw_timers w timer)"

definition hlt_timer_update ::
  "'a timer_world_scheme expiry_ops \<Rightarrow> ptr \<Rightarrow> nat \<Rightarrow> 'a timer_world_scheme \<Rightarrow> 'a timer_world_scheme option" where
  "hlt_timer_update ops timer t w =
     (case timer of
        None \<Rightarrow> Some (hlt_set_exception NullReference w)
      | Some a \<Rightarrow> do {
          tm \<leftarrow> tw_timers w a;
          (case timer_mgr tm of
             None \<Rightarrow> Some (hlt_set_exception TimerNotScheduled w)
           | Some m \<Rightarrow> do {
               mg \<leftarrow> tw_mgrs w m;
               (if t > mgr_time mg then do {
                  (ts, q) \<leftarrow> priority_queue_change_priority
                    ((tw_timers w)(a \<mapsto> tm\<lparr>timer_time := t\<rparr>)) (mgr_timers mg) t a;
                  Some (set_queue m mg ts q w)
                } else do {
                  (ts, q) \<leftarrow> priority_queue_remove (tw_timers w) (mgr_timers mg) a;
                  hlt_timer_fire ops a (set_queue m mg ts q w)
                })
             })
        })"

definition hlt_timer_cancel :: "ptr \<Rightarrow> 'a timer_world_scheme \<Rightarrow> 'a timer_world_scheme option" where
  "hlt_timer_cancel timer w =
     (case timer of
        None \<Rightarrow> Some (hlt_set_exception NullReference w)
      | Some a \<Rightarrow> do {
          tm \<leftarrow> tw_timers w a;
          m \<leftarrow> timer_mgr tm;
          mg \<leftarrow> tw_mgrs w m;
          (ts, q) \<leftarrow> priority_queue_remove (tw_timers w) (mgr_timers mg) a;
          tm1 \<leftarrow> ts a;
          Some (set_queue m mg (ts(a \<mapsto> tm1\<lparr>timer_mgr := None, timer_time := 0\<rparr>)) q w)
        })"

definition hlt_timer_mgr_new :: "'a timer_world_scheme \<Rightarrow> addr \<times> 'a timer_world_scheme" where
  "hlt_timer_mgr_new w =
     (tw_next w,
      w\<lparr>tw_mgrs := (tw_mgrs w)(tw_next w \<mapsto> \<lparr>mgr_time = 0, mgr_timers = priority_queue_init 100\<rparr>),
        tw_next := tw_next w + 1\<rparr>)"

definition the_mgr :: "ptr \<Rightarrow> 'a timer_world_scheme \<Rightarrow> addr" where
  "the_mgr mgr w = (case mgr of None \<Rightarrow> tw_ctx_tmgr w | Some m \<Rightarrow> m)"

definition hlt_timer_mgr_schedule ::
  "'a timer_world_scheme expiry_ops \<Rightarrow> ptr \<Rightarrow> nat \<Rightarrow> addr \<Rightarrow> 'a timer_world_scheme
   \<Rightarrow> 'a timer_world_scheme option" where
  "hlt_timer_mgr_schedule ops mgr t timer w = do {
     tm \<leftarrow> tw_timers w timer;
     (if timer_mgr tm \<noteq> None then Some (hlt_set_exception TimerAlreadyScheduled w)
      else do {
        let m = the_mgr mgr w;
        let w1 = w\<lparr>tw_timers := (tw_timers w)(timer \<mapsto> tm\<lparr>timer_mgr := Some m, timer_time := t\<rparr>)\<rparr>;
        mg \<leftarrow> tw_mgrs w1 m;
        (if t \<le> mgr_time mg then hlt_timer_fire ops timer w1
         else do {
           (rc, ts, q) \<leftarrow> priority_queue_insert (tw_timers w1) (mgr_timers mg) timer;
           let w2 = set_queue m mg ts q w1;
           Some (if rc \<noteq> 0 then hlt_set_exception OutOfMemory w2 else w2)
         })
      })
   }"

text \<open>
  The count of fired timers is an \<^verbatim>\<open>int32_t\<close>: incrementing it at its maximum is undefined.
\<close>

partial_function (option) mgr_advance_loop ::
  "'a timer_world_scheme expiry_ops \<Rightarrow> addr \<Rightarrow> nat \<Rightarrow> nat \<Rightarrow> 'a timer_world_scheme
   \<Rightarrow> (nat \<times> 'a timer_world_scheme) option" where
  "mgr_advance_loop ops m t cnt w = do {
     mg \<leftarrow> tw_mgrs w m;
     peek \<leftarrow> priority_queue_peek (mgr_timers mg);
     (case peek of
        None \<Rightarrow> Some (cnt, w)
      | Some a \<Rightarrow> do {
          tm \<leftarrow> tw_timers w a;
          (if timer_time tm > t then Some (cnt, w)
           else do {
             (_, ts, q) \<leftarrow> priority_queue_pop (tw_timers w) (mgr_timers mg);
             w1 \<leftarrow> hlt_timer_fire ops a (set_queue m mg ts q w);
             (if cnt = 2147483647 then None else mgr_advance_loop ops m t (cnt + 1) w1)
           })
        })
   }"

declare mgr_advance_loop.simps [code]

definition hlt_timer_mgr_advance ::
  "'a timer_world_scheme expiry_ops \<Rightarrow> ptr \<Rightarrow> nat \<Rightarrow> 'a timer_world_scheme
   \<Rightarrow> (nat \<times> 'a timer_world_scheme) option" where
  "hlt_timer_mgr_advance ops mgr t w = do {
     let m = the_mgr mgr w;
     mg \<leftarrow> tw_mgrs w m;
     mgr_advance_loop ops m t 0 (w\<lparr>tw_mgrs := (tw_mgrs w)(m \<mapsto> mg\<lparr>mgr_time := t\<rparr>)\<rparr>)
   }"

definition hlt_timer_mgr_advance_global ::
  "'a timer_world_scheme expiry_ops \<Rightarrow> nat \<Rightarrow> 'a timer_world_scheme \<Rightarrow> 'a timer_world_scheme option" where
  "hlt_timer_mgr_advance_global ops t w =
     (if \<not> tw_vid_main w then Some (hlt_set_exception ValueError w)
      else do {
        (_, w1) \<leftarrow> hlt_timer_mgr_advance ops (Some (tw_ctx_tmgr w)) t w;
        Some (if t > tw_global_time w1 then w1\<lparr>tw_global_time := t\<rparr> else w1)
      })"

definition hlt_timer_mgr_current :: "ptr \<Rightarrow> 'a timer_world_scheme \<Rightarrow> nat option" where
  "hlt_timer_mgr_current mgr w = map_option mgr_time (tw_mgrs w (the_mgr mgr w))"

partial_function (option) mgr_expire_loop ::
  "'a timer_world_scheme expiry_ops \<Rightarrow> addr \<Rightarrow> bool \<Rightarrow> 'a timer_world_scheme
   \<Rightarrow> 'a timer_world_scheme option" where
  "mgr_expire_loop ops m fire w = do {
     mg \<leftarrow> tw_mgrs w m;
     (head, ts, q) \<leftarrow> priority_queue_pop (tw_timers w) (mgr_timers mg);
     (case head of
        None \<Rightarrow> Some (set_queue m mg ts q w)
      | Some a \<Rightarrow> do {
          w1 \<leftarrow> (if fire then hlt_timer_fire ops a (set_queue m mg ts q w)
                 else Some (set_queue m mg ts q w));
          mgr_expire_loop ops m fire w1
        })
   }"

declare mgr_expire_loop.simps [code]

definition hlt_timer_mgr_expire ::
  "'a timer_world_scheme expiry_ops \<Rightarrow> ptr \<Rightarrow> bool \<Rightarrow> 'a timer_world_scheme
   \<Rightarrow> 'a timer_world_scheme option" where
  "hlt_timer_mgr_expire ops mgr fire w = mgr_expire_loop ops (the_mgr mgr w) fire w"

definition hlt_timer_mgr_dtor ::
  "'a timer_world_scheme expiry_ops \<Rightarrow> addr \<Rightarrow> 'a timer_world_scheme \<Rightarrow> 'a timer_world_scheme option" where
  "hlt_timer_mgr_dtor ops m w = do {
     w1 \<leftarrow> hlt_timer_mgr_expire ops (Some m) False w;
     Some (w1\<lparr>tw_mgrs := (tw_mgrs w1)(m := None)\<rparr>)
   }"

section \<open>The invariant of a manager\<close>

text \<open>
  \<open>queue_inv m w\<close>: the queue of manager \<open>m\<close> satisfies the queue invariant and holds exactly the
  timers that name \<open>m\<close> as their manager. \<open>mgr_inv\<close> adds that no queued timer is overdue.
\<close>

definition mgr_elems :: "addr \<Rightarrow> 'a timer_world_scheme \<Rightarrow> addr multiset" where
  "mgr_elems m w = (case tw_mgrs w m of None \<Rightarrow> {#} | Some mg \<Rightarrow> pq_elems (mgr_timers mg))"

definition queue_inv :: "addr \<Rightarrow> 'a timer_world_scheme \<Rightarrow> bool" where
  "queue_inv m w \<longleftrightarrow> (\<exists>mg. tw_mgrs w m = Some mg \<and> pq_inv (tw_timers w) (mgr_timers mg) \<and>
     (\<forall>a t. tw_timers w a = Some t \<longrightarrow> (timer_mgr t = Some m \<longleftrightarrow> a \<in># pq_elems (mgr_timers mg))))"

definition mgr_inv :: "addr \<Rightarrow> 'a timer_world_scheme \<Rightarrow> bool" where
  "mgr_inv m w \<longleftrightarrow> queue_inv m w \<and>
     (\<forall>mg. tw_mgrs w m = Some mg \<longrightarrow> (\<forall>a\<in>#mgr_elems m w. mgr_time mg < pri (tw_timers w) a))"

definition cookie_of :: "theap \<Rightarrow> addr \<Rightarrow> timer_cookie" where
  "cookie_of ts a = (case ts a of None \<Rightarrow> CUnknown 0 | Some t \<Rightarrow> cookie t)"

text \<open>What the queue operations and the firing of other timers leave of a timer.\<close>

definition tframe :: "theap \<Rightarrow> theap \<Rightarrow> bool" where
  "tframe ts ts' \<longleftrightarrow>
     (\<forall>a. map_option (\<lambda>t. (timer_time t, cookie t)) (ts' a) = map_option (\<lambda>t. (timer_time t, cookie t)) (ts a))"

lemma tframe_trans: "tframe a b \<Longrightarrow> tframe b c \<Longrightarrow> tframe a c"
  by (simp add: tframe_def)

lemma strip_timer_fields:
  assumes "strip ts' = strip ts" "ts a = Some t"
  shows "\<exists>p. ts' a = Some (t\<lparr>queue_pos := p\<rparr>)"
proof -
  from strip_eqD [OF assms(1), of a] assms(2) obtain t' where
    t': "ts' a = Some t'" "t'\<lparr>queue_pos := 0\<rparr> = t\<lparr>queue_pos := 0\<rparr>" by (cases "ts' a") auto
  then have "t' = t\<lparr>queue_pos := queue_pos t'\<rparr>" by (cases t, cases t') simp
  with t' show ?thesis by auto
qed

lemma strip_mgr:
  assumes "strip ts' = strip ts" "ts' a = Some t'"
  shows "\<exists>t. ts a = Some t \<and> timer_mgr t = timer_mgr t'"
  using strip_timer_fields [OF assms(1) [symmetric] assms(2)] by auto

lemma strip_tframe: "strip ts' = strip ts \<Longrightarrow> tframe ts ts'"
  unfolding tframe_def
proof
  fix a assume s: "strip ts' = strip ts"
  show "map_option (\<lambda>t. (timer_time t, cookie t)) (ts' a) = map_option (\<lambda>t. (timer_time t, cookie t)) (ts a)"
    using strip_timer_fields [OF s, of a] strip_None [OF s, of a] by (cases "ts a") auto
qed

lemma tframe_pri: "tframe ts ts' \<Longrightarrow> pri ts' = pri ts"
proof
  fix a assume "tframe ts ts'"
  then have "map_option (\<lambda>t. (timer_time t, cookie t)) (ts' a) = map_option (\<lambda>t. (timer_time t, cookie t)) (ts a)"
    unfolding tframe_def by blast
  then show "pri ts' a = pri ts a" unfolding pri_def
    by (cases "ts a"; cases "ts' a") auto
qed

lemma tframe_cookie: "tframe ts ts' \<Longrightarrow> cookie_of ts' = cookie_of ts"
proof
  fix a assume "tframe ts ts'"
  then have "map_option (\<lambda>t. (timer_time t, cookie t)) (ts' a) = map_option (\<lambda>t. (timer_time t, cookie t)) (ts a)"
    unfolding tframe_def by blast
  then show "cookie_of ts' a = cookie_of ts a" unfolding cookie_of_def
    by (cases "ts a"; cases "ts' a") auto
qed

lemma tframe_mgr_upd: "ts a = Some t \<Longrightarrow> tframe ts (ts(a \<mapsto> t\<lparr>timer_mgr := x\<rparr>))"
  by (auto simp: tframe_def)

lemma queue_inv_live:
  "queue_inv m w \<Longrightarrow> a \<in># mgr_elems m w \<Longrightarrow> \<exists>t. tw_timers w a = Some t \<and> timer_mgr t = Some m"
  unfolding queue_inv_def mgr_elems_def pq_inv_def by (auto dest: pq_wf_pos)

lemma queue_inv_distinct:
  assumes "pq_wf ts q" shows "count (pq_elems q) a \<le> 1"
proof -
  have "distinct (seg (pq_d q) (pq_size q))"
    using assms placed_inj [of ts "pq_d q" "pq_size q" 0] unfolding pq_wf_def seg_def
    by (auto simp: distinct_map inj_on_def)
  then show ?thesis unfolding pq_elems_def
    by (simp add: distinct_count_atmost_1)
qed

text \<open>Taking one timer out of the queue and detaching it from the manager.\<close>

lemma queue_inv_detach:
  assumes q: "queue_inv m w" "tw_mgrs w m = Some mg"
    and r: "pq_inv ts q'" "strip ts = strip (tw_timers w)" "pq_elems (mgr_timers mg) = add_mset a (pq_elems q')"
    and t: "ts a = Some t" and t': "t' = t\<lparr>timer_mgr := None\<rparr> \<or> t' = t\<lparr>timer_mgr := None, timer_time := x\<rparr>"
    and w': "tw_timers w' = ts(a \<mapsto> t')" "tw_mgrs w' m = Some mg'" "mgr_timers mg' = q'"
  shows "queue_inv m w'"
proof -
  have inv: "pq_inv (tw_timers w) (mgr_timers mg)"
    and iff: "\<And>b tb. tw_timers w b = Some tb \<Longrightarrow> timer_mgr tb = Some m \<longleftrightarrow> b \<in># pq_elems (mgr_timers mg)"
    using q unfolding queue_inv_def by auto
  have "count (pq_elems (mgr_timers mg)) a \<le> 1"
    using inv queue_inv_distinct unfolding pq_inv_def by blast
  then have na: "a \<notin># pq_elems q'" using r(3) by (simp add: not_in_iff)
  have pq: "pq_inv (tw_timers w') q'"
  proof (rule tq.frame_law [OF r(1)])
    fix b assume "b \<in># pq_elems q'"
    then have "b \<noteq> a" using na by auto
    then show "map_option (\<lambda>t. (timer_time t, queue_pos t)) (tw_timers w' b) =
        map_option (\<lambda>t. (timer_time t, queue_pos t)) (ts b)" using w' by simp
  qed
  have "timer_mgr tb = Some m \<longleftrightarrow> b \<in># pq_elems q'" if tb: "tw_timers w' b = Some tb" for b tb
  proof (cases "b = a")
    case True
    then have "tb = t'" using tb w' by auto
    then show ?thesis using True t' na by auto
  next
    case False
    then have tsb: "ts b = Some tb" using tb w' by simp
    then obtain p where "tw_timers w b = Some (tb\<lparr>queue_pos := p\<rparr>)"
      using strip_timer_fields [OF r(2) [symmetric], of b tb] by auto
    then show ?thesis using iff [of b] r(3) False by auto
  qed
  then show ?thesis using pq w' unfolding queue_inv_def by auto
qed

section \<open>Scheduling, moving and cancelling\<close>

text \<open>
  \<open>erase\<close> is the state without its timers and managers: the part that belongs to the containers and
  that the timer operations leave alone. \<open>link_of\<close> is what a container relies on of a timer it has
  attached to an element: the manager it is scheduled with, and the element it names.
\<close>

definition erase :: "'a timer_world_scheme \<Rightarrow> 'a timer_world_scheme" where
  "erase w = w\<lparr>tw_timers := Map.empty, tw_mgrs := Map.empty\<rparr>"

definition link_of :: "theap \<Rightarrow> addr \<Rightarrow> (ptr \<times> timer_cookie) option" where
  "link_of ts a = map_option (\<lambda>t. (timer_mgr t, cookie t)) (ts a)"

definition clocks :: "'a timer_world_scheme \<Rightarrow> addr \<Rightarrow> nat option" where
  "clocks w m = map_option mgr_time (tw_mgrs w m)"

lemma strip_link: "strip ts' = strip ts \<Longrightarrow> link_of ts' = link_of ts"
proof
  fix a assume s: "strip ts' = strip ts"
  show "link_of ts' a = link_of ts a" unfolding link_of_def
    using strip_timer_fields [OF s, of a] strip_None [OF s, of a] by (cases "ts a") auto
qed

lemma erase_set_queue: "erase (set_queue m mg ts q w) = erase w"
  by (simp add: erase_def set_queue_def)

lemma clocks_set_queue: "tw_mgrs w m = Some mg \<Longrightarrow> clocks (set_queue m mg ts q w) = clocks w"
  by (auto simp: clocks_def set_queue_def fun_eq_iff)

lemma schedule_ok:
  assumes inv: "mgr_inv (the_mgr mgr w) w" and mg: "tw_mgrs w (the_mgr mgr w) = Some mg"
    and t: "mgr_time mg < t" and tm: "tw_timers w a = Some tm" "timer_mgr tm = None"
  shows "\<exists>w'. hlt_timer_mgr_schedule ops mgr t a w = Some w' \<and> mgr_inv (the_mgr mgr w) w' \<and>
    mgr_elems (the_mgr mgr w) w' = add_mset a (mgr_elems (the_mgr mgr w) w) \<and>
    pri (tw_timers w') a = t \<and> erase w' = erase w \<and> clocks w' = clocks w \<and>
    link_of (tw_timers w') = (link_of (tw_timers w))(a \<mapsto> (Some (the_mgr mgr w), cookie tm)) \<and>
    (\<forall>b. b \<noteq> a \<longrightarrow> pri (tw_timers w') b = pri (tw_timers w) b)"
proof -
  let ?m = "the_mgr mgr w" and ?q = "mgr_timers mg"
  let ?ts = "(tw_timers w)(a \<mapsto> tm\<lparr>timer_mgr := Some ?m, timer_time := t\<rparr>)"
  from inv mg have pq: "pq_inv (tw_timers w) ?q"
    and iff: "\<And>b tb. tw_timers w b = Some tb \<Longrightarrow> timer_mgr tb = Some ?m \<longleftrightarrow> b \<in># pq_elems ?q"
    and fut: "\<forall>b\<in>#pq_elems ?q. mgr_time mg < pri (tw_timers w) b"
    unfolding mgr_inv_def queue_inv_def mgr_elems_def by auto
  have na: "a \<notin># pq_elems ?q" using iff [OF tm(1)] tm(2) by auto
  have "pq_inv ?ts ?q" by (rule tq.frame_law [OF pq]) (use na in auto)
  from tq.insert_law [OF this, of a] na obtain ts q where
    i: "priority_queue_insert ?ts ?q a = Some (0, ts, q)" "pq_inv ts q" "strip ts = strip ?ts"
       "pq_elems q = add_mset a (pq_elems ?q)" by auto
  let ?w' = "set_queue ?m mg ts q (set_timers ?ts w)"
  have p: "pri ts = pri ?ts" using strip_pri [OF i(3)] .
  have "timer_mgr tb = Some ?m \<longleftrightarrow> b \<in># pq_elems q" if tsb: "ts b = Some tb" for b tb
  proof -
    obtain tb' where "?ts b = Some tb'" "timer_mgr tb' = timer_mgr tb"
      using strip_mgr [OF i(3) tsb] by blast
    then show ?thesis using iff [of b] i(4) by (cases "b = a") auto
  qed
  then have "queue_inv ?m ?w'" using i(2) unfolding queue_inv_def set_queue_def by auto
  moreover have me: "mgr_elems ?m ?w' = add_mset a (mgr_elems ?m w)"
    using i(4) mg unfolding mgr_elems_def set_queue_def by simp
  moreover have "\<forall>b\<in>#mgr_elems ?m ?w'. mgr_time mg < pri ts b"
    using me fut t mg unfolding p mgr_elems_def by (auto simp: pri_def)
  ultimately have "mgr_inv ?m ?w'" unfolding mgr_inv_def by (auto simp: set_queue_def)
  moreover have "hlt_timer_mgr_schedule ops mgr t a w = Some ?w'"
    using tm mg t i(1) by (simp add: hlt_timer_mgr_schedule_def Let_def)
  moreover have "link_of (tw_timers ?w') = (link_of (tw_timers w))(a \<mapsto> (Some ?m, cookie tm))"
    using strip_link [OF i(3)] by (auto simp: set_queue_def link_of_def fun_eq_iff)
  moreover have "pri (tw_timers ?w') a = t" "\<forall>b. b \<noteq> a \<longrightarrow> pri (tw_timers ?w') b = pri (tw_timers w) b"
    using p by (auto simp: set_queue_def pri_def)
  moreover have "erase ?w' = erase w" "clocks ?w' = clocks w"
    using mg by (auto simp: erase_def set_queue_def clocks_def fun_eq_iff)
  ultimately show ?thesis using me by blast
qed

lemma cancel_ok:
  assumes inv: "mgr_inv m w" and tm: "tw_timers w a = Some tm" "timer_mgr tm = Some m"
  shows "\<exists>w' tm'. hlt_timer_cancel (Some a) w = Some w' \<and> mgr_inv m w' \<and>
    mgr_elems m w = add_mset a (mgr_elems m w') \<and>
    tw_timers w' a = Some tm' \<and> timer_mgr tm' = None \<and> erase w' = erase w \<and> clocks w' = clocks w \<and>
    link_of (tw_timers w') = (link_of (tw_timers w))(a \<mapsto> (None, cookie tm)) \<and>
    (\<forall>b. b \<noteq> a \<longrightarrow> pri (tw_timers w') b = pri (tw_timers w) b)"
proof -
  from inv have qi: "queue_inv m w" unfolding mgr_inv_def by auto
  then obtain mg where mg: "tw_mgrs w m = Some mg" and pq: "pq_inv (tw_timers w) (mgr_timers mg)"
    and ain: "a \<in># pq_elems (mgr_timers mg)" using tm unfolding queue_inv_def by auto
  from tq.remove_law [OF pq ain] obtain ts q where
    r: "priority_queue_remove (tw_timers w) (mgr_timers mg) a = Some (ts, q)" "pq_inv ts q"
       "strip ts = strip (tw_timers w)" "pq_elems (mgr_timers mg) = add_mset a (pq_elems q)" by auto
  obtain p where ta: "ts a = Some (tm\<lparr>queue_pos := p\<rparr>)"
    using strip_timer_fields [OF r(3) tm(1)] by auto
  let ?t = "tm\<lparr>queue_pos := p, timer_mgr := None, timer_time := 0\<rparr>"
  let ?w' = "set_queue m mg (ts(a \<mapsto> ?t)) q w"
  have "queue_inv m ?w'"
    by (rule queue_inv_detach [OF qi mg r(2-4) ta]) (auto simp: set_queue_def)
  moreover have e: "mgr_elems m w = add_mset a (mgr_elems m ?w')"
    using r(4) mg unfolding mgr_elems_def set_queue_def by simp
  moreover have pr: "pri (tw_timers ?w') b = pri (tw_timers w) b" if "b \<noteq> a" for b
    using strip_pri [OF r(3)] that by (auto simp: set_queue_def pri_def fun_eq_iff)
  moreover have "a \<notin># mgr_elems m ?w'"
    using pq queue_inv_distinct [of "tw_timers w" "mgr_timers mg" a] r(4) mg
    unfolding pq_inv_def mgr_elems_def set_queue_def by (simp add: not_in_iff)
  then have "\<forall>b\<in>#mgr_elems m ?w'. mgr_time mg < pri (tw_timers ?w') b"
    using inv mg e pr unfolding mgr_inv_def by (metis union_iff add_mset_add_single)
  ultimately have "mgr_inv m ?w'" unfolding mgr_inv_def by (auto simp: set_queue_def)
  moreover have "hlt_timer_cancel (Some a) w = Some ?w'"
    using tm mg r(1) ta by (simp add: hlt_timer_cancel_def)
  moreover have "link_of (tw_timers ?w') = (link_of (tw_timers w))(a \<mapsto> (None, cookie tm))"
    using strip_link [OF r(3)] by (auto simp: set_queue_def link_of_def fun_eq_iff)
  moreover have "tw_timers ?w' a = Some ?t" "timer_mgr ?t = None" by (simp_all add: set_queue_def)
  ultimately show ?thesis using e pr erase_set_queue clocks_set_queue [OF mg] by blast
qed

lemma update_later_ok:
  assumes inv: "mgr_inv m w" and mg: "tw_mgrs w m = Some mg"
    and tm: "tw_timers w a = Some tm" "timer_mgr tm = Some m" and t: "timer_time tm \<le> t"
  shows "\<exists>w'. hlt_timer_update ops (Some a) t w = Some w' \<and> mgr_inv m w' \<and>
    mgr_elems m w' = mgr_elems m w \<and> pri (tw_timers w') a = t \<and> erase w' = erase w \<and> clocks w' = clocks w \<and>
    link_of (tw_timers w') = link_of (tw_timers w) \<and>
    (\<forall>b. b \<noteq> a \<longrightarrow> pri (tw_timers w') b = pri (tw_timers w) b)"
proof -
  let ?q = "mgr_timers mg" and ?ts = "(tw_timers w)(a \<mapsto> tm\<lparr>timer_time := t\<rparr>)"
  from inv mg have pq: "pq_inv (tw_timers w) ?q"
    and iff: "\<And>b tb. tw_timers w b = Some tb \<Longrightarrow> timer_mgr tb = Some m \<longleftrightarrow> b \<in># pq_elems ?q"
    and fut: "\<forall>b\<in>#pq_elems ?q. mgr_time mg < pri (tw_timers w) b"
    unfolding mgr_inv_def queue_inv_def mgr_elems_def by auto
  have ain: "a \<in># pq_elems ?q" using iff tm by auto
  then have now: "mgr_time mg < t" using fut tm t by (auto simp: pri_def)
  \<comment> \<open>the time is overwritten before the priority is changed, so the node percolates down\<close>
  have eq: "priority_queue_change_priority ?ts ?q t a = priority_queue_change_priority (tw_timers w) ?q t a"
  proof -
    have "?ts(a \<mapsto> tm\<lparr>timer_time := t\<rparr>) = ?ts" by simp
    then show ?thesis using tm t
      by (simp add: priority_queue_change_priority_def getpri_def setpri_def getpos_def cmppri_def)
  qed
  from pq_change_priority_ok [OF pq ain tm(1), of t] obtain ts q where
    c: "priority_queue_change_priority (tw_timers w) ?q t a = Some (ts, q)" "pq_inv ts q"
       "strip ts = strip ?ts" "pq_elems q = pq_elems ?q" by auto
  let ?w' = "set_queue m mg ts q w"
  have p: "pri ts = pri ?ts" using strip_pri [OF c(3)] .
  have "timer_mgr tb = Some m \<longleftrightarrow> b \<in># pq_elems q" if tsb: "ts b = Some tb" for b tb
  proof -
    obtain tb' where "?ts b = Some tb'" "timer_mgr tb' = timer_mgr tb"
      using strip_mgr [OF c(3) tsb] by blast
    then show ?thesis using iff [of b] c(4) tm ain by (cases "b = a") auto
  qed
  then have "queue_inv m ?w'" using c(2) unfolding queue_inv_def set_queue_def by auto
  moreover have e: "mgr_elems m ?w' = mgr_elems m w" using c(4) mg by (simp add: mgr_elems_def set_queue_def)
  moreover have "\<forall>b\<in>#mgr_elems m ?w'. mgr_time mg < pri ts b"
    using e fut now mg unfolding p mgr_elems_def by (auto simp: pri_def)
  ultimately have "mgr_inv m ?w'" unfolding mgr_inv_def by (auto simp: set_queue_def)
  moreover have "hlt_timer_update ops (Some a) t w = Some ?w'"
    using tm mg now c(1) eq by (simp add: hlt_timer_update_def)
  moreover have "pri (tw_timers ?w') a = t" "\<forall>b. b \<noteq> a \<longrightarrow> pri (tw_timers ?w') b = pri (tw_timers w) b"
    using p by (auto simp: set_queue_def pri_def)
  moreover have "link_of (tw_timers ?w') = link_of (tw_timers w)"
    using strip_link [OF c(3)] tm by (auto simp: set_queue_def link_of_def fun_eq_iff)
  ultimately show ?thesis using e erase_set_queue clocks_set_queue [OF mg] by blast
qed

text \<open>The invariant only sees timers and managers, and a timer that is not scheduled is no part of it.\<close>

lemma mgr_inv_cong:
  "tw_timers w' = tw_timers w \<Longrightarrow> tw_mgrs w' = tw_mgrs w \<Longrightarrow> mgr_inv m w' \<longleftrightarrow> mgr_inv m w"
  by (simp add: mgr_inv_def queue_inv_def mgr_elems_def)

lemma mgr_inv_new_timer:
  assumes inv: "mgr_inv m w" and new: "tw_timers w a = None" "timer_mgr t = None"
    and w': "tw_timers w' = (tw_timers w)(a \<mapsto> t)" "tw_mgrs w' = tw_mgrs w"
  shows "mgr_inv m w'"
proof -
  from inv obtain mg where mg: "tw_mgrs w m = Some mg" and pq: "pq_inv (tw_timers w) (mgr_timers mg)"
    and iff: "\<And>a t. tw_timers w a = Some t \<Longrightarrow> timer_mgr t = Some m \<longleftrightarrow> a \<in># pq_elems (mgr_timers mg)"
    unfolding mgr_inv_def queue_inv_def by auto
  have na: "a \<notin># pq_elems (mgr_timers mg)" using pq new pq_wf_pos unfolding pq_inv_def by fastforce
  have "pq_inv (tw_timers w') (mgr_timers mg)"
    by (rule tq.frame_law [OF pq]) (use na w' in auto)
  then have "queue_inv m w'" using mg iff na new w' unfolding queue_inv_def by auto
  moreover have "\<forall>b\<in>#mgr_elems m w. pri (tw_timers w') b = pri (tw_timers w) b"
    using na mg w' by (auto simp: mgr_elems_def pri_def)
  ultimately show ?thesis using inv mg w' unfolding mgr_inv_def mgr_elems_def by auto
qed

section \<open>Advancing time\<close>

text \<open>
  \<open>expire_all\<close> runs the actions of a list of cookies one after the other.
\<close>

fun expire_all ::
  "'a timer_world_scheme expiry_ops \<Rightarrow> timer_cookie list \<Rightarrow> 'a timer_world_scheme
   \<Rightarrow> 'a timer_world_scheme option" where
  "expire_all ops [] w = Some w"
| "expire_all ops (c # cs) w = do { w1 \<leftarrow> expire_cookie ops c w; expire_all ops cs w1 }"

lemma fire_scheduled:
  assumes "tw_timers w a = Some t" "timer_mgr t \<noteq> None"
    and "expire_cookie ops (cookie t) w = Some w1" "tw_timers w1 = tw_timers w"
  shows "hlt_timer_fire ops a w = Some (w1\<lparr>tw_timers := (tw_timers w)(a \<mapsto> t\<lparr>timer_mgr := None\<rparr>)\<rparr>)"
  using assms by (auto simp: hlt_timer_fire_def)

text \<open>The timers queued with \<open>m\<close> have live and pairwise different elements.\<close>

definition live_cookies ::
  "(timer_cookie \<Rightarrow> 'a timer_world_scheme \<Rightarrow> bool) \<Rightarrow> addr \<Rightarrow> 'a timer_world_scheme \<Rightarrow> bool" where
  "live_cookies good m w \<longleftrightarrow> (\<forall>a\<in>#mgr_elems m w. good (cookie_of (tw_timers w) a) w) \<and>
     inj_on (cookie_of (tw_timers w)) (set_mset (mgr_elems m w))"

text \<open>The elements whose timers are due at time \<open>t\<close>.\<close>

definition is_due :: "nat \<Rightarrow> addr \<Rightarrow> 'a timer_world_scheme \<Rightarrow> timer_cookie \<Rightarrow> bool" where
  "is_due t m w c \<longleftrightarrow> (\<exists>a \<in># mgr_elems m w. pri (tw_timers w) a \<le> t \<and> cookie_of (tw_timers w) a = c)"

text \<open>
  The contract of the expiry actions: they neither read nor change timers and managers
  (\<open>quiet\<close>), they succeed on a live element (\<open>good\<close>), and expiring one element leaves the
  others live.
\<close>

locale quiet_expiry =
  fixes ops :: "'a timer_world_scheme expiry_ops"
    and good :: "timer_cookie \<Rightarrow> 'a timer_world_scheme \<Rightarrow> bool"
  assumes quiet: "good c w \<Longrightarrow> expire_cookie ops c (w\<lparr>tw_timers := ts, tw_mgrs := ms\<rparr>) =
      map_option (\<lambda>w'. w'\<lparr>tw_timers := ts, tw_mgrs := ms\<rparr>) (expire_cookie ops c w)"
    and good_quiet: "good c (w\<lparr>tw_timers := ts, tw_mgrs := ms\<rparr>) \<longleftrightarrow> good c w"
    and expire_good: "good c w \<Longrightarrow> \<exists>w'. expire_cookie ops c w = Some w'"
    and good_frame: "good c w \<Longrightarrow> good c' w \<Longrightarrow> c' \<noteq> c \<Longrightarrow> expire_cookie ops c w = Some w' \<Longrightarrow> good c' w'"
begin

lemma good_erase: "good c (erase w) \<longleftrightarrow> good c w"
  by (simp add: erase_def good_quiet)

lemma expire_erase:
  assumes "good c w"
  shows "\<exists>w'. expire_cookie ops c w = Some w' \<and> tw_timers w' = tw_timers w \<and> tw_mgrs w' = tw_mgrs w \<and>
    expire_cookie ops c (erase w) = Some (erase w')"
proof -
  obtain w' where w': "expire_cookie ops c w = Some w'" using expire_good [OF assms] by blast
  from quiet [OF assms, where ts = "tw_timers w" and ms = "tw_mgrs w"] w' have "w' = w'\<lparr>tw_timers := tw_timers w, tw_mgrs := tw_mgrs w\<rparr>"
    by simp
  then have "tw_timers w' = tw_timers w" "tw_mgrs w' = tw_mgrs w"
    by (metis timer_world.select_convs(1) timer_world.update_convs(1,2) timer_world.ext_inject
        timer_world.surjective)+
  then show ?thesis using w' quiet [OF assms, where ts = Map.empty and ms = Map.empty] by (simp add: erase_def)
qed

lemma fire_due:
  assumes qi: "queue_inv m w" and lc: "live_cookies good m w" and mg: "tw_mgrs w m = Some mg"
    and ne: "pq_elems (mgr_timers mg) \<noteq> {#}"
  shows "\<exists>a ts q w1. priority_queue_peek (mgr_timers mg) = Some (Some a) \<and>
    priority_queue_pop (tw_timers w) (mgr_timers mg) = Some (Some a, ts, q) \<and>
    hlt_timer_fire ops a (set_queue m mg ts q w) = Some w1 \<and>
    tw_timers w a \<noteq> None \<and>
    queue_inv m w1 \<and> live_cookies good m w1 \<and> tframe (tw_timers w) (tw_timers w1) \<and>
    mgr_elems m w = add_mset a (mgr_elems m w1) \<and>
    (\<forall>b\<in>#mgr_elems m w. pri (tw_timers w) a \<le> pri (tw_timers w) b) \<and>
    expire_cookie ops (cookie_of (tw_timers w) a) (erase w) = Some (erase w1) \<and>
    map_option mgr_time (tw_mgrs w1 m) = Some (mgr_time mg) \<and> (\<forall>k. k \<noteq> m \<longrightarrow> tw_mgrs w1 k = tw_mgrs w k)"
proof -
  have pq: "pq_inv (tw_timers w) (mgr_timers mg)" using qi mg unfolding queue_inv_def by auto
  from tq.pop_law [OF pq ne] obtain a ts q where
    p: "priority_queue_peek (mgr_timers mg) = Some (Some a)"
       "priority_queue_pop (tw_timers w) (mgr_timers mg) = Some (Some a, ts, q)"
       "pq_inv ts q" "strip ts = strip (tw_timers w)" "pq_elems (mgr_timers mg) = add_mset a (pq_elems q)"
       "\<forall>b\<in>#pq_elems (mgr_timers mg). pri (tw_timers w) a \<le> pri (tw_timers w) b" by blast
  have me: "mgr_elems m w = pq_elems (mgr_timers mg)" using mg by (simp add: mgr_elems_def)
  obtain t where t: "tw_timers w a = Some t" "timer_mgr t = Some m"
    using queue_inv_live [OF qi, of a] me p(5) by auto
  obtain x where ta: "ts a = Some (t\<lparr>queue_pos := x\<rparr>)" using strip_timer_fields [OF p(4) t(1)] by auto
  have fr: "tframe (tw_timers w) ts" using strip_tframe [OF p(4)] .
  let ?c = "cookie t" and ?w0 = "set_queue m mg ts q w"
  have c: "cookie_of (tw_timers w) a = ?c" using t by (simp add: cookie_of_def)
  have g: "good ?c w" using lc me p(5) c unfolding live_cookies_def by auto
  then have "good ?c ?w0" by (simp add: set_queue_def good_quiet)
  from expire_erase [OF this] obtain w1 where
    w1: "expire_cookie ops ?c ?w0 = Some w1" "tw_timers w1 = ts" "tw_mgrs w1 = tw_mgrs ?w0"
        "expire_cookie ops ?c (erase ?w0) = Some (erase w1)" by (auto simp: set_queue_def)
  let ?w2 = "w1\<lparr>tw_timers := ts(a \<mapsto> t\<lparr>queue_pos := x, timer_mgr := None\<rparr>)\<rparr>"
  have fire: "hlt_timer_fire ops a ?w0 = Some ?w2"
    using fire_scheduled [of ?w0 a "t\<lparr>queue_pos := x\<rparr>" ops w1] ta t w1 by (simp add: set_queue_def)
  have qi2: "queue_inv m ?w2"
    by (rule queue_inv_detach [OF qi mg p(3-5) ta]) (use w1 in \<open>auto simp: set_queue_def\<close>)
  have e0: "erase ?w0 = erase w" by (simp add: erase_def set_queue_def)
  have e2: "erase ?w2 = erase w1" by (simp add: erase_def)
  have el2: "mgr_elems m ?w2 = pq_elems q" using w1 by (simp add: mgr_elems_def set_queue_def)
  have na: "a \<notin># pq_elems q"
    using pq queue_inv_distinct [of "tw_timers w" "mgr_timers mg" a] p(5)
    unfolding pq_inv_def by (simp add: not_in_iff)
  have fr2: "tframe (tw_timers w) (tw_timers ?w2)"
    using tframe_trans [OF fr tframe_mgr_upd [of ts a "t\<lparr>queue_pos := x\<rparr>" None]] ta by simp
  have "good (cookie_of (tw_timers w) b) ?w2" if "b \<in># pq_elems q" for b
  proof -
    have "good (cookie_of (tw_timers w) b) w" "cookie_of (tw_timers w) b \<noteq> ?c"
      using lc me p(5) that na c unfolding live_cookies_def by (auto simp: image_iff)
    then have "good (cookie_of (tw_timers w) b) (erase w1)"
      using good_frame [of ?c "erase w" "cookie_of (tw_timers w) b" "erase w1"] g w1(4) e0
      by (simp add: good_erase)
    then show ?thesis using e2 good_erase by metis
  qed
  moreover have "inj_on (cookie_of (tw_timers w)) (set_mset (pq_elems q))"
    using lc me p(5) unfolding live_cookies_def by (auto intro: inj_on_subset)
  ultimately have "live_cookies good m ?w2"
    unfolding live_cookies_def el2 tframe_cookie [OF fr2] by auto
  then show ?thesis
    using p fire t qi2 fr2 el2 me w1(3,4) e0 e2 c by (auto simp: set_queue_def)
qed

lemma advance_loop_ok:
  assumes "queue_inv m w" "live_cookies good m w" "tw_mgrs w m = Some mg"
    "n + size (filter_mset (\<lambda>a. pri (tw_timers w) a \<le> t) (mgr_elems m w)) \<le> 2147483647"
  shows "\<exists>as w'. mgr_advance_loop ops m t n w = Some (n + length as, w') \<and>
    mset as = filter_mset (\<lambda>a. pri (tw_timers w) a \<le> t) (mgr_elems m w) \<and>
    sorted (map (pri (tw_timers w)) as) \<and>
    mgr_elems m w' = filter_mset (\<lambda>a. \<not> pri (tw_timers w) a \<le> t) (mgr_elems m w) \<and>
    queue_inv m w' \<and> tframe (tw_timers w) (tw_timers w') \<and>
    expire_all ops (map (cookie_of (tw_timers w)) as) (erase w) = Some (erase w') \<and>
    map_option mgr_time (tw_mgrs w' m) = Some (mgr_time mg) \<and> (\<forall>k. k \<noteq> m \<longrightarrow> tw_mgrs w' k = tw_mgrs w k)"
  using assms
proof (induction "size (mgr_elems m w)" arbitrary: w n mg)
  case 0
  note q = "0.prems"
  then have e: "pq_elems (mgr_timers mg) = {#}" using "0.hyps" by (simp add: mgr_elems_def)
  have "priority_queue_peek (mgr_timers mg) = Some None"
    using q e tq.pop_empty_law unfolding queue_inv_def by auto
  then have "mgr_advance_loop ops m t n w = Some (n, w)"
    using q(3) by (subst mgr_advance_loop.simps) simp
  then show ?case using q e "0.hyps" by (intro exI [of _ "[]"]) (auto simp: tframe_def)
next
  case (Suc k)
  note q = Suc.prems
  have me: "mgr_elems m w = pq_elems (mgr_timers mg)" using q(3) by (simp add: mgr_elems_def)
  then have ne: "pq_elems (mgr_timers mg) \<noteq> {#}" using Suc.hyps(2) by auto
  from fire_due [OF q(1-3) ne] obtain a ts q' w1 where
    f: "priority_queue_peek (mgr_timers mg) = Some (Some a)"
       "priority_queue_pop (tw_timers w) (mgr_timers mg) = Some (Some a, ts, q')"
       "hlt_timer_fire ops a (set_queue m mg ts q' w) = Some w1" "tw_timers w a \<noteq> None"
       "queue_inv m w1" "live_cookies good m w1" "tframe (tw_timers w) (tw_timers w1)"
       "mgr_elems m w = add_mset a (mgr_elems m w1)"
       "\<forall>b\<in>#mgr_elems m w. pri (tw_timers w) a \<le> pri (tw_timers w) b"
       "expire_cookie ops (cookie_of (tw_timers w) a) (erase w) = Some (erase w1)"
       "map_option mgr_time (tw_mgrs w1 m) = Some (mgr_time mg)" "\<forall>k. k \<noteq> m \<longrightarrow> tw_mgrs w1 k = tw_mgrs w k" by blast
  obtain tm where tm: "tw_timers w a = Some tm" using f(4) by auto
  show ?case
  proof (cases "pri (tw_timers w) a \<le> t")
    case False
    then have "mgr_advance_loop ops m t n w = Some (n, w)"
      using q(3) f(1) tm by (subst mgr_advance_loop.simps) (simp add: pri_def)
    moreover have "\<forall>b\<in>#mgr_elems m w. \<not> pri (tw_timers w) b \<le> t" using f(9) False by force
    then have "filter_mset (\<lambda>b. pri (tw_timers w) b \<le> t) (mgr_elems m w) = {#}"
      "filter_mset (\<lambda>b. \<not> pri (tw_timers w) b \<le> t) (mgr_elems m w) = mgr_elems m w"
      using filter_mset_cong [of "mgr_elems m w" "mgr_elems m w" "\<lambda>b. \<not> pri (tw_timers w) b \<le> t" "\<lambda>_. True"]
      by auto
    ultimately show ?thesis using q
      by (intro exI [of _ "[]"] exI [of _ w]) (auto simp: tframe_def)
  next
    case True
    note pr = tframe_pri [OF f(7)] and ck = tframe_cookie [OF f(7)]
    have few: "n + 1 + size (filter_mset (\<lambda>a. pri (tw_timers w1) a \<le> t) (mgr_elems m w1)) \<le> 2147483647"
      using q(4) f(8) True pr by simp
    have step: "mgr_advance_loop ops m t n w = mgr_advance_loop ops m t (n + 1) w1"
      using q(3) f(1-3) tm True few by (subst mgr_advance_loop.simps) (simp add: pri_def)
    obtain mg1 where mg1: "tw_mgrs w1 m = Some mg1" "mgr_time mg1 = mgr_time mg" using f(11) by auto
    have "k = size (mgr_elems m w1)" using Suc.hyps(2) f(8) by simp
    from Suc.hyps(1) [OF this f(5,6) mg1(1), of "n + 1"] few obtain as w' where
      IH: "mgr_advance_loop ops m t (n + 1) w1 = Some (n + 1 + length as, w')"
        "mset as = filter_mset (\<lambda>a. pri (tw_timers w1) a \<le> t) (mgr_elems m w1)"
        "sorted (map (pri (tw_timers w1)) as)"
        "mgr_elems m w' = filter_mset (\<lambda>a. \<not> pri (tw_timers w1) a \<le> t) (mgr_elems m w1)"
        "queue_inv m w'" "tframe (tw_timers w1) (tw_timers w')"
        "expire_all ops (map (cookie_of (tw_timers w1)) as) (erase w1) = Some (erase w')"
        "map_option mgr_time (tw_mgrs w' m) = Some (mgr_time mg1)" "\<forall>k. k \<noteq> m \<longrightarrow> tw_mgrs w' k = tw_mgrs w1 k" by blast
    have "set as \<subseteq> set_mset (mgr_elems m w)" using IH(2) f(8) by (metis set_mset_mset set_mset_filter
        Collect_subset subset_trans set_mset_add_mset_insert subset_insertI mem_Collect_eq subsetI)
    then have "sorted (map (pri (tw_timers w)) (a # as))" using IH(3) f(9) pr by auto
    then show ?thesis
      using IH step f(8,10,12) True pr ck tframe_trans [OF f(7) IH(6)] mg1(2)
      by (intro exI [of _ "a # as"] exI [of _ w']) simp
  qed
qed

lemma advance_ok:
  assumes qi: "queue_inv m w" and lc: "live_cookies good m w" and m: "m = the_mgr mgr w"
    and few: "size (filter_mset (\<lambda>a. pri (tw_timers w) a \<le> t) (mgr_elems m w)) \<le> 2147483647"
  shows "\<exists>as w'. hlt_timer_mgr_advance ops mgr t w = Some (length as, w') \<and>
    mset as = filter_mset (\<lambda>a. pri (tw_timers w) a \<le> t) (mgr_elems m w) \<and>
    sorted (map (pri (tw_timers w)) as) \<and>
    mgr_elems m w' = filter_mset (\<lambda>a. \<not> pri (tw_timers w) a \<le> t) (mgr_elems m w) \<and>
    mgr_inv m w' \<and> map_option mgr_time (tw_mgrs w' m) = Some t \<and>
    expire_all ops (map (cookie_of (tw_timers w)) as) (erase w) = Some (erase w') \<and>
    tframe (tw_timers w) (tw_timers w') \<and> (\<forall>k. k \<noteq> m \<longrightarrow> tw_mgrs w' k = tw_mgrs w k)"
proof -
  obtain mg where mg: "tw_mgrs w m = Some mg" using qi unfolding queue_inv_def by auto
  let ?w = "w\<lparr>tw_mgrs := (tw_mgrs w)(m \<mapsto> mg\<lparr>mgr_time := t\<rparr>)\<rparr>"
  have me: "mgr_elems m ?w = mgr_elems m w" using mg by (simp add: mgr_elems_def)
  have qi': "queue_inv m ?w" using qi mg unfolding queue_inv_def by auto
  have "good c ?w \<longleftrightarrow> good c w" for c
    using good_quiet [where ts = "tw_timers w" and ms = "(tw_mgrs w)(m \<mapsto> mg\<lparr>mgr_time := t\<rparr>)"
      and w = w and c = c] by simp
  then have lc': "live_cookies good m ?w" using lc me unfolding live_cookies_def by simp
  have er: "erase ?w = erase w" by (simp add: erase_def)
  from advance_loop_ok [OF qi' lc', of "mg\<lparr>mgr_time := t\<rparr>" 0 t] few obtain as w' where
    r: "mgr_advance_loop ops m t 0 ?w = Some (length as, w')"
      "mset as = filter_mset (\<lambda>a. pri (tw_timers w) a \<le> t) (mgr_elems m w)"
      "sorted (map (pri (tw_timers w)) as)"
      "mgr_elems m w' = filter_mset (\<lambda>a. \<not> pri (tw_timers w) a \<le> t) (mgr_elems m w)"
      "queue_inv m w'" "tframe (tw_timers w) (tw_timers w')"
      "expire_all ops (map (cookie_of (tw_timers w)) as) (erase w) = Some (erase w')"
      "map_option mgr_time (tw_mgrs w' m) = Some t" "\<forall>k. k \<noteq> m \<longrightarrow> tw_mgrs w' k = tw_mgrs w k" unfolding me er by auto
  have "\<forall>a\<in>#mgr_elems m w'. t < pri (tw_timers w') a"
    using r(4) tframe_pri [OF r(6)] by auto
  then have "mgr_inv m w'" using r(5,8) unfolding mgr_inv_def by auto
  moreover have "hlt_timer_mgr_advance ops mgr t w = Some (length as, w')"
    using r(1) mg m by (simp add: hlt_timer_mgr_advance_def)
  ultimately show ?thesis using r by blast
qed

text \<open>The same in terms of the elements: those that are due expire, each once.\<close>

lemma advance_due:
  assumes qi: "queue_inv m w" and lc: "live_cookies good m w" and m: "m = the_mgr mgr w"
    and few: "size (filter_mset (\<lambda>a. pri (tw_timers w) a \<le> t) (mgr_elems m w)) \<le> 2147483647"
  shows "\<exists>cs w'. hlt_timer_mgr_advance ops mgr t w = Some (length cs, w') \<and>
    length cs = size (filter_mset (\<lambda>a. pri (tw_timers w) a \<le> t) (mgr_elems m w)) \<and>
    distinct cs \<and> set cs = {c. is_due t m w c} \<and> mgr_inv m w' \<and> map_option mgr_time (tw_mgrs w' m) = Some t \<and>
    expire_all ops cs (erase w) = Some (erase w') \<and>
    mgr_elems m w' = filter_mset (\<lambda>a. \<not> pri (tw_timers w) a \<le> t) (mgr_elems m w) \<and>
    tframe (tw_timers w) (tw_timers w') \<and> (\<forall>k. k \<noteq> m \<longrightarrow> tw_mgrs w' k = tw_mgrs w k)"
proof -
  let ?c = "cookie_of (tw_timers w)"
  from advance_ok [OF assms] obtain as w' where
    a: "hlt_timer_mgr_advance ops mgr t w = Some (length as, w')" "mset as = filter_mset (\<lambda>a. pri (tw_timers w) a \<le> t) (mgr_elems m w)"
      "mgr_inv m w'" "map_option mgr_time (tw_mgrs w' m) = Some t" "expire_all ops (map ?c as) (erase w) = Some (erase w')"
      "mgr_elems m w' = filter_mset (\<lambda>a. \<not> pri (tw_timers w) a \<le> t) (mgr_elems m w)"
      "tframe (tw_timers w) (tw_timers w')" "\<forall>k. k \<noteq> m \<longrightarrow> tw_mgrs w' k = tw_mgrs w k" by blast
  have sub: "set as = {x \<in> set_mset (mgr_elems m w). pri (tw_timers w) x \<le> t}" using a(2) by (metis set_mset_filter set_mset_mset)
  have "distinct as"
  proof -
    obtain mg where mg: "tw_mgrs w m = Some mg" "pq_inv (tw_timers w) (mgr_timers mg)" using qi by (auto simp: queue_inv_def)
    have "count (mgr_elems m w) x \<le> 1" for x
      using queue_inv_distinct [of "tw_timers w" "mgr_timers mg" x] mg unfolding pq_inv_def mgr_elems_def by simp
    then have c1: "count (mset as) x \<le> 1" for x unfolding a(2) using le_trans by (auto simp: count_filter_mset)
    have "count (mset as) x = 1" if "x \<in> set as" for x
      using c1 [of x] that by (metis One_nat_def Suc_leI count_greater_zero_iff le_antisym set_mset_mset)
    then show ?thesis unfolding distinct_count_atmost_1 using count_mset_0_iff by auto
  qed
  moreover have "inj_on ?c (set as)" using lc sub unfolding live_cookies_def by (auto intro: inj_on_subset)
  ultimately have "distinct (map ?c as)" by (simp add: distinct_map)
  moreover have "set (map ?c as) = {c. is_due t m w c}" using sub by (auto simp: is_due_def)
  moreover have "length as = size (filter_mset (\<lambda>a. pri (tw_timers w) a \<le> t) (mgr_elems m w))" using a(2) by (metis size_mset)
  ultimately show ?thesis using a(1,3-8) by (intro exI [of _ "map ?c as"] exI [of _ w']) simp
qed

end

section \<open>Moving a timer to an earlier time\<close>

text \<open>A timer that is not later than its children stays where it is.\<close>

lemma percolate_stays:
  assumes wf: "pq_wf ts q" and i: "1 \<le> i" "i < pq_size q"
    and kids: "\<And>j. 2 \<le> j \<Longrightarrow> j < pq_size q \<Longrightarrow> j div 2 = i \<Longrightarrow> pri ts (pq_d q ! i) \<le> pri ts (pq_d q ! j)"
  shows "percolate_down ts q i = Some (ts, q)"
proof -
  let ?a = "pq_d q ! i" and ?d = "pq_d q" and ?n = "pq_size q"
  obtain t where t: "ts ?a = Some t" "queue_pos t = i" using pq_wf_nth [OF wf i] by blast
  have len: "i < length ?d" "?n \<le> length ?d" using wf i unfolding pq_wf_def by auto
  have live: "\<exists>u. ts (?d ! j) = Some u" if "1 \<le> j" "j < ?n" for j using pq_wf_nth [OF wf that] by blast
  have stop: "percolate_down_loop ts ?d ?n i (timer_time t) = Some (ts, ?d, i)"
  proof (cases "?n \<le> 2 * i")
    case True
    then show ?thesis by (subst percolate_down_loop.simps) (simp add: maxchild_none)
  next
    case False
    have "\<exists>c. maxchild ts ?d ?n i = Some c"
      using live [of "2 * i"] live [of "Suc (2 * i)"] False i len
      by (auto simp: maxchild_def left_pos_def rd_def getpri_def Let_def)
    then obtain c where c: "maxchild ts ?d ?n i = Some c" by blast
    then have "c \<noteq> 0" using False i by (auto simp: maxchild_def left_pos_def Let_def bind_eq_Some_conv split: if_splits)
    then have k: "i < c" "c < ?n" "c div 2 = i" using maxchild_bounds [OF c] by auto
    obtain u where u: "ts (?d ! c) = Some u" using live [of c] k by auto
    have "timer_time t \<le> timer_time u" using kids [of c] k i t u by (simp add: pri_def)
    then show ?thesis using c k u len by (subst percolate_down_loop.simps) (simp add: rd_def getpri_def cmppri_def)
  qed
  have "t\<lparr>queue_pos := i\<rparr> = t" using t(2) by (cases t) simp
  then have "ts(?a \<mapsto> t\<lparr>queue_pos := i\<rparr>) = ts" using t(1) by auto
  then show ?thesis using stop t(1) len by (simp add: percolate_down_def rd_def wr_def getpri_def setpos_def)
qed

lemma update_earlier:
  fixes w :: "'a timer_world_scheme"
  assumes inv: "mgr_inv m w" and mg: "tw_mgrs w m = Some mg" and tm: "tw_timers w a = Some tm" "timer_mgr tm = Some m"
    and pos: "2 \<le> queue_pos tm" and t: "mgr_time mg < t" "t < pri (tw_timers w) (pq_d (mgr_timers mg) ! parent_pos (queue_pos tm))"
  defines "w1 \<equiv> w\<lparr>tw_timers := (tw_timers w)(a \<mapsto> tm\<lparr>timer_time := t\<rparr>)\<rparr>"
  shows "hlt_timer_update ops (Some a) t w = Some w1 \<and> \<not> mgr_inv m w1 \<and> a \<in># mgr_elems m w \<and>
    (\<forall>t'. t \<le> t' \<and> t' < pri (tw_timers w) (pq_d (mgr_timers mg) ! 1) \<longrightarrow>
      hlt_timer_mgr_advance ops (Some m) t' w1 = Some (0, w1\<lparr>tw_mgrs := (tw_mgrs w)(m \<mapsto> mg\<lparr>mgr_time := t'\<rparr>)\<rparr>))"
proof -
  let ?q = "mgr_timers mg" and ?ts = "(tw_timers w)(a \<mapsto> tm\<lparr>timer_time := t\<rparr>)" and ?i = "queue_pos tm"
  let ?d = "pq_d ?q" and ?n = "pq_size ?q"
  have pq: "pq_wf (tw_timers w) ?q" "heap_fun (\<lambda>j. pri (tw_timers w) (?d ! j)) ?n" and ain: "a \<in># pq_elems ?q"
    using inv mg tm unfolding mgr_inv_def queue_inv_def pq_inv_def by auto
  from pq_wf_pos [OF pq(1) ain] tm have i: "?i < ?n" "?d ! ?i = a" by auto
  have inj: "j = ?i" if "1 \<le> j" "j < ?n" "?d ! j = a" for j using pq_wf_nth [OF pq(1) that(1,2)] that(3) tm by auto
  have p: "pri ?ts (?d ! j) = (if j = ?i then t else pri (tw_timers w) (?d ! j))" if "1 \<le> j" "j < ?n" for j
    using inj [OF that] i(2) tm(1) by (cases "j = ?i") (auto simp: pri_def)
  have wf: "pq_wf ?ts ?q" using pq(1) tm unfolding pq_wf_def placed_def by (auto split: if_splits)
  have par: "1 \<le> ?i div 2" "?i div 2 < ?n" "?i div 2 \<noteq> ?i" using pos i by auto
  have old: "t < timer_time tm" using pq(2) [unfolded heap_fun_def, rule_format, OF pos i(1)] t(2) tm i(2) by (simp add: parent_pos_def pri_def)
  have kids: "pri ?ts (?d ! ?i) \<le> pri ?ts (?d ! j)" if "2 \<le> j" "j < ?n" "j div 2 = ?i" for j
    using pq(2) [unfolded heap_fun_def, rule_format, OF that(1,2)] that p [of j] p [of ?i] i pos old tm by (auto simp: pri_def)
  have "percolate_down ?ts ?q ?i = Some (?ts, ?q)" by (rule percolate_stays [OF wf _ i(1) kids]) (use pos in auto)
  then have "priority_queue_change_priority ?ts ?q t a = Some (?ts, ?q)"
    by (simp add: priority_queue_change_priority_def getpri_def setpri_def getpos_def cmppri_def)
  moreover have same: "(tw_mgrs w)(m \<mapsto> mg) = tw_mgrs w" using mg by auto
  ultimately have u: "hlt_timer_update ops (Some a) t w = Some w1"
    using tm mg t(1) by (simp add: hlt_timer_update_def w1_def set_queue_def)
  have "\<not> heap_fun (\<lambda>j. pri ?ts (?d ! j)) ?n"
    using p [of ?i] p [of "?i div 2"] par pos i t(2) unfolding heap_fun_def parent_pos_def by (auto intro!: exI [of _ ?i])
  then have "\<not> mgr_inv m w1" using mg by (auto simp: mgr_inv_def queue_inv_def pq_inv_def w1_def)
  moreover have "hlt_timer_mgr_advance ops (Some m) t' w1 = Some (0, w1\<lparr>tw_mgrs := (tw_mgrs w)(m \<mapsto> mg\<lparr>mgr_time := t'\<rparr>)\<rparr>)"
    if "t' < pri (tw_timers w) (?d ! 1)" for t'
  proof -
    have n1: "1 < ?n" using pos i by linarith
    obtain b where b: "tw_timers w (?d ! 1) = Some b" using pq_wf_nth [OF pq(1) order_refl n1] by blast
    have ne: "?d ! 1 \<noteq> a" using inj [OF order_refl n1] pos by auto
    have pk: "priority_queue_peek ?q = Some (Some (?d ! 1))" using n1 wf by (simp add: priority_queue_peek_def rd_def pq_wf_def)
    have "mgr_advance_loop ops m t' 0 (w1\<lparr>tw_mgrs := (tw_mgrs w)(m \<mapsto> mg\<lparr>mgr_time := t'\<rparr>)\<rparr>) =
        Some (0, w1\<lparr>tw_mgrs := (tw_mgrs w)(m \<mapsto> mg\<lparr>mgr_time := t'\<rparr>)\<rparr>)"
      using pk b ne that by (subst mgr_advance_loop.simps) (simp add: w1_def pri_def)
    then show ?thesis using mg by (simp add: hlt_timer_mgr_advance_def the_mgr_def w1_def)
  qed
  ultimately show ?thesis using u ain mg by (simp add: mgr_elems_def)
qed

section \<open>Dropping all timers\<close>

lemma expire_drop_ok:
  assumes "queue_inv m w" "tw_mgrs w m = Some mg"
  shows "\<exists>w' mg'. mgr_expire_loop ops m False w = Some w' \<and> mgr_elems m w' = {#} \<and>
    strip (tw_timers w') = strip (tw_timers w) \<and> erase w' = erase w \<and> tw_mgrs w' m = Some mg'"
proof -
  have "pq_inv (tw_timers w) (mgr_timers mg)" using assms unfolding queue_inv_def by auto
  then show ?thesis using assms(2)
  proof (induction "size (mgr_elems m w)" arbitrary: w mg)
    case 0
    then have e: "pq_elems (mgr_timers mg) = {#}" by (simp add: mgr_elems_def)
    then have "mgr_expire_loop ops m False w = Some (set_queue m mg (tw_timers w) (mgr_timers mg) w)"
      using 0 tq.pop_empty_law by (subst mgr_expire_loop.simps) simp
    then show ?case using e by (auto simp: set_queue_def mgr_elems_def erase_def)
  next
    case (Suc k)
    then have ne: "pq_elems (mgr_timers mg) \<noteq> {#}" by (auto simp: mgr_elems_def)
    from tq.pop_law [OF Suc.prems(1) ne] obtain a ts q where
      p: "priority_queue_pop (tw_timers w) (mgr_timers mg) = Some (Some a, ts, q)" "pq_inv ts q"
         "strip ts = strip (tw_timers w)" "pq_elems (mgr_timers mg) = add_mset a (pq_elems q)" by blast
    let ?w = "set_queue m mg ts q w"
    have "k = size (mgr_elems m ?w)"
      using Suc.hyps(2) Suc.prems(2) p(4) by (simp add: mgr_elems_def set_queue_def)
    then obtain w' mg' where "mgr_expire_loop ops m False ?w = Some w'" "mgr_elems m w' = {#}"
      "strip (tw_timers w') = strip (tw_timers ?w)" "erase w' = erase ?w" "tw_mgrs w' m = Some mg'"
      using Suc.hyps(1) [of ?w "mg\<lparr>mgr_timers := q\<rparr>"] p(2) by (auto simp: set_queue_def)
    then show ?case using Suc.prems(2) p
      by (subst mgr_expire_loop.simps) (auto simp: set_queue_def erase_def)
  qed
qed

section \<open>Properties\<close>

text \<open>A manager at time 0 with two queued timers, due at 10 and 20, and a third timer that is not scheduled.\<close>

definition two_timer_world :: timer_world where
  "two_timer_world = \<lparr>
     tw_timers = [5 \<mapsto> \<lparr>timer_mgr = Some 1, timer_time = 10, queue_pos = 1, cookie = CFunction 0\<rparr>,
                  6 \<mapsto> \<lparr>timer_mgr = Some 1, timer_time = 20, queue_pos = 2, cookie = CFunction 1\<rparr>,
                  7 \<mapsto> \<lparr>timer_mgr = None, timer_time = hlt_time_unset, queue_pos = 0, cookie = CFunction 2\<rparr>],
     tw_mgrs = [1 \<mapsto> \<lparr>mgr_time = 0, mgr_timers = two_queued\<rparr>],
     tw_next = 8, tw_ctx_tmgr = 1, tw_vid_main = True, tw_global_time = 0, tw_excpt = None\<rparr>"

definition no_actions :: "timer_world expiry_ops" where
  "no_actions = \<lparr>x_function = \<lambda>_. Some, x_list = \<lambda>_ _. Some, x_map = \<lambda>_ _. Some, x_set = \<lambda>_ _. Some,
     x_vector = \<lambda>_ _. Some, x_profiler = \<lambda>_. Some\<rparr>"

lemma two_timer_inv: "mgr_inv 1 two_timer_world"
proof -
  have "pq_inv (tw_timers two_timer_world) two_queued"
    by (rule tq.frame_law [OF two_queued_inv]) (auto simp: two_timer_world_def three_timers_def two_queued_elems)
  moreover have "timer_mgr t = Some 1 \<longleftrightarrow> a \<in># pq_elems two_queued" if "tw_timers two_timer_world a = Some t" for a t
    using that by (auto simp: two_timer_world_def two_queued_elems split: if_splits)
  ultimately have "queue_inv 1 two_timer_world" by (auto simp: queue_inv_def two_timer_world_def)
  moreover have "mgr_elems 1 two_timer_world = {#5, 6#}" by (simp add: mgr_elems_def two_timer_world_def two_queued_elems)
  ultimately show ?thesis by (auto simp: mgr_inv_def two_timer_world_def pri_def)
qed

lemma two_timer_lookup:
  "tw_timers two_timer_world 5 = Some \<lparr>timer_mgr = Some 1, timer_time = 10, queue_pos = 1, cookie = CFunction 0\<rparr>"
  "tw_timers two_timer_world 6 = Some \<lparr>timer_mgr = Some 1, timer_time = 20, queue_pos = 2, cookie = CFunction 1\<rparr>"
  "tw_timers two_timer_world 7 = Some \<lparr>timer_mgr = None, timer_time = hlt_time_unset, queue_pos = 0, cookie = CFunction 2\<rparr>"
  "tw_mgrs two_timer_world 1 = Some \<lparr>mgr_time = 0, mgr_timers = two_queued\<rparr>"
  "the_mgr None two_timer_world = 1"
  by (simp_all add: two_timer_world_def the_mgr_def)

text \<open>
  Scheduling. A timer that is not scheduled and is set for a later time than the manager's is queued:
  the invariant of the manager is kept, no other timer changes, and neither do clocks and containers.
\<close>

theorem timer_schedule_correct:
  assumes "mgr_inv (the_mgr mgr w) w" "tw_mgrs w (the_mgr mgr w) = Some mg" "mgr_time mg < t"
    "tw_timers w a = Some tm" "timer_mgr tm = None"
  shows "\<exists>w'. hlt_timer_mgr_schedule ops mgr t a w = Some w' \<and> mgr_inv (the_mgr mgr w) w' \<and>
    mgr_elems (the_mgr mgr w) w' = add_mset a (mgr_elems (the_mgr mgr w) w) \<and> pri (tw_timers w') a = t \<and>
    erase w' = erase w \<and> clocks w' = clocks w \<and> (\<forall>b. b \<noteq> a \<longrightarrow> pri (tw_timers w') b = pri (tw_timers w) b)"
  using schedule_ok [OF assms, of ops] by blast

theorem timer_schedule_correct_witness:
  "\<exists>w'. hlt_timer_mgr_schedule no_actions None 15 7 two_timer_world = Some w' \<and> mgr_inv (the_mgr None two_timer_world) w' \<and>
    mgr_elems (the_mgr None two_timer_world) w' = add_mset 7 (mgr_elems (the_mgr None two_timer_world) two_timer_world) \<and>
    pri (tw_timers w') 7 = 15 \<and> erase w' = erase two_timer_world \<and> clocks w' = clocks two_timer_world \<and>
    (\<forall>b. b \<noteq> 7 \<longrightarrow> pri (tw_timers w') b = pri (tw_timers two_timer_world) b)"
  using timer_schedule_correct [of None two_timer_world, unfolded two_timer_lookup(5), OF two_timer_inv two_timer_lookup(4) _ two_timer_lookup(3)]
  unfolding two_timer_lookup(5) by simp

text \<open>
  Cancelling a scheduled timer takes exactly that timer out of its manager's queue and detaches it.
\<close>

theorem timer_cancel_correct:
  assumes "mgr_inv m w" "tw_timers w a = Some tm" "timer_mgr tm = Some m"
  shows "\<exists>w' tm'. hlt_timer_cancel (Some a) w = Some w' \<and> mgr_inv m w' \<and> mgr_elems m w = add_mset a (mgr_elems m w') \<and>
    tw_timers w' a = Some tm' \<and> timer_mgr tm' = None \<and> erase w' = erase w \<and>
    (\<forall>b. b \<noteq> a \<longrightarrow> pri (tw_timers w') b = pri (tw_timers w) b)"
  using cancel_ok [OF assms] by blast

theorem timer_cancel_correct_witness:
  "\<exists>w' tm'. hlt_timer_cancel (Some 5) two_timer_world = Some w' \<and> mgr_inv 1 w' \<and>
    mgr_elems 1 two_timer_world = add_mset 5 (mgr_elems 1 w') \<and> tw_timers w' 5 = Some tm' \<and> timer_mgr tm' = None \<and>
    erase w' = erase two_timer_world \<and> (\<forall>b. b \<noteq> 5 \<longrightarrow> pri (tw_timers w') b = pri (tw_timers two_timer_world) b)"
  by (rule timer_cancel_correct [OF two_timer_inv two_timer_lookup(1)]) simp

text \<open>
  Errors. Scheduling a timer that is already scheduled, and updating one that is not, raise their
  exceptions and change nothing else. Cancelling a timer that is not scheduled is not checked: the
  code reads through its null manager.
\<close>

theorem timer_wrong_state:
  assumes "tw_timers w a = Some tm"
  shows "(timer_mgr tm \<noteq> None \<longrightarrow> hlt_timer_mgr_schedule ops mgr t a w = Some (w\<lparr>tw_excpt := Some TimerAlreadyScheduled\<rparr>)) \<and>
    (timer_mgr tm = None \<longrightarrow> hlt_timer_update ops (Some a) t w = Some (w\<lparr>tw_excpt := Some TimerNotScheduled\<rparr>) \<and>
       hlt_timer_cancel (Some a) w = None)"
  using assms
  by (simp add: hlt_timer_mgr_schedule_def hlt_timer_update_def hlt_timer_cancel_def hlt_set_exception_def)

theorem timer_wrong_state_witness:
  "hlt_timer_mgr_schedule no_actions None 30 5 two_timer_world = Some (two_timer_world\<lparr>tw_excpt := Some TimerAlreadyScheduled\<rparr>) \<and>
   hlt_timer_update no_actions (Some 7) 30 two_timer_world = Some (two_timer_world\<lparr>tw_excpt := Some TimerNotScheduled\<rparr>) \<and>
   hlt_timer_cancel (Some 7) two_timer_world = None"
  using timer_wrong_state [OF two_timer_lookup(1), of no_actions None 30]
    timer_wrong_state [OF two_timer_lookup(3), of no_actions None 30] by simp

text \<open>
  Moving a scheduled timer to a later time keeps the manager's invariant and the set of queued timers.
\<close>

theorem timer_update_later_correct:
  assumes "mgr_inv m w" "tw_mgrs w m = Some mg" "tw_timers w a = Some tm" "timer_mgr tm = Some m" "timer_time tm \<le> t"
  shows "\<exists>w'. hlt_timer_update ops (Some a) t w = Some w' \<and> mgr_inv m w' \<and> mgr_elems m w' = mgr_elems m w \<and>
    pri (tw_timers w') a = t \<and> erase w' = erase w \<and> (\<forall>b. b \<noteq> a \<longrightarrow> pri (tw_timers w') b = pri (tw_timers w) b)"
  using update_later_ok [OF assms, of ops] by blast

theorem timer_update_later_correct_witness:
  "\<exists>w'. hlt_timer_update no_actions (Some 5) 30 two_timer_world = Some w' \<and> mgr_inv 1 w' \<and>
    mgr_elems 1 w' = mgr_elems 1 two_timer_world \<and> pri (tw_timers w') 5 = 30 \<and> erase w' = erase two_timer_world \<and>
    (\<forall>b. b \<noteq> 5 \<longrightarrow> pri (tw_timers w') b = pri (tw_timers two_timer_world) b)"
  by (rule timer_update_later_correct [OF two_timer_inv two_timer_lookup(4,1)]) simp_all

text \<open>
  C34: Moving a timer to an earlier time than its parent's breaks the queue. The update stores the new time before it asks the queue to
  change the priority, so the queue sees no difference and only tries to move the timer down, which stops at
  once. For every manager that satisfies its invariant and every queued timer \<open>a\<close> that is not at the root: after
  moving \<open>a\<close> to a time that lies behind the manager's clock and before the time of the timer at its parent's position, only
  the time stored in \<open>a\<close> has changed, the queue is out of order, and advancing the manager to any time from
  the new time up to, but not including, that of the timer at the root fires nothing, although \<open>a\<close> is due.
\<close>

theorem timer_update_earlier_breaks_queue:
  assumes "mgr_inv m w" "tw_mgrs w m = Some mg" "tw_timers w a = Some tm" "timer_mgr tm = Some m" "2 \<le> queue_pos tm"
    "mgr_time mg < t" "t < pri (tw_timers w) (pq_d (mgr_timers mg) ! parent_pos (queue_pos tm))"
  shows "hlt_timer_update ops (Some a) t w = Some (w\<lparr>tw_timers := (tw_timers w)(a \<mapsto> tm\<lparr>timer_time := t\<rparr>)\<rparr>) \<and>
    \<not> mgr_inv m (w\<lparr>tw_timers := (tw_timers w)(a \<mapsto> tm\<lparr>timer_time := t\<rparr>)\<rparr>) \<and> a \<in># mgr_elems m w \<and>
    (\<forall>t'. t \<le> t' \<and> t' < pri (tw_timers w) (pq_d (mgr_timers mg) ! 1) \<longrightarrow>
      hlt_timer_mgr_advance ops (Some m) t' (w\<lparr>tw_timers := (tw_timers w)(a \<mapsto> tm\<lparr>timer_time := t\<rparr>)\<rparr>) =
        Some (0, w\<lparr>tw_timers := (tw_timers w)(a \<mapsto> tm\<lparr>timer_time := t\<rparr>), tw_mgrs := (tw_mgrs w)(m \<mapsto> mg\<lparr>mgr_time := t'\<rparr>)\<rparr>))"
  using update_earlier [OF assms] by blast

text \<open>Two timers, due at 10 and 20; the second, below the first, is moved to 5. Advancing to 7 fires nothing.\<close>

theorem timer_update_earlier_breaks_queue_witness:
  "\<exists>w1 w2. hlt_timer_update no_actions (Some 6) 5 two_timer_world = Some w1 \<and> \<not> mgr_inv 1 w1 \<and> pri (tw_timers w1) 6 = 5 \<and>
    6 \<in># mgr_elems 1 w1 \<and> hlt_timer_mgr_advance no_actions (Some 1) 7 w1 = Some (0, w2)"
  using timer_update_earlier_breaks_queue [OF two_timer_inv two_timer_lookup(4,2), of 5 no_actions] two_timer_lookup(1)
  by (auto simp: two_queued_def parent_pos_def pri_def mgr_elems_def)

end
