(* ===== verification/Dll.thy ===== *)
theory Dll
  imports Prelude
begin

text \<open>
  Doubly linked lists on a store, the structure that the element nodes of
  \<^verbatim>\<open>libhilti/list.c\<close> and the chunks of \<^verbatim>\<open>libspicy/sink.c\<close> share: a header with a
  first and a last pointer, and nodes with a next and a previous pointer. The two files link and
  unlink nodes with the same sequence of pointer assignments; \<open>dll_link\<close> and \<open>dll_unlink\<close> are that
  sequence, every dereference checked.

  \<open>dll h (f, l) ps\<close> says that the header \<open>(f, l)\<close> in store \<open>h\<close> represents the list of addresses
  \<open>ps\<close>. The lemmas show that linking and unlinking never fault on a well-formed list and
  are insertion and removal on \<open>ps\<close>.
\<close>

record 'p dnode =
  dn_next :: ptr
  dn_prev :: ptr
  dn_val :: 'p

type_synonym 'p dheap = "addr \<rightharpoonup> 'p dnode"
type_synonym dhead = "ptr \<times> ptr"

text \<open>A checked write through a pointer.\<close>

definition upd :: "('k \<rightharpoonup> 'v) \<Rightarrow> 'k \<Rightarrow> ('v \<Rightarrow> 'v) \<Rightarrow> ('k \<rightharpoonup> 'v) option" where
  "upd h a g = map_option (\<lambda>x. h(a \<mapsto> g x)) (h a)"

lemma upd_Some [safe_simps]: "h a = Some x \<Longrightarrow> upd h a g = Some (h(a \<mapsto> g x))"
  by (simp add: upd_def)

section \<open>Linking and unlinking\<close>

definition dll_link :: "'p dheap \<Rightarrow> dhead \<Rightarrow> addr \<Rightarrow> ptr \<Rightarrow> ('p dheap \<times> dhead) option" where
  "dll_link h hdr n pos =
     (case pos of
        Some p \<Rightarrow> do {
          pn \<leftarrow> h p;
          (h1, tail) \<leftarrow> (case dn_next pn of
               Some x \<Rightarrow> map_option (\<lambda>h'. (h', snd hdr)) (upd h x (\<lambda>y. y\<lparr>dn_prev := Some n\<rparr>))
             | None \<Rightarrow> Some (h, Some n));
          pn1 \<leftarrow> h1 p;
          h2 \<leftarrow> upd h1 n (\<lambda>y. y\<lparr>dn_next := dn_next pn1\<rparr>);
          h3 \<leftarrow> upd h2 p (\<lambda>y. y\<lparr>dn_next := Some n\<rparr>);
          h4 \<leftarrow> upd h3 n (\<lambda>y. y\<lparr>dn_prev := Some p\<rparr>);
          Some (h4, (fst hdr, tail))
        }
      | None \<Rightarrow> do {
          h1 \<leftarrow> upd h n (\<lambda>y. y\<lparr>dn_next := fst hdr\<rparr>);
          (h2, tail) \<leftarrow> (case fst hdr of
               Some x \<Rightarrow> map_option (\<lambda>h'. (h', snd hdr)) (upd h1 x (\<lambda>y. y\<lparr>dn_prev := Some n\<rparr>))
             | None \<Rightarrow> Some (h1, Some n));
          Some (h2, (Some n, tail))
        })"

definition dll_unlink :: "'p dheap \<Rightarrow> dhead \<Rightarrow> addr \<Rightarrow> ('p dheap \<times> dhead) option" where
  "dll_unlink h hdr n = do {
     nn \<leftarrow> h n;
     (h1, tail) \<leftarrow> (case dn_next nn of
          Some x \<Rightarrow> map_option (\<lambda>h'. (h', snd hdr)) (upd h x (\<lambda>y. y\<lparr>dn_prev := dn_prev nn\<rparr>))
        | None \<Rightarrow> Some (h, dn_prev nn));
     nn1 \<leftarrow> h1 n;
     (h2, head) \<leftarrow> (case dn_prev nn1 of
          Some x \<Rightarrow> map_option (\<lambda>h'. (h', fst hdr)) (upd h1 x (\<lambda>y. y\<lparr>dn_next := dn_next nn1\<rparr>))
        | None \<Rightarrow> Some (h1, dn_next nn1));
     h3 \<leftarrow> upd h2 n (\<lambda>y. y\<lparr>dn_next := None, dn_prev := None\<rparr>);
     Some (h3, (head, tail))
   }"

section \<open>Representation\<close>

fun dseg :: "'p dheap \<Rightarrow> ptr \<Rightarrow> ptr \<Rightarrow> addr list \<Rightarrow> ptr \<Rightarrow> ptr \<Rightarrow> bool" where
  "dseg h a p [] e l \<longleftrightarrow> a = e \<and> p = l"
| "dseg h a p (x # xs) e l \<longleftrightarrow> a = Some x \<and>
     (case h x of None \<Rightarrow> False | Some n \<Rightarrow> dn_prev n = p \<and> dseg h (dn_next n) (Some x) xs e l)"

definition dll :: "'p dheap \<Rightarrow> dhead \<Rightarrow> addr list \<Rightarrow> bool" where
  "dll h hdr ps \<longleftrightarrow> dseg h (fst hdr) None ps None (snd hdr) \<and> distinct ps"

text \<open>Every node keeps its payload; nodes off the list are untouched.\<close>

definition keeps_vals :: "'p dheap \<Rightarrow> 'p dheap \<Rightarrow> bool" where
  "keeps_vals h h' \<longleftrightarrow> (\<forall>a. map_option dn_val (h' a) = map_option dn_val (h a))"

lemma dseg_append:
  "dseg h a p (xs @ ys) e l \<longleftrightarrow> (\<exists>b q. dseg h a p xs b q \<and> dseg h b q ys e l)"
  by (induction xs arbitrary: a p) (auto split: option.splits)

lemma dseg_frame: "x \<notin> set xs \<Longrightarrow> dseg (h(x := v)) a p xs e l = dseg h a p xs e l"
  by (induction xs arbitrary: a p) (auto split: option.splits)

lemma dseg_live: "dseg h a p xs e l \<Longrightarrow> x \<in> set xs \<Longrightarrow> \<exists>n. h x = Some n"
  by (induction xs arbitrary: a p) (auto split: option.splits)

lemma dseg_first: "dseg h a p xs e l \<Longrightarrow> a = (case xs of [] \<Rightarrow> e | x # _ \<Rightarrow> Some x)"
  by (cases xs) auto

lemma dseg_last: "dseg h a p xs e l \<Longrightarrow> l = (if xs = [] then p else Some (last xs))"
  by (induction xs arbitrary: a p) (auto split: option.splits)

lemma dll_live: "dll h hdr ps \<Longrightarrow> x \<in> set ps \<Longrightarrow> \<exists>n. h x = Some n"
  unfolding dll_def by (auto dest: dseg_live)

lemma dll_first: "dll h hdr ps \<Longrightarrow> fst hdr = (case ps of [] \<Rightarrow> None | x # _ \<Rightarrow> Some x)"
  unfolding dll_def by (auto dest: dseg_first)

lemma dll_last: "dll h hdr ps \<Longrightarrow> snd hdr = (if ps = [] then None else Some (last ps))"
  unfolding dll_def by (auto dest: dseg_last)

lemma dll_next:
  assumes "dll h hdr (xs @ x # ys)"
  shows "\<exists>n. h x = Some n \<and> dn_next n = (case ys of [] \<Rightarrow> None | y # _ \<Rightarrow> Some y) \<and>
    dn_prev n = (if xs = [] then None else Some (last xs))"
proof -
  from assms obtain b q n where "dseg h (fst hdr) None xs b q" "h x = Some n" "dn_prev n = q"
    "dseg h (dn_next n) (Some x) ys None (snd hdr)"
    unfolding dll_def by (auto simp: dseg_append split: option.splits)
  then show ?thesis using dseg_last [of h _ None xs b q] dseg_first [of h "dn_next n" _ ys] by auto
qed

lemma dll_frame: "x \<notin> set ps \<Longrightarrow> dll (h(x := v)) hdr ps = dll h hdr ps"
  by (simp add: dll_def dseg_frame)

lemma dseg_cong: "(\<And>a. a \<in> set ps \<Longrightarrow> h' a = h a) \<Longrightarrow> dseg h' a p ps e l = dseg h a p ps e l"
  by (induction ps arbitrary: a p) (auto split: option.splits)

lemma dll_cong: "(\<And>a. a \<in> set ps \<Longrightarrow> h' a = h a) \<Longrightarrow> dll h' hdr ps = dll h hdr ps"
  using dseg_cong [of ps h' h] by (simp add: dll_def)

lemma dseg_unique: "dseg h a p xs None l \<Longrightarrow> dseg h a p ys None l' \<Longrightarrow> xs = ys"
proof (induction xs arbitrary: a p ys)
  case Nil then show ?case by (cases ys) auto
next
  case (Cons x xs) then show ?case by (cases ys) (auto split: option.splits)
qed

lemma dll_unique: "dll h hdr xs \<Longrightarrow> dll h hdr ys \<Longrightarrow> xs = ys"
  unfolding dll_def using dseg_unique by blast

lemma dll_Nil: "dll h (None, None) []"
  by (simp add: dll_def)

text \<open>Updating a payload does not disturb the links.\<close>

lemma dseg_val: "h x = Some n \<Longrightarrow> dseg (h(x \<mapsto> n\<lparr>dn_val := v\<rparr>)) a p xs e l = dseg h a p xs e l"
  by (induction xs arbitrary: a p) (auto split: option.splits)

lemma dll_val: "h x = Some n \<Longrightarrow> dll (h(x \<mapsto> n\<lparr>dn_val := v\<rparr>)) hdr ps = dll h hdr ps"
  by (simp add: dll_def dseg_val)

text \<open>Redirecting the ends of a segment.\<close>

lemma dseg_new_prev:
  assumes "dseg h a p (y # ys) e l" "y \<notin> set ys" "h y = Some n"
  shows "dseg (h(y \<mapsto> n\<lparr>dn_prev := q\<rparr>)) a q (y # ys) e l"
  using assms by (simp add: dseg_frame)

lemma dseg_new_next:
  assumes "dseg h a p (xs @ [x]) e l" "x \<notin> set xs" "h x = Some n"
  shows "dseg (h(x \<mapsto> n\<lparr>dn_next := e'\<rparr>)) a p (xs @ [x]) e' l"
  using assms by (auto simp: dseg_append dseg_frame)

section \<open>Correctness of linking\<close>

lemma dll_link_after:
  assumes d: "dll h (f, l) (xs @ p # ys)" and n: "h n = Some nn" "n \<notin> set (xs @ p # ys)"
  shows "\<exists>h' l'. dll_link h (f, l) n (Some p) = Some (h', (f, l')) \<and> dll h' (f, l') (xs @ p # n # ys) \<and>
    keeps_vals h h' \<and> (\<forall>a. a \<notin> set (xs @ p # n # ys) \<longrightarrow> h' a = h a)"
proof -
  from d have dis: "distinct (xs @ p # ys)" unfolding dll_def by simp
  from d obtain pn b q where s1: "dseg h f None xs b q" and pn: "h p = Some pn" "b = Some p" "dn_prev pn = q"
    and s2: "dseg h (dn_next pn) (Some p) ys None l"
    unfolding dll_def by (auto simp: dseg_append split: option.splits)
  show ?thesis
  proof (cases ys)
    case Nil
    then have "dn_next pn = None" using s2 by simp
    let ?h = "h(n \<mapsto> nn\<lparr>dn_next := None, dn_prev := Some p\<rparr>, p \<mapsto> pn\<lparr>dn_next := Some n\<rparr>)"
    have "dll_link h (f, l) n (Some p) = Some (?h, (f, Some n))"
      using pn n dis Nil \<open>dn_next pn = None\<close> by (auto simp: dll_link_def upd_def fun_upd_twist)
    moreover have "dll ?h (f, Some n) (xs @ p # n # ys)"
      using s1 pn n dis Nil unfolding dll_def by (auto simp: dseg_append dseg_frame)
    ultimately show ?thesis using n pn Nil by (auto simp: keeps_vals_def)
  next
    case (Cons y ys')
    then obtain yn where yn: "h y = Some yn" "dn_next pn = Some y" "dn_prev yn = Some p"
      "dseg h (dn_next yn) (Some y) ys' None l"
      using s2 by (auto split: option.splits)
    let ?h = "h(y \<mapsto> yn\<lparr>dn_prev := Some n\<rparr>, n \<mapsto> nn\<lparr>dn_next := Some y, dn_prev := Some p\<rparr>,
        p \<mapsto> pn\<lparr>dn_next := Some n\<rparr>)"
    have "dll_link h (f, l) n (Some p) = Some (?h, (f, l))"
      using pn n dis Cons yn by (auto simp: dll_link_def upd_def fun_upd_twist)
    moreover have "dll ?h (f, l) (xs @ p # n # ys)"
      using s1 pn n dis Cons yn unfolding dll_def by (auto simp: dseg_append dseg_frame)
    ultimately show ?thesis using n pn Cons yn by (auto simp: keeps_vals_def)
  qed
qed

lemma dll_link_front:
  assumes d: "dll h (f, l) ps" and n: "h n = Some nn" "n \<notin> set ps" "dn_prev nn = None"
  shows "\<exists>h' l'. dll_link h (f, l) n None = Some (h', (Some n, l')) \<and> dll h' (Some n, l') (n # ps) \<and>
    keeps_vals h h' \<and> (\<forall>a. a \<notin> set (n # ps) \<longrightarrow> h' a = h a)"
proof (cases ps)
  case Nil
  let ?h = "h(n \<mapsto> nn\<lparr>dn_next := None\<rparr>)"
  have "dll_link h (f, l) n None = Some (?h, (Some n, Some n))"
    using d n Nil by (simp add: dll_link_def upd_def dll_def)
  moreover have "dll ?h (Some n, Some n) [n]" using n by (simp add: dll_def)
  ultimately show ?thesis using n Nil by (auto simp: keeps_vals_def)
next
  case (Cons y ys)
  then obtain yn where yn: "h y = Some yn" "f = Some y" "dn_prev yn = None"
    "dseg h (dn_next yn) (Some y) ys None l" "distinct (y # ys)"
    using d unfolding dll_def by (auto split: option.splits)
  let ?h = "h(n \<mapsto> nn\<lparr>dn_next := Some y\<rparr>, y \<mapsto> yn\<lparr>dn_prev := Some n\<rparr>)"
  have "dll_link h (f, l) n None = Some (?h, (Some n, l))"
    using n Cons yn by (auto simp: dll_link_def upd_def)
  moreover have "dll ?h (Some n, l) (n # ps)"
    using n Cons yn unfolding dll_def by (auto simp: dseg_frame)
  ultimately show ?thesis using n Cons yn by (auto simp: keeps_vals_def)
qed

lemma dll_unlink_ok:
  assumes d: "dll h (f, l) (xs @ n # ys)"
  shows "\<exists>h' hdr' nn. dll_unlink h (f, l) n = Some (h', hdr') \<and> dll h' hdr' (xs @ ys) \<and>
    h n = Some nn \<and> h' n = Some (nn\<lparr>dn_next := None, dn_prev := None\<rparr>) \<and>
    keeps_vals h h' \<and> (\<forall>a. a \<notin> set (xs @ n # ys) \<longrightarrow> h' a = h a)"
proof -
  from d have dis: "distinct (xs @ n # ys)" unfolding dll_def by simp
  from d obtain nn b q where s1: "dseg h f None xs b q" and nn: "h n = Some nn" "b = Some n" "dn_prev nn = q"
    and s2: "dseg h (dn_next nn) (Some n) ys None l"
    unfolding dll_def by (auto simp: dseg_append split: option.splits)
  show ?thesis
  proof (cases ys)
    case Nil
    then have nx: "dn_next nn = None" using s2 by simp
    show ?thesis
    proof (cases xs rule: rev_cases)
      case x: Nil
      let ?h = "h(n \<mapsto> nn\<lparr>dn_next := None, dn_prev := None\<rparr>)"
      have "dll_unlink h (f, l) n = Some (?h, (None, None))"
        using nn nx s1 x by (simp add: dll_unlink_def upd_def)
      then show ?thesis using Nil x nn by (auto simp: dll_def keeps_vals_def)
    next
      case (snoc xs' x)
      then obtain xn where xn: "h x = Some xn" "q = Some x" using s1
        by (auto simp: dseg_append split: option.splits)
      let ?h = "h(x \<mapsto> xn\<lparr>dn_next := None\<rparr>, n \<mapsto> nn\<lparr>dn_next := None, dn_prev := None\<rparr>)"
      have "dll_unlink h (f, l) n = Some (?h, (f, Some x))"
        using nn nx xn dis snoc by (auto simp: dll_unlink_def upd_def)
      moreover have "dseg (h(x \<mapsto> xn\<lparr>dn_next := None\<rparr>)) f None xs None q"
        using dseg_new_next [of h f None xs' x b q xn None] s1 snoc xn dis by auto
      then have "dll ?h (f, Some x) xs" using dis xn unfolding dll_def by (simp add: dseg_frame)
      ultimately show ?thesis using Nil snoc nn xn by (auto simp: keeps_vals_def)
    qed
  next
    case (Cons y ys')
    then obtain yn where yn: "h y = Some yn" "dn_next nn = Some y"
      using s2 by (auto split: option.splits)
    have sy: "dseg (h(y \<mapsto> yn\<lparr>dn_prev := p\<rparr>)) (Some y) p ys None l" for p
      using dseg_new_prev [of h "dn_next nn" "Some n" y ys' None l yn p] s2 Cons yn dis by simp
    show ?thesis
    proof (cases xs rule: rev_cases)
      case x: Nil
      let ?h = "h(y \<mapsto> yn\<lparr>dn_prev := None\<rparr>, n \<mapsto> nn\<lparr>dn_next := None, dn_prev := None\<rparr>)"
      have "dll_unlink h (f, l) n = Some (?h, (Some y, l))"
        using nn yn s1 x dis Cons by (auto simp: dll_unlink_def upd_def)
      moreover have "dll ?h (Some y, l) ys" using sy [of None] dis unfolding dll_def by (simp add: dseg_frame)
      ultimately show ?thesis using Cons x nn yn by (auto simp: keeps_vals_def)
    next
      case (snoc xs' x)
      then obtain xn where xn: "h x = Some xn" "q = Some x" using s1
        by (auto simp: dseg_append split: option.splits)
      have ne: "x \<noteq> y" "x \<noteq> n" "y \<noteq> n" "x \<notin> set ys" "y \<notin> set xs" "n \<notin> set xs" "n \<notin> set ys" "x \<notin> set xs'"
        using dis snoc Cons by auto
      let ?h = "h(y \<mapsto> yn\<lparr>dn_prev := Some x\<rparr>, x \<mapsto> xn\<lparr>dn_next := Some y\<rparr>,
          n \<mapsto> nn\<lparr>dn_next := None, dn_prev := None\<rparr>)"
      have un: "dll_unlink h (f, l) n = Some (?h, (f, l))"
        using nn yn xn ne by (auto simp: dll_unlink_def upd_def)
      have "dseg (h(x \<mapsto> xn\<lparr>dn_next := Some y\<rparr>)) f None xs (Some y) (Some x)"
        using dseg_new_next [of h f None xs' x b q xn "Some y"] s1 snoc xn ne by auto
      then have "dseg ?h f None xs (Some y) (Some x)"
        using ne by (simp add: dseg_frame fun_upd_twist [of y x])
      moreover have "dseg ?h (Some y) (Some x) ys None l"
        using sy [of "Some x"] ne by (simp add: dseg_frame)
      ultimately have "dll ?h (f, l) (xs @ ys)"
        using dis unfolding dll_def dseg_append by auto
      then show ?thesis using un Cons snoc nn yn xn by (auto simp: keeps_vals_def)
    qed
  qed
qed

text \<open>Linking between any two neighbours, addressed by the predecessor.\<close>

lemma dll_link_at:
  assumes d: "dll h hdr (xs @ ys)" and n: "h n = Some nn" "n \<notin> set (xs @ ys)" "dn_prev nn = None"
  shows "\<exists>h' hdr'. dll_link h hdr n (if xs = [] then None else Some (last xs)) = Some (h', hdr') \<and>
    dll h' hdr' (xs @ n # ys) \<and> keeps_vals h h' \<and> (\<forall>a. a \<notin> set (xs @ n # ys) \<longrightarrow> h' a = h a)"
proof -
  obtain f l where hdr: "hdr = (f, l)" by (cases hdr)
  show ?thesis
  proof (cases xs rule: rev_exhaust)
    case Nil
    have a: "dll h (f, l) ys" "n \<notin> set ys" using d n(2) Nil hdr by auto
    from dll_link_front [OF a(1) n(1) a(2) n(3)] show ?thesis using Nil hdr by auto
  next
    case (snoc us p)
    have a: "dll h (f, l) (us @ p # ys)" "n \<notin> set (us @ p # ys)" using d n(2) snoc hdr by auto
    from dll_link_after [OF a(1) n(1) a(2)] show ?thesis using snoc hdr by fastforce
  qed
qed

end
