(* ===== verification/HList.thy ===== *)
theory HList
  imports Timer Dll
begin

text \<open>
  The list type, \<^verbatim>\<open>libhilti/list.c\<close>: a doubly linked list of element nodes whose elements can
  be set to expire. The state \<open>list_world\<close> extends that of the timers with the store of nodes and
  the store of lists; an element is an opaque value of type \<open>val\<close>. A node that has been unlinked stays
  allocated as long as an iterator refers to it and carries the \<open>invalid\<close> mark that iterator
  operations test.

  \<open>list_inv l ps w\<close> is the invariant: list \<open>l\<close> represents the nodes \<open>ps\<close>, its size field is their
  number, no node of it is marked invalid, and each timer attached to a node is scheduled with the
  list's manager and names the node. The lemmas give the effect of each operation on \<open>ps\<close> and on the
  sequence of element values.
\<close>

definition expire_strategy_access :: hlt_enum where
  "expire_strategy_access = ELabel ''Access''"

record lnode =
  ln_timer :: ptr
  ln_invalid :: bool
  ln_data :: val

record hlt_list =
  l_head :: ptr
  l_tail :: ptr
  l_size :: int
  l_tmgr :: ptr
  l_timeout :: nat
  l_strategy :: hlt_enum

record list_world = timer_world +
  lw_nodes :: "lnode dheap"
  lw_lists :: "addr \<rightharpoonup> hlt_list"

record list_iter =
  li_list :: ptr
  li_node :: ptr

section \<open>Operations\<close>

definition list_link ::
  "addr \<Rightarrow> addr \<Rightarrow> ptr \<Rightarrow> 'a list_world_scheme \<Rightarrow> 'a list_world_scheme option" where
  "list_link l n pos w = do {
     L \<leftarrow> lw_lists w l;
     (h, hdr) \<leftarrow> dll_link (lw_nodes w) (l_head L, l_tail L) n pos;
     Some (w\<lparr>lw_nodes := h,
             lw_lists := (lw_lists w)(l \<mapsto> L\<lparr>l_head := fst hdr, l_tail := snd hdr, l_size := l_size L + 1\<rparr>)\<rparr>)
   }"

definition set_node :: "addr \<Rightarrow> (lnode \<Rightarrow> lnode) \<Rightarrow> 'a list_world_scheme \<Rightarrow> 'a list_world_scheme option" where
  "set_node n g w =
     map_option (\<lambda>h. w\<lparr>lw_nodes := h\<rparr>) (upd (lw_nodes w) n (\<lambda>x. x\<lparr>dn_val := g (dn_val x)\<rparr>))"

definition node_val :: "addr \<Rightarrow> 'a list_world_scheme \<Rightarrow> lnode option" where
  "node_val n w = map_option dn_val (lw_nodes w n)"

text \<open>
  \<open>ctx\<close> tells whether the execution context is passed on: \<^verbatim>\<open>hlt_list_expire\<close> passes a null
  context so that the timer that has just fired is not cancelled.
\<close>

definition list_unlink ::
  "addr \<Rightarrow> addr \<Rightarrow> bool \<Rightarrow> 'a list_world_scheme \<Rightarrow> 'a list_world_scheme option" where
  "list_unlink l n ctx w = do {
     L \<leftarrow> lw_lists w l;
     (h, hdr) \<leftarrow> dll_unlink (lw_nodes w) (l_head L, l_tail L) n;
     w1 \<leftarrow> set_node n (\<lambda>v. v\<lparr>ln_invalid := True\<rparr>) (w\<lparr>lw_nodes := h,
             lw_lists := (lw_lists w)(l \<mapsto> L\<lparr>l_head := fst hdr, l_tail := snd hdr, l_size := l_size L - 1\<rparr>)\<rparr>);
     v \<leftarrow> node_val n w1;
     w2 \<leftarrow> (if ln_timer v \<noteq> None \<and> ctx then hlt_timer_cancel (ln_timer v) w1 else Some w1);
     set_node n (\<lambda>v. v\<lparr>ln_timer := None\<rparr>) w2
   }"

definition list_make_node ::
  "'a list_world_scheme expiry_ops \<Rightarrow> addr \<Rightarrow> val \<Rightarrow> 'a list_world_scheme
   \<Rightarrow> (addr \<times> 'a list_world_scheme) option" where
  "list_make_node ops l x w = do {
     L \<leftarrow> lw_lists w l;
     let n = tw_next w;
     let w1 = w\<lparr>lw_nodes := (lw_nodes w)(n \<mapsto> \<lparr>dn_next = None, dn_prev = None,
                  dn_val = \<lparr>ln_timer = None, ln_invalid = False, ln_data = x\<rparr>\<rparr>),
                tw_next := n + 1\<rparr>;
     t \<leftarrow> (if l_tmgr L \<noteq> None \<and> l_timeout L \<noteq> 0
           then map_option (\<lambda>now. add64 now (l_timeout L)) (hlt_timer_mgr_current (l_tmgr L) w1)
           else Some 0);
     (if t \<noteq> 0 then do {
        let (timer, w2) = hlt_timer_new (CList l n) w1;
        w3 \<leftarrow> set_node n (\<lambda>v. v\<lparr>ln_timer := Some timer\<rparr>) w2;
        w4 \<leftarrow> hlt_timer_mgr_schedule ops (l_tmgr L) t timer w3;
        Some (n, w4)
      } else Some (n, w1))
   }"

definition list_access ::
  "'a list_world_scheme expiry_ops \<Rightarrow> addr \<Rightarrow> addr \<Rightarrow> 'a list_world_scheme \<Rightarrow> 'a list_world_scheme option" where
  "list_access ops l n w = do {
     L \<leftarrow> lw_lists w l;
     (if l_tmgr L = None \<or> \<not> hlt_enum_equal (l_strategy L) expire_strategy_access \<or> l_timeout L = 0
      then Some w
      else do {
        v \<leftarrow> node_val n w;
        (if ln_timer v = None then Some w
         else do {
           now \<leftarrow> hlt_timer_mgr_current (l_tmgr L) w;
           hlt_timer_update ops (ln_timer v) (add64 now (l_timeout L)) w
         })
      })
   }"

definition hlt_list_new :: "ptr \<Rightarrow> 'a list_world_scheme \<Rightarrow> addr \<times> 'a list_world_scheme" where
  "hlt_list_new tmgr w =
     (tw_next w,
      w\<lparr>lw_lists := (lw_lists w)(tw_next w \<mapsto>
          \<lparr>l_head = None, l_tail = None, l_size = 0, l_tmgr = tmgr, l_timeout = 0,
           l_strategy = hlt_enum_unset\<rparr>),
        tw_next := tw_next w + 1\<rparr>)"

definition hlt_list_timeout ::
  "addr \<Rightarrow> hlt_enum \<Rightarrow> nat \<Rightarrow> 'a list_world_scheme \<Rightarrow> 'a list_world_scheme option" where
  "hlt_list_timeout l strategy timeout w = do {
     L \<leftarrow> lw_lists w l;
     Some (w\<lparr>lw_lists := (lw_lists w)(l \<mapsto> L\<lparr>l_timeout := timeout, l_strategy := strategy,
        l_tmgr := (case l_tmgr L of None \<Rightarrow> Some (tw_ctx_tmgr w) | Some m \<Rightarrow> Some m)\<rparr>)\<rparr>)
   }"

definition hlt_list_push_front ::
  "'a list_world_scheme expiry_ops \<Rightarrow> addr \<Rightarrow> val \<Rightarrow> 'a list_world_scheme \<Rightarrow> 'a list_world_scheme option" where
  "hlt_list_push_front ops l x w = do {
     (n, w1) \<leftarrow> list_make_node ops l x w;
     list_link l n None w1
   }"

definition hlt_list_push_back ::
  "'a list_world_scheme expiry_ops \<Rightarrow> addr \<Rightarrow> val \<Rightarrow> 'a list_world_scheme \<Rightarrow> 'a list_world_scheme option" where
  "hlt_list_push_back ops l x w = do {
     (n, w1) \<leftarrow> list_make_node ops l x w;
     L \<leftarrow> lw_lists w1 l;
     list_link l n (l_tail L) w1
   }"

partial_function (option) list_append_loop ::
  "'a list_world_scheme expiry_ops \<Rightarrow> addr \<Rightarrow> ptr \<Rightarrow> 'a list_world_scheme \<Rightarrow> 'a list_world_scheme option" where
  "list_append_loop ops l1 p w =
     (case p of
        None \<Rightarrow> Some w
      | Some n \<Rightarrow> do {
          v \<leftarrow> node_val n w;
          w1 \<leftarrow> hlt_list_push_back ops l1 (ln_data v) w;
          nn \<leftarrow> lw_nodes w1 n;
          list_append_loop ops l1 (dn_next nn) w1
        })"

declare list_append_loop.simps [code]

definition hlt_list_append ::
  "'a list_world_scheme expiry_ops \<Rightarrow> addr \<Rightarrow> addr \<Rightarrow> 'a list_world_scheme \<Rightarrow> 'a list_world_scheme option" where
  "hlt_list_append ops l1 l2 w = do {
     L2 \<leftarrow> lw_lists w l2;
     list_append_loop ops l1 (l_head L2) w
   }"

definition hlt_list_pop_front :: "addr \<Rightarrow> 'a list_world_scheme \<Rightarrow> 'a list_world_scheme option" where
  "hlt_list_pop_front l w = do {
     L \<leftarrow> lw_lists w l;
     (case l_head L of
        None \<Rightarrow> Some (hlt_set_exception Underflow w)
      | Some n \<Rightarrow> list_unlink l n True w)
   }"

definition hlt_list_pop_back :: "addr \<Rightarrow> 'a list_world_scheme \<Rightarrow> 'a list_world_scheme option" where
  "hlt_list_pop_back l w = do {
     L \<leftarrow> lw_lists w l;
     (case l_tail L of
        None \<Rightarrow> Some (hlt_set_exception Underflow w)
      | Some n \<Rightarrow> list_unlink l n True w)
   }"

definition hlt_list_front ::
  "'a list_world_scheme expiry_ops \<Rightarrow> addr \<Rightarrow> 'a list_world_scheme
   \<Rightarrow> (val option \<times> 'a list_world_scheme) option" where
  "hlt_list_front ops l w = do {
     L \<leftarrow> lw_lists w l;
     (case l_head L of
        None \<Rightarrow> Some (None, hlt_set_exception Underflow w)
      | Some n \<Rightarrow> do {
          w1 \<leftarrow> list_access ops l n w;
          v \<leftarrow> node_val n w1;
          Some (Some (ln_data v), w1)
        })
   }"

definition hlt_list_back ::
  "'a list_world_scheme expiry_ops \<Rightarrow> addr \<Rightarrow> 'a list_world_scheme
   \<Rightarrow> (val option \<times> 'a list_world_scheme) option" where
  "hlt_list_back ops l w = do {
     L \<leftarrow> lw_lists w l;
     (case l_tail L of
        None \<Rightarrow> Some (None, hlt_set_exception Underflow w)
      | Some n \<Rightarrow> do {
          w1 \<leftarrow> list_access ops l n w;
          v \<leftarrow> node_val n w1;
          Some (Some (ln_data v), w1)
        })
   }"

definition hlt_list_size :: "addr \<Rightarrow> 'a list_world_scheme \<Rightarrow> int option" where
  "hlt_list_size l w = map_option l_size (lw_lists w l)"

text \<open>The test shared by the iterator operations: a null list, or a node marked invalid.\<close>

definition iter_invalid :: "list_iter \<Rightarrow> 'a list_world_scheme \<Rightarrow> bool option" where
  "iter_invalid i w =
     (case li_node i of
        None \<Rightarrow> Some (li_list i = None)
      | Some n \<Rightarrow> map_option (\<lambda>v. ln_invalid v \<or> li_list i = None) (node_val n w))"

definition hlt_list_erase :: "list_iter \<Rightarrow> 'a list_world_scheme \<Rightarrow> 'a list_world_scheme option" where
  "hlt_list_erase i w = do {
     bad \<leftarrow> iter_invalid i w;
     (if bad then Some (hlt_set_exception InvalidIterator w)
      else case li_node i of
        None \<Rightarrow> Some (hlt_set_exception InvalidIterator w)
      | Some n \<Rightarrow> do { l \<leftarrow> li_list i; list_unlink l n True w })
   }"

definition hlt_list_expire :: "addr \<Rightarrow> addr \<Rightarrow> 'a list_world_scheme \<Rightarrow> 'a list_world_scheme option" where
  "hlt_list_expire l n w = list_unlink l n False w"

definition hlt_list_insert ::
  "'a list_world_scheme expiry_ops \<Rightarrow> val \<Rightarrow> list_iter \<Rightarrow> 'a list_world_scheme \<Rightarrow> 'a list_world_scheme option" where
  "hlt_list_insert ops x i w = do {
     bad \<leftarrow> iter_invalid i w;
     (if bad then Some (hlt_set_exception InvalidIterator w)
      else do {
        l \<leftarrow> li_list i;
        (n, w1) \<leftarrow> list_make_node ops l x w;
        (case li_node i of
           None \<Rightarrow> do { L \<leftarrow> lw_lists w1 l; list_link l n (l_tail L) w1 }
         | Some p \<Rightarrow> do { pn \<leftarrow> lw_nodes w1 p; list_link l n (dn_prev pn) w1 })
      })
   }"

definition hlt_list_begin :: "addr \<Rightarrow> 'a list_world_scheme \<Rightarrow> list_iter option" where
  "hlt_list_begin l w = map_option (\<lambda>L. \<lparr>li_list = Some l, li_node = l_head L\<rparr>) (lw_lists w l)"

definition hlt_list_end :: "addr \<Rightarrow> list_iter" where
  "hlt_list_end l = \<lparr>li_list = Some l, li_node = None\<rparr>"

definition hlt_iterator_list_incr ::
  "list_iter \<Rightarrow> 'a list_world_scheme \<Rightarrow> (list_iter \<times> 'a list_world_scheme) option" where
  "hlt_iterator_list_incr i w = do {
     bad \<leftarrow> iter_invalid i w;
     (if bad then Some (i, hlt_set_exception InvalidIterator w)
      else case li_node i of
        None \<Rightarrow> Some (i, w)
      | Some n \<Rightarrow> do { nn \<leftarrow> lw_nodes w n; Some (i\<lparr>li_node := dn_next nn\<rparr>, w) })
   }"

definition hlt_iterator_list_deref ::
  "'a list_world_scheme expiry_ops \<Rightarrow> list_iter \<Rightarrow> 'a list_world_scheme
   \<Rightarrow> (val option \<times> 'a list_world_scheme) option" where
  "hlt_iterator_list_deref ops i w =
     (case (li_list i, li_node i) of
        (Some l, Some n) \<Rightarrow> do {
          v \<leftarrow> node_val n w;
          (if ln_invalid v then Some (None, hlt_set_exception InvalidIterator w)
           else do {
             w1 \<leftarrow> list_access ops l n w;
             v1 \<leftarrow> node_val n w1;
             Some (Some (ln_data v1), w1)
           })
        }
      | _ \<Rightarrow> Some (None, hlt_set_exception InvalidIterator w))"

definition hlt_iterator_list_eq ::
  "'a list_world_scheme expiry_ops \<Rightarrow> list_iter \<Rightarrow> list_iter \<Rightarrow> 'a list_world_scheme
   \<Rightarrow> (bool \<times> 'a list_world_scheme) option" where
  "hlt_iterator_list_eq ops i1 i2 w = do {
     w1 \<leftarrow> (case li_node i1 of None \<Rightarrow> Some w
           | Some n \<Rightarrow> do { l \<leftarrow> li_list i1; list_access ops l n w });
     w2 \<leftarrow> (case li_node i2 of None \<Rightarrow> Some w1
           | Some n \<Rightarrow> do { l \<leftarrow> li_list i2; list_access ops l n w1 });
     Some (li_list i1 = li_list i2 \<and> li_node i1 = li_node i2, w2)
   }"

section \<open>The invariant\<close>

text \<open>
  \<open>elem_ok\<close>: the node is valid, and a timer attached to it is scheduled with the list's manager and
  names the node. \<open>alloc_inv\<close>: addresses from the allocation mark on are unused.
\<close>

definition elem_ok :: "addr \<Rightarrow> ptr \<Rightarrow> 'a list_world_scheme \<Rightarrow> addr \<Rightarrow> bool" where
  "elem_ok l mgr w p \<longleftrightarrow> (\<exists>n. lw_nodes w p = Some n \<and> \<not> ln_invalid (dn_val n) \<and>
     (\<forall>a. ln_timer (dn_val n) = Some a \<longrightarrow>
        mgr \<noteq> None \<and> link_of (tw_timers w) a = Some (mgr, CList l p)))"

definition list_inv :: "addr \<Rightarrow> addr list \<Rightarrow> 'a list_world_scheme \<Rightarrow> bool" where
  "list_inv l ps w \<longleftrightarrow> (\<exists>L. lw_lists w l = Some L \<and> dll (lw_nodes w) (l_head L, l_tail L) ps \<and>
     l_size L = int (length ps) \<and> (\<forall>p\<in>set ps. elem_ok l (l_tmgr L) w p) \<and>
     (\<forall>m. l_tmgr L = Some m \<longrightarrow> mgr_inv m w))"

definition alloc_inv :: "'a list_world_scheme \<Rightarrow> bool" where
  "alloc_inv w \<longleftrightarrow> (\<forall>a \<ge> tw_next w. tw_timers w a = None \<and> lw_nodes w a = None \<and> lw_lists w a = None)"

text \<open>
  \<open>timers_exact l A w\<close>: every timer scheduled for an element of list \<open>l\<close> belongs to a node of \<open>A\<close>, and that node
  refers to it. Together with \<open>elem_ok\<close> the scheduled timers are exactly those of the nodes.
\<close>

definition timers_exact :: "addr \<Rightarrow> addr set \<Rightarrow> 'a list_world_scheme \<Rightarrow> bool" where
  "timers_exact l A w \<longleftrightarrow> (\<forall>a m p. link_of (tw_timers w) a = Some (Some m, CList l p) \<longrightarrow>
     p \<in> A \<and> (\<exists>v. node_val p w = Some v \<and> ln_timer v = Some a))"

text \<open>The manager's clock plus the list's timeout fits into 64 bits.\<close>

definition clock_ok :: "addr \<Rightarrow> 'a list_world_scheme \<Rightarrow> bool" where
  "clock_ok l w \<longleftrightarrow> (\<forall>L m mg. lw_lists w l = Some L \<longrightarrow> l_tmgr L = Some m \<longrightarrow> tw_mgrs w m = Some mg \<longrightarrow>
     mgr_time mg + l_timeout L \<le> max64)"

lemma clock_ok_cong:
  fixes w w' :: "'a list_world_scheme"
  assumes "clocks w' = clocks w"
    and "map_option (\<lambda>L. (l_tmgr L, l_timeout L)) (lw_lists w' l) = map_option (\<lambda>L. (l_tmgr L, l_timeout L)) (lw_lists w l)"
  shows "clock_ok l w' \<longleftrightarrow> clock_ok l w"
proof -
  have eq: "clock_ok l v \<longleftrightarrow> (\<forall>m k t. map_option (\<lambda>L. (l_tmgr L, l_timeout L)) (lw_lists v l) = Some (Some m, k) \<longrightarrow>
      clocks v m = Some t \<longrightarrow> t + k \<le> max64)" for v :: "'a list_world_scheme"
    unfolding clock_ok_def clocks_def by auto
  show ?thesis unfolding eq assms by (rule refl)
qed

definition list_vals :: "'a list_world_scheme \<Rightarrow> addr list \<Rightarrow> val list" where
  "list_vals w ps = map (\<lambda>p. case node_val p w of None \<Rightarrow> 0 | Some v \<Rightarrow> ln_data v) ps"

text \<open>The effect of an operation on everything but list \<open>l\<close> and the nodes \<open>A\<close>.\<close>

definition list_frame :: "addr \<Rightarrow> addr set \<Rightarrow> 'a list_world_scheme \<Rightarrow> 'a list_world_scheme \<Rightarrow> bool" where
  "list_frame l A w w' \<longleftrightarrow> (\<forall>p. p \<notin> A \<longrightarrow> lw_nodes w' p = lw_nodes w p) \<and>
     (\<forall>l'. l' \<noteq> l \<longrightarrow> lw_lists w' l' = lw_lists w l') \<and> tw_excpt w' = tw_excpt w \<and>
     tw_ctx_tmgr w' = tw_ctx_tmgr w"

lemma erase_fields:
  assumes "erase w' = erase w"
  shows "lw_nodes w' = lw_nodes w" "lw_lists w' = lw_lists w" "tw_next w' = tw_next w"
    "tw_excpt w' = tw_excpt w" "tw_ctx_tmgr w' = tw_ctx_tmgr w"
  using arg_cong [OF assms, of lw_nodes] arg_cong [OF assms, of lw_lists] arg_cong [OF assms, of tw_next]
    arg_cong [OF assms, of tw_excpt] arg_cong [OF assms, of tw_ctx_tmgr]
  by (simp_all add: erase_def)

lemma link_of_live: "link_of ts a = Some x \<Longrightarrow> \<exists>t. ts a = Some t \<and> x = (timer_mgr t, cookie t)"
  by (auto simp: link_of_def)

lemma alloc_link: "alloc_inv w \<Longrightarrow> link_of (tw_timers w) a = Some x \<Longrightarrow> a < tw_next w"
  unfolding alloc_inv_def by (metis link_of_live not_less option.distinct(1))

lemma list_inv_nodes: "list_inv l ps w \<Longrightarrow> p \<in> set ps \<Longrightarrow> \<exists>n. lw_nodes w p = Some n"
  unfolding list_inv_def by (auto dest: dll_live)

lemma list_inv_alloc: "list_inv l ps w \<Longrightarrow> alloc_inv w \<Longrightarrow> p \<in> set ps \<Longrightarrow> p < tw_next w"
  using list_inv_nodes unfolding alloc_inv_def by (metis not_less option.distinct(1))

lemma mgr_inv_upd [simp]:
  "mgr_inv m (w\<lparr>lw_nodes := h\<rparr>) \<longleftrightarrow> mgr_inv m w"
  "mgr_inv m (w\<lparr>lw_lists := ls\<rparr>) \<longleftrightarrow> mgr_inv m w"
  by (simp_all add: mgr_inv_def queue_inv_def mgr_elems_def)

lemma mgr_inv_next [simp]: "mgr_inv m (w\<lparr>tw_next := a\<rparr>) \<longleftrightarrow> mgr_inv m w"
  by (simp add: mgr_inv_def queue_inv_def mgr_elems_def)

text \<open>Creating the node of a new element, with its timer.\<close>

lemma make_node_ok:
  assumes inv: "list_inv l ps w" and al: "alloc_inv w" and ck: "clock_ok l w"
  shows "\<exists>w1. list_make_node ops l x w = Some (tw_next w, w1) \<and> list_inv l ps w1 \<and> alloc_inv w1 \<and>
    elem_ok l (case lw_lists w l of None \<Rightarrow> None | Some L \<Rightarrow> l_tmgr L) w1 (tw_next w) \<and>
    (\<exists>v. lw_nodes w1 (tw_next w) = Some \<lparr>dn_next = None, dn_prev = None, dn_val = v\<rparr> \<and> ln_data v = x) \<and>
    lw_lists w1 = lw_lists w \<and> list_frame l {tw_next w} w w1 \<and> tw_next w < tw_next w1 \<and> clocks w1 = clocks w \<and>
    (\<forall>A. timers_exact l A w \<longrightarrow> timers_exact l (insert (tw_next w) A) w1)"
proof -
  let ?n = "tw_next w"
  from inv obtain L where L: "lw_lists w l = Some L" and d: "dll (lw_nodes w) (l_head L, l_tail L) ps"
    and sz: "l_size L = int (length ps)" and el: "\<And>p. p \<in> set ps \<Longrightarrow> elem_ok l (l_tmgr L) w p"
    and mi: "\<And>m. l_tmgr L = Some m \<Longrightarrow> mgr_inv m w" unfolding list_inv_def by auto
  have out: "?n \<notin> set ps" using list_inv_alloc [OF inv al] by auto
  have new: "lw_nodes w ?n = None" using al by (simp add: alloc_inv_def)
  let ?v = "\<lparr>ln_timer = None, ln_invalid = False, ln_data = x\<rparr>"
  let ?h = "(lw_nodes w)(?n \<mapsto> \<lparr>dn_next = None, dn_prev = None, dn_val = ?v\<rparr>)"
  let ?w1 = "w\<lparr>lw_nodes := ?h, tw_next := ?n + 1\<rparr>"
  show ?thesis
  proof (cases "l_tmgr L \<noteq> None \<and> l_timeout L \<noteq> 0")
    case False
    then have mk: "list_make_node ops l x w = Some (?n, ?w1)" using L by (auto simp: list_make_node_def Let_def)
    have "list_inv l ps ?w1"
      using L d sz el mi out unfolding list_inv_def
      by (auto simp: dll_frame elem_ok_def)
    moreover have "elem_ok l (l_tmgr L) ?w1 ?n" by (simp add: elem_ok_def)
    moreover have "timers_exact l (insert ?n A) ?w1" if "timers_exact l A w" for A
      using that new unfolding timers_exact_def node_val_def by fastforce
    ultimately show ?thesis using mk al L
      by (intro exI [of _ ?w1]) (auto simp: alloc_inv_def list_frame_def clocks_def fun_eq_iff)
  next
    case True
    then obtain m where m: "l_tmgr L = Some m" by auto
    obtain mg where mg: "tw_mgrs w m = Some mg" using mi [OF m] unfolding mgr_inv_def queue_inv_def by auto
    let ?t = "mgr_time mg + l_timeout L" and ?a = "?n + 1"
    have t: "add64 (mgr_time mg) (l_timeout L) = ?t" "?t > mgr_time mg"
      using ck L m mg True unfolding clock_ok_def by (auto intro!: add64_exact)
    let ?tm = "\<lparr>timer_mgr = None, timer_time = hlt_time_unset, queue_pos = 0, cookie = CList l ?n\<rparr>"
    let ?v2 = "?v\<lparr>ln_timer := Some ?a\<rparr>"
    let ?w3 = "w\<lparr>tw_timers := (tw_timers w)(?a \<mapsto> ?tm), tw_next := ?n + 2,
        lw_nodes := (lw_nodes w)(?n \<mapsto> \<lparr>dn_next = None, dn_prev = None, dn_val = ?v2\<rparr>)\<rparr>"
    have fresh: "tw_timers w ?a = None" using al unfolding alloc_inv_def by auto
    have mi3: "mgr_inv m ?w3" by (rule mgr_inv_new_timer [OF mi [OF m] fresh]) auto
    have tme: "the_mgr (l_tmgr L) ?w3 = m" using m by (simp add: the_mgr_def)
    from schedule_ok [of "l_tmgr L" ?w3 mg ?t ?a ?tm ops] mi3 tme mg t(2) obtain w4 where
      w4: "hlt_timer_mgr_schedule ops (l_tmgr L) ?t ?a ?w3 = Some w4" "mgr_inv m w4" "erase w4 = erase ?w3"
        "link_of (tw_timers w4) = (link_of (tw_timers ?w3))(?a \<mapsto> (Some m, CList l ?n))"
        "clocks w4 = clocks ?w3" by auto
    note f = erase_fields [OF w4(3)]
    have mk: "list_make_node ops l x w = Some (?n, w4)"
      using L True m mg t w4(1)
      by (simp add: list_make_node_def Let_def hlt_timer_new_def set_node_def upd_def
          hlt_timer_mgr_current_def the_mgr_def)
    have el4: "elem_ok l (l_tmgr L) w4 p" if p: "p \<in> set ps" for p
    proof -
      from el [OF p] obtain nd where nd: "lw_nodes w p = Some nd" "\<not> ln_invalid (dn_val nd)"
        "\<And>a. ln_timer (dn_val nd) = Some a \<Longrightarrow> link_of (tw_timers w) a = Some (l_tmgr L, CList l p)"
        unfolding elem_ok_def by auto
      have "a \<noteq> ?a" if "link_of (tw_timers w) a = Some y" for a y using alloc_link [OF al that] by auto
      then show ?thesis using nd f(1) p out m w4(4) unfolding elem_ok_def
        by (fastforce simp: link_of_def)
    qed
    have "list_inv l ps w4"
      using L d sz el4 m w4(2) out f unfolding list_inv_def by (auto simp: dll_frame)
    moreover have "elem_ok l (l_tmgr L) w4 ?n" using f(1) w4(4) m by (simp add: elem_ok_def)
    moreover have "timers_exact l (insert ?n A) w4" if "timers_exact l A w" for A
    proof -
      have "link_of (tw_timers w4) a = (if a = ?a then Some (Some m, CList l ?n) else link_of (tw_timers w) a)" for a
        using w4(4) by (simp add: link_of_def)
      then show ?thesis using that new f(1) unfolding timers_exact_def node_val_def by (fastforce split: if_splits)
    qed
    moreover have "alloc_inv w4"
      unfolding alloc_inv_def
    proof (intro allI impI)
      fix b assume b: "tw_next w4 \<le> b"
      then have "link_of (tw_timers w4) b = None"
        using al f(3) w4(4) unfolding alloc_inv_def by (auto simp: link_of_def)
      then show "tw_timers w4 b = None \<and> lw_nodes w4 b = None \<and> lw_lists w4 b = None"
        using b al f unfolding alloc_inv_def by (auto simp: link_of_def)
    qed
    ultimately show ?thesis using mk L f w4(5)
      by (intro exI [of _ w4]) (auto simp: list_frame_def clocks_def fun_eq_iff)
  qed
qed

lemma elem_ok_keeps:
  assumes "keeps_vals (lw_nodes w) h"
  shows "elem_ok l mgr (w\<lparr>lw_nodes := h, lw_lists := ls\<rparr>) p \<longleftrightarrow> elem_ok l mgr w p"
proof -
  have "map_option dn_val (h p) = map_option dn_val (lw_nodes w p)"
    using assms unfolding keeps_vals_def by blast
  then show ?thesis unfolding elem_ok_def
    by (cases "h p"; cases "lw_nodes w p") auto
qed

text \<open>Linking the new node in, at any position.\<close>

lemma link_ok:
  assumes inv: "list_inv l (xs @ ys) w" and al: "alloc_inv w" and L: "lw_lists w l = Some L"
    and el: "elem_ok l (l_tmgr L) w n" and n: "lw_nodes w n = Some nn" "dn_prev nn = None" "n \<notin> set (xs @ ys)"
    and pos: "pos = (if xs = [] then None else Some (last xs))"
  shows "\<exists>w'. list_link l n pos w = Some w' \<and> list_inv l (xs @ n # ys) w' \<and> alloc_inv w' \<and>
    keeps_vals (lw_nodes w) (lw_nodes w') \<and> list_frame l (set (xs @ n # ys)) w w' \<and>
    clock_ok l w' = clock_ok l w \<and> tw_next w' = tw_next w \<and> tw_timers w' = tw_timers w"
proof -
  from inv L have d: "dll (lw_nodes w) (l_head L, l_tail L) (xs @ ys)" and sz: "l_size L = int (length (xs @ ys))"
    and els: "\<And>p. p \<in> set (xs @ ys) \<Longrightarrow> elem_ok l (l_tmgr L) w p"
    and mi: "\<And>m. l_tmgr L = Some m \<Longrightarrow> mgr_inv m w" unfolding list_inv_def by auto
  have "\<exists>h' hdr. dll_link (lw_nodes w) (l_head L, l_tail L) n pos = Some (h', hdr) \<and> dll h' hdr (xs @ n # ys) \<and>
    keeps_vals (lw_nodes w) h' \<and> (\<forall>a. a \<notin> set (xs @ n # ys) \<longrightarrow> h' a = lw_nodes w a)"
  proof (cases xs rule: rev_cases)
    case Nil
    then show ?thesis using dll_link_front [of "lw_nodes w" "l_head L" "l_tail L" ys n nn] d n pos by fastforce
  next
    case (snoc zs z)
    then show ?thesis
      using dll_link_after [of "lw_nodes w" "l_head L" "l_tail L" zs z ys n nn] d n pos by fastforce
  qed
  then obtain h' hdr where h: "dll_link (lw_nodes w) (l_head L, l_tail L) n pos = Some (h', hdr)"
    "dll h' hdr (xs @ n # ys)" "keeps_vals (lw_nodes w) h'" "\<And>a. a \<notin> set (xs @ n # ys) \<Longrightarrow> h' a = lw_nodes w a"
    by blast
  let ?w' = "w\<lparr>lw_nodes := h', lw_lists := (lw_lists w)(l \<mapsto>
      L\<lparr>l_head := fst hdr, l_tail := snd hdr, l_size := l_size L + 1\<rparr>)\<rparr>"
  have "list_link l n pos w = Some ?w'" using L h(1) by (simp add: list_link_def)
  moreover have "list_inv l (xs @ n # ys) ?w'"
    using h(2,3) sz els el mi unfolding list_inv_def by (auto simp: elem_ok_keeps)
  moreover have "h' a = None" if "a \<ge> tw_next w" for a
  proof -
    have "map_option dn_val (h' a) = map_option dn_val (lw_nodes w a)" "lw_nodes w a = None"
      using h(3) al that unfolding keeps_vals_def alloc_inv_def by auto
    then show ?thesis by simp
  qed
  then have "alloc_inv ?w'" using al L unfolding alloc_inv_def by auto
  moreover have "clock_ok l ?w' = clock_ok l w"
    using L by (intro clock_ok_cong) (simp_all add: clocks_def fun_eq_iff)
  ultimately show ?thesis using h(3,4) by (auto simp: list_frame_def)
qed

lemma list_vals_append: "list_vals w (xs @ ys) = list_vals w xs @ list_vals w ys"
  by (simp add: list_vals_def)

lemma list_vals_cong:
  "(\<And>p. p \<in> set ps \<Longrightarrow> map_option ln_data (node_val p w') = map_option ln_data (node_val p w)) \<Longrightarrow>
   list_vals w' ps = list_vals w ps"
  unfolding list_vals_def by (rule map_cong) (force split: option.splits)+

lemma insert_at_ok:
  assumes inv: "list_inv l (xs @ ys) w" and al: "alloc_inv w" and ck: "clock_ok l w"
    and mk: "list_make_node ops l x w = Some (n, w1)"
    and pos: "pos = (if xs = [] then None else Some (last xs))"
  shows "\<exists>w'. list_link l n pos w1 = Some w' \<and> n = tw_next w \<and> clock_ok l w' \<and> tw_next w < tw_next w' \<and> list_inv l (xs @ n # ys) w' \<and> alloc_inv w' \<and>
    list_vals w' (xs @ n # ys) = list_vals w xs @ x # list_vals w ys \<and> list_frame l (set (xs @ n # ys)) w w' \<and>
    (timers_exact l (set (xs @ ys)) w \<longrightarrow> timers_exact l (set (xs @ n # ys)) w')"
proof -
  obtain L where L: "lw_lists w l = Some L" using inv unfolding list_inv_def by auto
  from make_node_ok [OF inv al ck, of ops x] mk L obtain v where m: "n = tw_next w" "list_inv l (xs @ ys) w1"
    "alloc_inv w1" "elem_ok l (l_tmgr L) w1 n" "lw_nodes w1 n = Some \<lparr>dn_next = None, dn_prev = None, dn_val = v\<rparr>"
    "ln_data v = x" "lw_lists w1 = lw_lists w" "list_frame l {n} w w1" "clocks w1 = clocks w" "tw_next w < tw_next w1"
    "timers_exact l (set (xs @ ys)) w \<longrightarrow> timers_exact l (insert n (set (xs @ ys))) w1" by auto
  have ck1: "clock_ok l w1" using clock_ok_cong [of w1 w l] m(7,9) ck by simp
  have out: "n \<notin> set (xs @ ys)" using list_inv_alloc [OF inv al] m(1) by auto
  from link_ok [OF m(2,3) _ m(4,5) _ out pos] m(7) L obtain w' where
    w': "list_link l n pos w1 = Some w'" "list_inv l (xs @ n # ys) w'" "alloc_inv w'"
      "keeps_vals (lw_nodes w1) (lw_nodes w')" "list_frame l (set (xs @ n # ys)) w1 w'"
      "clock_ok l w'" "tw_next w' = tw_next w1" "tw_timers w' = tw_timers w1" using ck1 by auto
  have nv: "node_val p w' = node_val p w1" for p using w'(4) unfolding keeps_vals_def node_val_def by blast
  have "node_val p w' = node_val p w" if "p \<in> set (xs @ ys)" for p
    using nv [of p] m(8) that out unfolding list_frame_def node_val_def by (metis singletonD)
  then have "list_vals w' xs = list_vals w xs" "list_vals w' ys = list_vals w ys"
    by (auto intro!: list_vals_cong)
  moreover have "list_vals w' [n] = [x]" using nv [of n] m(5,6) by (auto simp: list_vals_def node_val_def)
  ultimately have "list_vals w' (xs @ n # ys) = list_vals w xs @ x # list_vals w ys"
    using list_vals_append [of w' xs "n # ys"] list_vals_append [of w' "[n]" ys] by simp
  moreover have "list_frame l (set (xs @ n # ys)) w w'"
    using m(8) w'(5) unfolding list_frame_def by auto
  moreover have "insert n (set (xs @ ys)) = set (xs @ n # ys)" by auto
  then have "timers_exact l (set (xs @ ys)) w \<longrightarrow> timers_exact l (set (xs @ n # ys)) w'"
    using m(11) unfolding timers_exact_def nv w'(8) by simp
  ultimately show ?thesis using w' m(1,10) by auto
qed

lemma list_inv_head: "list_inv l ps w \<Longrightarrow> lw_lists w l = Some L \<Longrightarrow>
    l_head L = (case ps of [] \<Rightarrow> None | p # _ \<Rightarrow> Some p) \<and> l_tail L = (if ps = [] then None else Some (last ps))"
  unfolding list_inv_def by (auto dest: dll_first dll_last)

lemma make_node_total:
  assumes "list_inv l ps w" "alloc_inv w" "clock_ok l w"
  shows "\<exists>w1 L. list_make_node ops l x w = Some (tw_next w, w1) \<and> list_inv l ps w1 \<and>
    lw_lists w1 = lw_lists w \<and> lw_lists w l = Some L \<and> (\<forall>p. p \<noteq> tw_next w \<longrightarrow> lw_nodes w1 p = lw_nodes w p)"
  using make_node_ok [OF assms, of ops x] assms(1) unfolding list_inv_def list_frame_def by fastforce

lemma push_back_ok:
  assumes "list_inv l ps w" "alloc_inv w" "clock_ok l w"
  shows "\<exists>w'. hlt_list_push_back ops l x w = Some w' \<and> list_inv l (ps @ [tw_next w]) w' \<and> alloc_inv w' \<and>
    clock_ok l w' \<and> tw_next w < tw_next w' \<and> list_vals w' (ps @ [tw_next w]) = list_vals w ps @ [x] \<and> list_frame l (set ps \<union> {tw_next w}) w w' \<and>
    (timers_exact l (set ps) w \<longrightarrow> timers_exact l (set (ps @ [tw_next w])) w')"
proof -
  from make_node_total [OF assms, of ops x] obtain w1 L where m: "list_make_node ops l x w = Some (tw_next w, w1)"
    "list_inv l ps w1" "lw_lists w1 l = Some L" by auto
  have "l_tail L = (if ps = [] then None else Some (last ps))" using list_inv_head [OF m(2,3)] by simp
  from insert_at_ok [of l ps "[]" w ops x "tw_next w" w1, OF _ assms(2,3) m(1) this] assms(1) m(1,3)
  show ?thesis by (auto simp: hlt_list_push_back_def list_vals_def)
qed

lemma push_front_ok:
  assumes "list_inv l ps w" "alloc_inv w" "clock_ok l w"
  shows "\<exists>w'. hlt_list_push_front ops l x w = Some w' \<and> list_inv l (tw_next w # ps) w' \<and> alloc_inv w' \<and>
    clock_ok l w' \<and> tw_next w < tw_next w' \<and> list_vals w' (tw_next w # ps) = x # list_vals w ps \<and> list_frame l (set ps \<union> {tw_next w}) w w' \<and>
    (timers_exact l (set ps) w \<longrightarrow> timers_exact l (set (tw_next w # ps)) w')"
proof -
  from make_node_total [OF assms, of ops x] obtain w1 where m: "list_make_node ops l x w = Some (tw_next w, w1)"
    by auto
  from insert_at_ok [of l "[]" ps w ops x "tw_next w" w1 None, OF _ assms(2,3) m(1)] assms(1) m(1)
  show ?thesis by (auto simp: hlt_list_push_front_def list_vals_def)
qed

text \<open>An iterator that refers to the position after \<open>xs\<close>, which may be the end.\<close>

definition iter_at :: "addr \<Rightarrow> addr list \<Rightarrow> list_iter" where
  "iter_at l ys = \<lparr>li_list = Some l, li_node = (case ys of [] \<Rightarrow> None | y # _ \<Rightarrow> Some y)\<rparr>"

lemma iter_at_valid:
  assumes "list_inv l (xs @ ys) w" shows "iter_invalid (iter_at l ys) w = Some False"
proof (cases ys)
  case Nil then show ?thesis by (simp add: iter_invalid_def iter_at_def)
next
  case (Cons y zs)
  then have "\<exists>n. lw_nodes w y = Some n \<and> \<not> ln_invalid (dn_val n)"
    using assms unfolding list_inv_def elem_ok_def by auto
  then show ?thesis using Cons by (auto simp: iter_invalid_def iter_at_def node_val_def)
qed

lemma insert_ok:
  assumes inv: "list_inv l (xs @ ys) w" and al: "alloc_inv w" and ck: "clock_ok l w"
  shows "\<exists>w'. hlt_list_insert ops x (iter_at l ys) w = Some w' \<and> list_inv l (xs @ tw_next w # ys) w' \<and>
    alloc_inv w' \<and> list_vals w' (xs @ tw_next w # ys) = list_vals w xs @ x # list_vals w ys \<and>
    list_frame l (set (xs @ tw_next w # ys)) w w'"
proof -
  from make_node_total [OF inv al ck, of ops x] obtain w1 L where
    m: "list_make_node ops l x w = Some (tw_next w, w1)" "list_inv l (xs @ ys) w1" "lw_lists w1 l = Some L" by auto
  let ?pos = "if xs = [] then None else Some (last xs)"
  have "hlt_list_insert ops x (iter_at l ys) w = list_link l (tw_next w) ?pos w1"
  proof (cases ys)
    case Nil
    then have "l_tail L = ?pos" using list_inv_head [OF m(2,3)] by simp
    then show ?thesis using iter_at_valid [OF inv] m Nil by (simp add: hlt_list_insert_def iter_at_def)
  next
    case (Cons y zs)
    then have "dll (lw_nodes w1) (l_head L, l_tail L) (xs @ y # zs)"
      using m(2,3) unfolding list_inv_def by auto
    then obtain yn where "lw_nodes w1 y = Some yn" "dn_prev yn = ?pos" using dll_next by blast
    then show ?thesis using iter_at_valid [OF inv] m Cons by (simp add: hlt_list_insert_def iter_at_def)
  qed
  with insert_at_ok [OF inv al ck m(1) refl] show ?thesis by auto
qed

section \<open>Removing elements\<close>

text \<open>
  \<open>list_shape\<close> is the invariant without the timers: what is left of it while a timer fires.
  \<open>unlinked\<close> describes the store after a node has been taken out.
\<close>

definition list_shape :: "addr \<Rightarrow> addr list \<Rightarrow> 'a list_world_scheme \<Rightarrow> bool" where
  "list_shape l ps w \<longleftrightarrow> (\<exists>L. lw_lists w l = Some L \<and> dll (lw_nodes w) (l_head L, l_tail L) ps \<and>
     l_size L = int (length ps) \<and> (\<forall>p\<in>set ps. \<exists>v. node_val p w = Some v \<and> \<not> ln_invalid v))"

lemma list_inv_shape: "list_inv l ps w \<Longrightarrow> list_shape l ps w"
  unfolding list_inv_def list_shape_def elem_ok_def node_val_def by fastforce

text \<open>The part of \<open>list_unlink\<close> before the timer is looked at.\<close>

lemma unlink_struct:
  assumes "list_shape l (xs @ n # ys) w" "lw_lists w l = Some L"
  shows "\<exists>h hdr nn. dll_unlink (lw_nodes w) (l_head L, l_tail L) n = Some (h, hdr) \<and> dll h hdr (xs @ ys) \<and>
    lw_nodes w n = Some nn \<and> h n = Some (nn\<lparr>dn_next := None, dn_prev := None\<rparr>) \<and>
    (\<forall>p. p \<noteq> n \<longrightarrow> map_option dn_val (h p) = map_option dn_val (lw_nodes w p)) \<and>
    (\<forall>a. a \<notin> set (xs @ n # ys) \<longrightarrow> h a = lw_nodes w a) \<and> n \<notin> set (xs @ ys)"
proof -
  from assms have d: "dll (lw_nodes w) (l_head L, l_tail L) (xs @ n # ys)" unfolding list_shape_def by auto
  then have "n \<notin> set (xs @ ys)" unfolding dll_def by auto
  with dll_unlink_ok [OF d] show ?thesis unfolding keeps_vals_def by blast
qed

lemma unlink_ok:
  assumes inv: "list_inv l (xs @ n # ys) w" and al: "alloc_inv w"
  shows "\<exists>w' v. list_unlink l n True w = Some w' \<and> list_inv l (xs @ ys) w' \<and> alloc_inv w' \<and>
    list_vals w' (xs @ ys) = list_vals w (xs @ ys) \<and>
    node_val n w' = Some v \<and> ln_invalid v \<and> ln_timer v = None \<and>
    list_frame l (set (xs @ n # ys)) w w' \<and>
    (timers_exact l (set (xs @ n # ys)) w \<longrightarrow> timers_exact l (set (xs @ ys)) w')"
proof -
  from inv obtain L where L: "lw_lists w l = Some L" and sz: "l_size L = int (length (xs @ n # ys))"
    and els: "\<And>p. p \<in> set (xs @ n # ys) \<Longrightarrow> elem_ok l (l_tmgr L) w p"
    and mi: "\<And>m. l_tmgr L = Some m \<Longrightarrow> mgr_inv m w" unfolding list_inv_def by auto
  from unlink_struct [OF list_inv_shape [OF inv] L] obtain h hdr nn where
    u: "dll_unlink (lw_nodes w) (l_head L, l_tail L) n = Some (h, hdr)" "dll h hdr (xs @ ys)"
      "lw_nodes w n = Some nn" "h n = Some (nn\<lparr>dn_next := None, dn_prev := None\<rparr>)"
      "\<And>p. p \<noteq> n \<Longrightarrow> map_option dn_val (h p) = map_option dn_val (lw_nodes w p)"
      "\<And>a. a \<notin> set (xs @ n # ys) \<Longrightarrow> h a = lw_nodes w a" and out: "n \<notin> set (xs @ ys)" by blast
  let ?ls = "(lw_lists w)(l \<mapsto> L\<lparr>l_head := fst hdr, l_tail := snd hdr, l_size := l_size L - 1\<rparr>)"
  let ?v = "(dn_val nn)\<lparr>ln_invalid := True\<rparr>"
  let ?w1 = "w\<lparr>lw_nodes := h(n \<mapsto> \<lparr>dn_next = None, dn_prev = None, dn_val = ?v\<rparr>), lw_lists := ?ls\<rparr>"
  have s1: "set_node n (\<lambda>v. v\<lparr>ln_invalid := True\<rparr>) (w\<lparr>lw_nodes := h, lw_lists := ?ls\<rparr>) = Some ?w1"
    using u(4) by (cases nn) (simp add: set_node_def upd_def)
  have nv1: "node_val n ?w1 = Some ?v" by (simp add: node_val_def)
  obtain w2 where w2: "(if ln_timer ?v \<noteq> None \<and> True then hlt_timer_cancel (ln_timer ?v) ?w1 else Some ?w1) = Some w2"
    and er: "erase w2 = erase ?w1" and mi2: "\<And>m. l_tmgr L = Some m \<Longrightarrow> mgr_inv m w2"
    and lk: "\<And>a p. p \<noteq> n \<Longrightarrow> link_of (tw_timers w) a = Some (l_tmgr L, CList l p) \<Longrightarrow>
        link_of (tw_timers w2) a = Some (l_tmgr L, CList l p)"
    and tl: "\<And>a. tw_timers w a = None \<Longrightarrow> tw_timers w2 a = None"
    and kx: "\<And>a m c. link_of (tw_timers w2) a = Some (Some m, c) \<Longrightarrow>
        link_of (tw_timers w) a = Some (Some m, c) \<and> ln_timer (dn_val nn) \<noteq> Some a"
  proof (cases "ln_timer (dn_val nn)")
    case None
    then show ?thesis using mi by (intro that [of ?w1]) auto
  next
    case (Some a)
    then obtain m where m: "l_tmgr L = Some m" and lka: "link_of (tw_timers w) a = Some (Some m, CList l n)"
      using els [of n] u(3) unfolding elem_ok_def by auto
    then obtain t where t: "tw_timers w a = Some t" "timer_mgr t = Some m" "cookie t = CList l n"
      using link_of_live by fastforce
    have "mgr_inv m ?w1" using mi [OF m] by simp
    from cancel_ok [OF this, of a t] t obtain w2 where c: "hlt_timer_cancel (Some a) ?w1 = Some w2" "mgr_inv m w2"
      "erase w2 = erase ?w1" "link_of (tw_timers w2) = (link_of (tw_timers w))(a \<mapsto> (None, CList l n))" by auto
    show ?thesis
    proof (rule that)
      show "(if ln_timer ?v \<noteq> None \<and> True then hlt_timer_cancel (ln_timer ?v) ?w1 else Some ?w1) = Some w2"
        using Some c(1) by simp
      show "\<And>a p. p \<noteq> n \<Longrightarrow> link_of (tw_timers w) a = Some (l_tmgr L, CList l p) \<Longrightarrow>
        link_of (tw_timers w2) a = Some (l_tmgr L, CList l p)" using c(4) lka by auto
      show "tw_timers w2 b = None" if "tw_timers w b = None" for b
      proof -
        have "link_of (tw_timers w2) b = None" using c(4) that t by (auto simp: link_of_def)
        then show ?thesis by (simp add: link_of_def)
      qed
      show "\<And>b m c. link_of (tw_timers w2) b = Some (Some m, c) \<Longrightarrow>
        link_of (tw_timers w) b = Some (Some m, c) \<and> ln_timer (dn_val nn) \<noteq> Some b"
        using c(4) Some by (auto split: if_splits)
    qed (use m c in auto)
  qed
  note f = erase_fields [OF er]
  let ?n3 = "\<lparr>dn_next = None, dn_prev = None, dn_val = ?v\<lparr>ln_timer := None\<rparr>\<rparr>"
  let ?w3 = "w2\<lparr>lw_nodes := h(n \<mapsto> ?n3)\<rparr>"
  have s3: "set_node n (\<lambda>v. v\<lparr>ln_timer := None\<rparr>) w2 = Some ?w3" using f(1) by (simp add: set_node_def upd_def)
  have un: "list_unlink l n True w = Some ?w3"
    unfolding list_unlink_def using L u(1) s1 nv1 w2 s3 by simp
  have nd: "map_option dn_val (lw_nodes ?w3 p) = map_option dn_val (lw_nodes w p)" if "p \<noteq> n" for p
    using u(5) [OF that] that by simp
  have el3: "elem_ok l (l_tmgr L) ?w3 p" if "p \<in> set (xs @ ys)" for p
  proof -
    have pn: "p \<noteq> n" using that out by auto
    then show ?thesis
      using els [of p] nd [OF pn] lk [OF pn] that unfolding elem_ok_def
      by (cases "h p"; cases "lw_nodes w p") auto
  qed
  have "dll (h(n \<mapsto> ?n3)) hdr (xs @ ys)" using u(2) out by (simp add: dll_frame)
  then have "list_inv l (xs @ ys) ?w3"
    using f(2) sz el3 mi2 unfolding list_inv_def by auto
  moreover have "alloc_inv ?w3"
  proof -
    have "a \<notin> set (xs @ n # ys)" if "tw_next w \<le> a" for a using list_inv_alloc [OF inv al, of a] that by linarith
    moreover have "n < tw_next w" using list_inv_alloc [OF inv al, of n] by simp
    ultimately show ?thesis using al f(2,3) u(6) tl L unfolding alloc_inv_def by auto
  qed
  moreover have "list_vals ?w3 (xs @ ys) = list_vals w (xs @ ys)"
  proof (rule list_vals_cong)
    fix p assume "p \<in> set (xs @ ys)"
    then have "p \<noteq> n" using out by auto
    from nd [OF this] show "map_option ln_data (node_val p ?w3) = map_option ln_data (node_val p w)"
      unfolding node_val_def by simp
  qed
  moreover have "list_frame l (set (xs @ n # ys)) w ?w3"
    using f(2,4,5) u(6) unfolding list_frame_def by auto
  moreover have "timers_exact l (set (xs @ ys)) ?w3" if ex: "timers_exact l (set (xs @ n # ys)) w"
    unfolding timers_exact_def
  proof (intro allI impI)
    fix a m p assume "link_of (tw_timers ?w3) a = Some (Some m, CList l p)"
    then have k: "link_of (tw_timers w) a = Some (Some m, CList l p)" "ln_timer (dn_val nn) \<noteq> Some a" using kx by simp_all
    with ex obtain v where v: "p \<in> set (xs @ n # ys)" "node_val p w = Some v" "ln_timer v = Some a"
      unfolding timers_exact_def by blast
    have "p \<noteq> n" using v(2,3) k(2) u(3) by (auto simp: node_val_def)
    then show "p \<in> set (xs @ ys) \<and> (\<exists>v. node_val p ?w3 = Some v \<and> ln_timer v = Some a)"
      using v nd [of p] by (auto simp: node_val_def)
  qed
  ultimately show ?thesis using un by (auto simp: node_val_def)
qed

lemma pop_front_ok:
  assumes inv: "list_inv l (p # ps) w" and al: "alloc_inv w"
  shows "\<exists>w'. hlt_list_pop_front l w = Some w' \<and> list_inv l ps w' \<and> alloc_inv w' \<and>
    list_vals w' ps = list_vals w ps \<and> list_frame l (set (p # ps)) w w' \<and>
    (timers_exact l (set (p # ps)) w \<longrightarrow> timers_exact l (set ps) w')"
proof -
  obtain L where L: "lw_lists w l = Some L" using inv unfolding list_inv_def by auto
  then have "l_head L = Some p" using list_inv_head [OF inv L] by simp
  then have "hlt_list_pop_front l w = list_unlink l p True w" using L by (simp add: hlt_list_pop_front_def)
  then show ?thesis using unlink_ok [of l "[]" p ps w] inv al by auto
qed

lemma pop_back_ok:
  assumes inv: "list_inv l (ps @ [p]) w" and al: "alloc_inv w"
  shows "\<exists>w'. hlt_list_pop_back l w = Some w' \<and> list_inv l ps w' \<and> alloc_inv w' \<and>
    list_vals w' ps = list_vals w ps \<and> list_frame l (set (ps @ [p])) w w' \<and>
    (timers_exact l (set (ps @ [p])) w \<longrightarrow> timers_exact l (set ps) w')"
proof -
  obtain L where L: "lw_lists w l = Some L" using inv unfolding list_inv_def by auto
  then have "l_tail L = Some p" using list_inv_head [OF inv L] by simp
  then have "hlt_list_pop_back l w = list_unlink l p True w" using L by (simp add: hlt_list_pop_back_def)
  then show ?thesis using unlink_ok [of l ps p "[]" w] inv al by auto
qed

lemma erase_ok:
  assumes inv: "list_inv l (xs @ y # ys) w" and al: "alloc_inv w"
  shows "\<exists>w'. hlt_list_erase (iter_at l (y # ys)) w = Some w' \<and> list_inv l (xs @ ys) w' \<and> alloc_inv w' \<and>
    list_vals w' (xs @ ys) = list_vals w (xs @ ys) \<and>
    iter_invalid (iter_at l (y # ys)) w' = Some True \<and> list_frame l (set (xs @ y # ys)) w w'"
proof -
  have "hlt_list_erase (iter_at l (y # ys)) w = list_unlink l y True w"
    using iter_at_valid [OF inv] by (simp add: hlt_list_erase_def iter_at_def)
  then show ?thesis using unlink_ok [OF inv al]
    by (auto simp: iter_invalid_def iter_at_def)
qed

section \<open>Expiration\<close>

lemma expire_struct:
  assumes sh: "list_shape l (xs @ n # ys) w"
  shows "\<exists>w'. hlt_list_expire l n w = Some w' \<and> list_shape l (xs @ ys) w' \<and>
    list_vals w' (xs @ ys) = list_vals w (xs @ ys) \<and> list_frame l (set (xs @ n # ys)) w w' \<and>
    (\<forall>l'. lw_lists w' l' = None \<longleftrightarrow> lw_lists w l' = None)"
proof -
  from sh obtain L where L: "lw_lists w l = Some L" and sz: "l_size L = int (length (xs @ n # ys))"
    and va: "\<And>p. p \<in> set (xs @ n # ys) \<Longrightarrow> \<exists>v. node_val p w = Some v \<and> \<not> ln_invalid v"
    unfolding list_shape_def by auto
  from unlink_struct [OF sh L] obtain h hdr nn where
    u: "dll_unlink (lw_nodes w) (l_head L, l_tail L) n = Some (h, hdr)" "dll h hdr (xs @ ys)"
      "lw_nodes w n = Some nn" "h n = Some (nn\<lparr>dn_next := None, dn_prev := None\<rparr>)"
      "\<And>p. p \<noteq> n \<Longrightarrow> map_option dn_val (h p) = map_option dn_val (lw_nodes w p)"
      "\<And>a. a \<notin> set (xs @ n # ys) \<Longrightarrow> h a = lw_nodes w a" and out: "n \<notin> set (xs @ ys)" by blast
  let ?ls = "(lw_lists w)(l \<mapsto> L\<lparr>l_head := fst hdr, l_tail := snd hdr, l_size := l_size L - 1\<rparr>)"
  let ?n3 = "\<lparr>dn_next = None, dn_prev = None, dn_val = (dn_val nn)\<lparr>ln_invalid := True, ln_timer := None\<rparr>\<rparr>"
  let ?w3 = "w\<lparr>lw_lists := ?ls, lw_nodes := h(n \<mapsto> ?n3)\<rparr>"
  have un: "hlt_list_expire l n w = Some ?w3"
    using L u(1,4) by (cases nn) (simp add: hlt_list_expire_def list_unlink_def set_node_def upd_def node_val_def)
  have nv: "node_val p ?w3 = node_val p w" if "p \<in> set (xs @ ys)" for p
    using u(5) [of p] that out by (auto simp: node_val_def)
  have "dll (h(n \<mapsto> ?n3)) hdr (xs @ ys)" using u(2) out by (simp add: dll_frame)
  then have "list_shape l (xs @ ys) ?w3" using sz va nv unfolding list_shape_def by auto
  moreover have "list_vals ?w3 (xs @ ys) = list_vals w (xs @ ys)"
    by (rule list_vals_cong) (use nv in auto)
  moreover have "list_frame l (set (xs @ n # ys)) w ?w3" using u(6) unfolding list_frame_def by auto
  ultimately show ?thesis using un L by auto
qed

text \<open>
  \<open>lists_ok w R\<close>: all lists of the state are well formed, \<open>R\<close> gives their nodes, and no two
  lists share a node. \<open>list_good\<close>: the element a list timer names is in its list.
\<close>

definition lists_ok :: "'a list_world_scheme \<Rightarrow> (addr \<Rightarrow> addr list) \<Rightarrow> bool" where
  "lists_ok w R \<longleftrightarrow> (\<forall>l. lw_lists w l \<noteq> None \<longrightarrow> list_shape l (R l) w) \<and>
     (\<forall>l l'. l \<noteq> l' \<longrightarrow> lw_lists w l \<noteq> None \<longrightarrow> lw_lists w l' \<noteq> None \<longrightarrow> set (R l) \<inter> set (R l') = {})"

fun list_good :: "timer_cookie \<Rightarrow> 'a list_world_scheme \<Rightarrow> bool" where
  "list_good (CList l n) w \<longleftrightarrow> (\<exists>R. lists_ok w R \<and> lw_lists w l \<noteq> None \<and> n \<in> set (R l))"
| "list_good _ w \<longleftrightarrow> False"

text \<open>
  The lists after the cookies \<open>cs\<close> have expired: of the headers only the ends and the size may differ, the nodes of expired
  elements are marked as invalid and have no timer, and all other nodes keep their contents.
\<close>

definition lists_after :: "timer_cookie set \<Rightarrow> 'a list_world_scheme \<Rightarrow> 'a list_world_scheme \<Rightarrow> bool" where
  "lists_after cs w w' \<longleftrightarrow>
     (\<forall>l. map_option (\<lambda>L. (l_tmgr L, l_timeout L, l_strategy L)) (lw_lists w' l) =
        map_option (\<lambda>L. (l_tmgr L, l_timeout L, l_strategy L)) (lw_lists w l)) \<and>
     (\<forall>p. node_val p w' = (if \<exists>l. CList l p \<in> cs
        then map_option (\<lambda>v. v\<lparr>ln_invalid := True, ln_timer := None\<rparr>) (node_val p w) else node_val p w))"

lemma lists_after_trans:
  assumes "lists_after cs w w1" "lists_after ds w1 w2"
  shows "lists_after (cs \<union> ds) w w2"
proof -
  have n: "node_val p w2 = (if \<exists>l. CList l p \<in> ds then map_option (\<lambda>v. v\<lparr>ln_invalid := True, ln_timer := None\<rparr>) (node_val p w1) else node_val p w1)"
    "node_val p w1 = (if \<exists>l. CList l p \<in> cs then map_option (\<lambda>v. v\<lparr>ln_invalid := True, ln_timer := None\<rparr>) (node_val p w) else node_val p w)" for p
    using assms unfolding lists_after_def by blast+
  have "node_val p w2 = (if \<exists>l. CList l p \<in> cs \<union> ds then map_option (\<lambda>v. v\<lparr>ln_invalid := True, ln_timer := None\<rparr>) (node_val p w) else node_val p w)" for p
    using n [of p] by (auto simp: option.map_comp o_def split: if_splits)
  then show ?thesis using assms unfolding lists_after_def by simp
qed

lemma lists_after_same:
  "lw_lists w' = lw_lists w \<Longrightarrow> lw_nodes w' = lw_nodes w \<Longrightarrow> \<forall>l n. CList l n \<notin> cs \<Longrightarrow> lists_after cs w w'"
  by (simp add: lists_after_def node_val_def)

lemma unlink_vals:
  assumes "dll_unlink h hdr n = Some (h', hdr')"
  shows "map_option dn_val (h' p) = map_option dn_val (h p)"
  using assms by (auto simp: dll_unlink_def upd_def bind_eq_Some_conv split: option.splits if_splits)

lemma list_expire_after:
  assumes "hlt_list_expire l n w = Some w'"
  shows "lists_after {CList l n} w w'" "w'\<lparr>lw_nodes := lw_nodes w, lw_lists := lw_lists w\<rparr> = w"
proof -
  from assms obtain L h hdr where L: "lw_lists w l = Some L" "dll_unlink (lw_nodes w) (l_head L, l_tail L) n = Some (h, hdr)"
    unfolding hlt_list_expire_def list_unlink_def by (auto simp: bind_eq_Some_conv)
  obtain nn where nn: "h n = Some nn" using assms L unfolding hlt_list_expire_def list_unlink_def
    by (cases "h n") (auto simp: set_node_def upd_def)
  let ?h = "h(n \<mapsto> nn\<lparr>dn_val := (dn_val nn)\<lparr>ln_invalid := True, ln_timer := None\<rparr>\<rparr>)"
  let ?ls = "(lw_lists w)(l \<mapsto> L\<lparr>l_head := fst hdr, l_tail := snd hdr, l_size := l_size L - 1\<rparr>)"
  have w': "w' = w\<lparr>lw_nodes := ?h, lw_lists := ?ls\<rparr>"
    using assms L nn unfolding hlt_list_expire_def list_unlink_def by (auto simp: set_node_def upd_def node_val_def)
  have v: "map_option dn_val (lw_nodes w p) = map_option dn_val (h p)" for p using unlink_vals [OF L(2)] by simp
  have "node_val p w' = (if p = n then map_option (\<lambda>v. v\<lparr>ln_invalid := True, ln_timer := None\<rparr>) (node_val p w) else node_val p w)" for p
    using v [of p] nn unfolding w' node_val_def by auto
  then show "lists_after {CList l n} w w'" unfolding lists_after_def using L(1) by (simp add: w')
  show "w'\<lparr>lw_nodes := lw_nodes w, lw_lists := lw_lists w\<rparr> = w" by (simp add: w')
qed

lemma list_shape_frame:
  assumes "list_shape l' ps w" "list_frame l A w w'" "l' \<noteq> l" "set ps \<inter> A = {}"
  shows "list_shape l' ps w'"
proof -
  have "lw_nodes w' p = lw_nodes w p" if "p \<in> set ps" for p
    using assms that unfolding list_frame_def by auto
  then show ?thesis using assms dll_cong [of ps "lw_nodes w'" "lw_nodes w"]
    unfolding list_shape_def list_frame_def node_val_def by auto
qed

lemma list_shape_unique: "list_shape l xs w \<Longrightarrow> list_shape l ys w \<Longrightarrow> xs = ys"
  unfolding list_shape_def by (auto dest: dll_unique)

lemma expire_lists_ok:
  assumes ok: "lists_ok w R" and l: "lw_lists w l \<noteq> None" and n: "R l = xs @ n # ys"
  shows "\<exists>w'. hlt_list_expire l n w = Some w' \<and> lists_ok w' (R(l := xs @ ys)) \<and>
    (\<forall>l'. lw_lists w' l' = None \<longleftrightarrow> lw_lists w l' = None)"
proof -
  have sh: "list_shape l (xs @ n # ys) w" using ok l n unfolding lists_ok_def by metis
  from expire_struct [OF sh] obtain w' where w': "hlt_list_expire l n w = Some w'" "list_shape l (xs @ ys) w'"
    "list_frame l (set (xs @ n # ys)) w w'" "\<forall>l'. lw_lists w' l' = None \<longleftrightarrow> lw_lists w l' = None" by blast
  have "list_shape l' (R l') w'" if "l' \<noteq> l" "lw_lists w l' \<noteq> None" for l'
    using ok l n that list_shape_frame [OF _ w'(3)] unfolding lists_ok_def by metis
  moreover have "set (R l') \<inter> set (xs @ ys) = {}" if "l' \<noteq> l" "lw_lists w l' \<noteq> None" for l'
  proof -
    have "set (R l') \<inter> set (R l) = {}" using ok l that unfolding lists_ok_def by blast
    then show ?thesis using n by auto
  qed
  ultimately have "lists_ok w' (R(l := xs @ ys))"
    using ok w'(2,4) unfolding lists_ok_def by (auto simp: Int_commute)
  then show ?thesis using w' by blast
qed

lemma lists_ok_unique: "lists_ok w R \<Longrightarrow> lists_ok w R' \<Longrightarrow> lw_lists w l \<noteq> None \<Longrightarrow> R l = R' l"
  unfolding lists_ok_def by (metis list_shape_unique)

lemma list_shape_quiet: "list_shape l ps (w\<lparr>tw_timers := ts, tw_mgrs := ms\<rparr>) \<longleftrightarrow> list_shape l ps w"
  by (simp add: list_shape_def node_val_def)

lemma lists_ok_quiet: "lists_ok (w\<lparr>tw_timers := ts, tw_mgrs := ms\<rparr>) R \<longleftrightarrow> lists_ok w R"
  by (simp add: lists_ok_def list_shape_quiet)

lemma expire_quiet:
  "hlt_list_expire l n (w\<lparr>tw_timers := ts, tw_mgrs := ms\<rparr>) =
   map_option (\<lambda>w'. w'\<lparr>tw_timers := ts, tw_mgrs := ms\<rparr>) (hlt_list_expire l n w)"
  by (auto simp: hlt_list_expire_def list_unlink_def set_node_def upd_def node_val_def
      split: option.splits bind_splits)

interpretation lx: quiet_expiry "ops\<lparr>x_list := hlt_list_expire\<rparr>" list_good for ops
proof (unfold_locales, goal_cases)
  case (1 c w ts ms)
  then show ?case by (cases c) (auto simp: expire_quiet)
next
  case (2 c w ts ms)
  then show ?case by (cases c) (auto simp: lists_ok_quiet)
next
  case (3 c w)
  then show ?case
  proof (cases c)
    case (CList l n)
    with 3 obtain R where R: "lists_ok w R" "lw_lists w l \<noteq> None" "n \<in> set (R l)" by auto
    then obtain xs ys where "R l = xs @ n # ys" by (metis split_list)
    from expire_lists_ok [OF R(1,2) this] show ?thesis using CList by auto
  qed auto
next
  case (4 c w c' w')
  from 4(1) obtain l n where c: "c = CList l n" by (cases c) auto
  from 4(2) obtain l' n' where c': "c' = CList l' n'" by (cases c') auto
  from 4(1) c obtain R where R: "lists_ok w R" "lw_lists w l \<noteq> None" "n \<in> set (R l)" by auto
  from 4(2) c' obtain R' where R': "lists_ok w R'" and n'1: "lw_lists w l' \<noteq> None" and "n' \<in> set (R' l')"
    by auto
  then have n': "lw_lists w l' \<noteq> None" "n' \<in> set (R l')"
    using lists_ok_unique [OF R(1) R' n'1] by auto
  from R(3) obtain xs ys where s: "R l = xs @ n # ys" by (metis split_list)
  from expire_lists_ok [OF R(1,2) s] obtain w2 where w2: "hlt_list_expire l n w = Some w2"
    "lists_ok w2 (R(l := xs @ ys))" "\<forall>l'. lw_lists w2 l' = None \<longleftrightarrow> lw_lists w l' = None" by blast
  then have "w' = w2" using 4(4) c by simp
  moreover have "n' \<in> set ((R(l := xs @ ys)) l')"
    using n'(2) s 4(3) c c' by (cases "l' = l") auto
  ultimately show ?case using w2 n'(1) c' by auto
qed

section \<open>Appending a list\<close>

lemma list_frame_trans:
  assumes "list_frame l A w w1" "list_frame l B w1 w2"
  shows "list_frame l (A \<union> B) w w2"
  using assms unfolding list_frame_def by auto

lemma dseg_rest:
  assumes "dseg h a p (x # xs) None l" "h x = Some n"
  shows "dn_next n = (case xs of [] \<Rightarrow> None | y # _ \<Rightarrow> Some y)" "dseg h (dn_next n) (Some x) xs None l"
  using assms dseg_first [of h "dn_next n" "Some x" xs None l] by auto

lemma append_loop_ok:
  assumes "list_inv l1 ps w" "alloc_inv w" "clock_ok l1 w"
    and "dseg (lw_nodes w) a p qs None e" "set qs \<inter> set ps = {}" "\<forall>q\<in>set qs. q < tw_next w"
  shows "\<exists>w' ns. list_append_loop ops l1 a w = Some w' \<and> list_inv l1 (ps @ ns) w' \<and> alloc_inv w' \<and>
    list_vals w' (ps @ ns) = list_vals w ps @ list_vals w qs \<and>
    length ns = length qs \<and> tw_excpt w' = tw_excpt w \<and> (\<forall>l. l \<noteq> l1 \<longrightarrow> lw_lists w' l = lw_lists w l) \<and>
    (\<forall>r < tw_next w. r \<notin> set ps \<longrightarrow> lw_nodes w' r = lw_nodes w r)"
  using assms
proof (induction qs arbitrary: a p ps w)
  case Nil
  then have "list_append_loop ops l1 a w = Some w" by (simp add: list_append_loop.simps)
  then show ?case using Nil by (intro exI [of _ w] exI [of _ "[]"]) (auto simp: list_vals_def list_frame_def)
next
  case (Cons q qs)
  then obtain qn where qn: "a = Some q" "lw_nodes w q = Some qn" by (auto split: option.splits)
  let ?n = "tw_next w" and ?x = "ln_data (dn_val qn)"
  from push_back_ok [OF Cons.prems(1-3), of ops ?x] obtain w1 where
    w1: "hlt_list_push_back ops l1 ?x w = Some w1" "list_inv l1 (ps @ [?n]) w1" "alloc_inv w1"
      "list_vals w1 (ps @ [?n]) = list_vals w ps @ [?x]" "list_frame l1 (set ps \<union> {?n}) w w1"
      "clock_ok l1 w1" "tw_next w < tw_next w1" by blast
  have same: "lw_nodes w1 r = lw_nodes w r" if "r \<in> set (q # qs)" for r
    using w1(5) that Cons.prems(5,6) unfolding list_frame_def by fastforce
  have seg1: "dseg (lw_nodes w1) (dn_next qn) (Some q) qs None e"
  proof -
    have "dseg (lw_nodes w) (dn_next qn) (Some q) qs None e"
      using dseg_rest(2) Cons.prems(4) qn by blast
    then show ?thesis using dseg_cong [of qs "lw_nodes w1" "lw_nodes w"] same by auto
  qed
  have fresh: "set qs \<inter> set (ps @ [?n]) = {}" "\<forall>r\<in>set qs. r < tw_next w1"
    using Cons.prems(5,6) w1(7) by fastforce+
  from Cons.IH [OF w1(2,3,6) seg1 fresh] obtain w2 ns where
    w2: "list_append_loop ops l1 (dn_next qn) w1 = Some w2" "list_inv l1 ((ps @ [?n]) @ ns) w2" "alloc_inv w2"
      "list_vals w2 ((ps @ [?n]) @ ns) = list_vals w1 (ps @ [?n]) @ list_vals w1 qs"
      "length ns = length qs" "tw_excpt w2 = tw_excpt w1" "\<forall>l. l \<noteq> l1 \<longrightarrow> lw_lists w2 l = lw_lists w1 l"
      "\<forall>r < tw_next w1. r \<notin> set (ps @ [?n]) \<longrightarrow> lw_nodes w2 r = lw_nodes w1 r" by blast
  have "list_vals w1 qs = list_vals w qs"
    by (rule list_vals_cong) (use same in \<open>auto simp: node_val_def\<close>)
  then have "list_vals w2 (ps @ ?n # ns) = list_vals w ps @ list_vals w (q # qs)"
    using w2(4) w1(4) qn by (simp add: list_vals_def node_val_def)
  moreover have "list_append_loop ops l1 a w = Some w2"
    using qn w1(1) w2(1) same by (subst list_append_loop.simps) (simp add: node_val_def)
  moreover have "tw_excpt w2 = tw_excpt w" "\<forall>l. l \<noteq> l1 \<longrightarrow> lw_lists w2 l = lw_lists w l"
    using w2(6,7) w1(5) unfolding list_frame_def by auto
  moreover have "\<forall>r < tw_next w. r \<notin> set ps \<longrightarrow> lw_nodes w2 r = lw_nodes w r"
    using w2(8) w1(5,7) unfolding list_frame_def by auto
  ultimately show ?case using w2(2,3,5) by (intro exI [of _ w2] exI [of _ "?n # ns"]) simp
qed

lemma append_ok:
  assumes "list_inv l1 ps w" "list_shape l2 qs w" "alloc_inv w" "clock_ok l1 w" "set ps \<inter> set qs = {}"
  shows "\<exists>w' ns. hlt_list_append ops l1 l2 w = Some w' \<and> list_inv l1 (ps @ ns) w' \<and> alloc_inv w' \<and>
    list_vals w' (ps @ ns) = list_vals w ps @ list_vals w qs \<and> length ns = length qs \<and> tw_excpt w' = tw_excpt w \<and>
    (l1 \<noteq> l2 \<longrightarrow> list_shape l2 qs w' \<and> list_vals w' qs = list_vals w qs)"
proof -
  from assms(2) obtain L2 where L2: "lw_lists w l2 = Some L2"
    "dll (lw_nodes w) (l_head L2, l_tail L2) qs" unfolding list_shape_def by auto
  have lt: "\<forall>q\<in>set qs. q < tw_next w"
    using dll_live [OF L2(2)] assms(3) unfolding alloc_inv_def by (metis not_less option.distinct(1))
  from L2(2) have "dseg (lw_nodes w) (l_head L2) None qs None (l_tail L2)" unfolding dll_def by simp
  from append_loop_ok [OF assms(1,3,4) this _ lt, of ops] assms(5) obtain w' ns where
    r: "list_append_loop ops l1 (l_head L2) w = Some w'" "list_inv l1 (ps @ ns) w'" "alloc_inv w'"
      "list_vals w' (ps @ ns) = list_vals w ps @ list_vals w qs" "length ns = length qs"
      "tw_excpt w' = tw_excpt w" "\<forall>l. l \<noteq> l1 \<longrightarrow> lw_lists w' l = lw_lists w l"
      "\<forall>r < tw_next w. r \<notin> set ps \<longrightarrow> lw_nodes w' r = lw_nodes w r" by (auto simp: Int_commute)
  have same: "lw_nodes w' q = lw_nodes w q" if "q \<in> set qs" for q using r(8) lt assms(5) that by auto
  have "list_shape l2 qs w' \<and> list_vals w' qs = list_vals w qs" if "l1 \<noteq> l2"
    using assms(2) same r(7) that dll_cong [of qs "lw_nodes w'" "lw_nodes w"]
    unfolding list_shape_def list_vals_def node_val_def by auto
  then show ?thesis using r L2(1) unfolding hlt_list_append_def by auto
qed

text \<open>
  Appending a list to itself never returns: each element that is copied to the end is reached by
  the loop in turn.
\<close>

lemma append_self_loop:
  assumes "list_append_loop ops l a w = Some w'"
  shows "a = Some p \<Longrightarrow> p \<in> set ps \<Longrightarrow> list_inv l ps w \<Longrightarrow> alloc_inv w \<Longrightarrow> clock_ok l w \<Longrightarrow> False"
proof (induction arbitrary: p ps rule: list_append_loop.raw_induct [OF _ assms])
  case (1 f ops l a w w')
  note pr = "1.prems"
  obtain nn where nn: "lw_nodes w p = Some nn" using list_inv_nodes pr by blast
  let ?x = "ln_data (dn_val nn)" and ?n = "tw_next w"
  from push_back_ok [OF pr(3-5), of ops ?x] obtain w1 where
    w1: "hlt_list_push_back ops l ?x w = Some w1" "list_inv l (ps @ [?n]) w1" "alloc_inv w1" "clock_ok l w1"
    by blast
  from pr(2) obtain xs ys where ps: "ps = xs @ p # ys" by (metis split_list)
  obtain L :: hlt_list where "dll (lw_nodes w1) (l_head L, l_tail L) (xs @ p # (ys @ [?n]))"
    using w1(2) ps unfolding list_inv_def by auto
  then obtain nn1 where nn1: "lw_nodes w1 p = Some nn1" "dn_next nn1 = (case ys @ [?n] of [] \<Rightarrow> None | y # _ \<Rightarrow> Some y)"
    using dll_next by blast
  then obtain y where y: "dn_next nn1 = Some y" "y \<in> set (ps @ [?n])" using ps by (cases ys) auto
  have "f ops l (dn_next nn1) w1 = Some w'" using "1"(2) pr(1) nn w1(1) nn1(1) by (simp add: node_val_def)
  then show False using "1"(1) y w1(2-4) by blast
qed

section \<open>Sequences of operations\<close>

text \<open>
  The double-ended queue that a list implements: the specification works on the list of values and
  reports an underflow, and a run of the code follows it step by step.
\<close>

datatype list_op = PushFront val | PushBack val | PopFront | PopBack

fun spec_op :: "list_op \<Rightarrow> val list \<times> exn option \<Rightarrow> val list \<times> exn option" where
  "spec_op (PushFront x) (vs, e) = (x # vs, e)"
| "spec_op (PushBack x) (vs, e) = (vs @ [x], e)"
| "spec_op PopFront (vs, e) = (if vs = [] then (vs, Some Underflow) else (tl vs, e))"
| "spec_op PopBack (vs, e) = (if vs = [] then (vs, Some Underflow) else (butlast vs, e))"

fun run_op :: "'a list_world_scheme expiry_ops \<Rightarrow> addr \<Rightarrow> list_op \<Rightarrow> 'a list_world_scheme \<Rightarrow> 'a list_world_scheme option" where
  "run_op ops l (PushFront x) w = hlt_list_push_front ops l x w"
| "run_op ops l (PushBack x) w = hlt_list_push_back ops l x w"
| "run_op ops l PopFront w = hlt_list_pop_front l w"
| "run_op ops l PopBack w = hlt_list_pop_back l w"

fun run_list :: "'a list_world_scheme expiry_ops \<Rightarrow> addr \<Rightarrow> list_op list \<Rightarrow> 'a list_world_scheme \<Rightarrow> 'a list_world_scheme option" where
  "run_list ops l [] w = Some w"
| "run_list ops l (x # xs) w = do { w1 \<leftarrow> run_op ops l x w; run_list ops l xs w1 }"

lemma cancel_clocks:
  assumes "hlt_timer_cancel t w = Some w'"
  shows "clocks w' = clocks w" "erase w' = erase w \<or> t = None"
  using assms unfolding hlt_timer_cancel_def
  by (auto simp: clocks_def set_queue_def erase_def fun_eq_iff hlt_set_exception_def split: option.splits bind_splits)

lemma unlink_clock:
  assumes "list_unlink l n c w = Some w'" "clock_ok l w"
  shows "clock_ok l w'"
proof -
  note un = assms(1) [unfolded list_unlink_def]
  obtain L where L: "lw_lists w l = Some L" using un by (cases "lw_lists w l") auto
  obtain h hdr where u: "dll_unlink (lw_nodes w) (l_head L, l_tail L) n = Some (h, hdr)"
    using un L by (cases "dll_unlink (lw_nodes w) (l_head L, l_tail L) n") auto
  obtain w1 where s1: "set_node n (\<lambda>v. v\<lparr>ln_invalid := True\<rparr>) (w\<lparr>lw_nodes := h,
             lw_lists := (lw_lists w)(l \<mapsto> L\<lparr>l_head := fst hdr, l_tail := snd hdr, l_size := l_size L - 1\<rparr>)\<rparr>) = Some w1"
    using un L u by (auto simp: bind_eq_Some_conv)
  obtain v where v: "node_val n w1 = Some v" using un L u s1 by (cases "node_val n w1") auto
  have r: "(if ln_timer v \<noteq> None \<and> c then hlt_timer_cancel (ln_timer v) w1 else Some w1) \<bind> set_node n (\<lambda>v. v\<lparr>ln_timer := None\<rparr>) = Some w'"
    using un unfolding L u bind.bind_lunit prod.case s1 v .
  obtain w2 where w2: "(if ln_timer v \<noteq> None \<and> c then hlt_timer_cancel (ln_timer v) w1 else Some w1) = Some w2"
    and w3: "set_node n (\<lambda>v. v\<lparr>ln_timer := None\<rparr>) w2 = Some w'"
    using r by (cases "if ln_timer v \<noteq> None \<and> c then hlt_timer_cancel (ln_timer v) w1 else Some w1") auto
  from s1 have w1: "lw_lists w1 = (lw_lists w)(l \<mapsto> L\<lparr>l_head := fst hdr, l_tail := snd hdr, l_size := l_size L - 1\<rparr>)" "tw_mgrs w1 = tw_mgrs w"
    by (auto simp: set_node_def)
  have c2: "clocks w2 = clocks w1 \<and> lw_lists w2 = lw_lists w1"
  proof (cases "ln_timer v \<noteq> None \<and> c")
    case True
    then have "clocks w2 = clocks w1" "erase w2 = erase w1" using w2 cancel_clocks [of "ln_timer v" w1 w2] by auto
    then show ?thesis using erase_fields by blast
  qed (use w2 in auto)
  have "clocks w' = clocks w2 \<and> lw_lists w' = lw_lists w2" using w3 by (auto simp: set_node_def upd_def clocks_def split: option.splits)
  then have f: "clocks w' = clocks w" "lw_lists w' = lw_lists w1" using c2 w1(2) by (auto simp: clocks_def)
  have "map_option mgr_time (tw_mgrs w' m) = map_option mgr_time (tw_mgrs w m)" for m
    using fun_cong [OF f(1), of m] by (simp add: clocks_def)
  then have "\<exists>mg'. tw_mgrs w m = Some mg' \<and> mgr_time mg' = mgr_time mg" if "tw_mgrs w' m = Some mg" for m mg
    using that by (metis map_option_eq_Some)
  then show ?thesis using assms(2) L f(2) w1(1) unfolding clock_ok_def by fastforce
qed

lemma list_inv_error: "list_inv l ps (hlt_set_exception e w) \<longleftrightarrow> list_inv l ps w"
  "alloc_inv (hlt_set_exception e w) \<longleftrightarrow> alloc_inv w" "clock_ok l (hlt_set_exception e w) \<longleftrightarrow> clock_ok l w"
  "list_vals (hlt_set_exception e w) ps = list_vals w ps"
  by (simp_all add: list_inv_def alloc_inv_def clock_ok_def list_vals_def hlt_set_exception_def elem_ok_def mgr_inv_def
      queue_inv_def mgr_elems_def node_val_def cong: conj_cong)

lemma timers_exact_error [simp]: "timers_exact l A (hlt_set_exception e w) = timers_exact l A w"
  by (simp add: timers_exact_def hlt_set_exception_def node_val_def)

lemma tw_excpt_error [simp]: "tw_excpt (hlt_set_exception e w) = Some e"
  by (simp add: hlt_set_exception_def)

lemma pop_front_empty: "list_inv l [] w \<Longrightarrow> hlt_list_pop_front l w = Some (hlt_set_exception Underflow w)"
  "list_inv l [] w \<Longrightarrow> hlt_list_pop_back l w = Some (hlt_set_exception Underflow w)"
  by (auto simp: hlt_list_pop_front_def hlt_list_pop_back_def list_inv_def dll_def)

lemma pop_clock: "hlt_list_pop_front l w = Some w' \<Longrightarrow> clock_ok l w \<Longrightarrow> clock_ok l w'"
  "hlt_list_pop_back l w = Some w' \<Longrightarrow> clock_ok l w \<Longrightarrow> clock_ok l w'"
  by (auto simp: hlt_list_pop_front_def hlt_list_pop_back_def bind_eq_Some_conv list_inv_error intro: unlink_clock
      split: option.splits simp flip: hlt_set_exception_def)

lemma list_vals_Cons: "list_vals w (p # ps) = list_vals w [p] @ list_vals w ps" "length (list_vals w ps) = length ps"
  by (simp_all add: list_vals_def)

text \<open>What a step of the code has to establish; \<open>ex\<close> says whether the timers were exact before.\<close>

definition follows :: "bool \<Rightarrow> addr \<Rightarrow> val list \<times> exn option \<Rightarrow> 'a list_world_scheme option \<Rightarrow> bool" where
  "follows ex l r res \<longleftrightarrow> (\<exists>w' ps'. res = Some w' \<and> list_inv l ps' w' \<and> alloc_inv w' \<and> clock_ok l w' \<and>
     list_vals w' ps' = fst r \<and> tw_excpt w' = snd r \<and> (ex \<longrightarrow> timers_exact l (set ps') w'))"

lemma run_op_follows:
  assumes i: "list_inv l ps w" "alloc_inv w" "clock_ok l w"
  shows "follows (timers_exact l (set ps) w) l (spec_op x (list_vals w ps, tw_excpt w)) (run_op ops l x w)"
proof (cases x)
  case (PushFront v)
  from push_front_ok [OF i, of ops v] show ?thesis unfolding PushFront follows_def list_frame_def
    by (auto intro!: exI [of _ "tw_next w # ps"])
next
  case (PushBack v)
  from push_back_ok [OF i, of ops v] show ?thesis unfolding PushBack follows_def list_frame_def
    by (auto intro!: exI [of _ "ps @ [tw_next w]"])
next
  case PopFront
  show ?thesis
  proof (cases ps)
    case Nil
    then show ?thesis using i pop_front_empty(1) [of l w]
      by (auto simp: PopFront follows_def list_inv_error list_vals_def tw_excpt_error)
  next
    case (Cons p qs)
    have v: "list_vals w ps = list_vals w [p] @ list_vals w qs" "list_vals w [p] \<noteq> []" "tl (list_vals w ps) = list_vals w qs"
      by (simp_all add: Cons list_vals_def)
    from pop_front_ok [of l p qs w] i Cons show ?thesis
      using pop_clock(1) [OF _ i(3)] v by (auto simp: PopFront follows_def list_frame_def)
  qed
next
  case PopBack
  show ?thesis
  proof (cases ps rule: rev_cases)
    case Nil
    then show ?thesis using i pop_front_empty(2) [of l w]
      by (auto simp: PopBack follows_def list_inv_error list_vals_def tw_excpt_error)
  next
    case (snoc qs p)
    have v: "list_vals w ps \<noteq> []" "butlast (list_vals w ps) = list_vals w qs" by (simp_all add: snoc list_vals_def)
    from pop_back_ok [of l qs p w] i snoc show ?thesis
      using pop_clock(2) [OF _ i(3)] v by (auto simp: PopBack follows_def list_frame_def)
  qed
qed

lemma run_list_follows:
  assumes "list_inv l ps w" "alloc_inv w" "clock_ok l w"
  shows "follows (timers_exact l (set ps) w) l (fold spec_op xs (list_vals w ps, tw_excpt w)) (run_list ops l xs w)"
  using assms
proof (induction xs arbitrary: ps w)
  case (Cons x xs)
  from run_op_follows [OF Cons.prems, of x ops] obtain w1 ps1 where w1: "run_op ops l x w = Some w1" "list_inv l ps1 w1"
    "alloc_inv w1" "clock_ok l w1" "(list_vals w1 ps1, tw_excpt w1) = spec_op x (list_vals w ps, tw_excpt w)"
    "timers_exact l (set ps) w \<longrightarrow> timers_exact l (set ps1) w1"
    by (auto simp: follows_def)
  from Cons.IH [OF w1(2-4)] w1(1,5,6) show ?case by (auto simp: follows_def)
qed (auto simp: follows_def)

section \<open>Expiring many elements\<close>

lemma lists_ok_distinct: "lists_ok w R \<Longrightarrow> lw_lists w l \<noteq> None \<Longrightarrow> distinct (R l)"
  by (auto simp: lists_ok_def list_shape_def dll_def)

lemma lists_ok_cong: "lists_ok w R \<Longrightarrow> (\<And>l. lw_lists w l \<noteq> None \<Longrightarrow> R' l = R l) \<Longrightarrow> lists_ok w R'"
  unfolding lists_ok_def by metis

lemma expire_all_lists:
  assumes "lists_ok w R" "distinct cs" "\<forall>c \<in> set cs. \<exists>l n. c = CList l n \<and> lw_lists w l \<noteq> None \<and> n \<in> set (R l)"
  shows "\<exists>w'. expire_all (ops\<lparr>x_list := hlt_list_expire\<rparr>) cs w = Some w' \<and>
    lists_ok w' (\<lambda>l. filter (\<lambda>n. CList l n \<notin> set cs) (R l))"
  using assms
proof (induction cs arbitrary: w R)
  case (Cons c cs)
  obtain l n where c: "c = CList l n" "lw_lists w l \<noteq> None" "n \<in> set (R l)" using Cons.prems(3) by auto
  then obtain xs ys where R: "R l = xs @ n # ys" by (metis split_list)
  have out: "n \<notin> set xs" "n \<notin> set ys" using lists_ok_distinct [OF Cons.prems(1) c(2)] R by auto
  from expire_lists_ok [OF Cons.prems(1) c(2) R] obtain w1 where
    w1: "hlt_list_expire l n w = Some w1" "lists_ok w1 (R(l := xs @ ys))" "\<forall>l'. lw_lists w1 l' = None \<longleftrightarrow> lw_lists w l' = None"
    by blast
  have "\<forall>d \<in> set cs. \<exists>l' n'. d = CList l' n' \<and> lw_lists w1 l' \<noteq> None \<and> n' \<in> set ((R(l := xs @ ys)) l')"
  proof
    fix d assume d: "d \<in> set cs"
    then obtain l' n' where x: "d = CList l' n'" "lw_lists w l' \<noteq> None" "n' \<in> set (R l')" using Cons.prems(3) by auto
    moreover have "d \<noteq> c" using d Cons.prems(2) by auto
    ultimately show "\<exists>l' n'. d = CList l' n' \<and> lw_lists w1 l' \<noteq> None \<and> n' \<in> set ((R(l := xs @ ys)) l')"
      using c(1) R w1(3) by auto
  qed
  from Cons.IH [OF w1(2) _ this] Cons.prems(2) obtain w' where w': "expire_all (ops\<lparr>x_list := hlt_list_expire\<rparr>) cs w1 = Some w'"
    "lists_ok w' (\<lambda>l'. filter (\<lambda>n. CList l' n \<notin> set cs) ((R(l := xs @ ys)) l'))" by auto
  have fx: "filter (\<lambda>k. k \<noteq> n \<and> P k) zs = filter P zs" if "n \<notin> set zs" for P zs
    using that by (intro filter_cong) auto
  have "filter (\<lambda>n. CList l' n \<notin> set cs) ((R(l := xs @ ys)) l') = filter (\<lambda>n. CList l' n \<notin> set (c # cs)) (R l')" for l'
    using fx [OF out(1)] fx [OF out(2)] R c(1) by (cases "l' = l") auto
  then show ?case using w' w1(1) c(1) by simp
qed simp

lemma lists_ok_erase: "lists_ok (erase w) R \<longleftrightarrow> lists_ok w R" "lw_lists (erase w) = lw_lists w"
  unfolding erase_def by (simp_all add: lists_ok_quiet)

text \<open>Every timer that manager \<open>m\<close> has queued belongs to an element of a list, and to one element only.\<close>

definition list_timers_only :: "(addr \<Rightarrow> addr list) \<Rightarrow> addr \<Rightarrow> 'a list_world_scheme \<Rightarrow> bool" where
  "list_timers_only R m w \<longleftrightarrow> inj_on (cookie_of (tw_timers w)) (set_mset (mgr_elems m w)) \<and>
     (\<forall>a \<in># mgr_elems m w. \<exists>l n. cookie_of (tw_timers w) a = CList l n \<and> lw_lists w l \<noteq> None \<and> n \<in> set (R l))"

lemma advance_lists:
  assumes qi: "queue_inv m w" and m: "m = the_mgr mgr w" and ok: "lists_ok w R" and lt: "list_timers_only R m w"
    and few: "size (filter_mset (\<lambda>a. pri (tw_timers w) a \<le> t) (mgr_elems m w)) \<le> 2147483647"
  shows "\<exists>n w'. hlt_timer_mgr_advance (ops\<lparr>x_list := hlt_list_expire\<rparr>) mgr t w = Some (n, w') \<and>
    n = size (filter_mset (\<lambda>a. pri (tw_timers w) a \<le> t) (mgr_elems m w)) \<and>
    mgr_inv m w' \<and> map_option mgr_time (tw_mgrs w' m) = Some t \<and>
    lists_ok w' (\<lambda>l. filter (\<lambda>n. \<not> is_due t m w (CList l n)) (R l))"
proof -
  let ?ops = "ops\<lparr>x_list := hlt_list_expire\<rparr>"
  have lc: "live_cookies list_good m w"
    unfolding live_cookies_def using lt ok unfolding list_timers_only_def by fastforce
  from lx.advance_due [OF qi lc m few, of ops] obtain cs w' where
    a: "hlt_timer_mgr_advance ?ops mgr t w = Some (length cs, w')"
      "length cs = size (filter_mset (\<lambda>a. pri (tw_timers w) a \<le> t) (mgr_elems m w))" "distinct cs" "set cs = {c. is_due t m w c}"
      "mgr_inv m w'" "map_option mgr_time (tw_mgrs w' m) = Some t" "expire_all ?ops cs (erase w) = Some (erase w')" by blast
  have "\<forall>c \<in> set cs. \<exists>l n. c = CList l n \<and> lw_lists (erase w) l \<noteq> None \<and> n \<in> set (R l)"
    using lt a(4) unfolding list_timers_only_def is_due_def lists_ok_erase by auto
  from expire_all_lists [OF _ a(3) this, of ops] ok a(7)
  have "lists_ok w' (\<lambda>l. filter (\<lambda>n. CList l n \<notin> set cs) (R l))" by (simp add: lists_ok_erase)
  then show ?thesis using a(1,2,4-6) by simp
qed

section \<open>Traversal\<close>

text \<open>
  The content of a list for a traversal: its nodes and their values. The traversal is considered for lists whose elements
  an access does not postpone.
\<close>

definition access_free :: "addr \<Rightarrow> 'a list_world_scheme \<Rightarrow> bool" where
  "access_free l w \<longleftrightarrow> (\<forall>L. lw_lists w l = Some L \<longrightarrow>
     l_tmgr L = None \<or> \<not> hlt_enum_equal (l_strategy L) expire_strategy_access \<or> l_timeout L = 0)"

fun list_ready :: "addr \<Rightarrow> addr list \<times> val list \<Rightarrow> 'a list_world_scheme \<Rightarrow> bool" where
  "list_ready l (ps, vs) w \<longleftrightarrow> list_inv l ps w \<and> list_vals w ps = vs \<and> access_free l w"

definition list_at :: "addr \<Rightarrow> addr list \<times> val list \<Rightarrow> nat \<Rightarrow> list_iter" where
  "list_at l c k = iter_at l (drop k (fst c))"

lemma list_ready_length: "list_ready l c w \<Longrightarrow> length (snd c) = length (fst c)"
  by (cases c) (auto simp: list_vals_def)

lemma access_free_access: "list_ready l c w \<Longrightarrow> list_access ops l n w = Some w"
  by (cases c) (auto simp: access_free_def list_access_def list_inv_def)

lemma list_ready_node:
  assumes "list_ready l c w" "k < length (fst c)"
  shows "\<exists>n. lw_nodes w (fst c ! k) = Some n \<and> ln_data (dn_val n) = snd c ! k \<and> \<not> ln_invalid (dn_val n) \<and>
    dn_next n = (case drop (Suc k) (fst c) of [] \<Rightarrow> None | q # _ \<Rightarrow> Some q)"
proof (cases c)
  case (Pair ps vs)
  with assms have inv: "list_inv l ps w" and vs: "vs = list_vals w ps" and k: "k < length ps" by auto
  from inv obtain L where L: "lw_lists w l = Some L" "dll (lw_nodes w) (l_head L, l_tail L) ps" "elem_ok l (l_tmgr L) w (ps ! k)"
    using k unfolding list_inv_def by auto
  from L(3) obtain n where n: "lw_nodes w (ps ! k) = Some n" "\<not> ln_invalid (dn_val n)" by (auto simp: elem_ok_def)
  have "ps = take k ps @ ps ! k # drop (Suc k) ps" using id_take_nth_drop [OF k] .
  then have "dn_next n = (case drop (Suc k) ps of [] \<Rightarrow> None | q # _ \<Rightarrow> Some q)"
    using dll_next [of "lw_nodes w" _ "take k ps" "ps ! k" "drop (Suc k) ps"] L(2) n(1) by auto
  moreover have "ln_data (dn_val n) = vs ! k" using vs k n(1) by (simp add: list_vals_def node_val_def)
  ultimately show ?thesis using n Pair by auto
qed

interpretation lt: traversal "list_ready l" snd "list_at l" "\<lambda>i. hlt_iterator_list_eq ops i (hlt_list_end l)"
  "hlt_iterator_list_deref ops" "\<lambda>i w. map_option fst (hlt_iterator_list_incr i w)" for l ops
proof (unfold_locales, goal_cases)
  case (1 c w k)
  note len = list_ready_length [OF 1(1)]
  show ?case
  proof (cases "drop k (fst c)")
    case Nil
    then have "hlt_iterator_list_eq ops (list_at l c k) (hlt_list_end l) w = Some (k = length (snd c), w)"
      using 1(2) len by (simp add: hlt_iterator_list_eq_def list_at_def iter_at_def hlt_list_end_def)
    then show ?thesis using 1(1) by blast
  next
    case (Cons p ps)
    then have "k < length (fst c)" by (metis drop_eq_Nil list.distinct(1) not_le)
    then have "hlt_iterator_list_eq ops (list_at l c k) (hlt_list_end l) w = Some (k = length (snd c), w)"
      using len Cons access_free_access [OF 1(1)]
      by (simp add: hlt_iterator_list_eq_def list_at_def iter_at_def hlt_list_end_def)
    then show ?thesis using 1(1) by blast
  qed
next
  case (2 c w k)
  then have k: "k < length (fst c)" using list_ready_length [OF 2(1)] by simp
  from list_ready_node [OF 2(1) k] obtain n where "lw_nodes w (fst c ! k) = Some n" "ln_data (dn_val n) = snd c ! k"
    "\<not> ln_invalid (dn_val n)" by blast
  then have "hlt_iterator_list_deref ops (list_at l c k) w = Some (Some (snd c ! k), w)"
    using access_free_access [OF 2(1)] Cons_nth_drop_Suc [OF k, symmetric]
    by (simp add: hlt_iterator_list_deref_def list_at_def iter_at_def node_val_def)
  then show ?case using 2(1) by blast
next
  case (3 c w k)
  then have k: "k < length (fst c)" using list_ready_length [OF 3(1)] by simp
  from list_ready_node [OF 3(1) k] obtain n where "lw_nodes w (fst c ! k) = Some n" "\<not> ln_invalid (dn_val n)"
    "dn_next n = (case drop (Suc k) (fst c) of [] \<Rightarrow> None | q # _ \<Rightarrow> Some q)" by blast
  then show ?case using Cons_nth_drop_Suc [OF k, symmetric]
    by (simp add: hlt_iterator_list_incr_def list_at_def iter_at_def node_val_def iter_invalid_def)
qed

lemma list_begin_at:
  assumes "list_ready l c w"
  shows "hlt_list_begin l w = Some (list_at l c 0)"
proof (cases c)
  case (Pair ps vs)
  with assms obtain L where "lw_lists w l = Some L" "dll (lw_nodes w) (l_head L, l_tail L) ps"
    by (auto simp: list_inv_def)
  then show ?thesis using dll_first [of "lw_nodes w" "(l_head L, l_tail L)" ps] Pair
    by (simp add: hlt_list_begin_def list_at_def iter_at_def)
qed

section \<open>Properties\<close>

text \<open>
  Two lists without a timer manager, one with the values 31 and 32, the other with 41; and one list with
  a manager at time 0, whose two elements expire at times 10 and 20.
\<close>

definition plain_list :: "ptr \<Rightarrow> ptr \<Rightarrow> int \<Rightarrow> hlt_list" where
  "plain_list h t n = \<lparr>l_head = h, l_tail = t, l_size = n, l_tmgr = None, l_timeout = 0, l_strategy = hlt_enum_unset\<rparr>"

definition plain_node :: "ptr \<Rightarrow> ptr \<Rightarrow> ptr \<Rightarrow> val \<Rightarrow> lnode dnode" where
  "plain_node nxt prv tm v = \<lparr>dn_next = nxt, dn_prev = prv, dn_val = \<lparr>ln_timer = tm, ln_invalid = False, ln_data = v\<rparr>\<rparr>"

definition plain_lists :: list_world where
  "plain_lists = \<lparr>tw_timers = Map.empty, tw_mgrs = Map.empty, tw_next = 6, tw_ctx_tmgr = 0, tw_vid_main = True,
     tw_global_time = 0, tw_excpt = None,
     lw_nodes = [1 \<mapsto> plain_node (Some 2) None None 31, 2 \<mapsto> plain_node None (Some 1) None 32, 4 \<mapsto> plain_node None None None 41],
     lw_lists = [0 \<mapsto> plain_list (Some 1) (Some 2) 2, 3 \<mapsto> plain_list (Some 4) (Some 4) 1]\<rparr>"

definition timed_list :: list_world where
  "timed_list = \<lparr>
     tw_timers = [5 \<mapsto> \<lparr>timer_mgr = Some 9, timer_time = 10, queue_pos = 1, cookie = CList 0 1\<rparr>,
                  6 \<mapsto> \<lparr>timer_mgr = Some 9, timer_time = 20, queue_pos = 2, cookie = CList 0 2\<rparr>],
     tw_mgrs = [9 \<mapsto> \<lparr>mgr_time = 0, mgr_timers = two_queued\<rparr>], tw_next = 10, tw_ctx_tmgr = 9, tw_vid_main = True,
     tw_global_time = 0, tw_excpt = None,
     lw_nodes = [1 \<mapsto> plain_node (Some 2) None (Some 5) 31, 2 \<mapsto> plain_node None (Some 1) (Some 6) 32],
     lw_lists = [0 \<mapsto> (plain_list (Some 1) (Some 2) 2)\<lparr>l_tmgr := Some 9, l_timeout := 10\<rparr>]\<rparr>"

definition list_actions :: "list_world expiry_ops" where
  "list_actions = \<lparr>x_function = \<lambda>_. Some, x_list = hlt_list_expire, x_map = \<lambda>_ _. Some, x_set = \<lambda>_ _. Some,
     x_vector = \<lambda>_ _. Some, x_profiler = \<lambda>_. Some\<rparr>"

lemma plain_lists_inv: "list_inv 0 [1, 2] plain_lists" "list_inv 3 [4] plain_lists" "alloc_inv plain_lists" "clock_ok l plain_lists"
  by (auto simp: list_inv_def plain_lists_def dll_def plain_list_def plain_node_def elem_ok_def alloc_inv_def clock_ok_def)

lemma plain_lists_vals: "list_vals plain_lists [1, 2] = [31, 32]" "list_vals plain_lists [4] = [41]" "tw_excpt plain_lists = None"
  by (simp_all add: list_vals_def node_val_def plain_lists_def plain_node_def)

lemma timed_list_queue: "queue_inv 9 timed_list" "mgr_elems 9 timed_list = {#5, 6#}"
proof -
  have "pq_inv (tw_timers timed_list) two_queued"
    by (rule tq.frame_law [OF two_queued_inv]) (auto simp: timed_list_def three_timers_def two_queued_elems)
  then show "queue_inv 9 timed_list" by (auto simp: queue_inv_def timed_list_def two_queued_elems split: if_splits)
  show "mgr_elems 9 timed_list = {#5, 6#}" by (simp add: mgr_elems_def timed_list_def two_queued_elems)
qed

lemma timed_list_inv: "list_inv 0 [1, 2] timed_list" "alloc_inv timed_list" "clock_ok 0 timed_list" "timers_exact 0 (set [1, 2]) timed_list"
proof -
  have "mgr_inv 9 timed_list"
    using timed_list_queue unfolding mgr_inv_def by (auto simp: timed_list_def pri_def)
  then show "list_inv 0 [1, 2] timed_list"
    unfolding list_inv_def by (auto simp: timed_list_def dll_def plain_list_def plain_node_def elem_ok_def link_of_def)
  show "alloc_inv timed_list" "clock_ok 0 timed_list"
    by (auto simp: alloc_inv_def clock_ok_def timed_list_def plain_list_def)
  show "timers_exact 0 (set [1, 2]) timed_list"
    by (auto simp: timers_exact_def timed_list_def link_of_def node_val_def plain_node_def split: if_splits)
qed

lemma timed_list_shape: "lists_ok timed_list (\<lambda>l. [1, 2])"
  by (auto simp: lists_ok_def list_shape_def timed_list_def dll_def plain_list_def plain_node_def node_val_def split: if_splits)

text \<open>
  C3: A list behaves as a double-ended queue. Any sequence of pushes and pops at both ends, on a list with or without
  expiration, runs without undefined behaviour and follows the specification on value lists, underflow
  on an empty list included. The links, the size and the marks of the elements stay consistent, each
  timer of an element stays scheduled with the list's manager for that element, and no other timer is
  scheduled for this list: the timer of an element that is removed is cancelled.
\<close>

theorem list_deque_refinement:
  assumes "list_inv l ps w" "alloc_inv w" "clock_ok l w" "timers_exact l (set ps) w"
  shows "\<exists>w' ps'. run_list ops l xs w = Some w' \<and> list_inv l ps' w' \<and> timers_exact l (set ps') w' \<and>
    (list_vals w' ps', tw_excpt w') = fold spec_op xs (list_vals w ps, tw_excpt w)"
  using run_list_follows [OF assms(1-3), of xs ops] assms(4) unfolding follows_def by (metis prod.collapse)

theorem list_deque_refinement_witness:
  "\<exists>w' ps'. run_list list_actions 0 [PopFront, PushFront 9, PopBack, PopBack, PopBack] timed_list = Some w' \<and>
    list_inv 0 ps' w' \<and> timers_exact 0 (set ps') w' \<and> (list_vals w' ps', tw_excpt w') = ([], Some Underflow)"
proof -
  have v: "list_vals timed_list [1, 2] = [31, 32]" "tw_excpt timed_list = None"
    by (simp_all add: list_vals_def node_val_def timed_list_def plain_node_def)
  show ?thesis
    using list_deque_refinement [OF timed_list_inv, of list_actions "[PopFront, PushFront 9, PopBack, PopBack, PopBack]", unfolded v]
    by simp
qed

text \<open>
  Inserting at an iterator puts the new element right before the iterator's position, also at the end of the list,
  and leaves all other lists alone.
\<close>

theorem list_insert_before:
  assumes "list_inv l (xs @ ys) w" "alloc_inv w" "clock_ok l w"
  shows "\<exists>w'. hlt_list_insert ops x (iter_at l ys) w = Some w' \<and> list_inv l (xs @ tw_next w # ys) w' \<and>
    list_vals w' (xs @ tw_next w # ys) = list_vals w xs @ x # list_vals w ys \<and> (\<forall>l'. l' \<noteq> l \<longrightarrow> lw_lists w' l' = lw_lists w l')"
  using insert_ok [OF assms, of ops x] by (auto simp: list_frame_def)

theorem list_insert_before_witness:
  "\<exists>w'. hlt_list_insert list_actions 7 (iter_at 0 [2]) plain_lists = Some w' \<and> list_inv 0 [1, tw_next plain_lists, 2] w' \<and>
    list_vals w' [1, tw_next plain_lists, 2] = list_vals plain_lists [1] @ 7 # list_vals plain_lists [2] \<and>
    (\<forall>l'. l' \<noteq> 0 \<longrightarrow> lw_lists w' l' = lw_lists plain_lists l')"
  using list_insert_before [of 0 "[1]" "[2]" plain_lists list_actions 7] plain_lists_inv by simp

text \<open>
  C37: Erasing at an iterator removes exactly that element and cancels its timer; the iterator is invalid from then on, and
  erasing through it again only raises an exception.
\<close>

theorem list_erase_invalidates:
  assumes "list_inv l (xs @ y # ys) w" "alloc_inv w"
  shows "\<exists>w'. hlt_list_erase (iter_at l (y # ys)) w = Some w' \<and> list_inv l (xs @ ys) w' \<and>
    list_vals w' (xs @ ys) = list_vals w (xs @ ys) \<and>
    hlt_list_erase (iter_at l (y # ys)) w' = Some (w'\<lparr>tw_excpt := Some InvalidIterator\<rparr>)"
proof -
  from erase_ok [OF assms] obtain w' where w': "hlt_list_erase (iter_at l (y # ys)) w = Some w'" "list_inv l (xs @ ys) w'"
    "list_vals w' (xs @ ys) = list_vals w (xs @ ys)" "iter_invalid (iter_at l (y # ys)) w' = Some True" by blast
  moreover have "hlt_list_erase (iter_at l (y # ys)) w' = Some (w'\<lparr>tw_excpt := Some InvalidIterator\<rparr>)"
    unfolding hlt_list_erase_def w'(4) by (simp add: hlt_set_exception_def)
  ultimately show ?thesis by blast
qed

theorem list_erase_invalidates_witness:
  "\<exists>w'. hlt_list_erase (iter_at 0 [1, 2]) plain_lists = Some w' \<and> list_inv 0 [2] w' \<and>
    list_vals w' [2] = list_vals plain_lists [2] \<and>
    hlt_list_erase (iter_at 0 [1, 2]) w' = Some (w'\<lparr>tw_excpt := Some InvalidIterator\<rparr>)"
  using list_erase_invalidates [of 0 "[]" 1 "[2]" plain_lists] plain_lists_inv by simp

text \<open>
  Appending another list returns and copies its values to the end of the first list; the other list is unchanged.
\<close>

theorem list_append_copies:
  assumes "list_inv l1 ps w" "list_inv l2 qs w" "alloc_inv w" "clock_ok l1 w" "set ps \<inter> set qs = {}" "l1 \<noteq> l2"
  shows "\<exists>w' ns. hlt_list_append ops l1 l2 w = Some w' \<and> list_inv l1 (ps @ ns) w' \<and>
    list_vals w' (ps @ ns) = list_vals w ps @ list_vals w qs \<and> list_shape l2 qs w' \<and> list_vals w' qs = list_vals w qs"
  using append_ok [OF assms(1) list_inv_shape [OF assms(2)] assms(3-5), of ops] assms(6) by blast

theorem list_append_copies_witness:
  "\<exists>w' ns. hlt_list_append list_actions 0 3 plain_lists = Some w' \<and> list_inv 0 ([1, 2] @ ns) w' \<and>
    list_vals w' ([1, 2] @ ns) = list_vals plain_lists [1, 2] @ list_vals plain_lists [4] \<and> list_shape 3 [4] w' \<and>
    list_vals w' [4] = list_vals plain_lists [4]"
  by (rule list_append_copies [OF plain_lists_inv(1-4)]) simp_all

text \<open>
  C38: Appending a non-empty list to itself never returns: the loop follows the elements that it appends.
\<close>

theorem list_append_self_diverges:
  assumes "list_inv l (p # ps) w" "alloc_inv w" "clock_ok l w"
  shows "hlt_list_append ops l l w = None"
proof -
  obtain L where L: "lw_lists w l = Some L" "l_head L = Some p" using assms(1) list_inv_head [OF assms(1)] by (fastforce simp: list_inv_def)
  show ?thesis
    using append_self_loop [of ops l "Some p" w _ p "p # ps"] assms L by (cases "list_append_loop ops l (Some p) w") (auto simp: hlt_list_append_def)
qed

theorem list_append_self_diverges_witness: "hlt_list_append list_actions 0 0 plain_lists = None"
  by (rule list_append_self_diverges [OF plain_lists_inv(1,3,4)])

text \<open>
  Expiration. When a manager whose timers belong to list elements advances to time \<open>t\<close>, the call returns the number of timers that
  were due, their elements are unlinked from their lists, all other elements stay in place and in order, and the manager is left
  with the timers that are not due.
\<close>

theorem list_expiry_on_advance:
  assumes "queue_inv m w" "m = the_mgr mgr w" "lists_ok w R" "list_timers_only R m w"
    "size (filter_mset (\<lambda>a. pri (tw_timers w) a \<le> t) (mgr_elems m w)) \<le> 2147483647"
  shows "\<exists>n w'. hlt_timer_mgr_advance (ops\<lparr>x_list := hlt_list_expire\<rparr>) mgr t w = Some (n, w') \<and>
    n = size (filter_mset (\<lambda>a. pri (tw_timers w) a \<le> t) (mgr_elems m w)) \<and>
    mgr_inv m w' \<and> map_option mgr_time (tw_mgrs w' m) = Some t \<and>
    lists_ok w' (\<lambda>l. filter (\<lambda>n. \<not> is_due t m w (CList l n)) (R l))"
  by (rule advance_lists [OF assms])

theorem list_expiry_on_advance_witness:
  "\<exists>n w'. hlt_timer_mgr_advance (list_actions\<lparr>x_list := hlt_list_expire\<rparr>) None 12 timed_list = Some (n, w') \<and>
    n = size (filter_mset (\<lambda>a. pri (tw_timers timed_list) a \<le> 12) (mgr_elems 9 timed_list)) \<and>
    mgr_inv 9 w' \<and> map_option mgr_time (tw_mgrs w' 9) = Some 12 \<and>
    lists_ok w' (\<lambda>l. filter (\<lambda>n. \<not> is_due 12 9 timed_list (CList l n)) [1, 2])"
proof (rule list_expiry_on_advance [OF timed_list_queue(1) _ timed_list_shape])
  show "9 = the_mgr None timed_list" by (simp add: the_mgr_def timed_list_def)
  show "list_timers_only (\<lambda>l. [1, 2]) 9 timed_list"
    unfolding list_timers_only_def timed_list_queue(2) by (simp add: cookie_of_def timed_list_def)
  show "size (filter_mset (\<lambda>a. pri (tw_timers timed_list) a \<le> 12) (mgr_elems 9 timed_list)) \<le> 2147483647"
    unfolding timed_list_queue(2) by simp
qed

end
