(* ===== verification/Vector.thy ===== *)
theory Vector
  imports HList
begin

text \<open>
  Vectors, \<^verbatim>\<open>libhilti/vector.c\<close>: arrays that grow, whose elements can be set to expire. A vector keeps
  three parallel arrays of \<open>v_capacity\<close> slots: the elements, whether a slot has been assigned, and the timers of the
  elements (a null pointer for a vector that was created without a timer manager). \<open>v_last\<close> is the largest valid index.
  The state \<open>vec_world\<close> extends that of lists with the store of vectors, so that one timer manager can serve both.

  Memory that the code allocates is zeroed (\<^verbatim>\<open>hlt_malloc\<close>, \<^verbatim>\<open>hlt_realloc\<close>), and an allocation succeeds. Indices are signed; an access outside
  the allocated slots is undefined. The new capacity is computed in single precision: \<open>f32\<close> rounds a natural number to the 24 bits of a
  \<open>float\<close>.

  \<open>vec_inv\<close> is the invariant. Under it the operations are those of a list of values with a default for skipped positions
  (\<open>vspec_op\<close>).
\<close>

section \<open>State\<close>

record hlt_vector =
  v_elems :: "val list"
  v_occupied :: "bool list"
  v_timers :: "ptr list option"
  v_last :: int
  v_capacity :: int
  v_def :: val
  v_tmgr :: ptr
  v_timeout :: nat
  v_strategy :: hlt_enum

record vec_world = list_world +
  vw_vecs :: "addr \<rightharpoonup> hlt_vector"

record vec_iter =
  vi_vec :: ptr
  vi_idx :: int

definition put_vec :: "addr \<Rightarrow> hlt_vector \<Rightarrow> 'a vec_world_scheme \<Rightarrow> 'a vec_world_scheme" where
  "put_vec v V w = w\<lparr>vw_vecs := (vw_vecs w)(v \<mapsto> V)\<rparr>"

text \<open>Access through a signed index.\<close>

definition ird :: "'a list \<Rightarrow> int \<Rightarrow> 'a option" where
  "ird xs i = (if 0 \<le> i then rd xs (nat i) else None)"

definition iwr :: "'a list \<Rightarrow> int \<Rightarrow> 'a \<Rightarrow> 'a list option" where
  "iwr xs i x = (if 0 \<le> i then wr xs (nat i) x else None)"

section \<open>Single precision\<close>

text \<open>
  The number of bits to drop so that 24 remain, and rounding to nearest with ties to even.
\<close>

function f32_shift :: "nat \<Rightarrow> nat" where
  "f32_shift n = (if n < 16777216 then 0 else Suc (f32_shift (n div 2)))"
  by pat_completeness auto

termination
  by (relation "measure id") auto

declare f32_shift.simps [simp del]

definition f32 :: "nat \<Rightarrow> nat" where
  "f32 n = (let s = f32_shift n; q = n div 2 ^ s; r = n mod 2 ^ s in
     (if 2 * r > 2 ^ s \<or> 2 * r = 2 ^ s \<and> odd q then q + 1 else q) * 2 ^ s)"

text \<open>Conversion of a floating-point value to \<open>int64_t\<close>; undefined when it does not fit.\<close>

definition f32_to_int64 :: "nat \<Rightarrow> int option" where
  "f32_to_int64 n = (if n < 9223372036854775808 then Some (int n) else None)"

text \<open>
  \<open>(c + 1) * GrowthFactor\<close>, times two: the factor is 1.5, so the product is a multiple of one half.
\<close>

definition grown2 :: "int \<Rightarrow> nat" where
  "grown2 c = f32 (3 * f32 (nat (c + 1)))"

definition push_capacity :: "int \<Rightarrow> int option" where
  "push_capacity c = f32_to_int64 (grown2 c div 2)"

text \<open>The loop of \<^verbatim>\<open>hlt_vector_set\<close>: \<open>while ( i >= c ) c *= (c + 1) * GrowthFactor\<close>.\<close>

partial_function (option) set_capacity :: "int \<Rightarrow> int \<Rightarrow> int option" where
  "set_capacity i c =
     (if i \<ge> c then do {
        c' \<leftarrow> f32_to_int64 (f32 (f32 (nat c) * grown2 c) div 2);
        set_capacity i c'
      } else Some c)"

declare set_capacity.simps [code]

section \<open>Operations\<close>

definition vec_access_entry ::
  "'a vec_world_scheme expiry_ops \<Rightarrow> addr \<Rightarrow> int \<Rightarrow> 'a vec_world_scheme \<Rightarrow> 'a vec_world_scheme option" where
  "vec_access_entry ops v i w = do {
     V \<leftarrow> vw_vecs w v;
     (if v_tmgr V = None \<or> \<not> hlt_enum_equal (v_strategy V) expire_strategy_access \<or> v_timeout V = 0
      then Some w
      else do {
        ts \<leftarrow> v_timers V;
        tm \<leftarrow> ird ts i;
        (if tm = None then Some w
         else do {
           now \<leftarrow> hlt_timer_mgr_current (v_tmgr V) w;
           hlt_timer_update ops tm (add64 now (v_timeout V)) w
         })
      })
   }"

definition vec_cancel_timer :: "addr \<Rightarrow> int \<Rightarrow> 'a vec_world_scheme \<Rightarrow> 'a vec_world_scheme option" where
  "vec_cancel_timer v i w = do {
     V \<leftarrow> vw_vecs w v;
     (case v_timers V of
        None \<Rightarrow> Some w
      | Some ts \<Rightarrow>
         (if v_tmgr V = None then Some w
          else do {
            tm \<leftarrow> ird ts i;
            (if tm = None then Some w
             else do {
               w1 \<leftarrow> hlt_timer_cancel tm w;
               ts1 \<leftarrow> iwr ts i None;
               Some (put_vec v (V\<lparr>v_timers := Some ts1\<rparr>) w1)
             })
          }))
   }"

definition vec_start_timer ::
  "'a vec_world_scheme expiry_ops \<Rightarrow> addr \<Rightarrow> int \<Rightarrow> 'a vec_world_scheme \<Rightarrow> 'a vec_world_scheme option" where
  "vec_start_timer ops v i w = do {
     V \<leftarrow> vw_vecs w v;
     (if v_tmgr V \<noteq> None \<and> v_timeout V \<noteq> 0 then do {
        let (a, w1) = hlt_timer_new (CVector v i) w;
        ts \<leftarrow> v_timers V;
        ts1 \<leftarrow> iwr ts i (Some a);
        let w2 = put_vec v (V\<lparr>v_timers := Some ts1\<rparr>) w1;
        now \<leftarrow> hlt_timer_mgr_current (v_tmgr V) w2;
        hlt_timer_mgr_schedule ops (v_tmgr V) (add64 now (v_timeout V)) a w2
      } else Some w)
   }"

definition vec_set_entry ::
  "'a vec_world_scheme expiry_ops \<Rightarrow> addr \<Rightarrow> int \<Rightarrow> val \<Rightarrow> 'a vec_world_scheme \<Rightarrow> 'a vec_world_scheme option" where
  "vec_set_entry ops v i x w = do {
     w1 \<leftarrow> vec_cancel_timer v i w;
     V \<leftarrow> vw_vecs w1 v;
     es \<leftarrow> iwr (v_elems V) i x;
     os \<leftarrow> iwr (v_occupied V) i True;
     vec_start_timer ops v i (put_vec v (V\<lparr>v_elems := es, v_occupied := os\<rparr>) w1)
   }"

definition hlt_vector_new :: "val \<Rightarrow> ptr \<Rightarrow> 'a vec_world_scheme \<Rightarrow> addr \<times> 'a vec_world_scheme" where
  "hlt_vector_new def tmgr w =
     (tw_next w,
      (put_vec (tw_next w)
         \<lparr>v_elems = [0], v_occupied = [False],
          v_timers = (case tmgr of None \<Rightarrow> None | Some _ \<Rightarrow> Some [None]),
          v_last = -1, v_capacity = 1, v_def = def, v_tmgr = tmgr, v_timeout = 0,
          v_strategy = hlt_enum_unset\<rparr> w)\<lparr>tw_next := tw_next w + 1\<rparr>)"

definition hlt_vector_timeout ::
  "addr \<Rightarrow> hlt_enum \<Rightarrow> nat \<Rightarrow> 'a vec_world_scheme \<Rightarrow> 'a vec_world_scheme option" where
  "hlt_vector_timeout v strategy timeout w = do {
     V \<leftarrow> vw_vecs w v;
     Some (put_vec v (V\<lparr>v_timeout := timeout, v_strategy := strategy,
        v_tmgr := (case v_tmgr V of None \<Rightarrow> Some (tw_ctx_tmgr w) | Some m \<Rightarrow> Some m)\<rparr>) w)
   }"

definition hlt_vector_get ::
  "'a vec_world_scheme expiry_ops \<Rightarrow> addr \<Rightarrow> int \<Rightarrow> 'a vec_world_scheme
   \<Rightarrow> (val option \<times> 'a vec_world_scheme) option" where
  "hlt_vector_get ops v i w = do {
     V \<leftarrow> vw_vecs w v;
     (if i > v_last V then Some (None, hlt_set_exception IndexError w)
      else do {
        w1 \<leftarrow> vec_access_entry ops v i w;
        V1 \<leftarrow> vw_vecs w1 v;
        x \<leftarrow> ird (v_elems V1) i;
        Some (Some x, w1)
      })
   }"

definition grow :: "int \<Rightarrow> 'b \<Rightarrow> 'b list \<Rightarrow> 'b list" where
  "grow k z xs = xs @ replicate (nat k) z"

definition hlt_vector_reserve :: "addr \<Rightarrow> int \<Rightarrow> 'a vec_world_scheme \<Rightarrow> 'a vec_world_scheme option" where
  "hlt_vector_reserve v n w = do {
     V \<leftarrow> vw_vecs w v;
     (if v_capacity V \<ge> n then Some w
      else let k = n - v_capacity V in
        Some (put_vec v (V\<lparr>v_elems := grow k 0 (v_elems V), v_occupied := grow k False (v_occupied V),
          v_timers := map_option (grow k None) (v_timers V), v_capacity := n\<rparr>) w))
   }"

text \<open>
  The loop of \<^verbatim>\<open>hlt_vector_set\<close> over the skipped positions. Its counter has type \<open>int\<close>, so that its
  initial value is reduced to 32 bits and incrementing it beyond their range is undefined.
\<close>

definition to_int32 :: "int \<Rightarrow> int" where
  "to_int32 k = (k + 2147483648) mod 4294967296 - 2147483648"

definition vec_fill_slot :: "int \<Rightarrow> hlt_vector \<Rightarrow> hlt_vector option" where
  "vec_fill_slot j V = do {
     es \<leftarrow> iwr (v_elems V) j (v_def V);
     (if v_tmgr V = None then Some (V\<lparr>v_elems := es\<rparr>)
      else do {
        ts \<leftarrow> v_timers V;
        ts1 \<leftarrow> iwr ts j None;
        Some (V\<lparr>v_elems := es, v_timers := Some ts1\<rparr>)
      })
   }"

function vec_fill :: "int \<Rightarrow> int \<Rightarrow> hlt_vector \<Rightarrow> hlt_vector option" where
  "vec_fill j i V =
     (if j \<le> i then do {
        V1 \<leftarrow> vec_fill_slot j V;
        (if j = 2147483647 then None else vec_fill (j + 1) i V1)
      } else Some V)"
  by pat_completeness auto

termination
  by (relation "measure (\<lambda>(j, i, _). nat (i + 1 - j))") auto

declare vec_fill.simps [simp del]

definition hlt_vector_set ::
  "'a vec_world_scheme expiry_ops \<Rightarrow> addr \<Rightarrow> int \<Rightarrow> val \<Rightarrow> 'a vec_world_scheme \<Rightarrow> 'a vec_world_scheme option" where
  "hlt_vector_set ops v i x w = do {
     V \<leftarrow> vw_vecs w v;
     w1 \<leftarrow> (if i \<ge> v_capacity V then do {
              c \<leftarrow> set_capacity i (v_capacity V);
              hlt_vector_reserve v c w
            } else Some w);
     V1 \<leftarrow> vw_vecs w1 v;
     V2 \<leftarrow> vec_fill (to_int32 (v_last V1 + 1)) i V1;
     let V3 = (if i > v_last V2 then V2\<lparr>v_last := i\<rparr> else V2);
     vec_set_entry ops v i x (put_vec v V3 w1)
   }"

definition hlt_vector_exists :: "addr \<Rightarrow> int \<Rightarrow> 'a vec_world_scheme \<Rightarrow> bool option" where
  "hlt_vector_exists v i w = do {
     V \<leftarrow> vw_vecs w v;
     (if i > v_last V then Some False else ird (v_occupied V) i)
   }"

definition hlt_vector_push_back ::
  "'a vec_world_scheme expiry_ops \<Rightarrow> addr \<Rightarrow> val \<Rightarrow> 'a vec_world_scheme \<Rightarrow> 'a vec_world_scheme option" where
  "hlt_vector_push_back ops v x w = do {
     V \<leftarrow> vw_vecs w v;
     let last = v_last V + 1;
     let w1 = put_vec v (V\<lparr>v_last := last\<rparr>) w;
     w2 \<leftarrow> (if last \<ge> v_capacity V then do {
              c \<leftarrow> push_capacity (v_capacity V);
              hlt_vector_reserve v c w1
            } else Some w1);
     V2 \<leftarrow> vw_vecs w2 v;
     (if \<not> last < v_capacity V2 then None
      else if v_tmgr V2 = None then vec_set_entry ops v last x w2
      else do {
        ts \<leftarrow> v_timers V2;
        ts1 \<leftarrow> iwr ts last None;
        vec_set_entry ops v last x (put_vec v (V2\<lparr>v_timers := Some ts1\<rparr>) w2)
      })
   }"

definition hlt_vector_size :: "addr \<Rightarrow> 'a vec_world_scheme \<Rightarrow> int option" where
  "hlt_vector_size v w = map_option (\<lambda>V. v_last V + 1) (vw_vecs w v)"

definition hlt_vector_expire :: "addr \<Rightarrow> int \<Rightarrow> 'a vec_world_scheme \<Rightarrow> 'a vec_world_scheme option" where
  "hlt_vector_expire v i w = do {
     V \<leftarrow> vw_vecs w v;
     V1 \<leftarrow> (if v_tmgr V = None then Some V
            else do { ts \<leftarrow> v_timers V; ts1 \<leftarrow> iwr ts i None; Some (V\<lparr>v_timers := Some ts1\<rparr>) });
     os \<leftarrow> iwr (v_occupied V1) i False;
     es \<leftarrow> iwr (v_elems V1) i (v_def V1);
     Some (put_vec v (V1\<lparr>v_occupied := os, v_elems := es\<rparr>) w)
   }"

definition hlt_vector_begin :: "addr \<Rightarrow> 'a vec_world_scheme \<Rightarrow> vec_iter option" where
  "hlt_vector_begin v w =
     map_option (\<lambda>V. \<lparr>vi_vec = (if v_last V \<ge> 0 then Some v else None), vi_idx = 0\<rparr>) (vw_vecs w v)"

definition hlt_vector_end :: vec_iter where
  "hlt_vector_end = \<lparr>vi_vec = None, vi_idx = 0\<rparr>"

definition hlt_iterator_vector_incr :: "vec_iter \<Rightarrow> 'a vec_world_scheme \<Rightarrow> vec_iter option" where
  "hlt_iterator_vector_incr i w =
     (case vi_vec i of
        None \<Rightarrow> Some i
      | Some v \<Rightarrow> do {
          V \<leftarrow> vw_vecs w v;
          Some (if vi_idx i + 1 > v_last V then \<lparr>vi_vec = None, vi_idx = 0\<rparr>
                else i\<lparr>vi_idx := vi_idx i + 1\<rparr>)
        })"

definition hlt_iterator_vector_deref ::
  "'a vec_world_scheme expiry_ops \<Rightarrow> vec_iter \<Rightarrow> 'a vec_world_scheme
   \<Rightarrow> (val option \<times> 'a vec_world_scheme) option" where
  "hlt_iterator_vector_deref ops i w =
     (case vi_vec i of
        None \<Rightarrow> Some (None, hlt_set_exception InvalidIterator w)
      | Some v \<Rightarrow> do {
          w1 \<leftarrow> vec_access_entry ops v (vi_idx i) w;
          V \<leftarrow> vw_vecs w1 v;
          x \<leftarrow> ird (v_elems V) (vi_idx i);
          Some (Some x, w1)
        })"

definition hlt_iterator_vector_eq ::
  "'a vec_world_scheme expiry_ops \<Rightarrow> vec_iter \<Rightarrow> vec_iter \<Rightarrow> 'a vec_world_scheme
   \<Rightarrow> (bool \<times> 'a vec_world_scheme) option" where
  "hlt_iterator_vector_eq ops i1 i2 w = do {
     w1 \<leftarrow> (case vi_vec i1 of None \<Rightarrow> Some w | Some v \<Rightarrow> vec_access_entry ops v (vi_idx i1) w);
     w2 \<leftarrow> (case vi_vec i2 of None \<Rightarrow> Some w1 | Some v \<Rightarrow> vec_access_entry ops v (vi_idx i2) w1);
     Some (vi_vec i1 = vi_vec i2 \<and> vi_idx i1 = vi_idx i2, w2)
   }"

text \<open>
  Cloning. An element is copied as a value. The clone's timers are new ones, preset to the time of the originals, and are scheduled by
  \<^verbatim>\<open>_clone_init_in_thread\<close>, which \<^verbatim>\<open>__hlt_clone_init_in_thread\<close> calls when the clone is for the current thread (\<open>here\<close>).
\<close>

definition vec_clone_timer ::
  "addr \<Rightarrow> nat \<Rightarrow> ptr \<Rightarrow> 'a vec_world_scheme \<Rightarrow> (ptr \<times> 'a vec_world_scheme) option" where
  "vec_clone_timer dst i tm w =
     (case tm of
        None \<Rightarrow> Some (None, w)
      | Some b \<Rightarrow> do {
          st \<leftarrow> tw_timers w b;
          let (a, w1) = hlt_timer_new (CVector dst (int i)) w;
          t \<leftarrow> tw_timers w1 a;
          Some (Some a, w1\<lparr>tw_timers := (tw_timers w1)(a \<mapsto> t\<lparr>timer_time := timer_time st\<rparr>)\<rparr>)
        })"

fun vec_clone_timers ::
  "addr \<Rightarrow> nat \<Rightarrow> ptr list \<Rightarrow> 'a vec_world_scheme \<Rightarrow> (ptr list \<times> 'a vec_world_scheme) option" where
  "vec_clone_timers dst i [] w = Some ([], w)"
| "vec_clone_timers dst i (tm # tms) w = do {
     (t, w1) \<leftarrow> vec_clone_timer dst i tm w;
     (ts, w2) \<leftarrow> vec_clone_timers dst (i + 1) tms w1;
     Some (t # ts, w2)
   }"

fun vec_schedule_all ::
  "'a vec_world_scheme expiry_ops \<Rightarrow> ptr \<Rightarrow> ptr list \<Rightarrow> 'a vec_world_scheme \<Rightarrow> 'a vec_world_scheme option" where
  "vec_schedule_all ops m [] w = Some w"
| "vec_schedule_all ops m (None # ts) w = vec_schedule_all ops m ts w"
| "vec_schedule_all ops m (Some a # ts) w = do {
     t \<leftarrow> tw_timers w a;
     w1 \<leftarrow> hlt_timer_mgr_schedule ops m (timer_time t) a w;
     vec_schedule_all ops m ts w1
   }"

definition vec_clone_init_in_thread ::
  "'a vec_world_scheme expiry_ops \<Rightarrow> addr \<Rightarrow> 'a vec_world_scheme \<Rightarrow> 'a vec_world_scheme option" where
  "vec_clone_init_in_thread ops dst w = do {
     D \<leftarrow> vw_vecs w dst;
     let w1 = put_vec dst (D\<lparr>v_tmgr := Some (tw_ctx_tmgr w)\<rparr>) w;
     ts \<leftarrow> v_timers D;
     vec_schedule_all ops (Some (tw_ctx_tmgr w)) (take (nat (v_last D + 1)) ts) w1
   }"

definition hlt_vector_clone_init ::
  "'a vec_world_scheme expiry_ops \<Rightarrow> bool \<Rightarrow> addr \<Rightarrow> addr \<Rightarrow> 'a vec_world_scheme \<Rightarrow> 'a vec_world_scheme option" where
  "hlt_vector_clone_init ops here dst src w = do {
     S \<leftarrow> vw_vecs w src;
     let n = nat (v_last S + 1);
     let cap = nat (v_capacity S);
     (if v_tmgr S \<noteq> None \<and> v_tmgr S \<noteq> Some (tw_ctx_tmgr w) then Some (hlt_set_exception CloningNotSupported w)
      else do {
        (dts, w1) \<leftarrow> (case v_timers S of
           None \<Rightarrow> Some (None, w)
         | Some ts \<Rightarrow>
            (if v_timeout S = 0 then Some (None, w)
             else map_option (\<lambda>(us, w1). (Some (us @ replicate (cap - n) None), w1))
               (vec_clone_timers dst 0 (take n ts) w)));
        let w2 = put_vec dst (S\<lparr>v_elems := take n (v_elems S) @ replicate (cap - n) 0,
                v_timers := dts, v_tmgr := None\<rparr>) w1;
        (if v_tmgr S = None then Some w2
         else if here then vec_clone_init_in_thread ops dst w2
         else Some (hlt_set_exception NotImplemented w2))
      })
   }"

section \<open>Growth\<close>

lemma f32_shift_bound: "f32_shift n \<noteq> 0 \<Longrightarrow> 8388608 * 2 ^ f32_shift n \<le> n"
proof (induction n rule: f32_shift.induct)
  case (1 n)
  then have big: "\<not> n < 16777216" by (auto simp: f32_shift.simps [of n])
  then have s: "f32_shift n = Suc (f32_shift (n div 2))" by (simp add: f32_shift.simps [of n])
  show ?case
  proof (cases "f32_shift (n div 2) = 0")
    case True
    then show ?thesis using s big by simp
  next
    case False
    from "1.IH" [OF big False] have "2 * (8388608 * 2 ^ f32_shift (n div 2)) \<le> 2 * (n div 2)" by linarith
    also have "\<dots> \<le> n" by simp
    finally show ?thesis using s by simp
  qed
qed

text \<open>Rounding changes a number by at most one part in \<open>2 ^ 24\<close>.\<close>

lemma f32_bounds: "16777215 * n \<le> 16777216 * f32 n" "16777216 * f32 n \<le> 16777217 * n"
proof -
  let ?s = "f32_shift n" let ?p = "2 ^ f32_shift n :: nat" let ?q = "n div ?p" let ?r = "n mod ?p"
  have n: "n = ?q * ?p + ?r" by (rule div_mult_mod_eq [symmetric])
  have f: "f32 n = (if 2 * ?r > ?p \<or> 2 * ?r = ?p \<and> odd ?q then ?q + 1 else ?q) * ?p"
    by (simp add: f32_def Let_def)
  have r: "?r < ?p" by simp
  have "16777215 * n \<le> 16777216 * f32 n \<and> 16777216 * f32 n \<le> 16777217 * n"
  proof (cases "?s = 0")
    case True
    then have "f32 n = n" using f by simp
    then show ?thesis by simp
  next
    case False
    note b = f32_shift_bound [OF False]
    show ?thesis
    proof (cases "2 * ?r > ?p \<or> 2 * ?r = ?p \<and> odd ?q")
      case True
      then have "f32 n = ?q * ?p + ?p" "?p \<le> 2 * ?r" using f by auto
      then show ?thesis using n b r by linarith
    next
      case False
      then have "f32 n = ?q * ?p" "2 * ?r \<le> ?p" using f by auto
      then show ?thesis using n b by linarith
    qed
  qed
  then show "16777215 * n \<le> 16777216 * f32 n" "16777216 * f32 n \<le> 16777217 * n" by auto
qed

lemma grown2_bounds: "0 \<le> c \<Longrightarrow> 2 * nat (c + 1) \<le> grown2 c \<and> grown2 c \<le> 4 * nat (c + 1)"
  unfolding grown2_def using f32_bounds [of "nat (c + 1)"] f32_bounds [of "3 * f32 (nat (c + 1))"]
  by linarith

lemma push_capacity_ok:
  assumes "0 \<le> c" "c < 2147483648"
  shows "\<exists>c'. push_capacity c = Some c' \<and> c < c'"
  unfolding push_capacity_def f32_to_int64_def using grown2_bounds [OF assms(1)] assms(2) by auto

lemma f32_small: "p \<le> (2147483648 + 256) * (3 * 2147483648 + 1024) \<Longrightarrow> f32 p div 2 < 9223372036854775808"
  using f32_bounds(2) [of p] by simp

lemma set_step_ok:
  assumes "1 \<le> c" "c < 2147483648"
  shows "\<exists>c'. f32_to_int64 (f32 (f32 (nat c) * grown2 c) div 2) = Some c' \<and> c < c'"
proof -
  let ?p = "f32 (nat c) * grown2 c"
  have g: "2 * nat (c + 1) \<le> grown2 c" "grown2 c \<le> 4 * nat (c + 1)" using grown2_bounds [of c] assms by auto
  note b = f32_bounds [of "nat c"] and bp = f32_bounds [of ?p]
  have "f32 (nat c) * 4 \<le> ?p" using g assms by (intro mult_left_mono) auto
  then have lo: "nat c < f32 ?p div 2" using b(1) bp(1) assms(1) by linarith
  have hi: "grown2 c \<le> 3 * 2147483648 + 1024"
    using f32_bounds [of "nat (c + 1)"] f32_bounds [of "3 * f32 (nat (c + 1))"] assms
    unfolding grown2_def by linarith
  have "f32 (nat c) \<le> 2147483648 + 256" using b(2) assms by linarith
  from mult_mono [OF this hi] have "?p \<le> (2147483648 + 256) * (3 * 2147483648 + 1024)" by simp
  then have "f32 ?p div 2 < 9223372036854775808" by (rule f32_small)
  then show ?thesis using lo assms by (auto simp: f32_to_int64_def)
qed

lemma set_capacity_ok:
  assumes "1 \<le> c" "i < 2147483648"
  shows "\<exists>c'. set_capacity i c = Some c' \<and> i < c' \<and> c \<le> c'"
  using assms
proof (induction "nat (i + 1 - c)" arbitrary: c rule: less_induct)
  case less
  show ?case
  proof (cases "i \<ge> c")
    case True
    from set_step_ok [of c] less.prems True obtain c1 where
      c1: "f32_to_int64 (f32 (f32 (nat c) * grown2 c) div 2) = Some c1" "c < c1" by auto
    have "nat (i + 1 - c1) < nat (i + 1 - c)" using c1(2) True by simp
    from less.hyps [OF this] less.prems c1(2) obtain c' where
      "set_capacity i c1 = Some c'" "i < c'" "c1 \<le> c'" by auto
    then show ?thesis using c1 True by (subst set_capacity.simps) auto
  next
    case False
    then show ?thesis by (subst set_capacity.simps) auto
  qed
qed

section \<open>The invariant\<close>

text \<open>
  \<open>vec_shape\<close>: the arrays have the length of the capacity, the last index is inside, and no slot after it is assigned.
  \<open>vec_links\<close>: the timer of a slot is scheduled with the vector's manager, names the slot, and is not later than
  the time at which a timer started now would be.
\<close>

definition vec_shape :: "hlt_vector \<Rightarrow> bool" where
  "vec_shape V \<longleftrightarrow> 1 \<le> v_capacity V \<and> -1 \<le> v_last V \<and> v_last V < v_capacity V \<and>
     length (v_elems V) = nat (v_capacity V) \<and> length (v_occupied V) = nat (v_capacity V) \<and>
     (\<forall>j < length (v_occupied V). v_last V < int j \<longrightarrow> \<not> v_occupied V ! j) \<and>
     (\<forall>ts. v_timers V = Some ts \<longrightarrow> length ts = nat (v_capacity V)) \<and>
     (v_tmgr V \<noteq> None \<longrightarrow> v_timers V \<noteq> None)"

definition slot_timer_ok :: "addr \<Rightarrow> hlt_vector \<Rightarrow> addr \<Rightarrow> 'a timer_world_scheme \<Rightarrow> nat \<Rightarrow> addr \<Rightarrow> bool" where
  "slot_timer_ok v V m w j a \<longleftrightarrow> link_of (tw_timers w) a = Some (Some m, CVector v (int j)) \<and>
     (\<forall>now. clocks w m = Some now \<longrightarrow> pri (tw_timers w) a \<le> now + v_timeout V)"

definition vec_links :: "addr \<Rightarrow> hlt_vector \<Rightarrow> 'a timer_world_scheme \<Rightarrow> bool" where
  "vec_links v V w \<longleftrightarrow> (\<forall>m. v_tmgr V = Some m \<longrightarrow> mgr_inv m w \<and>
     (\<forall>ts j a. v_timers V = Some ts \<longrightarrow> j < length ts \<longrightarrow> int j \<le> v_last V \<longrightarrow> ts ! j = Some a \<longrightarrow>
        slot_timer_ok v V m w j a))"

definition vec_inv :: "addr \<Rightarrow> hlt_vector \<Rightarrow> 'a vec_world_scheme \<Rightarrow> bool" where
  "vec_inv v V w \<longleftrightarrow> vw_vecs w v = Some V \<and> vec_shape V \<and> vec_links v V w"

text \<open>Addresses from the allocation mark on carry no timers; the clock plus the timeout fits into 64 bits.\<close>

definition fresh_timers :: "'a timer_world_scheme \<Rightarrow> bool" where
  "fresh_timers w \<longleftrightarrow> (\<forall>a \<ge> tw_next w. tw_timers w a = None)"

definition vec_clock :: "hlt_vector \<Rightarrow> 'a timer_world_scheme \<Rightarrow> bool" where
  "vec_clock V w \<longleftrightarrow> (\<forall>m now. v_tmgr V = Some m \<longrightarrow> clocks w m = Some now \<longrightarrow> now + v_timeout V \<le> max64)"

text \<open>What an operation on vector \<open>v\<close> leaves alone.\<close>

definition vec_same :: "addr \<Rightarrow> 'a vec_world_scheme \<Rightarrow> 'a vec_world_scheme \<Rightarrow> bool" where
  "vec_same v w w' \<longleftrightarrow> (\<forall>u. u \<noteq> v \<longrightarrow> vw_vecs w' u = vw_vecs w u) \<and> lw_nodes w' = lw_nodes w \<and>
     lw_lists w' = lw_lists w \<and> tw_excpt w' = tw_excpt w \<and> tw_ctx_tmgr w' = tw_ctx_tmgr w \<and>
     clocks w' = clocks w \<and> (fresh_timers w \<longrightarrow> fresh_timers w')"

definition vconf :: "hlt_vector \<Rightarrow> int \<times> val \<times> ptr \<times> nat \<times> hlt_enum" where
  "vconf V = (v_last V, v_def V, v_tmgr V, v_timeout V, v_strategy V)"

lemma vec_same_refl: "vec_same v w w"
  by (simp add: vec_same_def)

lemma vec_same_trans: "vec_same v w w1 \<Longrightarrow> vec_same v w1 w2 \<Longrightarrow> vec_same v w w2"
  by (simp add: vec_same_def)

lemma vec_same_clocks: "vec_same v w w' \<Longrightarrow> clocks w' = clocks w" "vec_same v w w' \<Longrightarrow> fresh_timers w \<Longrightarrow> fresh_timers w'"
  by (simp_all add: vec_same_def)

lemma vec_clock_cong: "vconf V' = vconf V \<Longrightarrow> clocks w' = clocks w \<Longrightarrow> vec_clock V' w' \<longleftrightarrow> vec_clock V w"
  by (simp add: vec_clock_def vconf_def)

lemma put_vec_simps [simp]:
  "vw_vecs (put_vec v V w) = (vw_vecs w)(v \<mapsto> V)" "tw_timers (put_vec v V w) = tw_timers w" "tw_mgrs (put_vec v V w) = tw_mgrs w"
  "tw_next (put_vec v V w) = tw_next w" "tw_ctx_tmgr (put_vec v V w) = tw_ctx_tmgr w" "tw_excpt (put_vec v V w) = tw_excpt w"
  "lw_nodes (put_vec v V w) = lw_nodes w" "lw_lists (put_vec v V w) = lw_lists w"
  "clocks (put_vec v V w) = clocks w" "the_mgr mgr (put_vec v V w) = the_mgr mgr w"
  by (simp_all add: put_vec_def clocks_def the_mgr_def fun_eq_iff split: option.splits)

lemma put_vec_fresh [simp]: "fresh_timers (put_vec v V w) \<longleftrightarrow> fresh_timers w"
  by (simp add: fresh_timers_def)

lemma put_vec_same: "vec_same v w (put_vec v V w)"
  by (simp add: vec_same_def)

lemma put_vec_mgr_inv [simp]: "mgr_inv m (put_vec v V w) \<longleftrightarrow> mgr_inv m w"
  by (rule mgr_inv_cong) simp_all

lemma put_vec_links [simp]: "vec_links u U (put_vec v V w) \<longleftrightarrow> vec_links u U w"
  by (simp add: vec_links_def slot_timer_ok_def)

lemma erase_vecs:
  assumes "erase w' = erase w"
  shows "vw_vecs w' = vw_vecs w" using arg_cong [OF assms, of vw_vecs] by (simp add: erase_def)

text \<open>The timer operations change neither the containers nor the clocks.\<close>

lemma timer_op_same:
  assumes "erase w' = erase w" "clocks w' = clocks w" "\<forall>a. link_of (tw_timers w) a = None \<longrightarrow> link_of (tw_timers w') a = None"
  shows "vec_same v w w'"
  using erase_fields [OF assms(1)] erase_vecs [OF assms(1)] assms(2,3)
  by (simp add: vec_same_def fresh_timers_def link_of_def)

lemma ird_in [safe_simps]: "0 \<le> i \<Longrightarrow> i < int (length xs) \<Longrightarrow> ird xs i = Some (xs ! nat i)"
  by (simp add: ird_def rd_def nat_less_iff)

lemma iwr_in [safe_simps]: "0 \<le> i \<Longrightarrow> i < int (length xs) \<Longrightarrow> iwr xs i x = Some (xs[nat i := x])"
  by (simp add: iwr_def wr_def nat_less_iff)

section \<open>Assigning a slot\<close>

lemma cancel_timer_ok:
  assumes inv: "vec_inv v V w" and i: "0 \<le> i" "i \<le> v_last V"
  shows "\<exists>w' V'. vec_cancel_timer v i w = Some w' \<and> vec_inv v V' w' \<and> v_elems V' = v_elems V \<and>
    v_occupied V' = v_occupied V \<and> vconf V' = vconf V \<and> v_capacity V' = v_capacity V \<and> vec_same v w w' \<and>
    (\<forall>ts. v_tmgr V' \<noteq> None \<longrightarrow> v_timers V' = Some ts \<longrightarrow> ts ! nat i = None)"
proof -
  from inv have V: "vw_vecs w v = Some V" and sh: "vec_shape V" and li: "vec_links v V w" by (auto simp: vec_inv_def)
  show ?thesis
  proof (cases "\<exists>ts a. v_timers V = Some ts \<and> v_tmgr V \<noteq> None \<and> ts ! nat i = Some a")
    case False
    then have "vec_cancel_timer v i w = Some w"
      using V i sh by (auto simp: vec_cancel_timer_def vec_shape_def safe_simps split: option.splits)
    moreover have "\<forall>ts. v_tmgr V \<noteq> None \<longrightarrow> v_timers V = Some ts \<longrightarrow> ts ! nat i = None" using False by auto
    ultimately show ?thesis using inv vec_same_refl by blast
  next
    case True
    then obtain ts a m where ts: "v_timers V = Some ts" "v_tmgr V = Some m" "ts ! nat i = Some a" by auto
    have len: "i < int (length ts)" using sh ts i by (simp add: vec_shape_def)
    from li ts len i have mi: "mgr_inv m w" and st: "\<And>j b. j < length ts \<Longrightarrow> int j \<le> v_last V \<Longrightarrow> ts ! j = Some b \<Longrightarrow>
      slot_timer_ok v V m w j b" by (auto simp: vec_links_def)
    have la: "link_of (tw_timers w) a = Some (Some m, CVector v i)"
      using st [of "nat i" a] len i ts(3) by (simp add: slot_timer_ok_def nat_less_iff)
    then obtain tm where tm: "tw_timers w a = Some tm" "timer_mgr tm = Some m" "cookie tm = CVector v i"
      by (auto simp: link_of_def)
    from cancel_ok [OF mi tm(1,2)] obtain w1 where
      c: "hlt_timer_cancel (Some a) w = Some w1" "mgr_inv m w1" "erase w1 = erase w" "clocks w1 = clocks w"
        "link_of (tw_timers w1) = (link_of (tw_timers w))(a \<mapsto> (None, cookie tm))"
        "\<forall>b. b \<noteq> a \<longrightarrow> pri (tw_timers w1) b = pri (tw_timers w) b" by blast
    let ?V = "V\<lparr>v_timers := Some (ts[nat i := None])\<rparr>" let ?w = "put_vec v ?V w1"
    have run: "vec_cancel_timer v i w = Some ?w"
      using V ts len i c(1) by (simp add: vec_cancel_timer_def safe_simps)
    have other: "slot_timer_ok v ?V m w1 j b" if "j < length ts" "int j \<le> v_last V" "ts ! j = Some b" "j \<noteq> nat i" for j b
    proof -
      have s: "slot_timer_ok v V m w j b" using st that by blast
      then have "b \<noteq> a" using la that(4) by (auto simp: slot_timer_ok_def)
      then show ?thesis using s c by (simp add: slot_timer_ok_def)
    qed
    have "vec_links v ?V w1"
      unfolding vec_links_def
    proof (intro allI impI conjI)
      fix m' assume m': "v_tmgr ?V = Some m'"
      then show "mgr_inv m' w1" using ts c(2) by simp
      fix us j b assume j: "v_timers ?V = Some us" "j < length us" "int j \<le> v_last ?V" "us ! j = Some b"
      then have "j \<noteq> nat i" by auto
      then show "slot_timer_ok v ?V m' w1 j b" using other [of j b] j ts m' by auto
    qed
    then have "vec_inv v ?V ?w" using sh ts by (simp add: vec_inv_def vec_shape_def)
    moreover have "vec_same v w w1" by (rule timer_op_same [OF c(3,4)]) (use c(5) la in auto)
    then have "vec_same v w ?w" using vec_same_trans put_vec_same by blast
    ultimately show ?thesis using run len i
      by (intro exI [of _ ?w] exI [of _ ?V]) (simp add: vconf_def nat_less_iff)
  qed
qed

lemma start_timer_ok:
  assumes inv: "vec_inv v V w" and i: "0 \<le> i" "i \<le> v_last V"
    and none: "\<forall>ts. v_tmgr V \<noteq> None \<longrightarrow> v_timers V = Some ts \<longrightarrow> ts ! nat i = None"
    and fr: "fresh_timers w" and ck: "vec_clock V w"
  shows "\<exists>w' V'. vec_start_timer ops v i w = Some w' \<and> vec_inv v V' w' \<and> v_elems V' = v_elems V \<and>
    v_occupied V' = v_occupied V \<and> vconf V' = vconf V \<and> v_capacity V' = v_capacity V \<and> vec_same v w w'"
proof (cases "v_tmgr V \<noteq> None \<and> v_timeout V \<noteq> 0")
  case False
  then have "vec_start_timer ops v i w = Some w" using inv by (auto simp: vec_start_timer_def vec_inv_def)
  then show ?thesis using inv vec_same_refl by blast
next
  case True
  from inv have V: "vw_vecs w v = Some V" and sh: "vec_shape V" and li: "vec_links v V w" by (auto simp: vec_inv_def)
  obtain m where m: "v_tmgr V = Some m" using True by auto
  then obtain ts where ts: "v_timers V = Some ts" using sh by (auto simp: vec_shape_def)
  have len: "i < int (length ts)" using sh ts i by (simp add: vec_shape_def)
  from li m ts have mi: "mgr_inv m w" and st: "\<And>j b. j < length ts \<Longrightarrow> int j \<le> v_last V \<Longrightarrow> ts ! j = Some b \<Longrightarrow>
    slot_timer_ok v V m w j b" by (auto simp: vec_links_def)
  obtain mg where mg: "tw_mgrs w m = Some mg" using mi unfolding mgr_inv_def queue_inv_def by auto
  let ?a = "tw_next w" let ?t = "mgr_time mg + v_timeout V"
  let ?tm = "\<lparr>timer_mgr = None, timer_time = hlt_time_unset, queue_pos = 0, cookie = CVector v i\<rparr>"
  let ?V = "V\<lparr>v_timers := Some (ts[nat i := Some ?a])\<rparr>"
  let ?w2 = "put_vec v ?V (w\<lparr>tw_timers := (tw_timers w)(?a \<mapsto> ?tm), tw_next := ?a + 1\<rparr>)"
  have t: "add64 (mgr_time mg) (v_timeout V) = ?t" "mgr_time mg < ?t"
    using ck m mg True by (auto simp: vec_clock_def clocks_def intro!: add64_exact)
  have fa: "tw_timers w ?a = None" using fr by (auto simp: fresh_timers_def)
  have mi2: "mgr_inv m ?w2" by (rule mgr_inv_new_timer [OF mi fa]) auto
  have tme: "the_mgr (v_tmgr V) ?w2 = m" using m by (simp add: the_mgr_def)
  from schedule_ok [of "v_tmgr V" ?w2 mg ?t ?a ?tm ops] mi2 tme mg t(2) obtain w' where
    w': "hlt_timer_mgr_schedule ops (v_tmgr V) ?t ?a ?w2 = Some w'" "mgr_inv m w'" "erase w' = erase ?w2" "pri (tw_timers w') ?a = ?t"
      "link_of (tw_timers w') = (link_of (tw_timers ?w2))(?a \<mapsto> (Some m, CVector v i))"
      "clocks w' = clocks ?w2" "\<And>b. b \<noteq> ?a \<Longrightarrow> pri (tw_timers w') b = pri (tw_timers ?w2) b" by auto
  have run: "vec_start_timer ops v i w = Some w'"
    using V m ts mg t(1) True len i w'(1)
    by (simp add: vec_start_timer_def hlt_timer_new_def hlt_timer_mgr_current_def the_mgr_def safe_simps)
  have ck': "clocks w' = clocks w" using w'(6) by (simp add: clocks_def fun_eq_iff)
  have now: "clocks w m = Some (mgr_time mg)" using mg by (simp add: clocks_def)
  have old: "slot_timer_ok v ?V m w' j b" if j: "j < length ts" "int j \<le> v_last V" "ts ! j = Some b" for j b
  proof -
    have s: "slot_timer_ok v V m w j b" using st j by blast
    then have "b \<noteq> ?a" using fa by (auto simp: slot_timer_ok_def link_of_def)
    then show ?thesis using s w'(5,7) ck' by (auto simp: slot_timer_ok_def link_of_def pri_def)
  qed
  have "vec_links v ?V w'"
    unfolding vec_links_def
  proof (intro allI impI conjI)
    fix m' assume m': "v_tmgr ?V = Some m'"
    then show "mgr_inv m' w'" using m w'(2) by simp
    fix us j b assume j: "v_timers ?V = Some us" "j < length us" "int j \<le> v_last ?V" "us ! j = Some b"
    show "slot_timer_ok v ?V m' w' j b"
    proof (cases "j = nat i")
      case True
      then show ?thesis using j m' m i w'(4,5) ck' now by (auto simp: slot_timer_ok_def)
    next
      case False
      then show ?thesis using old [of j b] j m' m by auto
    qed
  qed
  moreover have "vw_vecs w' v = Some ?V" using erase_vecs [OF w'(3)] by simp
  ultimately have "vec_inv v ?V w'" using sh ts by (simp add: vec_inv_def vec_shape_def)
  moreover have "fresh_timers w'"
    unfolding fresh_timers_def
  proof (intro allI impI)
    fix b assume b: "tw_next w' \<le> b"
    then have ge: "?a < b" using erase_fields(3) [OF w'(3)] by simp
    then have "link_of (tw_timers w') b = link_of (tw_timers w) b" using w'(5) by (simp add: link_of_def)
    then show "tw_timers w' b = None" using fr ge by (auto simp: fresh_timers_def link_of_def)
  qed
  then have "vec_same v w w'"
    using erase_fields [OF w'(3)] erase_vecs [OF w'(3)] ck' by (auto simp: vec_same_def)
  ultimately show ?thesis using run by (intro exI [of _ w'] exI [of _ ?V]) (simp add: vconf_def)
qed

lemma set_entry_ok:
  assumes inv: "vec_inv v V w" and i: "0 \<le> i" "i \<le> v_last V" and fr: "fresh_timers w" and ck: "vec_clock V w"
  shows "\<exists>w' V'. vec_set_entry ops v i x w = Some w' \<and> vec_inv v V' w' \<and> v_elems V' = (v_elems V)[nat i := x] \<and>
    v_occupied V' = (v_occupied V)[nat i := True] \<and> vconf V' = vconf V \<and> v_capacity V' = v_capacity V \<and> vec_same v w w'"
proof -
  from cancel_timer_ok [OF inv i] obtain w1 V1 where
    c: "vec_cancel_timer v i w = Some w1" "vec_inv v V1 w1" "v_elems V1 = v_elems V" "v_occupied V1 = v_occupied V"
      "vconf V1 = vconf V" "v_capacity V1 = v_capacity V" "vec_same v w w1"
      "\<forall>ts. v_tmgr V1 \<noteq> None \<longrightarrow> v_timers V1 = Some ts \<longrightarrow> ts ! nat i = None" by blast
  have i1: "i \<le> v_last V1" using c(5) i by (simp add: vconf_def)
  have sh: "vec_shape V1" using c(2) by (simp add: vec_inv_def)
  have len: "i < int (length (v_elems V1))" "i < int (length (v_occupied V1))" using sh i1 i by (auto simp: vec_shape_def)
  let ?V = "V1\<lparr>v_elems := (v_elems V1)[nat i := x], v_occupied := (v_occupied V1)[nat i := True]\<rparr>"
  let ?w = "put_vec v ?V w1"
  have links: "vec_links v ?V w1 \<longleftrightarrow> vec_links v V1 w1" by (simp add: vec_links_def slot_timer_ok_def)
  have "\<not> ((v_occupied V1)[nat i := True]) ! j" if "j < length (v_occupied V1)" "v_last V1 < int j" for j
  proof -
    have "nat i \<noteq> j" using that i1 i by auto
    then show ?thesis using sh that by (simp add: vec_shape_def)
  qed
  then have inv1: "vec_inv v ?V ?w" using sh c(2) links by (simp add: vec_inv_def vec_shape_def)
  have conf: "vconf ?V = vconf V" using c(5) by (simp add: vconf_def)
  have "vec_clock ?V ?w" using ck vec_clock_cong [OF conf, of w1 w] vec_same_clocks(1) [OF c(7)]
    by (simp add: vec_clock_def)
  from start_timer_ok [OF inv1 i(1) _ _ _ this, of ops] i1 c(8) vec_same_clocks(2) [OF c(7) fr] obtain w' V' where
    s: "vec_start_timer ops v i ?w = Some w'" "vec_inv v V' w'" "v_elems V' = v_elems ?V" "v_occupied V' = v_occupied ?V"
      "vconf V' = vconf ?V" "v_capacity V' = v_capacity ?V" "vec_same v ?w w'" by auto
  have "vec_set_entry ops v i x w = Some w'"
    using c(1,2) s(1) len i by (simp add: vec_set_entry_def vec_inv_def safe_simps)
  moreover have "vec_same v w w'" using c(7) s(7) put_vec_same vec_same_trans by blast
  ultimately show ?thesis using s c conf by (intro exI [of _ w'] exI [of _ V']) simp
qed

section \<open>Growing and filling\<close>

lemma reserve_ok:
  assumes inv: "vec_inv v V w"
  shows "\<exists>w' V' k. hlt_vector_reserve v n w = Some w' \<and> vec_inv v V' w' \<and> vconf V' = vconf V \<and> vec_same v w w' \<and>
    v_elems V' = v_elems V @ replicate k 0 \<and> v_occupied V' = v_occupied V @ replicate k False \<and>
    v_capacity V' = max n (v_capacity V)"
proof (cases "v_capacity V \<ge> n")
  case True
  then have "hlt_vector_reserve v n w = Some w" using inv by (simp add: hlt_vector_reserve_def vec_inv_def)
  then show ?thesis using inv vec_same_refl True
    by (intro exI [of _ w] exI [of _ V] exI [of _ 0]) auto
next
  case False
  from inv have V: "vw_vecs w v = Some V" and sh: "vec_shape V" and li: "vec_links v V w" by (auto simp: vec_inv_def)
  let ?k = "n - v_capacity V"
  let ?V = "V\<lparr>v_elems := grow ?k 0 (v_elems V), v_occupied := grow ?k False (v_occupied V),
          v_timers := map_option (grow ?k None) (v_timers V), v_capacity := n\<rparr>"
  have "vec_shape ?V"
    using sh False unfolding vec_shape_def by (auto simp: grow_def nth_append nat_diff_distrib)
  moreover have "vec_links v ?V w"
    using li unfolding vec_links_def slot_timer_ok_def
    by (fastforce simp: grow_def nth_append split: if_splits)
  ultimately have "vec_inv v ?V (put_vec v ?V w)" by (simp add: vec_inv_def)
  then show ?thesis using V False
    by (intro exI [of _ "put_vec v ?V w"] exI [of _ ?V] exI [of _ "nat ?k"])
      (simp add: hlt_vector_reserve_def vconf_def grow_def Let_def put_vec_same)
qed

text \<open>
  Filling the positions from \<open>j\<close> to \<open>i\<close> with the default; the shape is that of a vector that ends before \<open>j\<close>.
\<close>

lemma fill_slot_ok:
  assumes sh: "vec_shape V" and j: "v_last V < j" "0 \<le> j" "j < v_capacity V"
  shows "\<exists>V'. vec_fill_slot j V = Some V' \<and> vec_shape V' \<and> vconf V' = vconf V \<and> v_capacity V' = v_capacity V \<and>
    v_elems V' = (v_elems V)[nat j := v_def V] \<and> v_occupied V' = v_occupied V \<and>
    (\<forall>ts ts'. v_timers V = Some ts \<longrightarrow> v_timers V' = Some ts' \<longrightarrow>
       (v_tmgr V \<noteq> None \<longrightarrow> ts' ! nat j = None) \<and> (\<forall>k. k \<noteq> nat j \<longrightarrow> ts' ! k = ts ! k)) \<and>
    (v_timers V' = None \<longleftrightarrow> v_timers V = None)"
proof (cases "v_tmgr V")
  case None
  then show ?thesis using sh j by (auto simp: vec_fill_slot_def vec_shape_def vconf_def safe_simps)
next
  case (Some m)
  then obtain ts where ts: "v_timers V = Some ts" using sh by (auto simp: vec_shape_def)
  then show ?thesis using sh j Some
    by (auto simp: vec_fill_slot_def vec_shape_def vconf_def safe_simps)
qed

lemma fill_ok:
  assumes "vec_shape V" "v_last V < j" "0 \<le> j" "j \<le> i + 1" "i < v_capacity V" "i < 2147483647"
  shows "\<exists>V'. vec_fill j i V = Some V' \<and> vec_shape V' \<and> vconf V' = vconf V \<and> v_capacity V' = v_capacity V \<and>
    v_elems V' = take (nat j) (v_elems V) @ replicate (nat (i + 1 - j)) (v_def V) @ drop (nat (i + 1)) (v_elems V) \<and>
    v_occupied V' = v_occupied V \<and>
    (\<forall>ts ts'. v_timers V = Some ts \<longrightarrow> v_timers V' = Some ts' \<longrightarrow>
       (\<forall>k. nat j \<le> k \<longrightarrow> k \<le> nat i \<longrightarrow> v_tmgr V \<noteq> None \<longrightarrow> j \<le> i \<longrightarrow> ts' ! k = None) \<and> (\<forall>k < nat j. ts' ! k = ts ! k)) \<and>
    (v_timers V' = None \<longleftrightarrow> v_timers V = None)"
  using assms
proof (induction "nat (i + 1 - j)" arbitrary: j V)
  case 0
  then have "\<not> j \<le> i" "j = i + 1" by auto
  then have "vec_fill j i V = Some V" by (subst vec_fill.simps) simp
  then show ?case using 0 \<open>j = i + 1\<close> by (auto intro!: exI [of _ V])
next
  case (Suc n)
  have le: "j \<le> i" using Suc.hyps(2) by auto
  from fill_slot_ok [of V j] Suc.prems le obtain V1 where
    f: "vec_fill_slot j V = Some V1" "vec_shape V1" "vconf V1 = vconf V" "v_capacity V1 = v_capacity V"
      "v_elems V1 = (v_elems V)[nat j := v_def V]" "v_occupied V1 = v_occupied V"
      "\<And>ts ts'. v_timers V = Some ts \<Longrightarrow> v_timers V1 = Some ts' \<Longrightarrow>
         (v_tmgr V \<noteq> None \<longrightarrow> ts' ! nat j = None) \<and> (\<forall>k. k \<noteq> nat j \<longrightarrow> ts' ! k = ts ! k)"
      "v_timers V1 = None \<longleftrightarrow> v_timers V = None" by auto
  have c: "v_last V1 = v_last V" "v_def V1 = v_def V" "v_tmgr V1 = v_tmgr V" using f(3) by (simp_all add: vconf_def)
  have nn: "n = nat (i + 1 - (j + 1))" using Suc.hyps(2) le by linarith
  have pre: "v_last V1 < j + 1" "0 \<le> j + 1" "j + 1 \<le> i + 1" "i < v_capacity V1" "i < 2147483647" using Suc.prems c f(4) le by auto
  from Suc.hyps(1) [OF nn f(2) pre] obtain V' where
    IH: "vec_fill (j + 1) i V1 = Some V'" "vec_shape V'" "vconf V' = vconf V1" "v_capacity V' = v_capacity V1"
      "v_elems V' = take (nat (j + 1)) (v_elems V1) @ replicate (nat (i + 1 - (j + 1))) (v_def V1) @ drop (nat (i + 1)) (v_elems V1)"
      "v_occupied V' = v_occupied V1"
      "\<forall>ts ts'. v_timers V1 = Some ts \<longrightarrow> v_timers V' = Some ts' \<longrightarrow>
         (\<forall>k. nat (j + 1) \<le> k \<longrightarrow> k \<le> nat i \<longrightarrow> v_tmgr V1 \<noteq> None \<longrightarrow> j + 1 \<le> i \<longrightarrow> ts' ! k = None) \<and> (\<forall>k < nat (j + 1). ts' ! k = ts ! k)"
      "v_timers V' = None \<longleftrightarrow> v_timers V1 = None" by (elim exE conjE) (rule that)
  have run: "vec_fill j i V = Some V'" using le f(1) IH(1) Suc.prems(6) by (subst vec_fill.simps) simp
  have nj: "nat j < length (v_elems V)" "nat (j + 1) = Suc (nat j)" "nat (i + 1 - j) = Suc (nat (i - j))"
    using Suc.prems le by (auto simp: vec_shape_def nat_less_iff nat_add_distrib)
  have el: "v_elems V' = take (nat j) (v_elems V) @ replicate (nat (i + 1 - j)) (v_def V) @ drop (nat (i + 1)) (v_elems V)"
    unfolding IH(5) f(5) c nj(2,3) using nj(1) Suc.prems(3) le by (simp add: take_Suc_conv_app_nth)
  have tm: "(\<forall>k. nat j \<le> k \<longrightarrow> k \<le> nat i \<longrightarrow> v_tmgr V \<noteq> None \<longrightarrow> j \<le> i \<longrightarrow> ts' ! k = None) \<and> (\<forall>k < nat j. ts' ! k = ts ! k)"
    if t: "v_timers V = Some ts" "v_timers V' = Some ts'" for ts ts'
  proof -
    obtain us where us: "v_timers V1 = Some us" using f(8) t(1) by (cases "v_timers V1") auto
    have a: "v_tmgr V \<noteq> None \<Longrightarrow> us ! nat j = None" "\<And>k. k \<noteq> nat j \<Longrightarrow> us ! k = ts ! k" using f(7) [OF t(1) us] by auto
    have b: "\<And>k. Suc (nat j) \<le> k \<Longrightarrow> k \<le> nat i \<Longrightarrow> v_tmgr V \<noteq> None \<Longrightarrow> j + 1 \<le> i \<Longrightarrow> ts' ! k = None"
      "\<And>k. k < Suc (nat j) \<Longrightarrow> ts' ! k = us ! k" using IH(7) us t(2) c nj(2) by auto
    have "ts' ! k = None" if k: "nat j \<le> k" "k \<le> nat i" "v_tmgr V \<noteq> None" for k
    proof (cases "k = nat j")
      case True
      then show ?thesis using a(1) k b(2) [of k] by simp
    next
      case False
      then show ?thesis using b(1) [of k] k Suc.prems(3) by linarith
    qed
    moreover have "ts' ! k = ts ! k" if "k < nat j" for k using a(2) [of k] b(2) [of k] that by simp
    ultimately show ?thesis by blast
  qed
  show ?case using run IH(2-4,6,8) f(3,4,6,8) el tm by (intro exI [of _ V']) simp
qed

section \<open>The operations on the sequence of values\<close>

definition vvals :: "hlt_vector \<Rightarrow> val list" where
  "vvals V = take (nat (v_last V + 1)) (v_elems V)"

definition vocc :: "hlt_vector \<Rightarrow> bool list" where
  "vocc V = take (nat (v_last V + 1)) (v_occupied V)"

text \<open>Assignment to a position of a list that is extended with \<open>d\<close> as far as needed.\<close>

definition vset :: "'b \<Rightarrow> nat \<Rightarrow> 'b \<Rightarrow> 'b list \<Rightarrow> 'b list" where
  "vset d i x xs = (if i < length xs then xs[i := x] else xs @ replicate (i - length xs) d @ [x])"

lemma vset_end: "vset d (length xs) x xs = xs @ [x]"
  by (simp add: vset_def)

lemma length_vset: "length (vset d i x xs) = max (length xs) (i + 1)"
  by (auto simp: vset_def)

lemma nth_vset: "j < max (length xs) (i + 1) \<Longrightarrow>
  vset d i x xs ! j = (if j = i then x else if j < length xs then xs ! j else d)"
  by (auto simp: vset_def nth_append nth_Cons')

lemma vlen:
  assumes "vec_shape V"
  shows "length (vvals V) = nat (v_last V + 1)" "length (vocc V) = nat (v_last V + 1)"
  using assms by (auto simp: vec_shape_def vvals_def vocc_def)

lemma assign_ok:
  assumes inv: "vec_inv v V w" and i: "0 \<le> i" "i \<le> v_last V" and fr: "fresh_timers w" and ck: "vec_clock V w"
  shows "\<exists>w' V'. vec_set_entry ops v i x w = Some w' \<and> vec_inv v V' w' \<and> vconf V' = vconf V \<and> vec_same v w w' \<and>
    vvals V' = (vvals V)[nat i := x] \<and> vocc V' = (vocc V)[nat i := True]"
proof -
  from set_entry_ok [OF assms, of ops x] obtain w' V' where
    s: "vec_set_entry ops v i x w = Some w'" "vec_inv v V' w'" "v_elems V' = (v_elems V)[nat i := x]"
      "v_occupied V' = (v_occupied V)[nat i := True]" "vconf V' = vconf V" "vec_same v w w'" by blast
  have "vvals V' = (vvals V)[nat i := x]" "vocc V' = (vocc V)[nat i := True]"
    using s(3-5) i by (simp_all add: vvals_def vocc_def vconf_def take_update_swap)
  then show ?thesis using s by blast
qed

text \<open>Making the vector end at \<open>i\<close>, with the new positions holding defaults.\<close>

lemma extend_ok:
  assumes inv: "vec_inv v V w" and i: "v_last V < i" "i < v_capacity V" "i < 2147483647"
  shows "\<exists>V'. vec_fill (v_last V + 1) i V = Some V' \<and> v_last V' = v_last V \<and>
    vec_inv v (V'\<lparr>v_last := i\<rparr>) (put_vec v (V'\<lparr>v_last := i\<rparr>) w) \<and> vconf V' = vconf V \<and>
    vvals (V'\<lparr>v_last := i\<rparr>) = vvals V @ replicate (nat (i - v_last V)) (v_def V) \<and>
    vocc (V'\<lparr>v_last := i\<rparr>) = vocc V @ replicate (nat (i - v_last V)) False"
proof -
  from inv have sh: "vec_shape V" and li: "vec_links v V w" by (auto simp: vec_inv_def)
  have pre: "v_last V < v_last V + 1" "0 \<le> v_last V + 1" "v_last V + 1 \<le> i + 1" using sh i by (auto simp: vec_shape_def)
  from fill_ok [OF sh pre i(2,3)] obtain V' where
    f: "vec_fill (v_last V + 1) i V = Some V'" "vec_shape V'" "vconf V' = vconf V" "v_capacity V' = v_capacity V"
      "v_elems V' = take (nat (v_last V + 1)) (v_elems V) @ replicate (nat (i + 1 - (v_last V + 1))) (v_def V) @ drop (nat (i + 1)) (v_elems V)"
      "v_occupied V' = v_occupied V"
      "\<forall>ts ts'. v_timers V = Some ts \<longrightarrow> v_timers V' = Some ts' \<longrightarrow>
        (\<forall>k. nat (v_last V + 1) \<le> k \<longrightarrow> k \<le> nat i \<longrightarrow> v_tmgr V \<noteq> None \<longrightarrow> v_last V + 1 \<le> i \<longrightarrow> ts' ! k = None) \<and>
        (\<forall>k < nat (v_last V + 1). ts' ! k = ts ! k)"
      "v_timers V' = None \<longleftrightarrow> v_timers V = None" by (elim exE conjE) (rule that)
  have c: "v_last V' = v_last V" "v_tmgr V' = v_tmgr V" "v_timeout V' = v_timeout V" using f(3) by (simp_all add: vconf_def)
  let ?V = "V'\<lparr>v_last := i\<rparr>"
  have "vec_shape ?V" using f(2,4) c i by (auto simp: vec_shape_def)
  moreover have "vec_links v ?V w"
    unfolding vec_links_def
  proof (intro allI impI conjI)
    fix m assume m: "v_tmgr ?V = Some m"
    then show "mgr_inv m w" using li c by (simp add: vec_links_def)
    fix us j b assume j: "v_timers ?V = Some us" "j < length us" "int j \<le> v_last ?V" "us ! j = Some b"
    obtain ts where ts: "v_timers V = Some ts" using f(8) j(1) by (cases "v_timers V") auto
    have g: "\<And>k. nat (v_last V + 1) \<le> k \<Longrightarrow> k \<le> nat i \<Longrightarrow> us ! k = None" "\<And>k. k < nat (v_last V + 1) \<Longrightarrow> us ! k = ts ! k"
      using f(7) ts j(1) m c i by auto
    have le: "int j \<le> v_last V"
    proof (rule ccontr)
      assume "\<not> int j \<le> v_last V"
      then have "us ! j = None" using j(3) by (intro g(1)) auto
      then show False using j(4) by simp
    qed
    then have "j < nat (v_last V + 1)" by linarith
    then have tj: "ts ! j = Some b" using g(2) j(4) by simp
    have "length ts = length us" using f(2) sh ts j(1) f(4) by (simp add: vec_shape_def)
    then show "slot_timer_ok v ?V m w j b"
      using li m c ts tj le j(2) by (auto simp: vec_links_def slot_timer_ok_def)
  qed
  ultimately have inv': "vec_inv v ?V (put_vec v ?V w)" by (simp add: vec_inv_def)
  have n: "nat (v_last V + 1) \<le> length (v_elems V)" "nat (i + 1) \<le> length (v_elems V)" "nat (i + 1) \<le> length (v_occupied V)"
    "nat (i + 1) = nat (v_last V + 1) + nat (i - v_last V)"
    using sh i by (auto simp: vec_shape_def)
  have "vvals ?V = vvals V @ replicate (nat (i - v_last V)) (v_def V)"
    unfolding vvals_def using f(5) n by (simp add: take_append)
  moreover have "vocc ?V = vocc V @ replicate (nat (i - v_last V)) False"
  proof -
    let ?os = "v_occupied V" let ?n = "nat (v_last V + 1)" let ?k = "nat (i - v_last V)"
    have b: "?n + ?k \<le> length ?os" using n(3,4) by linarith
    have off: "\<not> ?os ! (?n + j)" if "j < ?k" for j
      using sh that b unfolding vec_shape_def by auto
    have "take ?k (drop ?n ?os) = replicate ?k False"
      by (intro nth_equalityI) (use b off in simp_all)
    then show ?thesis unfolding vocc_def using f(6) n(4) by (simp add: take_add)
  qed
  ultimately show ?thesis using f(1,3) c(1) inv' by blast
qed

lemma vset_extend: "n = length xs \<Longrightarrow> n \<le> i \<Longrightarrow> (xs @ replicate (Suc i - n) d)[i := x] = vset d i x xs"
  by (intro nth_equalityI) (auto simp: length_vset nth_vset nth_append nth_list_update)

lemma set_ok:
  assumes inv: "vec_inv v V w" and fr: "fresh_timers w" and ck: "vec_clock V w"
    and i: "i < 2147483647" and l: "v_last V < 2147483647"
  shows "\<exists>w' V'. hlt_vector_set ops v (int i) x w = Some w' \<and> vec_inv v V' w' \<and> vec_same v w w' \<and>
    snd (vconf V') = snd (vconf V) \<and> vvals V' = vset (v_def V) i x (vvals V) \<and> vocc V' = vset False i True (vocc V)"
proof -
  from inv have V: "vw_vecs w v = Some V" and sh: "vec_shape V" by (auto simp: vec_inv_def)
  obtain w1 V1 k where r: "(if int i \<ge> v_capacity V then set_capacity (int i) (v_capacity V) \<bind> (\<lambda>c. hlt_vector_reserve v c w) else Some w) = Some w1"
    "vec_inv v V1 w1" "vconf V1 = vconf V" "vec_same v w w1" "int i < v_capacity V1"
    "v_elems V1 = v_elems V @ replicate k 0" "v_occupied V1 = v_occupied V @ replicate k False"
  proof (cases "int i \<ge> v_capacity V")
    case False
    then show ?thesis using that [of w V 0] inv vec_same_refl by auto
  next
    case True
    from set_capacity_ok [of "v_capacity V" "int i"] sh i obtain c where
      c: "set_capacity (int i) (v_capacity V) = Some c" "int i < c" by (auto simp: vec_shape_def)
    from reserve_ok [OF inv, of c] obtain w1 V1 k where
      "hlt_vector_reserve v c w = Some w1" "vec_inv v V1 w1" "vconf V1 = vconf V" "vec_same v w w1"
      "v_elems V1 = v_elems V @ replicate k 0" "v_occupied V1 = v_occupied V @ replicate k False"
      "v_capacity V1 = max c (v_capacity V)" by blast
    then show ?thesis using that [of w1 V1 k] c True by auto
  qed
  have c: "v_last V1 = v_last V" "v_def V1 = v_def V" using r(3) by (simp_all add: vconf_def)
  have V1: "vw_vecs w1 v = Some V1" using r(2) by (simp add: vec_inv_def)
  have eqv: "vvals V1 = vvals V" "vocc V1 = vocc V" using r(6,7) c sh by (auto simp: vvals_def vocc_def vec_shape_def)
  have j0: "to_int32 (v_last V + 1) = v_last V + 1" using l sh by (simp add: to_int32_def vec_shape_def)
  have n: "length (vvals V) = nat (v_last V + 1)" "length (vocc V) = nat (v_last V + 1)" using vlen [OF sh] by auto
  note run = hlt_vector_set_def [of ops v "int i" x w] V r(1) V1 c j0
  show ?thesis
  proof (cases "int i \<le> v_last V")
    case True
    then have fill: "vec_fill (v_last V + 1) (int i) V1 = Some V1" by (subst vec_fill.simps) simp
    have "put_vec v V1 w1 = w1" using V1 by (simp add: put_vec_def fun_upd_idem)
    then have eq: "hlt_vector_set ops v (int i) x w = vec_set_entry ops v (int i) x w1"
      using run fill True by (simp add: Let_def)
    from assign_ok [OF r(2), of "int i" ops x] True c vec_same_clocks [OF r(4)] fr ck vec_clock_cong [OF r(3), of w1 w] obtain w' V' where
      "vec_set_entry ops v (int i) x w1 = Some w'" "vec_inv v V' w'" "vconf V' = vconf V1" "vec_same v w1 w'"
      "vvals V' = (vvals V1)[i := x]" "vocc V' = (vocc V1)[i := True]" by auto
    moreover have "i < nat (v_last V + 1)" using True by linarith
    moreover have "vec_same v w w'" using r(4) calculation(4) by (rule vec_same_trans)
    ultimately show ?thesis using eq eqv r(3) n
      by (intro exI [of _ w'] exI [of _ V']) (simp add: vset_def)
  next
    case False
    from extend_ok [OF r(2) _ r(5)] False c i obtain V2 where
      e: "vec_fill (v_last V + 1) (int i) V1 = Some V2" "v_last V2 = v_last V" "vconf V2 = vconf V1"
        "vec_inv v (V2\<lparr>v_last := int i\<rparr>) (put_vec v (V2\<lparr>v_last := int i\<rparr>) w1)"
        "vvals (V2\<lparr>v_last := int i\<rparr>) = vvals V1 @ replicate (nat (int i - v_last V)) (v_def V)"
        "vocc (V2\<lparr>v_last := int i\<rparr>) = vocc V1 @ replicate (nat (int i - v_last V)) False" by auto
    let ?V = "V2\<lparr>v_last := int i\<rparr>" let ?w = "put_vec v ?V w1"
    have eq: "hlt_vector_set ops v (int i) x w = vec_set_entry ops v (int i) x ?w"
      using run e(1,2) False by (simp add: Let_def)
    have "vec_clock ?V ?w" using ck e(3) r(3) vec_same_clocks(1) [OF r(4)] by (simp add: vec_clock_def vconf_def)
    from assign_ok [OF e(4) _ _ _ this, of "int i" ops x] vec_same_clocks(2) [OF r(4) fr] obtain w' V' where
      a: "vec_set_entry ops v (int i) x ?w = Some w'" "vec_inv v V' w'" "vconf V' = vconf ?V" "vec_same v ?w w'"
      "vvals V' = (vvals ?V)[i := x]" "vocc V' = (vocc ?V)[i := True]" by auto
    have m: "nat (int i - v_last V) = Suc i - nat (v_last V + 1)" "nat (v_last V + 1) \<le> i"
      using False sh by (auto simp: vec_shape_def)
    have "vvals V' = vset (v_def V) i x (vvals V)" "vocc V' = vset False i True (vocc V)"
      unfolding a(5,6) e(5,6) eqv m(1) using vset_extend m(2) n by metis+
    moreover have "vec_same v w w'" using r(4) put_vec_same a(4) vec_same_trans by metis
    moreover have "snd (vconf V') = snd (vconf V)" using a(3) e(3) r(3) by (simp add: vconf_def)
    ultimately show ?thesis using eq a(1,2) by auto
  qed
qed

lemma reserve_last:
  assumes "vw_vecs w v = Some V" "v_capacity V < n"
  shows "\<exists>U. hlt_vector_reserve v n w = Some (put_vec v U w) \<and>
    hlt_vector_reserve v n (put_vec v (V\<lparr>v_last := l\<rparr>) w) = Some (put_vec v (U\<lparr>v_last := l\<rparr>) w)"
proof -
  let ?k = "n - v_capacity V"
  let ?U = "V\<lparr>v_elems := grow ?k 0 (v_elems V), v_occupied := grow ?k False (v_occupied V),
          v_timers := map_option (grow ?k None) (v_timers V), v_capacity := n\<rparr>"
  show ?thesis
    using assms by (intro exI [of _ ?U], cases V) (simp add: hlt_vector_reserve_def Let_def put_vec_def)
qed

lemma take_snoc_update: "k < length ys \<Longrightarrow> (take (Suc k) ys)[k := y] = take k ys @ [y]"
  by (simp add: take_Suc_conv_app_nth list_update_append)

lemma push_ok:
  assumes inv: "vec_inv v V w" and fr: "fresh_timers w" and ck: "vec_clock V w" and l: "v_last V < 2147483647"
  shows "\<exists>w' V'. hlt_vector_push_back ops v x w = Some w' \<and> vec_inv v V' w' \<and> vec_same v w w' \<and>
    snd (vconf V') = snd (vconf V) \<and> vvals V' = vvals V @ [x] \<and> vocc V' = vocc V @ [True]"
proof -
  from inv have V: "vw_vecs w v = Some V" and sh: "vec_shape V" and li: "vec_links v V w" by (auto simp: vec_inv_def)
  let ?l = "v_last V + 1"
  \<comment> \<open>growing the array and advancing the last index commute\<close>
  obtain U k where U: "vec_inv v U (put_vec v U w)" "vconf U = vconf V" "?l < v_capacity U"
    "v_elems U = v_elems V @ replicate k 0" "v_occupied U = v_occupied V @ replicate k False"
    "(if ?l \<ge> v_capacity V then push_capacity (v_capacity V) \<bind> (\<lambda>c. hlt_vector_reserve v c (put_vec v (V\<lparr>v_last := ?l\<rparr>) w))
      else Some (put_vec v (V\<lparr>v_last := ?l\<rparr>) w)) = Some (put_vec v (U\<lparr>v_last := ?l\<rparr>) w)"
  proof (cases "?l \<ge> v_capacity V")
    case False
    then show ?thesis using that [of V 0] inv by (simp add: vec_inv_def)
  next
    case True
    then have "v_capacity V < 2147483648" "0 \<le> v_capacity V" using sh l by (auto simp: vec_shape_def)
    from push_capacity_ok [OF this(2,1)] obtain c where c: "push_capacity (v_capacity V) = Some c" "v_capacity V < c" by blast
    from reserve_ok [OF inv, of c] obtain w1 U k where
      r: "hlt_vector_reserve v c w = Some w1" "vec_inv v U w1" "vconf U = vconf V" "v_elems U = v_elems V @ replicate k 0"
        "v_occupied U = v_occupied V @ replicate k False" "v_capacity U = max c (v_capacity V)" by blast
    have w1: "w1 = put_vec v U w" "hlt_vector_reserve v c (put_vec v (V\<lparr>v_last := ?l\<rparr>) w) = Some (put_vec v (U\<lparr>v_last := ?l\<rparr>) w)"
      using reserve_last [OF V c(2), of ?l] r(1,2) by (auto simp: vec_inv_def)
    have "?l < v_capacity U" using r(6) c(2) True sh by (simp add: vec_shape_def)
    then show ?thesis using that [of U k] r w1 c True by simp
  qed
  let ?U = "U\<lparr>v_last := ?l, v_timers := (if v_tmgr U = None then v_timers U else map_option (\<lambda>ts. ts[nat ?l := None]) (v_timers U))\<rparr>"
  let ?w = "put_vec v ?U w"
  have conf: "v_last U = v_last V" "v_tmgr U = v_tmgr V" "v_timeout U = v_timeout V" "v_def U = v_def V" "v_strategy U = v_strategy V"
    using U(2) by (simp_all add: vconf_def)
  have shU: "vec_shape U" and liU: "vec_links v U w" using U(1) by (auto simp: vec_inv_def)
  have run: "hlt_vector_push_back ops v x w = vec_set_entry ops v ?l x ?w"
  proof (cases "v_tmgr U")
    case None
    then have "?U = U\<lparr>v_last := ?l\<rparr>" by simp
    then show ?thesis using V U(6) conf U(3) None by (simp add: hlt_vector_push_back_def Let_def)
  next
    case (Some m)
    then obtain ts where ts: "v_timers U = Some ts" "length ts = nat (v_capacity U)" using shU by (auto simp: vec_shape_def)
    have "0 \<le> ?l" "?l < int (length ts)" using sh ts U(3) by (auto simp: vec_shape_def)
    then show ?thesis using V U(6) U(3) ts Some
      by (simp add: hlt_vector_push_back_def Let_def safe_simps) (simp add: put_vec_def)
  qed
  have "vec_shape ?U" using shU U(3) conf unfolding vec_shape_def by auto
  moreover have "vec_links v ?U w"
    unfolding vec_links_def
  proof (intro allI impI conjI)
    fix m assume m: "v_tmgr ?U = Some m"
    then show "mgr_inv m w" using liU by (simp add: vec_links_def)
    fix us j b assume j: "v_timers ?U = Some us" "j < length us" "int j \<le> v_last ?U" "us ! j = Some b"
    obtain ts where ts: "v_timers U = Some ts" "us = ts[nat ?l := None]" using j(1) m by auto
    have "j \<noteq> nat ?l" using j(2,4) ts(2) by auto
    then have "int j \<noteq> ?l" by auto
    then have "ts ! j = Some b" "int j \<le> v_last U" using j ts conf \<open>j \<noteq> nat ?l\<close> by auto
    then show "slot_timer_ok v ?U m w j b"
      using liU m ts j(2) conf by (auto simp: vec_links_def slot_timer_ok_def)
  qed
  ultimately have inv': "vec_inv v ?U ?w" by (simp add: vec_inv_def)
  have "vec_clock ?U ?w" using ck conf by (simp add: vec_clock_def)
  from assign_ok [OF inv' _ _ _ this, of ?l ops x] sh fr obtain w' V' where
    a: "vec_set_entry ops v ?l x ?w = Some w'" "vec_inv v V' w'" "vconf V' = vconf ?U" "vec_same v ?w w'"
      "vvals V' = (vvals ?U)[nat ?l := x]" "vocc V' = (vocc ?U)[nat ?l := True]" by (auto simp: vec_shape_def)
  have n: "nat ?l \<le> length (v_elems V)" "nat ?l \<le> length (v_occupied V)" "nat ?l < length (v_elems U)" "nat ?l < length (v_occupied U)"
    "nat (?l + 1) = Suc (nat ?l)" using sh shU U(3) by (auto simp: vec_shape_def)
  have "vvals V' = take (nat ?l) (v_elems U) @ [x]" "vocc V' = take (nat ?l) (v_occupied U) @ [True]"
    unfolding a(5,6) using n by (simp_all add: vvals_def vocc_def take_snoc_update)
  then have "vvals V' = vvals V @ [x]" "vocc V' = vocc V @ [True]" using U(4,5) n by (simp_all add: vvals_def vocc_def)
  moreover have "vec_same v w w'" using put_vec_same a(4) vec_same_trans by metis
  ultimately show ?thesis using run a(1,2) conf a(3) by (intro exI [of _ w'] exI [of _ V']) (simp add: vconf_def)
qed

lemma access_ok:
  assumes inv: "vec_inv v V w" and i: "0 \<le> i" "i \<le> v_last V" and ck: "vec_clock V w"
  shows "\<exists>w'. vec_access_entry ops v i w = Some w' \<and> vec_inv v V w' \<and> vec_same v w w'"
proof -
  from inv have V: "vw_vecs w v = Some V" and sh: "vec_shape V" and li: "vec_links v V w" by (auto simp: vec_inv_def)
  show ?thesis
  proof (cases "v_tmgr V = None \<or> \<not> hlt_enum_equal (v_strategy V) expire_strategy_access \<or> v_timeout V = 0")
    case True
    then show ?thesis using V inv vec_same_refl by (auto simp: vec_access_entry_def)
  next
    case act: False
    then obtain m where m: "v_tmgr V = Some m" by auto
    then obtain ts where ts: "v_timers V = Some ts" "length ts = nat (v_capacity V)" using sh by (auto simp: vec_shape_def)
    have len: "i < int (length ts)" using sh ts i by (simp add: vec_shape_def)
    show ?thesis
    proof (cases "ts ! nat i")
      case None
      then have "vec_access_entry ops v i w = Some w" using V act ts len i by (simp add: vec_access_entry_def safe_simps)
      then show ?thesis using inv vec_same_refl by blast
    next
      case (Some a)
      from li m ts have mi: "mgr_inv m w" and st: "\<And>j b. j < length ts \<Longrightarrow> int j \<le> v_last V \<Longrightarrow> ts ! j = Some b \<Longrightarrow>
        slot_timer_ok v V m w j b" by (auto simp: vec_links_def)
      obtain mg where mg: "tw_mgrs w m = Some mg" using mi unfolding mgr_inv_def queue_inv_def by auto
      have now: "clocks w m = Some (mgr_time mg)" using mg by (simp add: clocks_def)
      have sa: "slot_timer_ok v V m w (nat i) a" using st [of "nat i" a] len i Some by (simp add: nat_less_iff)
      then obtain tm where tm: "tw_timers w a = Some tm" "timer_mgr tm = Some m" by (auto simp: slot_timer_ok_def link_of_def)
      let ?t = "mgr_time mg + v_timeout V"
      have t: "add64 (mgr_time mg) (v_timeout V) = ?t" "timer_time tm \<le> ?t"
        using ck m now sa tm by (auto simp: vec_clock_def slot_timer_ok_def pri_def intro!: add64_exact)
      from update_later_ok [OF mi mg tm t(2), of ops] obtain w' where
        u: "hlt_timer_update ops (Some a) ?t w = Some w'" "mgr_inv m w'" "pri (tw_timers w') a = ?t" "erase w' = erase w"
          "clocks w' = clocks w" "link_of (tw_timers w') = link_of (tw_timers w)"
          "\<forall>b. b \<noteq> a \<longrightarrow> pri (tw_timers w') b = pri (tw_timers w) b" by blast
      have run: "vec_access_entry ops v i w = Some w'"
        using V act m ts len i Some mg t(1) u(1)
        by (simp add: vec_access_entry_def safe_simps hlt_timer_mgr_current_def the_mgr_def)
      have "slot_timer_ok v V m w' j b" if "j < length ts" "int j \<le> v_last V" "ts ! j = Some b" for j b
        using st [OF that] u(3,5-7) now by (cases "b = a") (auto simp: slot_timer_ok_def)
      then have "vec_links v V w'" using m ts u(2) by (simp add: vec_links_def)
      then have "vec_inv v V w'" using sh V erase_vecs [OF u(4)] by (simp add: vec_inv_def)
      moreover have "vec_same v w w'" by (rule timer_op_same [OF u(4,5)]) (simp add: u(6))
      ultimately show ?thesis using run by blast
    qed
  qed
qed

lemma get_ok:
  assumes inv: "vec_inv v V w" and i: "0 \<le> i" "i \<le> v_last V" and ck: "vec_clock V w"
  shows "\<exists>w'. hlt_vector_get ops v i w = Some (Some (vvals V ! nat i), w') \<and> vec_inv v V w' \<and> vec_same v w w'"
proof -
  from access_ok [OF assms, of ops] obtain w' where
    a: "vec_access_entry ops v i w = Some w'" "vec_inv v V w'" "vec_same v w w'" by blast
  have "i < int (length (v_elems V))" using a(2) i by (simp add: vec_inv_def vec_shape_def)
  then show ?thesis using inv a i by (auto simp: hlt_vector_get_def vec_inv_def safe_simps vvals_def)
qed

lemma get_beyond:
  "vec_inv v V w \<Longrightarrow> v_last V < i \<Longrightarrow> hlt_vector_get ops v i w = Some (None, w\<lparr>tw_excpt := Some IndexError\<rparr>)"
  by (simp add: hlt_vector_get_def vec_inv_def hlt_set_exception_def)

lemma vec_inv_error: "vec_inv v V (w\<lparr>tw_excpt := e\<rparr>) \<longleftrightarrow> vec_inv v V w" "clocks (w\<lparr>tw_excpt := e\<rparr>) = clocks w"
  "fresh_timers (w\<lparr>tw_excpt := e\<rparr>) \<longleftrightarrow> fresh_timers w"
proof -
  have "mgr_inv m (w\<lparr>tw_excpt := e\<rparr>) \<longleftrightarrow> mgr_inv m w" for m by (rule mgr_inv_cong) simp_all
  then show "vec_inv v V (w\<lparr>tw_excpt := e\<rparr>) \<longleftrightarrow> vec_inv v V w"
    by (simp add: vec_inv_def vec_links_def slot_timer_ok_def clocks_def)
qed (simp_all add: clocks_def fresh_timers_def fun_eq_iff)

section \<open>Refinement\<close>

text \<open>
  The specification: a sequence of values, which positions have been assigned, and the exception; every operation yields an
  output.
\<close>

datatype vec_op = VPush val | VSet nat val | VGet nat

type_synonym vspec_state = "val list \<times> bool list \<times> exn option"

fun vspec_op :: "val \<Rightarrow> vec_op \<Rightarrow> vspec_state \<Rightarrow> val option \<times> vspec_state" where
  "vspec_op d (VPush x) (vs, os, e) = (None, vs @ [x], os @ [True], e)"
| "vspec_op d (VSet i x) (vs, os, e) = (None, vset d i x vs, vset False i True os, e)"
| "vspec_op d (VGet i) (vs, os, e) =
     (if i < length vs then (Some (vs ! i), vs, os, e) else (None, vs, os, Some IndexError))"

fun run_vop ::
  "'a vec_world_scheme expiry_ops \<Rightarrow> addr \<Rightarrow> vec_op \<Rightarrow> 'a vec_world_scheme
   \<Rightarrow> (val option \<times> 'a vec_world_scheme) option" where
  "run_vop ops v (VPush x) w = map_option (Pair None) (hlt_vector_push_back ops v x w)"
| "run_vop ops v (VSet i x) w = map_option (Pair None) (hlt_vector_set ops v (int i) x w)"
| "run_vop ops v (VGet i) w = hlt_vector_get ops v (int i) w"

fun vspec_run :: "val \<Rightarrow> vec_op list \<Rightarrow> vspec_state \<Rightarrow> val option list \<times> vspec_state" where
  "vspec_run d [] s = ([], s)"
| "vspec_run d (x # xs) s =
     (let (r, s1) = vspec_op d x s; (rs, s2) = vspec_run d xs s1 in (r # rs, s2))"

fun run_vec ::
  "'a vec_world_scheme expiry_ops \<Rightarrow> addr \<Rightarrow> vec_op list \<Rightarrow> 'a vec_world_scheme
   \<Rightarrow> (val option list \<times> 'a vec_world_scheme) option" where
  "run_vec ops v [] w = Some ([], w)"
| "run_vec ops v (x # xs) w = do {
     (r, w1) \<leftarrow> run_vop ops v x w;
     (rs, w2) \<leftarrow> run_vec ops v xs w1;
     Some (r # rs, w2)
   }"

text \<open>The positions stay in the range of the loop counter of \<^verbatim>\<open>hlt_vector_set\<close>.\<close>

fun vec_fits :: "nat \<Rightarrow> vec_op list \<Rightarrow> bool" where
  "vec_fits n [] \<longleftrightarrow> True"
| "vec_fits n (VPush x # xs) \<longleftrightarrow> n < 2147483647 \<and> vec_fits (n + 1) xs"
| "vec_fits n (VSet i x # xs) \<longleftrightarrow> n \<le> 2147483647 \<and> i < 2147483647 \<and> vec_fits (max n (i + 1)) xs"
| "vec_fits n (VGet i # xs) \<longleftrightarrow> vec_fits n xs"

definition vstate :: "hlt_vector \<Rightarrow> 'a vec_world_scheme \<Rightarrow> vspec_state" where
  "vstate V w = (vvals V, vocc V, tw_excpt w)"

lemma run_vop_follows:
  assumes inv: "vec_inv v V w" and fr: "fresh_timers w" and ck: "vec_clock V w" and f: "vec_fits (length (vvals V)) (x # xs)"
  shows "\<exists>w' V'. run_vop ops v x w = Some (fst (vspec_op (v_def V) x (vstate V w)), w') \<and>
    vstate V' w' = snd (vspec_op (v_def V) x (vstate V w)) \<and> vec_inv v V' w' \<and> fresh_timers w' \<and> vec_clock V' w' \<and>
    v_def V' = v_def V \<and> vec_fits (length (vvals V')) xs"
proof -
  have len: "length (vvals V) = nat (v_last V + 1)" using vlen inv by (simp add: vec_inv_def)
  have l: "- 1 \<le> v_last V" using inv by (simp add: vec_inv_def vec_shape_def)
  show ?thesis
  proof (cases x)
    case (VPush y)
    with f len l have "v_last V < 2147483647" by auto
    from push_ok [OF inv fr ck this, of ops y] obtain w' V' where
      p: "hlt_vector_push_back ops v y w = Some w'" "vec_inv v V' w'" "vec_same v w w'" "snd (vconf V') = snd (vconf V)"
        "vvals V' = vvals V @ [y]" "vocc V' = vocc V @ [True]" by blast
    then show ?thesis using f fr ck VPush
      by (intro exI [of _ w'] exI [of _ V']) (auto simp: vstate_def vec_same_def vconf_def vec_clock_def)
  next
    case (VSet i y)
    with f len l have "i < 2147483647" "v_last V < 2147483647" by auto
    from set_ok [OF inv fr ck this, of ops y] obtain w' V' where
      p: "hlt_vector_set ops v (int i) y w = Some w'" "vec_inv v V' w'" "vec_same v w w'" "snd (vconf V') = snd (vconf V)"
        "vvals V' = vset (v_def V) i y (vvals V)" "vocc V' = vset False i True (vocc V)" by blast
    then show ?thesis using f fr ck VSet
      by (intro exI [of _ w'] exI [of _ V']) (auto simp: vstate_def vec_same_def vconf_def vec_clock_def length_vset)
  next
    case (VGet i)
    show ?thesis
    proof (cases "i < length (vvals V)")
      case True
      with len have "int i \<le> v_last V" by linarith
      from get_ok [OF inv _ this ck, of ops] obtain w' where
        "hlt_vector_get ops v (int i) w = Some (Some (vvals V ! i), w')" "vec_inv v V w'" "vec_same v w w'" by auto
      then show ?thesis using f fr ck VGet True
        by (intro exI [of _ w'] exI [of _ V]) (auto simp: vstate_def vec_same_def vec_clock_def)
    next
      case False
      with len l have "v_last V < int i" by linarith
      from get_beyond [OF inv this, of ops] show ?thesis using inv f fr ck VGet False
        by (auto simp: vstate_def vec_inv_error vec_clock_def intro!: exI [of _ V])
    qed
  qed
qed

lemma run_vec_follows:
  assumes "vec_inv v V w" "fresh_timers w" "vec_clock V w" "vec_fits (length (vvals V)) xs"
  shows "\<exists>w' V'. run_vec ops v xs w = Some (fst (vspec_run (v_def V) xs (vstate V w)), w') \<and>
    vstate V' w' = snd (vspec_run (v_def V) xs (vstate V w)) \<and> vec_inv v V' w'"
  using assms
proof (induction xs arbitrary: V w)
  case (Cons x xs)
  from run_vop_follows [OF Cons.prems, of ops] obtain w1 V1 where
    s: "run_vop ops v x w = Some (fst (vspec_op (v_def V) x (vstate V w)), w1)"
      "vstate V1 w1 = snd (vspec_op (v_def V) x (vstate V w))" "vec_inv v V1 w1" "fresh_timers w1" "vec_clock V1 w1"
      "v_def V1 = v_def V" "vec_fits (length (vvals V1)) xs" by blast
  from Cons.IH [OF s(3-5,7)] obtain w2 V2 where
    "run_vec ops v xs w1 = Some (fst (vspec_run (v_def V1) xs (vstate V1 w1)), w2)"
    "vstate V2 w2 = snd (vspec_run (v_def V1) xs (vstate V1 w1))" "vec_inv v V2 w2" by blast
  then show ?case using s(1,2,6) by (auto simp: Let_def split_beta)
qed auto

section \<open>Expiration\<close>

text \<open>
  One manager may serve lists and vectors. An expiring list element is unlinked; an expiring slot of a vector is reset to
  the default and counts as not assigned.
\<close>

abbreviation container_ops :: "'a vec_world_scheme expiry_ops \<Rightarrow> 'a vec_world_scheme expiry_ops" where
  "container_ops ops \<equiv> ops\<lparr>x_list := hlt_list_expire, x_vector := hlt_vector_expire\<rparr>"

fun container_good :: "timer_cookie \<Rightarrow> 'a vec_world_scheme \<Rightarrow> bool" where
  "container_good (CVector v i) w \<longleftrightarrow> (\<exists>V. vw_vecs w v = Some V \<and> vec_shape V \<and> 0 \<le> i \<and> i \<le> v_last V)"
| "container_good c w \<longleftrightarrow> list_good c w"

lemma vec_expire_ok:
  assumes V: "vw_vecs w v = Some V" and sh: "vec_shape V" and i: "0 \<le> i" "i \<le> v_last V"
  shows "\<exists>V'. hlt_vector_expire v i w = Some (put_vec v V' w) \<and> vec_shape V' \<and> vconf V' = vconf V \<and>
    v_capacity V' = v_capacity V \<and> v_elems V' = (v_elems V)[nat i := v_def V] \<and>
    v_occupied V' = (v_occupied V)[nat i := False] \<and>
    (\<forall>j. j \<noteq> nat i \<longrightarrow> map_option (\<lambda>ts. ts ! j) (v_timers V') = map_option (\<lambda>ts. ts ! j) (v_timers V))"
proof -
  have len: "i < int (length (v_elems V))" "i < int (length (v_occupied V))" using sh i by (auto simp: vec_shape_def)
  have occ: "\<not> (v_occupied V)[nat i := False] ! j" if "j < length (v_occupied V)" "v_last V < int j" for j
    using sh that by (cases "j = nat i") (auto simp: vec_shape_def)
  show ?thesis
  proof (cases "v_tmgr V")
    case None
    then show ?thesis using V len i sh occ
      by (auto simp: hlt_vector_expire_def safe_simps vec_shape_def vconf_def)
  next
    case (Some m)
    then obtain ts where ts: "v_timers V = Some ts" "length ts = nat (v_capacity V)" using sh by (auto simp: vec_shape_def)
    then have "i < int (length ts)" using sh i by (simp add: vec_shape_def)
    then show ?thesis using V len i sh occ ts Some
      by (intro exI [of _ "V\<lparr>v_timers := Some (ts[nat i := None]), v_occupied := (v_occupied V)[nat i := False],
          v_elems := (v_elems V)[nat i := v_def V]\<rparr>"])
        (simp add: hlt_vector_expire_def safe_simps vec_shape_def vconf_def)
  qed
qed

lemma vec_expire_quiet:
  "hlt_vector_expire v i (w\<lparr>tw_timers := ts, tw_mgrs := ms\<rparr>) =
   map_option (\<lambda>w'. w'\<lparr>tw_timers := ts, tw_mgrs := ms\<rparr>) (hlt_vector_expire v i w)"
  by (auto simp: hlt_vector_expire_def put_vec_def split: option.splits bind_splits)

lemma list_expire_vecs: "hlt_list_expire l n w = Some w' \<Longrightarrow> vw_vecs w' = vw_vecs w"
  by (auto simp: hlt_list_expire_def list_unlink_def set_node_def upd_def node_val_def bind_eq_Some_conv
      split: option.splits)

lemma put_vec_lists [simp]: "lists_ok (put_vec v V w) R \<longleftrightarrow> lists_ok w R"
  by (simp add: lists_ok_def list_shape_def node_val_def)

lemma put_vec_list_good [simp]: "list_good c (put_vec v V w) \<longleftrightarrow> list_good c w"
  by (cases c) auto

interpretation cx: quiet_expiry "container_ops ops" container_good for ops
proof (unfold_locales, goal_cases)
  case (1 c w ts ms)
  then show ?case by (cases c) (auto simp: expire_quiet vec_expire_quiet)
next
  case (2 c w ts ms)
  then show ?case by (cases c) (auto simp: lists_ok_quiet)
next
  case (3 c w)
  then show ?case
  proof (cases c)
    case (CList l n)
    with 3 lx.expire_good [of c w] show ?thesis by simp
  next
    case (CVector v i)
    with 3 show ?thesis using vec_expire_ok [of w v _ i] by auto
  qed auto
next
  case (4 c w c' w')
  show ?case
  proof (cases c)
    case (CList l n)
    then have run: "hlt_list_expire l n w = Some w'" using 4(4) by simp
    show ?thesis
    proof (cases c')
      case (CList l' n')
      with \<open>c = CList l n\<close> 4 show ?thesis using lx.good_frame [of c w c' _ w'] by simp
    next
      case (CVector v i)
      with 4(2) list_expire_vecs [OF run] show ?thesis by simp
    qed (use 4(2) in auto)
  next
    case (CVector v i)
    with 4(1) obtain V where V: "vw_vecs w v = Some V" "vec_shape V" "0 \<le> i" "i \<le> v_last V" by auto
    from vec_expire_ok [OF this] obtain V' where
      V': "hlt_vector_expire v i w = Some (put_vec v V' w)" "vec_shape V'" "vconf V' = vconf V" by blast
    then have w': "w' = put_vec v V' w" using 4(4) CVector by simp
    show ?thesis
    proof (cases c')
      case (CVector u j)
      with 4(2) w' V V' show ?thesis by (auto simp: vconf_def)
    next
      case (CList l' n')
      then have "list_good c' w" using 4(2) by simp
      then have "list_good c' w'" unfolding w' put_vec_list_good .
      then show ?thesis using CList by simp
    qed (use 4(2) in auto)
  qed (use 4(1) in auto)
qed

text \<open>The vectors after the cookies \<open>cs\<close> have expired.\<close>

definition vec_after :: "timer_cookie set \<Rightarrow> 'a vec_world_scheme \<Rightarrow> 'a vec_world_scheme \<Rightarrow> bool" where
  "vec_after cs w w' \<longleftrightarrow> (\<forall>v. vw_vecs w v = None \<longrightarrow> vw_vecs w' v = None) \<and>
     (\<forall>v V. vw_vecs w v = Some V \<longrightarrow> (\<exists>V'. vw_vecs w' v = Some V' \<and> vec_shape V' \<and> vconf V' = vconf V \<and>
        v_capacity V' = v_capacity V \<and>
        (\<forall>j < nat (v_capacity V). v_elems V' ! j = (if CVector v (int j) \<in> cs then v_def V else v_elems V ! j) \<and>
           v_occupied V' ! j = (CVector v (int j) \<notin> cs \<and> v_occupied V ! j) \<and>
           (CVector v (int j) \<notin> cs \<longrightarrow> map_option (\<lambda>ts. ts ! j) (v_timers V') = map_option (\<lambda>ts. ts ! j) (v_timers V)))))"

lemma vec_after_trans:
  assumes 1: "vec_after cs w w1" and 2: "vec_after ds w1 w2"
  shows "vec_after (cs \<union> ds) w w2"
  unfolding vec_after_def
proof (intro conjI allI impI)
  fix v assume "vw_vecs w v = None"
  then show "vw_vecs w2 v = None" using assms by (simp add: vec_after_def)
next
  fix v V assume V: "vw_vecs w v = Some V"
  with 1 obtain V1 where V1: "vw_vecs w1 v = Some V1" "vconf V1 = vconf V" "v_capacity V1 = v_capacity V"
    "\<And>j. j < nat (v_capacity V) \<Longrightarrow> v_elems V1 ! j = (if CVector v (int j) \<in> cs then v_def V else v_elems V ! j) \<and>
           v_occupied V1 ! j = (CVector v (int j) \<notin> cs \<and> v_occupied V ! j) \<and>
           (CVector v (int j) \<notin> cs \<longrightarrow> map_option (\<lambda>ts. ts ! j) (v_timers V1) = map_option (\<lambda>ts. ts ! j) (v_timers V))" unfolding vec_after_def by blast
  with 2 obtain V2 where V2: "vw_vecs w2 v = Some V2" "vec_shape V2" "vconf V2 = vconf V1" "v_capacity V2 = v_capacity V1"
    "\<And>j. j < nat (v_capacity V1) \<Longrightarrow> v_elems V2 ! j = (if CVector v (int j) \<in> ds then v_def V1 else v_elems V1 ! j) \<and>
           v_occupied V2 ! j = (CVector v (int j) \<notin> ds \<and> v_occupied V1 ! j) \<and>
           (CVector v (int j) \<notin> ds \<longrightarrow> map_option (\<lambda>ts. ts ! j) (v_timers V2) = map_option (\<lambda>ts. ts ! j) (v_timers V1))" unfolding vec_after_def by blast
  have "v_def V1 = v_def V" using V1(2) by (simp add: vconf_def)
  then show "\<exists>V'. vw_vecs w2 v = Some V' \<and> vec_shape V' \<and> vconf V' = vconf V \<and> v_capacity V' = v_capacity V \<and>
      (\<forall>j < nat (v_capacity V). v_elems V' ! j = (if CVector v (int j) \<in> cs \<union> ds then v_def V else v_elems V ! j) \<and>
         v_occupied V' ! j = (CVector v (int j) \<notin> cs \<union> ds \<and> v_occupied V ! j) \<and>
           (CVector v (int j) \<notin> cs \<union> ds \<longrightarrow> map_option (\<lambda>ts. ts ! j) (v_timers V') = map_option (\<lambda>ts. ts ! j) (v_timers V)))"
    using V1 V2 by (intro exI [of _ V2]) auto
qed

definition vecs_ok :: "'a vec_world_scheme \<Rightarrow> bool" where
  "vecs_ok w \<longleftrightarrow> (\<forall>v V. vw_vecs w v = Some V \<longrightarrow> vec_shape V)"

fun cookie_live :: "(addr \<Rightarrow> addr list) \<Rightarrow> 'a vec_world_scheme \<Rightarrow> timer_cookie \<Rightarrow> bool" where
  "cookie_live R w (CList l n) \<longleftrightarrow> lw_lists w l \<noteq> None \<and> n \<in> set (R l)"
| "cookie_live R w (CVector v i) \<longleftrightarrow> (\<exists>V. vw_vecs w v = Some V \<and> 0 \<le> i \<and> i \<le> v_last V)"
| "cookie_live R w c \<longleftrightarrow> False"

lemma vec_after_ok: "vec_after cs w w' \<Longrightarrow> vecs_ok w'"
  unfolding vecs_ok_def vec_after_def by (metis option.distinct(1) option.exhaust option.inject)

lemma vec_after_same: "vecs_ok w \<Longrightarrow> vw_vecs w' = vw_vecs w \<Longrightarrow> \<forall>c \<in> cs. \<exists>l n. c = CList l n \<Longrightarrow> vec_after cs w w'"
  unfolding vecs_ok_def vec_after_def by auto

lemma expire_one:
  assumes ok: "lists_ok w R" "vecs_ok w" and c: "cookie_live R w c"
  shows "\<exists>w1. expire_cookie (container_ops ops) c w = Some w1 \<and>
    lists_ok w1 (\<lambda>l. filter (\<lambda>n. CList l n \<noteq> c) (R l)) \<and> vec_after {c} w w1 \<and>
    (\<forall>d. d \<noteq> c \<longrightarrow> cookie_live R w d \<longrightarrow> cookie_live (\<lambda>l. filter (\<lambda>n. CList l n \<noteq> c) (R l)) w1 d)"
proof (cases c)
  case (CList l n)
  with c obtain xs ys where R: "R l = xs @ n # ys" and l: "lw_lists w l \<noteq> None" by (auto dest: split_list)
  from expire_lists_ok [OF ok(1) l R] obtain w1 where
    w1: "hlt_list_expire l n w = Some w1" "lists_ok w1 (R(l := xs @ ys))" "\<forall>l'. lw_lists w1 l' = None \<longleftrightarrow> lw_lists w l' = None" by blast
  have "n \<notin> set xs \<and> n \<notin> set ys" using lists_ok_distinct [OF ok(1) l] R by auto
  then have "filter (\<lambda>k. k \<noteq> n) xs = xs" "filter (\<lambda>k. k \<noteq> n) ys = ys" by (auto simp: filter_id_conv)
  then have "filter (\<lambda>k. k \<noteq> n) (R l) = xs @ ys" using R by simp
  then have eq: "(\<lambda>l'. filter (\<lambda>k. CList l' k \<noteq> c) (R l')) = R(l := xs @ ys)" using CList by (auto simp: fun_eq_iff)
  note vs = list_expire_vecs [OF w1(1)]
  have "cookie_live (R(l := xs @ ys)) w1 d" if d: "d \<noteq> c" "cookie_live R w d" for d
    using d CList R w1(3) vs by (cases d) auto
  moreover have "vec_after {c} w w1" by (rule vec_after_same [OF ok(2) vs]) (simp add: CList)
  ultimately show ?thesis using w1(1,2) CList unfolding eq by auto
next
  case (CVector v i)
  with c obtain V where V: "vw_vecs w v = Some V" "0 \<le> i" "i \<le> v_last V" by auto
  have sh: "vec_shape V" using ok(2) V(1) by (simp add: vecs_ok_def)
  from vec_expire_ok [OF V(1) sh V(2,3)] obtain V' where
    V': "hlt_vector_expire v i w = Some (put_vec v V' w)" "vec_shape V'" "vconf V' = vconf V" "v_capacity V' = v_capacity V"
      "v_elems V' = (v_elems V)[nat i := v_def V]" "v_occupied V' = (v_occupied V)[nat i := False]"
      "\<forall>j. j \<noteq> nat i \<longrightarrow> map_option (\<lambda>ts. ts ! j) (v_timers V') = map_option (\<lambda>ts. ts ! j) (v_timers V)" by blast
  have "v_elems V' ! j = (if CVector v (int j) \<in> {c} then v_def V else v_elems V ! j) \<and>
     v_occupied V' ! j = (CVector v (int j) \<notin> {c} \<and> v_occupied V ! j) \<and>
           (CVector v (int j) \<notin> {c} \<longrightarrow> map_option (\<lambda>ts. ts ! j) (v_timers V') = map_option (\<lambda>ts. ts ! j) (v_timers V))" if "j < nat (v_capacity V)" for j
    using V' that sh CVector V(2) by (cases "j = nat i") (auto simp: vec_shape_def)
  then have "vec_after {c} w (put_vec v V' w)"
    using V(1) V'(2-4) ok(2) CVector unfolding vec_after_def by (auto simp: vecs_ok_def)
  moreover have "(\<lambda>l. filter (\<lambda>n. CList l n \<noteq> c) (R l)) = R" using CVector by simp
  moreover have "cookie_live R (put_vec v V' w) d" if "cookie_live R w d" for d
    using that V V'(3) by (cases d) (auto simp: vconf_def)
  ultimately show ?thesis using V'(1) ok(1) CVector by simp
qed (use c in auto)

lemma vec_after_erase: "vec_after cs (erase w) (erase w') \<longleftrightarrow> vec_after cs w w'" "vecs_ok (erase w) \<longleftrightarrow> vecs_ok w"
  "cookie_live R (erase w) c \<longleftrightarrow> cookie_live R w c"
  by (auto simp: vec_after_def vecs_ok_def erase_def, (cases c, auto)+)

section \<open>Traversal\<close>

definition vec_at :: "addr \<Rightarrow> hlt_vector \<Rightarrow> nat \<Rightarrow> vec_iter" where
  "vec_at v V k = (if int k \<le> v_last V then \<lparr>vi_vec = Some v, vi_idx = int k\<rparr> else hlt_vector_end)"

definition vec_ready :: "addr \<Rightarrow> hlt_vector \<Rightarrow> 'a vec_world_scheme \<Rightarrow> bool" where
  "vec_ready v V w \<longleftrightarrow> vec_inv v V w \<and> vec_clock V w"

abbreviation vec_at_end ::
  "'a vec_world_scheme expiry_ops \<Rightarrow> vec_iter \<Rightarrow> 'a vec_world_scheme \<Rightarrow> (bool \<times> 'a vec_world_scheme) option" where
  "vec_at_end ops i w \<equiv> hlt_iterator_vector_eq ops i hlt_vector_end w"

lemma vec_ready_access:
  assumes "vec_ready v V w" "int k \<le> v_last V"
  shows "\<exists>w'. vec_access_entry ops v (int k) w = Some w' \<and> vec_ready v V w'"
proof -
  from access_ok [of v V w "int k" ops] assms obtain w' where
    "vec_access_entry ops v (int k) w = Some w'" "vec_inv v V w'" "vec_same v w w'" by (auto simp: vec_ready_def)
  then show ?thesis using assms(1) by (auto simp: vec_ready_def vec_clock_def vec_same_def)
qed

interpretation vt: traversal "vec_ready v" vvals "vec_at v" "vec_at_end ops" "hlt_iterator_vector_deref ops"
  hlt_iterator_vector_incr for v ops
proof (unfold_locales, goal_cases)
  case (1 V w k)
  then have sh: "vec_shape V" by (simp add: vec_ready_def vec_inv_def)
  show ?case
  proof (cases "int k \<le> v_last V")
    case True
    with vec_ready_access [OF 1(1) True, of ops] vlen(1) [OF sh] show ?thesis
      by (auto simp: hlt_iterator_vector_eq_def vec_at_def hlt_vector_end_def)
  next
    case False
    with 1 vlen(1) [OF sh] show ?thesis
      by (auto simp: hlt_iterator_vector_eq_def vec_at_def hlt_vector_end_def)
  qed
next
  case (2 V w k)
  then have sh: "vec_shape V" by (simp add: vec_ready_def vec_inv_def)
  then have k: "int k \<le> v_last V" "k < length (v_elems V)" using 2(2) vlen(1) [OF sh] by (auto simp: vec_shape_def)
  from vec_ready_access [OF 2(1) k(1), of ops] obtain w' where
    "vec_access_entry ops v (int k) w = Some w'" "vec_ready v V w'" by blast
  then show ?case using k
    by (auto simp: hlt_iterator_vector_deref_def vec_at_def vec_ready_def vec_inv_def safe_simps vvals_def)
next
  case (3 V w k)
  then have sh: "vec_shape V" and V: "vw_vecs w v = Some V" by (auto simp: vec_ready_def vec_inv_def)
  then have "int k \<le> v_last V" using 3(2) vlen(1) [OF sh] by auto
  then show ?case using V by (simp add: hlt_iterator_vector_incr_def vec_at_def hlt_vector_end_def)
qed

lemma vec_begin_at: "vec_ready v V w \<Longrightarrow> hlt_vector_begin v w = Some (vec_at v V 0)"
  by (simp add: vec_ready_def vec_inv_def hlt_vector_begin_def vec_at_def hlt_vector_end_def)

section \<open>Quadratic growth\<close>

lemma set_step_quadratic:
  assumes "1 \<le> c"
  shows "nat c * (nat c + 1) \<le> f32 (f32 (nat c) * grown2 c) div 2"
proof -
  let ?n = "nat c"
  have n: "1 \<le> ?n" using assms by simp
  have "100 * f32 k \<ge> 99 * k" for k using f32_bounds(1) [of k] by linarith
  note b = this [of ?n] this [of "?n + 1"] this [of "3 * f32 (?n + 1)"] this [of "f32 ?n * grown2 c"]
  have g: "grown2 c = f32 (3 * f32 (?n + 1))" using assms by (simp add: grown2_def nat_add_distrib)
  have "290 * (?n + 1) \<le> 100 * grown2 c" using b(2,3) unfolding g by linarith
  from mult_mono [OF b(1) this] have "28710 * (?n * (?n + 1)) \<le> 10000 * (f32 ?n * grown2 c)" by (simp add: algebra_simps)
  then have "28 * (?n * (?n + 1)) \<le> 10 * f32 (f32 ?n * grown2 c)" using b(4) by linarith
  moreover have "2 \<le> ?n * (?n + 1)" using mult_mono [of 1 ?n 2 "?n + 1"] n by simp
  ultimately show ?thesis by linarith
qed

lemma set_capacity_quadratic:
  assumes "1 \<le> c" "c \<le> i" "i < 2147483648"
  shows "\<exists>c'. set_capacity i c = Some c' \<and> i < c' \<and> c * (c + 1) \<le> c'"
proof -
  from set_step_ok [of c] assms obtain c1 where
    c1: "f32_to_int64 (f32 (f32 (nat c) * grown2 c) div 2) = Some c1" "c < c1" by auto
  from set_capacity_ok [of c1 i] c1(2) assms obtain c' where c': "set_capacity i c1 = Some c'" "i < c'" "c1 \<le> c'" by auto
  have "c1 = int (f32 (f32 (nat c) * grown2 c) div 2)" using c1(1) by (simp add: f32_to_int64_def split: if_splits)
  then have "int (nat c * (nat c + 1)) \<le> c1" using set_step_quadratic [OF assms(1)] by (metis of_nat_le_iff)
  then have "c * (c + 1) \<le> c1" using assms(1) by (simp add: algebra_simps)
  moreover have "set_capacity i c = Some c'" using assms(2) c1(1) c'(1) by (subst set_capacity.simps) simp
  ultimately show ?thesis using c' by auto
qed

lemma set_capacity_step:
  "c \<le> i \<Longrightarrow> f32_to_int64 (f32 (f32 (nat c) * grown2 c) div 2) = Some c' \<Longrightarrow> set_capacity i c = set_capacity i c'"
  by (subst set_capacity.simps) simp

section \<open>Properties\<close>

text \<open>
  A vector of capacity 3 that holds 11 and 12 and has no manager.
\<close>

definition plain_vec :: hlt_vector where
  "plain_vec = \<lparr>v_elems = [11, 12, 0], v_occupied = [True, True, False], v_timers = None, v_last = 1, v_capacity = 3,
     v_def = 99, v_tmgr = None, v_timeout = 0, v_strategy = hlt_enum_unset\<rparr>"

definition plain_vecs :: vec_world where
  "plain_vecs = \<lparr>tw_timers = Map.empty, tw_mgrs = Map.empty, tw_next = 6, tw_ctx_tmgr = 0, tw_vid_main = True,
     tw_global_time = 0, tw_excpt = None, lw_nodes = Map.empty, lw_lists = Map.empty, vw_vecs = [3 \<mapsto> plain_vec]\<rparr>"

definition vec_actions :: "vec_world expiry_ops" where
  "vec_actions = \<lparr>x_function = \<lambda>_. Some, x_list = hlt_list_expire, x_map = \<lambda>_ _. Some, x_set = \<lambda>_ _. Some,
     x_vector = hlt_vector_expire, x_profiler = \<lambda>_. Some\<rparr>"

lemma plain_vec_shape: "vec_shape plain_vec"
  by (auto simp: vec_shape_def plain_vec_def numeral_eq_Suc less_Suc_eq)

lemma plain_vecs_inv: "vec_inv 3 plain_vec plain_vecs" "fresh_timers plain_vecs" "vec_clock plain_vec plain_vecs"
  using plain_vec_shape
  by (simp_all add: vec_inv_def plain_vecs_def vec_links_def fresh_timers_def vec_clock_def) (simp_all add: plain_vec_def)

text \<open>
  C12: A vector behaves as a sequence of values. Any sequence of appends, assignments and reads, on a vector with or without
  expiration, runs without undefined behaviour and gives the results of the specification: an assignment beyond the end extends the vector with the
  default element, positions that were skipped do not count as assigned, and a read beyond the end raises an index error.
\<close>

theorem vector_refines_sequence:
  assumes "vec_inv v V w" "fresh_timers w" "vec_clock V w" "vec_fits (length (vvals V)) xs"
  shows "\<exists>w' V'. run_vec ops v xs w = Some (fst (vspec_run (v_def V) xs (vvals V, vocc V, tw_excpt w)), w') \<and>
    (vvals V', vocc V', tw_excpt w') = snd (vspec_run (v_def V) xs (vvals V, vocc V, tw_excpt w)) \<and> vec_inv v V' w'"
  using run_vec_follows [OF assms, of ops] unfolding vstate_def .

theorem vector_refines_sequence_witness:
  "\<exists>w' V'. run_vec vec_actions 3 [VPush 7, VSet 5 9, VGet 4, VGet 6] plain_vecs = Some ([None, None, Some 99, None], w') \<and>
    (vvals V', vocc V', tw_excpt w') = ([11, 12, 7, 99, 99, 9], [True, True, True, False, False, True], Some IndexError) \<and>
    vec_inv 3 V' w'"
proof -
  have "vvals plain_vec = [11, 12]" "vocc plain_vec = [True, True]" "v_def plain_vec = 99" "tw_excpt plain_vecs = None"
    by (simp_all add: vvals_def vocc_def plain_vec_def plain_vecs_def)
  then show ?thesis
    using vector_refines_sequence [OF plain_vecs_inv, of "[VPush 7, VSet 5 9, VGet 4, VGet 6]" vec_actions]
    by (simp add: vset_def numeral_2_eq_2)
qed

text \<open>
  C35: Growing. Appending to a full vector of capacity \<open>c\<close> reserves between \<open>c + 1\<close> and \<open>2 * (c + 1)\<close> slots (3 for a new vector, whose
  capacity is 1). Assigning beyond the
  capacity, in contrast, squares the capacity in each step, because the code multiplies the capacity by the growth it means to set it to: on a new vector, index
  395523 makes it ask for 234658250752 slots.
\<close>

theorem vector_growth:
  assumes "1 \<le> c" "c \<le> i" "i < 2147483648"
  shows "(\<exists>c'. push_capacity c = Some c' \<and> c < c' \<and> c' \<le> 2 * (c + 1)) \<and>
    (\<exists>c'. set_capacity i c = Some c' \<and> i < c' \<and> c * (c + 1) \<le> c') \<and>
    set_capacity 395523 1 = Some 234658250752"
proof (intro conjI)
  show "\<exists>c'. push_capacity c = Some c' \<and> c < c' \<and> c' \<le> 2 * (c + 1)"
    unfolding push_capacity_def f32_to_int64_def using grown2_bounds [of c] assms by auto
  show "\<exists>c'. set_capacity i c = Some c' \<and> i < c' \<and> c * (c + 1) \<le> c'" by (rule set_capacity_quadratic [OF assms])
  show "set_capacity 395523 1 = Some 234658250752"
  proof -
    have "set_capacity 395523 1 = set_capacity 395523 3" "set_capacity 395523 3 = set_capacity 395523 18"
      "set_capacity 395523 18 = set_capacity 395523 513" "set_capacity 395523 513 = set_capacity 395523 395523"
      "set_capacity 395523 395523 = set_capacity 395523 234658250752"
      by (rule set_capacity_step; simp add: f32_def f32_shift.simps grown2_def f32_to_int64_def)+
    then show ?thesis by (simp add: set_capacity.simps [of 395523 234658250752])
  qed
qed

theorem vector_growth_witness:
  "(\<exists>c'. push_capacity 4 = Some c' \<and> 4 < c' \<and> c' \<le> 2 * (4 + 1)) \<and>
    (\<exists>c'. set_capacity 9 4 = Some c' \<and> 9 < c' \<and> 4 * (4 + 1) \<le> c') \<and> set_capacity 395523 1 = Some 234658250752"
  by (rule vector_growth) simp_all

text \<open>
  Activating expiration for a vector that was created without a timer manager installs the manager of the execution context but
  not the array of timers: every following append or assignment is undefined.
\<close>

theorem vector_timeout_needs_timers:
  assumes "hlt_vector_new d None w = (v, w1)"
  shows "\<exists>w2. hlt_vector_timeout v strategy k w1 = Some w2 \<and> hlt_vector_push_back ops v x w2 = None \<and>
    hlt_vector_set ops v 0 x w2 = None"
  using assms
  by (auto simp: hlt_vector_new_def hlt_vector_timeout_def hlt_vector_push_back_def hlt_vector_set_def put_vec_def Let_def
      to_int32_def vec_fill.simps vec_fill_slot_def iwr_def wr_def)

theorem vector_timeout_needs_timers_witness:
  "\<exists>w2. hlt_vector_timeout 6 expire_strategy_access 5 (snd (hlt_vector_new 99 None plain_vecs)) = Some w2 \<and>
    hlt_vector_push_back vec_actions 6 7 w2 = None \<and> hlt_vector_set vec_actions 6 0 7 w2 = None"
  by (rule vector_timeout_needs_timers [of 99 plain_vecs]) (simp add: hlt_vector_new_def plain_vecs_def)

end
