(* ===== verification/Channel.thy ===== *)
theory Channel
  imports Prelude
begin

text \<open>
  Channels between threads, \<^verbatim>\<open>libhilti/channel.c\<close>: a queue of items in a chain of chunks with a pointer to the next
  item to read and one to the next free slot. The copies of a channel in different threads share one structure
  (\<open>channel_shared\<close>) with a reference count.

  A pointer into the data of a chunk is the chunk's address and the index of the item; items are values. Memory allocation
  does not fail (\<^verbatim>\<open>hlt_malloc\<close> ends the process when it does), so that a chunk can always be created. A mutex makes each
  operation atomic: \<open>chan_step\<close> interleaves the operations of several threads, with the threads that wait in
  \<^verbatim>\<open>pthread_cond_wait\<close> for an item, the signal that a write sends to one of them, and the wake-ups without a signal that
  POSIX allows. \<open>size_t\<close> and \<open>int64_t\<close> values are numbers; the conversion in the comparison of both is written out.
\<close>

section \<open>State\<close>

record channel_chunk =
  ck_capacity :: nat
  ck_wcnt :: nat
  ck_rcnt :: nat
  ck_data :: "val list"
  ck_next :: ptr

record channel_shared =
  cs_capacity :: int
  cs_size :: int
  cs_chunk_cap :: nat
  cs_rc :: addr
  cs_wc :: addr
  cs_head :: "addr \<times> nat"
  cs_tail :: "addr \<times> nat"
  cs_ref_cnt :: nat

record chan_world =
  cw_chunks :: "addr \<rightharpoonup> channel_chunk"
  cw_shared :: "addr \<rightharpoonup> channel_shared"
  cw_chans :: "addr \<rightharpoonup> addr"
  cw_next :: addr
  cw_excpt :: "exn option"

definition initial_chunk_size :: nat where
  "initial_chunk_size = 256"

definition max_chunk_size :: nat where
  "max_chunk_size = 16384"

section \<open>Operations\<close>

text \<open>The structure that a channel object refers to.\<close>

definition shared_of :: "addr \<Rightarrow> chan_world \<Rightarrow> (addr \<times> channel_shared) option" where
  "shared_of ch w = do { s \<leftarrow> cw_chans w ch; S \<leftarrow> cw_shared w s; Some (s, S) }"

definition put_shared :: "addr \<Rightarrow> channel_shared \<Rightarrow> chan_world \<Rightarrow> chan_world" where
  "put_shared s S w = w\<lparr>cw_shared := (cw_shared w)(s \<mapsto> S)\<rparr>"

definition put_chunk :: "addr \<Rightarrow> channel_chunk \<Rightarrow> chan_world \<Rightarrow> chan_world" where
  "put_chunk c C w = w\<lparr>cw_chunks := (cw_chunks w)(c \<mapsto> C)\<rparr>"

definition hlt_chunk_create :: "nat \<Rightarrow> chan_world \<Rightarrow> addr \<times> chan_world" where
  "hlt_chunk_create capacity w =
     (cw_next w,
      (put_chunk (cw_next w)
         \<lparr>ck_capacity = capacity, ck_wcnt = 0, ck_rcnt = 0, ck_data = replicate capacity 0, ck_next = None\<rparr> w)
        \<lparr>cw_next := cw_next w + 1\<rparr>)"

definition hlt_channel_read_item :: "addr \<Rightarrow> chan_world \<Rightarrow> (val \<times> chan_world) option" where
  "hlt_channel_read_item ch w = do {
     (s, S) \<leftarrow> shared_of ch w;
     R \<leftarrow> cw_chunks w (cs_rc S);
     S1 \<leftarrow> (if ck_rcnt R = ck_capacity R
            then do { n \<leftarrow> ck_next R; Some (S\<lparr>cs_rc := n, cs_head := (n, 0)\<rparr>) }
            else Some S);
     H \<leftarrow> cw_chunks w (fst (cs_head S1));
     item \<leftarrow> rd (ck_data H) (snd (cs_head S1));
     R1 \<leftarrow> cw_chunks w (cs_rc S1);
     Some (item,
       put_shared s (S1\<lparr>cs_head := (fst (cs_head S1), snd (cs_head S1) + 1), cs_size := cs_size S1 - 1\<rparr>)
         (put_chunk (cs_rc S1) (R1\<lparr>ck_rcnt := ck_rcnt R1 + 1\<rparr>) w))
   }"

text \<open>
  The loop that halves the size of the next chunk; the difference is converted to \<open>size_t\<close> for the comparison.
\<close>

function halve_chunk_cap :: "int \<Rightarrow> nat \<Rightarrow> nat" where
  "halve_chunk_cap room c = (if c > nat (room mod 18446744073709551616) then halve_chunk_cap room (c div 2) else c)"
  by pat_completeness auto

termination
  by (relation "measure snd") auto

declare halve_chunk_cap.simps [simp del]

definition next_chunk_cap :: "channel_shared \<Rightarrow> nat" where
  "next_chunk_cap S =
     (if cs_capacity S \<noteq> 0 then halve_chunk_cap (cs_capacity S - cs_size S) (cs_chunk_cap S)
      else if cs_chunk_cap S < max_chunk_size then cs_chunk_cap S * 2
      else cs_chunk_cap S)"

definition hlt_channel_write_item :: "addr \<Rightarrow> val \<Rightarrow> chan_world \<Rightarrow> chan_world option" where
  "hlt_channel_write_item ch x w = do {
     (s, S) \<leftarrow> shared_of ch w;
     W \<leftarrow> cw_chunks w (cs_wc S);
     let (S1, w1) =
       (if ck_wcnt W = ck_capacity W
        then let cap = next_chunk_cap S; (n, w1) = hlt_chunk_create cap w
          in (S\<lparr>cs_chunk_cap := cap, cs_wc := n, cs_tail := (n, 0)\<rparr>,
              put_chunk (cs_wc S) (W\<lparr>ck_next := Some n\<rparr>) w1)
        else (S, w));
     T \<leftarrow> cw_chunks w1 (fst (cs_tail S1));
     data \<leftarrow> wr (ck_data T) (snd (cs_tail S1)) x;
     let w2 = put_chunk (fst (cs_tail S1)) (T\<lparr>ck_data := data\<rparr>) w1;
     W1 \<leftarrow> cw_chunks w2 (cs_wc S1);
     Some (put_shared s (S1\<lparr>cs_tail := (fst (cs_tail S1), snd (cs_tail S1) + 1), cs_size := cs_size S1 + 1\<rparr>)
       (put_chunk (cs_wc S1) (W1\<lparr>ck_wcnt := ck_wcnt W1 + 1\<rparr>) w2))
   }"

definition hlt_channel_clone_init :: "addr \<Rightarrow> addr \<Rightarrow> chan_world \<Rightarrow> chan_world option" where
  "hlt_channel_clone_init dst src w = do {
     (s, S) \<leftarrow> shared_of src w;
     Some ((put_shared s (S\<lparr>cs_ref_cnt := add64 (cs_ref_cnt S) 1\<rparr>) w)\<lparr>cw_chans := (cw_chans w)(dst \<mapsto> s)\<rparr>)
   }"

definition hlt_channel_new :: "int \<Rightarrow> chan_world \<Rightarrow> addr \<times> chan_world" where
  "hlt_channel_new capacity w =
     (let ch = cw_next w; s = ch + 1;
        (c, w1) = hlt_chunk_create initial_chunk_size (w\<lparr>cw_next := s + 1\<rparr>);
        S = \<lparr>cs_capacity = capacity, cs_size = 0, cs_chunk_cap = initial_chunk_size, cs_rc = c, cs_wc = c,
             cs_head = (c, 0), cs_tail = (c, 0), cs_ref_cnt = 1\<rparr>
      in (ch, (put_shared s S w1)\<lparr>cw_chans := (cw_chans w1)(ch \<mapsto> s)\<rparr>))"

text \<open>The result of a write also says whether the call signals \<^verbatim>\<open>empty_cv\<close> before it releases the lock.\<close>

definition hlt_channel_write :: "addr \<Rightarrow> val \<Rightarrow> chan_world \<Rightarrow> (bool \<times> chan_world) option" where
  "hlt_channel_write ch x w = do {
     w1 \<leftarrow> hlt_channel_write_item ch x w;
     Some (True, w1)
   }"

definition hlt_channel_write_try :: "addr \<Rightarrow> val \<Rightarrow> chan_world \<Rightarrow> (bool \<times> chan_world) option" where
  "hlt_channel_write_try ch x w = do {
     (s, S) \<leftarrow> shared_of ch w;
     (if cs_capacity S \<noteq> 0 \<and> cs_size S = cs_capacity S then Some (False, w\<lparr>cw_excpt := Some WouldBlock\<rparr>)
      else do {
        w1 \<leftarrow> hlt_channel_write_item ch x w;
        Some (True, w1)
      })
   }"

text \<open>A read from an empty channel waits; \<^term>\<open>None\<close> in the result says so.\<close>

definition hlt_channel_read :: "addr \<Rightarrow> chan_world \<Rightarrow> (val option \<times> chan_world) option" where
  "hlt_channel_read ch w = do {
     (s, S) \<leftarrow> shared_of ch w;
     (if cs_size S = 0 then Some (None, w)
      else map_option (\<lambda>(x, w1). (Some x, w1)) (hlt_channel_read_item ch w))
   }"

definition hlt_channel_read_try :: "addr \<Rightarrow> chan_world \<Rightarrow> (val option \<times> chan_world) option" where
  "hlt_channel_read_try ch w = do {
     (s, S) \<leftarrow> shared_of ch w;
     (if cs_size S = 0 then Some (None, w\<lparr>cw_excpt := Some WouldBlock\<rparr>)
      else map_option (\<lambda>(x, w1). (Some x, w1)) (hlt_channel_read_item ch w))
   }"

definition hlt_channel_size :: "addr \<Rightarrow> chan_world \<Rightarrow> int option" where
  "hlt_channel_size ch w = map_option (\<lambda>(s, S). cs_size S) (shared_of ch w)"

text \<open>The destructor: the last owner reads the remaining items and frees the chunks from the reader's on.\<close>

partial_function (option) drain :: "addr \<Rightarrow> chan_world \<Rightarrow> chan_world option" where
  "drain ch w = do {
     (s, S) \<leftarrow> shared_of ch w;
     (if cs_size S = 0 then Some w
      else do { (_, w1) \<leftarrow> hlt_channel_read_item ch w; drain ch w1 })
   }"

declare drain.simps [code]

partial_function (option) free_chunks :: "ptr \<Rightarrow> chan_world \<Rightarrow> chan_world option" where
  "free_chunks p w =
     (case p of
        None \<Rightarrow> Some w
      | Some c \<Rightarrow> do {
          C \<leftarrow> cw_chunks w c;
          free_chunks (ck_next C) (w\<lparr>cw_chunks := (cw_chunks w)(c := None)\<rparr>)
        })"

declare free_chunks.simps [code]

definition hlt_channel_dtor :: "addr \<Rightarrow> chan_world \<Rightarrow> chan_world option" where
  "hlt_channel_dtor ch w = do {
     (s, S) \<leftarrow> shared_of ch w;
     let w1 = put_shared s (S\<lparr>cs_ref_cnt := sub64 (cs_ref_cnt S) 1\<rparr>) w;
     (if sub64 (cs_ref_cnt S) 1 > 0 then Some w1
      else do {
        w2 \<leftarrow> drain ch w1;
        (_, S2) \<leftarrow> shared_of ch w2;
        w3 \<leftarrow> free_chunks (Some (cs_rc S2)) w2;
        Some (w3\<lparr>cw_shared := (cw_shared w3)(s := None)\<rparr>)
      })
   }"

section \<open>The invariant\<close>

text \<open>
  \<open>chain h as\<close>: the chunks \<open>as\<close> are linked, and all but the last are full. \<open>chan_rep\<close>: the chunks from the reader's to the
  writer's and the two pointers into them; \<open>unread\<close> is what a chunk holds for the reader.
\<close>

fun chain :: "(addr \<rightharpoonup> channel_chunk) \<Rightarrow> addr list \<Rightarrow> bool" where
  "chain h [] \<longleftrightarrow> False"
| "chain h [a] \<longleftrightarrow> (\<exists>C. h a = Some C \<and> ck_next C = None)"
| "chain h (a # b # as) \<longleftrightarrow> (\<exists>C. h a = Some C \<and> ck_next C = Some b \<and> ck_wcnt C = ck_capacity C) \<and> chain h (b # as)"

definition unread :: "(addr \<rightharpoonup> channel_chunk) \<Rightarrow> addr \<Rightarrow> val list" where
  "unread h a = (case h a of None \<Rightarrow> [] | Some C \<Rightarrow> drop (ck_rcnt C) (take (ck_wcnt C) (ck_data C)))"

definition chunk_ok :: "(addr \<rightharpoonup> channel_chunk) \<Rightarrow> addr \<Rightarrow> bool" where
  "chunk_ok h a \<longleftrightarrow> (\<exists>C. h a = Some C \<and> length (ck_data C) = ck_capacity C \<and> 0 < ck_capacity C \<and>
     ck_rcnt C \<le> ck_wcnt C \<and> ck_wcnt C \<le> ck_capacity C)"

definition untouched :: "(addr \<rightharpoonup> channel_chunk) \<Rightarrow> addr \<Rightarrow> bool" where
  "untouched h a \<longleftrightarrow> (\<exists>C. h a = Some C \<and> ck_rcnt C = 0 \<and> 0 < ck_wcnt C)"

definition chan_rep :: "(addr \<rightharpoonup> channel_chunk) \<Rightarrow> channel_shared \<Rightarrow> addr list \<Rightarrow> bool" where
  "chan_rep h S as \<longleftrightarrow> chain h as \<and> distinct as \<and> (\<forall>a \<in> set as. chunk_ok h a) \<and> (\<forall>a \<in> set (tl as). untouched h a) \<and>
     cs_rc S = hd as \<and> cs_wc S = last as \<and>
     cs_head S = (hd as, (case h (hd as) of None \<Rightarrow> 0 | Some C \<Rightarrow> ck_rcnt C)) \<and>
     cs_tail S = (last as, (case h (last as) of None \<Rightarrow> 0 | Some C \<Rightarrow> ck_wcnt C))"

definition chan_inv :: "addr \<Rightarrow> val list \<Rightarrow> chan_world \<Rightarrow> bool" where
  "chan_inv ch xs w \<longleftrightarrow> (\<exists>s S as. shared_of ch w = Some (s, S) \<and> chan_rep (cw_chunks w) S as \<and>
     xs = concat (map (unread (cw_chunks w)) as) \<and> cs_size S = int (length xs) \<and> 0 < cs_chunk_cap S \<and> 0 \<le> cs_capacity S \<and>
     cs_capacity S \<le> 9223372036854775807 \<and> (\<forall>a \<ge> cw_next w. cw_chunks w a = None))"

definition chan_capacity :: "addr \<Rightarrow> chan_world \<Rightarrow> int" where
  "chan_capacity ch w = (case shared_of ch w of None \<Rightarrow> 0 | Some (s, S) \<Rightarrow> cs_capacity S)"

lemma chain_Cons: "as \<noteq> [] \<Longrightarrow> chain h (a # as) \<longleftrightarrow>
  (\<exists>C. h a = Some C \<and> ck_next C = Some (hd as) \<and> ck_wcnt C = ck_capacity C) \<and> chain h as"
  by (cases as) auto

lemma chain_live: "chain h as \<Longrightarrow> a \<in> set as \<Longrightarrow> \<exists>C. h a = Some C"
  by (induction h as rule: chain.induct) auto

lemma chain_cong: "(\<And>a. a \<in> set as \<Longrightarrow> h' a = h a) \<Longrightarrow> chain h' as \<longleftrightarrow> chain h as"
  by (induction h as rule: chain.induct) auto

text \<open>Changing a chunk without touching its link, and filling only the last one.\<close>

lemma chain_upd:
  assumes "chain h as" "h a = Some C" "ck_next C' = ck_next C" "ck_capacity C' = ck_capacity C"
    and "ck_wcnt C' = ck_wcnt C \<or> as \<noteq> [] \<and> a \<notin> set (butlast as)"
  shows "chain (h(a \<mapsto> C')) as"
  using assms by (induction h as rule: chain.induct) (auto split: if_splits)

lemma chain_snoc:
  assumes "chain h as" "h (last as) = Some C" "ck_wcnt C = ck_capacity C" "distinct as" "b \<notin> set as" "ck_next N = None"
  shows "chain (h(b \<mapsto> N, last as \<mapsto> C\<lparr>ck_next := Some b\<rparr>)) (as @ [b])"
  using assms by (induction h as rule: chain.induct) (auto split: if_splits)

lemma concat_unread_cong: "(\<And>a. a \<in> set as \<Longrightarrow> h' a = h a) \<Longrightarrow> concat (map (unread h') as) = concat (map (unread h) as)"
  by (rule arg_cong [of _ _ concat]) (simp add: unread_def)

lemma put_simps [simp]:
  "cw_chunks (put_shared s S w) = cw_chunks w" "cw_chans (put_shared s S w) = cw_chans w"
  "cw_shared (put_shared s S w) = (cw_shared w)(s \<mapsto> S)" "cw_next (put_shared s S w) = cw_next w" "cw_excpt (put_shared s S w) = cw_excpt w"
  "cw_chunks (put_chunk c C w) = (cw_chunks w)(c \<mapsto> C)" "cw_chans (put_chunk c C w) = cw_chans w"
  "cw_shared (put_chunk c C w) = cw_shared w" "cw_next (put_chunk c C w) = cw_next w" "cw_excpt (put_chunk c C w) = cw_excpt w"
  by (simp_all add: put_shared_def put_chunk_def)

lemma shared_of_put: "shared_of ch w = Some (s, S) \<Longrightarrow> cw_chans w' = cw_chans w \<Longrightarrow> cw_shared w' = (cw_shared w)(s \<mapsto> S') \<Longrightarrow>
  shared_of ch w' = Some (s, S')"
  by (auto simp: shared_of_def bind_eq_Some_conv)

section \<open>Reading\<close>

text \<open>Moving on to the next chunk when the reader's is used up leaves the items as they are.\<close>

lemma rep_advance:
  assumes rep: "chan_rep h S (a # as)" and full: "h a = Some C" "ck_rcnt C = ck_capacity C" and ne: "as \<noteq> []"
  shows "chan_rep h (S\<lparr>cs_rc := hd as, cs_head := (hd as, 0)\<rparr>) as" "ck_next C = Some (hd as)" "unread h a = []"
proof -
  have "untouched h (hd as)" using rep ne by (auto simp: chan_rep_def)
  then have "(case h (hd as) of None \<Rightarrow> 0 | Some C \<Rightarrow> ck_rcnt C) = 0" by (auto simp: untouched_def)
  moreover have "\<forall>b \<in> set (tl as). untouched h b" using rep ne by (auto simp: chan_rep_def dest: list.set_sel(2))
  ultimately show "chan_rep h (S\<lparr>cs_rc := hd as, cs_head := (hd as, 0)\<rparr>) as"
    using rep ne by (simp add: chan_rep_def chain_Cons)
  show "ck_next C = Some (hd as)" using rep full ne by (auto simp: chan_rep_def chain_Cons)
  have "chunk_ok h a" using rep by (simp add: chan_rep_def)
  then show "unread h a = []" using full by (auto simp: unread_def chunk_ok_def)
qed

text \<open>Taking the first item of the reader's chunk.\<close>

lemma rep_take:
  assumes rep: "chan_rep h S (a # as)" and C: "h a = Some C" "ck_rcnt C < ck_wcnt C"
  shows "chan_rep (h(a \<mapsto> C\<lparr>ck_rcnt := ck_rcnt C + 1\<rparr>)) (S\<lparr>cs_head := (a, ck_rcnt C + 1), cs_size := k\<rparr>) (a # as)"
    "ck_rcnt C < length (ck_data C)" "cs_head S = (a, ck_rcnt C)"
    "concat (map (unread h) (a # as)) =
       ck_data C ! ck_rcnt C # concat (map (unread (h(a \<mapsto> C\<lparr>ck_rcnt := ck_rcnt C + 1\<rparr>))) (a # as))"
proof -
  let ?h = "h(a \<mapsto> C\<lparr>ck_rcnt := ck_rcnt C + 1\<rparr>)"
  have na: "a \<notin> set as" and ok: "chunk_ok h a" using rep by (auto simp: chan_rep_def)
  have "chain ?h (a # as)" by (rule chain_upd [of h "a # as" a C]) (use rep C in \<open>auto simp: chan_rep_def\<close>)
  moreover have "\<forall>b \<in> set (a # as). chunk_ok ?h b"
    using rep C unfolding chan_rep_def chunk_ok_def by auto
  moreover have "\<forall>b \<in> set as. untouched ?h b" using rep na unfolding chan_rep_def untouched_def by auto
  moreover have "(case ?h (last (a # as)) of None \<Rightarrow> 0 | Some C \<Rightarrow> ck_wcnt C) = (case h (last (a # as)) of None \<Rightarrow> 0 | Some C \<Rightarrow> ck_wcnt C)"
    using C by simp
  ultimately show "chan_rep ?h (S\<lparr>cs_head := (a, ck_rcnt C + 1), cs_size := k\<rparr>) (a # as)"
    using rep by (simp add: chan_rep_def)
  show len: "ck_rcnt C < length (ck_data C)" using ok C by (auto simp: chunk_ok_def)
  show "cs_head S = (a, ck_rcnt C)" using rep C by (simp add: chan_rep_def)
  have "concat (map (unread ?h) as) = concat (map (unread h) as)" by (rule concat_unread_cong) (use na in auto)
  moreover have "ck_rcnt C < length (take (ck_wcnt C) (ck_data C))" using len C by simp
  then have "drop (ck_rcnt C) (take (ck_wcnt C) (ck_data C)) =
      ck_data C ! ck_rcnt C # drop (Suc (ck_rcnt C)) (take (ck_wcnt C) (ck_data C))"
    using C(2) by (metis Cons_nth_drop_Suc nth_take)
  ultimately show "concat (map (unread h) (a # as)) = ck_data C ! ck_rcnt C # concat (map (unread ?h) (a # as))"
    using C by (simp add: unread_def)
qed

definition chan_same :: "addr \<Rightarrow> chan_world \<Rightarrow> chan_world \<Rightarrow> bool" where
  "chan_same ch w w' \<longleftrightarrow> cw_excpt w' = cw_excpt w \<and> chan_capacity ch w' = chan_capacity ch w"

lemma read_item_ok:
  assumes inv: "chan_inv ch (x # xs) w"
  shows "\<exists>w'. hlt_channel_read_item ch w = Some (x, w') \<and> chan_inv ch xs w' \<and> chan_same ch w w'"
proof -
  from inv obtain s S as where
    S: "shared_of ch w = Some (s, S)" and rep: "chan_rep (cw_chunks w) S as" and
    xs: "x # xs = concat (map (unread (cw_chunks w)) as)" and sz: "cs_size S = int (length (x # xs))" and
    cap: "0 < cs_chunk_cap S" "0 \<le> cs_capacity S" "cs_capacity S \<le> 9223372036854775807" and
    fr: "\<forall>a \<ge> cw_next w. cw_chunks w a = None" unfolding chan_inv_def by blast
  let ?h = "cw_chunks w"
  obtain a as1 where as: "as = a # as1" using rep by (cases as) (auto simp: chan_rep_def)
  have ok: "chunk_ok ?h a" using rep as by (simp add: chan_rep_def)
  then obtain R where R: "?h a = Some R" "ck_rcnt R \<le> ck_wcnt R" "ck_wcnt R \<le> ck_capacity R" by (auto simp: chunk_ok_def)
  have rc: "cs_rc S = a" using rep as by (simp add: chan_rep_def)
  \<comment> \<open>the state after a possible move to the next chunk\<close>
  obtain S1 b bs C where m: "(if ck_rcnt R = ck_capacity R then ck_next R \<bind> (\<lambda>n. Some (S\<lparr>cs_rc := n, cs_head := (n, 0)\<rparr>)) else Some S) = Some S1"
    "chan_rep ?h S1 (b # bs)" "?h b = Some C" "ck_rcnt C < ck_wcnt C" "concat (map (unread ?h) (b # bs)) = x # xs"
    "cs_size S1 = cs_size S" "cs_chunk_cap S1 = cs_chunk_cap S" "cs_capacity S1 = cs_capacity S"
  proof (cases "ck_rcnt R = ck_capacity R")
    case True
    have e: "unread ?h a = []" using True R by (simp add: unread_def)
    have ne: "as1 \<noteq> []" using e xs as by auto
    then obtain b bs where bs: "as1 = b # bs" by (cases as1) auto
    note adv = rep_advance [OF rep [unfolded as] R(1) True ne]
    have "untouched ?h b" using rep as bs by (simp add: chan_rep_def)
    then obtain C where C: "?h b = Some C" "ck_rcnt C < ck_wcnt C" by (auto simp: untouched_def)
    have "concat (map (unread ?h) (b # bs)) = x # xs" using xs as bs e by simp
    then show ?thesis using that [OF _ adv(1) [unfolded bs] C] adv(2) True bs by simp
  next
    case False
    have "ck_rcnt R < ck_wcnt R"
    proof (cases "as1 = []")
      case True
      then have "unread ?h a = x # xs" using xs as by simp
      then show ?thesis using R by (simp add: unread_def) (metis drop_all length_take list.distinct(1) min.cobounded2 not_less order_trans)
    next
      case f: False
      then have "ck_wcnt R = ck_capacity R" using rep as R by (auto simp: chan_rep_def chain_Cons)
      then show ?thesis using False R by simp
    qed
    then show ?thesis using that [of S a as1 R] rep as R xs False by simp
  qed
  note t = rep_take [OF m(2-4)]
  let ?C = "C\<lparr>ck_rcnt := ck_rcnt C + 1\<rparr>" let ?S = "S1\<lparr>cs_head := (b, ck_rcnt C + 1), cs_size := cs_size S1 - 1\<rparr>"
  let ?w = "put_shared s ?S (put_chunk b ?C w)"
  have x: "ck_data C ! ck_rcnt C = x" "concat (map (unread (?h(b \<mapsto> ?C))) (b # bs)) = xs" using t(4) m(5) by auto
  have rc1: "cs_rc S1 = b" using m(2) by (simp add: chan_rep_def)
  have run: "hlt_channel_read_item ch w = Some (x, ?w)"
    using S R(1) rc m(1,3) t(2,3) x(1) rc1 by (simp add: hlt_channel_read_item_def rd_def)
  have so: "shared_of ch ?w = Some (s, ?S)" using shared_of_put [OF S] by simp
  have "chan_inv ch xs ?w"
    unfolding chan_inv_def using so t(1) [of "cs_size S1 - 1"] x(2) sz m(3,6-8) cap fr by (intro exI [of _ s] exI [of _ ?S] exI [of _ "b # bs"]) auto
  moreover have "chan_same ch w ?w" using S so m(8) by (simp add: chan_same_def chan_capacity_def)
  ultimately show ?thesis using run by blast
qed

section \<open>Writing\<close>

text \<open>Putting an item into the writer's chunk when it has room.\<close>

lemma rep_put:
  assumes rep: "chan_rep h S as" and C: "h (last as) = Some C" "ck_wcnt C < ck_capacity C" "ck_rcnt C \<le> ck_wcnt C"
    and C': "C' = C\<lparr>ck_data := (ck_data C)[ck_wcnt C := x], ck_wcnt := ck_wcnt C + 1\<rparr>"
  shows "chan_rep (h(last as \<mapsto> C')) (S\<lparr>cs_tail := (last as, ck_wcnt C + 1), cs_size := k\<rparr>) as"
    "ck_wcnt C < length (ck_data C)" "cs_tail S = (last as, ck_wcnt C)"
    "concat (map (unread (h(last as \<mapsto> C'))) as) = concat (map (unread h) as) @ [x]"
proof -
  let ?h = "h(last as \<mapsto> C')"
  have ne: "as \<noteq> []" using rep by (auto simp: chan_rep_def)
  then obtain bs where bs: "as = bs @ [last as]" by (metis append_butlast_last_id)
  have nb: "last as \<notin> set bs" using rep bs by (metis chan_rep_def distinct_append disjoint_iff list.set_intros(1))
  have ok: "chunk_ok h (last as)" using rep ne by (simp add: chan_rep_def)
  show len: "ck_wcnt C < length (ck_data C)" using ok C by (auto simp: chunk_ok_def)
  show "cs_tail S = (last as, ck_wcnt C)" using rep C by (simp add: chan_rep_def)
  have "butlast as = bs" using bs by (metis butlast_snoc)
  then have "chain ?h as" by (intro chain_upd [of h as "last as" C]) (use rep C C' nb ne in \<open>auto simp: chan_rep_def\<close>)
  moreover have "\<forall>b \<in> set as. chunk_ok ?h b" using rep C C' unfolding chan_rep_def chunk_ok_def by auto
  moreover have "\<forall>b \<in> set (tl as). untouched ?h b" using rep C C' unfolding chan_rep_def untouched_def by auto
  moreover have "(case ?h (hd as) of None \<Rightarrow> 0 | Some C \<Rightarrow> ck_rcnt C) = (case h (hd as) of None \<Rightarrow> 0 | Some C \<Rightarrow> ck_rcnt C)"
    using C C' by simp
  ultimately show "chan_rep ?h (S\<lparr>cs_tail := (last as, ck_wcnt C + 1), cs_size := k\<rparr>) as"
    using rep C' by (simp add: chan_rep_def)
  have "concat (map (unread ?h) bs) = concat (map (unread h) bs)" by (rule concat_unread_cong) (use nb in auto)
  moreover have "unread ?h (last as) = unread h (last as) @ [x]"
    using C C' len by (simp add: unread_def take_Suc_conv_app_nth)
  ultimately show "concat (map (unread ?h) as) = concat (map (unread h) as) @ [x]"
    by (subst (1 3) bs) simp
qed

text \<open>Linking a new chunk behind the writer's when that is full, and putting the item there.\<close>

lemma rep_new_chunk:
  assumes rep: "chan_rep h S as" and C: "h (last as) = Some C" "ck_wcnt C = ck_capacity C" and b: "h b = None" and n: "0 < n"
    and N: "N = \<lparr>ck_capacity = n, ck_wcnt = 1, ck_rcnt = 0, ck_data = (replicate n 0)[0 := x], ck_next = None\<rparr>"
  shows "chan_rep (h(b \<mapsto> N, last as \<mapsto> C\<lparr>ck_next := Some b\<rparr>))
      (S\<lparr>cs_chunk_cap := n, cs_wc := b, cs_tail := (b, 1), cs_size := k\<rparr>) (as @ [b])"
    "concat (map (unread (h(b \<mapsto> N, last as \<mapsto> C\<lparr>ck_next := Some b\<rparr>))) (as @ [b])) = concat (map (unread h) as) @ [x]"
proof -
  let ?h = "h(b \<mapsto> N, last as \<mapsto> C\<lparr>ck_next := Some b\<rparr>)"
  have ne: "as \<noteq> []" using rep by (auto simp: chan_rep_def)
  have out: "b \<notin> set as" using rep b by (auto simp: chan_rep_def chunk_ok_def)
  then have bl: "b \<noteq> last as" using ne by auto
  have "chain ?h (as @ [b])"
    by (rule chain_snoc) (use rep C out N in \<open>auto simp: chan_rep_def\<close>)
  moreover have "\<forall>a \<in> set (as @ [b]). chunk_ok ?h a" using rep C N n bl unfolding chan_rep_def chunk_ok_def by auto
  moreover have "\<forall>a \<in> set (tl (as @ [b])). untouched ?h a" using rep C N bl ne unfolding chan_rep_def untouched_def by auto
  moreover have "(case ?h (hd as) of None \<Rightarrow> 0 | Some C \<Rightarrow> ck_rcnt C) = (case h (hd as) of None \<Rightarrow> 0 | Some C \<Rightarrow> ck_rcnt C)"
    using C out ne by (auto simp: fun_upd_def)
  ultimately show "chan_rep ?h (S\<lparr>cs_chunk_cap := n, cs_wc := b, cs_tail := (b, 1), cs_size := k\<rparr>) (as @ [b])"
    using rep N ne out bl by (simp add: chan_rep_def)
  have "unread ?h a = unread h a" if "a \<in> set as" for a using that out C by (auto simp: unread_def)
  then have "concat (map (unread ?h) as) = concat (map (unread h) as)" by (intro arg_cong [of _ _ concat]) simp
  moreover have "unread ?h b = [x]" using bl N n by (cases n) (auto simp: unread_def)
  ultimately show "concat (map (unread ?h) (as @ [b])) = concat (map (unread h) as) @ [x]" by simp
qed

lemma halve_positive: "1 \<le> r \<Longrightarrow> r \<le> 9223372036854775807 \<Longrightarrow> 0 < c \<Longrightarrow> 0 < halve_chunk_cap r c"
proof (induction r c rule: halve_chunk_cap.induct)
  case (1 room c)
  show ?case
  proof (cases "c > nat (room mod 18446744073709551616)")
    case True
    then have "0 < c div 2" using 1(2,3) by (auto simp: nat_less_iff)
    then show ?thesis using 1 True by (subst halve_chunk_cap.simps) simp
  next
    case False
    then show ?thesis using 1 by (subst halve_chunk_cap.simps) simp
  qed
qed

lemma next_cap_positive:
  "0 < cs_chunk_cap S \<Longrightarrow> 0 \<le> cs_size S \<Longrightarrow> cs_capacity S \<le> 9223372036854775807 \<Longrightarrow> cs_capacity S = 0 \<or> cs_size S < cs_capacity S \<Longrightarrow>
   0 < next_chunk_cap S"
  by (auto simp: next_chunk_cap_def intro!: halve_positive)

lemma write_item_ok:
  assumes inv: "chan_inv ch xs w" and room: "chan_capacity ch w = 0 \<or> int (length xs) < chan_capacity ch w"
  shows "\<exists>w'. hlt_channel_write_item ch x w = Some w' \<and> chan_inv ch (xs @ [x]) w' \<and> chan_same ch w w'"
proof -
  from inv obtain s S as where
    S: "shared_of ch w = Some (s, S)" and rep: "chan_rep (cw_chunks w) S as" and
    xs: "xs = concat (map (unread (cw_chunks w)) as)" and sz: "cs_size S = int (length xs)" and
    cap: "0 < cs_chunk_cap S" "0 \<le> cs_capacity S" "cs_capacity S \<le> 9223372036854775807" and
    fr: "\<forall>a \<ge> cw_next w. cw_chunks w a = None" unfolding chan_inv_def by blast
  let ?h = "cw_chunks w" let ?b = "cw_next w"
  have cc: "chan_capacity ch w = cs_capacity S" using S by (simp add: chan_capacity_def)
  have ne: "as \<noteq> []" using rep by (auto simp: chan_rep_def)
  have wc: "cs_wc S = last as" using rep by (simp add: chan_rep_def)
  have "chunk_ok ?h (last as)" using rep ne by (simp add: chan_rep_def)
  then obtain C where C: "?h (last as) = Some C" "ck_rcnt C \<le> ck_wcnt C" "ck_wcnt C \<le> ck_capacity C" by (auto simp: chunk_ok_def)
  have nb: "?b \<noteq> last as" using fr C(1) by fastforce
  show ?thesis
  proof (cases "ck_wcnt C = ck_capacity C")
    case False
    then have lt: "ck_wcnt C < ck_capacity C" using C(3) by simp
    let ?C = "C\<lparr>ck_data := (ck_data C)[ck_wcnt C := x], ck_wcnt := ck_wcnt C + 1\<rparr>"
    let ?S = "S\<lparr>cs_tail := (last as, ck_wcnt C + 1), cs_size := cs_size S + 1\<rparr>"
    note t = rep_put(1,4) [OF rep C(1) lt C(2) refl, where x = x] and u = rep_put(2,3) [OF rep C(1) lt C(2) refl]
    let ?w = "put_shared s ?S (put_chunk (last as) ?C (put_chunk (last as) (C\<lparr>ck_data := (ck_data C)[ck_wcnt C := x]\<rparr>) w))"
    have run: "hlt_channel_write_item ch x w = Some ?w"
      using S wc C(1) u False by (simp add: hlt_channel_write_item_def wr_def Let_def)
    have so: "shared_of ch ?w = Some (s, ?S)" using shared_of_put [OF S] by simp
    have "chan_inv ch (xs @ [x]) ?w"
      unfolding chan_inv_def using so t(1) [of "cs_size S + 1"] t(2) xs sz cap fr C(1)
      by (intro exI [of _ s] exI [of _ ?S] exI [of _ as]) auto
    moreover have "chan_same ch w ?w" using S so by (simp add: chan_same_def chan_capacity_def)
    ultimately show ?thesis using run by blast
  next
    case True
    let ?n = "next_chunk_cap S"
    have n: "0 < ?n" using next_cap_positive [of S] cap sz room cc by simp
    let ?N = "\<lparr>ck_capacity = ?n, ck_wcnt = 1, ck_rcnt = 0, ck_data = (replicate ?n 0)[0 := x], ck_next = None\<rparr>"
    let ?S = "S\<lparr>cs_chunk_cap := ?n, cs_wc := ?b, cs_tail := (?b, 1), cs_size := cs_size S + 1\<rparr>"
    have b: "?h ?b = None" using fr by simp
    note t = rep_new_chunk [OF rep C(1) True b n, where N = ?N and x = x, OF refl]
    let ?M = "\<lparr>ck_capacity = ?n, ck_wcnt = 0, ck_rcnt = 0, ck_data = replicate ?n 0, ck_next = None\<rparr>"
    let ?w1 = "put_chunk (last as) (C\<lparr>ck_next := Some ?b\<rparr>) ((put_chunk ?b ?M w)\<lparr>cw_next := ?b + 1\<rparr>)"
    let ?w2 = "put_shared s ?S (put_chunk ?b ?N (put_chunk ?b (?M\<lparr>ck_data := (replicate ?n 0)[0 := x]\<rparr>) ?w1))"
    obtain w' where w': "hlt_channel_write_item ch x w = Some w'" "cw_chunks w' = ?h(?b \<mapsto> ?N, last as \<mapsto> C\<lparr>ck_next := Some ?b\<rparr>)"
      "cw_chans w' = cw_chans w" "cw_shared w' = (cw_shared w)(s \<mapsto> ?S)" "cw_next w' = ?b + 1" "cw_excpt w' = cw_excpt w"
    proof (rule that [of ?w2])
      show "hlt_channel_write_item ch x w = Some ?w2"
        using S wc C(1) True n nb by (simp add: hlt_channel_write_item_def hlt_chunk_create_def wr_def Let_def)
    qed (use nb in \<open>simp_all add: fun_upd_twist\<close>)
    have so: "shared_of ch w' = Some (s, ?S)" using shared_of_put [OF S w'(3,4)] .
    have "chan_inv ch (xs @ [x]) w'"
      unfolding chan_inv_def w'(2) using so t(1) [of "cs_size S + 1"] t(2) xs sz cap fr n C(1) w'(5)
      by (intro exI [of _ s] exI [of _ ?S] exI [of _ "as @ [?b]"]) auto
    moreover have "chan_same ch w w'" using S so w'(6) by (simp add: chan_same_def chan_capacity_def)
    ultimately show ?thesis using w'(1) by blast
  qed
qed

section \<open>The queue contract\<close>

text \<open>
  What the operations on a channel rely on: a queue with an optional bound, where \<open>put\<close> appends when there is room and \<open>get\<close> removes the
  first item.
\<close>

locale bounded_queue =
  fixes inv :: "'v list \<Rightarrow> 's \<Rightarrow> bool" and bound :: "'s \<Rightarrow> int" and put :: "'v \<Rightarrow> 's \<Rightarrow> 's option"
    and get :: "'s \<Rightarrow> ('v \<times> 's) option"
  assumes put: "inv xs s \<Longrightarrow> bound s = 0 \<or> int (length xs) < bound s \<Longrightarrow>
      \<exists>s'. put x s = Some s' \<and> inv (xs @ [x]) s' \<and> bound s' = bound s"
    and get: "inv (x # xs) s \<Longrightarrow> \<exists>s'. get s = Some (x, s') \<and> inv xs s' \<and> bound s' = bound s"
begin

lemma put_all:
  assumes "inv xs s" "bound s = 0 \<or> int (length xs + length ys) \<le> bound s"
  shows "\<exists>s'. foldr (\<lambda>y f s. put y s \<bind> f) ys Some s = Some s' \<and> inv (xs @ ys) s' \<and> bound s' = bound s"
  using assms
proof (induction ys arbitrary: xs s)
  case (Cons y ys)
  then have "bound s = 0 \<or> int (length xs) < bound s" by auto
  from put [OF Cons.prems(1) this, of y] obtain s1 where s1: "put y s = Some s1" "inv (xs @ [y]) s1" "bound s1 = bound s" by blast
  from Cons.IH [OF s1(2)] s1(3) Cons.prems(2) obtain s2 where
    "foldr (\<lambda>y f s. put y s \<bind> f) ys Some s1 = Some s2" "inv ((xs @ [y]) @ ys) s2" "bound s2 = bound s1" by auto
  then show ?case using s1 by simp
qed auto

end

interpretation cq: bounded_queue "chan_inv ch" "chan_capacity ch" "hlt_channel_write_item ch" "hlt_channel_read_item ch" for ch
proof (unfold_locales, goal_cases)
  case (1 xs s x)
  from write_item_ok [OF 1, of x] show ?case by (auto simp: chan_same_def)
next
  case (2 x xs s)
  from read_item_ok [OF 2] show ?case by (auto simp: chan_same_def)
qed

lemma chan_inv_size: "chan_inv ch xs w \<Longrightarrow> \<exists>s S. shared_of ch w = Some (s, S) \<and> cs_size S = int (length xs)"
  by (auto simp: chan_inv_def)

lemma chan_inv_error: "chan_inv ch xs (w\<lparr>cw_excpt := e\<rparr>) \<longleftrightarrow> chan_inv ch xs w"
  "chan_capacity ch (w\<lparr>cw_excpt := e\<rparr>) = chan_capacity ch w"
  by (simp_all add: chan_inv_def shared_of_def chan_capacity_def)

lemma new_channel_ok:
  assumes "hlt_channel_new cap w = (ch, w')" "0 \<le> cap" "cap \<le> 9223372036854775807" "\<forall>a \<ge> cw_next w. cw_chunks w a = None"
  shows "chan_inv ch [] w'" "chan_capacity ch w' = cap"
proof -
  let ?c = "cw_next w + 2"
  let ?C = "\<lparr>ck_capacity = initial_chunk_size, ck_wcnt = 0, ck_rcnt = 0, ck_data = replicate initial_chunk_size 0, ck_next = None\<rparr>"
  let ?S = "\<lparr>cs_capacity = cap, cs_size = 0, cs_chunk_cap = initial_chunk_size, cs_rc = ?c, cs_wc = ?c,
             cs_head = (?c, 0), cs_tail = (?c, 0), cs_ref_cnt = 1\<rparr>"
  have w': "ch = cw_next w" "shared_of ch w' = Some (cw_next w + 1, ?S)" "cw_chunks w' = (cw_chunks w)(?c \<mapsto> ?C)" "cw_next w' = ?c + 1"
    using assms(1) by (auto simp: hlt_channel_new_def hlt_chunk_create_def Let_def shared_of_def)
  then show "chan_capacity ch w' = cap" by (simp add: chan_capacity_def)
  have "chan_rep (cw_chunks w') ?S [?c]"
    using w'(3) by (simp add: chan_rep_def chunk_ok_def initial_chunk_size_def)
  moreover have "unread (cw_chunks w') ?c = []" using w'(3) by (simp add: unread_def)
  ultimately show "chan_inv ch [] w'"
    unfolding chan_inv_def using w' assms(2-4)
    by (intro exI [of _ "cw_next w + 1"] exI [of _ ?S] exI [of _ "[?c]"]) (auto simp: initial_chunk_size_def)
qed

section \<open>Threads\<close>

text \<open>
  A thread is running, waits inside \<^verbatim>\<open>hlt_channel_read\<close>, or has been woken and is about to test the condition again. \<open>chan_step ch i\<close> is
  one atomic step of thread \<open>i\<close>; the configuration also records the items written and read so far, in order.
\<close>

datatype chan_call = Write val | WriteTry val | Read | ReadTry

datatype thread_state = Running "chan_call list" | Waiting "chan_call list" | Woken "chan_call list"

record chan_conf =
  cc_world :: chan_world
  cc_threads :: "thread_state list"
  cc_written :: "val list"
  cc_read :: "val list"

definition chan_full :: "addr \<Rightarrow> chan_world \<Rightarrow> bool" where
  "chan_full ch w \<longleftrightarrow> (case shared_of ch w of None \<Rightarrow> False | Some (s, S) \<Rightarrow> cs_capacity S \<noteq> 0 \<and> cs_size S = cs_capacity S)"

text \<open>\<^verbatim>\<open>pthread_cond_signal\<close> wakes one of the waiting threads, if there are any.\<close>

inductive signal :: "thread_state list \<Rightarrow> thread_state list \<Rightarrow> bool" where
  signal_none: "\<forall>q. Waiting q \<notin> set ts \<Longrightarrow> signal ts ts"
| signal_one: "j < length ts \<Longrightarrow> ts ! j = Waiting q \<Longrightarrow> signal ts (ts[j := Woken q])"

definition notify :: "bool \<Rightarrow> thread_state list \<Rightarrow> thread_state list \<Rightarrow> bool" where
  "notify sg ts ts' \<longleftrightarrow> (if sg then signal ts ts' else ts' = ts)"

inductive chan_step :: "addr \<Rightarrow> nat \<Rightarrow> chan_conf \<Rightarrow> chan_conf \<Rightarrow> bool" for ch i where
  step_write: "i < length (cc_threads c) \<Longrightarrow> cc_threads c ! i = Running (Write x # p) \<Longrightarrow>
    hlt_channel_write ch x (cc_world c) = Some (sg, w) \<Longrightarrow> notify sg ((cc_threads c)[i := Running p]) ts \<Longrightarrow>
    chan_step ch i c (c\<lparr>cc_world := w, cc_threads := ts, cc_written := cc_written c @ [x]\<rparr>)"
| step_write_try: "i < length (cc_threads c) \<Longrightarrow> cc_threads c ! i = Running (WriteTry x # p) \<Longrightarrow>
    \<not> chan_full ch (cc_world c) \<Longrightarrow> hlt_channel_write_try ch x (cc_world c) = Some (sg, w) \<Longrightarrow>
    notify sg ((cc_threads c)[i := Running p]) ts \<Longrightarrow>
    chan_step ch i c (c\<lparr>cc_world := w, cc_threads := ts, cc_written := cc_written c @ [x]\<rparr>)"
| step_write_full: "i < length (cc_threads c) \<Longrightarrow> cc_threads c ! i = Running (WriteTry x # p) \<Longrightarrow>
    chan_full ch (cc_world c) \<Longrightarrow> hlt_channel_write_try ch x (cc_world c) = Some (sg, w) \<Longrightarrow>
    notify sg ((cc_threads c)[i := Running p]) ts \<Longrightarrow> chan_step ch i c (c\<lparr>cc_world := w, cc_threads := ts\<rparr>)"
| step_read: "i < length (cc_threads c) \<Longrightarrow> cc_threads c ! i \<in> {Running (Read # p), Woken (Read # p)} \<Longrightarrow>
    hlt_channel_read ch (cc_world c) = Some (Some x, w) \<Longrightarrow>
    chan_step ch i c (c\<lparr>cc_world := w, cc_threads := (cc_threads c)[i := Running p], cc_read := cc_read c @ [x]\<rparr>)"
| step_wait: "i < length (cc_threads c) \<Longrightarrow> cc_threads c ! i \<in> {Running (Read # p), Woken (Read # p)} \<Longrightarrow>
    hlt_channel_read ch (cc_world c) = Some (None, w) \<Longrightarrow>
    chan_step ch i c (c\<lparr>cc_world := w, cc_threads := (cc_threads c)[i := Waiting (Read # p)]\<rparr>)"
| step_read_try: "i < length (cc_threads c) \<Longrightarrow> cc_threads c ! i = Running (ReadTry # p) \<Longrightarrow>
    hlt_channel_read_try ch (cc_world c) = Some (r, w) \<Longrightarrow>
    chan_step ch i c (c\<lparr>cc_world := w, cc_threads := (cc_threads c)[i := Running p],
      cc_read := cc_read c @ (case r of None \<Rightarrow> [] | Some x \<Rightarrow> [x])\<rparr>)"
| step_wake: "i < length (cc_threads c) \<Longrightarrow> cc_threads c ! i = Waiting q \<Longrightarrow>
    chan_step ch i c (c\<lparr>cc_threads := (cc_threads c)[i := Woken q]\<rparr>)"

inductive_cases signalE: "signal ts ts'"

inductive chan_run :: "addr \<Rightarrow> chan_conf \<Rightarrow> chan_conf \<Rightarrow> bool" for ch where
  run_refl: "chan_run ch c c"
| run_step: "chan_run ch c c1 \<Longrightarrow> chan_step ch i c1 c2 \<Longrightarrow> chan_run ch c c2"

fun calls_of :: "thread_state \<Rightarrow> chan_call list" where
  "calls_of (Running p) = p"
| "calls_of (Waiting p) = p"
| "calls_of (Woken p) = p"

fun is_woken :: "thread_state \<Rightarrow> bool" where
  "is_woken (Woken p) = True"
| "is_woken _ = False"

definition nwoken :: "thread_state list \<Rightarrow> nat" where
  "nwoken ts = length (filter is_woken ts)"

definition has_waiting :: "thread_state list \<Rightarrow> bool" where
  "has_waiting ts \<longleftrightarrow> (\<exists>q. Waiting q \<in> set ts)"

text \<open>A bounded channel is only written to by the calls that test the bound; a thread waits only in a read.\<close>

definition thread_ok :: "int \<Rightarrow> thread_state \<Rightarrow> bool" where
  "thread_ok cap t \<longleftrightarrow> (cap = 0 \<or> (\<forall>x. Write x \<notin> set (calls_of t))) \<and>
     (\<forall>q. t = Waiting q \<or> t = Woken q \<longrightarrow> (\<exists>p. q = Read # p))"

definition conf_inv :: "addr \<Rightarrow> val list \<Rightarrow> chan_conf \<Rightarrow> bool" where
  "conf_inv ch xs c \<longleftrightarrow> chan_inv ch xs (cc_world c) \<and>
     (\<forall>t \<in> set (cc_threads c). thread_ok (chan_capacity ch (cc_world c)) t) \<and> cc_written c = cc_read c @ xs \<and>
     (chan_capacity ch (cc_world c) \<noteq> 0 \<longrightarrow> int (length xs) \<le> chan_capacity ch (cc_world c)) \<and>
     (has_waiting (cc_threads c) \<longrightarrow> length xs \<le> nwoken (cc_threads c))"

lemma length_filter_update:
  assumes "i < length xs"
  shows "length (filter P (xs[i := x])) + (if P (xs ! i) then 1 else 0) = length (filter P xs) + (if P x then 1 else 0)"
proof -
  have "length (filter P xs) = length (filter P (take i xs @ xs ! i # drop (Suc i) xs))"
    by (rule arg_cong [OF id_take_nth_drop [OF assms]])
  then show ?thesis by (simp add: upd_conv_take_nth_drop [OF assms])
qed

lemma nwoken_update:
  assumes "i < length ts"
  shows "nwoken (ts[i := t]) + (if is_woken (ts ! i) then 1 else 0) = nwoken ts + (if is_woken t then 1 else 0)"
  using length_filter_update [OF assms, of is_woken t] by (simp add: nwoken_def)

lemma has_waiting_update: "has_waiting (ts[i := t]) \<Longrightarrow> (\<And>q. t \<noteq> Waiting q) \<Longrightarrow> has_waiting ts"
  unfolding has_waiting_def using set_update_subset_insert by fastforce

lemma signal_wakes:
  assumes "signal ts ts'" "has_waiting ts \<Longrightarrow> n \<le> nwoken ts"
  shows "has_waiting ts' \<Longrightarrow> n + 1 \<le> nwoken ts'"
  using assms
proof (induction rule: signal.induct)
  case (signal_none ts)
  then show ?case by (simp add: has_waiting_def)
next
  case (signal_one j ts q)
  then have "has_waiting ts" unfolding has_waiting_def by (metis nth_mem)
  then show ?case using signal_one nwoken_update [of j ts "Woken q"] by simp
qed

lemma threads_update:
  assumes "\<forall>t \<in> set ts. thread_ok cap t" "thread_ok cap t"
  shows "\<forall>t \<in> set (ts[i := t]). thread_ok cap t"
  using assms set_update_subset_insert [of ts i t] by blast

lemma threads_signal:
  assumes "signal ts ts'" "\<forall>t \<in> set ts. thread_ok cap t"
  shows "\<forall>t \<in> set ts'. thread_ok cap t"
  using assms
proof (induction rule: signal.induct)
  case (signal_one j ts q)
  then have "thread_ok cap (Waiting q)" by (metis nth_mem)
  then have "thread_ok cap (Woken q)" by (simp add: thread_ok_def)
  then show ?case by (rule threads_update [OF signal_one(3)])
qed

lemma thread_rest:
  assumes "\<forall>t \<in> set ts. thread_ok cap t" "i < length ts" "calls_of (ts ! i) = k # p"
  shows "thread_ok cap (Running p)" "cap = 0 \<or> (\<forall>x. k \<noteq> Write x)" "k = Read \<Longrightarrow> thread_ok cap (Waiting (k # p))"
proof -
  have "thread_ok cap (ts ! i)" using assms by simp
  then show "thread_ok cap (Running p)" "cap = 0 \<or> (\<forall>x. k \<noteq> Write x)" "k = Read \<Longrightarrow> thread_ok cap (Waiting (k # p))"
    using assms(3) by (auto simp: thread_ok_def)
qed

text \<open>A thread that stops running or wakes up, and one that starts to run.\<close>

lemma waiting_run:
  assumes "has_waiting ts \<longrightarrow> n \<le> nwoken ts" "i < length ts" "\<not> is_woken (ts ! i) \<and> m \<le> n \<or> m < n \<or> m = 0"
  shows "has_waiting (ts[i := Running p]) \<longrightarrow> m \<le> nwoken (ts[i := Running p])"
  using assms nwoken_update [of i ts "Running p"] has_waiting_update [of ts i "Running p"] by (auto split: if_splits)

lemma write_step_inv:
  assumes inv: "conf_inv ch xs c" and i: "i < length (cc_threads c)" "cc_threads c ! i = Running (k # p)"
    and wr: "hlt_channel_write ch x (cc_world c) = Some (sg, w)" and room: "chan_capacity ch (cc_world c) = 0 \<or> int (length xs) < chan_capacity ch (cc_world c)"
    and nt: "notify sg ((cc_threads c)[i := Running p]) ts"
  shows "conf_inv ch (xs @ [x]) (c\<lparr>cc_world := w, cc_threads := ts, cc_written := cc_written c @ [x]\<rparr>)"
proof -
  let ?cap = "chan_capacity ch (cc_world c)"
  from inv have ci: "chan_inv ch xs (cc_world c)" and th: "\<forall>t \<in> set (cc_threads c). thread_ok ?cap t"
    and h: "cc_written c = cc_read c @ xs" and wk: "has_waiting (cc_threads c) \<longrightarrow> length xs \<le> nwoken (cc_threads c)"
    by (auto simp: conf_inv_def)
  from cq.put [OF ci room, of x] wr have w: "chan_inv ch (xs @ [x]) w" "chan_capacity ch w = ?cap" "sg"
    by (auto simp: hlt_channel_write_def)
  then have sg: "signal ((cc_threads c)[i := Running p]) ts" using nt by (simp add: notify_def)
  have "\<forall>t \<in> set ts. thread_ok ?cap t"
    using threads_signal [OF sg threads_update [OF th thread_rest(1) [OF th i(1)]]] i(2) by simp
  moreover have "has_waiting ts \<longrightarrow> length xs + 1 \<le> nwoken ts"
    using signal_wakes [OF sg, of "length xs"] waiting_run [OF wk i(1), of "length xs" p] i(2) by auto
  ultimately show ?thesis using w h room by (auto simp: conf_inv_def)
qed

lemma chan_step_inv:
  assumes "chan_step ch i c c'" "conf_inv ch xs c"
  shows "\<exists>ys. conf_inv ch ys c'"
  using assms
proof (induction rule: chan_step.induct)
  case (step_write c x p sg w ts)
  let ?cap = "chan_capacity ch (cc_world c)"
  have th: "\<forall>t \<in> set (cc_threads c). thread_ok ?cap t" using step_write.prems by (simp add: conf_inv_def)
  have "?cap = 0" using thread_rest(2) [OF th step_write.hyps(1)] step_write.hyps(2) by simp
  then show ?case using write_step_inv [OF step_write.prems step_write.hyps(1-3) _ step_write.hyps(4)] by blast
next
  case (step_write_try c x p sg w ts)
  from step_write_try.prems have ci: "chan_inv ch xs (cc_world c)"
    and bd: "chan_capacity ch (cc_world c) \<noteq> 0 \<longrightarrow> int (length xs) \<le> chan_capacity ch (cc_world c)" by (auto simp: conf_inv_def)
  from chan_inv_size [OF ci] obtain s S where S: "shared_of ch (cc_world c) = Some (s, S)" "cs_size S = int (length xs)" by blast
  have nf: "cs_capacity S = 0 \<or> cs_size S \<noteq> cs_capacity S" using step_write_try.hyps(3) S by (auto simp: chan_full_def)
  have run: "hlt_channel_write ch x (cc_world c) = Some (sg, w)"
    using step_write_try.hyps(4) S nf by (auto simp: hlt_channel_write_try_def hlt_channel_write_def)
  have "chan_capacity ch (cc_world c) = 0 \<or> int (length xs) < chan_capacity ch (cc_world c)"
    using nf bd S by (auto simp: chan_capacity_def)
  from write_step_inv [OF step_write_try.prems step_write_try.hyps(1,2) run this step_write_try.hyps(5)] show ?case by blast
next
  case (step_write_full c x p sg w ts)
  let ?cap = "chan_capacity ch (cc_world c)"
  note i = step_write_full.hyps(1,2)
  from step_write_full.prems have ci: "chan_inv ch xs (cc_world c)" and th: "\<forall>t \<in> set (cc_threads c). thread_ok ?cap t"
    and wk: "has_waiting (cc_threads c) \<longrightarrow> length xs \<le> nwoken (cc_threads c)" by (auto simp: conf_inv_def)
  have "w = (cc_world c)\<lparr>cw_excpt := Some WouldBlock\<rparr>" "\<not> sg"
    using step_write_full.hyps(3,4) by (auto simp: chan_full_def hlt_channel_write_try_def split: option.splits)
  then have w: "w = (cc_world c)\<lparr>cw_excpt := Some WouldBlock\<rparr>" "ts = (cc_threads c)[i := Running p]"
    using step_write_full.hyps(5) by (simp_all add: notify_def)
  have "\<forall>t \<in> set ((cc_threads c)[i := Running p]). thread_ok ?cap t"
    using threads_update [OF th thread_rest(1) [OF th i(1)]] i(2) by simp
  moreover have "has_waiting ((cc_threads c)[i := Running p]) \<longrightarrow> length xs \<le> nwoken ((cc_threads c)[i := Running p])"
    using waiting_run [OF wk i(1), of "length xs" p] i(2) by simp
  ultimately show ?case using step_write_full.prems w
    by (intro exI [of _ xs]) (auto simp: conf_inv_def chan_inv_error)
next
  case (step_read c p x w)
  let ?cap = "chan_capacity ch (cc_world c)"
  note i = step_read.hyps(1,2)
  from step_read.prems have ci: "chan_inv ch xs (cc_world c)" and th: "\<forall>t \<in> set (cc_threads c). thread_ok ?cap t"
    and h: "cc_written c = cc_read c @ xs" and bd: "?cap \<noteq> 0 \<longrightarrow> int (length xs) \<le> ?cap"
    and wk: "has_waiting (cc_threads c) \<longrightarrow> length xs \<le> nwoken (cc_threads c)" by (auto simp: conf_inv_def)
  from chan_inv_size [OF ci] obtain s S where S: "shared_of ch (cc_world c) = Some (s, S)" "cs_size S = int (length xs)" by blast
  with step_read.hyps(3) have run: "hlt_channel_read_item ch (cc_world c) = Some (x, w)" "xs \<noteq> []"
    by (auto simp: hlt_channel_read_def split: if_splits)
  then obtain y ys where xs: "xs = y # ys" by (cases xs) auto
  from cq.get [OF ci [unfolded xs]] run(1) have w: "chan_inv ch ys w" "chan_capacity ch w = ?cap" "y = x" by auto
  have "\<forall>t \<in> set ((cc_threads c)[i := Running p]). thread_ok ?cap t"
    using threads_update [OF th thread_rest(1) [OF th i(1)]] i(2) by auto
  moreover have "has_waiting ((cc_threads c)[i := Running p]) \<longrightarrow> length ys \<le> nwoken ((cc_threads c)[i := Running p])"
    using waiting_run [OF wk i(1), of "length ys" p] xs by simp
  ultimately show ?case using w h bd xs by (intro exI [of _ ys]) (auto simp: conf_inv_def)
next
  case (step_wait c p w)
  let ?cap = "chan_capacity ch (cc_world c)"
  note i = step_wait.hyps(1,2)
  from step_wait.prems have ci: "chan_inv ch xs (cc_world c)" and th: "\<forall>t \<in> set (cc_threads c). thread_ok ?cap t" by (auto simp: conf_inv_def)
  from chan_inv_size [OF ci] obtain s S where S: "shared_of ch (cc_world c) = Some (s, S)" "cs_size S = int (length xs)" by blast
  with step_wait.hyps(3) have w: "w = cc_world c" "xs = []" by (auto simp: hlt_channel_read_def split: if_splits)
  have "\<forall>t \<in> set ((cc_threads c)[i := Waiting (Read # p)]). thread_ok ?cap t"
    using threads_update [OF th thread_rest(3) [OF th i(1)]] i(2) by auto
  then show ?case using step_wait.prems w by (intro exI [of _ xs]) (auto simp: conf_inv_def)
next
  case (step_read_try c p r w)
  let ?cap = "chan_capacity ch (cc_world c)"
  note i = step_read_try.hyps(1,2)
  from step_read_try.prems have ci: "chan_inv ch xs (cc_world c)" and th: "\<forall>t \<in> set (cc_threads c). thread_ok ?cap t"
    and h: "cc_written c = cc_read c @ xs" and bd: "?cap \<noteq> 0 \<longrightarrow> int (length xs) \<le> ?cap"
    and wk: "has_waiting (cc_threads c) \<longrightarrow> length xs \<le> nwoken (cc_threads c)" by (auto simp: conf_inv_def)
  from chan_inv_size [OF ci] obtain s S where S: "shared_of ch (cc_world c) = Some (s, S)" "cs_size S = int (length xs)" by blast
  have th': "\<forall>t \<in> set ((cc_threads c)[i := Running p]). thread_ok ?cap t"
    using threads_update [OF th thread_rest(1) [OF th i(1)]] i(2) by simp
  show ?case
  proof (cases xs)
    case Nil
    with step_read_try.hyps(3) S have "r = None" "w = (cc_world c)\<lparr>cw_excpt := Some WouldBlock\<rparr>" by (auto simp: hlt_channel_read_try_def)
    then show ?thesis using Nil ci th' h bd by (intro exI [of _ xs]) (auto simp: conf_inv_def chan_inv_error)
  next
    case (Cons y ys)
    from cq.get [OF ci [unfolded Cons]] step_read_try.hyps(3) S Cons
    have w: "r = Some y" "chan_inv ch ys w" "chan_capacity ch w = ?cap" by (auto simp: hlt_channel_read_try_def)
    have "has_waiting ((cc_threads c)[i := Running p]) \<longrightarrow> length ys \<le> nwoken ((cc_threads c)[i := Running p])"
      using waiting_run [OF wk i(1), of "length ys" p] Cons by simp
    then show ?thesis using w th' h bd Cons by (intro exI [of _ ys]) (auto simp: conf_inv_def)
  qed
next
  case (step_wake c q)
  note i = step_wake.hyps
  from step_wake.prems have th: "\<forall>t \<in> set (cc_threads c). thread_ok (chan_capacity ch (cc_world c)) t"
    and wk: "has_waiting (cc_threads c) \<longrightarrow> length xs \<le> nwoken (cc_threads c)" by (auto simp: conf_inv_def)
  have "signal (cc_threads c) ((cc_threads c)[i := Woken q])" using signal_one i by blast
  note s = threads_signal [OF this th] signal_wakes [OF this, of "length xs"]
  show ?case using step_wake.prems s wk by (intro exI [of _ xs]) (auto simp: conf_inv_def)
qed

lemma chan_run_inv: "chan_run ch c c' \<Longrightarrow> conf_inv ch xs c \<Longrightarrow> \<exists>ys. conf_inv ch ys c'"
proof (induction rule: chan_run.induct)
  case (run_step c c1 i c2)
  then show ?case using chan_step_inv by blast
qed blast

lemma initial_conf_inv:
  assumes "hlt_channel_new cap w0 = (ch, w)" "0 \<le> cap" "cap \<le> 9223372036854775807" "\<forall>a \<ge> cw_next w0. cw_chunks w0 a = None"
    and "cap = 0 \<or> (\<forall>p \<in> set ps. \<forall>x. Write x \<notin> set p)"
  shows "conf_inv ch [] \<lparr>cc_world = w, cc_threads = map Running ps, cc_written = [], cc_read = []\<rparr>"
  using new_channel_ok [OF assms(1-4)] assms(2,5) by (auto simp: conf_inv_def has_waiting_def thread_ok_def)

lemma signal_total: "\<exists>ts'. signal ts ts'"
proof (cases "\<exists>q. Waiting q \<in> set ts")
  case True
  then obtain q j where "j < length ts" "ts ! j = Waiting q" by (metis in_set_conv_nth)
  then show ?thesis using signal_one by blast
next
  case False
  then show ?thesis using signal_none by blast
qed

lemma read_defined:
  assumes "chan_inv ch xs w"
  shows "\<exists>r w'. hlt_channel_read ch w = Some (r, w')" "\<exists>r w'. hlt_channel_read_try ch w = Some (r, w')"
proof -
  from chan_inv_size [OF assms] obtain s S where S: "shared_of ch w = Some (s, S)" "cs_size S = int (length xs)" by blast
  show "\<exists>r w'. hlt_channel_read ch w = Some (r, w')" "\<exists>r w'. hlt_channel_read_try ch w = Some (r, w')"
    using S cq.get [of ch "hd xs" "tl xs" w] assms by (cases xs; auto simp: hlt_channel_read_def hlt_channel_read_try_def)+
qed

lemma notify_total: "\<exists>ts'. notify sg ts ts'"
  using signal_total [of ts] by (cases sg) (auto simp: notify_def)

text \<open>A thread that does not wait can take its next step.\<close>

lemma chan_step_enabled:
  assumes inv: "conf_inv ch xs c" and i: "i < length (cc_threads c)" "calls_of (cc_threads c ! i) \<noteq> []"
    and nw: "\<And>q. cc_threads c ! i \<noteq> Waiting q"
  shows "\<exists>c'. chan_step ch i c c'"
proof -
  let ?cap = "chan_capacity ch (cc_world c)"
  from inv have ci: "chan_inv ch xs (cc_world c)" and th: "\<forall>t \<in> set (cc_threads c). thread_ok ?cap t"
    and bd: "?cap \<noteq> 0 \<longrightarrow> int (length xs) \<le> ?cap" by (auto simp: conf_inv_def)
  from chan_inv_size [OF ci] obtain s S where S: "shared_of ch (cc_world c) = Some (s, S)" "cs_size S = int (length xs)" by blast
  have read: "\<exists>c'. chan_step ch i c c'" if t: "cc_threads c ! i \<in> {Running (Read # p), Woken (Read # p)}" for p
  proof -
    from read_defined(1) [OF ci] obtain r w where "hlt_channel_read ch (cc_world c) = Some (r, w)" by blast
    then show ?thesis using step_read [OF i(1) t] step_wait [OF i(1) t] by (cases r) blast+
  qed
  have tok: "thread_ok ?cap (cc_threads c ! i)" using th i(1) by simp
  show ?thesis
  proof (cases "cc_threads c ! i")
    case (Waiting q)
    then show ?thesis using nw by blast
  next
    case (Woken q)
    with tok obtain p where "q = Read # p" by (auto simp: thread_ok_def)
    then show ?thesis using read Woken by blast
  next
    case (Running q)
    with i(2) obtain k p where q: "q = k # p" by (cases q) auto
    show ?thesis
    proof (cases k)
      case (Write x)
      with tok Running q have "?cap = 0" by (auto simp: thread_ok_def)
      from cq.put [OF ci, of x] this obtain w where "hlt_channel_write ch x (cc_world c) = Some (True, w)"
        by (auto simp: hlt_channel_write_def)
      then show ?thesis using step_write [OF i(1), of x p ch True w] notify_total Running q Write by blast
    next
      case (WriteTry x)
      show ?thesis
      proof (cases "chan_full ch (cc_world c)")
        case True
        then have "hlt_channel_write_try ch x (cc_world c) = Some (False, (cc_world c)\<lparr>cw_excpt := Some WouldBlock\<rparr>)"
          using S by (auto simp: chan_full_def hlt_channel_write_try_def)
        then show ?thesis using step_write_full [OF i(1) _ True] notify_total Running q WriteTry by blast
      next
        case False
        then have nf: "cs_capacity S = 0 \<or> cs_size S \<noteq> cs_capacity S" using S by (auto simp: chan_full_def)
        then have "?cap = 0 \<or> int (length xs) < ?cap" using bd S by (auto simp: chan_capacity_def)
        from cq.put [OF ci this, of x] nf S obtain w where "hlt_channel_write_try ch x (cc_world c) = Some (True, w)"
          by (auto simp: hlt_channel_write_try_def)
        then show ?thesis using step_write_try [OF i(1) _ False] notify_total Running q WriteTry by blast
      qed
    next
      case Read
      then show ?thesis using read Running q by blast
    next
      case ReadTry
      from read_defined(2) [OF ci] obtain r w where "hlt_channel_read_try ch (cc_world c) = Some (r, w)" by blast
      then show ?thesis using step_read_try [OF i(1)] Running q ReadTry by blast
    qed
  qed
qed

text \<open>While the channel has items and a thread waits for one, a woken reader takes the first of them.\<close>

lemma woken_reader:
  assumes inv: "conf_inv ch (x # xs) c" and wt: "has_waiting (cc_threads c)"
  shows "\<exists>j p c'. j < length (cc_threads c) \<and> cc_threads c ! j = Woken (Read # p) \<and> chan_step ch j c c' \<and>
    cc_threads c' = (cc_threads c)[j := Running p] \<and> cc_read c' = cc_read c @ [x]"
proof -
  from inv have ci: "chan_inv ch (x # xs) (cc_world c)" and th: "\<forall>t \<in> set (cc_threads c). thread_ok (chan_capacity ch (cc_world c)) t"
    and nz: "nwoken (cc_threads c) \<noteq> 0" using wt by (auto simp: conf_inv_def)
  from nz obtain t where t: "t \<in> set (cc_threads c)" "is_woken t" by (auto simp: nwoken_def filter_empty_conv)
  from t(2) obtain q where "t = Woken q" by (cases t) simp_all
  with t(1) obtain j where j: "j < length (cc_threads c)" "cc_threads c ! j = Woken q" by (auto simp only: in_set_conv_nth)
  then have "thread_ok (chan_capacity ch (cc_world c)) (Woken q)" using th by (metis nth_mem)
  then obtain p where p: "q = Read # p" by (auto simp: thread_ok_def)
  from chan_inv_size [OF ci] obtain s S where S: "shared_of ch (cc_world c) = Some (s, S)" "cs_size S = int (length (x # xs))" by blast
  from cq.get [OF ci] S obtain w where "hlt_channel_read ch (cc_world c) = Some (Some x, w)" by (auto simp: hlt_channel_read_def)
  from step_read [OF j(1) _ this, of p] j p show ?thesis by fastforce
qed

section \<open>Writing to a full channel\<close>

lemma halve_zero: "halve_chunk_cap 0 c = 0"
proof (induction c rule: less_induct)
  case (less c)
  then show ?case by (cases "c = 0") (subst halve_chunk_cap.simps, simp)+
qed

lemma write_full_undefined:
  assumes inv: "chan_inv ch xs w" and S: "shared_of ch w = Some (s, S)" "cs_capacity S \<noteq> 0" "cs_size S = cs_capacity S"
    and W: "cw_chunks w (cs_wc S) = Some W" "ck_wcnt W = ck_capacity W"
  shows "hlt_channel_write ch x w = None"
proof -
  have "cw_next w \<noteq> cs_wc S" using inv W(1) by (auto simp: chan_inv_def)
  moreover have "next_chunk_cap S = 0" using S by (simp add: next_chunk_cap_def halve_zero)
  ultimately show ?thesis using S W
    by (simp add: hlt_channel_write_def hlt_channel_write_item_def hlt_chunk_create_def Let_def wr_def)
qed

text \<open>Writing items into the first chunk, as long as it has room.\<close>

fun write_all :: "addr \<Rightarrow> val list \<Rightarrow> chan_world \<Rightarrow> chan_world option" where
  "write_all ch [] w = Some w"
| "write_all ch (x # xs) w = do { (_, w1) \<leftarrow> hlt_channel_write ch x w; write_all ch xs w1 }"

definition writer_at :: "addr \<Rightarrow> nat \<Rightarrow> nat \<Rightarrow> chan_world \<Rightarrow> bool" where
  "writer_at ch k n w \<longleftrightarrow> (\<exists>s S W. shared_of ch w = Some (s, S) \<and> cw_chunks w (cs_wc S) = Some W \<and> cs_tail S = (cs_wc S, k) \<and>
     ck_wcnt W = k \<and> ck_capacity W = n \<and> length (ck_data W) = n)"

lemma writer_step:
  assumes "writer_at ch k n w" "k < n" "hlt_channel_write ch x w = Some (sg, w')"
  shows "writer_at ch (k + 1) n w'"
proof -
  from assms(1) obtain s S W where S: "shared_of ch w = Some (s, S)" and W: "cw_chunks w (cs_wc S) = Some W" "cs_tail S = (cs_wc S, k)"
    "ck_wcnt W = k" "ck_capacity W = n" "length (ck_data W) = n" by (auto simp: writer_at_def)
  let ?S = "S\<lparr>cs_tail := (cs_wc S, k + 1), cs_size := cs_size S + 1\<rparr>"
  have w': "w' = put_shared s ?S (put_chunk (cs_wc S) (W\<lparr>ck_data := (ck_data W)[k := x], ck_wcnt := k + 1\<rparr>)
      (put_chunk (cs_wc S) (W\<lparr>ck_data := (ck_data W)[k := x]\<rparr>) w))"
    using assms(2,3) S W by (simp add: hlt_channel_write_def hlt_channel_write_item_def Let_def wr_def)
  have "shared_of ch w' = Some (s, ?S)" using shared_of_put [OF S] w' by simp
  then show ?thesis unfolding writer_at_def using W w' by auto
qed

lemma write_all_ok:
  assumes "chan_inv ch ys w" "chan_capacity ch w = 0 \<or> int (length ys + length xs) \<le> chan_capacity ch w"
    and "writer_at ch k n w" "k + length xs \<le> n"
  shows "\<exists>w'. write_all ch xs w = Some w' \<and> chan_inv ch (ys @ xs) w' \<and> chan_capacity ch w' = chan_capacity ch w \<and> writer_at ch (k + length xs) n w'"
  using assms
proof (induction xs arbitrary: ys k w)
  case (Cons x xs)
  have "chan_capacity ch w = 0 \<or> int (length ys) < chan_capacity ch w" using Cons.prems(2) by auto
  from cq.put [OF Cons.prems(1) this, of x] obtain w1 where
    w1: "hlt_channel_write ch x w = Some (True, w1)" "chan_inv ch (ys @ [x]) w1" "chan_capacity ch w1 = chan_capacity ch w"
    by (auto simp: hlt_channel_write_def)
  have "writer_at ch (k + 1) n w1" using writer_step [OF Cons.prems(3) _ w1(1)] Cons.prems(4) by simp
  from Cons.IH [OF w1(2) _ this] Cons.prems(2,4) w1(3) obtain w2 where
    "write_all ch xs w1 = Some w2" "chan_inv ch ((ys @ [x]) @ xs) w2" "chan_capacity ch w2 = chan_capacity ch w1"
    "writer_at ch (k + 1 + length xs) n w2" by auto
  then show ?case using w1 by simp
qed auto

section \<open>Properties\<close>

definition no_channels :: chan_world where
  "no_channels = \<lparr>cw_chunks = Map.empty, cw_shared = Map.empty, cw_chans = Map.empty, cw_next = 0, cw_excpt = None\<rparr>"

text \<open>Three threads, two of which wait for the item that the third one writes.\<close>

definition three_threads :: chan_conf where
  "three_threads = \<lparr>cc_world = snd (hlt_channel_new 0 no_channels), cc_threads = map Running [[Read], [Read], [Write 7]],
     cc_written = [], cc_read = []\<rparr>"

lemma three_threads_new: "hlt_channel_new 0 no_channels = (0, cc_world three_threads)"
  by (simp add: three_threads_def hlt_channel_new_def no_channels_def Let_def hlt_chunk_create_def)

lemma three_threads_eq:
  "\<lparr>cc_world = cc_world three_threads, cc_threads = map Running [[Read], [Read], [Write 7]], cc_written = [], cc_read = []\<rparr> = three_threads"
  by (simp add: three_threads_def)

lemma no_channels_fresh: "\<forall>a \<ge> cw_next no_channels. cw_chunks no_channels a = None"
  by (simp add: no_channels_def)

lemma three_threads_run:
  "\<exists>c. chan_run 0 three_threads c \<and> cc_threads c = [Waiting [Read], Woken [Read], Running []] \<and> cc_written c = [7] \<and> cc_read c = [] \<and>
     hlt_channel_size 0 (cc_world c) = Some 1"
proof -
  let ?w = "cc_world three_threads"
  have inv: "chan_inv 0 [] ?w" "chan_capacity 0 ?w = 0"
    using new_channel_ok [OF three_threads_new] no_channels_fresh by simp_all
  let ?c1 = "three_threads\<lparr>cc_world := ?w, cc_threads := (cc_threads three_threads)[0 := Waiting (Read # [])]\<rparr>"
  let ?c2 = "?c1\<lparr>cc_world := ?w, cc_threads := (cc_threads ?c1)[1 := Waiting (Read # [])]\<rparr>"
  have rd: "hlt_channel_read 0 ?w = Some (None, ?w)" using chan_inv_size [OF inv(1)] by (auto simp: hlt_channel_read_def)
  then have s1: "chan_step 0 0 three_threads ?c1" by (intro step_wait) (simp_all add: three_threads_def)
  from rd have s2: "chan_step 0 1 ?c1 ?c2" by (intro step_wait) (simp_all add: three_threads_def)
  from cq.put [OF inv(1), of 7] inv(2) obtain w' where
    w': "hlt_channel_write 0 7 ?w = Some (True, w')" "chan_inv 0 [7] w'" by (auto simp: hlt_channel_write_def)
  let ?ts = "[Waiting [Read], Woken [Read], Running []]"
  let ?c3 = "?c2\<lparr>cc_world := w', cc_threads := ?ts, cc_written := cc_written ?c2 @ [7]\<rparr>"
  have "notify True ((cc_threads ?c2)[2 := Running []]) ?ts"
    using signal_one [of 1 "[Waiting [Read], Waiting [Read], Running []]" "[Read]"] by (simp add: three_threads_def notify_def)
  then have "chan_step 0 2 ?c2 ?c3" using w'(1) by (intro step_write) (simp_all add: three_threads_def)
  then have "chan_run 0 three_threads ?c3" using run_step [OF run_step [OF run_step [OF run_refl s1] s2]] by blast
  moreover have "hlt_channel_size 0 w' = Some 1" using chan_inv_size [OF w'(2)] by (auto simp: hlt_channel_size_def)
  ultimately show ?thesis by (intro exI [of _ ?c3]) (simp add: three_threads_def)
qed

text \<open>
  C7: Threads that share a channel. In every state that the threads can reach, the items read so far are, in order, the first of the items written
  so far, and the rest are in the channel; a bounded channel never holds more items than its bound; and no wake-up is lost: while the
  channel has items and a thread waits for one, some thread has been woken to take one. The threads of an unbounded channel use all
  four calls, those of a bounded channel do not use the blocking \<^verbatim>\<open>hlt_channel_write\<close>, which does not test the bound
  (\<open>channel_write_overflows\<close>).
\<close>

theorem channel_fifo_threads:
  assumes "hlt_channel_new cap w0 = (ch, w)" "0 \<le> cap" "cap \<le> 9223372036854775807" "\<forall>a \<ge> cw_next w0. cw_chunks w0 a = None"
    and "cap = 0 \<or> (\<forall>p \<in> set ps. \<forall>x. Write x \<notin> set p)"
    and "chan_run ch \<lparr>cc_world = w, cc_threads = map Running ps, cc_written = [], cc_read = []\<rparr> c"
  shows "\<exists>xs. cc_written c = cc_read c @ xs \<and> hlt_channel_size ch (cc_world c) = Some (int (length xs)) \<and>
    (chan_capacity ch (cc_world c) \<noteq> 0 \<longrightarrow> int (length xs) \<le> chan_capacity ch (cc_world c)) \<and>
    (has_waiting (cc_threads c) \<and> xs \<noteq> [] \<longrightarrow> (\<exists>t \<in> set (cc_threads c). is_woken t))"
proof -
  from chan_run_inv [OF assms(6) initial_conf_inv [OF assms(1-5)]] obtain xs where inv: "conf_inv ch xs c" by blast
  then have ci: "chan_inv ch xs (cc_world c)" by (simp add: conf_inv_def)
  have "hlt_channel_size ch (cc_world c) = Some (int (length xs))"
    using chan_inv_size [OF ci] by (auto simp: hlt_channel_size_def)
  moreover have "\<exists>t \<in> set (cc_threads c). is_woken t" if "has_waiting (cc_threads c)" "xs \<noteq> []"
  proof -
    have "0 < nwoken (cc_threads c)" using inv that by (cases xs) (auto simp: conf_inv_def)
    then show ?thesis by (auto simp: nwoken_def filter_empty_conv)
  qed
  ultimately show ?thesis using inv by (intro exI [of _ xs]) (auto simp: conf_inv_def)
qed

theorem channel_fifo_threads_witness:
  "\<exists>c :: chan_conf. cc_threads c = [Waiting [Read], Woken [Read], Running []] \<and> (\<exists>xs. cc_written c = cc_read c @ xs \<and>
     hlt_channel_size 0 (cc_world c) = Some (int (length xs)) \<and>
     (chan_capacity 0 (cc_world c) \<noteq> 0 \<longrightarrow> int (length xs) \<le> chan_capacity 0 (cc_world c)) \<and>
     (has_waiting (cc_threads c) \<and> xs \<noteq> [] \<longrightarrow> (\<exists>t \<in> set (cc_threads c). is_woken t)))"
proof -
  from three_threads_run obtain c where
    c: "chan_run 0 three_threads c" "cc_threads c = [Waiting [Read], Woken [Read], Running []]" by blast
  note r = channel_fifo_threads [OF three_threads_new order_refl zero_le_numeral no_channels_fresh disjI1 [OF refl],
      of "[[Read], [Read], [Write 7]]" c, unfolded three_threads_eq, OF c(1)]
  show ?thesis by (rule exI [of _ c], rule conjI [OF c(2) r])
qed

text \<open>
  C23: Progress, for threads as in \<open>channel_fifo_threads\<close>. In every state that they can reach, each thread that has calls left and is
  not suspended in a read can take its next step: no operation runs into undefined behaviour. When threads are suspended in a read,
  either the channel is empty, or one of the readers has been woken, and its next step takes the first item of the channel: no reader
  has to rely on a wake-up that nobody signalled.
\<close>

theorem channel_threads_progress:
  assumes "hlt_channel_new cap w0 = (ch, w)" "0 \<le> cap" "cap \<le> 9223372036854775807" "\<forall>a \<ge> cw_next w0. cw_chunks w0 a = None"
    and "cap = 0 \<or> (\<forall>p \<in> set ps. \<forall>x. Write x \<notin> set p)"
    and "chan_run ch \<lparr>cc_world = w, cc_threads = map Running ps, cc_written = [], cc_read = []\<rparr> c"
  shows "(\<forall>i. i < length (cc_threads c) \<and> calls_of (cc_threads c ! i) \<noteq> [] \<and> (\<forall>q. cc_threads c ! i \<noteq> Waiting q) \<longrightarrow>
      (\<exists>c'. chan_step ch i c c')) \<and>
    (has_waiting (cc_threads c) \<longrightarrow> hlt_channel_size ch (cc_world c) = Some 0 \<or>
      (\<exists>j p x xs c'. cc_written c = cc_read c @ x # xs \<and> j < length (cc_threads c) \<and> cc_threads c ! j = Woken (Read # p) \<and>
         chan_step ch j c c' \<and> cc_threads c' = (cc_threads c)[j := Running p] \<and> cc_read c' = cc_read c @ [x]))" (is "?step \<and> ?wake")
proof -
  from chan_run_inv [OF assms(6) initial_conf_inv [OF assms(1-5)]] obtain xs where inv: "conf_inv ch xs c" by blast
  have ?step using chan_step_enabled [OF inv] by blast
  moreover have ?wake
  proof (cases xs)
    case Nil
    with inv have "chan_inv ch [] (cc_world c)" by (simp add: conf_inv_def)
    from chan_inv_size [OF this] show ?thesis by (auto simp: hlt_channel_size_def)
  next
    case (Cons x ys)
    with inv have "cc_written c = cc_read c @ x # ys" by (simp add: conf_inv_def)
    with woken_reader [OF inv [unfolded Cons]] show ?thesis by blast
  qed
  ultimately show ?thesis ..
qed

theorem channel_threads_progress_witness:
  "\<exists>c c'. cc_threads c = [Waiting [Read], Woken [Read], Running []] \<and> chan_step 0 1 c c' \<and>
     cc_threads c' = [Waiting [Read], Running [], Running []] \<and> cc_read c' = [7]"
proof -
  from three_threads_run obtain c where
    c: "chan_run 0 three_threads c" "cc_threads c = [Waiting [Read], Woken [Read], Running []]" "cc_written c = [7]" "cc_read c = []"
      "hlt_channel_size 0 (cc_world c) = Some 1" by blast
  have wt: "has_waiting (cc_threads c)" by (simp add: has_waiting_def c(2))
  from channel_threads_progress [OF three_threads_new order_refl zero_le_numeral no_channels_fresh disjI1 [OF refl],
      of "[[Read], [Read], [Write 7]]" c, unfolded three_threads_eq, OF c(1)] wt c(5)
  obtain j p x xs c' where j: "cc_written c = cc_read c @ x # xs" "j < length (cc_threads c)" "cc_threads c ! j = Woken (Read # p)" "chan_step 0 j c c'"
    "cc_threads c' = (cc_threads c)[j := Running p]" "cc_read c' = cc_read c @ [x]" by auto
  then have "j = 1" "p = []" "x = 7" using c(2-4) by (auto simp: less_Suc_eq)
  then show ?thesis using j c by (intro exI [of _ c] exI [of _ c']) simp
qed

text \<open>
  C36: The blocking write does not test the bound. It does not wait when the channel is full; when in addition the current chunk is
  used up, it creates a chunk without room and writes behind it: for a channel with bound 256, the 257th write is undefined.
\<close>

theorem channel_write_overflows:
  assumes "hlt_channel_new 256 w0 = (ch, w)" "\<forall>a \<ge> cw_next w0. cw_chunks w0 a = None" "length xs = 256"
  shows "\<exists>w'. write_all ch xs w = Some w' \<and> hlt_channel_size ch w' = Some 256 \<and> hlt_channel_write ch x w' = None"
proof -
  have c: "chan_inv ch [] w" "chan_capacity ch w = 256" using new_channel_ok [OF assms(1)] assms(2) by simp_all
  have "writer_at ch 0 256 w"
    using assms(1) by (auto simp: hlt_channel_new_def hlt_chunk_create_def Let_def writer_at_def shared_of_def initial_chunk_size_def)
  from write_all_ok [OF c(1) _ this, of xs] c(2) assms(3) obtain w' where
    w': "write_all ch xs w = Some w'" "chan_inv ch xs w'" "chan_capacity ch w' = 256" "writer_at ch 256 256 w'" by auto
  from w'(4) obtain s S W where S: "shared_of ch w' = Some (s, S)" "cw_chunks w' (cs_wc S) = Some W" "ck_wcnt W = 256" "ck_capacity W = 256"
    by (auto simp: writer_at_def)
  have sz: "cs_size S = 256" "cs_capacity S = 256"
    using chan_inv_size [OF w'(2)] S(1) w'(3) assms(3) by (auto simp: chan_capacity_def)
  then have "hlt_channel_write ch x w' = None"
    using write_full_undefined [OF w'(2) S(1) _ _ S(2)] S(3,4) by simp
  then show ?thesis using w'(1) S(1) sz by (auto simp: hlt_channel_size_def)
qed

theorem channel_write_overflows_witness:
  "\<exists>w'. write_all 0 (replicate 256 1) (snd (hlt_channel_new 256 no_channels)) = Some w' \<and> hlt_channel_size 0 w' = Some 256 \<and>
    hlt_channel_write 0 2 w' = None"
  by (rule channel_write_overflows [of no_channels]) (simp_all add: hlt_channel_new_def no_channels_def Let_def hlt_chunk_create_def)

end
