(* ===== verification/Classifier.thy ===== *)
theory Classifier
  imports Prelude "HOL-Library.Word"
begin

unbundle bit_operations_syntax

text \<open>
  Packet classifiers, \<^verbatim>\<open>libhilti/classifier.c\<close>: a table of rules, each with one field per column, a priority and a value. Rules are added,
  the table is compiled (sorted by descending priority), and a key is then looked up by taking the first rule all of whose fields
  match.

  A field carries its length in bytes, the number of its significant bits, and the bytes themselves at the end of the structure. The
  matching code indexes these bytes with an \<open>int\<close> that can be \<open>-1\<close>; \<open>field_image\<close> is therefore the memory of the whole
  structure, with little-endian integers, and \<open>field_byte\<close> reads it relative to the start of the data. An access outside the structure is
  undefined.

  \<open>qsort\<close> of the C library leaves the order of elements that compare equal open and is undefined if the comparison is not
  an order. It is the relation \<open>qsort_result\<close>, and compiling is a relation between tables.

  \<open>class_inv\<close> is the invariant. The main result is that a lookup returns the value of a matching rule of highest priority,
  where matching is agreement on a prefix of the bits; the prefix is one bit shorter than the number of significant bits.
\<close>

section \<open>State\<close>

record hlt_classifier_field =
  f_len :: "64 word"
  f_bits :: "64 word"
  f_data :: "8 word list"

record hlt_classifier_rule =
  r_priority :: "64 word"
  r_fields :: "hlt_classifier_field list"
  r_value :: val

text \<open>The array of rules is an array of pointers, null where no rule has been stored yet.\<close>

record hlt_classifier =
  c_num_fields :: nat
  c_compiled :: bool
  c_max_prio :: "64 word"
  c_num_rules :: nat
  c_max_rules :: nat
  c_rules :: "hlt_classifier_rule option list"

section \<open>Operations\<close>

definition hlt_classifier_init :: "nat \<Rightarrow> hlt_classifier" where
  "hlt_classifier_init num_fields = \<lparr>
     c_num_fields = num_fields, c_compiled = False, c_max_prio = 0,
     c_num_rules = 0, c_max_rules = 0, c_rules = []\<rparr>"

definition hlt_classifier_new :: "nat \<Rightarrow> hlt_classifier" where
  "hlt_classifier_new num_fields = hlt_classifier_init num_fields"

text \<open>
  The array grows by half; the new size is converted to \<open>int\<close>, which is undefined when it does not fit. The allocation asks for the size of
  a rule (24 bytes) per slot, three times what a pointer needs, and \<^verbatim>\<open>hlt_realloc\<close> fills it with zeros.
\<close>

definition grown_rules :: "nat \<Rightarrow> nat option" where
  "grown_rules old_max_rules =
     (let n = (if old_max_rules = 0 then 5 else old_max_rules * 3 div 2)
      in if n \<le> 2147483647 then Some n else None)"

definition grow_rules :: "hlt_classifier \<Rightarrow> hlt_classifier option" where
  "grow_rules c =
     (if c_max_rules c \<le> c_num_rules c then do {
        m \<leftarrow> grown_rules (c_max_rules c);
        Some (c\<lparr>c_max_rules := m,
                c_rules := c_rules c @ replicate (3 * m - length (c_rules c)) None\<rparr>)
      } else Some c)"

definition hlt_classifier_add ::
  "hlt_classifier \<Rightarrow> hlt_classifier_field list \<Rightarrow> 64 word \<Rightarrow> val \<Rightarrow> (exn option \<times> hlt_classifier) option" where
  "hlt_classifier_add c fs priority v =
     (if c_compiled c then Some (Some ValueError, c)
      else do {
        let r = \<lparr>r_priority = priority, r_fields = fs, r_value = v\<rparr>;
        c \<leftarrow> grow_rules c;
        rs \<leftarrow> wr (c_rules c) (c_num_rules c) (Some r);
        let c = c\<lparr>c_rules := rs, c_num_rules := c_num_rules c + 1\<rparr>;
        Some (None, if c_max_prio c <s priority then c\<lparr>c_max_prio := priority\<rparr> else c)
      })"

text \<open>Adding one to the largest \<open>int64_t\<close> is undefined.\<close>

definition hlt_classifier_add_no_prio ::
  "hlt_classifier \<Rightarrow> hlt_classifier_field list \<Rightarrow> val \<Rightarrow> (exn option \<times> hlt_classifier) option" where
  "hlt_classifier_add_no_prio c fs v =
     (if sint (c_max_prio c) = 9223372036854775807 then None
      else hlt_classifier_add c fs (c_max_prio c + 1) v)"

text \<open>The difference of two \<open>int64_t\<close> is returned as an \<open>int\<close>: its upper half is cut off.\<close>

definition cmp_rules :: "hlt_classifier_rule \<Rightarrow> hlt_classifier_rule \<Rightarrow> int" where
  "cmp_rules r1 r2 = sint (ucast (r_priority r2 - r_priority r1) :: 32 word)"

text \<open>The C library's \<open>qsort\<close>: defined only for a comparison that is an order on the elements.\<close>

definition consistent_cmp :: "('a \<Rightarrow> 'a \<Rightarrow> int) \<Rightarrow> 'a set \<Rightarrow> bool" where
  "consistent_cmp cmp A \<longleftrightarrow>
     (\<forall>a\<in>A. \<forall>b\<in>A. (cmp a b < 0 \<longleftrightarrow> cmp b a > 0) \<and>
       (\<forall>c\<in>A. cmp a b \<le> 0 \<longrightarrow> cmp b c \<le> 0 \<longrightarrow> cmp a c \<le> 0))"

definition qsort_result :: "('a \<Rightarrow> 'a \<Rightarrow> int) \<Rightarrow> 'a list \<Rightarrow> 'a list \<Rightarrow> bool" where
  "qsort_result cmp xs ys \<longleftrightarrow> consistent_cmp cmp (set xs) \<and> mset ys = mset xs \<and> sorted_wrt (\<lambda>a b. cmp a b \<le> 0) ys"

text \<open>The rules that have been added: the pointers in use, when none of them is null.\<close>

definition rules_of :: "hlt_classifier \<Rightarrow> hlt_classifier_rule list option" where
  "rules_of c = (if c_num_rules c \<le> length (c_rules c) then those (take (c_num_rules c) (c_rules c)) else None)"

definition hlt_classifier_compile :: "hlt_classifier \<Rightarrow> hlt_classifier \<Rightarrow> bool" where
  "hlt_classifier_compile c c' \<longleftrightarrow>
     (case (rules_of c, rules_of c') of
        (Some rs, Some rs') \<Rightarrow>
          qsort_result cmp_rules rs rs' \<and>
          c' = c\<lparr>c_compiled := True, c_rules := map Some rs' @ drop (c_num_rules c) (c_rules c)\<rparr>
      | _ \<Rightarrow> False)"

subsection \<open>Matching\<close>

definition le64 :: "64 word \<Rightarrow> 8 word list" where
  "le64 x = map (\<lambda>i. ucast (drop_bit (8 * i) x)) [0..<8]"

definition field_image :: "hlt_classifier_field \<Rightarrow> 8 word list" where
  "field_image f = le64 (f_len f) @ le64 (f_bits f) @ f_data f"

definition field_byte :: "hlt_classifier_field \<Rightarrow> int \<Rightarrow> 8 word option" where
  "field_byte f i = (if - 16 \<le> i then rd (field_image f) (nat (i + 16)) else None)"

text \<open>Whether two blocks of memory differ in their first \<open>n\<close> bytes.\<close>

definition memcmp_ne :: "8 word list \<Rightarrow> 8 word list \<Rightarrow> nat \<Rightarrow> bool option" where
  "memcmp_ne xs ys n = (if n \<le> length xs \<and> n \<le> length ys then Some (take n xs \<noteq> take n ys) else None)"

text \<open>One iteration of the loop over the fields: whether it goes on.\<close>

definition match_field :: "hlt_classifier_field \<Rightarrow> hlt_classifier_field \<Rightarrow> bool option" where
  "match_field field val =
     (if f_bits val = 0 then Some True
      else if f_len val < f_len field then Some False
      else do {
        let bytes = sint (ucast ((f_bits field + 8 - 1) div 8) :: 32 word);
        ne \<leftarrow> (if bytes > 1 then memcmp_ne (f_data field) (f_data val) (nat (bytes - 1)) else Some False);
        (if ne then Some False
         else if \<bar>(bytes - 1) * 8\<bar> > 2147483647 then None
         else do {
           let bits = (ucast (f_bits field - of_int ((bytes - 1) * 8) - 1) :: 8 word);
           (if uint bits > 8 then None
            else do {
              let mask = (push_bit (nat (8 - uint bits)) 255 :: 8 word);
              v \<leftarrow> field_byte val (bytes - 1);
              f \<leftarrow> field_byte field (bytes - 1);
              Some (v AND mask = f AND mask)
            })
         })
      })"

primrec match_fields :: "nat list \<Rightarrow> hlt_classifier_rule \<Rightarrow> hlt_classifier_field list \<Rightarrow> bool option" where
  "match_fields [] r vals = Some True"
| "match_fields (i # is) r vals = do {
     field \<leftarrow> rd (r_fields r) i;
     val \<leftarrow> rd vals i;
     m \<leftarrow> match_field field val;
     (if m then match_fields is r vals else Some False)
   }"

definition match_single_rule :: "hlt_classifier \<Rightarrow> hlt_classifier_rule \<Rightarrow> hlt_classifier_field list \<Rightarrow> bool option" where
  "match_single_rule c r vals = match_fields [0..<c_num_fields c] r vals"

text \<open>The loop over the rules that the two lookups share: the first rule that matches.\<close>

primrec first_match :: "nat list \<Rightarrow> hlt_classifier \<Rightarrow> hlt_classifier_field list \<Rightarrow> hlt_classifier_rule option option" where
  "first_match [] c vals = Some None"
| "first_match (i # is) c vals = do {
     p \<leftarrow> rd (c_rules c) i;
     r \<leftarrow> p;
     m \<leftarrow> match_single_rule c r vals;
     (if m then Some (Some r) else first_match is c vals)
   }"

definition hlt_classifier_matches :: "hlt_classifier \<Rightarrow> hlt_classifier_field list \<Rightarrow> (exn + bool) option" where
  "hlt_classifier_matches c vals =
     (if \<not> c_compiled c then Some (Inl ValueError)
      else map_option (\<lambda>m. Inr (m \<noteq> None)) (first_match [0..<c_num_rules c] c vals))"

definition hlt_classifier_get :: "hlt_classifier \<Rightarrow> hlt_classifier_field list \<Rightarrow> (exn + val) option" where
  "hlt_classifier_get c vals =
     (if \<not> c_compiled c then Some (Inl ValueError)
      else map_option (\<lambda>m. case m of Some r \<Rightarrow> Inr (r_value r) | None \<Rightarrow> Inl IndexError)
        (first_match [0..<c_num_rules c] c vals))"

section \<open>What a field matches\<close>

text \<open>The bits of a sequence of bytes, most significant bit first.\<close>

definition byte_bits :: "8 word \<Rightarrow> bool list" where
  "byte_bits b = map (\<lambda>i. bit b (7 - i)) [0..<8]"

definition msb_bits :: "8 word list \<Rightarrow> bool list" where
  "msb_bits xs = concat (map byte_bits xs)"

lemma length_byte_bits [simp]: "length (byte_bits b) = 8"
  by (simp add: byte_bits_def)

lemma length_msb_bits [simp]: "length (msb_bits xs) = 8 * length xs"
  by (induction xs) (simp_all add: msb_bits_def)

lemma msb_bits_append: "msb_bits (xs @ ys) = msb_bits xs @ msb_bits ys"
  by (simp add: msb_bits_def)

lemma byte_bits_inject: "byte_bits a = byte_bits b \<longleftrightarrow> a = b"
proof
  assume eq: "byte_bits a = byte_bits b"
  have "bit a n = bit b n" if "n < 8" for n
  proof -
    have "7 - n < 8" "[0..<8] ! (7 - n) = 7 - n" using that by (simp_all add: nth_upt del: upt_Suc)
    then show ?thesis using arg_cong [OF eq, of "\<lambda>l. l ! (7 - n)"] that by (simp add: byte_bits_def del: upt_Suc)
  qed
  then show "a = b" by (intro bit_word_eqI) simp
qed simp

lemma msb_bits_inject: "length xs = length ys \<Longrightarrow> msb_bits xs = msb_bits ys \<longleftrightarrow> xs = ys"
  by (induction xs ys rule: list_induct2) (simp_all add: msb_bits_def byte_bits_inject)

lemma bit_high_mask: "bit (push_bit k 255 :: 8 word) n \<longleftrightarrow> k \<le> n \<and> n < 8"
proof -
  have "(255 :: 8 word) = mask 8" by (simp add: mask_eq_exp_minus_1)
  then show ?thesis by (simp only: bit_push_bit_iff bit_mask_iff) auto
qed

lemma masked_prefix:
  fixes a b :: "8 word"
  assumes "j \<le> 8"
  shows "a AND push_bit (8 - j) 255 = b AND push_bit (8 - j) 255 \<longleftrightarrow> take j (byte_bits a) = take j (byte_bits b)"
    (is "?l \<longleftrightarrow> ?r")
proof -
  have "?l \<longleftrightarrow> (\<forall>n<8. 8 - j \<le> n \<longrightarrow> bit a n = bit b n)"
    by (auto simp: bit_eq_iff bit_and_iff bit_high_mask)
  also have "\<dots> \<longleftrightarrow> (\<forall>i<j. bit a (7 - i) = bit b (7 - i))" (is "?p \<longleftrightarrow> ?q")
  proof
    assume ?q
    show ?p
    proof (intro allI impI)
      fix n :: nat assume "n < 8" "8 - j \<le> n"
      then have "7 - n < j" using assms by linarith
      from \<open>?q\<close> [rule_format, OF this] \<open>n < 8\<close> show "bit a n = bit b n" by simp
    qed
  next
    assume ?p
    show ?q
    proof (intro allI impI)
      fix i assume "i < j"
      then have "8 - j \<le> 7 - i" by linarith
      from \<open>?p\<close> [rule_format, OF _ this] show "bit a (7 - i) = bit b (7 - i)" by linarith
    qed
  qed
  also have "\<dots> \<longleftrightarrow> ?r" using assms by (simp add: list_eq_iff_nth_eq byte_bits_def)
  finally show ?thesis .
qed

lemma take_msb_bits:
  assumes "k < length xs" "j \<le> 8"
  shows "take (8 * k + j) (msb_bits xs) = msb_bits (take k xs) @ take j (byte_bits (xs ! k))"
proof -
  have "msb_bits xs = msb_bits (take k xs) @ byte_bits (xs ! k) @ msb_bits (drop (Suc k) xs)"
    using arg_cong [OF id_take_nth_drop [OF assms(1)], of msb_bits]
    by (simp add: msb_bits_append) (simp add: msb_bits_def)
  then show ?thesis using assms by simp
qed

lemma prefix_eq_bytes:
  assumes "k < length xs" "k < length ys" "j \<le> 8"
  shows "take (8 * k + j) (msb_bits xs) = take (8 * k + j) (msb_bits ys) \<longleftrightarrow>
    take k xs = take k ys \<and> xs ! k AND push_bit (8 - j) 255 = ys ! k AND push_bit (8 - j) 255"
  using assms by (simp add: take_msb_bits masked_prefix msb_bits_inject)

text \<open>A field whose sizes agree with its data, as the compiler creates them.\<close>

definition wf_field :: "hlt_classifier_field \<Rightarrow> bool" where
  "wf_field f \<longleftrightarrow> length (f_data f) = unat (f_len f) \<and> unat (f_bits f) \<le> 8 * unat (f_len f) \<and> unat (f_len f) < 2 ^ 28"

lemma field_byte_data: "field_byte f (int k) = rd (f_data f) k"
  by (simp add: field_byte_def field_image_def le64_def rd_def nat_add_distrib nth_append)

lemma field_byte_before:
  assumes "unat (f_bits f) < 2 ^ 56"
  shows "field_byte f (- 1) = Some 0"
proof -
  have "unat (drop_bit 56 (f_bits f)) = 0"
    unfolding unat_drop_bit_eq using assms by (simp add: drop_bit_eq_div)
  then have "drop_bit 56 (f_bits f) = 0" by (simp only: unat_eq_zero)
  then show ?thesis
    by (simp add: field_byte_def field_image_def le64_def rd_def nth_append)
qed


text \<open>The code's arithmetic on the number of bits, for a field whose data fit the structure.\<close>

lemma sint_small: "unat (w :: 32 word) < 2 ^ 31 \<Longrightarrow> sint w = int (unat w)"
proof -
  assume "unat w < 2 ^ 31"
  then have "uint w < 2 ^ 31" unfolding uint_nat by (metis of_nat_less_iff of_nat_numeral of_nat_power)
  moreover have "- (2 ^ 31) \<le> uint w" by (rule order.trans [OF _ uint_ge_0]) simp
  ultimately have "signed_take_bit 31 (uint w) = uint w" by (intro signed_take_bit_int_eq_self)
  moreover have "sint w = signed_take_bit 31 (uint w)" by (simp only: sint_uint) simp
  ultimately have "sint w = uint w" by (simp only:)
  then show ?thesis by (simp only: uint_nat)
qed

lemma field_bytes:
  assumes "wf_field f" "unat (f_bits f) = n"
  shows "sint (ucast ((f_bits f + 8 - 1) div 8) :: 32 word) = int ((n + 7) div 8)"
proof -
  have n: "n \<le> 8 * 2 ^ 28" using assms by (auto simp: wf_field_def)
  have "unat (f_bits f + 7) = n + 7" using assms(2) n by (simp add: unat_word_ariths)
  moreover have "f_bits f + 8 - 1 = f_bits f + 7" "unat (8 :: 64 word) = 8" by simp_all
  ultimately have "unat ((f_bits f + 8 - 1) div 8) = (n + 7) div 8" by (simp only: unat_div)
  then have "unat (ucast ((f_bits f + 8 - 1) div 8) :: 32 word) = (n + 7) div 8"
    using n by (simp add: unsigned_ucast_eq take_bit_nat_def)
  moreover have "(n + 7) div 8 < 2 ^ 31" using n by simp
  ultimately show ?thesis by (simp only: sint_small)
qed

lemma bytes_split: "0 < n \<Longrightarrow> (n + 7) div 8 = (n - 1) div 8 + (1 :: nat)"
  by (cases n) simp_all

lemma field_frac_bits:
  assumes "wf_field f" "unat (f_bits f) = n" "0 < n"
  shows "unat (ucast (f_bits f - of_int ((int ((n + 7) div 8) - 1) * 8) - 1) :: 8 word) = (n - 1) mod 8"
proof -
  define m where "m = (n - 1) mod 8"
  have "m < 8" by (simp add: m_def)
  have "int n - (int ((n + 7) div 8) - 1) * 8 - 1 = int m"
  proof -
    have "int (n - 1) = 8 * int ((n - 1) div 8) + int ((n - 1) mod 8)"
      by (metis div_mult_mod_eq mult.commute of_nat_add of_nat_mult of_nat_numeral)
    then show ?thesis using assms(3) unfolding bytes_split [OF assms(3)] m_def by simp
  qed
  moreover have "f_bits f = of_int (int n)" using assms(2) by (simp flip: assms(2))
  ultimately have "f_bits f - of_int ((int ((n + 7) div 8) - 1) * 8) - 1 = of_nat m"
    by (metis of_int_1 of_int_diff of_int_of_nat_eq)
  then show ?thesis using \<open>m < 8\<close> unfolding m_def [symmetric] by (simp only: unsigned_ucast_eq unat_of_nat) (simp add: take_bit_nat_def)
qed


lemma match_field_prefix:
  assumes "wf_field f" "wf_field v"
  shows "match_field f v = Some (f_bits v = 0 \<or> f_len f \<le> f_len v \<and>
    take (unat (f_bits f) - 1) (msb_bits (f_data v)) = take (unat (f_bits f) - 1) (msb_bits (f_data f)))"
proof (cases "f_bits v = 0 \<or> f_len v < f_len f")
  case True
  then show ?thesis by (auto simp: match_field_def)
next
  case nz: False
  define n where "n = unat (f_bits f)"
  note bytes = field_bytes [OF assms(1) n_def [symmetric]]
  have fv: "unat (f_len f) \<le> unat (f_len v)" using nz by (simp add: word_le_nat_alt word_less_nat_alt)
  show ?thesis
  proof (cases "n = 0")
    case True
    have "unat (f_bits v) < 2 ^ 56" "unat (f_bits f) < 2 ^ 56" using assms by (auto simp: wf_field_def)
    then have "field_byte v (- 1) = Some 0" "field_byte f (- 1) = Some 0" by (simp_all only: field_byte_before)
    moreover have "f_bits f = 0" using True by (simp add: n_def unat_eq_zero)
    moreover have "f_len f \<le> f_len v" using nz by (simp add: not_less)
    ultimately show ?thesis using nz bytes True by (simp add: match_field_def Let_def)
  next
    case False
    define k j where "k = (n - 1) div 8" and "j = (n - 1) mod 8"
    have kj: "n - 1 = 8 * k + j" "j < 8" "(n + 7) div 8 = k + 1"
      using False by (simp_all add: k_def j_def bytes_split)
    have len: "k < length (f_data f)" "k < length (f_data v)"
      using assms kj(1) False fv by (auto simp: wf_field_def simp flip: n_def)
    have small: "int k * 8 \<le> 2147483647" using assms(1) len by (simp add: wf_field_def)
    have bits: "unat (ucast (f_bits f - of_int (int k * 8) - 1) :: 8 word) = j"
      using field_frac_bits [OF assms(1) n_def [symmetric]] False kj(3) by (simp add: j_def)
    then have bits: "uint (ucast (f_bits f - of_int (int k * 8) - 1) :: 8 word) = int j" by (simp only: uint_nat)
    have cmp: "(if 1 < int k + 1 then memcmp_ne (f_data f) (f_data v) (nat (int k + 1 - 1)) else Some False) =
        Some (take k (f_data f) \<noteq> take k (f_data v))"
      using len by (auto simp: memcmp_ne_def)
    have "match_field f v = Some (take k (f_data v) = take k (f_data f) \<and>
        f_data v ! k AND push_bit (8 - j) 255 = f_data f ! k AND push_bit (8 - j) 255)"
      unfolding match_field_def bytes kj(3) Let_def of_nat_add of_nat_1 cmp [unfolded add_diff_cancel_right'] add_diff_cancel_right' bits
        field_byte_data rd_Some [OF len(1)] rd_Some [OF len(2)] bind.bind_lunit
      using nz small kj(2) by (auto simp: nat_diff_distrib)
    then show ?thesis using prefix_eq_bytes [OF len(2,1), of j] kj nz by (simp add: not_less flip: n_def)
  qed
qed

section \<open>What a rule matches\<close>

text \<open>
  The code's test: a wildcard in the key, or a key that is long enough and agrees with the field on all of its valid bits but the last.
  \<open>field_matches\<close> is the test that \<^verbatim>\<open>classifier.h\<close> describes, on all valid bits.
\<close>

definition field_accepts :: "hlt_classifier_field \<Rightarrow> hlt_classifier_field \<Rightarrow> bool" where
  "field_accepts f v \<longleftrightarrow> f_bits v = 0 \<or> f_len f \<le> f_len v \<and>
     take (unat (f_bits f) - 1) (msb_bits (f_data v)) = take (unat (f_bits f) - 1) (msb_bits (f_data f))"

definition rule_accepts :: "hlt_classifier_rule \<Rightarrow> hlt_classifier_field list \<Rightarrow> bool" where
  "rule_accepts r vals \<longleftrightarrow> list_all2 field_accepts (r_fields r) vals"

definition field_matches :: "hlt_classifier_field \<Rightarrow> hlt_classifier_field \<Rightarrow> bool" where
  "field_matches f v \<longleftrightarrow> f_bits v = 0 \<or> f_len f \<le> f_len v \<and>
     take (unat (f_bits f)) (msb_bits (f_data v)) = take (unat (f_bits f)) (msb_bits (f_data f))"

definition rule_matches :: "hlt_classifier_rule \<Rightarrow> hlt_classifier_field list \<Rightarrow> bool" where
  "rule_matches r vals \<longleftrightarrow> list_all2 field_matches (r_fields r) vals"

lemma rule_matches_accepts: "rule_matches r vals \<Longrightarrow> rule_accepts r vals"
proof -
  have "take (n - 1) xs = take (n - 1) ys" if "take n xs = take n ys" for n and xs ys :: "bool list"
    using arg_cong [OF that, of "take (n - 1)"] by (simp add: min_def split: if_splits)
  then have "field_matches f v \<longrightarrow> field_accepts f v" for f v unfolding field_matches_def field_accepts_def by blast
  then show "rule_matches r vals \<Longrightarrow> rule_accepts r vals"
    unfolding rule_matches_def rule_accepts_def by (auto elim: list_all2_mono)
qed

definition wf_fields :: "nat \<Rightarrow> hlt_classifier_field list \<Rightarrow> bool" where
  "wf_fields n fs \<longleftrightarrow> length fs = n \<and> (\<forall>f\<in>set fs. wf_field f)"

lemma match_fields_correct:
  assumes "wf_fields n (r_fields r)" "wf_fields n vals" "\<forall>i\<in>set is. i < n"
  shows "match_fields is r vals = Some (\<forall>i\<in>set is. field_accepts (r_fields r ! i) (vals ! i))"
  using assms(3)
proof (induction "is")
  case (Cons i "is")
  then have "i < length (r_fields r)" "i < length vals" using assms by (simp_all add: wf_fields_def)
  moreover from this have "match_field (r_fields r ! i) (vals ! i) = Some (field_accepts (r_fields r ! i) (vals ! i))"
    using assms unfolding field_accepts_def by (intro match_field_prefix) (simp_all add: wf_fields_def)
  ultimately show ?case using Cons by (simp add: rd_Some)
qed simp

lemma match_single_rule_correct:
  assumes "wf_fields (c_num_fields c) (r_fields r)" "wf_fields (c_num_fields c) vals"
  shows "match_single_rule c r vals = Some (rule_accepts r vals)"
  using assms match_fields_correct [OF assms, of "[0..<c_num_fields c]"]
  by (auto simp: match_single_rule_def rule_accepts_def wf_fields_def list_all2_conv_all_nth)

section \<open>Sorting\<close>

text \<open>
  What the lookup relies on: the comparison ranks the elements in question. Then sorting is defined, and the first element that
  satisfies a condition is one of highest rank.
\<close>

locale ranking =
  fixes cmp :: "'a \<Rightarrow> 'a \<Rightarrow> int" and A :: "'a set" and rank :: "'a \<Rightarrow> int"
  assumes cmp_le: "a \<in> A \<Longrightarrow> b \<in> A \<Longrightarrow> cmp a b \<le> 0 \<longleftrightarrow> rank b \<le> rank a"
    and cmp_less: "a \<in> A \<Longrightarrow> b \<in> A \<Longrightarrow> cmp a b < 0 \<longleftrightarrow> rank b < rank a"
begin

lemma consistent: "consistent_cmp cmp A"
proof -
  have "cmp b a > 0 \<longleftrightarrow> \<not> rank a \<le> rank b" if "a \<in> A" "b \<in> A" for a b
    using cmp_le [OF that(2,1)] by linarith
  then show ?thesis unfolding consistent_cmp_def by (auto simp: cmp_le cmp_less)
qed

lemma sort_exists:
  assumes "set xs \<subseteq> A"
  shows "\<exists>ys. qsort_result cmp xs ys"
proof
  have "sorted (map (\<lambda>a. - rank a) (sort_key (\<lambda>a. - rank a) xs))" by simp
  then have "sorted_wrt (\<lambda>a b. rank b \<le> rank a) (sort_key (\<lambda>a. - rank a) xs)"
    by (simp add: sorted_map sorted_wrt_map)
  then have "sorted_wrt (\<lambda>a b. cmp a b \<le> 0) (sort_key (\<lambda>a. - rank a) xs)"
    by (rule sorted_wrt_mono_rel [rotated]) (use assms cmp_le in auto)
  then show "qsort_result cmp xs (sort_key (\<lambda>a. - rank a) xs)"
    using consistent assms by (auto simp: qsort_result_def consistent_cmp_def subset_iff)
qed

lemma first_is_best:
  assumes "qsort_result cmp xs ys" "set xs \<subseteq> A" "find P ys = Some x"
  shows "x \<in> set xs \<and> P x \<and> (\<forall>y\<in>set xs. P y \<longrightarrow> rank y \<le> rank x)"
proof -
  from assms(3) obtain i where i: "i < length ys" "P (ys ! i)" "x = ys ! i" "\<forall>j<i. \<not> P (ys ! j)"
    by (auto simp: find_Some_iff)
  from assms(1) have ys: "set ys = set xs" "sorted_wrt (\<lambda>a b. cmp a b \<le> 0) ys"
    by (auto simp: qsort_result_def dest: mset_eq_setD)
  have "rank y \<le> rank x" if "y \<in> set xs" "P y" for y
  proof -
    from that ys(1) obtain j where j: "j < length ys" "y = ys ! j" by (metis in_set_conv_nth)
    then have "i \<le> j" using i(4) that(2) by (meson not_le)
    then have "i = j \<or> cmp x y \<le> 0" using sorted_wrt_nth_less [OF ys(2), of i j] i j by (auto simp: le_less)
    moreover have "x \<in> A" "y \<in> A" using that assms(2) ys(1) i by auto
    ultimately show ?thesis using i j cmp_le by auto
  qed
  then show ?thesis using i ys(1) by auto
qed

end

text \<open>Priorities are compared correctly as long as they are less than \<open>2 ^ 31\<close> apart.\<close>

definition prio_window :: "int \<Rightarrow> hlt_classifier_rule set" where
  "prio_window lo = {r. lo \<le> sint (r_priority r) \<and> sint (r_priority r) < lo + 2 ^ 31}"

lemma low_half: "ucast (word_of_int d :: 64 word) = (word_of_int d :: 32 word)"
  by (rule bit_word_eqI) (simp add: bit_simps)

lemma cmp_rules_exact:
  assumes "r1 \<in> prio_window lo" "r2 \<in> prio_window lo"
  shows "cmp_rules r1 r2 = sint (r_priority r2) - sint (r_priority r1)"
proof -
  let ?d = "sint (r_priority r2) - sint (r_priority r1)"
  have d: "- (2 ^ 31) \<le> ?d" "?d < 2 ^ 31" using assms by (simp_all add: prio_window_def)
  have "r_priority r2 - r_priority r1 = word_of_int ?d" by simp
  then have "ucast (r_priority r2 - r_priority r1) = (ucast (word_of_int ?d :: 64 word) :: 32 word)" by (simp only:)
  also have "\<dots> = word_of_int ?d" by (rule low_half)
  finally have "ucast (r_priority r2 - r_priority r1) = (word_of_int ?d :: 32 word)" .
  then have "cmp_rules r1 r2 = signed_take_bit (LENGTH(32) - 1) ?d"
    unfolding cmp_rules_def by (simp only: sint_sbintrunc')
  then show ?thesis using signed_take_bit_int_eq_self [OF d] by simp
qed

interpretation rp: ranking cmp_rules "prio_window lo" "\<lambda>r. sint (r_priority r)" for lo
  by unfold_locales (simp_all add: cmp_rules_exact)

section \<open>The table\<close>

text \<open>
  The invariant of a table that holds the rules \<open>rs\<close>, in this order: the pointers in use refer to them, the array has the
  allocated size, all rules have one well-formed field per column, and no priority exceeds the recorded maximum.
\<close>

definition class_inv :: "hlt_classifier \<Rightarrow> hlt_classifier_rule list \<Rightarrow> bool" where
  "class_inv c rs \<longleftrightarrow> c_num_rules c = length rs \<and> take (length rs) (c_rules c) = map Some rs \<and>
     c_num_rules c \<le> c_max_rules c \<and> (c_max_rules c = 0 \<or> 5 \<le> c_max_rules c) \<and> length (c_rules c) = 3 * c_max_rules c \<and>
     (\<forall>r\<in>set rs. wf_fields (c_num_fields c) (r_fields r) \<and> sint (r_priority r) \<le> sint (c_max_prio c)) \<and>
     0 \<le> sint (c_max_prio c)"

lemma those_map_Some [simp]: "those (map Some xs) = Some xs"
  by (induction xs) simp_all

lemma rules_of_inv: "class_inv c rs \<Longrightarrow> rules_of c = Some rs"
  by (auto simp: class_inv_def rules_of_def)

lemma class_inv_new [inv_intros]: "class_inv (hlt_classifier_new n) []"
  by (simp add: class_inv_def hlt_classifier_new_def hlt_classifier_init_def)

lemma grow_rules_ok:
  assumes "class_inv c rs" "length rs < 2 ^ 30"
  shows "\<exists>m more. grow_rules c = Some (c\<lparr>c_max_rules := m, c_rules := c_rules c @ replicate more None\<rparr>) \<and>
    length rs < m \<and> 5 \<le> m \<and> length (c_rules c) + more = 3 * m"
proof (cases "c_max_rules c \<le> c_num_rules c")
  case True
  then have m: "c_max_rules c = length rs" "length (c_rules c) = 3 * length rs" "length rs = 0 \<or> 5 \<le> length rs" using assms(1) by (auto simp: class_inv_def)
  define n where "n = (if length rs = 0 then 5 else length rs * 3 div 2)"
  have n: "length rs < n" "5 \<le> n" "n \<le> 2147483647" using assms(2) m(3) by (auto simp: n_def)
  then have "grown_rules (c_max_rules c) = Some n" using m by (simp add: grown_rules_def n_def)
  then show ?thesis using True m n
    by (intro exI [of _ n] exI [of _ "3 * n - length (c_rules c)"]) (simp add: grow_rules_def)
next
  case False
  then show ?thesis using assms
    by (intro exI [of _ "c_max_rules c"] exI [of _ 0]) (simp add: grow_rules_def class_inv_def)
qed

lemma take_Suc_update: "take n ys = xs \<Longrightarrow> n < length ys \<Longrightarrow> take (Suc n) (ys[n := y]) = xs @ [y]"
  by (simp add: take_Suc_conv_app_nth)

lemma hlt_classifier_add_ok:
  assumes "class_inv c rs" "\<not> c_compiled c" "wf_fields (c_num_fields c) fs" "length rs < 2 ^ 30"
  shows "\<exists>c'. hlt_classifier_add c fs p v = Some (None, c') \<and>
    class_inv c' (rs @ [\<lparr>r_priority = p, r_fields = fs, r_value = v\<rparr>]) \<and>
    \<not> c_compiled c' \<and> c_num_fields c' = c_num_fields c \<and> sint (c_max_prio c') = max (sint (c_max_prio c)) (sint p)"
proof -
  from grow_rules_ok [OF assms(1,4)] obtain m more where
    g: "grow_rules c = Some (c\<lparr>c_max_rules := m, c_rules := c_rules c @ replicate more None\<rparr>)"
      "length rs < m" "length (c_rules c) + more = 3 * m" "5 \<le> m" by blast
  let ?r = "\<lparr>r_priority = p, r_fields = fs, r_value = v\<rparr>"
  let ?a = "c_rules c @ replicate more None"
  have "take (length rs) ?a = map Some rs" "length rs < length ?a"
    using assms(1) g(2,3) by (auto simp: class_inv_def)
  then have t: "take (Suc (length rs)) (?a[length rs := Some ?r]) = map Some rs @ [Some ?r]"
    "wr ?a (length rs) (Some ?r) = Some (?a[length rs := Some ?r])"
    by (simp_all only: take_Suc_update wr_Some)
  have w: "c_max_prio c <s p \<longleftrightarrow> sint (c_max_prio c) < sint p" by (simp add: word_sless_alt)
  define c2 where "c2 = c\<lparr>c_max_rules := m, c_rules := ?a[length rs := Some ?r], c_num_rules := length rs + 1\<rparr>"
  define c' where "c' = (if c_max_prio c <s p then c2\<lparr>c_max_prio := p\<rparr> else c2)"
  have "hlt_classifier_add c fs p v = Some (None, c')"
    using assms(1,2) g(1) t(2) by (simp add: hlt_classifier_add_def c'_def c2_def class_inv_def)
  moreover have "class_inv c' (rs @ [?r])"
    using assms(1,3) g(2-4) t(1) w by (auto simp: class_inv_def c'_def c2_def)
  moreover have "\<not> c_compiled c' \<and> c_num_fields c' = c_num_fields c \<and> sint (c_max_prio c') = max (sint (c_max_prio c)) (sint p)"
    using assms(2) w by (auto simp: c'_def c2_def)
  ultimately show ?thesis by blast
qed

lemma hlt_classifier_add_compiled: "c_compiled c \<Longrightarrow> hlt_classifier_add c fs p v = Some (Some ValueError, c)"
  by (simp add: hlt_classifier_add_def)

lemma compile_exists:
  assumes "class_inv c rs" "set rs \<subseteq> prio_window lo"
  shows "\<exists>c'. hlt_classifier_compile c c'"
proof -
  from rp.sort_exists [OF assms(2)] obtain ys where ys: "qsort_result cmp_rules rs ys" by blast
  then have l: "length ys = length rs" unfolding qsort_result_def by (metis size_mset)
  let ?c = "c\<lparr>c_compiled := True, c_rules := map Some ys @ drop (c_num_rules c) (c_rules c)\<rparr>"
  have "rules_of ?c = Some ys" using assms(1) l by (auto simp: rules_of_def class_inv_def)
  then have "hlt_classifier_compile c ?c" using ys rules_of_inv [OF assms(1)] by (simp add: hlt_classifier_compile_def)
  then show ?thesis ..
qed

lemma compile_inv [inv_intros]:
  assumes "hlt_classifier_compile c c'" "class_inv c rs"
  shows "\<exists>ys. class_inv c' ys \<and> qsort_result cmp_rules rs ys \<and> c_compiled c' \<and> c_num_fields c' = c_num_fields c"
proof -
  from assms obtain ys where ys: "rules_of c' = Some ys" "qsort_result cmp_rules rs ys"
    "c' = c\<lparr>c_compiled := True, c_rules := map Some ys @ drop (c_num_rules c) (c_rules c)\<rparr>"
    by (auto simp: hlt_classifier_compile_def rules_of_inv split: option.splits)
  then have "length ys = length rs" "set ys = set rs" unfolding qsort_result_def by (metis size_mset, metis set_mset_mset)
  then have "class_inv c' ys" using assms(2) unfolding ys(3) class_inv_def by auto
  then show ?thesis using ys by auto
qed

lemma first_match_correct:
  assumes "class_inv c rs" "wf_fields (c_num_fields c) vals" "k \<le> length rs"
  shows "first_match [k..<c_num_rules c] c vals = Some (find (\<lambda>r. rule_accepts r vals) (drop k rs))"
  using assms(3)
proof (induction "length rs - k" arbitrary: k)
  case 0
  then show ?case using assms(1) by (simp add: class_inv_def)
next
  case (Suc n)
  then have k: "k < length rs" by simp
  have nr: "c_num_rules c = length rs" "k < length (c_rules c)" using assms(1) k by (auto simp: class_inv_def)
  have "c_rules c ! k = Some (rs ! k)" using assms(1) k unfolding class_inv_def by (metis nth_map nth_take)
  moreover have "match_single_rule c (rs ! k) vals = Some (rule_accepts (rs ! k) vals)"
    using assms(1,2) k by (intro match_single_rule_correct) (auto simp: class_inv_def)
  moreover have "first_match [Suc k..<c_num_rules c] c vals = Some (find (\<lambda>r. rule_accepts r vals) (drop (Suc k) rs))"
    using Suc.hyps k by simp
  ultimately show ?case using k nr by (simp add: upt_conv_Cons rd_Some Cons_nth_drop_Suc [symmetric])
qed

text \<open>A sequence of additions, with and without a priority, and the rules that it stands for.\<close>

datatype class_op =
    AddRule "hlt_classifier_field list" "64 word" val
  | AddNoPrio "hlt_classifier_field list" val

fun class_step :: "hlt_classifier \<Rightarrow> class_op \<Rightarrow> hlt_classifier option" where
  "class_step c (AddRule fs p v) = map_option snd (hlt_classifier_add c fs p v)"
| "class_step c (AddNoPrio fs v) = map_option snd (hlt_classifier_add_no_prio c fs v)"

fun run_class :: "hlt_classifier \<Rightarrow> class_op list \<Rightarrow> hlt_classifier option" where
  "run_class c [] = Some c"
| "run_class c (a # as) = do { c \<leftarrow> class_step c a; run_class c as }"

fun spec_rule :: "64 word \<Rightarrow> class_op \<Rightarrow> hlt_classifier_rule" where
  "spec_rule mx (AddRule fs p v) = \<lparr>r_priority = p, r_fields = fs, r_value = v\<rparr>"
| "spec_rule mx (AddNoPrio fs v) = \<lparr>r_priority = mx + 1, r_fields = fs, r_value = v\<rparr>"

fun spec_rules :: "64 word \<Rightarrow> class_op list \<Rightarrow> hlt_classifier_rule list" where
  "spec_rules mx [] = []"
| "spec_rules mx (a # as) =
     (let r = spec_rule mx a in r # spec_rules (if sint mx < sint (r_priority r) then r_priority r else mx) as)"

text \<open>Additions with the right number of well-formed fields and priorities in the range that the comparison can handle.\<close>

fun op_ok :: "nat \<Rightarrow> class_op \<Rightarrow> bool" where
  "op_ok n (AddRule fs p v) \<longleftrightarrow> wf_fields n fs \<and> 0 \<le> sint p \<and> sint p < 2 ^ 30"
| "op_ok n (AddNoPrio fs v) \<longleftrightarrow> wf_fields n fs"

lemma sint_plus_1:
  assumes "0 \<le> sint (w :: 64 word)" "sint w < 2 ^ 31"
  shows "sint (w + 1) = sint w + 1"
proof -
  have "signed_take_bit (LENGTH(64) - 1) (sint w + 1) = sint w + 1"
    using assms by (intro signed_take_bit_int_eq_self) simp_all
  then show ?thesis by (simp add: sint_word_add)
qed

lemma class_step_ok:
  assumes "class_inv c rs" "\<not> c_compiled c" "op_ok (c_num_fields c) a" "length rs < 2 ^ 30" "sint (c_max_prio c) < 2 ^ 31"
  shows "\<exists>c'. class_step c a = Some c' \<and> class_inv c' (rs @ [spec_rule (c_max_prio c) a]) \<and> \<not> c_compiled c' \<and>
    c_num_fields c' = c_num_fields c \<and>
    sint (c_max_prio c') = max (sint (c_max_prio c)) (sint (r_priority (spec_rule (c_max_prio c) a)))"
proof (cases a)
  case (AddRule fs p v)
  with hlt_classifier_add_ok [OF assms(1,2) _ assms(4), of fs p v] assms(3) show ?thesis by auto
next
  case (AddNoPrio fs v)
  with hlt_classifier_add_ok [OF assms(1,2) _ assms(4), of fs "c_max_prio c + 1" v] assms(3,5) show ?thesis
    by (auto simp: hlt_classifier_add_no_prio_def)
qed

lemma spec_rule_prio:
  assumes "op_ok n a" "0 \<le> sint t" "sint t < 2 ^ 30 + int k" "k < 2 ^ 30"
  shows "0 \<le> sint (r_priority (spec_rule t a)) \<and> sint (r_priority (spec_rule t a)) < 2 ^ 30 + int (Suc k)"
  using assms by (cases a) (auto simp: sint_plus_1)

lemma run_class_ok:
  assumes "class_inv c rs" "\<not> c_compiled c" "\<forall>a\<in>set as. op_ok (c_num_fields c) a" "length rs + length as < 2 ^ 30"
    "sint (c_max_prio c) < 2 ^ 30 + int (length rs)" "set rs \<subseteq> prio_window 0"
  shows "\<exists>c'. run_class c as = Some c' \<and> class_inv c' (rs @ spec_rules (c_max_prio c) as) \<and> \<not> c_compiled c' \<and>
    c_num_fields c' = c_num_fields c \<and> set (rs @ spec_rules (c_max_prio c) as) \<subseteq> prio_window 0"
  using assms
proof (induction as arbitrary: c rs)
  case (Cons a as)
  let ?r = "spec_rule (c_max_prio c) a"
  have max0: "0 \<le> sint (c_max_prio c)" using Cons.prems(1) by (simp add: class_inv_def)
  from class_step_ok [OF Cons.prems(1,2), of a] Cons.prems(3-5) obtain c1 where
    c1: "class_step c a = Some c1" "class_inv c1 (rs @ [?r])" "\<not> c_compiled c1" "c_num_fields c1 = c_num_fields c"
      "sint (c_max_prio c1) = max (sint (c_max_prio c)) (sint (r_priority ?r))" by auto
  have r: "0 \<le> sint (r_priority ?r)" "sint (r_priority ?r) < 2 ^ 30 + int (Suc (length rs))"
    using spec_rule_prio [OF _ max0 Cons.prems(5), of "c_num_fields c" a] Cons.prems(3,4) by simp_all
  have top: "c_max_prio c1 = (if sint (c_max_prio c) < sint (r_priority ?r) then r_priority ?r else c_max_prio c)"
    using c1(5) by (intro signed_word_eqI) auto
  have "set (rs @ [?r]) \<subseteq> prio_window 0" using Cons.prems(4,6) r by (simp add: prio_window_def)
  from Cons.IH [OF c1(2,3) _ _ _ this] Cons.prems(3-5) r c1(4,5) show ?case
    by (simp add: c1(1) top Let_def)
qed simp

section \<open>Properties\<close>

text \<open>The answer a lookup may give: a matching rule that no matching rule outranks, or none if no rule matches.\<close>

definition best_match :: "hlt_classifier_rule list \<Rightarrow> hlt_classifier_field list \<Rightarrow> (exn + val) option \<Rightarrow> bool" where
  "best_match rs vals a \<longleftrightarrow>
     (case a of
        Some (Inr v) \<Rightarrow> \<exists>r\<in>set rs. rule_accepts r vals \<and> v = r_value r \<and>
          (\<forall>r'\<in>set rs. rule_accepts r' vals \<longrightarrow> sint (r_priority r') \<le> sint (r_priority r))
      | Some (Inl e) \<Rightarrow> e = IndexError \<and> (\<forall>r\<in>set rs. \<not> rule_accepts r vals)
      | None \<Rightarrow> False)"

lemma compiled_lookup:
  assumes "class_inv c rs" "hlt_classifier_compile c c'" "set rs \<subseteq> prio_window lo" "wf_fields (c_num_fields c) vals"
  shows "best_match rs vals (hlt_classifier_get c' vals)"
    "hlt_classifier_matches c' vals = Some (Inr (\<exists>r\<in>set rs. rule_accepts r vals))"
proof -
  from compile_inv [OF assms(2,1)] obtain ys where
    ys: "class_inv c' ys" "qsort_result cmp_rules rs ys" "c_compiled c'" "c_num_fields c' = c_num_fields c" by blast
  let ?find = "find (\<lambda>r. rule_accepts r vals) ys"
  have fm: "first_match [0..<c_num_rules c'] c' vals = Some ?find"
    using first_match_correct [OF ys(1), of vals 0] assms(4) ys(4) by simp
  have set: "set ys = set rs" using ys(2) by (auto simp: qsort_result_def dest: mset_eq_setD)
  show "hlt_classifier_matches c' vals = Some (Inr (\<exists>r\<in>set rs. rule_accepts r vals))"
    using set fm ys(3) find_None_iff [of "\<lambda>r. rule_accepts r vals" ys]
    by (simp add: hlt_classifier_matches_def del: not_None_eq) blast
  show "best_match rs vals (hlt_classifier_get c' vals)"
  proof (cases ?find)
    case None
    then have "\<forall>r\<in>set rs. \<not> rule_accepts r vals" using set find_None_iff [of _ ys] by metis
    then show ?thesis using None fm ys(3) by (simp add: hlt_classifier_get_def best_match_def)
  next
    case (Some r)
    with rp.first_is_best [OF ys(2) assms(3) Some] show ?thesis
      using fm ys(3) by (auto simp: hlt_classifier_get_def best_match_def)
  qed
qed

text \<open>
  C16: Classification. After any sequence of fewer than 2^30 additions to a new classifier, with well-formed fields and priorities from 0 up to
  2^30, compiling is defined, and every lookup in a compiled table returns the value of a rule with the highest priority among those that
  the code's test accepts, or the index error if it accepts none; the test for a match agrees. A rule added without a priority ranks above all
  earlier ones. The code's test leaves out the last valid bit of a field (\<open>match_ignores_last_bit\<close>), so it accepts every rule whose valid bits all
  agree with the key, and the lookup never returns a rule of lower priority than one of those; but it accepts others, too. Priorities
  further apart are compared wrongly (\<open>priority_difference_truncated\<close>).
\<close>

theorem classifier_lookup:
  assumes "\<forall>a\<in>set as. op_ok n a" "length as < 2 ^ 30"
  shows "\<exists>c. run_class (hlt_classifier_new n) as = Some c \<and> (\<exists>c'. hlt_classifier_compile c c') \<and>
    (\<forall>c' vals. hlt_classifier_compile c c' \<and> wf_fields n vals \<longrightarrow>
      best_match (spec_rules 0 as) vals (hlt_classifier_get c' vals) \<and>
      hlt_classifier_matches c' vals = Some (Inr (\<exists>r\<in>set (spec_rules 0 as). rule_accepts r vals)) \<and>
      (\<forall>r\<in>set (spec_rules 0 as). rule_matches r vals \<longrightarrow> rule_accepts r vals))"
proof -
  have new: "c_num_fields (hlt_classifier_new n) = n" "\<not> c_compiled (hlt_classifier_new n)" "c_max_prio (hlt_classifier_new n) = 0"
    by (simp_all add: hlt_classifier_new_def hlt_classifier_init_def)
  obtain c where c: "run_class (hlt_classifier_new n) as = Some c" "class_inv c (spec_rules 0 as)" "c_num_fields c = n"
    "set (spec_rules 0 as) \<subseteq> prio_window 0"
    using run_class_ok [OF class_inv_new, of n as] assms new by auto
  show ?thesis
    using c compile_exists [OF c(2,4)] compiled_lookup [OF c(2) _ c(4)] rule_matches_accepts by auto
qed

text \<open>A rule for the prefix 10.0/16 and one for 10.0.1/24, added without a priority after it.\<close>

definition net_rule :: "8 word list \<Rightarrow> 64 word \<Rightarrow> hlt_classifier_field" where
  "net_rule bs n = \<lparr>f_len = 4, f_bits = n, f_data = bs\<rparr>"

theorem classifier_lookup_witness:
  "\<exists>c. run_class (hlt_classifier_new 1) [AddRule [net_rule [10, 0, 0, 0] 16] 10 7, AddNoPrio [net_rule [10, 0, 1, 0] 24] 8] = Some c \<and>
    (\<exists>c'. hlt_classifier_compile c c' \<and>
      hlt_classifier_matches c' [net_rule [10, 0, 1, 5] 32] = Some (Inr True) \<and>
      hlt_classifier_matches c' [net_rule [11, 128, 1, 5] 32] = Some (Inr False))"
proof -
  let ?as = "[AddRule [net_rule [10, 0, 0, 0] 16] 10 7, AddNoPrio [net_rule [10, 0, 1, 0] 24] 8]"
  have ok: "\<forall>a\<in>set ?as. op_ok 1 a" "length ?as < 2 ^ 30" by (simp_all add: wf_fields_def wf_field_def net_rule_def)
  have key: "wf_fields 1 [net_rule [10, 0, 1, 5] 32]" "wf_fields 1 [net_rule [11, 128, 1, 5] 32]"
    by (simp_all add: wf_fields_def wf_field_def net_rule_def)
  have "(\<exists>r\<in>set (spec_rules 0 ?as). rule_accepts r [net_rule [10, 0, 1, 5] 32])"
    "\<not> (\<exists>r\<in>set (spec_rules 0 ?as). rule_accepts r [net_rule [11, 128, 1, 5] 32])"
    by (simp_all add: Let_def rule_accepts_def field_accepts_def net_rule_def msb_bits_def byte_bits_def upt_rec)
  with classifier_lookup [OF ok] key show ?thesis by fastforce
qed

text \<open>
  A defect. The structure says that a field has \<open>f_bits\<close> valid bits, but matching leaves out the last one: a key that agrees
  with a rule's field on all bits but the last valid one is accepted. A rule for 10.0.1/24 matches the addresses of 10.0.0/24, and a
  boolean field matches both truth values.
\<close>

theorem match_ignores_last_bit:
  assumes "wf_field f" "wf_field v" "f_len f \<le> f_len v" "unat (f_bits f) = Suc n"
    "take n (msb_bits (f_data v)) = take n (msb_bits (f_data f))" "msb_bits (f_data v) ! n \<noteq> msb_bits (f_data f) ! n"
  shows "match_field f v = Some True"
  using assms by (simp add: match_field_prefix)

theorem match_ignores_last_bit_witness:
  "match_field \<lparr>f_len = 1, f_bits = 8, f_data = [1]\<rparr> \<lparr>f_len = 1, f_bits = 8, f_data = [0]\<rparr> = Some True"
  by (rule match_ignores_last_bit [of _ _ 7]) (simp_all add: wf_field_def msb_bits_def byte_bits_def upt_rec)

text \<open>A table with two rules that match everything, the second one with priority \<open>p\<close>.\<close>

definition two_rules :: "64 word \<Rightarrow> hlt_classifier" where
  "two_rules p = \<lparr>c_num_fields = 0, c_compiled = False, c_max_prio = p, c_num_rules = 2, c_max_rules = 5,
     c_rules = [Some \<lparr>r_priority = 0, r_fields = [], r_value = 1\<rparr>, Some \<lparr>r_priority = p, r_fields = [], r_value = 2\<rparr>] @ replicate 13 None\<rparr>"

lemma two_rules_added: "0 <s p \<Longrightarrow> run_class (hlt_classifier_new 0) [AddRule [] 0 1, AddRule [] p 2] = Some (two_rules p)"
proof -
  assume "0 <s p"
  moreover have "grown_rules 0 = Some 5" by (simp add: grown_rules_def)
  moreover have "replicate 15 None = None # None # replicate 13 (None :: hlt_classifier_rule option)" by (simp add: numeral_eq_Suc)
  ultimately show ?thesis
    by (simp add: two_rules_def hlt_classifier_new_def hlt_classifier_init_def hlt_classifier_add_def grow_rules_def wr_def)
qed

lemma two_rules_of:
  "rules_of (two_rules p) = Some [\<lparr>r_priority = 0, r_fields = [], r_value = 1\<rparr>, \<lparr>r_priority = p, r_fields = [], r_value = 2\<rparr>]"
  "rules_of ((two_rules p)\<lparr>c_compiled := b\<rparr>) = rules_of (two_rules p)"
  by (simp_all add: rules_of_def two_rules_def)

text \<open>
  A defect. The comparison for sorting cuts off the upper half of the difference of two priorities. Rules whose priorities differ by
  a multiple of \<open>2 ^ 32\<close> count as equal, so that compiling may leave the rule with the lower one in front, and the lookup then returns the wrong
  value. With a difference of \<open>2 ^ 31\<close>, each of two rules precedes the other, and sorting is undefined.
\<close>

theorem priority_difference_truncated:
  "(\<exists>c c'. run_class (hlt_classifier_new 0) [AddRule [] 0 1, AddRule [] 4294967296 2] = Some c \<and>
      hlt_classifier_compile c c' \<and> hlt_classifier_get c' [] = Some (Inr 1)) \<and>
    (\<exists>c. run_class (hlt_classifier_new 0) [AddRule [] 0 1, AddRule [] 2147483648 2] = Some c \<and>
      (\<forall>c'. \<not> hlt_classifier_compile c c'))"
proof (rule conjI)
  let ?c = "two_rules 4294967296"
  have "run_class (hlt_classifier_new 0) [AddRule [] 0 1, AddRule [] 4294967296 2] = Some ?c"
    by (rule two_rules_added) (simp add: word_sless_alt)
  moreover have "hlt_classifier_compile ?c (?c\<lparr>c_compiled := True\<rparr>)"
    by (simp add: hlt_classifier_compile_def two_rules_of qsort_result_def consistent_cmp_def cmp_rules_def) (simp add: two_rules_def)
  moreover have "hlt_classifier_get (?c\<lparr>c_compiled := True\<rparr>) [] = Some (Inr 1)"
    by (simp add: two_rules_def hlt_classifier_get_def match_single_rule_def rd_def upt_rec)
  ultimately show "\<exists>c c'. run_class (hlt_classifier_new 0) [AddRule [] 0 1, AddRule [] 4294967296 2] = Some c \<and>
      hlt_classifier_compile c c' \<and> hlt_classifier_get c' [] = Some (Inr 1)" by blast
  have "\<not> hlt_classifier_compile (two_rules 2147483648) c'" for c'
    by (simp add: hlt_classifier_compile_def two_rules_of qsort_result_def consistent_cmp_def cmp_rules_def split: option.splits)
  moreover have "run_class (hlt_classifier_new 0) [AddRule [] 0 1, AddRule [] 2147483648 2] = Some (two_rules 2147483648)"
    by (rule two_rules_added) (simp add: word_sless_alt)
  ultimately show "\<exists>c. run_class (hlt_classifier_new 0) [AddRule [] 0 1, AddRule [] 2147483648 2] = Some c \<and>
      (\<forall>c'. \<not> hlt_classifier_compile c c')" by blast
qed

end
