(* ===== verification/Khash.thy ===== *)
theory Khash
  imports Prelude "HOL-Library.Word"
begin

unbundle bit_operations_syntax

text \<open>
  The hash table behind maps and sets, \<^verbatim>\<open>libhilti/3rdparty/khash/khash.h\<close> (adapted by HILTI to pass a type object to the hash
  and comparison functions): open addressing with double hashing in tables of prime size.

  Each slot has two flag bits, packed 16 slots to a 32-bit word: bit 1 says that the slot is empty, bit 0 that its entry has been deleted; a
  slot in use has neither. The arrays are in memory that is not cleared: \<^term>\<open>None\<close> in \<open>kh_keys\<close> is an indeterminate key,
  and comparing or hashing it is undefined. Hash and comparison are those of the key's type (\<open>type_info\<close>). Numbers are natural numbers: all sizes are at
  most 4294967291, so that no sum of two of them exceeds the 64 bits of \<open>khint_t\<close>.

  Growing moves the entries within the same array: an entry that is in the way is swapped out and placed next, until a place is found that is
  free. The loops are partial functions; the invariant \<open>kh_inv\<close> gives that they return.
\<close>

section \<open>State\<close>

record 'k type_info =
  ti_hash :: "'k \<Rightarrow> nat"
  ti_equal :: "'k \<Rightarrow> 'k \<Rightarrow> bool"

record ('k, 'v) khash =
  kh_n_buckets :: nat
  kh_size :: nat
  kh_n_occupied :: nat
  kh_upper_bound :: nat
  kh_flags :: "32 word list"
  kh_keys :: "'k option list"
  kh_vals :: "'v option list"

definition ac_prime_list :: "nat list" where
  "ac_prime_list =
    [0, 3, 11, 23, 53,
     97, 193, 389, 769, 1543,
     3079, 6151, 12289, 24593, 49157,
     98317, 196613, 393241, 786433, 1572869,
     3145739, 6291469, 12582917, 25165843, 50331653,
     100663319, 201326611, 402653189, 805306457, 1610612741,
     3221225473, 4294967291]"

section \<open>Flags\<close>

text \<open>The macros take \<open>i >> 4\<close> as the index of the word and \<open>(i & 0xf) << 1\<close> as the position in it.\<close>

abbreviation flag_word :: "nat \<Rightarrow> nat" where
  "flag_word i \<equiv> i div 16"

abbreviation flag_pos :: "nat \<Rightarrow> nat" where
  "flag_pos i \<equiv> 2 * (i mod 16)"

definition ac_test :: "32 word \<Rightarrow> 32 word list \<Rightarrow> nat \<Rightarrow> bool option" where
  "ac_test b flag i = do { w \<leftarrow> rd flag (flag_word i); Some (drop_bit (flag_pos i) w AND b \<noteq> 0) }"

definition ac_isempty :: "32 word list \<Rightarrow> nat \<Rightarrow> bool option" where
  "ac_isempty flag i = ac_test 2 flag i"

definition ac_isdel :: "32 word list \<Rightarrow> nat \<Rightarrow> bool option" where
  "ac_isdel flag i = ac_test 1 flag i"

definition ac_iseither :: "32 word list \<Rightarrow> nat \<Rightarrow> bool option" where
  "ac_iseither flag i = ac_test 3 flag i"

definition ac_set_isempty_false :: "32 word list \<Rightarrow> nat \<Rightarrow> 32 word list option" where
  "ac_set_isempty_false flag i = do { w \<leftarrow> rd flag (flag_word i); wr flag (flag_word i) (w AND NOT (push_bit (flag_pos i) 2)) }"

definition ac_set_isboth_false :: "32 word list \<Rightarrow> nat \<Rightarrow> 32 word list option" where
  "ac_set_isboth_false flag i = do { w \<leftarrow> rd flag (flag_word i); wr flag (flag_word i) (w AND NOT (push_bit (flag_pos i) 3)) }"

definition ac_set_isdel_true :: "32 word list \<Rightarrow> nat \<Rightarrow> 32 word list option" where
  "ac_set_isdel_true flag i = do { w \<leftarrow> rd flag (flag_word i); wr flag (flag_word i) (w OR push_bit (flag_pos i) 1) }"

text \<open>\<open>memset\<close> of all flags to \<open>0xaa\<close>: every slot is empty.\<close>

definition all_empty :: "nat \<Rightarrow> 32 word list" where
  "all_empty n = replicate (n div 16 + 1) 0xaaaaaaaa"

section \<open>Operations\<close>

definition kh_init :: "('k, 'v) khash" where
  "kh_init = \<lparr>kh_n_buckets = 0, kh_size = 0, kh_n_occupied = 0, kh_upper_bound = 0,
     kh_flags = [], kh_keys = [], kh_vals = []\<rparr>"

definition kh_clear :: "('k, 'v) khash \<Rightarrow> ('k, 'v) khash" where
  "kh_clear h = (if kh_flags h \<noteq> [] then h\<lparr>kh_flags := all_empty (kh_n_buckets h), kh_size := 0, kh_n_occupied := 0\<rparr> else h)"

definition next_slot :: "nat \<Rightarrow> nat \<Rightarrow> nat \<Rightarrow> nat" where
  "next_slot n inc i = (if i + inc \<ge> n then i + inc - n else i + inc)"

text \<open>
  The condition of the search loops, negated: the slot is empty, or it holds the key.
\<close>

definition probe_stops :: "'k type_info \<Rightarrow> ('k, 'v) khash \<Rightarrow> 'k \<Rightarrow> nat \<Rightarrow> bool option" where
  "probe_stops ty h key i = do {
     e \<leftarrow> ac_isempty (kh_flags h) i;
     (if e then Some True
      else do {
        d \<leftarrow> ac_isdel (kh_flags h) i;
        (if d then Some False
         else do { p \<leftarrow> rd (kh_keys h) i; k \<leftarrow> p; Some (ti_equal ty k key) })
      })
   }"

partial_function (option) kh_get_loop :: "'k type_info \<Rightarrow> ('k, 'v) khash \<Rightarrow> 'k \<Rightarrow> nat \<Rightarrow> nat \<Rightarrow> nat \<Rightarrow> nat option" where
  "kh_get_loop ty h key inc start i = do {
     stop \<leftarrow> probe_stops ty h key i;
     (if stop then do {
        e \<leftarrow> ac_iseither (kh_flags h) i;
        Some (if e then kh_n_buckets h else i)
      }
      else do {
        let i = next_slot (kh_n_buckets h) inc i;
        (if i = start then Some (kh_n_buckets h) else kh_get_loop ty h key inc start i)
      })
   }"

declare kh_get_loop.simps [code]

definition kh_get :: "'k type_info \<Rightarrow> ('k, 'v) khash \<Rightarrow> 'k \<Rightarrow> nat option" where
  "kh_get ty h key =
     (if kh_n_buckets h \<noteq> 0 then do {
        let k = ti_hash ty key;
        let i = k mod kh_n_buckets h;
        kh_get_loop ty h key (1 + k mod (kh_n_buckets h - 1)) i i
      } else Some 0)"

text \<open>The number of buckets for a resize: the prime that follows the largest one not above the argument.\<close>

primrec prime_index :: "nat \<Rightarrow> nat \<Rightarrow> nat option" where
  "prime_index 0 n = Some 0"
| "prime_index (Suc t) n = do {
     p \<leftarrow> rd ac_prime_list (Suc t);
     (if p > n then prime_index t n else Some (Suc t))
   }"

definition kh_new_size :: "nat \<Rightarrow> nat option" where
  "kh_new_size n = do { t \<leftarrow> prime_index 31 n; rd ac_prime_list (t + 1) }"

text \<open>
  \<open>(khint_t)(n * 0.77 + 0.5)\<close>; for the sizes of the list, rounding in double precision does not change the result.
\<close>

definition ac_upper :: "nat \<Rightarrow> nat" where
  "ac_upper n = (77 * n + 50) div 100"

partial_function (option) find_empty :: "32 word list \<Rightarrow> nat \<Rightarrow> nat \<Rightarrow> nat \<Rightarrow> nat option" where
  "find_empty flags n inc i = do {
     e \<leftarrow> ac_isempty flags i;
     (if e then Some i else find_empty flags n inc (next_slot n inc i))
   }"

declare find_empty.simps [code]

text \<open>The state of rehashing: old flags, new flags, keys and values.\<close>

type_synonym ('k, 'v) rehash = "32 word list \<times> 32 word list \<times> 'k option list \<times> 'v option list"

partial_function (option) rehash_place ::
  "'k type_info \<Rightarrow> nat \<Rightarrow> nat \<Rightarrow> 'k option \<Rightarrow> 'v option \<Rightarrow> ('k, 'v) rehash \<Rightarrow> ('k, 'v) rehash option" where
  "rehash_place ty n new_n key val s = (case s of (flags, new_flags, ks, vs) \<Rightarrow> do {
     ky \<leftarrow> key;
     let k = ti_hash ty ky;
     i \<leftarrow> find_empty new_flags new_n (1 + k mod (new_n - 1)) (k mod new_n);
     new_flags \<leftarrow> ac_set_isempty_false new_flags i;
     e \<leftarrow> (if i < n then ac_iseither flags i else Some True);
     key' \<leftarrow> rd ks i;
     val' \<leftarrow> rd vs i;
     ks \<leftarrow> wr ks i key;
     vs \<leftarrow> wr vs i val;
     (if \<not> e then do {
        flags \<leftarrow> ac_set_isdel_true flags i;
        rehash_place ty n new_n key' val' (flags, new_flags, ks, vs)
      }
      else Some (flags, new_flags, ks, vs))
   })"

declare rehash_place.simps [code]

primrec rehash_loop :: "'k type_info \<Rightarrow> nat \<Rightarrow> nat \<Rightarrow> nat list \<Rightarrow> ('k, 'v) rehash \<Rightarrow> ('k, 'v) rehash option" where
  "rehash_loop ty n new_n [] s = Some s"
| "rehash_loop ty n new_n (j # js) s = (case s of (flags, new_flags, ks, vs) \<Rightarrow> do {
     e \<leftarrow> ac_iseither flags j;
     s \<leftarrow> (if e then Some s
           else do {
             key \<leftarrow> rd ks j;
             val \<leftarrow> rd vs j;
             flags \<leftarrow> ac_set_isdel_true flags j;
             rehash_place ty n new_n key val (flags, new_flags, ks, vs)
           });
     rehash_loop ty n new_n js s
   })"

text \<open>\<open>realloc\<close>: new memory is indeterminate.\<close>

definition realloc :: "nat \<Rightarrow> 'a option list \<Rightarrow> 'a option list" where
  "realloc n xs = take n xs @ replicate (n - length xs) None"

definition kh_resize :: "'k type_info \<Rightarrow> ('k, 'v) khash \<Rightarrow> nat \<Rightarrow> ('k, 'v) khash option" where
  "kh_resize ty h new_n_buckets = do {
     new_n \<leftarrow> kh_new_size new_n_buckets;
     (if kh_size h \<ge> ac_upper new_n then Some h
      else do {
        let grown = kh_n_buckets h < new_n;
        let ks = (if grown then realloc new_n (kh_keys h) else kh_keys h);
        let vs = (if grown then realloc new_n (kh_vals h) else kh_vals h);
        (_, new_flags, ks, vs) \<leftarrow>
          rehash_loop ty (kh_n_buckets h) new_n [0..<kh_n_buckets h] (kh_flags h, all_empty new_n, ks, vs);
        let shrunk = kh_n_buckets h > new_n;
        Some \<lparr>kh_n_buckets = new_n, kh_size = kh_size h, kh_n_occupied = kh_size h, kh_upper_bound = ac_upper new_n,
          kh_flags = new_flags, kh_keys = (if shrunk then realloc new_n ks else ks), kh_vals = (if shrunk then realloc new_n vs else vs)\<rparr>
      })
   }"

text \<open>The search loop of an insertion, with the last deleted slot that it has passed.\<close>

partial_function (option) kh_put_loop :: "'k type_info \<Rightarrow> ('k, 'v) khash \<Rightarrow> 'k \<Rightarrow> nat \<Rightarrow> nat \<Rightarrow> nat \<Rightarrow> nat \<Rightarrow> nat option" where
  "kh_put_loop ty h key inc start site i = do {
     stop \<leftarrow> probe_stops ty h key i;
     (if stop then do {
        e \<leftarrow> ac_isempty (kh_flags h) i;
        Some (if e \<and> site \<noteq> kh_n_buckets h then site else i)
      }
      else do {
        d \<leftarrow> ac_isdel (kh_flags h) i;
        let site = (if d then i else site);
        let i = next_slot (kh_n_buckets h) inc i;
        (if i = start then Some (if site \<noteq> kh_n_buckets h then site else i)
         else kh_put_loop ty h key inc start site i)
      })
   }"

declare kh_put_loop.simps [code]

definition kh_slot_for :: "'k type_info \<Rightarrow> ('k, 'v) khash \<Rightarrow> 'k \<Rightarrow> nat option" where
  "kh_slot_for ty h key =
     (if kh_n_buckets h = 0 then None
      else do {
        let k = ti_hash ty key;
        let i = k mod kh_n_buckets h;
        e \<leftarrow> ac_isempty (kh_flags h) i;
        (if e then Some i
         else kh_put_loop ty h key (1 + k mod (kh_n_buckets h - 1)) i (kh_n_buckets h) i)
      })"

definition kh_put :: "'k type_info \<Rightarrow> ('k, 'v) khash \<Rightarrow> 'k \<Rightarrow> (nat \<times> nat \<times> ('k, 'v) khash) option" where
  "kh_put ty h key = do {
     h \<leftarrow> (if kh_n_occupied h \<ge> kh_upper_bound h then
            (if kh_n_buckets h > 2 * kh_size h then kh_resize ty h (kh_n_buckets h - 1)
             else kh_resize ty h (kh_n_buckets h + 1))
          else Some h);
     x \<leftarrow> kh_slot_for ty h key;
     e \<leftarrow> ac_isempty (kh_flags h) x;
     d \<leftarrow> ac_isdel (kh_flags h) x;
     (if e then do {
        ks \<leftarrow> wr (kh_keys h) x (Some key);
        fl \<leftarrow> ac_set_isboth_false (kh_flags h) x;
        Some (x, 1, h\<lparr>kh_keys := ks, kh_flags := fl, kh_size := kh_size h + 1, kh_n_occupied := kh_n_occupied h + 1\<rparr>)
      }
      else if d then do {
        ks \<leftarrow> wr (kh_keys h) x (Some key);
        fl \<leftarrow> ac_set_isboth_false (kh_flags h) x;
        Some (x, 2, h\<lparr>kh_keys := ks, kh_flags := fl, kh_size := kh_size h + 1\<rparr>)
      }
      else Some (x, 0, h))
   }"

definition kh_del :: "('k, 'v) khash \<Rightarrow> nat \<Rightarrow> ('k, 'v) khash option" where
  "kh_del h x =
     (if x \<noteq> kh_n_buckets h then do {
        e \<leftarrow> ac_iseither (kh_flags h) x;
        (if \<not> e then do {
           fl \<leftarrow> ac_set_isdel_true (kh_flags h) x;
           Some (h\<lparr>kh_flags := fl, kh_size := kh_size h - 1\<rparr>)
         } else Some h)
      } else Some h)"

definition kh_exist :: "('k, 'v) khash \<Rightarrow> nat \<Rightarrow> bool option" where
  "kh_exist h x = map_option Not (ac_iseither (kh_flags h) x)"

definition kh_key :: "('k, 'v) khash \<Rightarrow> nat \<Rightarrow> 'k option" where
  "kh_key h x = do { p \<leftarrow> rd (kh_keys h) x; p }"

definition kh_value :: "('k, 'v) khash \<Rightarrow> nat \<Rightarrow> 'v option" where
  "kh_value h x = do { p \<leftarrow> rd (kh_vals h) x; p }"

definition kh_set_value :: "('k, 'v) khash \<Rightarrow> nat \<Rightarrow> 'v \<Rightarrow> ('k, 'v) khash option" where
  "kh_set_value h x v = do { vs \<leftarrow> wr (kh_vals h) x (Some v); Some (h\<lparr>kh_vals := vs\<rparr>) }"

section \<open>Flags as predicates\<close>

definition emp :: "32 word list \<Rightarrow> nat \<Rightarrow> bool" where
  "emp fl i \<longleftrightarrow> bit (fl ! flag_word i) (flag_pos i + 1)"

definition del :: "32 word list \<Rightarrow> nat \<Rightarrow> bool" where
  "del fl i \<longleftrightarrow> bit (fl ! flag_word i) (flag_pos i)"

definition live :: "32 word list \<Rightarrow> nat \<Rightarrow> bool" where
  "live fl i \<longleftrightarrow> \<not> emp fl i \<and> \<not> del fl i"

lemma three_or: "(3 :: 32 word) = 1 OR 2"
  by simp

lemma and_bits:
  fixes w :: "32 word"
  shows "w AND 1 \<noteq> 0 \<longleftrightarrow> bit w 0" "w AND 2 \<noteq> 0 \<longleftrightarrow> bit w 1" "w AND 3 \<noteq> 0 \<longleftrightarrow> bit w 0 \<or> bit w 1"
proof -
  show 1: "w AND 1 \<noteq> 0 \<longleftrightarrow> bit w 0" using and_exp_eq_0_iff_not_bit [of w 0] by simp
  show 2: "w AND 2 \<noteq> 0 \<longleftrightarrow> bit w 1" using and_exp_eq_0_iff_not_bit [of w 1] by simp
  have "w AND 3 = (w AND 1) OR (w AND 2)" unfolding three_or by (rule bit.conj_disj_distrib)
  then show "w AND 3 \<noteq> 0 \<longleftrightarrow> bit w 0 \<or> bit w 1" using 1 2 by (simp only: or_eq_0_iff) blast
qed

lemma ac_tests [safe_simps]:
  assumes "i < 16 * length fl"
  shows "ac_isempty fl i = Some (emp fl i)" "ac_isdel fl i = Some (del fl i)" "ac_iseither fl i = Some (\<not> live fl i)"
proof -
  have "rd fl (flag_word i) = Some (fl ! flag_word i)" using assms by (intro rd_Some) auto
  then show "ac_isempty fl i = Some (emp fl i)" "ac_isdel fl i = Some (del fl i)" "ac_iseither fl i = Some (\<not> live fl i)"
    unfolding ac_isempty_def ac_isdel_def ac_iseither_def ac_test_def emp_def del_def live_def
    by (auto simp: and_bits bit_drop_bit_eq)
qed

lemma flag_split: "i \<noteq> j \<Longrightarrow> flag_word i = flag_word j \<Longrightarrow> flag_pos i \<noteq> flag_pos j"
  by (metis div_mult_mod_eq mult_cancel1 numeral_eq_iff zero_neq_numeral)

lemma flag_parity: "flag_pos i + 1 \<noteq> flag_pos j"
  by (metis Suc_eq_plus1 Suc_double_not_eq_double)

text \<open>An update of the two bits of a slot.\<close>

lemma flags_update:
  assumes "i < 16 * length fl" "\<And>q. q \<noteq> flag_pos i \<Longrightarrow> q \<noteq> flag_pos i + 1 \<Longrightarrow> bit w q = bit (fl ! flag_word i) q"
  shows "length (fl[flag_word i := w]) = length fl"
    "emp (fl[flag_word i := w]) j = (if j = i then bit w (flag_pos i + 1) else emp fl j)"
    "del (fl[flag_word i := w]) j = (if j = i then bit w (flag_pos i) else del fl j)"
proof -
  have i: "flag_word i < length fl" using assms(1) by auto
  have oth: "bit w (flag_pos j) = bit (fl ! flag_word i) (flag_pos j)" "bit w (flag_pos j + 1) = bit (fl ! flag_word i) (flag_pos j + 1)"
    if "j \<noteq> i" "flag_word j = flag_word i" for j
    using flag_split [OF that] flag_parity [of i j] flag_parity [of j i] by (intro assms(2); simp)+
  show "emp (fl[flag_word i := w]) j = (if j = i then bit w (flag_pos i + 1) else emp fl j)"
    "del (fl[flag_word i := w]) j = (if j = i then bit w (flag_pos i) else del fl j)"
    using i oth [of j] by (cases "flag_word j = flag_word i"; auto simp: emp_def del_def)+
qed simp

lemma flags_written:
  assumes "i < 16 * length fl" "\<And>q. q \<noteq> flag_pos i \<Longrightarrow> q \<noteq> flag_pos i + 1 \<Longrightarrow> bit w q = bit (fl ! flag_word i) q"
  shows "emp (fl[flag_word i := w]) = (emp fl)(i := bit w (flag_pos i + 1))" "del (fl[flag_word i := w]) = (del fl)(i := bit w (flag_pos i))"
  by (simp_all add: fun_eq_iff flags_update [OF assms] del: add_Suc_right One_nat_def)

lemma ac_updates:
  assumes "i < 16 * length fl"
  shows "\<exists>fl'. ac_set_isempty_false fl i = Some fl' \<and> length fl' = length fl \<and> emp fl' = (emp fl)(i := False) \<and> del fl' = del fl"
    "\<exists>fl'. ac_set_isboth_false fl i = Some fl' \<and> length fl' = length fl \<and> emp fl' = (emp fl)(i := False) \<and> del fl' = (del fl)(i := False)"
    "\<exists>fl'. ac_set_isdel_true fl i = Some fl' \<and> length fl' = length fl \<and> emp fl' = emp fl \<and> del fl' = (del fl)(i := True)"
proof -
  let ?w = "fl ! flag_word i" and ?p = "flag_pos i"
  have i: "flag_word i < length fl" using assms by auto
  have p: "?p + 1 < 32" by auto
  have b2: "bit (push_bit ?p 2 :: 32 word) q \<longleftrightarrow> q = ?p + 1" and b1: "bit (push_bit ?p 1 :: 32 word) q \<longleftrightarrow> q = ?p" for q
    using p by (auto simp: bit_simps)
  have b3: "bit (push_bit ?p 3 :: 32 word) q \<longleftrightarrow> q = ?p \<or> q = ?p + 1" for q
    unfolding three_or push_bit_or bit_or_iff b1 b2 ..
  have u2: "bit (?w AND NOT (push_bit ?p 2)) q \<longleftrightarrow> bit ?w q \<and> q \<noteq> ?p + 1"
    and u3: "bit (?w AND NOT (push_bit ?p 3)) q \<longleftrightarrow> bit ?w q \<and> q \<noteq> ?p \<and> q \<noteq> ?p + 1"
    and u1: "bit (?w OR push_bit ?p 1) q \<longleftrightarrow> bit ?w q \<or> q = ?p" for q
    using bit_imp_le_length [of ?w q] by (auto simp only: bit_and_iff bit_or_iff bit_not_iff b1 b2 b3 possible_bit_word)
  note upd = rd_Some [OF i] wr_Some [OF i] bind.bind_lunit
  show "\<exists>fl'. ac_set_isempty_false fl i = Some fl' \<and> length fl' = length fl \<and> emp fl' = (emp fl)(i := False) \<and> del fl' = del fl"
    unfolding ac_set_isempty_false_def upd
    using flags_written [OF assms, of "?w AND NOT (push_bit ?p 2)", unfolded u2] by (auto simp: del_def fun_eq_iff)
  show "\<exists>fl'. ac_set_isboth_false fl i = Some fl' \<and> length fl' = length fl \<and> emp fl' = (emp fl)(i := False) \<and> del fl' = (del fl)(i := False)"
    unfolding ac_set_isboth_false_def upd
    using flags_written [OF assms, of "?w AND NOT (push_bit ?p 3)", unfolded u3] by auto
  show "\<exists>fl'. ac_set_isdel_true fl i = Some fl' \<and> length fl' = length fl \<and> emp fl' = emp fl \<and> del fl' = (del fl)(i := True)"
    unfolding ac_set_isdel_true_def upd
    using flags_written [OF assms, of "?w OR push_bit ?p 1", unfolded u1] by (auto simp: emp_def fun_eq_iff simp del: push_bit_of_1)
qed

lemma all_empty_flags:
  assumes "i < 16 * (n div 16 + 1)"
  shows "emp (all_empty n) i" "\<not> del (all_empty n) i"
proof -
  have "flag_word i < n div 16 + 1" using assms by auto
  then have w: "all_empty n ! flag_word i = 0xaaaaaaaa" by (simp only: all_empty_def nth_replicate)
  have "\<forall>k\<in>set [0..<16]. bit (0xaaaaaaaa :: 32 word) (2 * k + 1) \<and> \<not> bit (0xaaaaaaaa :: 32 word) (2 * k)"
    by (simp add: upt_rec)
  then show "emp (all_empty n) i" "\<not> del (all_empty n) i"
    unfolding emp_def del_def w by simp_all
qed

section \<open>Probing\<close>

text \<open>The slot that the search for hash value \<open>k\<close> visits after \<open>m\<close> steps, in a table of \<open>n\<close> slots.\<close>

definition probe :: "nat \<Rightarrow> nat \<Rightarrow> nat \<Rightarrow> nat" where
  "probe n k m = (k mod n + m * (1 + k mod (n - 1))) mod n"

definition table_prime :: "nat \<Rightarrow> bool" where
  "table_prime n \<longleftrightarrow> 3 \<le> n \<and> (\<forall>d. 1 < d \<and> d < n \<longrightarrow> \<not> d dvd n)"

lemma probe_0 [simp]: "probe n k 0 = k mod n"
  by (simp add: probe_def)

lemma probe_less: "table_prime n \<Longrightarrow> probe n k m < n"
  by (simp add: probe_def table_prime_def)

lemma probe_Suc:
  assumes "table_prime n"
  shows "probe n k (Suc m) = next_slot n (1 + k mod (n - 1)) (probe n k m)"
proof -
  have n: "3 \<le> n" using assms by (simp add: table_prime_def)
  have "k mod (n - 1) < n - 1" using n by (intro mod_less_divisor) simp
  then have "probe n k m + (1 + k mod (n - 1)) < 2 * n" using probe_less [OF assms, of k m] by simp
  moreover have "probe n k (Suc m) = (probe n k m + (1 + k mod (n - 1))) mod n"
    unfolding probe_def mod_add_left_eq by (rule arg_cong [where f = "\<lambda>x. x mod n"]) simp
  ultimately show ?thesis by (simp add: next_slot_def le_mod_geq)
qed

lemma probe_inj:
  assumes "table_prime n"
  shows "inj_on (probe n k) {..<n}"
proof -
  let ?inc = "1 + k mod (n - 1)"
  have n: "3 \<le> n" and p: "\<forall>d. 1 < d \<and> d < n \<longrightarrow> \<not> d dvd n" using assms by (simp_all add: table_prime_def)
  have inc: "?inc < n" using mod_less_divisor [of "n - 1" k] n by linarith
  have "gcd ?inc n \<le> ?inc" by (intro gcd_le1_nat) simp
  moreover have "gcd ?inc n \<noteq> 0" by simp
  ultimately have "gcd ?inc n = 1" using p inc gcd_dvd2 [of ?inc n] by (metis le_neq_implies_less less_one linorder_not_less order_le_less_trans)
  then have cop: "coprime ?inc n" by (rule coprime_iff_gcd_eq_1 [THEN iffD2])
  have "a = b" if "a \<le> b" "b < n" "probe n k a = probe n k b" for a b
  proof -
    have "(k mod n + a * ?inc) mod n = (k mod n + b * ?inc) mod n" using that(3) by (simp add: probe_def)
    moreover have "k mod n + a * ?inc \<le> k mod n + b * ?inc" using that(1) by (intro add_left_mono mult_right_mono) simp_all
    ultimately have "n dvd (k mod n + b * ?inc) - (k mod n + a * ?inc)" using mod_eq_dvd_iff_nat by metis
    then have "n dvd (b - a) * ?inc" by (simp only: Nat.diff_cancel diff_mult_distrib)
    then have "n dvd b - a" using cop by (metis coprime_commute coprime_dvd_mult_left_iff)
    then show ?thesis using that(1,2) by (metis diff_is_0_eq dvd_imp_le le_antisym less_imp_diff_less linorder_not_less not_gr_zero)
  qed
  then have "probe n k i \<noteq> probe n k j" if "i < j" "j < n" for i j using that by (metis less_imp_le less_irrefl)
  then show ?thesis by (intro linorder_inj_onI') auto
qed

lemma probe_surj:
  assumes "table_prime n" "i < n"
  shows "\<exists>m<n. probe n k m = i"
proof -
  have "probe n k ` {..<n} \<subseteq> {..<n}" using probe_less [OF assms(1)] by auto
  moreover have "card (probe n k ` {..<n}) = card {..<n}" by (rule card_image [OF probe_inj [OF assms(1)]])
  ultimately have "probe n k ` {..<n} = {..<n}" by (intro card_subset_eq) auto
  then show ?thesis using assms(2) by (metis imageE lessThan_iff)
qed

text \<open>The first empty slot on the way, when there is an empty slot at all.\<close>

lemma first_empty:
  assumes "table_prime n" "i < n" "E i"
  shows "\<exists>m<n. E (probe n k m) \<and> (\<forall>m'<m. \<not> E (probe n k m'))"
proof -
  obtain m where m: "m < n" "E (probe n k m)" using probe_surj [OF assms(1,2), of k] assms(3) by blast
  define m0 where "m0 = (LEAST m. E (probe n k m))"
  have "E (probe n k m0)" using m(2) unfolding m0_def by (rule LeastI)
  moreover have "m0 \<le> m" using m(2) unfolding m0_def by (rule Least_le)
  moreover have "\<forall>m'<m0. \<not> E (probe n k m')" unfolding m0_def using not_less_Least by blast
  ultimately show ?thesis using m(1) by (meson order_le_less_trans)
qed

text \<open>Slot \<open>i\<close> is found by the search for hash value \<open>k\<close>: no empty slot comes before it.\<close>

definition reach :: "nat \<Rightarrow> (nat \<Rightarrow> bool) \<Rightarrow> nat \<Rightarrow> nat \<Rightarrow> bool" where
  "reach n E k i \<longleftrightarrow> (\<exists>m<n. probe n k m = i \<and> (\<forall>m'<m. \<not> E (probe n k m')))"

lemma reach_mono: "reach n E k i \<Longrightarrow> (\<And>j. E' j \<Longrightarrow> E j) \<Longrightarrow> reach n E' k i"
  unfolding reach_def by blast

text \<open>Table sizes are prime: the list's entries up to 98317, by trial division.\<close>

fun odd_trial :: "nat \<Rightarrow> nat \<Rightarrow> nat \<Rightarrow> bool" where
  "odd_trial n d 0 \<longleftrightarrow> True"
| "odd_trial n d (Suc k) \<longleftrightarrow> (if n mod d = 0 then False else odd_trial n (d + 2) k)"

lemma odd_trial_numeral: "odd_trial n d (numeral k) \<longleftrightarrow> (if n mod d = 0 then False else odd_trial n (d + 2) (pred_numeral k))"
  by (simp add: numeral_eq_Suc)

lemma odd_trialD: "odd_trial n d k \<Longrightarrow> j < k \<Longrightarrow> \<not> d + 2 * j dvd n"
proof (induction n d k arbitrary: j rule: odd_trial.induct)
  case (2 n d k)
  show ?case
  proof (cases j)
    case 0
    with 2(2) show ?thesis by (auto simp: dvd_eq_mod_eq_0 split: if_splits)
  next
    case (Suc i)
    with 2 show ?thesis by (auto split: if_splits)
  qed
qed simp

lemma trial_prime:
  assumes "odd n" "3 \<le> n" "odd_trial n 3 k" "n < (2 * k + 3) * (2 * k + 3)"
  shows "table_prime n"
proof -
  have small: False if "1 < d" "d < 2 * k + 3" "d dvd n" for d
  proof -
    have "odd d" using that(3) assms(1) dvd_trans by blast
    then obtain j where j: "d = 2 * j + 1" by (rule oddE)
    then have "d = 3 + 2 * (j - 1)" "j - 1 < k" using that by auto
    then show False using odd_trialD [OF assms(3), of "j - 1"] that(3) by metis
  qed
  have "\<not> d dvd n" if d: "1 < d" "d < n" for d
  proof
    assume "d dvd n"
    then obtain e where e: "n = d * e" by blast
    then have "1 < e" using d by (cases e; cases "e - 1") auto
    moreover have "e dvd n" using e by simp
    moreover have "d < 2 * k + 3 \<or> e < 2 * k + 3"
      using assms(4) mult_le_mono [of "2 * k + 3" d "2 * k + 3" e] e by (meson linorder_not_le)
    ultimately show False using small d \<open>d dvd n\<close> by blast
  qed
  then show ?thesis using assms(2) by (auto simp: table_prime_def)
qed

definition small_sizes :: "nat list" where
  "small_sizes = [3, 11, 23, 53, 97, 193, 389, 769, 1543, 3079, 6151, 12289, 24593, 49157, 98317]"

lemma trial_sizes:
  "list_all table_prime small_sizes"
proof -
  have "table_prime 3" by (rule trial_prime [where k = 0]) (simp_all add: odd_trial_numeral)
  moreover have "table_prime 11" by (rule trial_prime [where k = 1]) (simp_all add: odd_trial_numeral)
  moreover have "table_prime 23" by (rule trial_prime [where k = 1]) (simp_all add: odd_trial_numeral)
  moreover have "table_prime 53" by (rule trial_prime [where k = 3]) (simp_all add: odd_trial_numeral)
  moreover have "table_prime 97" by (rule trial_prime [where k = 4]) (simp_all add: odd_trial_numeral)
  moreover have "table_prime 193" by (rule trial_prime [where k = 6]) (simp_all add: odd_trial_numeral)
  moreover have "table_prime 389" by (rule trial_prime [where k = 9]) (simp_all add: odd_trial_numeral)
  moreover have "table_prime 769" by (rule trial_prime [where k = 13]) (simp_all add: odd_trial_numeral)
  moreover have "table_prime 1543" by (rule trial_prime [where k = 19]) (simp_all add: odd_trial_numeral)
  moreover have "table_prime 3079" by (rule trial_prime [where k = 27]) (simp_all add: odd_trial_numeral)
  moreover have "table_prime 6151" by (rule trial_prime [where k = 38]) (simp_all add: odd_trial_numeral)
  moreover have "table_prime 12289" by (rule trial_prime [where k = 54]) (simp_all add: odd_trial_numeral)
  moreover have "table_prime 24593" by (rule trial_prime [where k = 77]) (simp_all add: odd_trial_numeral)
  moreover have "table_prime 49157" by (rule trial_prime [where k = 110]) (simp_all add: odd_trial_numeral)
  moreover have "table_prime 98317" by (rule trial_prime [where k = 156]) (simp_all add: odd_trial_numeral)
  ultimately show ?thesis by (simp only: small_sizes_def list.pred_inject simp_thms)
qed

section \<open>The invariant\<close>

text \<open>What the hash and the comparison of a key type have to satisfy.\<close>

definition wf_type :: "'k type_info \<Rightarrow> bool" where
  "wf_type ty \<longleftrightarrow> (\<forall>a. ti_equal ty a a) \<and> (\<forall>a b. ti_equal ty a b \<longrightarrow> ti_equal ty b a) \<and>
     (\<forall>a b c. ti_equal ty a b \<longrightarrow> ti_equal ty b c \<longrightarrow> ti_equal ty a c) \<and>
     (\<forall>a b. ti_equal ty a b \<longrightarrow> ti_hash ty a = ti_hash ty b)"

lemma wf_typeD:
  assumes "wf_type ty"
  shows "ti_equal ty a a" "ti_equal ty a b \<Longrightarrow> ti_equal ty b a" "ti_equal ty a b \<Longrightarrow> ti_equal ty b c \<Longrightarrow> ti_equal ty a c"
    "ti_equal ty a b \<Longrightarrow> ti_hash ty a = ti_hash ty b"
  using assms unfolding wf_type_def by blast+

definition slots :: "('k, 'v) khash \<Rightarrow> nat set" where
  "slots h = {i. i < kh_n_buckets h \<and> live (kh_flags h) i}"

abbreviation the_key :: "('k, 'v) khash \<Rightarrow> nat \<Rightarrow> 'k" where
  "the_key h i \<equiv> the (kh_keys h ! i)"

definition kh_at :: "'k type_info \<Rightarrow> ('k, 'v) khash \<Rightarrow> 'k \<Rightarrow> nat \<Rightarrow> bool" where
  "kh_at ty h x i \<longleftrightarrow> i \<in> slots h \<and> ti_equal ty (the_key h i) x"

definition kh_shape :: "('k, 'v) khash \<Rightarrow> bool" where
  "kh_shape h \<longleftrightarrow> table_prime (kh_n_buckets h) \<and> length (kh_flags h) = kh_n_buckets h div 16 + 1 \<and>
     length (kh_keys h) = kh_n_buckets h \<and> length (kh_vals h) = kh_n_buckets h \<and> emp (kh_flags h) (kh_n_buckets h)"

definition kh_keys_ok :: "'k type_info \<Rightarrow> ('k, 'v) khash \<Rightarrow> bool" where
  "kh_keys_ok ty h \<longleftrightarrow>
     (\<forall>i\<in>slots h. kh_keys h ! i \<noteq> None \<and> reach (kh_n_buckets h) (emp (kh_flags h)) (ti_hash ty (the_key h i)) i) \<and>
     (\<forall>i\<in>slots h. \<forall>j\<in>slots h. ti_equal ty (the_key h i) (the_key h j) \<longrightarrow> i = j)"

definition kh_counts :: "('k, 'v) khash \<Rightarrow> bool" where
  "kh_counts h \<longleftrightarrow> kh_upper_bound h = ac_upper (kh_n_buckets h) \<and> kh_size h = card (slots h) \<and>
     kh_n_occupied h = card {i. i < kh_n_buckets h \<and> \<not> emp (kh_flags h) i} \<and> kh_n_occupied h \<le> kh_upper_bound h"

definition kh_inv :: "'k type_info \<Rightarrow> ('k, 'v) khash \<Rightarrow> bool" where
  "kh_inv ty h \<longleftrightarrow> h = kh_init \<or> kh_shape h \<and> kh_keys_ok ty h \<and> kh_counts h"

lemma kh_init_slots [simp]: "slots kh_init = {}" "kh_n_buckets kh_init = 0"
  by (simp_all add: slots_def kh_init_def)

lemma finite_slots [simp]: "finite (slots h)"
  by (simp add: slots_def)

lemma kh_at_unique: "wf_type ty \<Longrightarrow> kh_keys_ok ty h \<Longrightarrow> kh_at ty h x i \<Longrightarrow> kh_at ty h x j \<Longrightarrow> i = j"
  unfolding kh_keys_ok_def kh_at_def by (meson wf_typeD(2,3))

lemma flags_long: "kh_shape h \<Longrightarrow> i \<le> kh_n_buckets h \<Longrightarrow> i < 16 * length (kh_flags h)"
  unfolding kh_shape_def using div_mult_mod_eq [of "kh_n_buckets h" 16] mod_less_divisor [of 16 "kh_n_buckets h"]
  by (simp add: algebra_simps)

lemma ac_upper_less: "3 \<le> n \<Longrightarrow> ac_upper n < n"
  by (auto simp: ac_upper_def less_mult_imp_div_less)

lemma has_empty:
  assumes "kh_shape h" "card {i. i < kh_n_buckets h \<and> \<not> emp (kh_flags h) i} \<le> ac_upper (kh_n_buckets h)"
  shows "\<exists>i<kh_n_buckets h. emp (kh_flags h) i"
proof (rule ccontr)
  assume "\<not> ?thesis"
  then have "{i. i < kh_n_buckets h \<and> \<not> emp (kh_flags h) i} = {..<kh_n_buckets h}" by auto
  then show False using assms ac_upper_less [of "kh_n_buckets h"] by (simp add: kh_shape_def table_prime_def)
qed

section \<open>Searching\<close>

definition stops :: "'k type_info \<Rightarrow> ('k, 'v) khash \<Rightarrow> 'k \<Rightarrow> nat \<Rightarrow> bool" where
  "stops ty h x i \<longleftrightarrow> emp (kh_flags h) i \<or> kh_at ty h x i"

lemma probe_stops_ok:
  assumes "kh_shape h" "kh_keys_ok ty h" "i < kh_n_buckets h"
  shows "probe_stops ty h x i = Some (stops ty h x i)"
proof -
  have "i < 16 * length (kh_flags h)" using flags_long [OF assms(1)] assms(3) by simp
  moreover have "i < length (kh_keys h)" using assms(1,3) by (simp add: kh_shape_def)
  moreover have "i \<in> slots h \<longleftrightarrow> live (kh_flags h) i" using assms(3) by (simp add: slots_def)
  moreover have "live (kh_flags h) i \<Longrightarrow> \<exists>k. kh_keys h ! i = Some k"
    using assms(2,3) by (auto simp: kh_keys_ok_def slots_def)
  ultimately show ?thesis by (auto simp: probe_stops_def stops_def kh_at_def safe_simps live_def)
qed

text \<open>The search ends after \<open>m\<close> steps, before it returns to where it began.\<close>

definition ends_at :: "'k type_info \<Rightarrow> ('k, 'v) khash \<Rightarrow> 'k \<Rightarrow> nat \<Rightarrow> bool" where
  "ends_at ty h x m \<longleftrightarrow> m < kh_n_buckets h \<and> stops ty h x (probe (kh_n_buckets h) (ti_hash ty x) m) \<and>
     (\<forall>m'<m. \<not> stops ty h x (probe (kh_n_buckets h) (ti_hash ty x) m'))"

lemma search_ends:
  assumes "kh_shape h" "\<exists>i<kh_n_buckets h. emp (kh_flags h) i"
  shows "\<exists>m. ends_at ty h x m"
  using first_empty [where E = "stops ty h x"] assms unfolding ends_at_def kh_shape_def stops_def by metis

lemma ends_found:
  assumes "wf_type ty" "kh_keys_ok ty h" "ends_at ty h x m" "kh_at ty h x i"
  shows "probe (kh_n_buckets h) (ti_hash ty x) m = i"
proof -
  let ?p = "probe (kh_n_buckets h) (ti_hash ty x)"
  have i: "i \<in> slots h" "ti_hash ty (the_key h i) = ti_hash ty x"
    using assms(1,4) wf_typeD(4) by (auto simp: kh_at_def)
  then obtain m' where m': "?p m' = i" "\<forall>j<m'. \<not> emp (kh_flags h) (?p j)"
    using assms(2) by (auto simp: kh_keys_ok_def reach_def)
  have "stops ty h x (?p m')" using assms(4) m'(1) by (simp add: stops_def)
  then have "m \<le> m'" using assms(3) by (auto simp: ends_at_def not_less)
  moreover have "\<not> emp (kh_flags h) i" using i(1) by (simp add: slots_def live_def)
  ultimately have "\<not> emp (kh_flags h) (?p m)" using m' by (cases "m = m'") auto
  then have "kh_at ty h x (?p m)" using assms(3) by (auto simp: ends_at_def stops_def)
  then show ?thesis using kh_at_unique [OF assms(1,2)] assms(4) by blast
qed

lemma not_back:
  assumes "table_prime n" "Suc m \<le> m1" "m1 < n"
  shows "probe n k (Suc m) \<noteq> probe n k 0"
  using inj_onD [OF probe_inj [OF assms(1), of k], of "Suc m" 0] assms(2,3) by auto

lemma get_loop_ok:
  assumes "kh_shape h" "kh_keys_ok ty h" "ends_at ty h x m1" "m \<le> m1"
  defines "n \<equiv> kh_n_buckets h" and "k \<equiv> ti_hash ty x"
  shows "kh_get_loop ty h x (1 + k mod (n - 1)) (k mod n) (probe n k m) =
    Some (if emp (kh_flags h) (probe n k m1) then n else probe n k m1)"
  using assms(4)
proof (induction "m1 - m" arbitrary: m)
  case 0
  have tp: "table_prime n" using assms(1) by (simp add: kh_shape_def n_def)
  have m: "m = m1" using 0 by simp
  have lt: "probe n k m1 < kh_n_buckets h" using probe_less [OF tp] by (simp add: n_def)
  have st: "stops ty h x (probe n k m1)" using assms(3) by (simp add: ends_at_def n_def k_def)
  have "live (kh_flags h) (probe n k m1) \<longleftrightarrow> \<not> emp (kh_flags h) (probe n k m1)"
    using st by (auto simp: stops_def kh_at_def slots_def live_def)
  then show ?case using probe_stops_ok [OF assms(1,2) lt] st flags_long [OF assms(1), of "probe n k m1"] lt
    unfolding m by (subst kh_get_loop.simps) (simp add: safe_simps n_def)
next
  case (Suc d)
  have tp: "table_prime n" using assms(1) by (simp add: kh_shape_def n_def)
  have m: "m < m1" "m1 < n" using Suc(2) assms(3) by (simp_all add: ends_at_def n_def)
  have lt: "probe n k m < kh_n_buckets h" using probe_less [OF tp] by (simp add: n_def)
  have st: "\<not> stops ty h x (probe n k m)" using assms(3) m(1) by (simp add: ends_at_def n_def k_def)
  have "probe n k (Suc m) \<noteq> k mod n" using not_back [OF tp, of m m1 k] m by simp
  moreover have "kh_get_loop ty h x (1 + k mod (n - 1)) (k mod n) (probe n k (Suc m)) =
      Some (if emp (kh_flags h) (probe n k m1) then n else probe n k m1)"
    using Suc by (intro Suc.hyps(1)) simp_all
  ultimately show ?case using probe_stops_ok [OF assms(1,2) lt] st
    by (subst kh_get_loop.simps) (simp add: n_def probe_Suc [OF tp, unfolded n_def])
qed

lemma kh_get_ok:
  assumes "wf_type ty" "kh_inv ty h"
  shows "kh_at ty h x i \<Longrightarrow> kh_get ty h x = Some i"
    "\<not> (\<exists>i. kh_at ty h x i) \<Longrightarrow> kh_get ty h x = Some (kh_n_buckets h)"
proof -
  let ?p = "probe (kh_n_buckets h) (ti_hash ty x)"
  have "kh_get ty h x = Some (if \<exists>i. kh_at ty h x i then THE i. kh_at ty h x i else kh_n_buckets h)"
  proof (cases "h = kh_init")
    case True
    then show ?thesis by (simp add: kh_get_def kh_at_def)
  next
    case False
    then have inv: "kh_shape h" "kh_keys_ok ty h" "kh_counts h" using assms(2) by (auto simp: kh_inv_def)
    then have "\<exists>i<kh_n_buckets h. emp (kh_flags h) i" by (intro has_empty) (auto simp: kh_counts_def)
    then obtain m where m: "ends_at ty h x m" using search_ends [OF inv(1)] by blast
    have n: "kh_n_buckets h \<noteq> 0" using inv(1) by (auto simp: kh_shape_def table_prime_def)
    have g: "kh_get ty h x = Some (if emp (kh_flags h) (?p m) then kh_n_buckets h else ?p m)"
      using get_loop_ok [OF inv(1,2) m, of 0] n by (simp add: kh_get_def Let_def)
    show ?thesis
    proof (cases "\<exists>i. kh_at ty h x i")
      case True
      then obtain i where i: "kh_at ty h x i" by blast
      then have "(THE i. kh_at ty h x i) = i" using kh_at_unique [OF assms(1) inv(2)] by blast
      moreover have "\<not> emp (kh_flags h) i" using i by (simp add: kh_at_def slots_def live_def)
      ultimately show ?thesis using g ends_found [OF assms(1) inv(2) m i] True by simp
    next
      case False
      then show ?thesis using g m by (auto simp: ends_at_def stops_def)
    qed
  qed
  then show "kh_at ty h x i \<Longrightarrow> kh_get ty h x = Some i" "\<not> (\<exists>i. kh_at ty h x i) \<Longrightarrow> kh_get ty h x = Some (kh_n_buckets h)"
    using kh_at_unique [OF assms(1), of h x] assms(2) by (auto simp: kh_inv_def kh_at_def)
qed

section \<open>Inserting and deleting\<close>

text \<open>The slot in which the search of an insertion ends: that of the key, or a free one that a later search will reach.\<close>

definition put_slot :: "'k type_info \<Rightarrow> ('k, 'v) khash \<Rightarrow> 'k \<Rightarrow> nat \<Rightarrow> bool" where
  "put_slot ty h x s \<longleftrightarrow> s < kh_n_buckets h \<and> reach (kh_n_buckets h) (emp (kh_flags h)) (ti_hash ty x) s \<and>
     (kh_at ty h x s \<or> \<not> (\<exists>i. kh_at ty h x i) \<and> \<not> live (kh_flags h) s)"

lemma put_loop_ok:
  assumes "kh_shape h" "kh_keys_ok ty h" "ends_at ty h x m1" "m \<le> m1"
  defines "n \<equiv> kh_n_buckets h" and "k \<equiv> ti_hash ty x"
  assumes "site = n \<or> (\<exists>m'<m. probe n k m' = site \<and> del (kh_flags h) site)"
  shows "\<exists>s. kh_put_loop ty h x (1 + k mod (n - 1)) (k mod n) site (probe n k m) = Some s \<and>
    (s = probe n k m1 \<or> emp (kh_flags h) (probe n k m1) \<and> (\<exists>m'<m1. probe n k m' = s \<and> del (kh_flags h) s))"
  using assms(4,7)
proof (induction "m1 - m" arbitrary: m site)
  case 0
  have tp: "table_prime n" using assms(1) by (simp add: kh_shape_def n_def)
  have m: "m = m1" using 0 by simp
  have lt: "probe n k m1 < kh_n_buckets h" using probe_less [OF tp] by (simp add: n_def)
  have st: "stops ty h x (probe n k m1)" using assms(3) by (simp add: ends_at_def n_def k_def)
  show ?case using probe_stops_ok [OF assms(1,2) lt] st flags_long [OF assms(1), of "probe n k m1"] lt 0(3)
    unfolding m by (subst kh_put_loop.simps) (auto simp: safe_simps n_def)
next
  case (Suc d)
  have tp: "table_prime n" using assms(1) by (simp add: kh_shape_def n_def)
  have m: "m < m1" "m1 < n" using Suc(2) assms(3) by (simp_all add: ends_at_def n_def)
  have lt: "probe n k m < kh_n_buckets h" using probe_less [OF tp] by (simp add: n_def)
  have st: "\<not> stops ty h x (probe n k m)" using assms(3) m(1) by (simp add: ends_at_def n_def k_def)
  have nb: "probe n k (Suc m) \<noteq> k mod n" using not_back [OF tp, of m m1 k] m by simp
  define site' where "site' = (if del (kh_flags h) (probe n k m) then probe n k m else site)"
  have "site' = n \<or> (\<exists>m'<Suc m. probe n k m' = site' \<and> del (kh_flags h) site')"
    using Suc(4) by (auto simp: site'_def less_Suc_eq)
  from Suc.hyps(1) [OF _ _ this] Suc.hyps(2) m(1) obtain s where
    s: "kh_put_loop ty h x (1 + k mod (n - 1)) (k mod n) site' (probe n k (Suc m)) = Some s"
    "s = probe n k m1 \<or> emp (kh_flags h) (probe n k m1) \<and> (\<exists>m'<m1. probe n k m' = s \<and> del (kh_flags h) s)" by (metis Suc_diff_Suc Suc_inject Suc_leI)
  show ?case using s probe_stops_ok [OF assms(1,2) lt] st nb flags_long [OF assms(1), of "probe n k m"] lt
    by (subst kh_put_loop.simps) (simp add: safe_simps n_def probe_Suc [OF tp, unfolded n_def] site'_def Let_def)
qed

lemma slot_for_ok:
  assumes "wf_type ty" "kh_shape h" "kh_keys_ok ty h" "\<exists>i<kh_n_buckets h. emp (kh_flags h) i"
  shows "\<exists>s. kh_slot_for ty h x = Some s \<and> put_slot ty h x s"
proof -
  let ?n = "kh_n_buckets h" and ?k = "ti_hash ty x"
  let ?p = "probe ?n ?k"
  have tp: "table_prime ?n" using assms(2) by (simp add: kh_shape_def)
  then have n: "?n \<noteq> 0" by (auto simp: table_prime_def)
  obtain m where m: "ends_at ty h x m" using search_ends [OF assms(2,4)] by blast
  have lt: "?p m < ?n" for m using probe_less [OF tp] .
  have e0: "ac_isempty (kh_flags h) (?k mod ?n) = Some (emp (kh_flags h) (?k mod ?n))"
    using flags_long [OF assms(2), of "?p 0"] lt [of 0] by (simp add: safe_simps)
  have pre: "\<forall>j<m. \<not> emp (kh_flags h) (?p j)" using m by (auto simp: ends_at_def stops_def)
  have "\<exists>s. kh_slot_for ty h x = Some s \<and> (s = ?p m \<or> emp (kh_flags h) (?p m) \<and> (\<exists>m'<m. ?p m' = s \<and> del (kh_flags h) s))"
  proof (cases "emp (kh_flags h) (?k mod ?n)")
    case True
    then have "stops ty h x (?p 0)" by (simp add: stops_def)
    then have "m = 0" using m by (auto simp: ends_at_def)
    then show ?thesis using n e0 True by (simp add: kh_slot_for_def Let_def)
  next
    case False
    then show ?thesis using put_loop_ok [OF assms(2,3) m, of 0 ?n] n e0 by (simp add: kh_slot_for_def Let_def)
  qed
  then obtain s where s: "kh_slot_for ty h x = Some s"
    "s = ?p m \<or> emp (kh_flags h) (?p m) \<and> (\<exists>m'<m. ?p m' = s \<and> del (kh_flags h) s)" by blast
  have "\<exists>m'\<le>m. ?p m' = s" using s(2) by (metis less_imp_le order_refl)
  then obtain m' where m': "m' \<le> m" "?p m' = s" by blast
  moreover have "m' < ?n" using m' m by (simp add: ends_at_def)
  moreover have "\<forall>j<m'. \<not> emp (kh_flags h) (?p j)" using pre m'(1) by simp
  ultimately have "reach ?n (emp (kh_flags h)) ?k s" unfolding reach_def by blast
  moreover have "s < ?n" using lt [of m'] m'(2) by simp
  moreover have "kh_at ty h x s \<or> \<not> (\<exists>i. kh_at ty h x i) \<and> \<not> live (kh_flags h) s"
  proof (cases "emp (kh_flags h) (?p m)")
    case True
    have "\<not> kh_at ty h x i" for i
      using ends_found [OF assms(1,3) m, of i] True by (auto simp: kh_at_def slots_def live_def)
    then show ?thesis using s(2) True by (auto simp: live_def)
  next
    case False
    then show ?thesis using s(2) m by (auto simp: ends_at_def stops_def)
  qed
  ultimately show ?thesis using s(1) by (auto simp: put_slot_def)
qed

text \<open>The entries of a table: the keys with their values, wherever they are stored.\<close>

definition entry :: "('k, 'v) khash \<Rightarrow> nat \<Rightarrow> 'k option \<times> 'v option" where
  "entry h i = (kh_keys h ! i, kh_vals h ! i)"

definition entries :: "('k, 'v) khash \<Rightarrow> ('k option \<times> 'v option) set" where
  "entries h = entry h ` slots h"

lemma occupy_ok:
  assumes ty: "wf_type ty" and sh: "kh_shape h" and ok: "kh_keys_ok ty h" and ps: "put_slot ty h x s" and nl: "\<not> live (kh_flags h) s"
  shows "\<exists>fl. ac_set_isboth_false (kh_flags h) s = Some fl \<and> emp fl = (emp (kh_flags h))(s := False) \<and>
    (\<forall>h'. kh_n_buckets h' = kh_n_buckets h \<and> kh_flags h' = fl \<and> kh_keys h' = (kh_keys h)[s := Some x] \<and> kh_vals h' = kh_vals h \<longrightarrow>
      kh_shape h' \<and> kh_keys_ok ty h' \<and> slots h' = insert s (slots h) \<and> s \<notin> slots h)"
proof -
  have s: "s < kh_n_buckets h" using ps by (simp add: put_slot_def)
  from ac_updates(2) [of s "kh_flags h"] flags_long [OF sh, of s] s obtain fl where
    fl: "ac_set_isboth_false (kh_flags h) s = Some fl" "length fl = length (kh_flags h)"
      "emp fl = (emp (kh_flags h))(s := False)" "del fl = (del (kh_flags h))(s := False)" by auto
  have none: "\<not> kh_at ty h x i" for i using ps nl by (auto simp: put_slot_def kh_at_def slots_def)
  have "kh_shape h' \<and> kh_keys_ok ty h' \<and> slots h' = insert s (slots h) \<and> s \<notin> slots h"
    if h': "kh_n_buckets h' = kh_n_buckets h" "kh_flags h' = fl" "kh_keys h' = (kh_keys h)[s := Some x]" "kh_vals h' = kh_vals h" for h'
  proof -
    have sl: "slots h' = insert s (slots h)" and ns: "s \<notin> slots h"
      using s nl by (auto simp: slots_def live_def h' fl)
    have key: "the_key h' i = (if i = s then x else the_key h i)" if "i \<in> slots h'" for i
      using that s sh by (auto simp: h' kh_shape_def slots_def nth_list_update)
    have mono: "\<And>j. emp fl j \<Longrightarrow> emp (kh_flags h) j" by (auto simp: fl(3) split: if_splits)
    have "kh_shape h'" using sh s fl by (auto simp: kh_shape_def h')
    moreover have "kh_keys h' ! i \<noteq> None \<and> reach (kh_n_buckets h') (emp (kh_flags h')) (ti_hash ty (the_key h' i)) i"
      if i: "i \<in> slots h'" for i
    proof (cases "i = s")
      case True
      then show ?thesis using key [OF i] ps s sh reach_mono [OF _ mono] by (auto simp: put_slot_def h' kh_shape_def)
    next
      case False
      then have "i \<in> slots h" using i sl by simp
      then show ?thesis using key [OF i] False ok reach_mono [OF _ mono] by (auto simp: kh_keys_ok_def h')
    qed
    moreover have "i = j" if ij: "i \<in> slots h'" "j \<in> slots h'" "ti_equal ty (the_key h' i) (the_key h' j)" for i j
    proof -
      have new: False if "a \<in> slots h" "ti_equal ty (the_key h a) x" for a using none [of a] that by (simp add: kh_at_def)
      consider "i = s" "j = s" | "i = s" "j \<noteq> s" | "i \<noteq> s" "j = s" | "i \<noteq> s" "j \<noteq> s" by blast
      then show ?thesis
      proof cases
        case 2
        then show ?thesis using new [of j] ij key [OF ij(1)] key [OF ij(2)] sl wf_typeD(2) [OF ty, of x] by simp
      next
        case 3
        then show ?thesis using new [of i] ij key [OF ij(1)] key [OF ij(2)] sl by simp
      next
        case 4
        then have "i \<in> slots h" "j \<in> slots h" "ti_equal ty (the_key h i) (the_key h j)" using ij key [OF ij(1)] key [OF ij(2)] sl by simp_all
        then show ?thesis using ok unfolding kh_keys_ok_def by blast
      qed simp
    qed
    ultimately show ?thesis using sl ns by (auto simp: kh_keys_ok_def)
  qed
  then show ?thesis using fl by blast
qed

lemma entries_occupied:
  assumes "kh_keys h' = (kh_keys h)[s := k]" "kh_vals h' = kh_vals h" "s \<notin> slots h"
  shows "entry h' ` (slots h) = entries h"
proof -
  have "entry h' i = entry h i" if "i \<in> slots h" for i using that assms by (cases "i = s") (auto simp: entry_def)
  then show ?thesis by (simp add: entries_def)
qed

lemma card_occupied: "s < n \<Longrightarrow> emp' = (emp fl)(s := False) \<Longrightarrow>
  card {i. i < n \<and> \<not> emp' i} = card {i. i < n \<and> \<not> emp fl i} + (if emp fl s then 1 else 0)"
proof -
  assume s: "s < n" "emp' = (emp fl)(s := False)"
  then have "{i. i < n \<and> \<not> emp' i} = insert s {i. i < n \<and> \<not> emp fl i}" by auto
  then show ?thesis by (auto simp: card_insert_if)
qed

lemma put_here_ok:
  assumes ty: "wf_type ty" and sh: "kh_shape h" and ok: "kh_keys_ok ty h" and cn: "kh_counts h" and free: "kh_n_occupied h < kh_upper_bound h"
  shows "\<exists>s r h'. kh_put ty h x = Some (s, r, h') \<and> kh_shape h' \<and> kh_keys_ok ty h' \<and> kh_counts h' \<and> kh_at ty h' x s \<and>
    (if \<exists>i. kh_at ty h x i then r = 0 \<and> h' = h
     else r \<noteq> 0 \<and> kh_keys h' ! s = Some x \<and> slots h' = insert s (slots h) \<and> s \<notin> slots h \<and> entry h' ` slots h = entries h)"
proof -
  have "\<exists>i<kh_n_buckets h. emp (kh_flags h) i" by (rule has_empty [OF sh]) (use cn in \<open>auto simp: kh_counts_def\<close>)
  from slot_for_ok [OF ty sh ok this] obtain s where s: "kh_slot_for ty h x = Some s" "put_slot ty h x s" by blast
  have sn: "s < kh_n_buckets h" "s < length (kh_keys h)" using s(2) sh by (auto simp: put_slot_def kh_shape_def)
  have fl: "s < 16 * length (kh_flags h)" using flags_long [OF sh, of s] sn by simp
  note sim = kh_put_def free s(1) ac_tests [OF fl] safe_simps sn
  show ?thesis
  proof (cases "kh_at ty h x s")
    case True
    then have "live (kh_flags h) s" by (simp add: kh_at_def slots_def)
    then have "kh_put ty h x = Some (s, 0, h)" using free s(1) ac_tests [OF fl] by (auto simp: kh_put_def live_def)
    then show ?thesis using True sh ok cn by auto
  next
    case False
    then have nl: "\<not> live (kh_flags h) s" and none: "\<not> (\<exists>i. kh_at ty h x i)" using s(2) by (auto simp: put_slot_def)
    from occupy_ok [OF ty sh ok s(2) nl] obtain f where
      f: "ac_set_isboth_false (kh_flags h) s = Some f" "emp f = (emp (kh_flags h))(s := False)"
        "\<And>h'. kh_n_buckets h' = kh_n_buckets h \<Longrightarrow> kh_flags h' = f \<Longrightarrow> kh_keys h' = (kh_keys h)[s := Some x] \<Longrightarrow> kh_vals h' = kh_vals h \<Longrightarrow>
          kh_shape h' \<and> kh_keys_ok ty h' \<and> slots h' = insert s (slots h) \<and> s \<notin> slots h" by blast
    define e where "e = emp (kh_flags h) s"
    define h' where "h' = h\<lparr>kh_keys := (kh_keys h)[s := Some x], kh_flags := f, kh_size := kh_size h + 1,
      kh_n_occupied := kh_n_occupied h + (if e then 1 else 0)\<rparr>"
    have "kh_put ty h x = Some (s, if e then 1 else 2, h')"
      using nl f(1) free s(1) ac_tests [OF fl] sn by (auto simp: kh_put_def wr_Some h'_def e_def live_def)
    moreover have h': "kh_shape h' \<and> kh_keys_ok ty h' \<and> slots h' = insert s (slots h) \<and> s \<notin> slots h"
      by (rule f(3)) (simp_all add: h'_def)
    moreover have "kh_counts h'"
      using cn free h' card_occupied [OF sn(1) f(2)] by (auto simp: kh_counts_def e_def h'_def)
    moreover have "kh_keys h' ! s = Some x" using sn by (simp add: h'_def)
    moreover have "kh_at ty h' x s" using h' sn wf_typeD(1) [OF ty] by (simp add: kh_at_def) (simp add: h'_def)
    moreover have "entry h' ` slots h = entries h" by (rule entries_occupied) (use h' in \<open>auto simp: h'_def\<close>)
    ultimately show ?thesis using none by auto
  qed
qed

lemma kh_del_ok:
  assumes ty: "wf_type ty" and inv: "kh_inv ty h" and i: "i \<in> slots h"
  shows "\<exists>h'. kh_del h i = Some h' \<and> kh_inv ty h' \<and> slots h' = slots h - {i} \<and> entries h' = entry h ` (slots h - {i}) \<and>
    kh_keys h' = kh_keys h \<and> kh_vals h' = kh_vals h \<and> kh_n_buckets h' = kh_n_buckets h"
proof -
  have "h \<noteq> kh_init" using i by auto
  then have h: "kh_shape h" "kh_keys_ok ty h" "kh_counts h" using inv by (auto simp: kh_inv_def)
  have n: "i < kh_n_buckets h" "live (kh_flags h) i" using i by (auto simp: slots_def)
  have fl: "i < 16 * length (kh_flags h)" using flags_long [OF h(1), of i] n by simp
  obtain f where f: "ac_set_isdel_true (kh_flags h) i = Some f" "length f = length (kh_flags h)" "emp f = emp (kh_flags h)"
    "del f = (del (kh_flags h))(i := True)" using ac_updates(3) [OF fl] by blast
  define h' where "h' = h\<lparr>kh_flags := f, kh_size := kh_size h - 1\<rparr>"
  have run: "kh_del h i = Some h'" using n f(1) ac_tests [OF fl] by (simp add: kh_del_def h'_def)
  have sl: "slots h' = slots h - {i}" using n f by (auto simp: slots_def live_def h'_def)
  have "kh_shape h'" using h(1) f by (simp add: kh_shape_def h'_def)
  moreover have "kh_keys_ok ty h'" using h(2) unfolding kh_keys_ok_def sl by (auto simp: h'_def f)
  moreover have "kh_counts h'" using h(3) i unfolding kh_counts_def sl by (auto simp: h'_def f)
  moreover have "entries h' = entry h ` (slots h - {i})" unfolding entries_def sl by (auto simp: entry_def h'_def)
  ultimately show ?thesis using run sl by (auto simp: kh_inv_def) (simp_all add: h'_def)
qed

lemma all_empty_length: "length (all_empty n) = n div 16 + 1"
  by (simp add: all_empty_def)

lemma kh_clear_ok:
  assumes "kh_inv ty h"
  shows "kh_inv ty (kh_clear h)" "slots (kh_clear h) = {}"
proof -
  have "kh_inv ty (kh_clear h) \<and> slots (kh_clear h) = {}"
  proof (cases "h = kh_init")
    case True
    then show ?thesis by (simp add: kh_clear_def kh_inv_def) (simp add: kh_init_def slots_def)
  next
    case False
    then have h: "kh_shape h" "kh_counts h" using assms by (auto simp: kh_inv_def)
    have ne: "kh_flags h \<noteq> []" using h(1) by (auto simp: kh_shape_def)
    have em: "emp (all_empty (kh_n_buckets h)) i" if "i \<le> kh_n_buckets h" for i
      using flags_long [OF h(1) that] h(1) by (intro all_empty_flags) (simp add: kh_shape_def)
    have sl: "slots (kh_clear h) = {}" using ne em by (auto simp: kh_clear_def slots_def live_def)
    have "{i. i < kh_n_buckets h \<and> \<not> emp (all_empty (kh_n_buckets h)) i} = {}" using em by auto
    then have "kh_counts (kh_clear h)" using sl ne h(2) by (simp add: kh_counts_def) (simp add: kh_clear_def kh_counts_def)
    moreover have "kh_shape (kh_clear h)" using h(1) ne em by (simp add: kh_shape_def kh_clear_def all_empty_length)
    ultimately show ?thesis using sl by (simp add: kh_inv_def kh_keys_ok_def)
  qed
  then show "kh_inv ty (kh_clear h)" "slots (kh_clear h) = {}" by simp_all
qed

section \<open>Rehashing\<close>

lemma find_empty_ok:
  assumes "table_prime n" "16 * length fl \<ge> n" "m \<le> m0" "emp fl (probe n k m0)" "\<forall>m'<m0. \<not> emp fl (probe n k m')"
  shows "find_empty fl n (1 + k mod (n - 1)) (probe n k m) = Some (probe n k m0)"
  using assms(3)
proof (induction "m0 - m" arbitrary: m)
  case 0
  then have "m = m0" by simp
  moreover have "probe n k m0 < 16 * length fl" using probe_less [OF assms(1), of k m0] assms(2) by simp
  ultimately show ?case using assms(4) by (subst find_empty.simps) (simp add: safe_simps)
next
  case (Suc d)
  then have m: "m < m0" by simp
  have "probe n k m < 16 * length fl" using probe_less [OF assms(1), of k m] assms(2) by simp
  moreover have "find_empty fl n (1 + k mod (n - 1)) (probe n k (Suc m)) = Some (probe n k m0)" using Suc by (intro Suc.hyps(1)) simp_all
  ultimately show ?case using assms(5) m by (subst find_empty.simps) (simp add: safe_simps probe_Suc [OF assms(1)])
qed

text \<open>
  While entries are moved, \<open>pend\<close> are the slots whose entries have not been moved yet and \<open>plac\<close> those that have received one. No slot is both;
  together with the entry in hand they hold the entries of the table.
\<close>

definition pend :: "nat \<Rightarrow> 32 word list \<Rightarrow> nat set" where
  "pend n fl = {i. i < n \<and> live fl i}"

definition plac :: "nat \<Rightarrow> 32 word list \<Rightarrow> nat set" where
  "plac n fl = {i. i < n \<and> \<not> emp fl i}"

fun rh_shape :: "nat \<Rightarrow> nat \<Rightarrow> ('k, 'v) rehash \<Rightarrow> bool" where
  "rh_shape n n' (fl, nf, ks, vs) \<longleftrightarrow> n \<le> 16 * length fl \<and> length nf = n' div 16 + 1 \<and> emp nf n' \<and> (\<forall>i<n'. \<not> del nf i) \<and>
     length ks = max n n' \<and> length vs = max n n'"

definition held :: "'k option list \<Rightarrow> 'v option list \<Rightarrow> nat set \<Rightarrow> ('k option \<times> 'v option) multiset" where
  "held ks vs A = image_mset (\<lambda>i. (ks ! i, vs ! i)) (mset_set A)"

fun rh_inv :: "'k type_info \<Rightarrow> nat \<Rightarrow> nat \<Rightarrow> ('k option \<times> 'v option) multiset \<Rightarrow> ('k option \<times> 'v option) multiset \<Rightarrow> ('k, 'v) rehash \<Rightarrow> bool" where
  "rh_inv ty n n' M hand (fl, nf, ks, vs) \<longleftrightarrow> rh_shape n n' (fl, nf, ks, vs) \<and> pend n fl \<inter> plac n' nf = {} \<and>
     held ks vs (pend n fl \<union> plac n' nf) + hand = M \<and>
     (\<forall>i\<in>plac n' nf. ks ! i \<noteq> None \<and> reach n' (emp nf) (ti_hash ty (the (ks ! i))) i)"

lemma finite_pend [simp]: "finite (pend n fl)" "finite (plac n fl)"
  by (simp_all add: pend_def plac_def)

lemma held_update:
  assumes "finite A" "i \<notin> A" shows "held (ks[i := k]) (vs[i := v]) A = held ks vs A"
proof -
  have "(ks[i := k] ! j, vs[i := v] ! j) = (ks ! j, vs ! j)" if "j \<in># mset_set A" for j
    using that assms by (cases "j = i") auto
  then show ?thesis unfolding held_def by (intro image_mset_cong)
qed

lemma held_insert: "finite A \<Longrightarrow> i \<notin> A \<Longrightarrow> held ks vs (insert i A) = add_mset (ks ! i, vs ! i) (held ks vs A)"
  by (simp add: held_def)

lemma held_put:
  assumes "finite A" "i \<notin> A" "i < length ks" "i < length vs"
  shows "held (ks[i := k]) (vs[i := v]) (insert i A) = add_mset (k, v) (held ks vs A)"
  using assms by (simp add: held_insert held_update)

lemma n_le_flags: "length fl = n div 16 + 1 \<Longrightarrow> n < 16 * length fl"
  using div_mult_mod_eq [of n 16] mod_less_divisor [of 16 n] by (simp add: algebra_simps)


text \<open>One step of placing: the entry in hand goes to the first free slot on its way; what was pending there is then in hand.\<close>

lemma rehash_step:
  assumes tp: "table_prime n'" and inv: "rh_inv ty n n' M {#(Some ky, val)#} (fl, nf, ks, vs)" and sz: "size M < n'"
  shows "\<exists>i nf'. i < n' \<and> find_empty nf n' (1 + ti_hash ty ky mod (n' - 1)) (ti_hash ty ky mod n') = Some i \<and>
    ac_set_isempty_false nf i = Some nf' \<and> i < length ks \<and> i < length vs \<and>
    (i \<in> pend n fl \<longrightarrow> (\<forall>fl'. length fl' = length fl \<and> emp fl' = emp fl \<and> del fl' = (del fl)(i := True) \<longrightarrow>
       pend n fl' = pend n fl - {i} \<and> rh_inv ty n n' M {#(ks ! i, vs ! i)#} (fl', nf', ks[i := Some ky], vs[i := val]))) \<and>
    (i \<notin> pend n fl \<longrightarrow> rh_inv ty n n' M {#} (fl, nf', ks[i := Some ky], vs[i := val]))"
proof -
  let ?k = "ti_hash ty ky" and ?U = "pend n fl \<union> plac n' nf"
  have sh: "rh_shape n n' (fl, nf, ks, vs)" and disj: "pend n fl \<inter> plac n' nf = {}" and M: "held ks vs ?U + {#(Some ky, val)#} = M"
    and re: "\<forall>i\<in>plac n' nf. ks ! i \<noteq> None \<and> reach n' (emp nf) (ti_hash ty (the (ks ! i))) i" using inv by simp_all
  have "card (plac n' nf) \<le> card ?U" by (intro card_mono) auto
  also have "card ?U < size M" unfolding M [symmetric] by (simp add: held_def)
  finally have "card (plac n' nf) < n'" using sz by linarith
  then have "plac n' nf \<noteq> {..<n'}" by (metis card_lessThan less_irrefl)
  then obtain e where "e < n'" "emp nf e" unfolding plac_def by auto
  from first_empty [where E = "emp nf", OF tp this, of ?k] obtain m0 where
    m0: "m0 < n'" "emp nf (probe n' ?k m0)" "\<forall>m'<m0. \<not> emp nf (probe n' ?k m')" by blast
  define i where "i = probe n' ?k m0"
  have i: "i < n'" "emp nf i" "i < length ks" "i < length vs" "i \<notin> plac n' nf"
    using probe_less [OF tp] sh m0 by (auto simp: i_def plac_def less_max_iff_disj)
  have long: "i < 16 * length nf" using n_le_flags [of nf n'] sh i(1) by simp
  have find: "find_empty nf n' (1 + ?k mod (n' - 1)) (?k mod n') = Some i"
    using find_empty_ok [OF tp _ _ m0(2,3), of 0] n_le_flags [of nf n'] sh by (simp add: i_def)
  obtain nf' where nf': "ac_set_isempty_false nf i = Some nf'" "length nf' = length nf" "emp nf' = (emp nf)(i := False)" "del nf' = del nf"
    using ac_updates(1) [OF long] by blast
  have pl: "plac n' nf' = insert i (plac n' nf)" using i nf'(3) by (auto simp: plac_def)
  have re': "\<forall>j\<in>plac n' nf'. ks[i := Some ky] ! j \<noteq> None \<and> reach n' (emp nf') (ti_hash ty (the (ks[i := Some ky] ! j))) j"
  proof
    fix j assume j: "j \<in> plac n' nf'"
    have mono: "\<And>a. emp nf' a \<Longrightarrow> emp nf a" by (auto simp: nf'(3) split: if_splits)
    show "ks[i := Some ky] ! j \<noteq> None \<and> reach n' (emp nf') (ti_hash ty (the (ks[i := Some ky] ! j))) j"
    proof (cases "j = i")
      case True
      have "reach n' (emp nf) ?k i" using m0 unfolding reach_def i_def by blast
      then show ?thesis using True i reach_mono [OF _ mono] by simp
    next
      case False
      then show ?thesis using j pl re reach_mono [OF _ mono] by auto
    qed
  qed
  have sh': "rh_shape n n' (fl', nf', ks[i := Some ky], vs[i := val])" if "length fl' = length fl" for fl'
    using sh nf' i that by auto
  have "pend n fl' = pend n fl - {i} \<and> rh_inv ty n n' M {#(ks ! i, vs ! i)#} (fl', nf', ks[i := Some ky], vs[i := val])"
    if ip: "i \<in> pend n fl" and fl': "length fl' = length fl" "emp fl' = emp fl" "del fl' = (del fl)(i := True)" for fl'
  proof -
    have pe: "pend n fl' = pend n fl - {i}" using ip fl' by (auto simp: pend_def live_def)
    define A where "A = ?U - {i}"
    have A: "finite A" "i \<notin> A" "?U = insert i A" "pend n fl' \<union> plac n' nf' = insert i A"
      using ip pl pe i(5) by (auto simp: A_def)
    have "held (ks[i := Some ky]) (vs[i := val]) (pend n fl' \<union> plac n' nf') + {#(ks ! i, vs ! i)#} = M"
      using M i A by (simp add: held_update held_insert add_mset_commute)
    moreover have "pend n fl' \<inter> plac n' nf' = {}" using disj pe pl by auto
    ultimately show ?thesis using sh' [OF fl'(1)] re' pe by simp
  qed
  moreover have "rh_inv ty n n' M {#} (fl, nf', ks[i := Some ky], vs[i := val])" if ip: "i \<notin> pend n fl"
  proof -
    have "held (ks[i := Some ky]) (vs[i := val]) (insert i ?U) = M"
      using held_put [of ?U i ks vs "Some ky" val] M ip i by simp
    moreover have "insert i ?U = pend n fl \<union> plac n' nf'" using pl by auto
    moreover have "pend n fl \<inter> plac n' nf' = {}" using disj ip pl by auto
    ultimately show ?thesis using sh' [OF refl] re' by simp
  qed
  ultimately show ?thesis using i find nf' by blast
qed

lemma pend_iff: "i < n \<Longrightarrow> i \<in> pend n fl \<longleftrightarrow> live fl i"
  by (simp add: pend_def)

lemma rehash_place_ok:
  assumes tp: "table_prime n'" and sz: "size M < n'" and keys: "\<forall>x\<in>#M. fst x \<noteq> None"
    and inv: "rh_inv ty n n' M {#(key, val)#} s"
  shows "\<exists>s'. rehash_place ty n n' key val s = Some s' \<and> rh_inv ty n n' M {#} s' \<and> pend n (fst s') \<subseteq> pend n (fst s)"
  using inv
proof (induction "card (pend n (fst s))" arbitrary: key val s rule: less_induct)
  case less
  obtain fl nf ks vs where s: "s = (fl, nf, ks, vs)" by (cases s)
  have "(key, val) \<in># M" using less.prems s by auto
  then obtain ky where ky: "key = Some ky" using keys by fastforce
  from rehash_step [OF tp _ sz, of ty n ky val fl nf ks vs] less.prems s ky obtain i nf' where
    i: "i < n'" "find_empty nf n' (1 + ti_hash ty ky mod (n' - 1)) (ti_hash ty ky mod n') = Some i"
      "ac_set_isempty_false nf i = Some nf'" "i < length ks" "i < length vs"
    and swap: "\<And>fl'. i \<in> pend n fl \<Longrightarrow> length fl' = length fl \<and> emp fl' = emp fl \<and> del fl' = (del fl)(i := True) \<Longrightarrow>
       pend n fl' = pend n fl - {i} \<and> rh_inv ty n n' M {#(ks ! i, vs ! i)#} (fl', nf', ks[i := Some ky], vs[i := val])"
    and fin: "i \<notin> pend n fl \<Longrightarrow> rh_inv ty n n' M {#} (fl, nf', ks[i := Some ky], vs[i := val])" by blast
  note rehash_place_now = rehash_place.simps [of ty n n' key val s, unfolded s ky]
  show ?case
  proof (cases "i \<in> pend n fl")
    case True
    have n: "i < n" "live fl i" using True by (auto simp: pend_def)
    have long: "i < 16 * length fl" using less.prems s n by auto
    obtain fl' where fl': "ac_set_isdel_true fl i = Some fl'" "length fl' = length fl \<and> emp fl' = emp fl \<and> del fl' = (del fl)(i := True)"
      using ac_updates(3) [OF long] by blast
    let ?s = "(fl', nf', ks[i := Some ky], vs[i := val])"
    have step: "rehash_place ty n n' key val s = rehash_place ty n n' (ks ! i) (vs ! i) ?s"
      using i n fl' ac_tests [OF long] unfolding s ky by (subst rehash_place_now) (simp add: safe_simps Let_def)
    have sw: "pend n fl' = pend n fl - {i}" "rh_inv ty n n' M {#(ks ! i, vs ! i)#} ?s" using swap [OF True fl'(2)] by auto
    have "card (pend n (fst ?s)) < card (pend n (fst s))" using sw(1) True s card_Diff1_less [of "pend n fl" i] by simp
    from less.hyps [OF this sw(2)] step sw(1) s show ?thesis by auto
  next
    case False
    have "(if i < n then ac_iseither fl i else Some True) = Some True"
      using False less.prems s ac_tests [of i fl] by (auto simp: pend_def)
    then have "rehash_place ty n n' key val s = Some (fl, nf', ks[i := Some ky], vs[i := val])"
      using i unfolding s ky by (subst rehash_place_now) (simp add: safe_simps Let_def)
    then show ?thesis using fin [OF False] s by auto
  qed
qed

lemma rehash_loop_ok:
  assumes tp: "table_prime n'" and sz: "size M < n'" and keys: "\<forall>x\<in>#M. fst x \<noteq> None"
    and inv: "rh_inv ty n n' M {#} s" and j: "pend n (fst s) \<subseteq> {j..<n}" "j \<le> n"
  shows "\<exists>s'. rehash_loop ty n n' [j..<n] s = Some s' \<and> rh_inv ty n n' M {#} s' \<and> pend n (fst s') = {}"
  using inv j
proof (induction "n - j" arbitrary: j s)
  case 0
  then show ?case by auto
next
  case (Suc d)
  obtain fl nf ks vs where s: "s = (fl, nf, ks, vs)" by (cases s)
  have jn: "j < n" "d = n - Suc j" "Suc j \<le> n" using Suc.hyps(2) by simp_all
  have long: "j < 16 * length fl" "j < length ks" "j < length vs" using Suc.prems(1) s jn by auto
  have up: "[j..<n] = j # [Suc j..<n]" using jn(1) by (rule upt_conv_Cons)
  show ?case
  proof (cases "live fl j")
    case False
    have "pend n (fst s) \<subseteq> {Suc j..<n}"
    proof
      fix i assume "i \<in> pend n (fst s)"
      moreover from this have "j \<le> i" "i < n" using Suc.prems(2) by auto
      moreover have "i \<noteq> j" using calculation False s by (auto simp: pend_def)
      ultimately show "i \<in> {Suc j..<n}" by simp
    qed
    from Suc.hyps(1) [OF jn(2) Suc.prems(1) this jn(3)] False s up ac_tests [OF long(1)] show ?thesis by (auto simp del: rh_inv.simps)
  next
    case True
    then have jp: "j \<in> pend n fl" using jn by (simp add: pend_def)
    obtain fl' where fl': "ac_set_isdel_true fl j = Some fl'" "length fl' = length fl" "emp fl' = emp fl" "del fl' = (del fl)(j := True)"
      using ac_updates(3) [OF long(1)] by blast
    have pe: "pend n fl' = pend n fl - {j}" using fl' by (auto simp: pend_def live_def)
    let ?s = "(fl', nf, ks, vs)"
    define A where "A = (pend n fl \<union> plac n' nf) - {j}"
    have "pend n fl \<inter> plac n' nf = {}" "held ks vs (pend n fl \<union> plac n' nf) = M" using Suc.prems(1) s by simp_all
    moreover from this have A: "pend n fl' \<union> plac n' nf = A" "pend n fl \<union> plac n' nf = insert j A" "finite A" "j \<notin> A"
      using pe jp by (auto simp: A_def)
    ultimately have "held ks vs (pend n fl' \<union> plac n' nf) + {#(ks ! j, vs ! j)#} = M" by (simp add: held_insert)
    moreover have "pend n fl' \<inter> plac n' nf = {}" using \<open>pend n fl \<inter> plac n' nf = {}\<close> pe by auto
    ultimately have "rh_inv ty n n' M {#(ks ! j, vs ! j)#} ?s"
      using Suc.prems(1) s fl' unfolding rh_inv.simps rh_shape.simps by (intro conjI) simp_all
    from rehash_place_ok [OF tp sz keys this] obtain s1 where
      s1: "rehash_place ty n n' (ks ! j) (vs ! j) ?s = Some s1" "rh_inv ty n n' M {#} s1" "pend n (fst s1) \<subseteq> pend n fl'" by auto
    have "pend n (fst s1) \<subseteq> {Suc j..<n}" using s1(3) pe Suc.prems(2) s by fastforce
    from Suc.hyps(1) [OF jn(2) s1(2) this jn(3)] show ?thesis
      using True s up ac_tests [OF long(1)] fl'(1) s1(1) long by (auto simp: safe_simps simp del: rh_inv.simps)
  qed
qed


section \<open>Resizing\<close>

text \<open>No two of the entries have equal keys.\<close>

definition distinct_keys :: "'k type_info \<Rightarrow> ('k option \<times> 'v option) multiset \<Rightarrow> bool" where
  "distinct_keys ty M \<longleftrightarrow> (\<forall>x y. {#x, y#} \<subseteq># M \<longrightarrow> \<not> ti_equal ty (the (fst x)) (the (fst y)))"

lemma distinct_keys_held:
  assumes "finite A"
  shows "distinct_keys ty (held ks vs A) \<longleftrightarrow> (\<forall>i\<in>A. \<forall>j\<in>A. ti_equal ty (the (ks ! i)) (the (ks ! j)) \<longrightarrow> i = j)"
proof
  assume d: "distinct_keys ty (held ks vs A)"
  show "\<forall>i\<in>A. \<forall>j\<in>A. ti_equal ty (the (ks ! i)) (the (ks ! j)) \<longrightarrow> i = j"
  proof (intro ballI impI, rule ccontr)
    fix i j assume ij: "i \<in> A" "j \<in> A" "ti_equal ty (the (ks ! i)) (the (ks ! j))" "i \<noteq> j"
    have "mset_set {i, j} \<subseteq># mset_set A" using ij assms by (intro subset_imp_msubset_mset_set) auto
    then have "{#(ks ! i, vs ! i), (ks ! j, vs ! j)#} \<subseteq># held ks vs A"
      using image_mset_subseteq_mono [of "mset_set {i, j}" "mset_set A" "\<lambda>i. (ks ! i, vs ! i)"] ij(4) by (simp add: held_def)
    then show False using d ij(3) unfolding distinct_keys_def by fastforce
  qed
next
  assume r: "\<forall>i\<in>A. \<forall>j\<in>A. ti_equal ty (the (ks ! i)) (the (ks ! j)) \<longrightarrow> i = j"
  show "distinct_keys ty (held ks vs A)"
    unfolding distinct_keys_def
  proof (intro allI impI notI)
    fix x y assume xy: "{#x, y#} \<subseteq># held ks vs A" "ti_equal ty (the (fst x)) (the (fst y))"
    then obtain C where "held ks vs A = {#x, y#} + C" unfolding subset_mset.le_iff_add by blast
    from image_mset_eq_plusD [OF this [unfolded held_def]] obtain B B' where
      B: "mset_set A = B + B'" "{#x, y#} = image_mset (\<lambda>i. (ks ! i, vs ! i)) B" by blast
    from msed_map_invR [OF B(2) [symmetric]] obtain B1 i where
      i: "B = add_mset i B1" "(ks ! i, vs ! i) = x" "image_mset (\<lambda>i. (ks ! i, vs ! i)) B1 = {#y#}" by blast
    from msed_map_invR [OF i(3)] obtain j where "B1 = {#j#}" "(ks ! j, vs ! j) = y" by auto
    with i have ij: "B = {#i, j#}" "x = (ks ! i, vs ! i)" "y = (ks ! j, vs ! j)" by simp_all
    have "set_mset (mset_set A) = A" using assms by simp
    then have "i \<in> A" "j \<in> A" unfolding B(1) ij(1) by auto
    moreover have "i \<noteq> j"
    proof
      assume "i = j"
      then have "count (mset_set A) i \<ge> 2" using B(1) ij(1) by simp
      then show False using count_mset_set'[of A i] by (simp split: if_splits)
    qed
    ultimately show False using r ij xy(2) by simp
  qed
qed

lemma realloc_props:
  assumes "length xs \<le> n"
  shows "length (realloc n xs) = n" "i < length xs \<Longrightarrow> realloc n xs ! i = xs ! i"
  using assms by (auto simp: realloc_def nth_append)

lemma held_slots: "held (kh_keys h) (kh_vals h) (slots h) = image_mset (entry h) (mset_set (slots h))"
  by (simp add: held_def entry_def [abs_def])

lemma set_held: "finite A \<Longrightarrow> set_mset (held ks vs A) = (\<lambda>i. (ks ! i, vs ! i)) ` A"
  by (simp add: held_def)

text \<open>The finished table after moving all entries.\<close>

lemma rehashed_ok:
  assumes tp: "table_prime n'" and inv: "rh_inv ty n n' M {#} (fl, nf, ks, vs)" and none: "pend n fl = {}" and dk: "distinct_keys ty M"
    and sz: "size M < ac_upper n'"
    and h': "h' = \<lparr>kh_n_buckets = n', kh_size = size M, kh_n_occupied = size M, kh_upper_bound = ac_upper n', kh_flags = nf,
      kh_keys = (if n' < n then realloc n' ks else ks), kh_vals = (if n' < n then realloc n' vs else vs)\<rparr>"
  shows "kh_shape h' \<and> kh_keys_ok ty h' \<and> kh_counts h' \<and> image_mset (entry h') (mset_set (slots h')) = M"
proof -
  have sh: "rh_shape n n' (fl, nf, ks, vs)" and M: "held ks vs (plac n' nf) = M"
    and re: "\<forall>i\<in>plac n' nf. ks ! i \<noteq> None \<and> reach n' (emp nf) (ti_hash ty (the (ks ! i))) i" using inv none by simp_all
  have len: "length ks = max n n'" "length vs = max n n'" using sh by simp_all
  have sl: "slots h' = plac n' nf" using sh by (auto simp: slots_def plac_def live_def h')
  have ks: "kh_keys h' ! i = ks ! i" "kh_vals h' ! i = vs ! i" if "i < n'" for i
    using that len by (auto simp: h' realloc_def nth_append)
  have lt: "i < n'" if "i \<in> plac n' nf" for i using that by (simp add: plac_def)
  have "kh_shape h'" using tp sh len by (auto simp: kh_shape_def h' realloc_def)
  moreover have "kh_keys_ok ty h'"
  proof -
    have "\<forall>i\<in>plac n' nf. \<forall>j\<in>plac n' nf. ti_equal ty (the (ks ! i)) (the (ks ! j)) \<longrightarrow> i = j"
      using dk distinct_keys_held [of "plac n' nf" ty ks vs] M by simp
    then show ?thesis using re ks lt unfolding kh_keys_ok_def sl by (simp add: h')
  qed
  moreover have "kh_counts h'"
  proof -
    have "card (plac n' nf) = size M" using M by (auto simp: held_def)
    moreover have "{i. i < n' \<and> \<not> emp nf i} = plac n' nf" by (simp add: plac_def)
    ultimately show ?thesis using sz unfolding kh_counts_def sl by (simp add: h')
  qed
  moreover have "image_mset (entry h') (mset_set (slots h')) = held ks vs (plac n' nf)"
    unfolding held_def sl by (intro image_mset_cong) (use ks lt in \<open>auto simp: entry_def\<close>)
  ultimately show ?thesis using M by simp
qed

lemma kh_resize_ok:
  assumes inv: "kh_inv ty h" and new: "kh_new_size a = Some n'" and tp: "table_prime n'" and sz: "kh_size h < ac_upper n'"
  shows "\<exists>h'. kh_resize ty h a = Some h' \<and> kh_shape h' \<and> kh_keys_ok ty h' \<and> kh_counts h' \<and>
    kh_n_buckets h' = n' \<and> kh_size h' = kh_size h \<and> kh_n_occupied h' = kh_size h \<and> entries h' = entries h"
proof -
  let ?n = "kh_n_buckets h" and ?M = "image_mset (entry h) (mset_set (slots h))"
  define ks vs where "ks = (if ?n < n' then realloc n' (kh_keys h) else kh_keys h)" and "vs = (if ?n < n' then realloc n' (kh_vals h) else kh_vals h)"
  have sizes: "kh_size h = card (slots h)" "length (kh_keys h) = ?n" "length (kh_vals h) = ?n" "?n \<le> 16 * length (kh_flags h)"
    and keys: "\<forall>i\<in>slots h. kh_keys h ! i \<noteq> None"
    and dk: "\<forall>i\<in>slots h. \<forall>j\<in>slots h. ti_equal ty (the_key h i) (the_key h j) \<longrightarrow> i = j"
    using inv flags_long [of h ?n] by (auto simp: kh_inv_def kh_counts_def kh_shape_def kh_keys_ok_def kh_init_def slots_def)
  have nM: "size ?M = kh_size h" using sizes(1) by simp
  have same: "ks ! i = kh_keys h ! i" "vs ! i = kh_vals h ! i" if "i < ?n" for i
    using that sizes realloc_props(2) [of "kh_keys h" n' i] realloc_props(2) [of "kh_vals h" n' i] by (auto simp: ks_def vs_def)
  have len: "length ks = max ?n n'" "length vs = max ?n n'" using sizes by (auto simp: ks_def vs_def realloc_def)
  have em: "emp (all_empty n') i" "\<not> del (all_empty n') i" if "i \<le> n'" for i
    using that n_le_flags [of "all_empty n'" n'] all_empty_flags [of i n'] by (auto simp: all_empty_length)
  have pl: "plac n' (all_empty n') = {}" and pe: "pend ?n (kh_flags h) = slots h" using em by (auto simp: plac_def pend_def slots_def)
  have "held ks vs (slots h) = ?M"
    unfolding held_def by (intro image_mset_cong) (use same in \<open>auto simp: entry_def slots_def\<close>)
  then have start: "rh_inv ty ?n n' ?M {#} (kh_flags h, all_empty n', ks, vs)"
    using sizes len em pl pe by (simp add: all_empty_length)
  have n': "size ?M < n'" using sz nM ac_upper_less [of n'] tp by (simp add: table_prime_def)
  have "\<forall>x\<in>#?M. fst x \<noteq> None" using keys by (auto simp: entry_def)
  from rehash_loop_ok [OF tp n' this start, of 0] obtain fl nf ks' vs' where
    r: "rehash_loop ty ?n n' [0..<?n] (kh_flags h, all_empty n', ks, vs) = Some (fl, nf, ks', vs')"
      "rh_inv ty ?n n' ?M {#} (fl, nf, ks', vs')" "pend ?n fl = {}" by (force simp: pend_def simp del: rh_inv.simps)
  define h' where "h' = \<lparr>kh_n_buckets = n', kh_size = size ?M, kh_n_occupied = size ?M, kh_upper_bound = ac_upper n', kh_flags = nf,
      kh_keys = (if n' < ?n then realloc n' ks' else ks'), kh_vals = (if n' < ?n then realloc n' vs' else vs')\<rparr>"
  have "distinct_keys ty ?M" using distinct_keys_held [of "slots h" ty "kh_keys h" "kh_vals h"] dk by (simp add: held_slots)
  from rehashed_ok [OF tp r(2,3) this _ h'_def] sz nM have
    "kh_shape h' \<and> kh_keys_ok ty h' \<and> kh_counts h'" "image_mset (entry h') (mset_set (slots h')) = ?M" by simp_all
  moreover from this(2) have "entries h' = entries h" unfolding entries_def by (metis finite_set_mset_mset_set finite_slots set_image_mset)
  moreover have "kh_resize ty h a = Some h'"
    using new sz r(1) nM by (simp add: kh_resize_def Let_def ks_def vs_def h'_def)
  ultimately show ?thesis using nM by (intro exI [of _ h']) (simp add: h'_def)
qed


text \<open>The sizes that the table takes.\<close>

lemma primes_sorted: "sorted_wrt (<) ac_prime_list" "length ac_prime_list = 32"
  by (simp_all add: ac_prime_list_def)

lemma prime_index_ok:
  assumes "t0 \<le> t" "t < 32" "ac_prime_list ! t0 \<le> n" "Suc t0 < 32 \<Longrightarrow> n < ac_prime_list ! Suc t0"
  shows "prime_index t n = Some t0"
  using assms(1,2)
proof (induction t)
  case (Suc t)
  show ?case
  proof (cases "t0 = Suc t")
    case True
    then show ?thesis using Suc.prems assms(3) primes_sorted(2) by (simp add: rd_Some)
  next
    case False
    then have "ac_prime_list ! Suc t0 \<le> ac_prime_list ! Suc t"
      using Suc.prems sorted_wrt_nth_less [OF primes_sorted(1), of "Suc t0" "Suc t"] primes_sorted(2) by (cases "t0 = t") auto
    then have "n < ac_prime_list ! Suc t" using assms(4) Suc.prems False by auto
    then show ?thesis using Suc False primes_sorted(2) by (simp add: rd_Some)
  qed
qed simp

lemma kh_new_size_ok:
  assumes "Suc t < 32" "ac_prime_list ! t \<le> n" "n < ac_prime_list ! Suc t"
  shows "kh_new_size n = Some (ac_prime_list ! Suc t)"
  using prime_index_ok [of t 31 n] assms primes_sorted(2) by (simp add: kh_new_size_def rd_Some)

lemma small_sizes_index: "small_sizes = map ((!) ac_prime_list) [1..<16]"
  by (simp add: small_sizes_def ac_prime_list_def upt_rec)

lemma prime_steps:
  "\<forall>t\<in>set [0..<15]. ac_prime_list ! t + 1 < ac_prime_list ! Suc t \<and> ac_prime_list ! t < ac_upper (ac_prime_list ! Suc t)"
  by (simp add: ac_prime_list_def upt_rec ac_upper_def)

lemma grow_sizes:
  assumes "n \<in> set (0 # butlast small_sizes)"
  shows "\<exists>n'\<in>set small_sizes. kh_new_size (n + 1) = Some n' \<and> n < ac_upper n'"
proof -
  have "0 # butlast small_sizes = map ((!) ac_prime_list) [0..<15]"
    by (simp add: small_sizes_def ac_prime_list_def upt_rec)
  with assms obtain t where t: "t < 15" "n = ac_prime_list ! t" by auto
  then have "kh_new_size (n + 1) = Some (ac_prime_list ! Suc t)" using prime_steps by (intro kh_new_size_ok) auto
  moreover have "ac_prime_list ! Suc t \<in> set small_sizes" using t by (auto simp: small_sizes_index)
  ultimately show ?thesis using t prime_steps by auto
qed

lemma same_sizes:
  assumes "n \<in> set small_sizes"
  shows "kh_new_size (n - 1) = Some n"
proof -
  from assms obtain u where "1 \<le> u" "u < 16" "n = ac_prime_list ! u" by (auto simp: small_sizes_index)
  then have t: "u - 1 < 15" "n = ac_prime_list ! Suc (u - 1)" by simp_all
  then have "ac_prime_list ! (u - 1) + 1 < n" using prime_steps by simp
  then show ?thesis using kh_new_size_ok [of "u - 1" "n - 1"] t by simp
qed

lemma small_size_prime: "n \<in> set small_sizes \<Longrightarrow> table_prime n"
  using trial_sizes by (simp add: list_all_iff)

text \<open>
  The table is small enough to grow within the sizes that are known to be prime: while it has at most 49158 entries, the largest of them
  is never more than half full when its free slots are used up.
\<close>

definition kh_room :: "('k, 'v) khash \<Rightarrow> bool" where
  "kh_room h \<longleftrightarrow> kh_n_buckets h \<in> set (0 # small_sizes) \<and> kh_size h < 49159"

lemma resize_room:
  assumes inv: "kh_inv ty h" and room: "kh_room h"
  shows "\<exists>h'. (if kh_n_buckets h > 2 * kh_size h then kh_resize ty h (kh_n_buckets h - 1) else kh_resize ty h (kh_n_buckets h + 1)) = Some h' \<and>
    kh_shape h' \<and> kh_keys_ok ty h' \<and> kh_counts h' \<and> kh_n_buckets h' \<in> set small_sizes \<and> kh_size h' = kh_size h \<and>
    kh_n_occupied h' < kh_upper_bound h' \<and> entries h' = entries h"
proof -
  let ?n = "kh_n_buckets h"
  have le: "kh_size h \<le> ?n"
  proof -
    have "slots h \<subseteq> {..<?n}" by (auto simp: slots_def)
    then have "card (slots h) \<le> ?n" using card_mono [of "{..<?n}" "slots h"] by simp
    then show ?thesis using inv by (auto simp: kh_inv_def kh_counts_def kh_init_def)
  qed
  have "\<exists>a n'. (if ?n > 2 * kh_size h then kh_resize ty h (?n - 1) else kh_resize ty h (?n + 1)) = kh_resize ty h a \<and>
      kh_new_size a = Some n' \<and> n' \<in> set small_sizes \<and> kh_size h < ac_upper n'"
  proof (cases "?n > 2 * kh_size h")
    case True
    then have n: "?n \<in> set small_sizes" using room by (auto simp: kh_room_def)
    then have "3 \<le> ?n" using small_size_prime by (simp add: table_prime_def)
    then have "kh_size h < ac_upper ?n" using True by (simp add: ac_upper_def)
    then show ?thesis using True n same_sizes by auto
  next
    case False
    then have "?n \<in> set (0 # butlast small_sizes)" using room by (auto simp: kh_room_def small_sizes_def)
    then obtain n' where "n' \<in> set small_sizes" "kh_new_size (?n + 1) = Some n'" "?n < ac_upper n'" using grow_sizes by blast
    then show ?thesis using False le by (intro exI [of _ "?n + 1"] exI [of _ n']) auto
  qed
  then obtain a n' where a: "(if ?n > 2 * kh_size h then kh_resize ty h (?n - 1) else kh_resize ty h (?n + 1)) = kh_resize ty h a"
    "kh_new_size a = Some n'" "n' \<in> set small_sizes" "kh_size h < ac_upper n'" by blast
  from kh_resize_ok [OF inv a(2) small_size_prime [OF a(3)] a(4)] obtain h' where
    h': "kh_resize ty h a = Some h'" "kh_shape h'" "kh_keys_ok ty h'" "kh_counts h'" "kh_n_buckets h' = n'" "kh_size h' = kh_size h"
      "kh_n_occupied h' = kh_size h" "entries h' = entries h" by blast
  then have "kh_n_occupied h' < kh_upper_bound h'" using a(4) by (simp add: kh_counts_def)
  then show ?thesis unfolding a(1) using h' a(3) by auto
qed

lemma kh_at_entries:
  assumes "kh_keys_ok ty h"
  shows "(\<exists>i. kh_at ty h x i \<and> kh_vals h ! i = v) \<longleftrightarrow> (\<exists>k. (Some k, v) \<in> entries h \<and> ti_equal ty k x)"
proof -
  have "\<exists>k. kh_keys h ! i = Some k" if "i \<in> slots h" for i using that assms by (auto simp: kh_keys_ok_def)
  then show ?thesis unfolding kh_at_def entries_def entry_def by force
qed

lemma kh_at_cong:
  assumes "kh_keys_ok ty h" "kh_keys_ok ty h'" "entries h = entries h'"
  shows "(\<exists>i. kh_at ty h x i) \<longleftrightarrow> (\<exists>i. kh_at ty h' x i)"
  using kh_at_entries [OF assms(1), of x] kh_at_entries [OF assms(2), of x] assms(3) by metis

lemma kh_keys_ok_inv: "kh_inv ty h \<Longrightarrow> kh_keys_ok ty h"
  by (auto simp: kh_inv_def kh_keys_ok_def)

lemma kh_size_slots: "kh_inv ty h \<Longrightarrow> kh_size h = card (slots h)"
  by (auto simp: kh_inv_def kh_counts_def) (simp add: kh_init_def slots_def)

lemma kh_put_ok:
  assumes ty: "wf_type ty" and inv: "kh_inv ty h" and room: "kh_room h"
  shows "\<exists>s r h'. kh_put ty h x = Some (s, r, h') \<and> kh_inv ty h' \<and> kh_n_buckets h' \<in> set small_sizes \<and> kh_at ty h' x s \<and>
    (if \<exists>i. kh_at ty h x i then r = 0 \<and> entries h' = entries h
     else r \<noteq> 0 \<and> kh_keys h' ! s = Some x \<and> entry h' ` (slots h' - {s}) = entries h)"
proof -
  have "\<exists>h1. kh_put ty h x = kh_put ty h1 x \<and> kh_shape h1 \<and> kh_keys_ok ty h1 \<and> kh_counts h1 \<and> kh_n_buckets h1 \<in> set small_sizes \<and>
      kh_n_occupied h1 < kh_upper_bound h1 \<and> entries h1 = entries h"
  proof (cases "kh_n_occupied h < kh_upper_bound h")
    case True
    then have "h \<noteq> kh_init" by (auto simp: kh_init_def)
    then show ?thesis using True inv room by (auto simp: kh_inv_def kh_room_def kh_shape_def table_prime_def)
  next
    case False
    from resize_room [OF inv room] obtain h1 where
      h1: "(if kh_n_buckets h > 2 * kh_size h then kh_resize ty h (kh_n_buckets h - 1) else kh_resize ty h (kh_n_buckets h + 1)) = Some h1"
        "kh_shape h1" "kh_keys_ok ty h1" "kh_counts h1" "kh_n_buckets h1 \<in> set small_sizes" "kh_n_occupied h1 < kh_upper_bound h1"
        "entries h1 = entries h" by blast
    then have "kh_put ty h x = kh_put ty h1 x" using False unfolding kh_put_def by simp
    then show ?thesis using h1 by blast
  qed
  then obtain h1 where h1: "kh_put ty h x = kh_put ty h1 x" "kh_shape h1" "kh_keys_ok ty h1" "kh_counts h1"
    "kh_n_buckets h1 \<in> set small_sizes" "kh_n_occupied h1 < kh_upper_bound h1" "entries h1 = entries h" by blast
  from put_here_ok [OF ty h1(2-4,6), of x] obtain s r h' where
    p: "kh_put ty h1 x = Some (s, r, h')" "kh_shape h'" "kh_keys_ok ty h'" "kh_counts h'" "kh_at ty h' x s"
      "if \<exists>i. kh_at ty h1 x i then r = 0 \<and> h' = h1
       else r \<noteq> 0 \<and> kh_keys h' ! s = Some x \<and> slots h' = insert s (slots h1) \<and> s \<notin> slots h1 \<and> entry h' ` slots h1 = entries h1" by blast
  have same: "(\<exists>i. kh_at ty h1 x i) \<longleftrightarrow> (\<exists>i. kh_at ty h x i)" using kh_at_cong [OF h1(3) kh_keys_ok_inv [OF inv] h1(7)] .
  have "kh_n_buckets h' = kh_n_buckets h1" using p(1) h1(6) by (auto simp: kh_put_def bind_eq_Some_conv split: if_splits)
  moreover have "if \<exists>i. kh_at ty h x i then r = 0 \<and> entries h' = entries h
     else r \<noteq> 0 \<and> kh_keys h' ! s = Some x \<and> entry h' ` (slots h' - {s}) = entries h"
    using p(6) h1(7) unfolding same by (auto split: if_splits)
  ultimately show ?thesis using h1(1,5) p(1-5) by (auto simp: kh_inv_def)
qed

lemma entry_inj: "wf_type ty \<Longrightarrow> kh_keys_ok ty h \<Longrightarrow> inj_on (entry h) (slots h)"
  unfolding inj_on_def entry_def kh_keys_ok_def using wf_typeD(1) by (metis Pair_inject)

lemma card_entries: "wf_type ty \<Longrightarrow> kh_inv ty h \<Longrightarrow> card (entries h) = kh_size h"
  unfolding entries_def using card_image [OF entry_inj [OF _ kh_keys_ok_inv]] kh_size_slots by metis

section \<open>Properties\<close>

text \<open>Numbers as keys, hashed to themselves; a table with the key 7.\<close>

definition num_type :: "nat type_info" where
  "num_type = \<lparr>ti_hash = \<lambda>k. k, ti_equal = (=)\<rparr>"

lemma num_type_wf: "wf_type num_type"
  by (simp add: wf_type_def num_type_def)

definition key_table :: "(nat, nat) khash" where
  "key_table = snd (snd (the (kh_put num_type kh_init 7)))"

lemma kh_init_inv: "kh_inv ty kh_init" "kh_room kh_init"
  by (simp_all add: kh_inv_def kh_room_def) (simp_all add: kh_init_def)

lemma key_table_ok: "kh_inv num_type key_table" "kh_n_buckets key_table \<in> set small_sizes" "kh_size key_table = 1"
  and "\<exists>i. kh_at num_type key_table 7 i"
proof -
  from kh_put_ok [OF num_type_wf kh_init_inv, of 7] obtain s r h where
    h: "kh_put num_type (kh_init :: (nat, nat) khash) 7 = Some (s, r, h)" "kh_inv num_type h" "kh_n_buckets h \<in> set small_sizes" "kh_at num_type h 7 s"
      "entry h ` (slots h - {s}) = entries (kh_init :: (nat, nat) khash)" by (auto simp: kh_at_def)
  then have "key_table = h" by (simp add: key_table_def)
  moreover have "slots h - {s} = {}" using h(5) by (simp add: entries_def)
  then have "slots h = {s}" using h(4) by (auto simp: kh_at_def)
  then have "kh_size h = 1" using kh_size_slots [OF h(2)] by simp
  ultimately show "kh_inv num_type key_table" "kh_n_buckets key_table \<in> set small_sizes" "kh_size key_table = 1" "\<exists>i. kh_at num_type key_table 7 i"
    using h by auto
qed

text \<open>
  C14: The hash table finds what was put into it. In a table with at most 49158 keys, adding a key terminates, with or without a resize of the
  table, and keeps the invariant; the key is then found in the slot that was returned; every other key is found afterwards if and only if it
  was found before; and the number of keys grows by one exactly if the key is reported as new.
\<close>

theorem kh_put_then_get:
  assumes ty: "wf_type ty" and inv: "kh_inv ty h" and room: "kh_n_buckets h \<in> set (0 # small_sizes)" "kh_size h < 49159"
  shows "\<exists>s r h'. kh_put ty h x = Some (s, r, h') \<and> kh_inv ty h' \<and> kh_n_buckets h' \<in> set small_sizes \<and> kh_get ty h' x = Some s \<and>
    kh_size h' = kh_size h + (if r = 0 then 0 else 1) \<and>
    (\<forall>y. \<not> ti_equal ty x y \<longrightarrow> (kh_get ty h' y = Some (kh_n_buckets h') \<longleftrightarrow> kh_get ty h y = Some (kh_n_buckets h)))"
proof -
  have none: "kh_get ty g y = Some (kh_n_buckets g) \<longleftrightarrow> \<not> (\<exists>v k. (Some k, v) \<in> entries g \<and> ti_equal ty k y)" if "kh_inv ty g"
    for g :: "('a, 'b) khash" and y
  proof (cases "\<exists>i. kh_at ty g y i")
    case True
    then obtain i where i: "kh_at ty g y i" by blast
    then have "i \<noteq> kh_n_buckets g" by (auto simp: kh_at_def slots_def)
    then show ?thesis using kh_get_ok(1) [OF ty that i] True kh_at_entries [OF kh_keys_ok_inv [OF that], of y] by (metis option.inject)
  next
    case False
    then show ?thesis using kh_get_ok(2) [OF ty that] kh_at_entries [OF kh_keys_ok_inv [OF that], of y] by metis
  qed
  have "kh_room h" using room by (simp add: kh_room_def)
  from kh_put_ok [OF ty inv this, of x] obtain s r h' where
    p: "kh_put ty h x = Some (s, r, h')" "kh_inv ty h'" "kh_n_buckets h' \<in> set small_sizes" "kh_at ty h' x s"
      "if \<exists>i. kh_at ty h x i then r = 0 \<and> entries h' = entries h
       else r \<noteq> 0 \<and> kh_keys h' ! s = Some x \<and> entry h' ` (slots h' - {s}) = entries h" by blast
  have s: "s \<in> slots h'" using p(4) by (simp add: kh_at_def)
  have "kh_size h' = kh_size h + (if r = 0 then 0 else 1) \<and>
    (\<forall>y. \<not> ti_equal ty x y \<longrightarrow> (\<exists>v k. (Some k, v) \<in> entries h' \<and> ti_equal ty k y) = (\<exists>v k. (Some k, v) \<in> entries h \<and> ti_equal ty k y))"
  proof (cases "\<exists>i. kh_at ty h x i")
    case True
    then have "r = 0" "entries h' = entries h" using p(5) by simp_all
    then show ?thesis using card_entries [OF ty inv] card_entries [OF ty p(2)] by simp
  next
    case False
    then have r: "r \<noteq> 0" "kh_keys h' ! s = Some x" "entry h' ` (slots h' - {s}) = entries h" using p(5) by auto
    have "entries h' = insert (entry h' s) (entries h)"
      unfolding r(3) [symmetric] image_insert [symmetric] insert_Diff [OF s] by (rule entries_def)
    then have e: "entries h' = insert (Some x, kh_vals h' ! s) (entries h)" using r(2) by (simp add: entry_def)
    have "card (slots h' - {s}) = kh_size h"
      using card_image [OF inj_on_subset [OF entry_inj [OF ty kh_keys_ok_inv [OF p(2)]]], of "slots h' - {s}"] r(3) card_entries [OF ty inv] by auto
    then have "kh_size h' = Suc (kh_size h)" using kh_size_slots [OF p(2)] s card_Suc_Diff1 [of "slots h'" s] by (simp add: slots_def)
    then show ?thesis using r(1) e by auto
  qed
  then show ?thesis using p(1-3) kh_get_ok(1) [OF ty p(2,4)] none [OF inv] none [OF p(2)] by auto
qed

theorem kh_put_then_get_witness:
  "\<exists>s r h'. kh_put num_type key_table 8 = Some (s, r, h') \<and> kh_inv num_type h' \<and> kh_n_buckets h' \<in> set small_sizes \<and> kh_get num_type h' 8 = Some s \<and>
    kh_size h' = kh_size key_table + (if r = 0 then 0 else 1) \<and>
    (\<forall>y. \<not> ti_equal num_type 8 y \<longrightarrow>
      (kh_get num_type h' y = Some (kh_n_buckets h') \<longleftrightarrow> kh_get num_type key_table y = Some (kh_n_buckets key_table)))"
  by (rule kh_put_then_get [OF num_type_wf key_table_ok(1)]) (use key_table_ok(2,3) in simp_all)

text \<open>
  C15: Rehashing in place. Resizing a table moves its entries within the same arrays, evicting entries to where they belong. It terminates and
  keeps exactly the entries, drops the marks of deleted ones, and leaves every entry where the search will find it (the invariant).
\<close>

theorem rehash_keeps_entries:
  assumes "kh_inv ty h" "kh_new_size a = Some n" "n \<in> set small_sizes" "kh_size h < ac_upper n"
  shows "\<exists>h'. kh_resize ty h a = Some h' \<and> kh_inv ty h' \<and> kh_n_buckets h' = n \<and> kh_size h' = kh_size h \<and> kh_n_occupied h' = kh_size h \<and>
    entries h' = entries h"
  using kh_resize_ok [OF assms(1,2) small_size_prime [OF assms(3)] assms(4)] by (auto simp: kh_inv_def)

theorem rehash_keeps_entries_witness:
  "\<exists>h'. kh_resize num_type key_table 22 = Some h' \<and> kh_inv num_type h' \<and> kh_n_buckets h' = 23 \<and> kh_size h' = kh_size key_table \<and>
    kh_n_occupied h' = kh_size key_table \<and> entries h' = entries key_table"
proof (rule rehash_keeps_entries [OF key_table_ok(1)])
  show n: "23 \<in> set small_sizes" by (simp add: small_sizes_def)
  show "kh_new_size 22 = Some 23" using same_sizes [OF n] by simp
  have "ac_upper 23 = 18" by (simp add: ac_upper_def)
  then show "kh_size key_table < ac_upper 23" using key_table_ok(3) by simp
qed

end
