(* ===== verification/MapSet.thy ===== *)
theory MapSet
  imports Vector Khash
begin

text \<open>
  Maps and sets with entry expiration, \<^verbatim>\<open>libhilti/map_set.c\<close>, on top of the hash table. A map and a set embed the hash table's members; a slot
  of a map holds the value and the entry's timer, a slot of a set only the timer. The state \<open>map_world\<close> extends that of lists and vectors, so
  that one timer manager can serve all containers.

  Keys and values are copied into memory that the container owns and are identified with what they hold; the key that an entry's timer refers to
  lives as long as the entry. The value member of a slot is \<^term>\<open>None\<close> until it has been assigned. Running a default function is
  compiled HILTI code and an argument (\<open>run\<close>).

  The functions that take a pointer to the container check it for null, except where the code does not. This theory is the model; the theory
  \<open>MapSetCorrect\<close> has the proofs.
\<close>

section \<open>State\<close>

record khval_map =
  mv_val :: "val option"
  mv_timer :: ptr

datatype map_default = NoDefault | DefaultValue val | DefaultFunction addr

record hlt_map =
  m_tkey :: "val type_info"
  m_tmgr :: ptr
  m_timeout :: nat
  m_strategy :: hlt_enum
  m_default :: map_default
  m_hash :: "(val, khval_map) khash"

record hlt_set =
  s_tkey :: "val type_info"
  s_tmgr :: ptr
  s_timeout :: nat
  s_strategy :: hlt_enum
  s_hash :: "(val, ptr) khash"

record map_world = vec_world +
  mw_maps :: "addr \<rightharpoonup> hlt_map"
  mw_sets :: "addr \<rightharpoonup> hlt_set"

record map_iter =
  mi_map :: ptr
  mi_iter :: nat

record set_iter =
  si_set :: ptr
  si_iter :: nat

definition put_map :: "addr \<Rightarrow> hlt_map \<Rightarrow> 'a map_world_scheme \<Rightarrow> 'a map_world_scheme" where
  "put_map m M w = w\<lparr>mw_maps := (mw_maps w)(m \<mapsto> M)\<rparr>"

definition put_set :: "addr \<Rightarrow> hlt_set \<Rightarrow> 'a map_world_scheme \<Rightarrow> 'a map_world_scheme" where
  "put_set s S w = w\<lparr>mw_sets := (mw_sets w)(s \<mapsto> S)\<rparr>"

section \<open>Maps\<close>

definition map_clear_default :: "hlt_map \<Rightarrow> hlt_map" where
  "map_clear_default M = M\<lparr>m_default := NoDefault\<rparr>"

definition access_map ::
  "'a map_world_scheme expiry_ops \<Rightarrow> addr \<Rightarrow> nat \<Rightarrow> 'a map_world_scheme \<Rightarrow> 'a map_world_scheme option" where
  "access_map ops m i w = do {
     M \<leftarrow> mw_maps w m;
     (if m_tmgr M = None \<or> \<not> hlt_enum_equal (m_strategy M) expire_strategy_access \<or> m_timeout M = 0
      then Some w
      else do {
        v \<leftarrow> kh_value (m_hash M) i;
        (if mv_timer v = None then Some w
         else do {
           now \<leftarrow> hlt_timer_mgr_current (m_tmgr M) w;
           hlt_timer_update ops (mv_timer v) (add64 now (m_timeout M)) w
         })
      })
   }"

definition hlt_map_new :: "val type_info \<Rightarrow> ptr \<Rightarrow> 'a map_world_scheme \<Rightarrow> addr \<times> 'a map_world_scheme" where
  "hlt_map_new key tmgr w =
     (tw_next w, put_map (tw_next w)
        (map_clear_default \<lparr>m_tkey = key, m_tmgr = tmgr, m_timeout = 0, m_strategy = hlt_enum_unset, m_default = NoDefault, m_hash = kh_init\<rparr>)
        (w\<lparr>tw_next := tw_next w + 1\<rparr>))"

definition hlt_map_get ::
  "(addr \<Rightarrow> val \<Rightarrow> 'a map_world_scheme \<Rightarrow> (val option \<times> 'a map_world_scheme) option) \<Rightarrow> 'a map_world_scheme expiry_ops \<Rightarrow>
   val type_info \<Rightarrow> ptr \<Rightarrow> val \<Rightarrow> 'a map_world_scheme \<Rightarrow> (val option \<times> 'a map_world_scheme) option" where
  "hlt_map_get run ops ty m key w =
     (case m of
        None \<Rightarrow> Some (None, hlt_set_exception NullReference w)
      | Some a \<Rightarrow> do {
          M \<leftarrow> mw_maps w a;
          i \<leftarrow> kh_get ty (m_hash M) key;
          (if i = kh_n_buckets (m_hash M) then
             (case m_default M of
                NoDefault \<Rightarrow> Some (None, hlt_set_exception IndexError w)
              | DefaultValue d \<Rightarrow> Some (Some d, w)
              | DefaultFunction f \<Rightarrow> run f key w)
           else do {
             w1 \<leftarrow> access_map ops a i w;
             M1 \<leftarrow> mw_maps w1 a;
             v \<leftarrow> kh_value (m_hash M1) i;
             x \<leftarrow> mv_val v;
             Some (Some x, w1)
           })
        })"

definition hlt_map_get_default ::
  "'a map_world_scheme expiry_ops \<Rightarrow> val type_info \<Rightarrow> ptr \<Rightarrow> val \<Rightarrow> val \<Rightarrow> 'a map_world_scheme \<Rightarrow>
   (val option \<times> 'a map_world_scheme) option" where
  "hlt_map_get_default ops ty m key d w =
     (case m of
        None \<Rightarrow> Some (None, hlt_set_exception NullReference w)
      | Some a \<Rightarrow> do {
          M \<leftarrow> mw_maps w a;
          i \<leftarrow> kh_get ty (m_hash M) key;
          (if i = kh_n_buckets (m_hash M) then Some (Some d, w)
           else do {
             w1 \<leftarrow> access_map ops a i w;
             M1 \<leftarrow> mw_maps w1 a;
             v \<leftarrow> kh_value (m_hash M1) i;
             x \<leftarrow> mv_val v;
             Some (Some x, w1)
           })
        })"

text \<open>The branch of an insertion for a new entry: the timer.\<close>

definition map_new_entry ::
  "'a map_world_scheme expiry_ops \<Rightarrow> addr \<Rightarrow> nat \<Rightarrow> val \<Rightarrow> 'a map_world_scheme \<Rightarrow> 'a map_world_scheme option" where
  "map_new_entry ops m i key w = do {
     M \<leftarrow> mw_maps w m;
     (if m_tmgr M \<noteq> None \<and> m_timeout M \<noteq> 0 then do {
        let (t, w1) = hlt_timer_new (CMap m key) w;
        h \<leftarrow> kh_set_value (m_hash M) i \<lparr>mv_val = None, mv_timer = Some t\<rparr>;
        let w2 = put_map m (M\<lparr>m_hash := h\<rparr>) w1;
        now \<leftarrow> hlt_timer_mgr_current (m_tmgr M) w2;
        hlt_timer_mgr_schedule ops (m_tmgr M) (add64 now (m_timeout M)) t w2
      }
      else do {
        h \<leftarrow> kh_set_value (m_hash M) i \<lparr>mv_val = None, mv_timer = None\<rparr>;
        Some (put_map m (M\<lparr>m_hash := h\<rparr>) w)
      })
   }"

definition map_assign :: "addr \<Rightarrow> nat \<Rightarrow> val \<Rightarrow> 'a map_world_scheme \<Rightarrow> 'a map_world_scheme option" where
  "map_assign m i x w = do {
     M \<leftarrow> mw_maps w m;
     v \<leftarrow> kh_value (m_hash M) i;
     h \<leftarrow> kh_set_value (m_hash M) i (v\<lparr>mv_val := Some x\<rparr>);
     Some (put_map m (M\<lparr>m_hash := h\<rparr>) w)
   }"

definition hlt_map_insert ::
  "'a map_world_scheme expiry_ops \<Rightarrow> val type_info \<Rightarrow> ptr \<Rightarrow> val \<Rightarrow> val \<Rightarrow> 'a map_world_scheme \<Rightarrow> 'a map_world_scheme option" where
  "hlt_map_insert ops ty m key x w =
     (case m of
        None \<Rightarrow> Some (hlt_set_exception NullReference w)
      | Some a \<Rightarrow> do {
          M \<leftarrow> mw_maps w a;
          (i, ret, h) \<leftarrow> kh_put ty (m_hash M) key;
          let w1 = put_map a (M\<lparr>m_hash := h\<rparr>) w;
          w2 \<leftarrow> (if ret = 0 then do {
                   v \<leftarrow> kh_value h i;
                   _ \<leftarrow> mv_val v;
                   access_map ops a i w1
                 }
                 else map_new_entry ops a i key w1);
          map_assign a i x w2
        })"

definition hlt_map_exists ::
  "'a map_world_scheme expiry_ops \<Rightarrow> val type_info \<Rightarrow> ptr \<Rightarrow> val \<Rightarrow> 'a map_world_scheme \<Rightarrow> (bool \<times> 'a map_world_scheme) option" where
  "hlt_map_exists ops ty m key w =
     (case m of
        None \<Rightarrow> Some (False, hlt_set_exception NullReference w)
      | Some a \<Rightarrow> do {
          M \<leftarrow> mw_maps w a;
          i \<leftarrow> kh_get ty (m_hash M) key;
          (if i = kh_n_buckets (m_hash M) then Some (False, w)
           else do { w1 \<leftarrow> access_map ops a i w; Some (True, w1) })
        })"

text \<open>Giving up an entry: key and value are destroyed, and the slot is marked as deleted.\<close>

definition map_drop :: "addr \<Rightarrow> nat \<Rightarrow> 'a map_world_scheme \<Rightarrow> 'a map_world_scheme option" where
  "map_drop m i w = do {
     M \<leftarrow> mw_maps w m;
     v \<leftarrow> kh_value (m_hash M) i;
     h1 \<leftarrow> kh_set_value (m_hash M) i (v\<lparr>mv_timer := None\<rparr>);
     _ \<leftarrow> kh_key h1 i;
     _ \<leftarrow> mv_val v;
     h2 \<leftarrow> kh_del h1 i;
     Some (put_map m (M\<lparr>m_hash := h2\<rparr>) w)
   }"

definition hlt_map_remove ::
  "val type_info \<Rightarrow> ptr \<Rightarrow> val \<Rightarrow> 'a map_world_scheme \<Rightarrow> 'a map_world_scheme option" where
  "hlt_map_remove ty m key w =
     (case m of
        None \<Rightarrow> Some (hlt_set_exception NullReference w)
      | Some a \<Rightarrow> do {
          M \<leftarrow> mw_maps w a;
          i \<leftarrow> kh_get ty (m_hash M) key;
          (if i \<noteq> kh_n_buckets (m_hash M) then do {
             v \<leftarrow> kh_value (m_hash M) i;
             w1 \<leftarrow> (if mv_timer v \<noteq> None then hlt_timer_cancel (mv_timer v) w else Some w);
             map_drop a i w1
           } else Some w)
        })"

definition hlt_map_expire :: "addr \<Rightarrow> val \<Rightarrow> 'a map_world_scheme \<Rightarrow> 'a map_world_scheme option" where
  "hlt_map_expire m key w = do {
     M \<leftarrow> mw_maps w m;
     i \<leftarrow> kh_get (m_tkey M) (m_hash M) key;
     (if i = kh_n_buckets (m_hash M) then Some w else map_drop m i w)
   }"

definition hlt_map_size :: "ptr \<Rightarrow> 'a map_world_scheme \<Rightarrow> (nat \<times> 'a map_world_scheme) option" where
  "hlt_map_size m w =
     (case m of
        None \<Rightarrow> Some (0, hlt_set_exception NullReference w)
      | Some a \<Rightarrow> do { M \<leftarrow> mw_maps w a; Some (kh_size (m_hash M), w) })"

primrec map_clear_loop :: "hlt_map \<Rightarrow> nat list \<Rightarrow> 'a map_world_scheme \<Rightarrow> 'a map_world_scheme option" where
  "map_clear_loop M [] w = Some w"
| "map_clear_loop M (i # is) w = do {
     e \<leftarrow> kh_exist (m_hash M) i;
     w1 \<leftarrow> (if e then do {
              v \<leftarrow> kh_value (m_hash M) i;
              w1 \<leftarrow> (if mv_timer v \<noteq> None then hlt_timer_cancel (mv_timer v) w else Some w);
              _ \<leftarrow> kh_key (m_hash M) i;
              _ \<leftarrow> mv_val v;
              Some w1
            } else Some w);
     map_clear_loop M is w1
   }"

definition hlt_map_clear :: "ptr \<Rightarrow> 'a map_world_scheme \<Rightarrow> 'a map_world_scheme option" where
  "hlt_map_clear m w =
     (case m of
        None \<Rightarrow> Some (hlt_set_exception NullReference w)
      | Some a \<Rightarrow> do {
          M \<leftarrow> mw_maps w a;
          w1 \<leftarrow> map_clear_loop M [0..<kh_n_buckets (m_hash M)] w;
          Some (put_map a (M\<lparr>m_hash := kh_clear (m_hash M)\<rparr>) w1)
        })"

definition hlt_map_dtor :: "addr \<Rightarrow> 'a map_world_scheme \<Rightarrow> 'a map_world_scheme option" where
  "hlt_map_dtor m w = do {
     M \<leftarrow> mw_maps w m;
     w1 \<leftarrow> map_clear_loop M [0..<kh_n_buckets (m_hash M)] w;
     Some (w1\<lparr>mw_maps := (mw_maps w1)(m := None)\<rparr>)
   }"

text \<open>The type of the default decides between a value and a function.\<close>

definition hlt_map_default :: "addr \<Rightarrow> val + addr \<Rightarrow> 'a map_world_scheme \<Rightarrow> 'a map_world_scheme option" where
  "hlt_map_default m d w = do {
     M \<leftarrow> mw_maps w m;
     Some (put_map m ((map_clear_default M)\<lparr>m_default := (case d of Inl x \<Rightarrow> DefaultValue x | Inr f \<Rightarrow> DefaultFunction f)\<rparr>) w)
   }"

definition hlt_map_default_callable :: "addr \<Rightarrow> addr \<Rightarrow> 'a map_world_scheme \<Rightarrow> 'a map_world_scheme option" where
  "hlt_map_default_callable m f w = do {
     M \<leftarrow> mw_maps w m;
     Some (put_map m ((map_clear_default M)\<lparr>m_default := DefaultFunction f\<rparr>) w)
   }"

definition hlt_map_timeout :: "addr \<Rightarrow> hlt_enum \<Rightarrow> nat \<Rightarrow> 'a map_world_scheme \<Rightarrow> 'a map_world_scheme option" where
  "hlt_map_timeout m strategy timeout w = do {
     M \<leftarrow> mw_maps w m;
     Some (put_map m (M\<lparr>m_timeout := timeout, m_strategy := strategy,
       m_tmgr := (if m_tmgr M = None then Some (tw_ctx_tmgr w) else m_tmgr M)\<rparr>) w)
   }"

subsection \<open>Iterators\<close>

text \<open>The loops over the slots, for maps and sets alike.\<close>

primrec first_live :: "('k, 'v) khash \<Rightarrow> nat list \<Rightarrow> nat option option" where
  "first_live h [] = Some None"
| "first_live h (i # is) = do { e \<leftarrow> kh_exist h i; (if e then Some (Some i) else first_live h is) }"

partial_function (option) next_live :: "('k, 'v) khash \<Rightarrow> nat \<Rightarrow> nat option option" where
  "next_live h i =
     (if i = kh_n_buckets h then Some None
      else do { e \<leftarrow> kh_exist h (i + 1); (if e then Some (Some (i + 1)) else next_live h (i + 1)) })"

declare next_live.simps [code]

definition hlt_map_end :: map_iter where
  "hlt_map_end = \<lparr>mi_map = None, mi_iter = 0\<rparr>"

definition hlt_map_begin :: "ptr \<Rightarrow> 'a map_world_scheme \<Rightarrow> (map_iter \<times> 'a map_world_scheme) option" where
  "hlt_map_begin m w =
     (case m of
        None \<Rightarrow> Some (hlt_map_end, hlt_set_exception NullReference w)
      | Some a \<Rightarrow> do {
          M \<leftarrow> mw_maps w a;
          i \<leftarrow> first_live (m_hash M) [0..<kh_n_buckets (m_hash M)];
          Some (case i of None \<Rightarrow> hlt_map_end | Some i \<Rightarrow> \<lparr>mi_map = m, mi_iter = i\<rparr>, w)
        })"

definition hlt_iterator_map_incr :: "map_iter \<Rightarrow> 'a map_world_scheme \<Rightarrow> map_iter option" where
  "hlt_iterator_map_incr i w =
     (case mi_map i of
        None \<Rightarrow> Some i
      | Some a \<Rightarrow> do {
          M \<leftarrow> mw_maps w a;
          j \<leftarrow> next_live (m_hash M) (mi_iter i);
          Some (case j of None \<Rightarrow> hlt_map_end | Some j \<Rightarrow> i\<lparr>mi_iter := j\<rparr>)
        })"

definition hlt_iterator_map_deref_key :: "map_iter \<Rightarrow> 'a map_world_scheme \<Rightarrow> (val option \<times> 'a map_world_scheme) option" where
  "hlt_iterator_map_deref_key i w =
     (case mi_map i of
        None \<Rightarrow> Some (None, hlt_set_exception InvalidIterator w)
      | Some a \<Rightarrow> do { M \<leftarrow> mw_maps w a; k \<leftarrow> kh_key (m_hash M) (mi_iter i); Some (Some k, w) })"

definition hlt_iterator_map_deref_value :: "map_iter \<Rightarrow> 'a map_world_scheme \<Rightarrow> (val option \<times> 'a map_world_scheme) option" where
  "hlt_iterator_map_deref_value i w =
     (case mi_map i of
        None \<Rightarrow> Some (None, hlt_set_exception InvalidIterator w)
      | Some a \<Rightarrow> do { M \<leftarrow> mw_maps w a; v \<leftarrow> kh_value (m_hash M) (mi_iter i); x \<leftarrow> mv_val v; Some (Some x, w) })"

definition hlt_iterator_map_deref :: "map_iter \<Rightarrow> 'a map_world_scheme \<Rightarrow> ((val \<times> val) option \<times> 'a map_world_scheme) option" where
  "hlt_iterator_map_deref i w =
     (case mi_map i of
        None \<Rightarrow> Some (None, hlt_set_exception InvalidIterator w)
      | Some a \<Rightarrow> do {
          M \<leftarrow> mw_maps w a;
          k \<leftarrow> kh_key (m_hash M) (mi_iter i);
          v \<leftarrow> kh_value (m_hash M) (mi_iter i);
          x \<leftarrow> mv_val v;
          Some (Some (k, x), w)
        })"

definition hlt_iterator_map_eq :: "map_iter \<Rightarrow> map_iter \<Rightarrow> bool" where
  "hlt_iterator_map_eq i1 i2 \<longleftrightarrow> mi_map i1 = mi_map i2 \<and> mi_iter i1 = mi_iter i2"

subsection \<open>Cloning\<close>

text \<open>
  The body of the loop over the source's slots. The slot that \<^verbatim>\<open>kh_put_map\<close> returns for the copy is stored in a variable that
  hides the loop's, so that the timer is read from that slot of the source.
\<close>

definition map_clone_entry :: "hlt_map \<Rightarrow> addr \<Rightarrow> nat \<Rightarrow> 'a map_world_scheme \<Rightarrow> 'a map_world_scheme option" where
  "map_clone_entry S dst i w = do {
     e \<leftarrow> kh_exist (m_hash S) i;
     (if \<not> e then Some w
      else do {
        key \<leftarrow> kh_key (m_hash S) i;
        v \<leftarrow> kh_value (m_hash S) i;
        x \<leftarrow> mv_val v;
        D \<leftarrow> mw_maps w dst;
        (j, ret, h) \<leftarrow> kh_put (m_tkey S) (m_hash D) key;
        (if ret = 0 then None
         else do {
           (t, w1) \<leftarrow> (if m_tmgr S \<noteq> None \<and> m_timeout S \<noteq> 0 then do {
                let (t, w1) = hlt_timer_new (CMap dst key) w;
                sv \<leftarrow> kh_value (m_hash S) j;
                st \<leftarrow> mv_timer sv;
                sm \<leftarrow> tw_timers w1 st;
                tm \<leftarrow> tw_timers w1 t;
                Some (Some t, w1\<lparr>tw_timers := (tw_timers w1)(t \<mapsto> tm\<lparr>timer_time := timer_time sm\<rparr>)\<rparr>)
              }
              else Some (None, w));
           h \<leftarrow> kh_set_value h j \<lparr>mv_val = Some x, mv_timer = t\<rparr>;
           Some (put_map dst (D\<lparr>m_hash := h\<rparr>) w1)
         })
      })
   }"

primrec map_clone_loop :: "hlt_map \<Rightarrow> addr \<Rightarrow> nat list \<Rightarrow> 'a map_world_scheme \<Rightarrow> 'a map_world_scheme option" where
  "map_clone_loop S dst [] w = Some w"
| "map_clone_loop S dst (i # is) w = do { w1 \<leftarrow> map_clone_entry S dst i w; map_clone_loop S dst is w1 }"

primrec map_schedule_loop ::
  "'a map_world_scheme expiry_ops \<Rightarrow> addr \<Rightarrow> nat list \<Rightarrow> 'a map_world_scheme \<Rightarrow> 'a map_world_scheme option" where
  "map_schedule_loop ops dst [] w = Some w"
| "map_schedule_loop ops dst (i # is) w = do {
     D \<leftarrow> mw_maps w dst;
     e \<leftarrow> kh_exist (m_hash D) i;
     w1 \<leftarrow> (if e then do {
              v \<leftarrow> kh_value (m_hash D) i;
              (case mv_timer v of
                 None \<Rightarrow> Some w
               | Some t \<Rightarrow> do { tm \<leftarrow> tw_timers w t; hlt_timer_mgr_schedule ops (m_tmgr D) (timer_time tm) t w })
            } else Some w);
     map_schedule_loop ops dst is w1
   }"

definition clone_init_in_thread_map ::
  "'a map_world_scheme expiry_ops \<Rightarrow> addr \<Rightarrow> 'a map_world_scheme \<Rightarrow> 'a map_world_scheme option" where
  "clone_init_in_thread_map ops dst w = do {
     D \<leftarrow> mw_maps w dst;
     map_schedule_loop ops dst [0..<kh_n_buckets (m_hash D)] (put_map dst (D\<lparr>m_tmgr := Some (tw_ctx_tmgr w)\<rparr>) w)
   }"

text \<open>
  Copying the default. For a function, the callable itself is passed where a pointer to the reference is expected, and its header is taken for
  the address of an object: undefined.
\<close>

fun clone_default :: "map_default \<Rightarrow> map_default option" where
  "clone_default NoDefault = Some NoDefault"
| "clone_default (DefaultValue d) = Some (DefaultValue d)"
| "clone_default (DefaultFunction f) = None"

definition hlt_map_clone_init ::
  "'a map_world_scheme expiry_ops \<Rightarrow> bool \<Rightarrow> addr \<Rightarrow> addr \<Rightarrow> 'a map_world_scheme \<Rightarrow> 'a map_world_scheme option" where
  "hlt_map_clone_init ops here dst src w = do {
     S \<leftarrow> mw_maps w src;
     (if m_tmgr S \<noteq> None \<and> m_tmgr S \<noteq> Some (tw_ctx_tmgr w) then Some (hlt_set_exception CloningNotSupported w)
      else do {
        d \<leftarrow> clone_default (m_default S);
        w1 \<leftarrow> map_clone_loop S dst [0..<kh_n_buckets (m_hash S)] (put_map dst (S\<lparr>m_tmgr := None, m_default := d, m_hash := kh_init\<rparr>) w);
        (if m_tmgr S = None then Some w1
         else if here then clone_init_in_thread_map ops dst w1
         else Some (hlt_set_exception NotImplemented w1))
      })
   }"

section \<open>Sets\<close>

definition access_set ::
  "'a map_world_scheme expiry_ops \<Rightarrow> addr \<Rightarrow> nat \<Rightarrow> 'a map_world_scheme \<Rightarrow> 'a map_world_scheme option" where
  "access_set ops s i w = do {
     S \<leftarrow> mw_sets w s;
     (if s_tmgr S = None \<or> \<not> hlt_enum_equal (s_strategy S) expire_strategy_access \<or> s_timeout S = 0
      then Some w
      else do {
        t \<leftarrow> kh_value (s_hash S) i;
        (if t = None then Some w
         else do {
           now \<leftarrow> hlt_timer_mgr_current (s_tmgr S) w;
           hlt_timer_update ops t (add64 now (s_timeout S)) w
         })
      })
   }"

definition hlt_set_new :: "val type_info \<Rightarrow> ptr \<Rightarrow> 'a map_world_scheme \<Rightarrow> addr \<times> 'a map_world_scheme" where
  "hlt_set_new key tmgr w =
     (tw_next w, put_set (tw_next w)
        \<lparr>s_tkey = key, s_tmgr = tmgr, s_timeout = 0, s_strategy = hlt_enum_unset, s_hash = kh_init\<rparr>
        (w\<lparr>tw_next := tw_next w + 1\<rparr>))"

definition set_new_entry ::
  "'a map_world_scheme expiry_ops \<Rightarrow> addr \<Rightarrow> nat \<Rightarrow> val \<Rightarrow> 'a map_world_scheme \<Rightarrow> 'a map_world_scheme option" where
  "set_new_entry ops s i key w = do {
     S \<leftarrow> mw_sets w s;
     (if s_tmgr S \<noteq> None \<and> s_timeout S \<noteq> 0 then do {
        let (t, w1) = hlt_timer_new (CSet s key) w;
        h \<leftarrow> kh_set_value (s_hash S) i (Some t);
        let w2 = put_set s (S\<lparr>s_hash := h\<rparr>) w1;
        now \<leftarrow> hlt_timer_mgr_current (s_tmgr S) w2;
        hlt_timer_mgr_schedule ops (s_tmgr S) (add64 now (s_timeout S)) t w2
      }
      else do {
        h \<leftarrow> kh_set_value (s_hash S) i None;
        Some (put_set s (S\<lparr>s_hash := h\<rparr>) w)
      })
   }"

definition hlt_set_insert ::
  "'a map_world_scheme expiry_ops \<Rightarrow> val type_info \<Rightarrow> ptr \<Rightarrow> val \<Rightarrow> 'a map_world_scheme \<Rightarrow> 'a map_world_scheme option" where
  "hlt_set_insert ops ty s key w =
     (case s of
        None \<Rightarrow> Some (hlt_set_exception NullReference w)
      | Some a \<Rightarrow> do {
          S \<leftarrow> mw_sets w a;
          (i, ret, h) \<leftarrow> kh_put ty (s_hash S) key;
          let w1 = put_set a (S\<lparr>s_hash := h\<rparr>) w;
          (if ret = 0 then access_set ops a i w1 else set_new_entry ops a i key w1)
        })"

definition hlt_set_exists ::
  "'a map_world_scheme expiry_ops \<Rightarrow> val type_info \<Rightarrow> ptr \<Rightarrow> val \<Rightarrow> 'a map_world_scheme \<Rightarrow> (bool \<times> 'a map_world_scheme) option" where
  "hlt_set_exists ops ty s key w =
     (case s of
        None \<Rightarrow> Some (False, hlt_set_exception NullReference w)
      | Some a \<Rightarrow> do {
          S \<leftarrow> mw_sets w a;
          i \<leftarrow> kh_get ty (s_hash S) key;
          (if i = kh_n_buckets (s_hash S) then Some (False, w)
           else do { w1 \<leftarrow> access_set ops a i w; Some (True, w1) })
        })"

definition set_drop :: "addr \<Rightarrow> nat \<Rightarrow> 'a map_world_scheme \<Rightarrow> 'a map_world_scheme option" where
  "set_drop s i w = do {
     S \<leftarrow> mw_sets w s;
     h1 \<leftarrow> kh_set_value (s_hash S) i None;
     _ \<leftarrow> kh_key h1 i;
     h2 \<leftarrow> kh_del h1 i;
     Some (put_set s (S\<lparr>s_hash := h2\<rparr>) w)
   }"

definition hlt_set_remove :: "val type_info \<Rightarrow> ptr \<Rightarrow> val \<Rightarrow> 'a map_world_scheme \<Rightarrow> 'a map_world_scheme option" where
  "hlt_set_remove ty s key w =
     (case s of
        None \<Rightarrow> Some (hlt_set_exception NullReference w)
      | Some a \<Rightarrow> do {
          S \<leftarrow> mw_sets w a;
          i \<leftarrow> kh_get ty (s_hash S) key;
          (if i \<noteq> kh_n_buckets (s_hash S) then do {
             t \<leftarrow> kh_value (s_hash S) i;
             w1 \<leftarrow> (if t \<noteq> None then hlt_timer_cancel t w else Some w);
             set_drop a i w1
           } else Some w)
        })"

definition hlt_set_expire :: "addr \<Rightarrow> val \<Rightarrow> 'a map_world_scheme \<Rightarrow> 'a map_world_scheme option" where
  "hlt_set_expire s key w = do {
     S \<leftarrow> mw_sets w s;
     i \<leftarrow> kh_get (s_tkey S) (s_hash S) key;
     (if i = kh_n_buckets (s_hash S) then Some w else set_drop s i w)
   }"

definition hlt_set_size :: "ptr \<Rightarrow> 'a map_world_scheme \<Rightarrow> (nat \<times> 'a map_world_scheme) option" where
  "hlt_set_size s w =
     (case s of
        None \<Rightarrow> Some (0, hlt_set_exception NullReference w)
      | Some a \<Rightarrow> do { S \<leftarrow> mw_sets w a; Some (kh_size (s_hash S), w) })"

primrec set_clear_loop :: "hlt_set \<Rightarrow> nat list \<Rightarrow> 'a map_world_scheme \<Rightarrow> 'a map_world_scheme option" where
  "set_clear_loop S [] w = Some w"
| "set_clear_loop S (i # is) w = do {
     e \<leftarrow> kh_exist (s_hash S) i;
     w1 \<leftarrow> (if e then do {
              t \<leftarrow> kh_value (s_hash S) i;
              w1 \<leftarrow> (if t \<noteq> None then hlt_timer_cancel t w else Some w);
              _ \<leftarrow> kh_key (s_hash S) i;
              Some w1
            } else Some w);
     set_clear_loop S is w1
   }"

definition hlt_set_clear :: "ptr \<Rightarrow> 'a map_world_scheme \<Rightarrow> 'a map_world_scheme option" where
  "hlt_set_clear s w =
     (case s of
        None \<Rightarrow> Some (hlt_set_exception NullReference w)
      | Some a \<Rightarrow> do {
          S \<leftarrow> mw_sets w a;
          w1 \<leftarrow> set_clear_loop S [0..<kh_n_buckets (s_hash S)] w;
          Some (put_set a (S\<lparr>s_hash := kh_clear (s_hash S)\<rparr>) w1)
        })"

definition hlt_set_dtor :: "addr \<Rightarrow> 'a map_world_scheme \<Rightarrow> 'a map_world_scheme option" where
  "hlt_set_dtor s w = do {
     S \<leftarrow> mw_sets w s;
     w1 \<leftarrow> set_clear_loop S [0..<kh_n_buckets (s_hash S)] w;
     Some (w1\<lparr>mw_sets := (mw_sets w1)(s := None)\<rparr>)
   }"

definition hlt_set_timeout :: "addr \<Rightarrow> hlt_enum \<Rightarrow> nat \<Rightarrow> 'a map_world_scheme \<Rightarrow> 'a map_world_scheme option" where
  "hlt_set_timeout s strategy timeout w = do {
     S \<leftarrow> mw_sets w s;
     Some (put_set s (S\<lparr>s_timeout := timeout, s_strategy := strategy,
       s_tmgr := (if s_tmgr S = None then Some (tw_ctx_tmgr w) else s_tmgr S)\<rparr>) w)
   }"

definition hlt_set_end :: set_iter where
  "hlt_set_end = \<lparr>si_set = None, si_iter = 0\<rparr>"

definition hlt_set_begin :: "ptr \<Rightarrow> 'a map_world_scheme \<Rightarrow> (set_iter \<times> 'a map_world_scheme) option" where
  "hlt_set_begin s w =
     (case s of
        None \<Rightarrow> Some (hlt_set_end, hlt_set_exception NullReference w)
      | Some a \<Rightarrow> do {
          S \<leftarrow> mw_sets w a;
          i \<leftarrow> first_live (s_hash S) [0..<kh_n_buckets (s_hash S)];
          Some (case i of None \<Rightarrow> hlt_set_end | Some i \<Rightarrow> \<lparr>si_set = s, si_iter = i\<rparr>, w)
        })"

definition hlt_iterator_set_incr :: "set_iter \<Rightarrow> 'a map_world_scheme \<Rightarrow> set_iter option" where
  "hlt_iterator_set_incr i w =
     (case si_set i of
        None \<Rightarrow> Some i
      | Some a \<Rightarrow> do {
          S \<leftarrow> mw_sets w a;
          j \<leftarrow> next_live (s_hash S) (si_iter i);
          Some (case j of None \<Rightarrow> hlt_set_end | Some j \<Rightarrow> i\<lparr>si_iter := j\<rparr>)
        })"

definition hlt_iterator_set_deref :: "set_iter \<Rightarrow> 'a map_world_scheme \<Rightarrow> (val option \<times> 'a map_world_scheme) option" where
  "hlt_iterator_set_deref i w =
     (case si_set i of
        None \<Rightarrow> Some (None, hlt_set_exception InvalidIterator w)
      | Some a \<Rightarrow> do { S \<leftarrow> mw_sets w a; k \<leftarrow> kh_key (s_hash S) (si_iter i); Some (Some k, w) })"

definition hlt_iterator_set_eq :: "set_iter \<Rightarrow> set_iter \<Rightarrow> bool" where
  "hlt_iterator_set_eq i1 i2 \<longleftrightarrow> si_set i1 = si_set i2 \<and> si_iter i1 = si_iter i2"

definition set_clone_entry :: "hlt_set \<Rightarrow> addr \<Rightarrow> nat \<Rightarrow> 'a map_world_scheme \<Rightarrow> 'a map_world_scheme option" where
  "set_clone_entry S dst i w = do {
     e \<leftarrow> kh_exist (s_hash S) i;
     (if \<not> e then Some w
      else do {
        key \<leftarrow> kh_key (s_hash S) i;
        D \<leftarrow> mw_sets w dst;
        (j, ret, h) \<leftarrow> kh_put (s_tkey S) (s_hash D) key;
        (if ret = 0 then None
         else do {
           (t, w1) \<leftarrow> (if s_tmgr S \<noteq> None \<and> s_timeout S \<noteq> 0 then do {
                let (t, w1) = hlt_timer_new (CSet dst key) w;
                sv \<leftarrow> kh_value (s_hash S) j;
                st \<leftarrow> sv;
                sm \<leftarrow> tw_timers w1 st;
                tm \<leftarrow> tw_timers w1 t;
                Some (Some t, w1\<lparr>tw_timers := (tw_timers w1)(t \<mapsto> tm\<lparr>timer_time := timer_time sm\<rparr>)\<rparr>)
              }
              else Some (None, w));
           h \<leftarrow> kh_set_value h j t;
           Some (put_set dst (D\<lparr>s_hash := h\<rparr>) w1)
         })
      })
   }"

primrec set_clone_loop :: "hlt_set \<Rightarrow> addr \<Rightarrow> nat list \<Rightarrow> 'a map_world_scheme \<Rightarrow> 'a map_world_scheme option" where
  "set_clone_loop S dst [] w = Some w"
| "set_clone_loop S dst (i # is) w = do { w1 \<leftarrow> set_clone_entry S dst i w; set_clone_loop S dst is w1 }"

primrec set_schedule_loop ::
  "'a map_world_scheme expiry_ops \<Rightarrow> addr \<Rightarrow> nat list \<Rightarrow> 'a map_world_scheme \<Rightarrow> 'a map_world_scheme option" where
  "set_schedule_loop ops dst [] w = Some w"
| "set_schedule_loop ops dst (i # is) w = do {
     D \<leftarrow> mw_sets w dst;
     e \<leftarrow> kh_exist (s_hash D) i;
     w1 \<leftarrow> (if e then do {
              v \<leftarrow> kh_value (s_hash D) i;
              (case v of
                 None \<Rightarrow> Some w
               | Some t \<Rightarrow> do { tm \<leftarrow> tw_timers w t; hlt_timer_mgr_schedule ops (s_tmgr D) (timer_time tm) t w })
            } else Some w);
     set_schedule_loop ops dst is w1
   }"

definition clone_init_in_thread_set ::
  "'a map_world_scheme expiry_ops \<Rightarrow> addr \<Rightarrow> 'a map_world_scheme \<Rightarrow> 'a map_world_scheme option" where
  "clone_init_in_thread_set ops dst w = do {
     D \<leftarrow> mw_sets w dst;
     set_schedule_loop ops dst [0..<kh_n_buckets (s_hash D)] (put_set dst (D\<lparr>s_tmgr := Some (tw_ctx_tmgr w)\<rparr>) w)
   }"

definition hlt_set_clone_init ::
  "'a map_world_scheme expiry_ops \<Rightarrow> bool \<Rightarrow> addr \<Rightarrow> addr \<Rightarrow> 'a map_world_scheme \<Rightarrow> 'a map_world_scheme option" where
  "hlt_set_clone_init ops here dst src w = do {
     S \<leftarrow> mw_sets w src;
     (if s_tmgr S \<noteq> None \<and> s_tmgr S \<noteq> Some (tw_ctx_tmgr w) then Some (hlt_set_exception CloningNotSupported w)
      else do {
        w1 \<leftarrow> set_clone_loop S dst [0..<kh_n_buckets (s_hash S)] (put_set dst (S\<lparr>s_tmgr := None, s_hash := kh_init\<rparr>) w);
        (if s_tmgr S = None then Some w1
         else if here then clone_init_in_thread_set ops dst w1
         else Some (hlt_set_exception NotImplemented w1))
      })
   }"

end
