(* ===== verification/MapSetCorrect.thy ===== *)
theory MapSetCorrect
  imports MapSet "HOL-Library.Code_Target_Nat"
begin

text \<open>
  Correctness of maps and sets. A map's content is the set of its keys with their values, wherever the hash table stores them
  (\<open>map_kvs\<close>); \<open>map_inv\<close> is the invariant of a map that stands for an association list, and the operations are those of the list
  (\<open>al_insert\<close>, \<open>al_remove\<close>, \<open>al_lookup\<close>), where keys are compared by the comparison of their type. The locale \<open>dictionary\<close>
  states this contract; it is interpreted on maps as \<open>md\<close> and on sets as \<open>sd\<close>, and gives that any sequence of operations follows the
  specification.

  With expiration, every entry's timer is linked to the entry (\<open>links_ok\<close>). The contract of expiring containers, \<open>quiet_expiry\<close>, is interpreted on
  all four containers together as \<open>ax\<close>.
\<close>

section \<open>Timers of entries\<close>

text \<open>
  A set of timers with their cookies, all scheduled with one manager, none later than a timer started now would be.
\<close>

definition links_ok :: "ptr \<Rightarrow> nat \<Rightarrow> (addr \<times> timer_cookie) set \<Rightarrow> 'a timer_world_scheme \<Rightarrow> bool" where
  "links_ok tm n L w \<longleftrightarrow> (\<forall>g. tm = Some g \<longrightarrow> mgr_inv g w \<and>
     (\<forall>a c. (a, c) \<in> L \<longrightarrow> link_of (tw_timers w) a = Some (Some g, c) \<and>
        (\<forall>now. clocks w g = Some now \<longrightarrow> pri (tw_timers w) a \<le> now + n)))"

definition clock_fits :: "ptr \<Rightarrow> nat \<Rightarrow> 'a timer_world_scheme \<Rightarrow> bool" where
  "clock_fits tm n w \<longleftrightarrow> (\<forall>g now. tm = Some g \<longrightarrow> clocks w g = Some now \<longrightarrow> now + n \<le> max64)"

lemma links_okD:
  assumes "links_ok (Some g) n L w"
  shows "mgr_inv g w" "(a, c) \<in> L \<Longrightarrow> link_of (tw_timers w) a = Some (Some g, c)"
    "(a, c) \<in> L \<Longrightarrow> clocks w g = Some now \<Longrightarrow> pri (tw_timers w) a \<le> now + n"
  using assms unfolding links_ok_def by blast+

lemma links_ok_mono: "links_ok tm n L w \<Longrightarrow> L' \<subseteq> L \<Longrightarrow> links_ok tm n L' w"
  unfolding links_ok_def by blast

lemma links_ok_cong:
  "tw_timers w' = tw_timers w \<Longrightarrow> tw_mgrs w' = tw_mgrs w \<Longrightarrow> links_ok tm n L w' \<longleftrightarrow> links_ok tm n L w"
  unfolding links_ok_def clocks_def using mgr_inv_cong [of w' w] by simp

lemma cancel_link:
  assumes L: "links_ok (Some g) n L w" and a: "(a, c) \<in> L"
  shows "\<exists>w'. hlt_timer_cancel (Some a) w = Some w' \<and> links_ok (Some g) n (L - {(a, c)}) w' \<and> erase w' = erase w \<and>
    clocks w' = clocks w \<and> (\<forall>b. link_of (tw_timers w) b = None \<longrightarrow> link_of (tw_timers w') b = None)"
proof -
  note l = links_okD [OF L]
  from link_of_live [OF l(2) [OF a]] obtain t where t: "tw_timers w a = Some t" "timer_mgr t = Some g" "cookie t = c" by auto
  from cancel_ok [OF l(1) t(1,2)] obtain w' where
    w': "hlt_timer_cancel (Some a) w = Some w'" "mgr_inv g w'" "erase w' = erase w" "clocks w' = clocks w"
      "link_of (tw_timers w') = (link_of (tw_timers w))(a \<mapsto> (None, cookie t))"
      "\<forall>b. b \<noteq> a \<longrightarrow> pri (tw_timers w') b = pri (tw_timers w) b" by blast
  have "link_of (tw_timers w') b = Some (Some g, d) \<and> (\<forall>now. clocks w' g = Some now \<longrightarrow> pri (tw_timers w') b \<le> now + n)"
    if b: "(b, d) \<in> L - {(a, c)}" for b d
  proof -
    have "b \<noteq> a" using b l(2) [OF a] l(2) [of b d] by auto
    then show ?thesis using w' l(2) [of b d] l(3) [of b d] b by simp
  qed
  then have "links_ok (Some g) n (L - {(a, c)}) w'" using w'(2) by (auto simp: links_ok_def)
  moreover have "\<forall>b. link_of (tw_timers w) b = None \<longrightarrow> link_of (tw_timers w') b = None" using w'(5) l(2) [OF a] by auto
  ultimately show ?thesis using w'(1,3,4) by blast
qed

lemma mgr_clock: "mgr_inv g w \<Longrightarrow> \<exists>mg. tw_mgrs w g = Some mg \<and> clocks w g = Some (mgr_time mg) \<and> hlt_timer_mgr_current (Some g) w = Some (mgr_time mg)"
  unfolding mgr_inv_def queue_inv_def by (auto simp: clocks_def hlt_timer_mgr_current_def the_mgr_def)

lemma update_link:
  assumes L: "links_ok (Some g) n L w" and a: "(a, c) \<in> L" and fit: "clock_fits (Some g) n w"
  shows "\<exists>now w'. hlt_timer_mgr_current (Some g) w = Some now \<and> hlt_timer_update ops (Some a) (add64 now n) w = Some w' \<and>
    links_ok (Some g) n L w' \<and> erase w' = erase w \<and> clocks w' = clocks w \<and> link_of (tw_timers w') = link_of (tw_timers w)"
proof -
  note l = links_okD [OF L]
  from link_of_live [OF l(2) [OF a]] obtain t where t: "tw_timers w a = Some t" "timer_mgr t = Some g" by auto
  from mgr_clock [OF l(1)] obtain mg where
    mg: "tw_mgrs w g = Some mg" "clocks w g = Some (mgr_time mg)" "hlt_timer_mgr_current (Some g) w = Some (mgr_time mg)" by blast
  have now: "add64 (mgr_time mg) n = mgr_time mg + n" using fit mg(2) by (simp add: clock_fits_def add64_exact)
  have "timer_time t \<le> mgr_time mg + n" using l(3) [OF a mg(2)] t(1) by (simp add: pri_def)
  from update_later_ok [OF l(1) mg(1) t this, of ops] obtain w' where
    w': "hlt_timer_update ops (Some a) (mgr_time mg + n) w = Some w'" "mgr_inv g w'" "pri (tw_timers w') a = mgr_time mg + n"
      "erase w' = erase w" "clocks w' = clocks w" "link_of (tw_timers w') = link_of (tw_timers w)"
      "\<forall>b. b \<noteq> a \<longrightarrow> pri (tw_timers w') b = pri (tw_timers w) b" by blast
  have "pri (tw_timers w') b \<le> now + n" if "(b, d) \<in> L" "clocks w' g = Some now" for b d now
    using w'(3,5,7) l(3) [OF that(1)] that(2) mg(2) by (cases "b = a") auto
  then have "links_ok (Some g) n L w'" using w'(2,6) l(2) by (auto simp: links_ok_def)
  then show ?thesis using w' mg(3) now by auto
qed

lemma start_link:
  assumes L: "links_ok (Some g) n L w" and fr: "fresh_timers w" and fit: "clock_fits (Some g) n w" and n: "n \<noteq> 0"
    and w2: "tw_timers w2 = (tw_timers w)(tw_next w \<mapsto> \<lparr>timer_mgr = None, timer_time = hlt_time_unset, queue_pos = 0, cookie = c\<rparr>)"
      "tw_mgrs w2 = tw_mgrs w" "tw_next w2 = tw_next w + 1"
  shows "\<exists>now w'. hlt_timer_mgr_current (Some g) w2 = Some now \<and> hlt_timer_mgr_schedule ops (Some g) (add64 now n) (tw_next w) w2 = Some w' \<and>
    links_ok (Some g) n (insert (tw_next w, c) L) w' \<and> erase w' = erase w2 \<and> clocks w' = clocks w \<and> fresh_timers w'"
proof -
  let ?a = "tw_next w"
  let ?t = "\<lparr>timer_mgr = None, timer_time = hlt_time_unset, queue_pos = 0, cookie = c\<rparr>"
  note l = links_okD [OF L]
  have fa: "tw_timers w ?a = None" using fr by (auto simp: fresh_timers_def)
  have inv2: "mgr_inv g w2" by (rule mgr_inv_new_timer [OF l(1) fa _ w2(1,2)]) simp
  from mgr_clock [OF inv2] obtain mg where
    mg: "tw_mgrs w2 g = Some mg" "clocks w2 g = Some (mgr_time mg)" "hlt_timer_mgr_current (Some g) w2 = Some (mgr_time mg)" by blast
  have ck: "clocks w2 = clocks w" using w2(2) by (simp add: clocks_def fun_eq_iff)
  have now: "add64 (mgr_time mg) n = mgr_time mg + n" using fit mg(2) ck by (simp add: clock_fits_def add64_exact)
  have tg: "the_mgr (Some g) w2 = g" by (simp add: the_mgr_def)
  from schedule_ok [of "Some g" w2 mg "mgr_time mg + n" ?a ?t ops] inv2 mg n tg w2(1) obtain w' where
    w': "hlt_timer_mgr_schedule ops (Some g) (mgr_time mg + n) ?a w2 = Some w'" "mgr_inv g w'" "pri (tw_timers w') ?a = mgr_time mg + n"
      "erase w' = erase w2" "clocks w' = clocks w2" "link_of (tw_timers w') = (link_of (tw_timers w2))(?a \<mapsto> (Some g, c))"
      "\<forall>b. b \<noteq> ?a \<longrightarrow> pri (tw_timers w') b = pri (tw_timers w2) b" by auto
  have old: "link_of (tw_timers w') b = Some (Some g, d) \<and> pri (tw_timers w') b = pri (tw_timers w) b" if "(b, d) \<in> L" for b d
  proof -
    have "b \<noteq> ?a" using l(2) [OF that] fa by (auto simp: link_of_def)
    then show ?thesis using l(2) [OF that] w' w2(1) by (simp add: link_of_def pri_def)
  qed
  have "links_ok (Some g) n (insert (?a, c) L) w'"
    unfolding links_ok_def using w'(2,3,5,6) old l(3) mg(2) ck by (auto simp del: not_None_eq)
  moreover have "fresh_timers w'"
    unfolding fresh_timers_def
  proof (intro allI impI)
    fix b assume "tw_next w' \<le> b"
    then have b: "?a < b" using arg_cong [OF w'(4), of tw_next] w2(3) by (simp add: erase_def)
    then have "link_of (tw_timers w') b = link_of (tw_timers w) b" using w'(6) w2(1) by (simp add: link_of_def)
    then show "tw_timers w' b = None" using fr b by (auto simp: fresh_timers_def link_of_def)
  qed
  ultimately show ?thesis using w'(1,4,5) mg(3) now ck by auto
qed

section \<open>Contents of a table\<close>

lemma entries_without:
  assumes "wf_type ty" "kh_keys_ok ty h" "s \<in> slots h"
  shows "entry h ` (slots h - {s}) = entries h - {entry h s}"
  unfolding entries_def using inj_on_image_set_diff [OF entry_inj [OF assms(1,2)], of "slots h" "{s}"] assms(3) by simp

lemma kh_inv_shape: "kh_inv ty h \<Longrightarrow> s \<in> slots h \<Longrightarrow> kh_shape h"
  by (auto simp: kh_inv_def)

lemma slot_bounds:
  assumes "kh_inv ty h" "s \<in> slots h"
  shows "s < length (kh_keys h)" "s < length (kh_vals h)" "s < kh_n_buckets h" "s < 16 * length (kh_flags h)"
  using kh_inv_shape [OF assms] assms(2) flags_long [of h s] by (auto simp: kh_shape_def slots_def)

text \<open>Assigning the value of a slot.\<close>

lemma kh_set_value_ok:
  assumes inv: "kh_inv ty h" and s: "s \<in> slots h"
  shows "\<exists>h'. kh_set_value h s v = Some h' \<and> kh_inv ty h' \<and> slots h' = slots h \<and> kh_keys h' = kh_keys h \<and>
    kh_vals h' = (kh_vals h)[s := Some v] \<and> kh_n_buckets h' = kh_n_buckets h \<and> kh_size h' = kh_size h \<and>
    entries h' = insert (kh_keys h ! s, Some v) (entry h ` (slots h - {s})) \<and> (\<forall>x i. kh_at ty h' x i \<longleftrightarrow> kh_at ty h x i)"
proof -
  let ?h = "h\<lparr>kh_vals := (kh_vals h)[s := Some v]\<rparr>"
  note b = slot_bounds [OF inv s]
  have ne: "h \<noteq> kh_init" using s by auto
  have sl: "slots ?h = slots h" by (simp add: slots_def)
  have "kh_inv ty ?h" using inv ne b
    by (auto simp: kh_inv_def kh_shape_def kh_keys_ok_def kh_counts_def sl)
  moreover have "entry ?h i = (if i = s then (kh_keys h ! s, Some v) else entry h i)" if "i \<in> slots h" for i
    using that b by (auto simp: entry_def)
  then have "entries ?h = insert (kh_keys h ! s, Some v) (entry h ` (slots h - {s}))"
    unfolding entries_def sl using s by (auto simp: image_iff)
  ultimately show ?thesis using b
    by (intro exI [of _ ?h]) (auto simp: kh_set_value_def wr_Some kh_at_def sl)
qed

lemma entry_in: "s \<in> slots h \<Longrightarrow> (kh_keys h ! s, kh_vals h ! s) \<in> entries h"
  by (auto simp: entries_def entry_def)

lemma kh_value_at:
  assumes "kh_inv ty h" "s \<in> slots h"
  shows "kh_value h s = kh_vals h ! s" "kh_key h s = kh_keys h ! s"
  using slot_bounds [OF assms] by (simp_all add: kh_value_def kh_key_def rd_Some)

text \<open>
  The timers of the entries, where \<open>tmr\<close> selects the timer of a slot's value and \<open>ck\<close> makes the cookie for a key.
\<close>

definition tlinks :: "(val \<Rightarrow> timer_cookie) \<Rightarrow> ('v \<Rightarrow> ptr) \<Rightarrow> (val option \<times> 'v option) set \<Rightarrow> (addr \<times> timer_cookie) set" where
  "tlinks ck tmr M = {(a, ck k) | a k v. (Some k, Some v) \<in> M \<and> tmr v = Some a}"

lemma tlinks_insert: "tlinks ck tmr (insert (Some k, Some v) M) = (case tmr v of None \<Rightarrow> {} | Some a \<Rightarrow> {(a, ck k)}) \<union> tlinks ck tmr M"
  by (auto simp: tlinks_def split: option.splits)

lemma tlinks_mono: "M \<subseteq> M' \<Longrightarrow> tlinks ck tmr M \<subseteq> tlinks ck tmr M'"
  by (auto simp: tlinks_def)

text \<open>Entries of which all have a key and a value.\<close>

definition full :: "('v \<Rightarrow> bool) \<Rightarrow> (val option \<times> 'v option) set \<Rightarrow> bool" where
  "full P M \<longleftrightarrow> (\<forall>e\<in>M. \<exists>k v. e = (Some k, Some v) \<and> P v)"

definition kvs :: "('v \<Rightarrow> 'x) \<Rightarrow> (val option \<times> 'v option) set \<Rightarrow> (val \<times> 'x) set" where
  "kvs f M = {(k, f v) | k v. (Some k, Some v) \<in> M}"

lemma kvs_insert: "kvs f (insert (Some k, Some v) M) = insert (k, f v) (kvs f M)"
  by (auto simp: kvs_def)

lemma full_insert: "full P (insert (Some k, Some v) M) \<longleftrightarrow> P v \<and> full P M"
  by (simp add: full_def)

lemma full_mono: "full P M \<Longrightarrow> M' \<subseteq> M \<Longrightarrow> full P M'"
  unfolding full_def by blast

lemma kvs_empty:
  assumes "full P M" "kvs f M = {}" shows "M = {}"
proof (rule equals0I)
  fix e assume e: "e \<in> M"
  then obtain k v where "e = (Some k, Some v)" using assms(1) by (auto simp: full_def)
  then have "(k, f v) \<in> kvs f M" using e by (auto simp: kvs_def)
  then show False using assms(2) by simp
qed

lemma full_at:
  assumes "full P (entries h)" "s \<in> slots h"
  shows "\<exists>k v. kh_keys h ! s = Some k \<and> kh_vals h ! s = Some v \<and> P v \<and> (Some k, Some v) \<in> entries h"
  using entry_in [OF assms(2)] assms(1) unfolding full_def by fastforce

text \<open>No two keys of the content are equal.\<close>

lemma kvs_unique:
  assumes "wf_type ty" "kh_inv ty h" "(Some k, v) \<in> entries h" "(Some k', v') \<in> entries h" "ti_equal ty k k'"
  shows "k = k' \<and> v = v'"
proof -
  from assms(3,4) obtain i j where ij: "i \<in> slots h" "kh_keys h ! i = Some k" "kh_vals h ! i = v"
    "j \<in> slots h" "kh_keys h ! j = Some k'" "kh_vals h ! j = v'" by (auto simp: entries_def entry_def)
  then have "i = j" using kh_keys_ok_inv [OF assms(2)] assms(5) unfolding kh_keys_ok_def by fastforce
  then show ?thesis using ij by simp
qed

lemma card_kvs:
  assumes "wf_type ty" "kh_inv ty h" "full P (entries h)"
  shows "card (kvs f (entries h)) = kh_size h"
proof -
  let ?g = "\<lambda>e. (the (fst e), f (the (snd e)))"
  have "kvs f (entries h) = ?g ` entries h"
    using assms(3) unfolding kvs_def full_def by (force simp: image_iff)
  moreover have "inj_on ?g (entries h)"
  proof (rule inj_onI)
    fix a b assume ab: "a \<in> entries h" "b \<in> entries h" "?g a = ?g b"
    obtain k v k' v' where "a = (Some k, Some v)" "b = (Some k', Some v')" using assms(3) ab unfolding full_def by metis
    then show "a = b" using kvs_unique [OF assms(1,2), of k "Some v" k' "Some v'"] ab wf_typeD(1) [OF assms(1)] by auto
  qed
  ultimately show ?thesis using card_entries [OF assms(1,2)] by (simp add: card_image)
qed

lemma kh_at_kvs:
  assumes "kh_inv ty h" "full P (entries h)"
  shows "(\<exists>i. kh_at ty h x i) \<longleftrightarrow> (\<exists>k y. (k, y) \<in> kvs f (entries h) \<and> ti_equal ty k x)"
proof -
  have "(\<exists>i. kh_at ty h x i) \<longleftrightarrow> (\<exists>v k. (Some k, v) \<in> entries h \<and> ti_equal ty k x)"
    using kh_at_entries [OF kh_keys_ok_inv [OF assms(1)], of x] by metis
  also have "\<dots> \<longleftrightarrow> (\<exists>k y. (k, y) \<in> kvs f (entries h) \<and> ti_equal ty k x)"
    using assms(2) unfolding kvs_def full_def by fastforce
  finally show ?thesis .
qed

section \<open>Association lists\<close>

definition al_lookup :: "'k type_info \<Rightarrow> ('k \<times> 'x) list \<Rightarrow> 'k \<Rightarrow> 'x option" where
  "al_lookup ty al x = map_option snd (find (\<lambda>p. ti_equal ty (fst p) x) al)"

definition al_has :: "'k type_info \<Rightarrow> ('k \<times> 'x) list \<Rightarrow> 'k \<Rightarrow> bool" where
  "al_has ty al x \<longleftrightarrow> (\<exists>p\<in>set al. ti_equal ty (fst p) x)"

text \<open>An insertion keeps the key that is already there.\<close>

definition al_insert :: "'k type_info \<Rightarrow> ('k \<times> 'x) list \<Rightarrow> 'k \<Rightarrow> 'x \<Rightarrow> ('k \<times> 'x) list" where
  "al_insert ty al x y =
     (if al_has ty al x then map (\<lambda>p. if ti_equal ty (fst p) x then (fst p, y) else p) al else al @ [(x, y)])"

definition al_remove :: "'k type_info \<Rightarrow> ('k \<times> 'x) list \<Rightarrow> 'k \<Rightarrow> ('k \<times> 'x) list" where
  "al_remove ty al x = filter (\<lambda>p. \<not> ti_equal ty (fst p) x) al"

definition al_ok :: "'k type_info \<Rightarrow> ('k \<times> 'x) list \<Rightarrow> bool" where
  "al_ok ty al \<longleftrightarrow> sorted_wrt (\<lambda>p q. \<not> ti_equal ty (fst p) (fst q)) al"

lemma al_ok_unique:
  assumes "wf_type ty" "al_ok ty al" "p \<in> set al" "q \<in> set al" "ti_equal ty (fst p) x" "ti_equal ty (fst q) x"
  shows "p = q"
proof -
  note e = wf_typeD [OF assms(1)]
  obtain i j where ij: "i < length al" "p = al ! i" "j < length al" "q = al ! j" using assms(3,4) by (metis in_set_conv_nth)
  have "ti_equal ty (fst p) (fst q)" "ti_equal ty (fst q) (fst p)" using e(2,3) assms(5,6) by metis+
  then have "\<not> i < j" "\<not> j < i" using ij assms(2) unfolding al_ok_def by (auto dest: sorted_wrt_nth_less)
  then show ?thesis using ij by (metis linorder_neqE_nat)
qed

lemma al_lookup_ok:
  assumes "wf_type ty" "al_ok ty al"
  shows "(k, y) \<in> set al \<Longrightarrow> ti_equal ty k x \<Longrightarrow> al_lookup ty al x = Some y" "\<not> al_has ty al x \<Longrightarrow> al_lookup ty al x = None"
proof -
  show "al_lookup ty al x = Some y" if k: "(k, y) \<in> set al" "ti_equal ty k x"
  proof (cases "find (\<lambda>p. ti_equal ty (fst p) x) al")
    case None
    then show ?thesis using k by (auto simp: find_None_iff)
  next
    case (Some p)
    then have "p \<in> set al" "ti_equal ty (fst p) x" by (auto simp: find_Some_iff)
    then show ?thesis using Some al_ok_unique [OF assms _ k(1)] k(2) by (fastforce simp: al_lookup_def)
  qed
  show "al_lookup ty al x = None" if "\<not> al_has ty al x"
    using that by (auto simp: al_lookup_def al_has_def find_None_iff)
qed

lemma al_distinct: "wf_type ty \<Longrightarrow> al_ok ty al \<Longrightarrow> distinct al"
  unfolding al_ok_def by (induction al) (auto dest: wf_typeD(1))

lemma al_length: "wf_type ty \<Longrightarrow> al_ok ty al \<Longrightarrow> length al = card (set al)"
  using al_distinct distinct_card by metis

lemma al_remove_ok: "al_ok ty al \<Longrightarrow> al_ok ty (al_remove ty al x)"
  by (simp add: al_ok_def al_remove_def sorted_wrt_filter)

lemma al_insert_ok:
  assumes "wf_type ty" "al_ok ty al"
  shows "al_ok ty (al_insert ty al x y)"
proof (cases "al_has ty al x")
  case True
  have eq: "fst (if ti_equal ty (fst p) x then (fst p, y) else p) = fst p" for p by simp
  show ?thesis using True assms(2) by (simp add: al_insert_def al_ok_def sorted_wrt_map eq)
next
  case False
  then show ?thesis using assms(2) by (auto simp: al_insert_def al_ok_def al_has_def sorted_wrt_append)
qed

lemma al_insert_set:
  assumes "wf_type ty" "al_ok ty al" "(k, u) \<in> set al" "ti_equal ty k x"
  shows "set (al_insert ty al x y) = insert (k, y) (set al - {(k, u)})"
proof -
  have has: "al_has ty al x" using assms(3,4) by (force simp: al_has_def)
  have uni: "p = (k, u)" if "p \<in> set al" "ti_equal ty (fst p) x" for p
    using al_ok_unique [OF assms(1,2) that(1) assms(3) that(2)] assms(4) by simp
  let ?f = "\<lambda>p. if ti_equal ty (fst p) x then (fst p, y) else p"
  have "?f ` set al = insert (k, y) (set al - {(k, u)})"
  proof (intro equalityI subsetI)
    fix q assume "q \<in> ?f ` set al"
    then obtain p where p: "p \<in> set al" "q = ?f p" by blast
    then show "q \<in> insert (k, y) (set al - {(k, u)})" using uni [OF p(1)] assms(4) by (cases "ti_equal ty (fst p) x") auto
  next
    fix q assume q: "q \<in> insert (k, y) (set al - {(k, u)})"
    show "q \<in> ?f ` set al"
    proof (cases "q = (k, y)")
      case True
      then show ?thesis using assms(3,4) by (intro image_eqI [of _ _ "(k, u)"]) auto
    next
      case False
      then have q': "q \<in> set al" "q \<noteq> (k, u)" using q by auto
      then have "?f q = q" using uni [OF q'(1)] by auto
      from image_eqI [where f = ?f, OF this [symmetric] q'(1)] show ?thesis .
    qed
  qed
  then show ?thesis using has by (simp add: al_insert_def)
qed

lemma al_remove_set:
  assumes "wf_type ty" "al_ok ty al" "(k, u) \<in> set al" "ti_equal ty k x"
  shows "set (al_remove ty al x) = set al - {(k, u)}"
proof -
  have "ti_equal ty (fst p) x \<longleftrightarrow> p = (k, u)" if "p \<in> set al" for p
    using al_ok_unique [OF assms(1,2) that assms(3), of x] assms(4) by auto
  then show ?thesis by (auto simp: al_remove_def)
qed

section \<open>Dictionaries\<close>

datatype ('k, 'x) dict_op = DInsert 'k 'x | DRemove 'k | DLookup 'k | DExists 'k | DSize | DClear

datatype 'x dict_res = RUnit | RVal "'x option" | RBool bool | RNat nat

fun dspec_op :: "'k type_info \<Rightarrow> ('k, 'x) dict_op \<Rightarrow> ('k \<times> 'x) list \<Rightarrow> 'x dict_res \<times> ('k \<times> 'x) list" where
  "dspec_op ty (DInsert k x) al = (RUnit, al_insert ty al k x)"
| "dspec_op ty (DRemove k) al = (RUnit, al_remove ty al k)"
| "dspec_op ty (DLookup k) al = (RVal (al_lookup ty al k), al)"
| "dspec_op ty (DExists k) al = (RBool (al_has ty al k), al)"
| "dspec_op ty DSize al = (RNat (length al), al)"
| "dspec_op ty DClear al = (RUnit, [])"

fun dspec_run :: "'k type_info \<Rightarrow> ('k, 'x) dict_op list \<Rightarrow> ('k \<times> 'x) list \<Rightarrow> 'x dict_res list \<times> ('k \<times> 'x) list" where
  "dspec_run ty [] al = ([], al)"
| "dspec_run ty (a # as) al =
     (let (r, al1) = dspec_op ty a al; (rs, al2) = dspec_run ty as al1 in (r # rs, al2))"

fun run_dict :: "(('k, 'x) dict_op \<Rightarrow> 'w \<Rightarrow> ('x dict_res \<times> 'w) option) \<Rightarrow> ('k, 'x) dict_op list \<Rightarrow> 'w \<Rightarrow> ('x dict_res list \<times> 'w) option" where
  "run_dict step [] w = Some ([], w)"
| "run_dict step (a # as) w = do {
     (r, w1) \<leftarrow> step a w;
     (rs, w2) \<leftarrow> run_dict step as w1;
     Some (r # rs, w2)
   }"

text \<open>
  A dictionary may have a default \<open>d\<close>, which a lookup without entry returns; without one such a lookup returns nothing
  and raises an index error. \<open>dspec_excpt\<close> is the exception that a sequence of operations leaves behind.
\<close>

fun fill :: "'x option \<Rightarrow> 'x dict_res \<Rightarrow> 'x dict_res" where
  "fill d (RVal None) = RVal d"
| "fill d r = r"

fun op_excpt :: "'k type_info \<Rightarrow> 'x option \<Rightarrow> ('k, 'x) dict_op \<Rightarrow> ('k \<times> 'x) list \<Rightarrow> exn option \<Rightarrow> exn option" where
  "op_excpt ty d (DLookup k) al e = (if al_has ty al k \<or> d \<noteq> None then e else Some IndexError)"
| "op_excpt ty d a al e = e"

fun dspec_excpt :: "'k type_info \<Rightarrow> 'x option \<Rightarrow> ('k, 'x) dict_op list \<Rightarrow> ('k \<times> 'x) list \<Rightarrow> exn option \<Rightarrow> exn option" where
  "dspec_excpt ty d [] al e = e"
| "dspec_excpt ty d (a # as) al e = dspec_excpt ty d as (snd (dspec_op ty a al)) (op_excpt ty d a al e)"

lemma fill_None [simp]: "fill None r = r"
  by (cases "(None :: 'a option, r)" rule: fill.cases) simp_all

lemma map_fill_None [simp]: "map (fill None) rs = rs"
  by (induction rs) simp_all

lemma fill_RVal: "fill d (RVal v) = RVal (case v of None \<Rightarrow> d | Some x \<Rightarrow> Some x)"
  by (cases v) simp_all

text \<open>
  What a container of up to \<open>cap\<close> entries promises: it stands for an association list, and each operation does and returns what it does on the list.
\<close>

locale dictionary =
  fixes ty :: "'k type_info" and cap :: nat and d :: "'x option" and inv :: "('k \<times> 'x) list \<Rightarrow> 'w \<Rightarrow> bool"
    and step :: "('k, 'x) dict_op \<Rightarrow> 'w \<Rightarrow> ('x dict_res \<times> 'w) option"
  assumes insert_law: "inv al w \<Longrightarrow> length al < cap \<Longrightarrow> \<exists>w'. step (DInsert k x) w = Some (RUnit, w') \<and> inv (al_insert ty al k x) w'"
    and remove_law: "inv al w \<Longrightarrow> \<exists>w'. step (DRemove k) w = Some (RUnit, w') \<and> inv (al_remove ty al k) w'"
    and lookup_law: "inv al w \<Longrightarrow> \<exists>w'. step (DLookup k) w = Some (fill d (RVal (al_lookup ty al k)), w') \<and> inv al w'"
    and exists_law: "inv al w \<Longrightarrow> \<exists>w'. step (DExists k) w = Some (RBool (al_has ty al k), w') \<and> inv al w'"
    and size_law: "inv al w \<Longrightarrow> \<exists>w'. step DSize w = Some (RNat (length al), w') \<and> inv al w'"
    and clear_law: "inv al w \<Longrightarrow> \<exists>w'. step DClear w = Some (RUnit, w') \<and> inv [] w'"
begin

lemma step_follows:
  assumes "inv al w" "length al < cap"
  shows "\<exists>w'. step a w = Some (fill d (fst (dspec_op ty a al)), w') \<and> inv (snd (dspec_op ty a al)) w'"
  using insert_law [OF assms] remove_law [OF assms(1)] lookup_law [OF assms(1)] exists_law [OF assms(1)] size_law [OF assms(1)]
    clear_law [OF assms(1)] by (cases a) simp_all

lemma spec_length: "length (snd (dspec_op ty a al)) \<le> Suc (length al)"
  by (cases a) (auto simp: al_insert_def al_remove_def intro: le_SucI)

lemma run_follows:
  assumes "inv al w" "length al + length as \<le> cap"
  shows "\<exists>w'. run_dict step as w = Some (map (fill d) (fst (dspec_run ty as al)), w') \<and> inv (snd (dspec_run ty as al)) w'"
  using assms
proof (induction as arbitrary: al w)
  case (Cons a as)
  from step_follows [OF Cons.prems(1), of a] Cons.prems(2) obtain w1 where
    w1: "step a w = Some (fill d (fst (dspec_op ty a al)), w1)" "inv (snd (dspec_op ty a al)) w1" by auto
  have "length (snd (dspec_op ty a al)) + length as \<le> cap" using spec_length [of a al] Cons.prems(2) by simp
  from Cons.IH [OF w1(2) this] w1(1) show ?case by (auto simp: split_beta Let_def)
qed simp

end

text \<open>A dictionary that reports errors: each operation leaves the exception that the specification says.\<close>

locale raising_dictionary = dictionary +
  fixes excpt :: "'c \<Rightarrow> exn option"
  assumes excpt_law: "inv al w \<Longrightarrow> length al < cap \<Longrightarrow> step a w = Some (r, w') \<Longrightarrow> excpt w' = op_excpt ty d a al (excpt w)"
begin

lemma run_excpt:
  assumes "inv al w" "length al + length as \<le> cap"
  shows "\<exists>w'. run_dict step as w = Some (map (fill d) (fst (dspec_run ty as al)), w') \<and> inv (snd (dspec_run ty as al)) w' \<and>
    excpt w' = dspec_excpt ty d as al (excpt w)"
  using assms
proof (induction as arbitrary: al w)
  case (Cons a as)
  from step_follows [OF Cons.prems(1), of a] Cons.prems(2) obtain w1 where
    w1: "step a w = Some (fill d (fst (dspec_op ty a al)), w1)" "inv (snd (dspec_op ty a al)) w1" by auto
  have e: "excpt w1 = op_excpt ty d a al (excpt w)" by (rule excpt_law [OF Cons.prems(1) _ w1(1)]) (use Cons.prems(2) in simp)
  have "length (snd (dspec_op ty a al)) + length as \<le> cap" using spec_length [of a al] Cons.prems(2) by simp
  from Cons.IH [OF w1(2) this] w1(1) e show ?case by (auto simp: split_beta Let_def)
qed simp

end

section \<open>Tables with timers\<close>

text \<open>
  The invariant that maps and sets share: the table is in order, all its entries have been assigned (\<open>P\<close>), and the timers of the
  entries are linked to them.
\<close>

definition tab_ok :: "(val \<Rightarrow> timer_cookie) \<Rightarrow> ('v \<Rightarrow> ptr) \<Rightarrow> ('v \<Rightarrow> bool) \<Rightarrow> val type_info \<Rightarrow> ptr \<Rightarrow> nat \<Rightarrow> (val, 'v) khash \<Rightarrow> 'a timer_world_scheme \<Rightarrow> bool" where
  "tab_ok ck tmr P ty tm n h w \<longleftrightarrow> wf_type ty \<and> kh_inv ty h \<and> kh_n_buckets h \<in> set (0 # small_sizes) \<and> full P (entries h) \<and>
     links_ok tm n (tlinks ck tmr (entries h)) w \<and> (tm = None \<longrightarrow> tlinks ck tmr (entries h) = {})"

lemma tab_okD:
  assumes "tab_ok ck tmr P ty tm n h w"
  shows "wf_type ty" "kh_inv ty h" "kh_n_buckets h \<in> set (0 # small_sizes)" "full P (entries h)" "links_ok tm n (tlinks ck tmr (entries h)) w"
    "tm = None \<Longrightarrow> tlinks ck tmr (entries h) = {}" "kh_keys_ok ty h"
  using assms kh_keys_ok_inv unfolding tab_ok_def by blast+

lemma tab_ok_links: "tab_ok ck tmr P ty tm n h w \<Longrightarrow> links_ok tm n (tlinks ck tmr (entries h)) w' \<Longrightarrow> tab_ok ck tmr P ty tm n h w'"
  by (simp add: tab_ok_def)

lemma tab_ok_cong:
  "tw_timers w' = tw_timers w \<Longrightarrow> tw_mgrs w' = tw_mgrs w \<Longrightarrow> tab_ok ck tmr P ty tm n h w' \<longleftrightarrow> tab_ok ck tmr P ty tm n h w"
  unfolding tab_ok_def using links_ok_cong [of w' w] by simp

text \<open>An entry's timer is linked.\<close>

lemma tab_timer:
  assumes "tab_ok ck tmr P ty tm n h w" "(Some k, Some v) \<in> entries h" "tmr v = Some a"
  shows "\<exists>g. tm = Some g \<and> (a, ck k) \<in> tlinks ck tmr (entries h)"
proof -
  have "(a, ck k) \<in> tlinks ck tmr (entries h)" using assms(2,3) by (auto simp: tlinks_def)
  then show ?thesis using tab_okD(6) [OF assms(1)] by (cases tm) auto
qed

lemma tab_access:
  assumes ok: "tab_ok ck tmr P ty tm n h w" and e: "(Some k, Some v) \<in> entries h" and a: "tmr v = Some a" and fit: "clock_fits tm n w"
  shows "\<exists>now w'. hlt_timer_mgr_current tm w = Some now \<and> hlt_timer_update ops (Some a) (add64 now n) w = Some w' \<and>
    tab_ok ck tmr P ty tm n h w' \<and> erase w' = erase w \<and> clocks w' = clocks w \<and> link_of (tw_timers w') = link_of (tw_timers w)"
proof -
  from tab_timer [OF ok e a] obtain g where g: "tm = Some g" "(a, ck k) \<in> tlinks ck tmr (entries h)" by blast
  from update_link [OF tab_okD(5) [OF ok, unfolded g(1)] g(2) fit [unfolded g(1)], of ops] show ?thesis
    unfolding g(1) using tab_ok_links [OF ok [unfolded g(1)]] by blast
qed

text \<open>Cancelling the timer of one slot, among the slots \<open>T\<close> of which the timers are still linked.\<close>

lemma slot_cancel:
  assumes ok: "tab_ok ck tmr P ty tm n h w0" and T: "i \<in> T" "T \<subseteq> slots h" and v: "kh_vals h ! i = Some v" and inj: "inj ck"
    and L: "links_ok tm n (tlinks ck tmr (entry h ` T)) w"
  shows "\<exists>w'. (if tmr v \<noteq> None then hlt_timer_cancel (tmr v) w else Some w) = Some w' \<and>
    links_ok tm n (tlinks ck tmr (entry h ` (T - {i}))) w' \<and> erase w' = erase w \<and> clocks w' = clocks w \<and>
    (\<forall>b. link_of (tw_timers w) b = None \<longrightarrow> link_of (tw_timers w') b = None)"
proof (cases "tmr v")
  case None
  then show ?thesis using links_ok_mono [OF L tlinks_mono [OF image_mono [OF Diff_subset]]] by auto
next
  case (Some a)
  have i: "i \<in> slots h" using T by blast
  from full_at [OF tab_okD(4) [OF ok] i] v obtain k where k: "kh_keys h ! i = Some k" "(Some k, Some v) \<in> entries h" by auto
  have e: "entry h i = (Some k, Some v)" using k v by (simp add: entry_def)
  from tab_timer [OF ok k(2) Some] obtain g where g: "tm = Some g" by blast
  have "(Some k, Some v) \<in> entry h ` T" using imageI [OF T(1), of "entry h"] e by simp
  then have a: "(a, ck k) \<in> tlinks ck tmr (entry h ` T)" using Some by (auto simp: tlinks_def)
  from cancel_link [OF L [unfolded g] a] obtain w' where
    w': "hlt_timer_cancel (Some a) w = Some w'" "links_ok (Some g) n (tlinks ck tmr (entry h ` T) - {(a, ck k)}) w'" "erase w' = erase w"
      "clocks w' = clocks w" "\<forall>b. link_of (tw_timers w) b = None \<longrightarrow> link_of (tw_timers w') b = None" by blast
  have "(a, ck k) \<notin> tlinks ck tmr (entry h ` (T - {i}))"
  proof
    assume "(a, ck k) \<in> tlinks ck tmr (entry h ` (T - {i}))"
    then obtain ka u where ka: "ck k = ck ka" "(Some ka, Some u) \<in> entry h ` (T - {i})" by (auto simp: tlinks_def)
    from ka(2) obtain j where "(Some ka, Some u) = entry h j" and T': "j \<in> T - {i}" by (rule imageE)
    then have j: "j \<in> T - {i}" "kh_keys h ! j = Some k" using injD [OF inj ka(1)] by (simp_all add: entry_def)
    then show False using tab_okD(7) [OF ok] i T(2) k(1) wf_typeD(1) [OF tab_okD(1) [OF ok], of k] unfolding kh_keys_ok_def
      by (metis DiffD1 DiffD2 insertI1 option.sel subsetD)
  qed
  then have "tlinks ck tmr (entry h ` (T - {i})) \<subseteq> tlinks ck tmr (entry h ` T) - {(a, ck k)}"
    using tlinks_mono [of "entry h ` (T - {i})" "entry h ` T" ck tmr] by blast
  then show ?thesis using links_ok_mono [OF w'(2)] w' Some g(1) by auto
qed

lemma tab_cancel:
  assumes ok: "tab_ok ck tmr P ty tm n h w" and i: "i \<in> slots h" "kh_vals h ! i = Some v" and inj: "inj ck"
  shows "\<exists>w'. (if tmr v \<noteq> None then hlt_timer_cancel (tmr v) w else Some w) = Some w' \<and>
    links_ok tm n (tlinks ck tmr (entries h - {entry h i})) w' \<and> erase w' = erase w \<and> clocks w' = clocks w \<and>
    (\<forall>b. link_of (tw_timers w) b = None \<longrightarrow> link_of (tw_timers w') b = None)"
  using slot_cancel [OF ok i(1) subset_refl i(2) inj tab_okD(5) [OF ok, unfolded entries_def]] entries_without [OF tab_okD(1,7) [OF ok] i(1)]
  by simp

text \<open>Deleting an entry from the table.\<close>

lemma slot_delete:
  assumes ty: "wf_type ty" and inv: "kh_inv ty h" and i: "i \<in> slots h"
  shows "\<exists>h1 h2. kh_set_value h i u = Some h1 \<and> kh_del h1 i = Some h2 \<and> kh_key h1 i = kh_keys h ! i \<and>
    entries h2 = entries h - {entry h i} \<and> kh_inv ty h2 \<and> kh_n_buckets h2 = kh_n_buckets h"
proof -
  from kh_set_value_ok [OF inv i, of u] obtain h1 where
    h1: "kh_set_value h i u = Some h1" "kh_inv ty h1" "slots h1 = slots h" "kh_keys h1 = kh_keys h" "kh_vals h1 = (kh_vals h)[i := Some u]"
      "kh_n_buckets h1 = kh_n_buckets h" by blast
  from kh_del_ok [OF ty h1(2), of i] i h1(3) obtain h2 where
    h2: "kh_del h1 i = Some h2" "kh_inv ty h2" "entries h2 = entry h1 ` (slots h1 - {i})" "kh_n_buckets h2 = kh_n_buckets h1" by auto
  have "entry h1 j = entry h j" if "j \<in> slots h - {i}" for j using that h1(4,5) by (simp add: entry_def)
  then have "entries h2 = entries h - {entry h i}" using h2(3) h1(3) entries_without [OF ty kh_keys_ok_inv [OF inv] i] by simp
  then show ?thesis using h1 h2 kh_value_at(2) [OF h1(2)] i by auto
qed

lemma tab_delete:
  assumes ok: "tab_ok ck tmr P ty tm n h w" and i: "i \<in> slots h"
    and L: "links_ok tm n (tlinks ck tmr (entries h - {entry h i})) w'"
  shows "\<exists>h1 h2. kh_set_value h i u = Some h1 \<and> kh_del h1 i = Some h2 \<and> kh_key h1 i = kh_keys h ! i \<and>
    entries h2 = entries h - {entry h i} \<and> tab_ok ck tmr P ty tm n h2 w'"
proof -
  note t = tab_okD [OF ok]
  from slot_delete [OF t(1,2) i, of u] obtain h1 h2 where
    h: "kh_set_value h i u = Some h1" "kh_del h1 i = Some h2" "kh_key h1 i = kh_keys h ! i" "entries h2 = entries h - {entry h i}"
      "kh_inv ty h2" "kh_n_buckets h2 = kh_n_buckets h" by blast
  have "tab_ok ck tmr P ty tm n h2 w'"
    unfolding tab_ok_def h(4) using t h(5,6) L full_mono [OF t(4)] tlinks_mono [of "entries h - {entry h i}" "entries h" ck tmr] by auto
  then show ?thesis using h by blast
qed

text \<open>Replacing the value of an entry.\<close>

lemma tab_replace:
  assumes ok: "tab_ok ck tmr P ty tm n h w" and i: "i \<in> slots h" and k: "kh_keys h ! i = Some k" "kh_vals h ! i = Some v"
    and v': "P v'" "tmr v' = tmr v"
  shows "\<exists>h'. kh_set_value h i v' = Some h' \<and> entries h' = insert (Some k, Some v') (entries h - {(Some k, Some v)}) \<and> tab_ok ck tmr P ty tm n h' w"
proof -
  note t = tab_okD [OF ok]
  from kh_set_value_ok [OF t(2) i, of v'] obtain h' where
    h': "kh_set_value h i v' = Some h'" "kh_inv ty h'" "kh_n_buckets h' = kh_n_buckets h"
      "entries h' = insert (kh_keys h ! i, Some v') (entry h ` (slots h - {i}))" by blast
  have e: "entries h' = insert (Some k, Some v') (entries h - {(Some k, Some v)})"
    using h'(4) entries_without [OF t(1,7) i] k by (simp add: entry_def)
  have "(Some k, Some v) \<in> entries h" using entry_in [OF i] k by simp
  then have "entries h = insert (Some k, Some v) (entries h - {(Some k, Some v)})" by blast
  then have "tlinks ck tmr (entries h') = tlinks ck tmr (entries h)" using v'(2) unfolding e by (metis tlinks_insert)
  moreover have "full P (entries h')" using full_mono [OF t(4), of "entries h - {(Some k, Some v)}"] v'(1) unfolding e by (auto simp: full_insert)
  ultimately have "tab_ok ck tmr P ty tm n h' w" unfolding tab_ok_def using t h'(2,3) by auto
  then show ?thesis using h'(1) e by blast
qed

text \<open>Finding or adding a key. A table with one key more than another:\<close>

definition one_new :: "val type_info \<Rightarrow> (val, 'v) khash \<Rightarrow> (val, 'v) khash \<Rightarrow> nat \<Rightarrow> val \<Rightarrow> bool" where
  "one_new ty h h' s x \<longleftrightarrow> kh_inv ty h' \<and> kh_n_buckets h' \<in> set small_sizes \<and> s \<in> slots h' \<and> kh_keys h' ! s = Some x \<and>
     entry h' ` (slots h' - {s}) = entries h"

lemma one_new_set:
  assumes "one_new ty h h' s x"
  shows "\<exists>h''. kh_set_value h' s v = Some h'' \<and> one_new ty h h'' s x \<and> entries h'' = insert (Some x, Some v) (entries h) \<and> kh_value h'' s = Some v"
proof -
  have n: "kh_inv ty h'" "kh_n_buckets h' \<in> set small_sizes" "s \<in> slots h'" "kh_keys h' ! s = Some x" "entry h' ` (slots h' - {s}) = entries h"
    using assms by (simp_all add: one_new_def)
  from kh_set_value_ok [OF n(1,3), of v] obtain h'' where
    h: "kh_set_value h' s v = Some h''" "kh_inv ty h''" "slots h'' = slots h'" "kh_keys h'' = kh_keys h'" "kh_vals h'' = (kh_vals h')[s := Some v]"
      "kh_n_buckets h'' = kh_n_buckets h'" "entries h'' = insert (kh_keys h' ! s, Some v) (entry h' ` (slots h' - {s}))" by blast
  have "entry h'' j = entry h' j" if "j \<in> slots h' - {s}" for j using that h(4,5) by (simp add: entry_def)
  then have "one_new ty h h'' s x" using n h by (simp add: one_new_def)
  moreover have "kh_value h'' s = Some v"
    using kh_value_at(1) [OF h(2), of s] h(3,5) n(3) slot_bounds(2) [OF n(1,3)] by simp
  ultimately show ?thesis using h(1,7) n(4,5) by simp
qed

lemma put_new:
  assumes "wf_type ty" "kh_inv ty h" "kh_room h" "\<nexists>i. kh_at ty h x i"
  shows "\<exists>s r h'. kh_put ty h x = Some (s, r, h') \<and> r \<noteq> 0 \<and> one_new ty h h' s x"
proof -
  from kh_put_ok [OF assms(1-3), of x] assms(4) obtain s r h' where
    p: "kh_put ty h x = Some (s, r, h')" "kh_inv ty h'" "kh_n_buckets h' \<in> set small_sizes" "kh_at ty h' x s"
      "r \<noteq> 0 \<and> kh_keys h' ! s = Some x \<and> entry h' ` (slots h' - {s}) = entries h" by auto
  then show ?thesis by (auto simp: one_new_def kh_at_def)
qed

lemma tab_put:
  assumes ok: "tab_ok ck tmr P ty tm n h w" and sz: "kh_size h < 49159"
  shows "\<exists>i. kh_at ty h x i \<Longrightarrow> \<exists>s h'. kh_put ty h x = Some (s, 0, h') \<and> tab_ok ck tmr P ty tm n h' w \<and> entries h' = entries h \<and> kh_at ty h' x s"
    and "\<nexists>i. kh_at ty h x i \<Longrightarrow> \<exists>s r h'. kh_put ty h x = Some (s, r, h') \<and> r \<noteq> 0 \<and> one_new ty h h' s x"
proof -
  note t = tab_okD [OF ok]
  have room: "kh_room h" using t(3) sz by (simp add: kh_room_def)
  show "\<exists>s h'. kh_put ty h x = Some (s, 0, h') \<and> tab_ok ck tmr P ty tm n h' w \<and> entries h' = entries h \<and> kh_at ty h' x s"
    if "\<exists>i. kh_at ty h x i"
  proof -
    from kh_put_ok [OF t(1,2) room, of x] that obtain s h' where
      p: "kh_put ty h x = Some (s, 0, h')" "kh_inv ty h'" "kh_n_buckets h' \<in> set small_sizes" "kh_at ty h' x s" "entries h' = entries h" by auto
    then have "tab_ok ck tmr P ty tm n h' w" unfolding tab_ok_def using t by auto
    then show ?thesis using p by blast
  qed
  show "\<exists>s r h'. kh_put ty h x = Some (s, r, h') \<and> r \<noteq> 0 \<and> one_new ty h h' s x" if "\<nexists>i. kh_at ty h x i"
    by (rule put_new [OF t(1,2) room that])
qed

lemma tab_added:
  assumes ok: "tab_ok ck tmr P ty tm n h w" and new: "one_new ty h h' s x" and e: "entries h' = insert (Some x, Some v) (entries h)"
    and P: "P v" and L: "links_ok tm n (tlinks ck tmr (insert (Some x, Some v) (entries h))) w'" and n: "tm = None \<longrightarrow> tmr v = None"
  shows "tab_ok ck tmr P ty tm n h' w'"
  using tab_okD [OF ok] new P L n unfolding tab_ok_def e one_new_def by (auto simp: full_insert tlinks_insert)

lemma clearing_frees:
  assumes "kh_inv ty h" shows "entries (kh_clear h) = {}" "kh_n_buckets (kh_clear h) = kh_n_buckets h"
  using kh_clear_ok(2) [OF assms] by (simp_all add: entries_def kh_clear_def)

section \<open>Maps\<close>

abbreviation map_tab :: "addr \<Rightarrow> hlt_map \<Rightarrow> 'a map_world_scheme \<Rightarrow> bool" where
  "map_tab m M w \<equiv> tab_ok (CMap m) mv_timer (\<lambda>v. mv_val v \<noteq> None) (m_tkey M) (m_tmgr M) (m_timeout M) (m_hash M) w"

abbreviation map_val :: "khval_map \<Rightarrow> val" where
  "map_val v \<equiv> the (mv_val v)"

definition map_rep :: "addr \<Rightarrow> hlt_map \<Rightarrow> (val \<times> val) list \<Rightarrow> 'a map_world_scheme \<Rightarrow> bool" where
  "map_rep m M al w \<longleftrightarrow> mw_maps w m = Some M \<and> map_tab m M w \<and> al_ok (m_tkey M) al \<and> set al = kvs map_val (entries (m_hash M)) \<and>
     fresh_timers w \<and> clock_fits (m_tmgr M) (m_timeout M) w"

lemma put_map_simps [simp]:
  "mw_maps (put_map m M w) = (mw_maps w)(m \<mapsto> M)" "mw_sets (put_map m M w) = mw_sets w" "tw_timers (put_map m M w) = tw_timers w"
  "tw_mgrs (put_map m M w) = tw_mgrs w" "tw_next (put_map m M w) = tw_next w" "tw_ctx_tmgr (put_map m M w) = tw_ctx_tmgr w"
  "tw_excpt (put_map m M w) = tw_excpt w" "lw_nodes (put_map m M w) = lw_nodes w" "lw_lists (put_map m M w) = lw_lists w"
  "vw_vecs (put_map m M w) = vw_vecs w" "clocks (put_map m M w) = clocks w" "fresh_timers (put_map m M w) \<longleftrightarrow> fresh_timers w"
  by (simp_all add: put_map_def clocks_def fresh_timers_def fun_eq_iff)

lemma put_map_ok [simp]:
  "tab_ok ck tmr P ty tm n h (put_map m M w) \<longleftrightarrow> tab_ok ck tmr P ty tm n h w" "links_ok tm n L (put_map m M w) \<longleftrightarrow> links_ok tm n L w"
  "clock_fits tm n (put_map m M w) \<longleftrightarrow> clock_fits tm n w"
  by (rule tab_ok_cong, simp, simp) (rule links_ok_cong, simp, simp, simp add: clock_fits_def)

lemma excpt_simps [simp]:
  "tw_timers (hlt_set_exception e w) = tw_timers w" "tw_mgrs (hlt_set_exception e w) = tw_mgrs w" "tw_next (hlt_set_exception e w) = tw_next w"
  "mw_maps (hlt_set_exception e w1) = mw_maps w1" "mw_sets (hlt_set_exception e w1) = mw_sets w1"
  by (simp_all add: hlt_set_exception_def)

lemma excpt_ok [simp]:
  "tab_ok ck tmr P ty tm n h (hlt_set_exception e w) \<longleftrightarrow> tab_ok ck tmr P ty tm n h w"
  "fresh_timers (hlt_set_exception e w) \<longleftrightarrow> fresh_timers w" "clock_fits tm n (hlt_set_exception e w) \<longleftrightarrow> clock_fits tm n w"
  by (rule tab_ok_cong, simp, simp) (simp_all add: fresh_timers_def clock_fits_def clocks_def)

lemma erase_maps:
  assumes "erase w' = erase w"
  shows "mw_maps w' = mw_maps w" "mw_sets w' = mw_sets w" "tw_next w' = tw_next w" "tw_excpt w' = tw_excpt w"
  using arg_cong [OF assms, of mw_maps] arg_cong [OF assms, of mw_sets] arg_cong [OF assms, of tw_next] arg_cong [OF assms, of tw_excpt]
  by (simp_all add: erase_def)

lemma fresh_step:
  assumes "fresh_timers w" "tw_next w' = tw_next w" "\<forall>b. link_of (tw_timers w) b = None \<longrightarrow> link_of (tw_timers w') b = None"
  shows "fresh_timers w'"
  using assms unfolding fresh_timers_def link_of_def by auto

lemma clock_step: "clocks w' = clocks w \<Longrightarrow> clock_fits tm n w' \<longleftrightarrow> clock_fits tm n w"
  by (simp add: clock_fits_def)

lemma kvs_without:
  assumes "wf_type ty" "kh_inv ty h" "(Some k, Some v) \<in> entries h"
  shows "kvs f (entries h - {(Some k, Some v)}) = kvs f (entries h) - {(k, f v)}"
proof -
  have "v' = v" if "(Some k, Some v') \<in> entries h" for v'
    using kvs_unique [OF assms that] wf_typeD(1) [OF assms(1)] by auto
  then show ?thesis by (auto simp: kvs_def)
qed

lemma map_has:
  assumes "map_rep m M al w"
  shows "al_has (m_tkey M) al x \<longleftrightarrow> (\<exists>i. kh_at (m_tkey M) (m_hash M) x i)"
proof -
  have t: "map_tab m M w" "set al = kvs map_val (entries (m_hash M))" using assms by (simp_all add: map_rep_def)
  show ?thesis unfolding kh_at_kvs [OF tab_okD(2,4) [OF t(1)], of x map_val] al_has_def t(2) by force
qed

lemma map_slot:
  assumes "map_rep m M al w" "i \<in> slots (m_hash M)"
  shows "\<exists>k v x. kh_keys (m_hash M) ! i = Some k \<and> kh_vals (m_hash M) ! i = Some v \<and> mv_val v = Some x \<and>
    kh_value (m_hash M) i = Some v \<and> kh_key (m_hash M) i = Some k \<and> (Some k, Some v) \<in> entries (m_hash M) \<and> (k, x) \<in> set al"
proof -
  have t: "map_tab m M w" "set al = kvs map_val (entries (m_hash M))" using assms by (simp_all add: map_rep_def)
  from full_at [OF tab_okD(4) [OF t(1)] assms(2)] obtain k v x where
    "kh_keys (m_hash M) ! i = Some k" "kh_vals (m_hash M) ! i = Some v" "mv_val v = Some x" "(Some k, Some v) \<in> entries (m_hash M)" by auto
  moreover from this have "(k, x) \<in> set al" unfolding t(2) kvs_def by force
  ultimately show ?thesis using kh_value_at [OF tab_okD(2) [OF t(1)] assms(2)] by simp
qed

lemma map_rep_timers:
  assumes rep: "map_rep m M al w" and e: "erase w' = erase w" and c: "clocks w' = clocks w"
    and l: "\<forall>b. link_of (tw_timers w) b = None \<longrightarrow> link_of (tw_timers w') b = None" and t: "map_tab m M w'"
  shows "map_rep m M al w'"
  using rep t erase_maps [OF e] fresh_step [OF _ _ l] clock_step [OF c] unfolding map_rep_def by simp

lemma access_map_ok:
  assumes rep: "map_rep m M al w" and i: "i \<in> slots (m_hash M)"
  shows "\<exists>w'. access_map ops m i w = Some w' \<and> map_rep m M al w' \<and> tw_excpt w' = tw_excpt w"
proof -
  have M: "mw_maps w m = Some M" and t: "map_tab m M w" and fit: "clock_fits (m_tmgr M) (m_timeout M) w"
    using rep by (simp_all add: map_rep_def)
  from map_slot [OF rep i] obtain k v where
    v: "kh_value (m_hash M) i = Some v" "(Some k, Some v) \<in> entries (m_hash M)" by blast
  show ?thesis
  proof (cases "m_tmgr M = None \<or> \<not> hlt_enum_equal (m_strategy M) expire_strategy_access \<or> m_timeout M = 0 \<or> mv_timer v = None")
    case True
    then have "access_map ops m i w = Some w" using M v(1) by (auto simp: access_map_def)
    then show ?thesis using rep by blast
  next
    case False
    then obtain a where a: "mv_timer v = Some a" by auto
    from tab_access [OF t v(2) a fit, of ops] obtain now w' where
      w': "hlt_timer_mgr_current (m_tmgr M) w = Some now" "hlt_timer_update ops (Some a) (add64 now (m_timeout M)) w = Some w'"
        "map_tab m M w'" "erase w' = erase w" "clocks w' = clocks w" "link_of (tw_timers w') = link_of (tw_timers w)" by blast
    have "access_map ops m i w = Some w'" using False M v(1) a w'(1,2) by (auto simp: access_map_def)
    moreover have "map_rep m M al w'" by (rule map_rep_timers [OF rep w'(4,5) _ w'(3)]) (simp add: w'(6))
    ultimately show ?thesis using erase_maps(4) [OF w'(4)] by blast
  qed
qed

lemma map_get_found:
  assumes rep: "map_rep m M al w" and has: "al_has (m_tkey M) al x"
  shows "\<exists>w' y i. kh_get (m_tkey M) (m_hash M) x = Some i \<and> i \<in> slots (m_hash M) \<and> i \<noteq> kh_n_buckets (m_hash M) \<and>
    access_map ops m i w = Some w' \<and> map_rep m M al w' \<and> al_lookup (m_tkey M) al x = Some y \<and>
    do { v \<leftarrow> kh_value (m_hash M) i; mv_val v } = Some y \<and> tw_excpt w' = tw_excpt w"
proof -
  have t: "map_tab m M w" and al: "al_ok (m_tkey M) al" using rep by (simp_all add: map_rep_def)
  note d = tab_okD [OF t]
  from has obtain i where i: "kh_at (m_tkey M) (m_hash M) x i" unfolding map_has [OF rep] by blast
  then have s: "i \<in> slots (m_hash M)" "ti_equal (m_tkey M) (the_key (m_hash M) i) x" by (simp_all add: kh_at_def)
  from map_slot [OF rep s(1)] obtain k v y where
    v: "kh_keys (m_hash M) ! i = Some k" "mv_val v = Some y" "kh_value (m_hash M) i = Some v" "(k, y) \<in> set al" by blast
  have "al_lookup (m_tkey M) al x = Some y" using al_lookup_ok(1) [OF d(1) al v(4)] s(2) v(1) by simp
  moreover have "i \<noteq> kh_n_buckets (m_hash M)" using s(1) by (simp add: slots_def)
  ultimately show ?thesis
    using kh_get_ok(1) [OF d(1,2) i] access_map_ok [OF rep s(1), of ops] s(1) v(2,3) by auto
qed

lemma map_get_missing:
  assumes "map_rep m M al w" "\<not> al_has (m_tkey M) al x"
  shows "kh_get (m_tkey M) (m_hash M) x = Some (kh_n_buckets (m_hash M))"
  using kh_get_ok(2) [OF tab_okD(1,2)] assms map_has [OF assms(1)] by (auto simp: map_rep_def)

lemma map_rep_put:
  assumes "map_tab m (M\<lparr>m_hash := h\<rparr>) w" "al_ok (m_tkey M) al" "set al = kvs map_val (entries h)" "fresh_timers w"
    "clock_fits (m_tmgr M) (m_timeout M) w"
  shows "map_rep m (M\<lparr>m_hash := h\<rparr>) al (put_map m (M\<lparr>m_hash := h\<rparr>) w)"
  using assms by (simp add: map_rep_def)

lemma map_size_al:
  assumes "map_rep m M al w" shows "kh_size (m_hash M) = length al"
proof -
  have t: "map_tab m M w" and al: "al_ok (m_tkey M) al" "set al = kvs map_val (entries (m_hash M))" using assms by (simp_all add: map_rep_def)
  show ?thesis using al_length [OF tab_okD(1) [OF t] al(1)] card_kvs [OF tab_okD(1,2,4) [OF t], of map_val] al(2) by simp
qed

lemma map_insert_old:
  assumes rep: "map_rep m M al w" and has: "al_has (m_tkey M) al x" and len: "length al < 49159"
  shows "\<exists>w' h. hlt_map_insert ops (m_tkey M) (Some m) x y w = Some w' \<and> map_rep m (M\<lparr>m_hash := h\<rparr>) (al_insert (m_tkey M) al x y) w' \<and>
    tw_excpt w' = tw_excpt w"
proof -
  have M: "mw_maps w m = Some M" and t: "map_tab m M w" and al: "al_ok (m_tkey M) al" "set al = kvs map_val (entries (m_hash M))"
    and fr: "fresh_timers w" "clock_fits (m_tmgr M) (m_timeout M) w" using rep by (simp_all add: map_rep_def)
  have "\<exists>i. kh_at (m_tkey M) (m_hash M) x i" using has map_has [OF rep] by blast
  from tab_put(1) [OF t _ this] len map_size_al [OF rep] obtain s h where
    h: "kh_put (m_tkey M) (m_hash M) x = Some (s, 0, h)" "map_tab m (M\<lparr>m_hash := h\<rparr>) w" "entries h = entries (m_hash M)" "kh_at (m_tkey M) h x s"
    by auto
  have s: "s \<in> slots h" "ti_equal (m_tkey M) (the_key h s) x" using h(4) by (simp_all add: kh_at_def)
  let ?w = "put_map m (M\<lparr>m_hash := h\<rparr>) w"
  have rep1: "map_rep m (M\<lparr>m_hash := h\<rparr>) al ?w" by (rule map_rep_put) (use h al fr in simp_all)
  from access_map_ok [OF rep1, of s ops] s(1) obtain w1 where
    w1: "access_map ops m s ?w = Some w1" "map_rep m (M\<lparr>m_hash := h\<rparr>) al w1" "tw_excpt w1 = tw_excpt w" by auto
  have t1: "map_tab m (M\<lparr>m_hash := h\<rparr>) w1" and M1: "mw_maps w1 m = Some (M\<lparr>m_hash := h\<rparr>)" and fr1: "fresh_timers w1"
    "clock_fits (m_tmgr M) (m_timeout M) w1" using w1(2) by (simp_all add: map_rep_def)
  from map_slot [OF rep1, of s] s(1) obtain k v u where
    v: "kh_keys h ! s = Some k" "kh_vals h ! s = Some v" "mv_val v = Some u" "kh_value h s = Some v" "(Some k, Some v) \<in> entries h" "(k, u) \<in> set al"
    by auto
  from tab_replace [OF t1, of s k v "v\<lparr>mv_val := Some y\<rparr>"] s(1) v(1,2) obtain h' where
    h': "kh_set_value h s (v\<lparr>mv_val := Some y\<rparr>) = Some h'" "entries h' = insert (Some k, Some (v\<lparr>mv_val := Some y\<rparr>)) (entries h - {(Some k, Some v)})"
      "map_tab m (M\<lparr>m_hash := h'\<rparr>) w1" by auto
  have keq: "ti_equal (m_tkey M) k x" using s(2) v(1) by simp
  have "set (al_insert (m_tkey M) al x y) = insert (k, y) (set al - {(k, u)})"
    by (rule al_insert_set [OF tab_okD(1) [OF t] al(1) v(6) keq])
  also have "\<dots> = kvs map_val (entries h')"
    using kvs_without [OF tab_okD(1,2) [OF t1], of k v map_val] v(3,5) al(2) h(3) h'(2) by (simp add: kvs_insert)
  finally have c: "set (al_insert (m_tkey M) al x y) = kvs map_val (entries h')" .
  have "map_rep m (M\<lparr>m_hash := h'\<rparr>) (al_insert (m_tkey M) al x y) (put_map m (M\<lparr>m_hash := h'\<rparr>) w1)"
    by (rule map_rep_put [OF h'(3) al_insert_ok [OF tab_okD(1) [OF t] al(1)] c fr1])
  moreover have "hlt_map_insert ops (m_tkey M) (Some m) x y w = Some (put_map m (M\<lparr>m_hash := h'\<rparr>) w1)"
    using M h(1) v(3,4) w1(1) M1 h'(1) by (simp add: hlt_map_insert_def map_assign_def)
  moreover have "tw_excpt (put_map m (M\<lparr>m_hash := h'\<rparr>) w1) = tw_excpt w" using w1(3) by simp
  ultimately show ?thesis by blast
qed

lemma map_new_entry_ok:
  assumes t: "map_tab m M w" and fr: "fresh_timers w" "clock_fits (m_tmgr M) (m_timeout M) w" and new: "one_new (m_tkey M) (m_hash M) h s x"
  shows "\<exists>w' h' q. map_new_entry ops m s x (put_map m (M\<lparr>m_hash := h\<rparr>) w) = Some w' \<and> mw_maps w' m = Some (M\<lparr>m_hash := h'\<rparr>) \<and>
    one_new (m_tkey M) (m_hash M) h' s x \<and> kh_value h' s = Some \<lparr>mv_val = None, mv_timer = q\<rparr> \<and> fresh_timers w' \<and> clocks w' = clocks w \<and>
    (m_tmgr M = None \<longrightarrow> q = None) \<and> tw_excpt w' = tw_excpt w \<and>
    links_ok (m_tmgr M) (m_timeout M) ((case q of None \<Rightarrow> {} | Some a \<Rightarrow> {(a, CMap m x)}) \<union> tlinks (CMap m) mv_timer (entries (m_hash M))) w'"
proof (cases "m_tmgr M \<noteq> None \<and> m_timeout M \<noteq> 0")
  case False
  from one_new_set [OF new, of "\<lparr>mv_val = None, mv_timer = None\<rparr>"] obtain h' where
    h': "kh_set_value h s \<lparr>mv_val = None, mv_timer = None\<rparr> = Some h'" "one_new (m_tkey M) (m_hash M) h' s x"
      "kh_value h' s = Some \<lparr>mv_val = None, mv_timer = None\<rparr>" by blast
  let ?w = "put_map m (M\<lparr>m_hash := h'\<rparr>) (put_map m (M\<lparr>m_hash := h\<rparr>) w)"
  have "map_new_entry ops m s x (put_map m (M\<lparr>m_hash := h\<rparr>) w) = Some ?w" using False h'(1) by (auto simp: map_new_entry_def)
  then show ?thesis using h'(2,3) fr tab_okD(5) [OF t] by (intro exI [of _ ?w] exI [of _ h'] exI [of _ None]) simp
next
  case True
  then obtain g where g: "m_tmgr M = Some g" by blast
  let ?a = "tw_next w"
  from one_new_set [OF new, of "\<lparr>mv_val = None, mv_timer = Some ?a\<rparr>"] obtain h' where
    h': "kh_set_value h s \<lparr>mv_val = None, mv_timer = Some ?a\<rparr> = Some h'" "one_new (m_tkey M) (m_hash M) h' s x"
      "kh_value h' s = Some \<lparr>mv_val = None, mv_timer = Some ?a\<rparr>" by blast
  define w2 where "w2 = put_map m (M\<lparr>m_hash := h'\<rparr>) (snd (hlt_timer_new (CMap m x) (put_map m (M\<lparr>m_hash := h\<rparr>) w)))"
  have "mw_maps w2 m = Some (M\<lparr>m_hash := h'\<rparr>)" by (simp add: w2_def)
  moreover from start_link [OF tab_okD(5) [OF t, unfolded g] fr(1) fr(2) [unfolded g], of w2 "CMap m x" ops] True obtain now w' where
    w': "hlt_timer_mgr_current (Some g) w2 = Some now" "hlt_timer_mgr_schedule ops (Some g) (add64 now (m_timeout M)) ?a w2 = Some w'"
      "links_ok (Some g) (m_timeout M) (insert (?a, CMap m x) (tlinks (CMap m) mv_timer (entries (m_hash M)))) w'" "erase w' = erase w2"
      "clocks w' = clocks w" "fresh_timers w'" by (auto simp: w2_def hlt_timer_new_def)
  moreover have "map_new_entry ops m s x (put_map m (M\<lparr>m_hash := h\<rparr>) w) = Some w'"
    using True g h'(1) w'(1,2) by (simp add: map_new_entry_def w2_def hlt_timer_new_def)
  moreover have "tw_excpt w' = tw_excpt w" using erase_maps(4) [OF w'(4)] by (simp add: w2_def hlt_timer_new_def)
  ultimately show ?thesis using h'(2,3) g erase_maps(1) [OF w'(4)] by (intro exI [of _ w'] exI [of _ h'] exI [of _ "Some ?a"]) simp
qed

lemma map_insert_new:
  assumes rep: "map_rep m M al w" and has: "\<not> al_has (m_tkey M) al x" and len: "length al < 49159"
  shows "\<exists>w' h. hlt_map_insert ops (m_tkey M) (Some m) x y w = Some w' \<and> map_rep m (M\<lparr>m_hash := h\<rparr>) (al_insert (m_tkey M) al x y) w' \<and>
    tw_excpt w' = tw_excpt w"
proof -
  have M: "mw_maps w m = Some M" and t: "map_tab m M w" and al: "al_ok (m_tkey M) al" "set al = kvs map_val (entries (m_hash M))"
    and fr: "fresh_timers w" "clock_fits (m_tmgr M) (m_timeout M) w" using rep by (simp_all add: map_rep_def)
  have "\<nexists>i. kh_at (m_tkey M) (m_hash M) x i" using has map_has [OF rep] by blast
  from tab_put(2) [OF t _ this] len map_size_al [OF rep] obtain s r h where
    h: "kh_put (m_tkey M) (m_hash M) x = Some (s, r, h)" "r \<noteq> 0" "one_new (m_tkey M) (m_hash M) h s x" by auto
  from map_new_entry_ok [OF t fr h(3), of ops] obtain w1 h1 q where
    w1: "map_new_entry ops m s x (put_map m (M\<lparr>m_hash := h\<rparr>) w) = Some w1" "mw_maps w1 m = Some (M\<lparr>m_hash := h1\<rparr>)"
      "one_new (m_tkey M) (m_hash M) h1 s x" "kh_value h1 s = Some \<lparr>mv_val = None, mv_timer = q\<rparr>" "fresh_timers w1" "clocks w1 = clocks w"
      "m_tmgr M = None \<longrightarrow> q = None" "tw_excpt w1 = tw_excpt w"
      "links_ok (m_tmgr M) (m_timeout M) ((case q of None \<Rightarrow> {} | Some a \<Rightarrow> {(a, CMap m x)}) \<union> tlinks (CMap m) mv_timer (entries (m_hash M))) w1"
    by (elim exE conjE) (rule that)
  let ?v = "\<lparr>mv_val = Some y, mv_timer = q\<rparr>"
  from one_new_set [OF w1(3), of ?v] obtain h2 where
    h2: "kh_set_value h1 s ?v = Some h2" "one_new (m_tkey M) (m_hash M) h2 s x" "entries h2 = insert (Some x, Some ?v) (entries (m_hash M))" by blast
  have t2: "map_tab m (M\<lparr>m_hash := h2\<rparr>) w1"
    using tab_added [OF t h2(2,3)] w1(7,9) by (simp add: tlinks_insert)
  have c: "set (al_insert (m_tkey M) al x y) = kvs map_val (entries h2)" using has al(2) h2(3) by (simp add: al_insert_def kvs_insert)
  have fit: "clock_fits (m_tmgr M) (m_timeout M) w1" using fr(2) clock_step [OF w1(6)] by simp
  have "map_rep m (M\<lparr>m_hash := h2\<rparr>) (al_insert (m_tkey M) al x y) (put_map m (M\<lparr>m_hash := h2\<rparr>) w1)"
    by (rule map_rep_put [OF t2 al_insert_ok [OF tab_okD(1) [OF t] al(1)] c w1(5) fit])
  moreover have "hlt_map_insert ops (m_tkey M) (Some m) x y w = Some (put_map m (M\<lparr>m_hash := h2\<rparr>) w1)"
    using M h(1,2) w1(1,2,4) h2(1) by (simp add: hlt_map_insert_def map_assign_def)
  moreover have "tw_excpt (put_map m (M\<lparr>m_hash := h2\<rparr>) w1) = tw_excpt w" using w1(8) by simp
  ultimately show ?thesis by blast
qed

lemma map_remove_ok:
  assumes rep: "map_rep m M al w"
  shows "\<exists>w' h. hlt_map_remove (m_tkey M) (Some m) x w = Some w' \<and> map_rep m (M\<lparr>m_hash := h\<rparr>) (al_remove (m_tkey M) al x) w' \<and>
    tw_excpt w' = tw_excpt w"
proof (cases "al_has (m_tkey M) al x")
  case False
  have M: "mw_maps w m = Some M" using rep by (simp add: map_rep_def)
  have "al_remove (m_tkey M) al x = al" using False by (auto simp: al_remove_def al_has_def filter_id_conv)
  moreover have "hlt_map_remove (m_tkey M) (Some m) x w = Some w"
    using M map_get_missing [OF rep False] by (simp add: hlt_map_remove_def)
  ultimately show ?thesis using rep by (intro exI [of _ w] exI [of _ "m_hash M"]) simp
next
  case True
  have M: "mw_maps w m = Some M" and t: "map_tab m M w" and al: "al_ok (m_tkey M) al" "set al = kvs map_val (entries (m_hash M))"
    and fr: "fresh_timers w" "clock_fits (m_tmgr M) (m_timeout M) w" using rep by (simp_all add: map_rep_def)
  from True obtain i where i: "kh_at (m_tkey M) (m_hash M) x i" unfolding map_has [OF rep] by blast
  then have s: "i \<in> slots (m_hash M)" "ti_equal (m_tkey M) (the_key (m_hash M) i) x" by (simp_all add: kh_at_def)
  have get: "kh_get (m_tkey M) (m_hash M) x = Some i" "i \<noteq> kh_n_buckets (m_hash M)"
    using kh_get_ok(1) [OF tab_okD(1,2) [OF t] i] s(1) by (auto simp: slots_def)
  from map_slot [OF rep s(1)] obtain k v y where
    v: "kh_keys (m_hash M) ! i = Some k" "kh_vals (m_hash M) ! i = Some v" "mv_val v = Some y" "kh_value (m_hash M) i = Some v"
      "(Some k, Some v) \<in> entries (m_hash M)" "(k, y) \<in> set al" by blast
  have ent: "entry (m_hash M) i = (Some k, Some v)" using v(1,2) by (simp add: entry_def)
  from tab_cancel [OF t s(1) v(2)] obtain w1 where
    w1: "(if mv_timer v \<noteq> None then hlt_timer_cancel (mv_timer v) w else Some w) = Some w1"
      "links_ok (m_tmgr M) (m_timeout M) (tlinks (CMap m) mv_timer (entries (m_hash M) - {entry (m_hash M) i})) w1" "erase w1 = erase w"
      "clocks w1 = clocks w" "\<forall>b. link_of (tw_timers w) b = None \<longrightarrow> link_of (tw_timers w1) b = None" by (auto simp: inj_def)
  from tab_delete [OF t s(1) w1(2), of "v\<lparr>mv_timer := None\<rparr>"] obtain h1 h2 where
    h: "kh_set_value (m_hash M) i (v\<lparr>mv_timer := None\<rparr>) = Some h1" "kh_del h1 i = Some h2" "kh_key h1 i = kh_keys (m_hash M) ! i"
      "entries h2 = entries (m_hash M) - {entry (m_hash M) i}" "map_tab m (M\<lparr>m_hash := h2\<rparr>) w1" by auto
  have keq: "ti_equal (m_tkey M) k x" using s(2) v(1) by simp
  have c: "set (al_remove (m_tkey M) al x) = kvs map_val (entries h2)"
    using al_remove_set [OF tab_okD(1) [OF t] al(1) v(6) keq] kvs_without [OF tab_okD(1,2) [OF t] v(5), of map_val] v(3) al(2) h(4) ent by simp
  have "map_rep m (M\<lparr>m_hash := h2\<rparr>) (al_remove (m_tkey M) al x) (put_map m (M\<lparr>m_hash := h2\<rparr>) w1)"
    using map_rep_put [OF h(5) al_remove_ok [OF al(1)] c] fresh_step [OF fr(1) erase_maps(3) [OF w1(3)] w1(5)] fr(2) clock_step [OF w1(4)] by simp
  moreover have "hlt_map_remove (m_tkey M) (Some m) x w = Some (put_map m (M\<lparr>m_hash := h2\<rparr>) w1)"
    using M get v(1,3,4) w1(1) erase_maps(1) [OF w1(3)] h(1-3) by (simp add: hlt_map_remove_def map_drop_def)
  moreover have "tw_excpt (put_map m (M\<lparr>m_hash := h2\<rparr>) w1) = tw_excpt w" using erase_maps(4) [OF w1(3)] by simp
  ultimately show ?thesis by blast
qed

text \<open>Clearing: the timers go one by one.\<close>

lemma kh_exist_at: "kh_inv ty h \<Longrightarrow> i < kh_n_buckets h \<Longrightarrow> kh_exist h i = Some (i \<in> slots h)"
  using ac_tests(3) [OF flags_long, of h i] unfolding kh_inv_def by (auto simp: kh_exist_def slots_def kh_init_def)

lemma map_clear_loop_ok:
  assumes t: "map_tab m M w0"
  shows "distinct is \<Longrightarrow> \<forall>i\<in>set is. i < kh_n_buckets (m_hash M) \<Longrightarrow>
    links_ok (m_tmgr M) (m_timeout M) (tlinks (CMap m) mv_timer (entry (m_hash M) ` (slots (m_hash M) \<inter> set is))) w \<Longrightarrow>
    \<exists>w'. map_clear_loop M is w = Some w' \<and> links_ok (m_tmgr M) (m_timeout M) {} w' \<and> erase w' = erase w \<and> clocks w' = clocks w \<and>
      (\<forall>b. link_of (tw_timers w) b = None \<longrightarrow> link_of (tw_timers w') b = None)"
proof (induction "is" arbitrary: w)
  case Nil
  then show ?case by (simp add: tlinks_def)
next
  case (Cons i "is")
  let ?h = "m_hash M"
  have ex: "kh_exist ?h i = Some (i \<in> slots ?h)" using kh_exist_at [OF tab_okD(2) [OF t]] Cons.prems(2) by simp
  show ?case
  proof (cases "i \<in> slots ?h")
    case False
    then have "slots ?h \<inter> set (i # is) = slots ?h \<inter> set is" by auto
    then show ?thesis using Cons ex False by simp
  next
    case True
    from full_at [OF tab_okD(4) [OF t] True] obtain k v x where
      v: "kh_keys ?h ! i = Some k" "kh_vals ?h ! i = Some v" "mv_val v = Some x" by auto
    have kv: "kh_value ?h i = Some v" "kh_key ?h i = Some k" using kh_value_at [OF tab_okD(2) [OF t] True] v by simp_all
    have T: "slots ?h \<inter> set (i # is) - {i} = slots ?h \<inter> set is" using Cons.prems(1) by auto
    from slot_cancel [OF t _ _ v(2) _ Cons.prems(3)] True obtain w1 where
      w1: "(if mv_timer v \<noteq> None then hlt_timer_cancel (mv_timer v) w else Some w) = Some w1"
        "links_ok (m_tmgr M) (m_timeout M) (tlinks (CMap m) mv_timer (entry ?h ` (slots ?h \<inter> set is))) w1" "erase w1 = erase w"
        "clocks w1 = clocks w" "\<forall>b. link_of (tw_timers w) b = None \<longrightarrow> link_of (tw_timers w1) b = None" unfolding T by (auto simp: inj_def)
    from Cons.IH [OF _ _ w1(2)] Cons.prems(1,2) obtain w' where
      w': "map_clear_loop M is w1 = Some w'" "links_ok (m_tmgr M) (m_timeout M) {} w'" "erase w' = erase w1" "clocks w' = clocks w1"
        "\<forall>b. link_of (tw_timers w1) b = None \<longrightarrow> link_of (tw_timers w') b = None" by auto
    have "map_clear_loop M (i # is) w = Some w'" using ex True kv v(3) w1(1) w'(1) by simp
    then show ?thesis using w' w1 by auto
  qed
qed

lemma map_clear_ok:
  assumes rep: "map_rep m M al w"
  shows "\<exists>w' h. hlt_map_clear (Some m) w = Some w' \<and> map_rep m (M\<lparr>m_hash := h\<rparr>) [] w' \<and> tw_excpt w' = tw_excpt w"
proof -
  let ?h = "m_hash M"
  have M: "mw_maps w m = Some M" and t: "map_tab m M w" and fr: "fresh_timers w" "clock_fits (m_tmgr M) (m_timeout M) w"
    using rep by (simp_all add: map_rep_def)
  note d = tab_okD [OF t]
  have "slots ?h \<inter> set [0..<kh_n_buckets ?h] = slots ?h" by (auto simp: slots_def)
  then obtain w1 where
    w1: "map_clear_loop M [0..<kh_n_buckets ?h] w = Some w1" "links_ok (m_tmgr M) (m_timeout M) {} w1" "erase w1 = erase w" "clocks w1 = clocks w"
      "\<forall>b. link_of (tw_timers w) b = None \<longrightarrow> link_of (tw_timers w1) b = None"
    using map_clear_loop_ok [OF t, of "[0..<kh_n_buckets ?h]" w] d(5) by (auto simp: entries_def)
  have e: "entries (kh_clear ?h) = {}" "kh_n_buckets (kh_clear ?h) = kh_n_buckets ?h" using clearing_frees [OF d(2)] by simp_all
  have "map_tab m (M\<lparr>m_hash := kh_clear ?h\<rparr>) w1"
    unfolding tab_ok_def using d(1,3) kh_clear_ok(1) [OF d(2)] w1(2) e by (simp add: tlinks_def full_def)
  from map_rep_put [OF this, of "[]"] have "map_rep m (M\<lparr>m_hash := kh_clear ?h\<rparr>) [] (put_map m (M\<lparr>m_hash := kh_clear ?h\<rparr>) w1)"
    using e fresh_step [OF fr(1) erase_maps(3) [OF w1(3)] w1(5)] fr(2) clock_step [OF w1(4)]
    by (simp add: kvs_def al_ok_def)
  moreover have "hlt_map_clear (Some m) w = Some (put_map m (M\<lparr>m_hash := kh_clear ?h\<rparr>) w1)" using M w1(1) by (simp add: hlt_map_clear_def)
  moreover have "tw_excpt (put_map m (M\<lparr>m_hash := kh_clear ?h\<rparr>) w1) = tw_excpt w" using erase_maps(4) [OF w1(3)] by simp
  ultimately show ?thesis by blast
qed

subsection \<open>Maps are dictionaries\<close>

text \<open>
  One call of the interface. \<^const>\<open>hlt_map_get_default\<close> tells a key that is there from one that is not without an exception, so a
  lookup asks for the key first.
\<close>

fun map_step ::
  "(addr \<Rightarrow> val \<Rightarrow> 'a map_world_scheme \<Rightarrow> (val option \<times> 'a map_world_scheme) option) \<Rightarrow> 'a map_world_scheme expiry_ops \<Rightarrow>
   val type_info \<Rightarrow> addr \<Rightarrow> (val, val) dict_op \<Rightarrow> 'a map_world_scheme \<Rightarrow> (val dict_res \<times> 'a map_world_scheme) option" where
  "map_step run ops ty m (DInsert k x) w = map_option (\<lambda>w'. (RUnit, w')) (hlt_map_insert ops ty (Some m) k x w)"
| "map_step run ops ty m (DRemove k) w = map_option (\<lambda>w'. (RUnit, w')) (hlt_map_remove ty (Some m) k w)"
| "map_step run ops ty m (DLookup k) w = map_option (map_prod RVal id) (hlt_map_get run ops ty (Some m) k w)"
| "map_step run ops ty m (DExists k) w = map_option (map_prod RBool id) (hlt_map_exists ops ty (Some m) k w)"
| "map_step run ops ty m DSize w = map_option (map_prod RNat id) (hlt_map_size (Some m) w)"
| "map_step run ops ty m DClear w = map_option (\<lambda>w'. (RUnit, w')) (hlt_map_clear (Some m) w)"

text \<open>
  \<open>map_inv ty d m al w\<close>: map \<open>m\<close> with keys of type \<open>ty\<close> stands for the association list \<open>al\<close>; its default is the
  value \<open>d\<close>, or there is none. A default function, which may do anything, is not covered.
\<close>

definition map_default_is :: "val option \<Rightarrow> hlt_map \<Rightarrow> bool" where
  "map_default_is d M \<longleftrightarrow> m_default M = (case d of None \<Rightarrow> NoDefault | Some x \<Rightarrow> DefaultValue x)"

definition map_inv :: "val type_info \<Rightarrow> val option \<Rightarrow> addr \<Rightarrow> (val \<times> val) list \<Rightarrow> 'a map_world_scheme \<Rightarrow> bool" where
  "map_inv ty d m al w \<longleftrightarrow> (\<exists>M. map_rep m M al w \<and> m_tkey M = ty \<and> map_default_is d M)"

lemma map_rep_excpt: "map_rep m M al (hlt_set_exception e w) \<longleftrightarrow> map_rep m M al w"
  by (simp add: map_rep_def)

text \<open>What a lookup returns, and the exception of one without result.\<close>

lemma map_get_ok:
  assumes rep: "map_rep m M al w"
  shows "al_has (m_tkey M) al x \<Longrightarrow> \<exists>w'. hlt_map_get run ops (m_tkey M) (Some m) x w = Some (al_lookup (m_tkey M) al x, w') \<and> map_rep m M al w' \<and> tw_excpt w' = tw_excpt w"
    and "\<not> al_has (m_tkey M) al x \<Longrightarrow> hlt_map_get run ops (m_tkey M) (Some m) x w =
      (case m_default M of NoDefault \<Rightarrow> Some (None, hlt_set_exception IndexError w) | DefaultValue d \<Rightarrow> Some (Some d, w) | DefaultFunction f \<Rightarrow> run f x w)"
    and "\<exists>w'. hlt_map_exists ops (m_tkey M) (Some m) x w = Some (al_has (m_tkey M) al x, w') \<and> map_rep m M al w' \<and> tw_excpt w' = tw_excpt w"
proof -
  have M: "mw_maps w m = Some M" using rep by (simp add: map_rep_def)
  show "\<exists>w'. hlt_map_get run ops (m_tkey M) (Some m) x w = Some (al_lookup (m_tkey M) al x, w') \<and> map_rep m M al w' \<and> tw_excpt w' = tw_excpt w"
    if "al_has (m_tkey M) al x"
  proof -
    from map_get_found [OF rep that, of ops] obtain w' y i where
      g: "kh_get (m_tkey M) (m_hash M) x = Some i" "i \<noteq> kh_n_buckets (m_hash M)" "access_map ops m i w = Some w'" "map_rep m M al w'"
        "al_lookup (m_tkey M) al x = Some y" "do { v \<leftarrow> kh_value (m_hash M) i; mv_val v } = Some y" "tw_excpt w' = tw_excpt w" by blast
    moreover have "mw_maps w' m = Some M" using g(4) by (simp add: map_rep_def)
    ultimately have "hlt_map_get run ops (m_tkey M) (Some m) x w = Some (Some y, w')"
      using M by (auto simp: hlt_map_get_def bind_eq_Some_conv)
    then show ?thesis using g(4,5,7) by simp
  qed
  show "hlt_map_get run ops (m_tkey M) (Some m) x w =
      (case m_default M of NoDefault \<Rightarrow> Some (None, hlt_set_exception IndexError w) | DefaultValue d \<Rightarrow> Some (Some d, w) | DefaultFunction f \<Rightarrow> run f x w)"
    if "\<not> al_has (m_tkey M) al x"
    using M map_get_missing [OF rep that] by (simp add: hlt_map_get_def)
  show "\<exists>w'. hlt_map_exists ops (m_tkey M) (Some m) x w = Some (al_has (m_tkey M) al x, w') \<and> map_rep m M al w' \<and> tw_excpt w' = tw_excpt w"
  proof (cases "al_has (m_tkey M) al x")
    case True
    from map_get_found [OF rep True, of ops] obtain w' i where
      "kh_get (m_tkey M) (m_hash M) x = Some i" "i \<noteq> kh_n_buckets (m_hash M)" "access_map ops m i w = Some w'" "map_rep m M al w'"
      "tw_excpt w' = tw_excpt w" by blast
    then show ?thesis using True M by (intro exI [of _ w']) (simp add: hlt_map_exists_def)
  next
    case False
    then show ?thesis using M rep map_get_missing [OF rep False] by (intro exI [of _ w]) (simp add: hlt_map_exists_def)
  qed
qed

lemma map_insert_ok:
  assumes "map_rep m M al w" "length al < 49159"
  shows "\<exists>w' h. hlt_map_insert ops (m_tkey M) (Some m) x y w = Some w' \<and> map_rep m (M\<lparr>m_hash := h\<rparr>) (al_insert (m_tkey M) al x y) w' \<and>
    tw_excpt w' = tw_excpt w"
  using map_insert_old [OF assms(1) _ assms(2)] map_insert_new [OF assms(1) _ assms(2)] by blast

lemma map_lookup_ok:
  assumes rep: "map_rep m M al w" and d: "map_default_is d M"
  shows "\<exists>w'. hlt_map_get run ops (m_tkey M) (Some m) k w =
      Some (case al_lookup (m_tkey M) al k of None \<Rightarrow> d | Some x \<Rightarrow> Some x, w') \<and> map_rep m M al w' \<and>
    tw_excpt w' = op_excpt (m_tkey M) d (DLookup k) al (tw_excpt w)"
proof (cases "al_has (m_tkey M) al k")
  case True
  then obtain x where "al_lookup (m_tkey M) al k = Some x" using map_get_found [OF rep True, of ops] by blast
  then show ?thesis using map_get_ok(1) [OF rep True, of run ops] True by auto
next
  case False
  have al: "al_ok (m_tkey M) al" "wf_type (m_tkey M)" using rep tab_okD(1) by (auto simp: map_rep_def)
  show ?thesis
    using False d map_get_ok(2) [OF rep False, of run ops] al_lookup_ok(2) [OF al(2,1) False] rep
    by (cases d) (auto simp: map_default_is_def map_rep_excpt)
qed

interpretation md: dictionary ty 49159 d "map_inv ty d m" "map_step run ops ty m"
  for ty :: "val type_info" and d :: "val option" and m :: addr
    and run :: "addr \<Rightarrow> val \<Rightarrow> 'a map_world_scheme \<Rightarrow> (val option \<times> 'a map_world_scheme) option"
    and ops :: "'a map_world_scheme expiry_ops"
proof
  fix al k and w :: "'a map_world_scheme"
  assume "map_inv ty d m al w"
  then obtain M where rep: "map_rep m M al w" and M: "m_tkey M = ty" "map_default_is d M" by (auto simp: map_inv_def)
  have keep: "map_default_is d (M\<lparr>m_hash := h\<rparr>)" for h using M(2) by (simp add: map_default_is_def)
  have at: "mw_maps w m = Some M" using rep by (simp add: map_rep_def)
  show "\<exists>w'. map_step run ops ty m (DInsert k x) w = Some (RUnit, w') \<and> map_inv ty d m (al_insert ty al k x) w'" if "length al < 49159" for x
    using map_insert_ok [OF rep that, of ops k x] M(1) keep unfolding map_inv_def by fastforce
  show "\<exists>w'. map_step run ops ty m (DRemove k) w = Some (RUnit, w') \<and> map_inv ty d m (al_remove ty al k) w'"
    using map_remove_ok [OF rep, of k] M(1) keep unfolding map_inv_def by fastforce
  show "\<exists>w'. map_step run ops ty m DClear w = Some (RUnit, w') \<and> map_inv ty d m [] w'"
    using map_clear_ok [OF rep] M(1) keep unfolding map_inv_def by fastforce
  show "\<exists>w'. map_step run ops ty m DSize w = Some (RNat (length al), w') \<and> map_inv ty d m al w'"
    using at map_size_al [OF rep] rep M by (auto simp: hlt_map_size_def map_inv_def)
  show "\<exists>w'. map_step run ops ty m (DExists k) w = Some (RBool (al_has ty al k), w') \<and> map_inv ty d m al w'"
    using map_get_ok(3) [OF rep, of ops k] M unfolding map_inv_def by fastforce
  show "\<exists>w'. map_step run ops ty m (DLookup k) w = Some (fill d (RVal (al_lookup ty al k)), w') \<and> map_inv ty d m al w'"
    using map_lookup_ok [OF rep M(2), of run ops k] M unfolding map_inv_def fill_RVal by fastforce
qed

interpretation mr: raising_dictionary ty 49159 d "map_inv ty d m" "map_step run ops ty m" tw_excpt
  for ty :: "val type_info" and d :: "val option" and m :: addr
    and run :: "addr \<Rightarrow> val \<Rightarrow> 'a map_world_scheme \<Rightarrow> (val option \<times> 'a map_world_scheme) option"
    and ops :: "'a map_world_scheme expiry_ops"
proof
  fix al a r and w w' :: "'a map_world_scheme"
  assume inv: "map_inv ty d m al w" and len: "length al < 49159" and run: "map_step run ops ty m a w = Some (r, w')"
  then obtain M where rep: "map_rep m M al w" and M: "m_tkey M = ty" "map_default_is d M" by (auto simp: map_inv_def)
  show "tw_excpt w' = op_excpt ty d a al (tw_excpt w)"
  proof (cases a)
    case (DInsert k x)
    then show ?thesis using map_insert_ok [OF rep len, of ops k x] M(1) run by auto
  next
    case (DRemove k)
    then show ?thesis using map_remove_ok [OF rep, of k] M(1) run by auto
  next
    case (DLookup k)
    then show ?thesis using map_lookup_ok [OF rep M(2), of run ops k] M(1) run by auto
  next
    case (DExists k)
    then show ?thesis using map_get_ok(3) [OF rep, of ops k] M(1) run by auto
  next
    case DSize
    then show ?thesis using rep run by (auto simp: hlt_map_size_def map_rep_def)
  next
    case DClear
    then show ?thesis using map_clear_ok [OF rep] run by auto
  qed
qed

section \<open>Sets\<close>

abbreviation set_tab :: "addr \<Rightarrow> hlt_set \<Rightarrow> 'a map_world_scheme \<Rightarrow> bool" where
  "set_tab s S w \<equiv> tab_ok (CSet s) id (\<lambda>_. True) (s_tkey S) (s_tmgr S) (s_timeout S) (s_hash S) w"

definition set_rep :: "addr \<Rightarrow> hlt_set \<Rightarrow> (val \<times> unit) list \<Rightarrow> 'a map_world_scheme \<Rightarrow> bool" where
  "set_rep s S al w \<longleftrightarrow> mw_sets w s = Some S \<and> set_tab s S w \<and> al_ok (s_tkey S) al \<and> set al = kvs (\<lambda>_. ()) (entries (s_hash S)) \<and>
     fresh_timers w \<and> clock_fits (s_tmgr S) (s_timeout S) w"

lemma put_set_simps [simp]:
  "mw_sets (put_set s S w) = (mw_sets w)(s \<mapsto> S)" "mw_maps (put_set s S w) = mw_maps w" "tw_timers (put_set s S w) = tw_timers w"
  "tw_mgrs (put_set s S w) = tw_mgrs w" "tw_next (put_set s S w) = tw_next w" "tw_ctx_tmgr (put_set s S w) = tw_ctx_tmgr w"
  "tw_excpt (put_set s S w) = tw_excpt w" "lw_nodes (put_set s S w) = lw_nodes w" "lw_lists (put_set s S w) = lw_lists w"
  "vw_vecs (put_set s S w) = vw_vecs w" "clocks (put_set s S w) = clocks w" "fresh_timers (put_set s S w) \<longleftrightarrow> fresh_timers w"
  by (simp_all add: put_set_def clocks_def fresh_timers_def fun_eq_iff)

lemma put_set_ok [simp]:
  "tab_ok ck tmr P ty tm n h (put_set s S w) \<longleftrightarrow> tab_ok ck tmr P ty tm n h w" "links_ok tm n L (put_set s S w) \<longleftrightarrow> links_ok tm n L w"
  "clock_fits tm n (put_set s S w) \<longleftrightarrow> clock_fits tm n w"
  by (rule tab_ok_cong, simp, simp) (rule links_ok_cong, simp, simp, simp add: clock_fits_def)

lemma set_repD:
  assumes "set_rep s S al w"
  shows "mw_sets w s = Some S" "set_tab s S w" "al_ok (s_tkey S) al" "set al = kvs (\<lambda>_. ()) (entries (s_hash S))" "fresh_timers w"
    "clock_fits (s_tmgr S) (s_timeout S) w"
  using assms by (simp_all add: set_rep_def)

lemma set_has:
  assumes "set_rep s S al w"
  shows "al_has (s_tkey S) al x \<longleftrightarrow> (\<exists>i. kh_at (s_tkey S) (s_hash S) x i)"
  unfolding kh_at_kvs [OF tab_okD(2,4) [OF set_repD(2) [OF assms]], of x "\<lambda>_. ()"] al_has_def set_repD(4) [OF assms] by force

lemma set_slot:
  assumes rep: "set_rep s S al w" and i: "i \<in> slots (s_hash S)"
  shows "\<exists>k v. kh_keys (s_hash S) ! i = Some k \<and> kh_vals (s_hash S) ! i = Some v \<and>
    kh_value (s_hash S) i = Some v \<and> kh_key (s_hash S) i = Some k \<and> (Some k, Some v) \<in> entries (s_hash S) \<and> (k, ()) \<in> set al"
proof -
  from full_at [OF tab_okD(4) [OF set_repD(2) [OF rep]] i] obtain k v where
    "kh_keys (s_hash S) ! i = Some k" "kh_vals (s_hash S) ! i = Some v" "(Some k, Some v) \<in> entries (s_hash S)" by auto
  moreover from this have "(k, ()) \<in> set al" unfolding set_repD(4) [OF rep] kvs_def by force
  ultimately show ?thesis using kh_value_at [OF tab_okD(2) [OF set_repD(2) [OF rep]] i] by simp
qed

lemma set_rep_timers:
  assumes rep: "set_rep s S al w" and e: "erase w' = erase w" and c: "clocks w' = clocks w"
    and l: "\<forall>b. link_of (tw_timers w) b = None \<longrightarrow> link_of (tw_timers w') b = None" and t: "set_tab s S w'"
  shows "set_rep s S al w'"
  using rep t erase_maps [OF e] fresh_step [OF _ _ l] clock_step [OF c] unfolding set_rep_def by simp

lemma access_set_ok:
  assumes rep: "set_rep s S al w" and i: "i \<in> slots (s_hash S)"
  shows "\<exists>w'. access_set ops s i w = Some w' \<and> set_rep s S al w'"
proof -
  note r = set_repD [OF rep]
  from set_slot [OF rep i] obtain k v where
    v: "kh_value (s_hash S) i = Some v" "(Some k, Some v) \<in> entries (s_hash S)" by blast
  show ?thesis
  proof (cases "s_tmgr S = None \<or> \<not> hlt_enum_equal (s_strategy S) expire_strategy_access \<or> s_timeout S = 0 \<or> v = None")
    case True
    then have "access_set ops s i w = Some w" using r(1) v(1) by (auto simp: access_set_def)
    then show ?thesis using rep by blast
  next
    case False
    then obtain a where a: "id v = Some a" by auto
    from tab_access [OF r(2) v(2) a r(6), of ops] obtain now w' where
      w': "hlt_timer_mgr_current (s_tmgr S) w = Some now" "hlt_timer_update ops (Some a) (add64 now (s_timeout S)) w = Some w'"
        "set_tab s S w'" "erase w' = erase w" "clocks w' = clocks w" "link_of (tw_timers w') = link_of (tw_timers w)" by blast
    have "access_set ops s i w = Some w'" using False r(1) v(1) a w'(1,2) by (auto simp: access_set_def)
    moreover have "set_rep s S al w'" by (rule set_rep_timers [OF rep w'(4,5) _ w'(3)]) (simp add: w'(6))
    ultimately show ?thesis by blast
  qed
qed

lemma set_get_found:
  assumes rep: "set_rep s S al w" and has: "al_has (s_tkey S) al x"
  shows "\<exists>i k v. kh_get (s_tkey S) (s_hash S) x = Some i \<and> i \<in> slots (s_hash S) \<and> i \<noteq> kh_n_buckets (s_hash S) \<and>
    kh_keys (s_hash S) ! i = Some k \<and> ti_equal (s_tkey S) k x \<and> kh_vals (s_hash S) ! i = Some v"
proof -
  from has obtain i where i: "kh_at (s_tkey S) (s_hash S) x i" unfolding set_has [OF rep] by blast
  then have q: "i \<in> slots (s_hash S)" "ti_equal (s_tkey S) (the_key (s_hash S) i) x" by (simp_all add: kh_at_def)
  show ?thesis using kh_get_ok(1) [OF tab_okD(1,2) [OF set_repD(2) [OF rep]] i] q set_slot [OF rep q(1)] by (auto simp: slots_def)
qed

lemma set_get_missing:
  assumes "set_rep s S al w" "\<not> al_has (s_tkey S) al x"
  shows "kh_get (s_tkey S) (s_hash S) x = Some (kh_n_buckets (s_hash S))"
  using kh_get_ok(2) [OF tab_okD(1,2) [OF set_repD(2) [OF assms(1)]]] assms(2) set_has [OF assms(1)] by auto

lemma set_rep_put:
  assumes "set_tab s (S\<lparr>s_hash := h\<rparr>) w" "al_ok (s_tkey S) al" "set al = kvs (\<lambda>_. ()) (entries h)" "fresh_timers w"
    "clock_fits (s_tmgr S) (s_timeout S) w"
  shows "set_rep s (S\<lparr>s_hash := h\<rparr>) al (put_set s (S\<lparr>s_hash := h\<rparr>) w)"
  using assms by (simp add: set_rep_def)

lemma set_size_al:
  assumes "set_rep s S al w" shows "kh_size (s_hash S) = length al"
  using al_length [OF tab_okD(1) [OF set_repD(2) [OF assms]] set_repD(3) [OF assms]] card_kvs [OF tab_okD(1,2,4) [OF set_repD(2) [OF assms]], of "\<lambda>_. ()"]
    set_repD(4) [OF assms] by simp

lemma set_insert_old:
  assumes rep: "set_rep s S al w" and has: "al_has (s_tkey S) al x" and len: "length al < 49159"
  shows "\<exists>w' h. hlt_set_insert ops (s_tkey S) (Some s) x w = Some w' \<and> set_rep s (S\<lparr>s_hash := h\<rparr>) (al_insert (s_tkey S) al x ()) w'"
proof -
  note r = set_repD [OF rep]
  have "\<exists>i. kh_at (s_tkey S) (s_hash S) x i" using has set_has [OF rep] by blast
  from tab_put(1) [OF r(2) _ this] len set_size_al [OF rep] obtain i h where
    h: "kh_put (s_tkey S) (s_hash S) x = Some (i, 0, h)" "set_tab s (S\<lparr>s_hash := h\<rparr>) w" "entries h = entries (s_hash S)" "kh_at (s_tkey S) h x i"
    by auto
  have rep1: "set_rep s (S\<lparr>s_hash := h\<rparr>) al (put_set s (S\<lparr>s_hash := h\<rparr>) w)" by (rule set_rep_put) (use h r in simp_all)
  from access_set_ok [OF rep1, of i ops] h(4) obtain w1 where
    w1: "access_set ops s i (put_set s (S\<lparr>s_hash := h\<rparr>) w) = Some w1" "set_rep s (S\<lparr>s_hash := h\<rparr>) al w1" by (auto simp: kh_at_def)
  have "al_insert (s_tkey S) al x () = al" using has by (simp add: al_insert_def cong: map_idI) (auto intro: map_idI)
  then show ?thesis using r(1) h(1) w1 by (intro exI [of _ w1] exI [of _ h]) (simp add: hlt_set_insert_def)
qed

lemma set_insert_new:
  assumes rep: "set_rep s S al w" and has: "\<not> al_has (s_tkey S) al x" and len: "length al < 49159"
  shows "\<exists>w' h. hlt_set_insert ops (s_tkey S) (Some s) x w = Some w' \<and> set_rep s (S\<lparr>s_hash := h\<rparr>) (al_insert (s_tkey S) al x ()) w'"
proof -
  note r = set_repD [OF rep]
  let ?C = "\<lambda>h w1. set_rep s (S\<lparr>s_hash := h\<rparr>) (al_insert (s_tkey S) al x ()) w1"
  have "\<nexists>i. kh_at (s_tkey S) (s_hash S) x i" using has set_has [OF rep] by blast
  from tab_put(2) [OF r(2) _ this] len set_size_al [OF rep] obtain i q h where
    h: "kh_put (s_tkey S) (s_hash S) x = Some (i, q, h)" "q \<noteq> 0" "one_new (s_tkey S) (s_hash S) h i x" by auto
  let ?w = "put_set s (S\<lparr>s_hash := h\<rparr>) w"
  have "\<exists>w' h'. set_new_entry ops s i x ?w = Some w' \<and> ?C h' w'"
  proof (cases "s_tmgr S \<noteq> None \<and> s_timeout S \<noteq> 0")
    case False
    from one_new_set [OF h(3), of None] obtain h' where
      h': "kh_set_value h i None = Some h'" "one_new (s_tkey S) (s_hash S) h' i x" "entries h' = insert (Some x, Some None) (entries (s_hash S))" by blast
    have "set_tab s (S\<lparr>s_hash := h'\<rparr>) ?w" using tab_added [OF r(2) h'(2,3)] tab_okD(5) [OF r(2)] by (simp add: tlinks_insert)
    from set_rep_put [OF this, of "al_insert (s_tkey S) al x ()"] have "?C h' (put_set s (S\<lparr>s_hash := h'\<rparr>) ?w)"
      using r al_insert_ok [OF tab_okD(1) [OF r(2)] r(3), of x "()"] has h'(3) by (simp add: al_insert_def kvs_insert)
    moreover have "set_new_entry ops s i x ?w = Some (put_set s (S\<lparr>s_hash := h'\<rparr>) ?w)" using False h'(1) by (auto simp: set_new_entry_def)
    ultimately show ?thesis by blast
  next
    case True
    then obtain g where g: "s_tmgr S = Some g" by blast
    let ?a = "tw_next w"
    from one_new_set [OF h(3), of "Some ?a"] obtain h' where
      h': "kh_set_value h i (Some ?a) = Some h'" "one_new (s_tkey S) (s_hash S) h' i x" "entries h' = insert (Some x, Some (Some ?a)) (entries (s_hash S))"
      by blast
    define w2 where "w2 = put_set s (S\<lparr>s_hash := h'\<rparr>) (snd (hlt_timer_new (CSet s x) ?w))"
    have at: "mw_sets w2 s = Some (S\<lparr>s_hash := h'\<rparr>)" by (simp add: w2_def)
    from start_link [OF tab_okD(5) [OF r(2), unfolded g] r(5) r(6) [unfolded g], of w2 "CSet s x" ops] True obtain now w' where
      w': "hlt_timer_mgr_current (Some g) w2 = Some now" "hlt_timer_mgr_schedule ops (Some g) (add64 now (s_timeout S)) ?a w2 = Some w'"
        "links_ok (Some g) (s_timeout S) (insert (?a, CSet s x) (tlinks (CSet s) id (entries (s_hash S)))) w'" "erase w' = erase w2"
        "clocks w' = clocks w" "fresh_timers w'" by (auto simp: w2_def hlt_timer_new_def)
    have "set_tab s (S\<lparr>s_hash := h'\<rparr>) w'" using tab_added [OF r(2) h'(2,3)] w'(3) g by (simp add: tlinks_insert)
    then have "?C h' w'"
      using at w'(6) r(4,6) al_insert_ok [OF tab_okD(1) [OF r(2)] r(3), of x "()"] has h'(3) erase_maps(2) [OF w'(4)] clock_step [OF w'(5)]
      by (simp add: set_rep_def al_insert_def kvs_insert)
    moreover have "set_new_entry ops s i x ?w = Some w'"
      using True g h'(1) w'(1,2) by (simp add: set_new_entry_def w2_def hlt_timer_new_def)
    ultimately show ?thesis by blast
  qed
  then show ?thesis using r(1) h(1,2) by (simp add: hlt_set_insert_def)
qed

lemma set_remove_ok:
  assumes rep: "set_rep s S al w"
  shows "\<exists>w' h. hlt_set_remove (s_tkey S) (Some s) x w = Some w' \<and> set_rep s (S\<lparr>s_hash := h\<rparr>) (al_remove (s_tkey S) al x) w'"
proof (cases "al_has (s_tkey S) al x")
  case False
  have "al_remove (s_tkey S) al x = al" using False by (auto simp: al_remove_def al_has_def filter_id_conv)
  moreover have "hlt_set_remove (s_tkey S) (Some s) x w = Some w"
    using set_repD(1) [OF rep] set_get_missing [OF rep False] by (simp add: hlt_set_remove_def)
  ultimately show ?thesis using rep by (intro exI [of _ w] exI [of _ "s_hash S"]) simp
next
  case True
  note r = set_repD [OF rep]
  from set_get_found [OF rep True] obtain i k v where
    i: "kh_get (s_tkey S) (s_hash S) x = Some i" "i \<in> slots (s_hash S)" "i \<noteq> kh_n_buckets (s_hash S)" and
    v: "kh_keys (s_hash S) ! i = Some k" "ti_equal (s_tkey S) k x" "kh_vals (s_hash S) ! i = Some v" by blast
  from set_slot [OF rep i(2)] v have e: "(Some k, Some v) \<in> entries (s_hash S)" "(k, ()) \<in> set al" "kh_value (s_hash S) i = Some v" by auto
  have ent: "entry (s_hash S) i = (Some k, Some v)" using v by (simp add: entry_def)
  from tab_cancel [OF r(2) i(2) v(3)] obtain w1 where
    w1: "(if v \<noteq> None then hlt_timer_cancel v w else Some w) = Some w1"
      "links_ok (s_tmgr S) (s_timeout S) (tlinks (CSet s) id (entries (s_hash S) - {entry (s_hash S) i})) w1" "erase w1 = erase w"
      "clocks w1 = clocks w" "\<forall>b. link_of (tw_timers w) b = None \<longrightarrow> link_of (tw_timers w1) b = None" by (auto simp: inj_def cong: if_cong)
  from tab_delete [OF r(2) i(2) w1(2), of None] obtain h1 h2 where
    h: "kh_set_value (s_hash S) i None = Some h1" "kh_del h1 i = Some h2" "kh_key h1 i = kh_keys (s_hash S) ! i"
      "entries h2 = entries (s_hash S) - {entry (s_hash S) i}" "set_tab s (S\<lparr>s_hash := h2\<rparr>) w1" by auto
  have c: "set (al_remove (s_tkey S) al x) = kvs (\<lambda>_. ()) (entries h2)"
    using al_remove_set [OF tab_okD(1) [OF r(2)] r(3) e(2) v(2)] kvs_without [OF tab_okD(1,2) [OF r(2)] e(1), of "\<lambda>_. ()"] r(4) h(4) ent by simp
  have "set_rep s (S\<lparr>s_hash := h2\<rparr>) (al_remove (s_tkey S) al x) (put_set s (S\<lparr>s_hash := h2\<rparr>) w1)"
    using set_rep_put [OF h(5) al_remove_ok [OF r(3)] c] fresh_step [OF r(5) erase_maps(3) [OF w1(3)] w1(5)] r(6) clock_step [OF w1(4)] by simp
  moreover have "hlt_set_remove (s_tkey S) (Some s) x w = Some (put_set s (S\<lparr>s_hash := h2\<rparr>) w1)"
    using r(1) i v(1) e(3) w1(1) erase_maps(2) [OF w1(3)] h(1-3) by (simp add: hlt_set_remove_def set_drop_def)
  ultimately show ?thesis by blast
qed

lemma set_clear_loop_ok:
  assumes t: "set_tab s S w0"
  shows "distinct is \<Longrightarrow> \<forall>i\<in>set is. i < kh_n_buckets (s_hash S) \<Longrightarrow>
    links_ok (s_tmgr S) (s_timeout S) (tlinks (CSet s) id (entry (s_hash S) ` (slots (s_hash S) \<inter> set is))) w \<Longrightarrow>
    \<exists>w'. set_clear_loop S is w = Some w' \<and> links_ok (s_tmgr S) (s_timeout S) {} w' \<and> erase w' = erase w \<and> clocks w' = clocks w \<and>
      (\<forall>b. link_of (tw_timers w) b = None \<longrightarrow> link_of (tw_timers w') b = None)"
proof (induction "is" arbitrary: w)
  case Nil
  then show ?case by (simp add: tlinks_def)
next
  case (Cons i "is")
  let ?h = "s_hash S"
  have ex: "kh_exist ?h i = Some (i \<in> slots ?h)" using kh_exist_at [OF tab_okD(2) [OF t]] Cons.prems(2) by simp
  show ?case
  proof (cases "i \<in> slots ?h")
    case False
    then have "slots ?h \<inter> set (i # is) = slots ?h \<inter> set is" by auto
    then show ?thesis using Cons ex False by simp
  next
    case True
    from full_at [OF tab_okD(4) [OF t] True] obtain k v where v: "kh_keys ?h ! i = Some k" "kh_vals ?h ! i = Some v" by auto
    have kv: "kh_value ?h i = Some v" "kh_key ?h i = Some k" using kh_value_at [OF tab_okD(2) [OF t] True] v by simp_all
    have T: "slots ?h \<inter> set (i # is) - {i} = slots ?h \<inter> set is" using Cons.prems(1) by auto
    from slot_cancel [where tmr = id, OF t _ _ v(2) _ Cons.prems(3)] True obtain w1 where
      w1: "(if v \<noteq> None then hlt_timer_cancel v w else Some w) = Some w1"
        "links_ok (s_tmgr S) (s_timeout S) (tlinks (CSet s) id (entry ?h ` (slots ?h \<inter> set is))) w1" "erase w1 = erase w"
        "clocks w1 = clocks w" "\<forall>b. link_of (tw_timers w) b = None \<longrightarrow> link_of (tw_timers w1) b = None" unfolding T by (auto simp: inj_def cong: if_cong)
    from Cons.IH [OF _ _ w1(2)] Cons.prems(1,2) obtain w' where
      w': "set_clear_loop S is w1 = Some w'" "links_ok (s_tmgr S) (s_timeout S) {} w'" "erase w' = erase w1" "clocks w' = clocks w1"
        "\<forall>b. link_of (tw_timers w1) b = None \<longrightarrow> link_of (tw_timers w') b = None" by auto
    have "set_clear_loop S (i # is) w = Some w'" using ex True kv w1(1) w'(1) by simp
    then show ?thesis using w' w1 by auto
  qed
qed

lemma set_clear_ok:
  assumes rep: "set_rep s S al w"
  shows "\<exists>w' h. hlt_set_clear (Some s) w = Some w' \<and> set_rep s (S\<lparr>s_hash := h\<rparr>) [] w'"
proof -
  let ?h = "s_hash S"
  note r = set_repD [OF rep]
  note d = tab_okD [OF r(2)]
  have "slots ?h \<inter> set [0..<kh_n_buckets ?h] = slots ?h" by (auto simp: slots_def)
  then obtain w1 where
    w1: "set_clear_loop S [0..<kh_n_buckets ?h] w = Some w1" "links_ok (s_tmgr S) (s_timeout S) {} w1" "erase w1 = erase w" "clocks w1 = clocks w"
      "\<forall>b. link_of (tw_timers w) b = None \<longrightarrow> link_of (tw_timers w1) b = None"
    using set_clear_loop_ok [OF r(2), of "[0..<kh_n_buckets ?h]" w] d(5) by (auto simp: entries_def)
  have e: "entries (kh_clear ?h) = {}" "kh_n_buckets (kh_clear ?h) = kh_n_buckets ?h" using clearing_frees [OF d(2)] by simp_all
  have "set_tab s (S\<lparr>s_hash := kh_clear ?h\<rparr>) w1"
    unfolding tab_ok_def using d(1,3) kh_clear_ok(1) [OF d(2)] w1(2) e by (simp add: tlinks_def full_def)
  from set_rep_put [OF this, of "[]"] have "set_rep s (S\<lparr>s_hash := kh_clear ?h\<rparr>) [] (put_set s (S\<lparr>s_hash := kh_clear ?h\<rparr>) w1)"
    using e fresh_step [OF r(5) erase_maps(3) [OF w1(3)] w1(5)] r(6) clock_step [OF w1(4)] by (simp add: kvs_def al_ok_def)
  moreover have "hlt_set_clear (Some s) w = Some (put_set s (S\<lparr>s_hash := kh_clear ?h\<rparr>) w1)" using r(1) w1(1) by (simp add: hlt_set_clear_def)
  ultimately show ?thesis by blast
qed

lemma set_exists_ok:
  assumes rep: "set_rep s S al w"
  shows "\<exists>w'. hlt_set_exists ops (s_tkey S) (Some s) x w = Some (al_has (s_tkey S) al x, w') \<and> set_rep s S al w'"
proof (cases "al_has (s_tkey S) al x")
  case True
  from set_get_found [OF rep True] obtain i where
    i: "kh_get (s_tkey S) (s_hash S) x = Some i" "i \<in> slots (s_hash S)" "i \<noteq> kh_n_buckets (s_hash S)" by blast
  from access_set_ok [OF rep i(2), of ops] obtain w' where "access_set ops s i w = Some w'" "set_rep s S al w'" by blast
  then show ?thesis using True i set_repD(1) [OF rep] by (intro exI [of _ w']) (simp add: hlt_set_exists_def)
next
  case False
  then show ?thesis using set_repD(1) [OF rep] rep set_get_missing [OF rep False] by (intro exI [of _ w]) (simp add: hlt_set_exists_def)
qed

text \<open>A set is a dictionary without values; a lookup is a membership test.\<close>

fun set_step ::
  "'a map_world_scheme expiry_ops \<Rightarrow> val type_info \<Rightarrow> addr \<Rightarrow> (val, unit) dict_op \<Rightarrow> 'a map_world_scheme \<Rightarrow>
   (unit dict_res \<times> 'a map_world_scheme) option" where
  "set_step ops ty s (DInsert k x) w = map_option (\<lambda>w'. (RUnit, w')) (hlt_set_insert ops ty (Some s) k w)"
| "set_step ops ty s (DRemove k) w = map_option (\<lambda>w'. (RUnit, w')) (hlt_set_remove ty (Some s) k w)"
| "set_step ops ty s (DLookup k) w = map_option (map_prod (\<lambda>b. RVal (if b then Some () else None)) id) (hlt_set_exists ops ty (Some s) k w)"
| "set_step ops ty s (DExists k) w = map_option (map_prod RBool id) (hlt_set_exists ops ty (Some s) k w)"
| "set_step ops ty s DSize w = map_option (map_prod RNat id) (hlt_set_size (Some s) w)"
| "set_step ops ty s DClear w = map_option (\<lambda>w'. (RUnit, w')) (hlt_set_clear (Some s) w)"

definition set_inv :: "val type_info \<Rightarrow> addr \<Rightarrow> (val \<times> unit) list \<Rightarrow> 'a map_world_scheme \<Rightarrow> bool" where
  "set_inv ty s al w \<longleftrightarrow> (\<exists>S. set_rep s S al w \<and> s_tkey S = ty)"

lemma al_lookup_unit: "al_lookup ty al k = (if al_has ty al k then Some () else None)"
  by (cases "find (\<lambda>p. ti_equal ty (fst p) k) al") (auto simp: al_lookup_def al_has_def find_None_iff find_Some_iff)

interpretation sd: dictionary ty 49159 None "set_inv ty s" "set_step ops ty s"
  for ty :: "val type_info" and s :: addr and ops :: "'a map_world_scheme expiry_ops"
proof
  fix al k and w :: "'a map_world_scheme"
  assume "set_inv ty s al w"
  then obtain S where rep: "set_rep s S al w" and S: "s_tkey S = ty" by (auto simp: set_inv_def)
  show "\<exists>w'. set_step ops ty s (DInsert k x) w = Some (RUnit, w') \<and> set_inv ty s (al_insert ty al k x) w'" if "length al < 49159" for x
    using set_insert_old [OF rep _ that, of k ops] set_insert_new [OF rep _ that, of k ops] S unfolding set_inv_def by fastforce
  show "\<exists>w'. set_step ops ty s (DRemove k) w = Some (RUnit, w') \<and> set_inv ty s (al_remove ty al k) w'"
    using set_remove_ok [OF rep, of k] S unfolding set_inv_def by fastforce
  show "\<exists>w'. set_step ops ty s DClear w = Some (RUnit, w') \<and> set_inv ty s [] w'"
    using set_clear_ok [OF rep] S unfolding set_inv_def by fastforce
  show "\<exists>w'. set_step ops ty s DSize w = Some (RNat (length al), w') \<and> set_inv ty s al w'"
    using set_repD(1) [OF rep] set_size_al [OF rep] rep S by (auto simp: hlt_set_size_def set_inv_def)
  show "\<exists>w'. set_step ops ty s (DExists k) w = Some (RBool (al_has ty al k), w') \<and> set_inv ty s al w'"
    using set_exists_ok [OF rep, of ops k] S unfolding set_inv_def by fastforce
  show "\<exists>w'. set_step ops ty s (DLookup k) w = Some (fill None (RVal (al_lookup ty al k)), w') \<and> set_inv ty s al w'"
    using set_exists_ok [OF rep, of ops k] S unfolding set_inv_def al_lookup_unit fill_None by fastforce
qed

section \<open>Cloning\<close>

text \<open>Copying a map without a timer manager, slot by slot: the copy has the entries of the slots \<open>A\<close> that have been visited.\<close>

definition copied :: "hlt_map \<Rightarrow> nat set \<Rightarrow> (val, khval_map) khash \<Rightarrow> bool" where
  "copied S A h \<longleftrightarrow> kh_inv (m_tkey S) h \<and> kh_n_buckets h \<in> set (0 # small_sizes) \<and> A \<subseteq> slots (m_hash S) \<and> entries h = entry (m_hash S) ` A"

lemma copied_fresh:
  assumes t: "map_tab src S w0" and c: "copied S A h" and i: "i \<in> slots (m_hash S) - A" and k: "kh_keys (m_hash S) ! i = Some k"
  shows "\<nexists>j. kh_at (m_tkey S) h k j"
proof
  assume "\<exists>j. kh_at (m_tkey S) h k j"
  then obtain v k' where "(Some k', v) \<in> entries h" "ti_equal (m_tkey S) k' k"
    using kh_at_entries [OF kh_keys_ok_inv, of "m_tkey S" h k] c by (metis copied_def)
  then obtain j where j: "j \<in> A" "kh_keys (m_hash S) ! j = Some k'" using c by (auto simp: copied_def entry_def)
  then have "j \<in> slots (m_hash S)" using c by (auto simp: copied_def)
  then have "i = j" using tab_okD(7) [OF t] i j k \<open>ti_equal (m_tkey S) k' k\<close> unfolding kh_keys_ok_def by fastforce
  then show False using i j by simp
qed

lemma copied_size:
  assumes t: "map_tab src S w0" and c: "copied S A h"
  shows "kh_size h \<le> kh_size (m_hash S)"
proof -
  have "finite (slots (m_hash S))" by (simp add: slots_def)
  then have "card (entries h) \<le> card (entries (m_hash S))" using c unfolding copied_def entries_def [of "m_hash S"] by (metis card_mono finite_imageI image_mono)
  then show ?thesis using card_entries [OF tab_okD(1,2) [OF t]] card_entries [OF tab_okD(1) [OF t], of h] c by (simp add: copied_def)
qed

lemma clone_entry_ok:
  assumes t: "map_tab src S w0" and S: "m_tmgr S = None" "kh_size (m_hash S) < 49159"
    and D: "mw_maps w dst = Some (S\<lparr>m_hash := h\<rparr>)" and c: "copied S A h" and i: "i \<in> slots (m_hash S) - A"
  shows "\<exists>h'. map_clone_entry S dst i w = Some (put_map dst (S\<lparr>m_hash := h'\<rparr>) w) \<and> copied S (insert i A) h'"
proof -
  note d = tab_okD [OF t]
  have i': "i \<in> slots (m_hash S)" using i by simp
  from full_at [OF d(4) i'] obtain k v x where
    v: "kh_keys (m_hash S) ! i = Some k" "kh_vals (m_hash S) ! i = Some v" "mv_val v = Some x" "(Some k, Some v) \<in> entries (m_hash S)" by auto
  have "mv_timer v = None" using tab_timer [OF t v(4)] S(1) by (cases "mv_timer v") auto
  then have ev: "v = \<lparr>mv_val = Some x, mv_timer = None\<rparr>" using v(3) by simp
  have ch: "kh_inv (m_tkey S) h" "kh_n_buckets h \<in> set (0 # small_sizes)" "entries h = entry (m_hash S) ` A" "A \<subseteq> slots (m_hash S)"
    using c by (simp_all add: copied_def)
  have "kh_room h" using ch(2) copied_size [OF t c] S(2) by (simp add: kh_room_def)
  from put_new [OF d(1) ch(1) this copied_fresh [OF t c i v(1)]] obtain j r h1 where
    h1: "kh_put (m_tkey S) h k = Some (j, r, h1)" "r \<noteq> 0" "one_new (m_tkey S) h h1 j k" by blast
  from one_new_set [OF h1(3), of v] obtain h2 where
    h2: "kh_set_value h1 j v = Some h2" "one_new (m_tkey S) h h2 j k" "entries h2 = insert (Some k, Some v) (entries h)" by blast
  have "copied S (insert i A) h2" using h2(2,3) ch i' v(1,2) by (simp add: copied_def one_new_def entry_def)
  moreover have "map_clone_entry S dst i w = Some (put_map dst (S\<lparr>m_hash := h2\<rparr>) w)"
    using kh_exist_at [OF d(2), of i] i' kh_value_at [OF d(2) i'] v(1-3) D h1(1,2) h2(1) S(1) ev by (simp add: map_clone_entry_def slots_def)
  ultimately show ?thesis by blast
qed

lemma clone_loop_ok:
  assumes t: "map_tab src S w0" and S: "m_tmgr S = None" "kh_size (m_hash S) < 49159"
  shows "distinct is \<Longrightarrow> \<forall>i\<in>set is. i < kh_n_buckets (m_hash S) \<and> i \<notin> A \<Longrightarrow> mw_maps w dst = Some (S\<lparr>m_hash := h\<rparr>) \<Longrightarrow> copied S A h \<Longrightarrow>
    \<exists>h' w'. map_clone_loop S dst is w = Some w' \<and> copied S (A \<union> (slots (m_hash S) \<inter> set is)) h' \<and> w' = put_map dst (S\<lparr>m_hash := h'\<rparr>) w"
proof (induction "is" arbitrary: A h w)
  case Nil
  then have "put_map dst (S\<lparr>m_hash := h\<rparr>) w = w" by (simp add: put_map_def fun_upd_idem)
  then show ?case using Nil by (intro exI [of _ h] exI [of _ w]) simp
next
  case (Cons i "is")
  have ex: "kh_exist (m_hash S) i = Some (i \<in> slots (m_hash S))" using kh_exist_at [OF tab_okD(2) [OF t]] Cons.prems(2) by simp
  show ?case
  proof (cases "i \<in> slots (m_hash S)")
    case False
    then have "map_clone_entry S dst i w = Some w" using ex by (simp add: map_clone_entry_def)
    moreover have "slots (m_hash S) \<inter> set (i # is) = slots (m_hash S) \<inter> set is" using False by auto
    ultimately show ?thesis using Cons.IH [OF _ _ Cons.prems(3,4)] Cons.prems(1,2) by simp
  next
    case True
    then have "i \<in> slots (m_hash S) - A" using Cons.prems(2) by simp
    from clone_entry_ok [OF t S Cons.prems(3,4) this] obtain h1 where
      h1: "map_clone_entry S dst i w = Some (put_map dst (S\<lparr>m_hash := h1\<rparr>) w)" "copied S (insert i A) h1" by blast
    from Cons.IH [OF _ _ _ h1(2), of "put_map dst (S\<lparr>m_hash := h1\<rparr>) w"] Cons.prems(1,2) obtain h' where
      "map_clone_loop S dst is (put_map dst (S\<lparr>m_hash := h1\<rparr>) w) = Some (put_map dst (S\<lparr>m_hash := h'\<rparr>) (put_map dst (S\<lparr>m_hash := h1\<rparr>) w))"
      "copied S (insert i A \<union> (slots (m_hash S) \<inter> set is)) h'" by auto
    moreover have "insert i A \<union> (slots (m_hash S) \<inter> set is) = A \<union> (slots (m_hash S) \<inter> set (i # is))" using True by auto
    moreover have "put_map dst (S\<lparr>m_hash := h'\<rparr>) (put_map dst (S\<lparr>m_hash := h1\<rparr>) w) = put_map dst (S\<lparr>m_hash := h'\<rparr>) w" by (simp add: put_map_def)
    ultimately show ?thesis using h1(1) by auto
  qed
qed

lemma map_clone_ok:
  assumes rep: "map_rep src S al w" and S: "m_tmgr S = None" and len: "length al < 49159" and nf: "\<nexists>f. m_default S = DefaultFunction f"
  shows "\<exists>h. hlt_map_clone_init ops here dst src w = Some (put_map dst (S\<lparr>m_hash := h\<rparr>) w) \<and>
    map_rep dst (S\<lparr>m_hash := h\<rparr>) al (put_map dst (S\<lparr>m_hash := h\<rparr>) w)"
proof -
  have at: "mw_maps w src = Some S" and t: "map_tab src S w" and al: "al_ok (m_tkey S) al" "set al = kvs map_val (entries (m_hash S))"
    and fr: "fresh_timers w" "clock_fits (m_tmgr S) (m_timeout S) w" using rep by (simp_all add: map_rep_def)
  let ?w = "put_map dst (S\<lparr>m_hash := kh_init\<rparr>) w" and ?n = "kh_n_buckets (m_hash S)"
  have c0: "copied S {} kh_init" using kh_init_inv(1) by (simp add: copied_def entries_def) (simp add: kh_init_def)
  have sz: "kh_size (m_hash S) < 49159" using map_size_al [OF rep] len by simp
  have all: "{} \<union> (slots (m_hash S) \<inter> set [0..<?n]) = slots (m_hash S)" by (auto simp: slots_def)
  from clone_loop_ok [OF t S sz, of "[0..<?n]" "{}" ?w dst kh_init] c0 obtain h where
    h: "map_clone_loop S dst [0..<?n] ?w = Some (put_map dst (S\<lparr>m_hash := h\<rparr>) ?w)" "copied S (slots (m_hash S)) h" unfolding all by auto
  have same: "put_map dst (S\<lparr>m_hash := h\<rparr>) ?w = put_map dst (S\<lparr>m_hash := h\<rparr>) w" by (simp add: put_map_def)
  have S': "S\<lparr>m_tmgr := None, m_default := m_default S, m_hash := kh_init\<rparr> = S\<lparr>m_hash := kh_init\<rparr>" using S by simp
  have d: "clone_default (m_default S) = Some (m_default S)" using nf by (cases "m_default S") auto
  have "hlt_map_clone_init ops here dst src w =
      map_clone_loop S dst [0..<?n] (put_map dst (S\<lparr>m_tmgr := None, m_default := m_default S, m_hash := kh_init\<rparr>) w)"
    using at S d by (simp add: hlt_map_clone_init_def)
  also have "\<dots> = Some (put_map dst (S\<lparr>m_hash := h\<rparr>) w)" unfolding S' h(1) same ..
  finally have run: "hlt_map_clone_init ops here dst src w = Some (put_map dst (S\<lparr>m_hash := h\<rparr>) w)" .
  have e: "entries h = entries (m_hash S)" using h(2) by (simp add: copied_def entries_def)
  have "tlinks (CMap src) mv_timer (entries (m_hash S)) = {}" using tab_okD(6) [OF t S] .
  then have "tlinks (CMap dst) mv_timer (entries h) = {}" unfolding e tlinks_def by blast
  then have "map_tab dst (S\<lparr>m_hash := h\<rparr>) w"
    unfolding tab_ok_def using h(2) tab_okD(1,4) [OF t] e S by (simp add: copied_def links_ok_def)
  from map_rep_put [OF this al(1) _ fr] run show ?thesis using al(2) e by auto
qed

section \<open>Properties\<close>

text \<open>A new map, and one for which expiration is activated while it is empty.\<close>

lemma map_new_inv:
  fixes w :: "'a map_world_scheme"
  assumes ty: "wf_type ty" and fr: "fresh_timers w" and g: "\<forall>g. tm = Some g \<longrightarrow> mgr_inv g w" and fit: "clock_fits tm 0 w"
  shows "map_inv ty None (fst (hlt_map_new ty tm w)) [] (snd (hlt_map_new ty tm w))"
proof -
  define w1 where "w1 = w\<lparr>tw_next := tw_next w + 1\<rparr>"
  have "links_ok tm 0 {} w" using g by (simp add: links_ok_def)
  then have "links_ok tm 0 {} w1" using links_ok_cong [of w1 w tm 0 "{}"] by (simp add: w1_def)
  moreover have "clock_fits tm 0 w1" "fresh_timers w1" using fit fr by (auto simp: w1_def clock_fits_def clocks_def fresh_timers_def)
  ultimately show ?thesis using ty kh_init_inv(1) [of ty] unfolding map_inv_def hlt_map_new_def map_clear_default_def w1_def [symmetric]
    by (auto simp: map_default_is_def map_rep_def tab_ok_def entries_def tlinks_def full_def kvs_def al_ok_def)
qed

lemma map_timeout_inv:
  fixes w :: "'a map_world_scheme"
  assumes inv: "map_inv ty d m [] w" and g: "\<And>M g. mw_maps w m = Some M \<Longrightarrow> g = the_mgr (m_tmgr M) w \<Longrightarrow> mgr_inv g w \<and> clock_fits (Some g) n w"
  shows "\<exists>w'. hlt_map_timeout m st n w = Some w' \<and> map_inv ty d m [] w'"
proof -
  from inv obtain M where M: "map_rep m M [] w" "m_tkey M = ty" "map_default_is d M" by (auto simp: map_inv_def)
  then have r: "mw_maps w m = Some M" "map_tab m M w" "kvs map_val (entries (m_hash M)) = {}" "fresh_timers w" by (auto simp: map_rep_def)
  let ?g = "the_mgr (m_tmgr M) w"
  have gi: "mgr_inv ?g w" "clock_fits (Some ?g) n w" using g [OF r(1) refl] by simp_all
  let ?M = "M\<lparr>m_timeout := n, m_strategy := st, m_tmgr := Some ?g\<rparr>"
  have tm: "(if m_tmgr M = None then Some (tw_ctx_tmgr w) else m_tmgr M) = Some ?g" by (auto simp: the_mgr_def)
  have run: "hlt_map_timeout m st n w = Some (put_map m ?M w)" unfolding hlt_map_timeout_def using r(1) tm by simp
  have "entries (m_hash M) = {}" by (rule kvs_empty [OF tab_okD(4) [OF r(2)] r(3)])
  then have "map_tab m ?M w" unfolding tab_ok_def using tab_okD(1-4) [OF r(2)] gi by (simp add: links_ok_def tlinks_def)
  then have "map_rep m ?M [] (put_map m ?M w)" using r(3,4) gi by (simp add: map_rep_def al_ok_def)
  then show ?thesis using run M(2,3) unfolding map_inv_def map_default_is_def by auto
qed

lemma map_default_inv:
  assumes "map_inv ty d m al w"
  shows "\<exists>w'. hlt_map_default m (Inl x) w = Some w' \<and> map_inv ty (Some x) m al w'"
proof -
  from assms obtain M where M: "map_rep m M al w" "m_tkey M = ty" by (auto simp: map_inv_def)
  have "map_rep m (M\<lparr>m_default := DefaultValue x\<rparr>) al (put_map m (M\<lparr>m_default := DefaultValue x\<rparr>) w)"
    using M(1) by (simp add: map_rep_def)
  then show ?thesis using M by (auto simp: hlt_map_default_def map_clear_default_def map_inv_def map_default_is_def map_rep_def)
qed

lemma set_new_inv:
  fixes w :: "'a map_world_scheme"
  assumes ty: "wf_type ty" and fr: "fresh_timers w" and g: "\<forall>g. tm = Some g \<longrightarrow> mgr_inv g w" and fit: "clock_fits tm 0 w"
  shows "set_inv ty (fst (hlt_set_new ty tm w)) [] (snd (hlt_set_new ty tm w))"
proof -
  define w1 where "w1 = w\<lparr>tw_next := tw_next w + 1\<rparr>"
  have "links_ok tm 0 {} w" using g by (simp add: links_ok_def)
  then have "links_ok tm 0 {} w1" using links_ok_cong [of w1 w tm 0 "{}"] by (simp add: w1_def)
  moreover have "clock_fits tm 0 w1" "fresh_timers w1" using fit fr by (auto simp: w1_def clock_fits_def clocks_def fresh_timers_def)
  ultimately show ?thesis using ty kh_init_inv(1) [of ty] unfolding set_inv_def hlt_set_new_def w1_def [symmetric]
    by (auto simp: set_rep_def tab_ok_def entries_def tlinks_def full_def kvs_def al_ok_def)
qed

lemma set_timeout_inv:
  fixes w :: "'a map_world_scheme"
  assumes inv: "set_inv ty s [] w" and g: "\<And>S g. mw_sets w s = Some S \<Longrightarrow> g = the_mgr (s_tmgr S) w \<Longrightarrow> mgr_inv g w \<and> clock_fits (Some g) n w"
  shows "\<exists>w'. hlt_set_timeout s st n w = Some w' \<and> set_inv ty s [] w'"
proof -
  from inv obtain S where S: "set_rep s S [] w" "s_tkey S = ty" by (auto simp: set_inv_def)
  note r = set_repD [OF S(1)]
  let ?g = "the_mgr (s_tmgr S) w"
  have gi: "mgr_inv ?g w" "clock_fits (Some ?g) n w" using g [OF r(1) refl] by simp_all
  let ?S = "S\<lparr>s_timeout := n, s_strategy := st, s_tmgr := Some ?g\<rparr>"
  have tm: "(if s_tmgr S = None then Some (tw_ctx_tmgr w) else s_tmgr S) = Some ?g" by (auto simp: the_mgr_def)
  have run: "hlt_set_timeout s st n w = Some (put_set s ?S w)" unfolding hlt_set_timeout_def using r(1) tm by simp
  have "kvs (\<lambda>_. ()) (entries (s_hash S)) = {}" using r(4) by simp
  then have "entries (s_hash S) = {}" by (rule kvs_empty [OF tab_okD(4) [OF r(2)]])
  then have "set_tab s ?S w" unfolding tab_ok_def using tab_okD(1-4) [OF r(2)] gi by (simp add: links_ok_def tlinks_def)
  then have "set_rep s ?S [] (put_set s ?S w)" using r(4,5) gi by (simp add: set_rep_def al_ok_def)
  then show ?thesis using run S(2) unfolding set_inv_def by auto
qed

text \<open>A state with one timer manager, at time 5 and without timers; and actions that do nothing.\<close>

definition idle_world :: map_world where
  "idle_world = \<lparr>tw_timers = Map.empty, tw_mgrs = [9 \<mapsto> \<lparr>mgr_time = 5, mgr_timers = priority_queue_init 10\<rparr>], tw_next = 10, tw_ctx_tmgr = 9,
     tw_vid_main = True, tw_global_time = 0, tw_excpt = None, lw_nodes = Map.empty, lw_lists = Map.empty, vw_vecs = Map.empty,
     mw_maps = Map.empty, mw_sets = Map.empty\<rparr>"

definition map_actions :: "map_world expiry_ops" where
  "map_actions = \<lparr>x_function = \<lambda>_. Some, x_list = hlt_list_expire, x_map = hlt_map_expire, x_set = hlt_set_expire,
     x_vector = hlt_vector_expire, x_profiler = \<lambda>_. Some\<rparr>"

lemma idle_mgr:
  assumes "tw_timers w = Map.empty" "tw_mgrs w = tw_mgrs idle_world"
  shows "mgr_inv 9 w" "n \<le> 1000 \<Longrightarrow> clock_fits (Some 9) n w"
  using assms by (auto simp: mgr_inv_def queue_inv_def mgr_elems_def idle_world_def pq_init_inv pq_init_elems clock_fits_def clocks_def)

definition timed_map :: map_world where
  "timed_map = the (hlt_map_timeout 10 expire_strategy_access 30 (snd (hlt_map_new num_type (Some 9) idle_world)))"

definition timed_set :: map_world where
  "timed_set = the (hlt_set_timeout 10 expire_strategy_access 30 (snd (hlt_set_new num_type None idle_world)))"

lemma timed_inv: "map_inv num_type None 10 [] timed_map" "set_inv num_type 10 [] timed_set"
proof -
  have fr: "fresh_timers idle_world" by (simp add: fresh_timers_def idle_world_def)
  have nx: "tw_next idle_world = 10" "tw_timers idle_world = Map.empty" "tw_ctx_tmgr idle_world = 9" by (simp_all add: idle_world_def)
  let ?m = "snd (hlt_map_new num_type (Some 9) idle_world)" and ?s = "snd (hlt_set_new num_type None idle_world)"
  have m: "map_inv num_type None 10 [] ?m"
    using map_new_inv [OF num_type_wf fr, of "Some 9"] idle_mgr [of idle_world] nx by (simp add: hlt_map_new_def)
  have "mgr_inv 9 ?m" "clock_fits (Some 9) 30 ?m" by (rule idle_mgr; simp add: hlt_map_new_def nx)+
  moreover have "the_mgr (m_tmgr M) ?m = 9" if "mw_maps ?m 10 = Some M" for M
    using that nx by (auto simp: hlt_map_new_def map_clear_default_def the_mgr_def)
  ultimately show "map_inv num_type None 10 [] timed_map"
    using map_timeout_inv [OF m, of 30 expire_strategy_access] by (auto simp: timed_map_def)
  have s: "set_inv num_type 10 [] ?s"
    using set_new_inv [OF num_type_wf fr, of None] nx by (simp add: hlt_set_new_def clock_fits_def)
  have "mgr_inv 9 ?s" "clock_fits (Some 9) 30 ?s" by (rule idle_mgr; simp add: hlt_set_new_def nx)+
  moreover have "the_mgr (s_tmgr S) ?s = 9" if "mw_sets ?s 10 = Some S" for S
    using that nx by (auto simp: hlt_set_new_def the_mgr_def)
  ultimately show "set_inv num_type 10 [] timed_set"
    using set_timeout_inv [OF s, of 30 expire_strategy_access] by (auto simp: timed_set_def)
qed

definition three_inserted :: "map_world expiry_ops \<Rightarrow> map_world option" where
  "three_inserted ops = do {
     w1 \<leftarrow> hlt_map_insert ops num_type (Some 10) 4 40 timed_map;
     w2 \<leftarrow> hlt_map_insert ops num_type (Some 10) 5 50 w1;
     w3 \<leftarrow> hlt_map_insert ops num_type (Some 10) 9 90 w2;
     w4 \<leftarrow> hlt_map_remove num_type (Some 10) 4 w3;
     hlt_map_remove num_type (Some 10) 5 w4
   }"

text \<open>A map without a timer manager that holds the value 70 for the key 7.\<close>

definition slot_table :: "'v \<Rightarrow> (nat, 'v) khash" where
  "slot_table v = (case the (kh_put num_type kh_init 7) of (s, _, h) \<Rightarrow> the (kh_set_value h s v))"

lemma slot_table_ok: "kh_inv num_type (slot_table v)" "kh_n_buckets (slot_table v) \<in> set small_sizes" "entries (slot_table v) = {(Some 7, Some v)}"
proof -
  have "\<nexists>i. kh_at num_type (kh_init :: (nat, 'a) khash) 7 i" by (simp add: kh_at_def)
  from put_new [OF num_type_wf kh_init_inv this] obtain s r h where
    h: "kh_put num_type (kh_init :: (nat, 'a) khash) 7 = Some (s, r, h)" "one_new num_type kh_init h s 7" by blast
  from one_new_set [OF h(2), of v] h(1)
  show "kh_inv num_type (slot_table v)" "kh_n_buckets (slot_table v) \<in> set small_sizes" "entries (slot_table v) = {(Some 7, Some v)}"
    by (auto simp: slot_table_def one_new_def entries_def [of kh_init])
qed

definition plain_map :: hlt_map where
  "plain_map = \<lparr>m_tkey = num_type, m_tmgr = None, m_timeout = 0, m_strategy = hlt_enum_unset, m_default = NoDefault,
     m_hash = slot_table \<lparr>mv_val = Some 70, mv_timer = None\<rparr>\<rparr>"

definition plain_map_world :: map_world where
  "plain_map_world = idle_world\<lparr>mw_maps := [10 \<mapsto> plain_map]\<rparr>"

lemma plain_map_rep: "map_rep 10 plain_map [(7, 70)] plain_map_world"
  using slot_table_ok [of "\<lparr>mv_val = Some 70, mv_timer = None\<rparr>"] num_type_wf
  by (simp add: map_rep_def plain_map_world_def plain_map_def tab_ok_def full_def tlinks_def links_ok_def al_ok_def kvs_def clock_fits_def
      fresh_timers_def idle_world_def)

text \<open>
  C5: A map follows the specification of dictionaries. Any sequence of insertions, removals, lookups, membership tests, size queries and
  clearings on a map, with or without expiration, with or without a default value (but without a default function), and whatever the hash
  function, runs without undefined behaviour and returns what the same operations
  return on an association list whose keys are compared by the key type; the map then stands for the list that results. A lookup without entry returns the
  default; without a default it returns nothing and raises the index error, and no other operation
  raises an exception. The number of entries at the start plus the number of operations must not exceed 49159.
\<close>

theorem map_refines_dictionary:
  assumes "map_inv ty d m al w" "length al + length as \<le> 49159"
  shows "\<exists>w'. run_dict (map_step run ops ty m) as w = Some (map (fill d) (fst (dspec_run ty as al)), w') \<and>
    map_inv ty d m (snd (dspec_run ty as al)) w' \<and> tw_excpt w' = dspec_excpt ty d as al (tw_excpt w)"
  by (rule mr.run_excpt [OF assms])

text \<open>Without a default, and with the default 77.\<close>

theorem map_refines_dictionary_witness:
  "(\<exists>w'. run_dict (map_step (\<lambda>_ _ _. None) map_actions num_type 10)
      [DInsert 4 40, DInsert 5 50, DInsert 9 90, DInsert 5 51, DLookup 5, DRemove 4, DExists 4, DSize, DLookup 4] timed_map =
    Some ([RUnit, RUnit, RUnit, RUnit, RVal (Some 51), RUnit, RBool False, RNat 2, RVal None], w') \<and>
    map_inv num_type None 10 [(5, 51), (9, 90)] w' \<and> tw_excpt w' = Some IndexError) \<and>
   (\<exists>w w'. hlt_map_default 10 (Inl 77) timed_map = Some w \<and>
    run_dict (map_step (\<lambda>_ _ _. None) map_actions num_type 10) [DInsert 4 40, DLookup 5] w = Some ([RUnit, RVal (Some 77)], w') \<and>
    map_inv num_type (Some 77) 10 [(4, 40)] w' \<and> tw_excpt w' = tw_excpt w)"
proof
  let ?as = "[DInsert 4 (40 :: val), DInsert 5 50, DInsert 9 90, DInsert 5 51, DLookup 5, DRemove 4, DExists 4, DSize, DLookup 4]"
  have "dspec_run num_type ?as ([] :: (val \<times> val) list) = ([RUnit, RUnit, RUnit, RUnit, RVal (Some 51), RUnit, RBool False, RNat 2, RVal None], [(5, 51), (9, 90)])"
    "dspec_excpt num_type None ?as ([] :: (val \<times> val) list) (tw_excpt timed_map) = Some IndexError"
    by code_simp+
  then show "\<exists>w'. run_dict (map_step (\<lambda>_ _ _. None) map_actions num_type 10) ?as timed_map =
      Some ([RUnit, RUnit, RUnit, RUnit, RVal (Some 51), RUnit, RBool False, RNat 2, RVal None], w') \<and>
      map_inv num_type None 10 [(5, 51), (9, 90)] w' \<and> tw_excpt w' = Some IndexError"
    using map_refines_dictionary [OF timed_inv(1), of ?as "\<lambda>_ _ _. None" map_actions] by (simp del: run_dict.simps dspec_run.simps dspec_excpt.simps)
next
  let ?as = "[DInsert 4 (40 :: val), DLookup 5]"
  from map_default_inv [OF timed_inv(1), of 77] obtain w where
    w: "hlt_map_default 10 (Inl 77) timed_map = Some w" "map_inv num_type (Some 77) 10 [] w" by blast
  have "dspec_run num_type ?as ([] :: (val \<times> val) list) = ([RUnit, RVal None], [(4, 40)])"
    "dspec_excpt num_type (Some 77) ?as ([] :: (val \<times> val) list) e = e" for e
    by (code_simp, simp)
  then show "\<exists>w w'. hlt_map_default 10 (Inl 77) timed_map = Some w \<and>
      run_dict (map_step (\<lambda>_ _ _. None) map_actions num_type 10) ?as w = Some ([RUnit, RVal (Some 77)], w') \<and>
      map_inv num_type (Some 77) 10 [(4, 40)] w' \<and> tw_excpt w' = tw_excpt w"
    using w map_refines_dictionary [OF w(2), of ?as "\<lambda>_ _ _. None" map_actions] by (simp del: run_dict.simps dspec_run.simps dspec_excpt.simps)
qed

text \<open>
  C6: A set follows the specification of dictionaries without values, under the same conditions on the key type and the number of operations.
\<close>

theorem set_refines_dictionary:
  assumes "set_inv ty s al w" "length al + length as \<le> 49159"
  shows "\<exists>w'. run_dict (set_step ops ty s) as w = Some (fst (dspec_run ty as al), w') \<and> set_inv ty s (snd (dspec_run ty as al)) w'"
  using sd.run_follows [OF assms] by simp

theorem set_refines_dictionary_witness:
  "\<exists>w'. run_dict (set_step map_actions num_type 10) [DInsert 4 (), DInsert 5 (), DInsert 4 (), DExists 4, DRemove 4, DExists 4, DSize] timed_set =
    Some ([RUnit, RUnit, RUnit, RBool True, RUnit, RBool False, RNat 1], w') \<and> set_inv num_type 10 [(5, ())] w'"
proof -
  let ?as = "[DInsert 4 (), DInsert 5 (), DInsert 4 (), DExists 4, DRemove 4, DExists 4, DSize]"
  have "dspec_run num_type ?as [] = ([RUnit, RUnit, RUnit, RBool True, RUnit, RBool False, RNat 1], [(5, ())])"
    by code_simp
  then show ?thesis using set_refines_dictionary [OF timed_inv(2), of ?as map_actions] by (simp del: run_dict.simps dspec_run.simps)
qed

text \<open>
  Cloning a map that has no timer manager and no default function gives a map of its own with the same keys and values; nothing else in the state changes.
\<close>

theorem map_clone_copies:
  assumes "map_rep src S al w" "m_tmgr S = None" "length al < 49159" "\<nexists>f. m_default S = DefaultFunction f"
  shows "\<exists>h. hlt_map_clone_init ops here dst src w = Some (put_map dst (S\<lparr>m_hash := h\<rparr>) w) \<and>
    map_rep dst (S\<lparr>m_hash := h\<rparr>) al (put_map dst (S\<lparr>m_hash := h\<rparr>) w)"
  by (rule map_clone_ok [OF assms])

theorem map_clone_copies_witness:
  "\<exists>h. hlt_map_clone_init map_actions False 50 10 plain_map_world =
      Some (put_map 50 (plain_map\<lparr>m_hash := h\<rparr>) plain_map_world) \<and>
    map_rep 50 (plain_map\<lparr>m_hash := h\<rparr>) [(7, 70)] (put_map 50 (plain_map\<lparr>m_hash := h\<rparr>) plain_map_world)"
  by (rule map_clone_copies [OF plain_map_rep]) (simp_all add: plain_map_def)

text \<open>
  Cloning a map whose entries have timers reads the wrong timers. The variable for the slot of the copy hides the one for the slot of the
  original, so that the expiration time is taken from that slot of the original. For a map with the key 9 that also had the keys 4 and 5, hashed to
  themselves, this slot has never been used, and the clone reads through an uninitialized pointer.
\<close>

theorem map_clone_wrong_slot:
  "case three_inserted map_actions of None \<Rightarrow> False | Some w \<Rightarrow> Option.is_none (hlt_map_clone_init map_actions True 50 10 w)"
  by code_simp

end
