(* ===== verification/Expiry.thy ===== *)
theory Expiry
  imports MapSetCorrect
begin

text \<open>
  All containers of one timer manager. The contract \<open>quiet_expiry\<close> is interpreted on the actions of lists, vectors, maps and sets
  together (\<open>ax\<close>), which gives what advancing the manager's time does to all of them. The contract \<open>traversal\<close> is interpreted on the
  iterators of maps (\<open>mt\<close>) and sets (\<open>st\<close>).
\<close>

section \<open>Expiring entries of tables\<close>

abbreviation all_ops :: "'a map_world_scheme expiry_ops \<Rightarrow> 'a map_world_scheme expiry_ops" where
  "all_ops ops \<equiv> (container_ops ops)\<lparr>x_map := hlt_map_expire, x_set := hlt_set_expire\<rparr>"

abbreviation assigned :: "khval_map \<Rightarrow> bool" where
  "assigned v \<equiv> mv_val v \<noteq> None"

definition table_ok :: "('v \<Rightarrow> bool) \<Rightarrow> val type_info \<Rightarrow> (val, 'v) khash \<Rightarrow> bool" where
  "table_ok P ty h \<longleftrightarrow> wf_type ty \<and> kh_inv ty h \<and> full P (entries h)"

definition has_key :: "(val, 'v) khash \<Rightarrow> val \<Rightarrow> bool" where
  "has_key h k \<longleftrightarrow> (\<exists>v. (Some k, v) \<in> entries h)"

text \<open>The key that a timer's cookie has is the key that the table stores, so exactly its entry goes.\<close>

lemma table_expire:
  assumes ok: "table_ok P ty h" and k: "has_key h k"
  shows "\<exists>i v. kh_get ty h k = Some i \<and> i \<noteq> kh_n_buckets h \<and> kh_value h i = Some v \<and> P v \<and>
    (\<forall>u. \<exists>h1 h2. kh_set_value h i u = Some h1 \<and> kh_key h1 i = Some k \<and> kh_del h1 i = Some h2 \<and> table_ok P ty h2 \<and>
      entries h2 = {e \<in> entries h. fst e \<noteq> Some k})"
proof -
  have t: "wf_type ty" "kh_inv ty h" "full P (entries h)" using ok by (simp_all add: table_ok_def)
  from k obtain i where i: "i \<in> slots h" "kh_keys h ! i = Some k" by (auto simp: has_key_def entries_def entry_def)
  from full_at [OF t(3) i(1)] i(2) obtain v where v: "kh_vals h ! i = Some v" "P v" "(Some k, Some v) \<in> entries h" by auto
  have at: "kh_at ty h k i" using i wf_typeD(1) [OF t(1)] by (simp add: kh_at_def)
  have "e = (Some k, Some v) \<longleftrightarrow> fst e = Some k" if "e \<in> entries h" for e
    using kvs_unique [OF t(1,2) _ v(3) wf_typeD(1) [OF t(1)], of "snd e"] that by (cases e) auto
  then have only: "entries h - {(Some k, Some v)} = {e \<in> entries h. fst e \<noteq> Some k}" by blast
  have "\<exists>h1 h2. kh_set_value h i u = Some h1 \<and> kh_key h1 i = Some k \<and> kh_del h1 i = Some h2 \<and> table_ok P ty h2 \<and>
      entries h2 = {e \<in> entries h. fst e \<noteq> Some k}" for u
  proof -
    from slot_delete [OF t(1,2) i(1), of u] obtain h1 h2 where
      h: "kh_set_value h i u = Some h1" "kh_del h1 i = Some h2" "kh_key h1 i = kh_keys h ! i" "entries h2 = entries h - {entry h i}" "kh_inv ty h2"
      by blast
    have e: "entries h2 = {e \<in> entries h. fst e \<noteq> Some k}" using h(4) only i(2) v(1) by (simp add: entry_def)
    then have "table_ok P ty h2" using t(1) h(5) full_mono [OF t(3), of "entries h2"] by (auto simp: table_ok_def)
    then show ?thesis using h i(2) e by auto
  qed
  then show ?thesis using kh_get_ok(1) [OF t(1,2) at] i kh_value_at(1) [OF t(2) i(1)] v by (auto simp: slots_def)
qed

lemma map_expire_ok:
  assumes M: "mw_maps w m = Some M" and ok: "table_ok assigned (m_tkey M) (m_hash M)" and k: "has_key (m_hash M) k"
  shows "\<exists>h. hlt_map_expire m k w = Some (put_map m (M\<lparr>m_hash := h\<rparr>) w) \<and> table_ok assigned (m_tkey M) h \<and>
    entries h = {e \<in> entries (m_hash M). fst e \<noteq> Some k}"
proof -
  from table_expire [OF ok k] obtain i v where
    i: "kh_get (m_tkey M) (m_hash M) k = Some i" "i \<noteq> kh_n_buckets (m_hash M)" "kh_value (m_hash M) i = Some v" "mv_val v \<noteq> None" and
    del: "\<And>u. \<exists>h1 h2. kh_set_value (m_hash M) i u = Some h1 \<and> kh_key h1 i = Some k \<and> kh_del h1 i = Some h2 \<and>
      table_ok assigned (m_tkey M) h2 \<and> entries h2 = {e \<in> entries (m_hash M). fst e \<noteq> Some k}" by blast
  from del [of "v\<lparr>mv_timer := None\<rparr>"] show ?thesis using M i by (auto simp: hlt_map_expire_def map_drop_def)
qed

lemma set_expire_ok:
  assumes S: "mw_sets w s = Some S" and ok: "table_ok (\<lambda>_. True) (s_tkey S) (s_hash S)" and k: "has_key (s_hash S) k"
  shows "\<exists>h. hlt_set_expire s k w = Some (put_set s (S\<lparr>s_hash := h\<rparr>) w) \<and> table_ok (\<lambda>_. True) (s_tkey S) h \<and>
    entries h = {e \<in> entries (s_hash S). fst e \<noteq> Some k}"
proof -
  from table_expire [OF ok k] obtain i where
    i: "kh_get (s_tkey S) (s_hash S) k = Some i" "i \<noteq> kh_n_buckets (s_hash S)" and
    del: "\<And>u. \<exists>h1 h2. kh_set_value (s_hash S) i u = Some h1 \<and> kh_key h1 i = Some k \<and> kh_del h1 i = Some h2 \<and>
      table_ok (\<lambda>_. True) (s_tkey S) h2 \<and> entries h2 = {e \<in> entries (s_hash S). fst e \<noteq> Some k}" by blast
  from del [of None] show ?thesis using S i by (auto simp: hlt_set_expire_def set_drop_def)
qed

lemma tables_expire_quiet:
  "hlt_map_expire m k (w\<lparr>tw_timers := ts, tw_mgrs := ms\<rparr>) = map_option (\<lambda>w'. w'\<lparr>tw_timers := ts, tw_mgrs := ms\<rparr>) (hlt_map_expire m k w)"
  "hlt_set_expire m k (w\<lparr>tw_timers := ts, tw_mgrs := ms\<rparr>) = map_option (\<lambda>w'. w'\<lparr>tw_timers := ts, tw_mgrs := ms\<rparr>) (hlt_set_expire m k w)"
  by (auto simp: hlt_map_expire_def map_drop_def put_map_def hlt_set_expire_def set_drop_def put_set_def split: option.splits bind_splits)

section \<open>All containers\<close>

definition tables_ok :: "'a map_world_scheme \<Rightarrow> bool" where
  "tables_ok w \<longleftrightarrow> (\<forall>m M. mw_maps w m = Some M \<longrightarrow> table_ok assigned (m_tkey M) (m_hash M)) \<and>
     (\<forall>s S. mw_sets w s = Some S \<longrightarrow> table_ok (\<lambda>_. True) (s_tkey S) (s_hash S))"

fun all_live :: "(addr \<Rightarrow> addr list) \<Rightarrow> 'a map_world_scheme \<Rightarrow> timer_cookie \<Rightarrow> bool" where
  "all_live R w (CMap m k) \<longleftrightarrow> (\<exists>M. mw_maps w m = Some M \<and> has_key (m_hash M) k)"
| "all_live R w (CSet s k) \<longleftrightarrow> (\<exists>S. mw_sets w s = Some S \<and> has_key (s_hash S) k)"
| "all_live R w c \<longleftrightarrow> cookie_live R w c"

fun all_good :: "timer_cookie \<Rightarrow> 'a map_world_scheme \<Rightarrow> bool" where
  "all_good (CMap m k) w \<longleftrightarrow> (\<exists>M. mw_maps w m = Some M \<and> table_ok assigned (m_tkey M) (m_hash M) \<and> has_key (m_hash M) k)"
| "all_good (CSet s k) w \<longleftrightarrow> (\<exists>S. mw_sets w s = Some S \<and> table_ok (\<lambda>_. True) (s_tkey S) (s_hash S) \<and> has_key (s_hash S) k)"
| "all_good c w \<longleftrightarrow> container_good c w"

lemma containers_keep_tables:
  "hlt_list_expire l n w = Some w' \<Longrightarrow> mw_maps w' = mw_maps w \<and> mw_sets w' = mw_sets w"
  "hlt_vector_expire v i w = Some w' \<Longrightarrow> mw_maps w' = mw_maps w \<and> mw_sets w' = mw_sets w"
  by (auto simp: hlt_list_expire_def list_unlink_def set_node_def upd_def node_val_def hlt_vector_expire_def put_vec_def bind_eq_Some_conv
      split: option.splits if_splits)

lemma put_tables_keep [simp]:
  "lists_ok (put_map m M w) R \<longleftrightarrow> lists_ok w R" "lists_ok (put_set s S w) R \<longleftrightarrow> lists_ok w R"
  by (simp_all add: lists_ok_def list_shape_def node_val_def)

lemma put_tables_good [simp]:
  "container_good c (put_map m M w) \<longleftrightarrow> container_good c w" "container_good c (put_set s S w) \<longleftrightarrow> container_good c w"
  by (cases c; simp)+

interpretation ax: quiet_expiry "all_ops ops" all_good for ops :: "'a map_world_scheme expiry_ops"
proof (unfold_locales, goal_cases)
  case (1 c w ts ms)
  then show ?case by (cases c) (auto simp: expire_quiet vec_expire_quiet tables_expire_quiet)
next
  case (2 c w ts ms)
  then show ?case by (cases c) (auto simp: lists_ok_quiet)
next
  case (3 c w)
  then show ?case
  proof (cases c)
    case (CMap m k)
    with 3 show ?thesis using map_expire_ok [of w m _ k] by auto
  next
    case (CSet s k)
    with 3 show ?thesis using set_expire_ok [of w s _ k] by auto
  qed (use 3 cx.expire_good [of c w ops] in auto)
next
  case (4 c w c' w')
  show ?case
  proof (cases c)
    case (CMap m k)
    with 4(1) obtain M where M: "mw_maps w m = Some M" "table_ok assigned (m_tkey M) (m_hash M)" "has_key (m_hash M) k" by auto
    from map_expire_ok [OF M] obtain h where
      h: "hlt_map_expire m k w = Some (put_map m (M\<lparr>m_hash := h\<rparr>) w)" "table_ok assigned (m_tkey M) h"
        "entries h = {e \<in> entries (m_hash M). fst e \<noteq> Some k}" by blast
    have w': "w' = put_map m (M\<lparr>m_hash := h\<rparr>) w" using 4(4) h(1) CMap by simp
    have "has_key h k'" if "c' = CMap m k'" "has_key (m_hash M) k'" for k' using that 4(3) CMap h(3) by (auto simp: has_key_def)
    then show ?thesis using 4(2) M(1) h(2) unfolding w' by (cases c') auto
  next
    case (CSet s k)
    with 4(1) obtain S where S: "mw_sets w s = Some S" "table_ok (\<lambda>_. True) (s_tkey S) (s_hash S)" "has_key (s_hash S) k" by auto
    from set_expire_ok [OF S] obtain h where
      h: "hlt_set_expire s k w = Some (put_set s (S\<lparr>s_hash := h\<rparr>) w)" "table_ok (\<lambda>_. True) (s_tkey S) h"
        "entries h = {e \<in> entries (s_hash S). fst e \<noteq> Some k}" by blast
    have w': "w' = put_set s (S\<lparr>s_hash := h\<rparr>) w" using 4(4) h(1) CSet by simp
    have "has_key h k'" if "c' = CSet s k'" "has_key (s_hash S) k'" for k' using that 4(3) CSet h(3) by (auto simp: has_key_def)
    then show ?thesis using 4(2) S(1) h(2) unfolding w' by (cases c') auto
  next
    case (CList l n)
    then have run: "hlt_list_expire l n w = Some w'" using 4(4) by simp
    have "container_good c' w \<Longrightarrow> container_good c' w'" using cx.good_frame [of c w c' ops w'] 4 CList by simp
    then show ?thesis using 4(2) containers_keep_tables(1) [OF run] by (cases c') auto
  next
    case (CVector v i)
    then have run: "hlt_vector_expire v i w = Some w'" using 4(4) by simp
    have "container_good c' w \<Longrightarrow> container_good c' w'" using cx.good_frame [of c w c' ops w'] 4 CVector by simp
    then show ?thesis using 4(2) containers_keep_tables(2) [OF run] by (cases c') auto
  qed (use 4(1) in auto)
qed

text \<open>The maps and sets after the cookies \<open>cs\<close> have expired.\<close>

definition entries_after :: "(val \<Rightarrow> timer_cookie) \<Rightarrow> timer_cookie set \<Rightarrow> (val, 'v) khash \<Rightarrow> (val, 'v) khash \<Rightarrow> bool" where
  "entries_after ck cs h h' \<longleftrightarrow> entries h' = {e \<in> entries h. \<forall>k. fst e = Some k \<longrightarrow> ck k \<notin> cs}"

definition tables_after :: "timer_cookie set \<Rightarrow> 'a map_world_scheme \<Rightarrow> 'a map_world_scheme \<Rightarrow> bool" where
  "tables_after cs w w' \<longleftrightarrow>
     (\<forall>m. mw_maps w m = None \<longrightarrow> mw_maps w' m = None) \<and> (\<forall>s. mw_sets w s = None \<longrightarrow> mw_sets w' s = None) \<and>
     (\<forall>m M. mw_maps w m = Some M \<longrightarrow> (\<exists>h. mw_maps w' m = Some (M\<lparr>m_hash := h\<rparr>) \<and> table_ok assigned (m_tkey M) h \<and>
        entries_after (CMap m) cs (m_hash M) h)) \<and>
     (\<forall>s S. mw_sets w s = Some S \<longrightarrow> (\<exists>h. mw_sets w' s = Some (S\<lparr>s_hash := h\<rparr>) \<and> table_ok (\<lambda>_. True) (s_tkey S) h \<and>
        entries_after (CSet s) cs (s_hash S) h))"

lemma entries_after_trans: "entries_after ck cs h h1 \<Longrightarrow> entries_after ck ds h1 h2 \<Longrightarrow> entries_after ck (cs \<union> ds) h h2"
  unfolding entries_after_def by auto

lemma entries_after_same: "\<forall>k. ck k \<notin> cs \<Longrightarrow> entries_after ck cs h h"
  unfolding entries_after_def by auto

lemma tables_after_trans:
  assumes 1: "tables_after cs w w1" and 2: "tables_after ds w1 w2"
  shows "tables_after (cs \<union> ds) w w2"
proof -
  have "\<exists>h. mw_maps w2 m = Some (M\<lparr>m_hash := h\<rparr>) \<and> table_ok assigned (m_tkey M) h \<and> entries_after (CMap m) (cs \<union> ds) (m_hash M) h"
    if "mw_maps w m = Some M" for m M
  proof -
    from 1 that obtain h where h: "mw_maps w1 m = Some (M\<lparr>m_hash := h\<rparr>)" "entries_after (CMap m) cs (m_hash M) h" unfolding tables_after_def by blast
    from 2 h(1) obtain h' where "mw_maps w2 m = Some (M\<lparr>m_hash := h, m_hash := h'\<rparr>)" "table_ok assigned (m_tkey (M\<lparr>m_hash := h\<rparr>)) h'"
      "entries_after (CMap m) ds (m_hash (M\<lparr>m_hash := h\<rparr>)) h'" unfolding tables_after_def by blast
    then show ?thesis using entries_after_trans [OF h(2)] by auto
  qed
  moreover have "\<exists>h. mw_sets w2 s = Some (S\<lparr>s_hash := h\<rparr>) \<and> table_ok (\<lambda>_. True) (s_tkey S) h \<and> entries_after (CSet s) (cs \<union> ds) (s_hash S) h"
    if "mw_sets w s = Some S" for s S
  proof -
    from 1 that obtain h where h: "mw_sets w1 s = Some (S\<lparr>s_hash := h\<rparr>)" "entries_after (CSet s) cs (s_hash S) h" unfolding tables_after_def by blast
    from 2 h(1) obtain h' where "mw_sets w2 s = Some (S\<lparr>s_hash := h, s_hash := h'\<rparr>)" "table_ok (\<lambda>_. True) (s_tkey (S\<lparr>s_hash := h\<rparr>)) h'"
      "entries_after (CSet s) ds (s_hash (S\<lparr>s_hash := h\<rparr>)) h'" unfolding tables_after_def by blast
    then show ?thesis using entries_after_trans [OF h(2)] by auto
  qed
  moreover have "mw_maps w m = None \<Longrightarrow> mw_maps w2 m = None" "mw_sets w m = None \<Longrightarrow> mw_sets w2 m = None" for m
    using assms unfolding tables_after_def by blast+
  ultimately show ?thesis unfolding tables_after_def by (intro conjI allI impI)
qed

lemma tables_after_same:
  assumes "tables_ok w" "mw_maps w' = mw_maps w" "mw_sets w' = mw_sets w" "\<forall>m k. CMap m k \<notin> cs \<and> CSet m k \<notin> cs"
  shows "tables_after cs w w'"
proof -
  have "entries_after (CMap m) cs h h" "entries_after (CSet m) cs g g" for m and h :: "(val, khval_map) khash" and g :: "(val, ptr) khash"
    using assms(4) by (auto intro: entries_after_same)
  then show ?thesis using assms(1-3) unfolding tables_after_def tables_ok_def
    by (auto intro!: exI [of _ "m_hash _"] exI [of _ "s_hash _"])
qed

lemma tables_after_ok:
  assumes "tables_after cs w w'" shows "tables_ok w'"
  unfolding tables_ok_def
proof (intro conjI allI impI)
  fix m N assume N: "mw_maps w' m = Some N"
  then obtain M where "mw_maps w m = Some M" using assms unfolding tables_after_def by (cases "mw_maps w m") auto
  then obtain h where "mw_maps w' m = Some (M\<lparr>m_hash := h\<rparr>)" "table_ok assigned (m_tkey M) h" using assms unfolding tables_after_def by blast
  then show "table_ok assigned (m_tkey N) (m_hash N)" using N by auto
next
  fix s N assume N: "mw_sets w' s = Some N"
  then obtain S where "mw_sets w s = Some S" using assms unfolding tables_after_def by (cases "mw_sets w s") auto
  then obtain h where "mw_sets w' s = Some (S\<lparr>s_hash := h\<rparr>)" "table_ok (\<lambda>_. True) (s_tkey S) h" using assms unfolding tables_after_def by blast
  then show "table_ok (\<lambda>_. True) (s_tkey N) (s_hash N)" using N by auto
qed

text \<open>One cookie.\<close>

lemma put_table_after:
  assumes "tables_ok w"
  shows "mw_maps w m = Some M \<Longrightarrow> table_ok assigned (m_tkey M) h \<Longrightarrow> entries h = {e \<in> entries (m_hash M). fst e \<noteq> Some k} \<Longrightarrow>
      tables_after {CMap m k} w (put_map m (M\<lparr>m_hash := h\<rparr>) w)"
    and "mw_sets w m = Some S \<Longrightarrow> table_ok (\<lambda>_. True) (s_tkey S) h' \<Longrightarrow> entries h' = {e \<in> entries (s_hash S). fst e \<noteq> Some k} \<Longrightarrow>
      tables_after {CSet m k} w (put_set m (S\<lparr>s_hash := h'\<rparr>) w)"
proof -
  show "tables_after {CMap m k} w (put_map m (M\<lparr>m_hash := h\<rparr>) w)"
    if h: "mw_maps w m = Some M" "table_ok assigned (m_tkey M) h" "entries h = {e \<in> entries (m_hash M). fst e \<noteq> Some k}"
  proof -
    have e: "entries_after (CMap m') {CMap m k} (m_hash N) (if m' = m then h else m_hash N)" if "m' = m \<longrightarrow> N = M" for m' N
      using that h(3) by (auto simp: entries_after_def)
    have e': "entries_after (CSet s) {CMap m k} g g" for s and g :: "(val, ptr) khash" by (rule entries_after_same) simp
    show ?thesis unfolding tables_after_def
    proof (intro conjI allI impI)
      fix m' N assume N: "mw_maps w m' = Some N"
      then show "\<exists>h'. mw_maps (put_map m (M\<lparr>m_hash := h\<rparr>) w) m' = Some (N\<lparr>m_hash := h'\<rparr>) \<and> table_ok assigned (m_tkey N) h' \<and>
          entries_after (CMap m') {CMap m k} (m_hash N) h'"
        using e [of m' N] h(1,2) assms by (intro exI [of _ "if m' = m then h else m_hash N"]) (auto simp: tables_ok_def)
    next
      fix s S' assume "mw_sets w s = Some S'"
      then show "\<exists>h'. mw_sets (put_map m (M\<lparr>m_hash := h\<rparr>) w) s = Some (S'\<lparr>s_hash := h'\<rparr>) \<and> table_ok (\<lambda>_. True) (s_tkey S') h' \<and>
          entries_after (CSet s) {CMap m k} (s_hash S') h'"
        using e' assms by (intro exI [of _ "s_hash S'"]) (auto simp: tables_ok_def)
    qed (use h(1) in auto)
  qed
  show "tables_after {CSet m k} w (put_set m (S\<lparr>s_hash := h'\<rparr>) w)"
    if h: "mw_sets w m = Some S" "table_ok (\<lambda>_. True) (s_tkey S) h'" "entries h' = {e \<in> entries (s_hash S). fst e \<noteq> Some k}"
  proof -
    have e: "entries_after (CSet m') {CSet m k} (s_hash N) (if m' = m then h' else s_hash N)" if "m' = m \<longrightarrow> N = S" for m' N
      using that h(3) by (auto simp: entries_after_def)
    have e': "entries_after (CMap s) {CSet m k} g g" for s and g :: "(val, khval_map) khash" by (rule entries_after_same) simp
    show ?thesis unfolding tables_after_def
    proof (intro conjI allI impI)
      fix m' N assume N: "mw_sets w m' = Some N"
      then show "\<exists>g. mw_sets (put_set m (S\<lparr>s_hash := h'\<rparr>) w) m' = Some (N\<lparr>s_hash := g\<rparr>) \<and> table_ok (\<lambda>_. True) (s_tkey N) g \<and>
          entries_after (CSet m') {CSet m k} (s_hash N) g"
        using e [of m' N] h(1,2) assms by (intro exI [of _ "if m' = m then h' else s_hash N"]) (auto simp: tables_ok_def)
    next
      fix s M' assume "mw_maps w s = Some M'"
      then show "\<exists>g. mw_maps (put_set m (S\<lparr>s_hash := h'\<rparr>) w) s = Some (M'\<lparr>m_hash := g\<rparr>) \<and> table_ok assigned (m_tkey M') g \<and>
          entries_after (CMap s) {CSet m k} (m_hash M') g"
        using e' assms by (intro exI [of _ "m_hash M'"]) (auto simp: tables_ok_def)
    qed (use h(1) in auto)
  qed
qed

lemma put_tables_vecs [simp]:
  "vecs_ok (put_map m M w) \<longleftrightarrow> vecs_ok w" "vecs_ok (put_set m S w) \<longleftrightarrow> vecs_ok w"
  "cookie_live R (put_map m M w) c \<longleftrightarrow> cookie_live R w c" "cookie_live R (put_set m S w) c \<longleftrightarrow> cookie_live R w c"
  by (simp_all add: vecs_ok_def) (cases c; simp)+

lemma vec_after_tables:
  assumes "vecs_ok w" "\<forall>v i. CVector v i \<notin> cs"
  shows "vec_after cs w (put_map m M w)" "vec_after cs w (put_set m S w)"
  using assms unfolding vec_after_def vecs_ok_def by auto

lemma expire_one_all:
  fixes w :: "'a map_world_scheme"
  assumes ok: "lists_ok w R" "vecs_ok w" "tables_ok w" and c: "all_live R w c"
  shows "\<exists>w1. expire_cookie (all_ops ops) c w = Some w1 \<and>
    lists_ok w1 (\<lambda>l. filter (\<lambda>n. CList l n \<noteq> c) (R l)) \<and> vec_after {c} w w1 \<and> tables_after {c} w w1 \<and>
    (\<forall>d. d \<noteq> c \<longrightarrow> all_live R w d \<longrightarrow> all_live (\<lambda>l. filter (\<lambda>n. CList l n \<noteq> c) (R l)) w1 d)"
proof -
  let ?R = "\<lambda>l. filter (\<lambda>n. CList l n \<noteq> c) (R l)"
  consider (old) "cookie_live R w c" "\<forall>m k. c \<noteq> CMap m k \<and> c \<noteq> CSet m k" | (map) m k where "c = CMap m k" | (set) s k where "c = CSet s k"
    using c by (cases c) auto
  then show ?thesis
  proof cases
    case old
    have same: "expire_cookie (all_ops ops) c w = expire_cookie (container_ops ops) c w" using old(2) by (cases c) auto
    from expire_one [OF ok(1,2) old(1), of ops] obtain w1 where
      w1: "expire_cookie (container_ops ops) c w = Some w1" "lists_ok w1 ?R" "vec_after {c} w w1"
        "\<forall>d. d \<noteq> c \<longrightarrow> cookie_live R w d \<longrightarrow> cookie_live ?R w1 d" by blast
    have t: "mw_maps w1 = mw_maps w" "mw_sets w1 = mw_sets w"
      using w1(1) old(1) containers_keep_tables(1) [of _ _ w w1] containers_keep_tables(2) [of _ _ w w1] by (cases c; simp)+
    have "tables_after {c} w w1" by (rule tables_after_same [OF ok(3) t]) (use old(2) in auto)
    moreover have "all_live ?R w1 d" if "d \<noteq> c" "all_live R w d" for d
      using that w1(4) t by (cases d) auto
    ultimately show ?thesis using w1(1-3) same by auto
  next
    case map
    with c obtain M where M: "mw_maps w m = Some M" "has_key (m_hash M) k" by auto
    then have "table_ok assigned (m_tkey M) (m_hash M)" using ok(3) by (simp add: tables_ok_def)
    from map_expire_ok [OF M(1) this M(2)] obtain h where
      h: "hlt_map_expire m k w = Some (put_map m (M\<lparr>m_hash := h\<rparr>) w)" "table_ok assigned (m_tkey M) h"
        "entries h = {e \<in> entries (m_hash M). fst e \<noteq> Some k}" by blast
    have "has_key h k'" if "has_key (m_hash M) k'" "k' \<noteq> k" for k' using that h(3) by (auto simp: has_key_def)
    then have live: "all_live R (put_map m (M\<lparr>m_hash := h\<rparr>) w) d" if "d \<noteq> c" "all_live R w d" for d
      using that map M(1) by (cases d) auto
    have R: "?R = R" using map by simp
    have vec: "vec_after {c} w (put_map m (M\<lparr>m_hash := h\<rparr>) w)" by (rule vec_after_tables(1) [OF ok(2)]) (simp add: map)
    show ?thesis unfolding R using h(1) ok(1) map put_table_after(1) [OF ok(3) M(1) h(2,3)] vec live by auto
  next
    case set
    with c obtain S where S: "mw_sets w s = Some S" "has_key (s_hash S) k" by auto
    then have "table_ok (\<lambda>_. True) (s_tkey S) (s_hash S)" using ok(3) by (simp add: tables_ok_def)
    from set_expire_ok [OF S(1) this S(2)] obtain h where
      h: "hlt_set_expire s k w = Some (put_set s (S\<lparr>s_hash := h\<rparr>) w)" "table_ok (\<lambda>_. True) (s_tkey S) h"
        "entries h = {e \<in> entries (s_hash S). fst e \<noteq> Some k}" by blast
    have "has_key h k'" if "has_key (s_hash S) k'" "k' \<noteq> k" for k' using that h(3) by (auto simp: has_key_def)
    then have live: "all_live R (put_set s (S\<lparr>s_hash := h\<rparr>) w) d" if "d \<noteq> c" "all_live R w d" for d
      using that set S(1) by (cases d) auto
    have R: "?R = R" using set by simp
    have vec: "vec_after {c} w (put_set s (S\<lparr>s_hash := h\<rparr>) w)" by (rule vec_after_tables(2) [OF ok(2)]) (simp add: set)
    show ?thesis unfolding R using h(1) ok(1) set put_table_after(2) [OF ok(3) S(1) h(2,3)] vec live by auto
  qed
qed

text \<open>
  What is left of the state without its timers, managers and containers: exceptions, the context, clocks and whatever extends the state.
\<close>

definition others :: "'a map_world_scheme \<Rightarrow> 'a map_world_scheme" where
  "others w = (erase w)\<lparr>lw_nodes := Map.empty, lw_lists := Map.empty, vw_vecs := Map.empty, mw_maps := Map.empty, mw_sets := Map.empty\<rparr>"

lemma expire_one_lists:
  fixes w :: "'a map_world_scheme"
  assumes "all_live R w c" "expire_cookie (all_ops ops) c w = Some w1"
  shows "lists_after {c} w w1 \<and> others w1 = others w"
proof (cases c)
  case (CList l n)
  then have e: "hlt_list_expire l n w = Some w1" using assms(2) by simp
  have "w1\<lparr>lw_nodes := lw_nodes w, lw_lists := lw_lists w\<rparr> = w" by (rule list_expire_after(2) [OF e])
  then have "others (w1\<lparr>lw_nodes := lw_nodes w, lw_lists := lw_lists w\<rparr>) = others w" by (rule arg_cong)
  then show ?thesis using list_expire_after(1) [OF e] CList by (simp add: others_def erase_def)
next
  case (CVector v i)
  then have "\<exists>V. w1 = put_vec v V w" using assms(2) by (auto simp: hlt_vector_expire_def bind_eq_Some_conv split: if_splits)
  then show ?thesis using CVector by (auto simp: others_def erase_def put_vec_def intro!: lists_after_same)
next
  case (CMap m k)
  then have "\<exists>M. w1 = put_map m M w \<or> w1 = w" using assms(2)
    by (auto simp: hlt_map_expire_def map_drop_def bind_eq_Some_conv split: if_splits)
  then show ?thesis using CMap by (auto simp: others_def erase_def put_map_def intro!: lists_after_same)
next
  case (CSet m k)
  then have "\<exists>M. w1 = put_set m M w \<or> w1 = w" using assms(2)
    by (auto simp: hlt_set_expire_def set_drop_def bind_eq_Some_conv split: if_splits)
  then show ?thesis using CSet by (auto simp: others_def erase_def put_set_def intro!: lists_after_same)
qed (use assms(1) in auto)

lemma expire_all_mixed:
  fixes w :: "'a map_world_scheme"
  assumes "lists_ok w R" "vecs_ok w" "tables_ok w" "distinct cs" "\<forall>c \<in> set cs. all_live R w c"
  shows "\<exists>w'. expire_all (all_ops ops) cs w = Some w' \<and>
    lists_ok w' (\<lambda>l. filter (\<lambda>n. CList l n \<notin> set cs) (R l)) \<and> vec_after (set cs) w w' \<and> tables_after (set cs) w w' \<and>
    lists_after (set cs) w w' \<and> others w' = others w"
  using assms
proof (induction cs arbitrary: w R)
  case Nil
  then show ?case using vec_after_same [of w w "{}"] tables_after_same [of w w "{}"] lists_after_same [of w w "{}"] by simp
next
  case (Cons c cs)
  from expire_one_all [OF Cons.prems(1-3), of c ops] Cons.prems(5) obtain w1 where
    w1: "expire_cookie (all_ops ops) c w = Some w1" "lists_ok w1 (\<lambda>l. filter (\<lambda>n. CList l n \<noteq> c) (R l))" "vec_after {c} w w1" "tables_after {c} w w1"
      "\<forall>d. d \<noteq> c \<longrightarrow> all_live R w d \<longrightarrow> all_live (\<lambda>l. filter (\<lambda>n. CList l n \<noteq> c) (R l)) w1 d" by auto
  have "\<forall>d \<in> set cs. all_live (\<lambda>l. filter (\<lambda>n. CList l n \<noteq> c) (R l)) w1 d" using w1(5) Cons.prems(4,5) by auto
  from Cons.IH [OF w1(2) vec_after_ok [OF w1(3)] tables_after_ok [OF w1(4)] _ this] Cons.prems(4) obtain w' where
    w': "expire_all (all_ops ops) cs w1 = Some w'"
      "lists_ok w' (\<lambda>l. filter (\<lambda>n. CList l n \<notin> set cs) (filter (\<lambda>n. CList l n \<noteq> c) (R l)))" "vec_after (set cs) w1 w'" "tables_after (set cs) w1 w'"
      "lists_after (set cs) w1 w'" "others w' = others w1"
    by auto
  moreover have "filter (\<lambda>n. CList l n \<notin> set cs) (filter (\<lambda>n. CList l n \<noteq> c) (R l)) = filter (\<lambda>n. CList l n \<notin> set (c # cs)) (R l)" for l
    by (simp add: conj_commute)
  moreover have "lists_after {c} w w1" "others w1 = others w" using expire_one_lists [of R w c ops w1] Cons.prems(5) w1(1) by auto
  ultimately show ?case
    using w1(1) vec_after_trans [OF w1(3) w'(3)] tables_after_trans [OF w1(4) w'(4)] lists_after_trans [of "{c}" w w1 "set cs" w'] by simp
qed

lemma tables_erase:
  "tables_after cs (erase w) (erase w') \<longleftrightarrow> tables_after cs w w'" "tables_ok (erase w) \<longleftrightarrow> tables_ok w" "all_live R (erase w) c \<longleftrightarrow> all_live R w c"
  "lists_after cs (erase w) (erase w') \<longleftrightarrow> lists_after cs w w'" "others (erase w) = others w"
proof -
  show "tables_after cs (erase w) (erase w') \<longleftrightarrow> tables_after cs w w'" "tables_ok (erase w) \<longleftrightarrow> tables_ok w"
    "lists_after cs (erase w) (erase w') \<longleftrightarrow> lists_after cs w w'" "others (erase w) = others w"
    by (simp_all add: tables_after_def tables_ok_def lists_after_def node_val_def others_def erase_def)
  show "all_live R (erase w) c \<longleftrightarrow> all_live R w c" using vec_after_erase(3) [of R w c] by (cases c) (simp_all add: erase_def)
qed

text \<open>Every timer that manager \<open>m\<close> has queued belongs to an element of a container, and to one only.\<close>

definition all_timers :: "(addr \<Rightarrow> addr list) \<Rightarrow> addr \<Rightarrow> 'a map_world_scheme \<Rightarrow> bool" where
  "all_timers R m w \<longleftrightarrow> inj_on (cookie_of (tw_timers w)) (set_mset (mgr_elems m w)) \<and>
     (\<forall>a \<in># mgr_elems m w. all_live R w (cookie_of (tw_timers w) a))"

lemma advance_all:
  fixes w :: "'a map_world_scheme"
  assumes qi: "queue_inv m w" and m: "m = the_mgr mgr w" and ok: "lists_ok w R" "vecs_ok w" "tables_ok w" and ct: "all_timers R m w"
    and few: "size (filter_mset (\<lambda>a. pri (tw_timers w) a \<le> t) (mgr_elems m w)) \<le> 2147483647"
  shows "\<exists>n w'. hlt_timer_mgr_advance (all_ops ops) mgr t w = Some (n, w') \<and>
    n = size (filter_mset (\<lambda>a. pri (tw_timers w) a \<le> t) (mgr_elems m w)) \<and>
    mgr_inv m w' \<and> map_option mgr_time (tw_mgrs w' m) = Some t \<and>
    lists_ok w' (\<lambda>l. filter (\<lambda>n. \<not> is_due t m w (CList l n)) (R l)) \<and> vec_after {c. is_due t m w c} w w' \<and>
    tables_after {c. is_due t m w c} w w' \<and> lists_after {c. is_due t m w c} w w' \<and> others w' = others w \<and>
    mgr_elems m w' = filter_mset (\<lambda>a. \<not> pri (tw_timers w) a \<le> t) (mgr_elems m w) \<and>
    tframe (tw_timers w) (tw_timers w') \<and> (\<forall>k. k \<noteq> m \<longrightarrow> tw_mgrs w' k = tw_mgrs w k)"
proof -
  have "all_good c w" if "all_live R w c" for c
    using that ok by (cases c) (auto simp: vecs_ok_def tables_ok_def)
  then have lc: "live_cookies all_good m w" using ct by (simp add: live_cookies_def all_timers_def)
  from ax.advance_due [OF qi lc m few, of ops] obtain cs w' where
    a: "hlt_timer_mgr_advance (all_ops ops) mgr t w = Some (length cs, w')"
      "length cs = size (filter_mset (\<lambda>a. pri (tw_timers w) a \<le> t) (mgr_elems m w))" "distinct cs" "set cs = {c. is_due t m w c}"
      "mgr_inv m w'" "map_option mgr_time (tw_mgrs w' m) = Some t" "expire_all (all_ops ops) cs (erase w) = Some (erase w')"
      "mgr_elems m w' = filter_mset (\<lambda>a. \<not> pri (tw_timers w) a \<le> t) (mgr_elems m w)"
      "tframe (tw_timers w) (tw_timers w')" "\<forall>k. k \<noteq> m \<longrightarrow> tw_mgrs w' k = tw_mgrs w k" by blast
  have "\<forall>c \<in> set cs. all_live R (erase w) c"
    using ct a(4) unfolding all_timers_def is_due_def tables_erase by auto
  from expire_all_mixed [OF _ _ _ a(3) this, of ops] ok a(7)
  have "lists_ok w' (\<lambda>l. filter (\<lambda>n. CList l n \<notin> set cs) (R l))" "vec_after (set cs) w w'" "tables_after (set cs) w w'"
    "lists_after (set cs) w w'" "others w' = others w"
    by (simp_all add: lists_ok_erase vec_after_erase tables_erase)
  then show ?thesis using a(1,2,4-6,8-10) by simp
qed

section \<open>Traversal\<close>

text \<open>The slots in use, in ascending order.\<close>

definition slot_list :: "('k, 'v) khash \<Rightarrow> nat list" where
  "slot_list h = filter (\<lambda>i. i \<in> slots h) [0..<kh_n_buckets h]"

lemma slot_list_set: "set (slot_list h) = slots h" "distinct (slot_list h)"
  by (auto simp: slot_list_def slots_def)

lemma slot_list_nth: "k < length (slot_list h) \<Longrightarrow> slot_list h ! k \<in> slots h"
  using nth_mem [of k "slot_list h"] slot_list_set(1) by blast

lemma find_filter: "find P xs = (case filter P xs of [] \<Rightarrow> None | y # _ \<Rightarrow> Some y)"
  by (induction xs) auto

lemma drop_slots:
  assumes k: "k < length (slot_list h)"
  shows "drop (Suc k) (slot_list h) = filter (\<lambda>i. i \<in> slots h) [Suc (slot_list h ! k)..<kh_n_buckets h]"
proof -
  let ?L = "slot_list h" and ?n = "kh_n_buckets h" and ?P = "\<lambda>i. i \<in> slots h"
  define i where "i = slot_list h ! k"
  have i: "i \<in> slots h" "i < ?n" using slot_list_nth [OF k] by (auto simp: slots_def i_def)
  have "[0..<?n] = [0..<i] @ i # [Suc i..<?n]" using i(2) upt_add_eq_append [of 0 i "?n - i"] upt_conv_Cons [OF i(2)] by simp
  from arg_cong [OF this, of "filter ?P"] have 1: "?L = filter ?P [0..<i] @ i # filter ?P [Suc i..<?n]" using i(1) by (simp add: slot_list_def)
  have 2: "?L = take k ?L @ i # drop (Suc k) ?L" using id_take_nth_drop [OF k] by (simp add: i_def)
  have "i \<notin> set (filter ?P [0..<i])" "i \<notin> set (filter ?P [Suc i..<?n])" by auto
  from append_Cons_eq_iff [OF this] trans [OF 1 [symmetric] 2] have "filter ?P [Suc i..<?n] = drop (Suc k) ?L" by blast
  then show ?thesis unfolding i_def by (rule sym)
qed

lemma first_live_ok:
  assumes "kh_inv ty h" "\<forall>i\<in>set is. i < kh_n_buckets h"
  shows "first_live h is = Some (find (\<lambda>i. i \<in> slots h) is)"
  using assms(2) kh_exist_at [OF assms(1)] by (induction "is") auto

text \<open>The loop of an increment also tests the slot behind the last one, which the flags have room for and mark as empty.\<close>

lemma next_live_ok:
  assumes inv: "kh_inv ty h" and i: "i < kh_n_buckets h"
  shows "next_live h i = Some (find (\<lambda>j. j \<in> slots h) [Suc i..<kh_n_buckets h])"
  using i
proof (induction "kh_n_buckets h - i" arbitrary: i)
  case (Suc d)
  let ?n = "kh_n_buckets h"
  have sh: "kh_shape h" using inv Suc.prems by (auto simp: kh_inv_def kh_init_def)
  show ?case
  proof (cases "Suc i = ?n")
    case True
    have "kh_exist h ?n = Some False"
      using ac_tests(3) [OF flags_long [OF sh order_refl]] sh by (simp add: kh_exist_def kh_shape_def live_def)
    then show ?thesis using True Suc.prems by (subst next_live.simps) (simp, subst next_live.simps, simp)
  next
    case False
    then have lt: "Suc i < ?n" using Suc.prems by simp
    have ex: "kh_exist h (Suc i) = Some (Suc i \<in> slots h)" by (rule kh_exist_at [OF inv lt])
    have IH: "next_live h (Suc i) = Some (find (\<lambda>j. j \<in> slots h) [Suc (Suc i)..<?n])" using Suc.hyps(2) lt by (intro Suc.hyps(1)) auto
    show ?thesis using ex IH lt Suc.prems upt_conv_Cons [OF lt] by (subst next_live.simps) simp
  qed
qed simp

lemma next_slot:
  assumes inv: "kh_inv ty h" and k: "k < length (slot_list h)"
  shows "next_live h (slot_list h ! k) = Some (if Suc k < length (slot_list h) then Some (slot_list h ! Suc k) else None)"
proof -
  have "slot_list h ! k < kh_n_buckets h" using slot_list_nth [OF k] by (simp add: slots_def)
  from next_live_ok [OF inv this] have "next_live h (slot_list h ! k) = Some (case drop (Suc k) (slot_list h) of [] \<Rightarrow> None | y # _ \<Rightarrow> Some y)"
    unfolding find_filter drop_slots [OF k] .
  then show ?thesis using Cons_nth_drop_Suc [of "Suc k" "slot_list h", symmetric] by auto
qed

lemma first_slot:
  assumes "kh_inv ty h"
  shows "first_live h [0..<kh_n_buckets h] = Some (if slot_list h = [] then None else Some (slot_list h ! 0))"
  using first_live_ok [OF assms, of "[0..<kh_n_buckets h]"] unfolding find_filter slot_list_def [symmetric]
  by (auto split: list.splits)

subsection \<open>Maps\<close>

definition map_ready :: "addr \<Rightarrow> hlt_map \<Rightarrow> 'a map_world_scheme \<Rightarrow> bool" where
  "map_ready m M w \<longleftrightarrow> mw_maps w m = Some M \<and> table_ok assigned (m_tkey M) (m_hash M)"

definition map_items :: "hlt_map \<Rightarrow> (val \<times> val) list" where
  "map_items M = map (\<lambda>i. (the_key (m_hash M) i, the (mv_val (the (kh_vals (m_hash M) ! i))))) (slot_list (m_hash M))"

definition map_at :: "addr \<Rightarrow> hlt_map \<Rightarrow> nat \<Rightarrow> map_iter" where
  "map_at m M k = (if k < length (slot_list (m_hash M)) then \<lparr>mi_map = Some m, mi_iter = slot_list (m_hash M) ! k\<rparr> else hlt_map_end)"

interpretation mt: traversal "map_ready m" map_items "map_at m" "\<lambda>i w. Some (hlt_iterator_map_eq i hlt_map_end, w)" hlt_iterator_map_deref
  hlt_iterator_map_incr for m
proof (unfold_locales, goal_cases)
  case (1 M w k)
  then show ?case by (auto simp: map_at_def map_items_def hlt_iterator_map_eq_def hlt_map_end_def)
next
  case (2 M w k)
  let ?h = "m_hash M"
  have k: "k < length (slot_list ?h)" using 2(2) by (simp add: map_items_def)
  have M: "mw_maps w m = Some M" and t: "kh_inv (m_tkey M) ?h" "full assigned (entries ?h)" using 2(1) by (simp_all add: map_ready_def table_ok_def)
  note i = slot_list_nth [OF k]
  from full_at [OF t(2) i] obtain a v x where "kh_keys ?h ! (slot_list ?h ! k) = Some a" "kh_vals ?h ! (slot_list ?h ! k) = Some v" "mv_val v = Some x"
    by auto
  then show ?case using M k kh_value_at [OF t(1) i] 2(1) by (simp add: map_at_def map_items_def hlt_iterator_map_deref_def)
next
  case (3 M w k)
  then have k: "k < length (slot_list (m_hash M))" and M: "mw_maps w m = Some M" and t: "kh_inv (m_tkey M) (m_hash M)"
    by (simp_all add: map_ready_def table_ok_def map_items_def)
  show ?case using M next_slot [OF t k] k by (simp add: map_at_def hlt_iterator_map_incr_def)
qed

lemma map_begin_at:
  assumes "map_ready m M w"
  shows "hlt_map_begin (Some m) w = Some (map_at m M 0, w)"
  using assms first_slot [of "m_tkey M" "m_hash M"] by (auto simp: map_ready_def table_ok_def map_at_def hlt_map_begin_def)

text \<open>The items are the content of the map, each once.\<close>

lemma map_items_set:
  assumes "table_ok assigned (m_tkey M) (m_hash M)"
  shows "set (map_items M) = kvs map_val (entries (m_hash M))" "distinct (map fst (map_items M))"
proof -
  let ?h = "m_hash M"
  have t: "wf_type (m_tkey M)" "kh_inv (m_tkey M) ?h" "full assigned (entries ?h)" using assms by (simp_all add: table_ok_def)
  show "set (map_items M) = kvs map_val (entries ?h)"
  proof (intro equalityI subsetI)
    fix p assume "p \<in> set (map_items M)"
    then obtain i where i: "i \<in> slots ?h" "p = (the_key ?h i, the (mv_val (the (kh_vals ?h ! i))))" by (auto simp: map_items_def slot_list_set)
    from full_at [OF t(3) i(1)] i(2) show "p \<in> kvs map_val (entries ?h)" unfolding kvs_def by force
  next
    fix p assume "p \<in> kvs map_val (entries ?h)"
    then obtain k v where "(Some k, Some v) \<in> entries ?h" "p = (k, map_val v)" by (auto simp: kvs_def)
    then obtain i where i: "i \<in> slots ?h" "kh_keys ?h ! i = Some k" "kh_vals ?h ! i = Some v" and p: "p = (k, map_val v)"
      by (auto simp: entries_def entry_def)
    show "p \<in> set (map_items M)" unfolding map_items_def set_map slot_list_set by (rule image_eqI [OF _ i(1)]) (simp add: i p)
  qed
  have "inj_on (the_key ?h) (slots ?h)"
    using kh_keys_ok_inv [OF t(2)] wf_typeD(1) [OF t(1)] unfolding kh_keys_ok_def inj_on_def by metis
  then show "distinct (map fst (map_items M))"
    by (simp add: map_items_def comp_def distinct_map slot_list_set)
qed

subsection \<open>Sets\<close>

definition set_ready :: "addr \<Rightarrow> hlt_set \<Rightarrow> 'a map_world_scheme \<Rightarrow> bool" where
  "set_ready s S w \<longleftrightarrow> mw_sets w s = Some S \<and> table_ok (\<lambda>_. True) (s_tkey S) (s_hash S)"

definition set_items :: "hlt_set \<Rightarrow> val list" where
  "set_items S = map (the_key (s_hash S)) (slot_list (s_hash S))"

definition set_at :: "addr \<Rightarrow> hlt_set \<Rightarrow> nat \<Rightarrow> set_iter" where
  "set_at s S k = (if k < length (slot_list (s_hash S)) then \<lparr>si_set = Some s, si_iter = slot_list (s_hash S) ! k\<rparr> else hlt_set_end)"

interpretation st: traversal "set_ready s" set_items "set_at s" "\<lambda>i w. Some (hlt_iterator_set_eq i hlt_set_end, w)" hlt_iterator_set_deref
  hlt_iterator_set_incr for s
proof (unfold_locales, goal_cases)
  case (1 S w k)
  then show ?case by (auto simp: set_at_def set_items_def hlt_iterator_set_eq_def hlt_set_end_def)
next
  case (2 S w k)
  let ?h = "s_hash S"
  have k: "k < length (slot_list ?h)" using 2(2) by (simp add: set_items_def)
  have S: "mw_sets w s = Some S" and t: "kh_inv (s_tkey S) ?h" "full (\<lambda>_. True) (entries ?h)" using 2(1) by (simp_all add: set_ready_def table_ok_def)
  note i = slot_list_nth [OF k]
  from full_at [OF t(2) i] obtain a where "kh_keys ?h ! (slot_list ?h ! k) = Some a" by auto
  then show ?case using S k kh_value_at(2) [OF t(1) i] 2(1) by (simp add: set_at_def set_items_def hlt_iterator_set_deref_def)
next
  case (3 S w k)
  then have k: "k < length (slot_list (s_hash S))" and S: "mw_sets w s = Some S" and t: "kh_inv (s_tkey S) (s_hash S)"
    by (simp_all add: set_ready_def table_ok_def set_items_def)
  show ?case using S next_slot [OF t k] k by (simp add: set_at_def hlt_iterator_set_incr_def)
qed

lemma set_begin_at:
  assumes "set_ready s S w"
  shows "hlt_set_begin (Some s) w = Some (set_at s S 0, w)"
  using assms first_slot [of "s_tkey S" "s_hash S"] by (auto simp: set_ready_def table_ok_def set_at_def hlt_set_begin_def)

lemma set_items_set:
  assumes "table_ok P (s_tkey S) (s_hash S)"
  shows "set (set_items S) = {k. has_key (s_hash S) k}" "distinct (set_items S)"
proof -
  let ?h = "s_hash S"
  have t: "wf_type (s_tkey S)" "kh_inv (s_tkey S) ?h" "full P (entries ?h)" using assms by (simp_all add: table_ok_def)
  have "\<exists>v. (Some (the_key ?h i), v) \<in> entries ?h" if "i \<in> slots ?h" for i using full_at [OF t(3) that] by auto
  moreover have "k \<in> the_key ?h ` slots ?h" if "(Some k, v) \<in> entries ?h" for k v
  proof -
    from that obtain i where "i \<in> slots ?h" "kh_keys ?h ! i = Some k" by (auto simp: entries_def entry_def)
    then show ?thesis by force
  qed
  ultimately show "set (set_items S) = {k. has_key ?h k}" by (auto simp: set_items_def slot_list_set has_key_def)
  have "inj_on (the_key ?h) (slots ?h)"
    using kh_keys_ok_inv [OF t(2)] wf_typeD(1) [OF t(1)] unfolding kh_keys_ok_def inj_on_def by metis
  then show "distinct (set_items S)" by (simp add: set_items_def distinct_map slot_list_set)
qed

section \<open>An example state\<close>

text \<open>
  A list with two elements, a vector, a map with the key 7 that expires at time 10 and a set with the key 7 that expires at time 20, all
  with one manager.
\<close>

definition four_world :: map_world where
  "four_world = \<lparr>
     tw_timers = [5 \<mapsto> \<lparr>timer_mgr = Some 9, timer_time = 10, queue_pos = 1, cookie = CMap 10 7\<rparr>,
                  6 \<mapsto> \<lparr>timer_mgr = Some 9, timer_time = 20, queue_pos = 2, cookie = CSet 11 7\<rparr>],
     tw_mgrs = [9 \<mapsto> \<lparr>mgr_time = 0, mgr_timers = two_queued\<rparr>], tw_next = 12, tw_ctx_tmgr = 9, tw_vid_main = True,
     tw_global_time = 0, tw_excpt = None,
     lw_nodes = [1 \<mapsto> plain_node (Some 2) None None 31, 2 \<mapsto> plain_node None (Some 1) None 32],
     lw_lists = [0 \<mapsto> plain_list (Some 1) (Some 2) 2], vw_vecs = [3 \<mapsto> plain_vec],
     mw_maps = [10 \<mapsto> plain_map\<lparr>m_tmgr := Some 9, m_timeout := 10, m_hash := slot_table \<lparr>mv_val = Some 70, mv_timer = Some 5\<rparr>\<rparr>],
     mw_sets = [11 \<mapsto> \<lparr>s_tkey = num_type, s_tmgr = Some 9, s_timeout = 20, s_strategy = hlt_enum_unset, s_hash = slot_table (Some 6)\<rparr>]\<rparr>"

lemma four_world_queue: "queue_inv 9 four_world" "mgr_elems 9 four_world = {#5, 6#}"
proof -
  have "pq_inv (tw_timers four_world) two_queued"
    by (rule tq.frame_law [OF two_queued_inv]) (auto simp: four_world_def three_timers_def two_queued_elems)
  then show "queue_inv 9 four_world" by (auto simp: queue_inv_def four_world_def two_queued_elems split: if_splits)
  show "mgr_elems 9 four_world = {#5, 6#}" by (simp add: mgr_elems_def four_world_def two_queued_elems)
qed

lemma slot_table_table: "P v \<Longrightarrow> table_ok P num_type (slot_table v)" "has_key (slot_table v) 7"
  using slot_table_ok [of v] num_type_wf by (simp_all add: table_ok_def full_def has_key_def)

lemma four_world_ok: "lists_ok four_world (\<lambda>l. [1, 2])" "vecs_ok four_world" "tables_ok four_world"
proof -
  show "lists_ok four_world (\<lambda>l. [1, 2])"
    by (auto simp: lists_ok_def list_shape_def four_world_def dll_def plain_list_def plain_node_def node_val_def split: if_splits)
  show "vecs_ok four_world" using plain_vec_shape by (auto simp: vecs_ok_def four_world_def split: if_splits)
  show "tables_ok four_world" by (auto simp: tables_ok_def four_world_def plain_map_def split: if_splits intro!: slot_table_table(1))
qed

lemma four_world_timers: "all_timers (\<lambda>l. [1, 2]) 9 four_world"
  unfolding all_timers_def four_world_queue(2) by (simp add: cookie_of_def four_world_def slot_table_table(2))

end
