(* ===== verification/TQueue.thy ===== *)
theory TQueue
  imports Prelude
begin

text \<open>
  Queues between threads, \<^verbatim>\<open>libhilti/tqueue.c\<close>: any number of writers and one reader. A writer collects elements in a batch of its own
  and moves a full batch, under the queue's lock, to a list of pending batches; the reader takes the whole list, under the lock, and then works on it
  without locking.

  Batches are objects in memory (\<open>tq_mem\<close>) that are linked by their \<^verbatim>\<open>next\<close> pointers, and freeing one removes it, so that a use after free
  is undefined. The functions are split at the points where the code takes the lock or waits: a call returns either that it is
  done or where it waits, and \<open>tq_step\<close> interleaves the pieces of all threads. Between two such points a thread only uses data that it owns, the
  flag \<^verbatim>\<open>need_flush\<close>, and counters that the code reads as approximations. Sleeping and thread cancellation are left out.
\<close>

section \<open>State\<close>

record 'e batch =
  b_next :: ptr
  b_write_pos :: nat
  b_elems :: "'e option list"

record tq_stats =
  st_elems :: nat
  st_batches :: nat
  st_blocked :: nat
  st_locked :: nat

record 'e thread_queue =
  tq_writers :: nat
  tq_batch_size :: nat
  tq_max_batches :: nat
  tq_writer_batches :: "ptr list"
  tq_num_written :: "nat list"
  tq_reader_head :: ptr
  tq_reader_pos :: nat
  tq_num_read :: nat
  tq_num_terminated :: nat
  tq_reader_stats :: tq_stats
  tq_num_pending :: nat
  tq_pending_head :: ptr
  tq_pending_tail :: ptr
  tq_block :: bool
  tq_writers_terminated :: "bool list"
  tq_writer_stats :: "tq_stats list"
  tq_need_flush :: bool
  tq_mem :: "addr \<rightharpoonup> 'e batch"
  tq_next :: addr

definition no_stats :: tq_stats where
  "no_stats = \<lparr>st_elems = 0, st_batches = 0, st_blocked = 0, st_locked = 0\<rparr>"

definition put_batch :: "addr \<Rightarrow> 'e batch \<Rightarrow> 'e thread_queue \<Rightarrow> 'e thread_queue" where
  "put_batch b B q = q\<lparr>tq_mem := (tq_mem q)(b \<mapsto> B)\<rparr>"

definition upd_wstats :: "nat \<Rightarrow> (tq_stats \<Rightarrow> tq_stats) \<Rightarrow> 'e thread_queue \<Rightarrow> 'e thread_queue option" where
  "upd_wstats i f q = do {
     s \<leftarrow> rd (tq_writer_stats q) i;
     ss \<leftarrow> wr (tq_writer_stats q) i (f s);
     Some (q\<lparr>tq_writer_stats := ss\<rparr>)
   }"

definition upd_rstats :: "(tq_stats \<Rightarrow> tq_stats) \<Rightarrow> 'e thread_queue \<Rightarrow> 'e thread_queue" where
  "upd_rstats f q = q\<lparr>tq_reader_stats := f (tq_reader_stats q)\<rparr>"

section \<open>Operations\<close>

definition hlt_thread_queue_new :: "nat \<Rightarrow> nat \<Rightarrow> nat \<Rightarrow> 'e thread_queue" where
  "hlt_thread_queue_new writers batch_size max_batches =
     \<lparr>tq_writers = writers, tq_batch_size = batch_size, tq_max_batches = max_batches,
      tq_writer_batches = replicate writers None, tq_num_written = replicate writers 0,
      tq_reader_head = None, tq_reader_pos = 0, tq_num_read = 0, tq_num_terminated = 0, tq_reader_stats = no_stats,
      tq_num_pending = 0, tq_pending_head = None, tq_pending_tail = None, tq_block = False,
      tq_writers_terminated = replicate writers False, tq_writer_stats = replicate writers no_stats, tq_need_flush = False,
      tq_mem = Map.empty, tq_next = 0\<rparr>"

text \<open>
  What a writer's call comes to: it has returned, or it waits in a flush, either the one that a write makes because the batch is full, after which
  the element is still to be written, or one that ends the call.
\<close>

datatype 'e wstate = Idle | InWrite 'e | InFlush

text \<open>The condition under which a flush has something to do.\<close>

definition flush_needed :: "nat \<Rightarrow> 'e thread_queue \<Rightarrow> bool option" where
  "flush_needed i q = do {
     p \<leftarrow> rd (tq_writer_batches q) i;
     (case p of None \<Rightarrow> Some False | Some b \<Rightarrow> do { B \<leftarrow> tq_mem q b; Some (b_write_pos B \<noteq> 0) })
   }"

definition hlt_thread_queue_flush :: "nat \<Rightarrow> 'e thread_queue \<Rightarrow> ('e wstate \<times> 'e thread_queue) option" where
  "hlt_thread_queue_flush i q = do { f \<leftarrow> flush_needed i q; Some (if f then InFlush else Idle, q) }"

definition link_pending :: "addr \<Rightarrow> 'e thread_queue \<Rightarrow> 'e thread_queue option" where
  "link_pending b q = (case tq_pending_tail q of
     Some t \<Rightarrow> do { T \<leftarrow> tq_mem q t; Some (put_batch t (T\<lparr>b_next := Some b\<rparr>) q) }
   | None \<Rightarrow> Some (q\<lparr>tq_pending_head := Some b\<rparr>))"

text \<open>
  One round of a flush: the critical section, which either moves the batch to the pending ones or finds that it has to
  block. The result is whether it blocks. The code counts the pending batches in an \<^verbatim>\<open>int\<close>; the natural number here stands for it as long as
  fewer than 2^31 batches are pending, which a limit guarantees (\<open>thread_queue_safe\<close>) and without one memory does.
\<close>

definition flush_round :: "nat \<Rightarrow> 'e thread_queue \<Rightarrow> (bool \<times> 'e thread_queue) option" where
  "flush_round i q = do {
     p \<leftarrow> rd (tq_writer_batches q) i;
     b \<leftarrow> p;
     q1 \<leftarrow> upd_wstats i (\<lambda>s. s\<lparr>st_locked := add64 (st_locked s) 1\<rparr>) q;
     (if \<not> tq_block q1 \<and> (tq_num_pending q1 < tq_max_batches q1 \<or> tq_max_batches q1 = 0) then do {
        q2 \<leftarrow> link_pending b q1;
        q3 \<leftarrow> upd_wstats i (\<lambda>s. s\<lparr>st_batches := add64 (st_batches s) 1\<rparr>)
                (q2\<lparr>tq_pending_tail := Some b, tq_num_pending := tq_num_pending q2 + 1\<rparr>);
        wb \<leftarrow> wr (tq_writer_batches q3) i None;
        Some (False, q3\<lparr>tq_writer_batches := wb\<rparr>)
      }
      else do {
        q2 \<leftarrow> upd_wstats i (\<lambda>s. s\<lparr>st_blocked := add64 (st_blocked s) 1\<rparr>) (q1\<lparr>tq_block := True\<rparr>);
        Some (True, q2)
      })
   }"

definition hlt_thread_queue_writer_update :: "nat \<Rightarrow> 'e thread_queue \<Rightarrow> ('e wstate \<times> 'e thread_queue) option" where
  "hlt_thread_queue_writer_update i q = (if tq_need_flush q then hlt_thread_queue_flush i q else Some (Idle, q))"

text \<open>
  A batch is allocated with \<^verbatim>\<open>sizeof(batch) * batch_size * sizeof(void*)\<close> bytes, which leaves \<open>16 * batch_size - 2\<close> elements behind the
  header of 16 bytes, and no room for the header if the batch size is zero.
\<close>

definition ensure_batch :: "nat \<Rightarrow> 'e thread_queue \<Rightarrow> (addr \<times> 'e thread_queue) option" where
  "ensure_batch i q = do {
     p \<leftarrow> rd (tq_writer_batches q) i;
     (case p of
        Some b \<Rightarrow> Some (b, q)
      | None \<Rightarrow>
          (if tq_batch_size q = 0 then None
           else do {
             wb \<leftarrow> wr (tq_writer_batches q) i (Some (tq_next q));
             Some (tq_next q, put_batch (tq_next q) \<lparr>b_next = None, b_write_pos = 0, b_elems = replicate (16 * tq_batch_size q - 2) None\<rparr>
               (q\<lparr>tq_writer_batches := wb, tq_next := tq_next q + 1\<rparr>))
           }))
   }"

definition write_elem :: "nat \<Rightarrow> 'e \<Rightarrow> 'e thread_queue \<Rightarrow> ('e wstate \<times> 'e thread_queue) option" where
  "write_elem i e q = do {
     p \<leftarrow> rd (tq_writer_batches q) i;
     b \<leftarrow> p;
     B \<leftarrow> tq_mem q b;
     (if b_write_pos B < tq_batch_size q then do {
        es \<leftarrow> wr (b_elems B) (b_write_pos B) (Some e);
        let q1 = put_batch b (B\<lparr>b_elems := es, b_write_pos := b_write_pos B + 1\<rparr>) q;
        n \<leftarrow> rd (tq_num_written q1) i;
        ns \<leftarrow> wr (tq_num_written q1) i (add64 n 1);
        q2 \<leftarrow> upd_wstats i (\<lambda>s. s\<lparr>st_elems := add64 (st_elems s) 1\<rparr>) (q1\<lparr>tq_num_written := ns\<rparr>);
        hlt_thread_queue_writer_update i q2
      }
      else None)
   }"

text \<open>The loop of a write, from its start or after a round of the flush.\<close>

definition write_loop :: "nat \<Rightarrow> 'e \<Rightarrow> 'e thread_queue \<Rightarrow> ('e wstate \<times> 'e thread_queue) option" where
  "write_loop i e q = do {
     (b, q1) \<leftarrow> ensure_batch i q;
     B \<leftarrow> tq_mem q1 b;
     f \<leftarrow> flush_needed i q1;
     (if b_write_pos B \<ge> tq_batch_size q1 \<and> f then Some (InWrite e, q1) else write_elem i e q1)
   }"

definition hlt_thread_queue_write :: "nat \<Rightarrow> 'e \<Rightarrow> 'e thread_queue \<Rightarrow> ('e wstate \<times> 'e thread_queue) option" where
  "hlt_thread_queue_write i e q = do {
     t \<leftarrow> rd (tq_writers_terminated q) i;
     (if t then Some (Idle, q) else write_loop i e q)
   }"

text \<open>Going on after a wait: one more round, and then the rest of the call.\<close>

fun resume :: "nat \<Rightarrow> 'e wstate \<Rightarrow> 'e thread_queue \<Rightarrow> ('e wstate \<times> 'e thread_queue) option" where
  "resume i Idle q = Some (Idle, q)"
| "resume i (InWrite e) q = do {
     (block, q1) \<leftarrow> flush_round i q;
     (if block then Some (InWrite e, q1) else write_loop i e q1)
   }"
| "resume i InFlush q = do {
     (block, q1) \<leftarrow> flush_round i q;
     Some (if block then InFlush else Idle, q1)
   }"

definition hlt_thread_queue_terminate_writer :: "nat \<Rightarrow> 'e thread_queue \<Rightarrow> ('e wstate \<times> 'e thread_queue) option" where
  "hlt_thread_queue_terminate_writer i q = do {
     ts \<leftarrow> wr (tq_writers_terminated q) i True;
     hlt_thread_queue_flush i (q\<lparr>tq_writers_terminated := ts\<rparr>)
   }"

subsection \<open>The reader\<close>

text \<open>The inner loop of a read: the next element of the batches that the reader has, if there is one.\<close>

partial_function (option) take_elem :: "'e thread_queue \<Rightarrow> ('e option \<times> 'e thread_queue) option" where
  "take_elem q =
     (case tq_reader_head q of
        None \<Rightarrow> Some (None, q)
      | Some b \<Rightarrow> do {
          let q1 = q\<lparr>tq_need_flush := False\<rparr>;
          B \<leftarrow> tq_mem q1 b;
          (if tq_reader_pos q1 < b_write_pos B then do {
             x \<leftarrow> rd (b_elems B) (tq_reader_pos q1);
             e \<leftarrow> x;
             Some (Some e, upd_rstats (\<lambda>s. s\<lparr>st_elems := add64 (st_elems s) 1\<rparr>)
               (q1\<lparr>tq_num_read := add64 (tq_num_read q1) 1, tq_reader_pos := tq_reader_pos q1 + 1\<rparr>))
           }
           else take_elem (upd_rstats (\<lambda>s. s\<lparr>st_batches := add64 (st_batches s) 1\<rparr>)
             (q1\<lparr>tq_mem := (tq_mem q1)(b := None), tq_reader_head := b_next B, tq_reader_pos := 0\<rparr>)))
        })"

declare take_elem.simps [code]

text \<open>The critical section: the reader takes all pending batches.\<close>

definition grab_pending :: "'e thread_queue \<Rightarrow> 'e thread_queue" where
  "grab_pending q = upd_rstats (\<lambda>s. s\<lparr>st_locked := add64 (st_locked s) 1\<rparr>)
     (q\<lparr>tq_reader_head := tq_pending_head q, tq_reader_pos := 0, tq_pending_head := None, tq_pending_tail := None, tq_num_pending := 0,
        tq_block := False, tq_num_terminated := length (filter id (tq_writers_terminated q))\<rparr>)"

definition hlt_thread_queue_can_read :: "'e thread_queue \<Rightarrow> bool" where
  "hlt_thread_queue_can_read q \<longleftrightarrow> tq_reader_head q \<noteq> None"

definition hlt_thread_queue_size :: "'e thread_queue \<Rightarrow> nat" where
  "hlt_thread_queue_size q = sub64 (foldl add64 0 (tq_num_written q)) (tq_num_read q)"

definition hlt_thread_queue_pending :: "'e thread_queue \<Rightarrow> nat" where
  "hlt_thread_queue_pending q = tq_num_pending q"

definition hlt_thread_queue_terminated :: "'e thread_queue \<Rightarrow> bool" where
  "hlt_thread_queue_terminated q \<longleftrightarrow> tq_num_terminated q = tq_writers q \<and> hlt_thread_queue_size q = 0"

text \<open>
  Where a read is: not in a call, in the inner loop, before the lock, or after it with nothing pending. The numbers are the remaining
  time in nanoseconds, an \<open>int\<close>, and whether the call waits without limit. An overflow of the number is undefined.
\<close>

datatype rstate = RIdle | RTake int bool | RLock int bool | REmpty int bool

definition as_int32 :: "int \<Rightarrow> int option" where
  "as_int32 t = (if - 2147483648 \<le> t \<and> t \<le> 2147483647 then Some t else None)"

datatype 'e read_res = Waiting rstate | Got "'e option"

definition hlt_thread_queue_read :: "int \<Rightarrow> rstate option" where
  "hlt_thread_queue_read timeout = map_option (\<lambda>t. RTake t (timeout = 0)) (as_int32 (timeout * 1000))"

fun read_on :: "rstate \<Rightarrow> 'e thread_queue \<Rightarrow> ('e read_res \<times> 'e thread_queue) option" where
  "read_on RIdle q = None"
| "read_on (RTake t bl) q = do {
     (x, q1) \<leftarrow> take_elem q;
     Some (case x of Some e \<Rightarrow> Got (Some e) | None \<Rightarrow> Waiting (RLock t bl), q1)
   }"
| "read_on (RLock t bl) q =
     (let q1 = grab_pending q in Some (Waiting (if tq_reader_head q1 = None then REmpty t bl else RTake t bl), q1))"
| "read_on (REmpty t bl) q =
     (let q1 = (upd_rstats (\<lambda>s. s\<lparr>st_blocked := add64 (st_blocked s) 1\<rparr>) q)\<lparr>tq_need_flush := True\<rparr> in
      (if t \<le> 0 \<and> \<not> bl then Some (Got None, q1)
       else if hlt_thread_queue_terminated q1 then Some (Got None, q1)
       else do { t' \<leftarrow> as_int32 (t - 1000); Some (Waiting (RTake t' bl), q1) }))"

text \<open>Deleting a queue frees the batches of the writers, of the reader and those pending.\<close>

partial_function (option) free_chain :: "ptr \<Rightarrow> 'e thread_queue \<Rightarrow> 'e thread_queue option" where
  "free_chain p q =
     (case p of
        None \<Rightarrow> Some q
      | Some b \<Rightarrow> do { B \<leftarrow> tq_mem q b; free_chain (b_next B) (q\<lparr>tq_mem := (tq_mem q)(b := None)\<rparr>) })"

declare free_chain.simps [code]

primrec free_writers :: "ptr list \<Rightarrow> 'e thread_queue \<Rightarrow> 'e thread_queue option" where
  "free_writers [] q = Some q"
| "free_writers (p # ps) q = do { q1 \<leftarrow> free_chain p q; free_writers ps q1 }"

definition hlt_thread_queue_delete :: "'e thread_queue \<Rightarrow> 'e thread_queue option" where
  "hlt_thread_queue_delete q = do {
     q1 \<leftarrow> free_writers (tq_writer_batches q) q;
     q2 \<leftarrow> free_chain (tq_reader_head q1) q1;
     free_chain (tq_pending_head q2) q2
   }"

end
