(* ===== verification/TQueueCorrect.thy ===== *)
theory TQueueCorrect
  imports TQueue "HOL-Library.Code_Target_Nat"
begin

text \<open>
  What thread queues promise. \<open>aqueue\<close> is a queue as lists: what each writer has collected, the pending batches and the
  batches of the reader. \<open>tq_inv\<close> says that the memory holds those lists, as chains of batches that share nothing and together are
  all batches in memory, and each operation of \<^verbatim>\<open>tqueue.c\<close> is shown to do what the corresponding operation on lists does. A schedule
  interleaves the calls of any number of writers and of the reader, and \<open>sched_inv\<close> says what has become of every element that was written.
\<close>

section \<open>Queues as lists\<close>

record 'e aqueue =
  a_size :: nat
  a_max :: nat
  a_own :: "'e list list"
  a_written :: "nat list"
  a_reader :: "'e list list"
  a_read :: nat
  a_nterm :: nat
  a_pending :: "'e list list"
  a_block :: bool
  a_term :: "bool list"
  a_need :: bool

definition a_flush :: "nat \<Rightarrow> 'e aqueue \<Rightarrow> 'e wstate" where
  "a_flush i A = (if a_own A ! i = [] then Idle else InFlush)"

definition a_round :: "nat \<Rightarrow> 'e aqueue \<Rightarrow> bool \<times> 'e aqueue" where
  "a_round i A =
     (if \<not> a_block A \<and> (length (a_pending A) < a_max A \<or> a_max A = 0)
      then (False, A\<lparr>a_pending := a_pending A @ [a_own A ! i], a_own := (a_own A)[i := []]\<rparr>)
      else (True, A\<lparr>a_block := True\<rparr>))"

definition a_write_loop :: "nat \<Rightarrow> 'e \<Rightarrow> 'e aqueue \<Rightarrow> 'e wstate \<times> 'e aqueue" where
  "a_write_loop i e A =
     (if length (a_own A ! i) < a_size A
      then (if a_need A then InFlush else Idle,
            A\<lparr>a_own := (a_own A)[i := a_own A ! i @ [e]], a_written := (a_written A)[i := add64 (a_written A ! i) 1]\<rparr>)
      else (InWrite e, A))"

definition a_write :: "nat \<Rightarrow> 'e \<Rightarrow> 'e aqueue \<Rightarrow> 'e wstate \<times> 'e aqueue" where
  "a_write i e A = (if a_term A ! i then (Idle, A) else a_write_loop i e A)"

fun a_resume :: "nat \<Rightarrow> 'e wstate \<Rightarrow> 'e aqueue \<Rightarrow> 'e wstate \<times> 'e aqueue" where
  "a_resume i Idle A = (Idle, A)"
| "a_resume i (InWrite e) A = (if fst (a_round i A) then (InWrite e, snd (a_round i A)) else a_write_loop i e (snd (a_round i A)))"
| "a_resume i InFlush A = (if fst (a_round i A) then InFlush else Idle, snd (a_round i A))"

fun first_elem :: "'e list list \<Rightarrow> 'e option \<times> 'e list list" where
  "first_elem [] = (None, [])"
| "first_elem ([] # bs) = first_elem bs"
| "first_elem ((e # es) # bs) = (Some e, es # bs)"

definition a_take :: "'e aqueue \<Rightarrow> 'e option \<times> 'e aqueue" where
  "a_take A = (case first_elem (a_reader A) of (x, bs) \<Rightarrow>
     (x, A\<lparr>a_reader := bs, a_need := a_need A \<and> a_reader A = [], a_read := (if x = None then a_read A else add64 (a_read A) 1)\<rparr>))"

definition a_grab :: "'e aqueue \<Rightarrow> 'e aqueue" where
  "a_grab A = A\<lparr>a_reader := a_pending A, a_pending := [], a_block := False, a_nterm := length (filter id (a_term A))\<rparr>"

section \<open>Batches in memory\<close>

primrec bchain :: "(addr \<rightharpoonup> 'e batch) \<Rightarrow> ptr \<Rightarrow> addr list \<Rightarrow> bool" where
  "bchain m p [] \<longleftrightarrow> p = None"
| "bchain m p (a # as) \<longleftrightarrow> p = Some a \<and> (\<exists>B. m a = Some B \<and> bchain m (b_next B) as)"

definition bcont :: "(addr \<rightharpoonup> 'e batch) \<Rightarrow> addr \<Rightarrow> 'e list" where
  "bcont m a = (case m a of None \<Rightarrow> [] | Some B \<Rightarrow> map the (take (b_write_pos B) (b_elems B)))"

definition batch_ok :: "nat \<Rightarrow> 'e batch \<Rightarrow> bool" where
  "batch_ok bs B \<longleftrightarrow> length (b_elems B) = 16 * bs - 2 \<and> b_write_pos B \<le> bs \<and> (\<forall>j < b_write_pos B. b_elems B ! j \<noteq> None)"

lemma bchain_upd [simp]: "a \<notin> set as \<Longrightarrow> bchain (m(a := x)) p as \<longleftrightarrow> bchain m p as"
  by (induction as arbitrary: p) auto

lemma bchain_mem: "bchain m p as \<Longrightarrow> a \<in> set as \<Longrightarrow> \<exists>B. m a = Some B"
  by (induction as arbitrary: p) auto

lemma bchain_snoc:
  assumes "bchain m p (as @ [t])" "m t = Some T" "b \<notin> set (as @ [t])" "m b = Some B" "b_next B = None" "distinct (as @ [t])"
  shows "bchain (m(t \<mapsto> T\<lparr>b_next := Some b\<rparr>)) p (as @ [t, b])"
  using assms by (induction as arbitrary: p) auto

lemma bcont_upd [simp]: "c \<noteq> a \<Longrightarrow> bcont (m(a := x)) c = bcont m c"
  by (simp add: bcont_def)

lemma bconts_upd [simp]: "a \<notin> set as \<Longrightarrow> map (bcont (m(a := x))) as = map (bcont m) as"
  by (induction as) auto

lemma bcont_link [simp]: "m t = Some T \<Longrightarrow> bcont (m(t \<mapsto> T\<lparr>b_next := n\<rparr>)) c = bcont m c"
  by (simp add: bcont_def)

lemma bcont_length: "m b = Some B \<Longrightarrow> batch_ok bs B \<Longrightarrow> length (bcont m b) = b_write_pos B"
  by (auto simp: bcont_def batch_ok_def)

definition own_cont :: "'e thread_queue \<Rightarrow> nat \<Rightarrow> 'e list" where
  "own_cont q i = (case tq_writer_batches q ! i of None \<Rightarrow> [] | Some b \<Rightarrow> bcont (tq_mem q) b)"

definition own_ok :: "'e thread_queue \<Rightarrow> addr list \<Rightarrow> bool" where
  "own_ok q as \<longleftrightarrow> (\<forall>i < tq_writers q. \<forall>b. tq_writer_batches q ! i = Some b \<longrightarrow> b \<notin> set as \<and> (\<exists>B. tq_mem q b = Some B \<and> b_next B = None) \<and>
     (\<forall>j < tq_writers q. tq_writer_batches q ! j = Some b \<longrightarrow> j = i))"

definition mem_ok :: "'e thread_queue \<Rightarrow> addr list \<Rightarrow> bool" where
  "mem_ok q as \<longleftrightarrow> (\<forall>a B. tq_mem q a = Some B \<longrightarrow> batch_ok (tq_batch_size q) B \<and> a < tq_next q \<and>
     (a \<in> set as \<or> (\<exists>i < tq_writers q. tq_writer_batches q ! i = Some a)))"

definition tq_inv :: "'e thread_queue \<Rightarrow> addr list \<Rightarrow> addr list \<Rightarrow> bool" where
  "tq_inv q R P \<longleftrightarrow> 0 < tq_batch_size q \<and> length (tq_writer_batches q) = tq_writers q \<and> length (tq_num_written q) = tq_writers q \<and>
     length (tq_writers_terminated q) = tq_writers q \<and> length (tq_writer_stats q) = tq_writers q \<and>
     bchain (tq_mem q) (tq_reader_head q) R \<and> bchain (tq_mem q) (tq_pending_head q) P \<and>
     tq_pending_tail q = (if P = [] then None else Some (last P)) \<and> tq_num_pending q = length P \<and> distinct (R @ P) \<and>
     own_ok q (R @ P) \<and> mem_ok q (R @ P)"

lemma own_okD:
  assumes "own_ok q as" "i < tq_writers q" "tq_writer_batches q ! i = Some b"
  shows "b \<notin> set as" "\<exists>B. tq_mem q b = Some B \<and> b_next B = None"
    "\<And>j. j < tq_writers q \<Longrightarrow> tq_writer_batches q ! j = Some b \<Longrightarrow> j = i"
  using assms unfolding own_ok_def by blast+

lemma mem_okD:
  assumes "mem_ok q as" "tq_mem q a = Some B"
  shows "batch_ok (tq_batch_size q) B" "a < tq_next q" "a \<in> set as \<or> (\<exists>i < tq_writers q. tq_writer_batches q ! i = Some a)"
  using assms unfolding mem_ok_def by blast+

fun drop_first :: "nat \<Rightarrow> 'e list list \<Rightarrow> 'e list list" where
  "drop_first k [] = []"
| "drop_first k (b # bs) = drop k b # bs"

lemma drop_first_0 [simp]: "drop_first 0 bs = bs"
  by (cases bs) auto

definition view :: "'e thread_queue \<Rightarrow> addr list \<Rightarrow> addr list \<Rightarrow> 'e aqueue" where
  "view q R P = \<lparr>a_size = tq_batch_size q, a_max = tq_max_batches q, a_own = map (own_cont q) [0..<tq_writers q],
     a_written = tq_num_written q, a_reader = drop_first (tq_reader_pos q) (map (bcont (tq_mem q)) R), a_read = tq_num_read q,
     a_nterm = tq_num_terminated q, a_pending = map (bcont (tq_mem q)) P, a_block = tq_block q, a_term = tq_writers_terminated q,
     a_need = tq_need_flush q\<rparr>"

definition tq_abs :: "'e thread_queue \<Rightarrow> 'e aqueue \<Rightarrow> bool" where
  "tq_abs q A \<longleftrightarrow> (\<exists>R P. tq_inv q R P \<and> A = view q R P)"

lemma new_abs:
  assumes "0 < bs"
  shows "tq_abs (hlt_thread_queue_new n bs mx) \<lparr>a_size = bs, a_max = mx, a_own = replicate n [], a_written = replicate n 0, a_reader = [],
    a_read = 0, a_nterm = 0, a_pending = [], a_block = False, a_term = replicate n False, a_need = False\<rparr>"
  using assms unfolding tq_abs_def
  by (intro exI [of _ "[]"]) (auto simp: tq_inv_def own_ok_def mem_ok_def view_def hlt_thread_queue_new_def own_cont_def intro!: nth_equalityI)

lemma upd_wstats_ok:
  assumes "i < length (tq_writer_stats q)"
  shows "\<exists>ss. upd_wstats i f q = Some (q\<lparr>tq_writer_stats := ss\<rparr>) \<and> length ss = length (tq_writer_stats q)"
  using assms unfolding upd_wstats_def by (intro exI [of _ "(tq_writer_stats q)[i := f (tq_writer_stats q ! i)]"]) (simp add: rd_Some wr_Some)

lemma own_cont_stats [simp]: "own_cont (q\<lparr>tq_writer_stats := ss\<rparr>) = own_cont q" "own_cont (upd_rstats f q) = own_cont q"
  by (auto simp: own_cont_def upd_rstats_def split: option.splits)

lemma stats_irrelevant [simp]:
  "view (q\<lparr>tq_writer_stats := ss\<rparr>) R P = view q R P" "view (upd_rstats f q) R P = view q R P" "tq_inv (upd_rstats f q) R P \<longleftrightarrow> tq_inv q R P"
  using own_cont_stats(2) [of f q] by (simp_all add: upd_rstats_def tq_inv_def view_def own_ok_def mem_ok_def)

lemma stats_inv: "length ss = length (tq_writer_stats q) \<Longrightarrow> tq_inv (q\<lparr>tq_writer_stats := ss\<rparr>) R P \<longleftrightarrow> tq_inv q R P"
  by (simp add: tq_inv_def own_ok_def mem_ok_def)

section \<open>The writers' operations\<close>

lemma own_batch:
  assumes "tq_inv q R P" "i < tq_writers q" "tq_writer_batches q ! i = Some b"
  shows "\<exists>B. tq_mem q b = Some B \<and> b_next B = None \<and> batch_ok (tq_batch_size q) B \<and> b < tq_next q"
  using own_okD(2) [OF _ assms(2,3)] mem_okD(1,2) assms(1) unfolding tq_inv_def by metis

lemma own_elems:
  assumes "tq_inv q R P" "i < tq_writers q" "own_cont q i \<noteq> []"
  obtains b B where "tq_writer_batches q ! i = Some b" "tq_mem q b = Some B" "b_next B = None" "batch_ok (tq_batch_size q) B"
    "b_write_pos B = length (own_cont q i)"
proof (cases "tq_writer_batches q ! i")
  case None
  then show ?thesis using assms(3) by (simp add: own_cont_def)
next
  case (Some b)
  with own_batch [OF assms(1,2) Some] that show ?thesis by (auto simp: own_cont_def bcont_length)
qed

lemma ensure_batch_ok:
  assumes inv: "tq_inv q R P" and i: "i < tq_writers q"
  shows "\<exists>b q1 B. ensure_batch i q = Some (b, q1) \<and> tq_inv q1 R P \<and> view q1 R P = view q R P \<and> tq_writers q1 = tq_writers q \<and>
    tq_writer_batches q1 ! i = Some b \<and> tq_mem q1 b = Some B"
proof (cases "tq_writer_batches q ! i")
  case (Some b)
  with inv i have "ensure_batch i q = Some (b, q)" by (simp add: ensure_batch_def rd_Some tq_inv_def)
  with Some inv own_batch [OF inv i Some] show ?thesis by blast
next
  case None
  let ?a = "tq_next q"
  let ?B = "\<lparr>b_next = None, b_write_pos = 0, b_elems = replicate (16 * tq_batch_size q - 2) None\<rparr>"
  let ?q = "put_batch ?a ?B (q\<lparr>tq_writer_batches := (tq_writer_batches q)[i := Some ?a], tq_next := ?a + 1\<rparr>)"
  have len: "i < length (tq_writer_batches q)" "0 < tq_batch_size q" "length (tq_writer_batches q) = tq_writers q"
    and ok: "own_ok q (R @ P)" "mem_ok q (R @ P)" using inv i by (auto simp: tq_inv_def)
  have fresh: "tq_mem q ?a = None" using mem_okD(2) [OF ok(2)] by (cases "tq_mem q ?a") auto
  have notin: "?a \<notin> set R" "?a \<notin> set P" using inv fresh bchain_mem unfolding tq_inv_def by fastforce+
  have other: "tq_writer_batches q ! j \<noteq> Some ?a" if "j < tq_writers q" for j using own_okD(2) [OF ok(1) that, of ?a] fresh by auto
  have "own_ok ?q (R @ P)" unfolding own_ok_def
  proof (intro allI impI)
    fix j b assume j: "j < tq_writers ?q" "tq_writer_batches ?q ! j = Some b"
    have *: "tq_writer_batches ?q ! k = Some ?a \<longleftrightarrow> k = i" if "k < tq_writers q" for k
      using other [OF that] len by (simp add: put_batch_def nth_list_update)
    show "b \<notin> set (R @ P) \<and> (\<exists>B. tq_mem ?q b = Some B \<and> b_next B = None) \<and>
      (\<forall>k < tq_writers ?q. tq_writer_batches ?q ! k = Some b \<longrightarrow> k = j)"
    proof (cases "j = i")
      case True
      with j len have "b = ?a" by (simp add: put_batch_def)
      with True * notin show ?thesis by (simp add: put_batch_def)
    next
      case False
      with j have b: "tq_writer_batches q ! j = Some b" "j < tq_writers q" by (simp_all add: put_batch_def)
      with other have "b \<noteq> ?a" by blast
      then show ?thesis using own_okD [OF ok(1) b(2,1)] len by (auto simp: put_batch_def nth_list_update)
    qed
  qed
  moreover have "mem_ok ?q (R @ P)" unfolding mem_ok_def
  proof (intro allI impI)
    fix a B assume a: "tq_mem ?q a = Some B"
    show "batch_ok (tq_batch_size ?q) B \<and> a < tq_next ?q \<and> (a \<in> set (R @ P) \<or> (\<exists>i < tq_writers ?q. tq_writer_batches ?q ! i = Some a))"
    proof (cases "a = ?a")
      case True
      with a have "B = ?B" by (simp add: put_batch_def)
      with True show ?thesis using i len by (auto simp: put_batch_def batch_ok_def intro!: exI [of _ i])
    next
      case False
      with a have "tq_mem q a = Some B" by (simp add: put_batch_def)
      from mem_okD [OF ok(2) this] None show ?thesis by (auto simp: put_batch_def nth_list_update less_Suc_eq) (metis nth_list_update_neq option.distinct(1))
    qed
  qed
  ultimately have "tq_inv ?q R P" using inv notin by (simp add: tq_inv_def put_batch_def)
  moreover have "own_cont ?q j = own_cont q j" if "j < tq_writers q" for j
    using other [OF that] None len by (cases "j = i") (auto simp: own_cont_def put_batch_def bcont_def split: option.splits)
  then have "view ?q R P = view q R P" using notin by (simp add: view_def put_batch_def)
  moreover have "ensure_batch i q = Some (?a, ?q)" using None len by (simp add: ensure_batch_def rd_Some wr_Some)
  ultimately show ?thesis using len by (intro exI [of _ ?a] exI [of _ ?q] exI [of _ ?B]) (simp add: put_batch_def)
qed

lemma view_simps [simp]:
  "a_size (view q R P) = tq_batch_size q" "a_max (view q R P) = tq_max_batches q" "a_written (view q R P) = tq_num_written q"
  "a_read (view q R P) = tq_num_read q" "a_nterm (view q R P) = tq_num_terminated q" "a_block (view q R P) = tq_block q"
  "a_term (view q R P) = tq_writers_terminated q" "a_need (view q R P) = tq_need_flush q" "length (a_own (view q R P)) = tq_writers q"
  "length (a_pending (view q R P)) = length P"
  "a_own (view q R P) = map (own_cont q) [0..<tq_writers q]" "a_pending (view q R P) = map (bcont (tq_mem q)) P"
  "a_reader (view q R P) = drop_first (tq_reader_pos q) (map (bcont (tq_mem q)) R)"
  by (simp_all add: view_def)

lemma flush_needed_ok:
  assumes inv: "tq_inv q R P" and i: "i < tq_writers q"
  shows "flush_needed i q = Some (own_cont q i \<noteq> [])"
proof (cases "tq_writer_batches q ! i")
  case None
  then show ?thesis using assms by (simp add: flush_needed_def rd_Some tq_inv_def own_cont_def)
next
  case (Some b)
  from own_batch [OF assms Some] obtain B where B: "tq_mem q b = Some B" "batch_ok (tq_batch_size q) B" by blast
  from bcont_length [of "tq_mem q", OF this] have "0 < b_write_pos B \<longleftrightarrow> bcont (tq_mem q) b \<noteq> []" by (metis length_greater_0_conv)
  then show ?thesis using Some assms B by (simp add: flush_needed_def rd_Some tq_inv_def own_cont_def)
qed

lemma flush_ok: "tq_inv q R P \<Longrightarrow> i < tq_writers q \<Longrightarrow> hlt_thread_queue_flush i q = Some (a_flush i (view q R P), q)"
  by (simp add: hlt_thread_queue_flush_def flush_needed_ok a_flush_def)

lemma own_upd:
  assumes inv: "tq_inv q R P" and i: "i < tq_writers q" and b: "tq_writer_batches q ! i = Some b"
    and j: "j < tq_writers q"
  shows "own_cont (put_batch b B q) j = (if j = i then bcont ((tq_mem q)(b \<mapsto> B)) b else own_cont q j)"
proof (cases "j = i")
  case True
  then show ?thesis using b by (simp add: own_cont_def put_batch_def)
next
  case False
  with own_okD(3) [OF _ i b j] inv have "tq_writer_batches q ! j \<noteq> Some b" by (auto simp: tq_inv_def)
  then show ?thesis using False by (auto simp: own_cont_def put_batch_def split: option.splits)
qed

lemma map_upt_update: "i < n \<Longrightarrow> (\<And>j. j < n \<Longrightarrow> f j = (if j = i then x else g j)) \<Longrightarrow> map f [0..<n] = (map g [0..<n])[i := x]"
  by (auto intro!: nth_equalityI simp: nth_list_update)

lemma write_inv:
  assumes inv: "tq_inv q R P" and i: "i < tq_writers q" and b: "tq_writer_batches q ! i = Some b"
    and B: "b_next B = None" "batch_ok (tq_batch_size q) B"
  shows "tq_inv (put_batch b B q) R P"
    "view (put_batch b B q) R P = (view q R P)\<lparr>a_own := (a_own (view q R P))[i := bcont ((tq_mem q)(b \<mapsto> B)) b]\<rparr>"
proof -
  have ok: "own_ok q (R @ P)" "mem_ok q (R @ P)" using inv by (simp_all add: tq_inv_def)
  note own_okD(1) [OF ok(1) i b]
  then have notin: "b \<notin> set R" "b \<notin> set P" by auto
  have "own_ok (put_batch b B q) (R @ P)" unfolding own_ok_def
  proof (intro allI impI)
    fix j c assume "j < tq_writers (put_batch b B q)" "tq_writer_batches (put_batch b B q) ! j = Some c"
    then have "j < tq_writers q" "tq_writer_batches q ! j = Some c" by (simp_all add: put_batch_def)
    from own_okD [OF ok(1) this] B show "c \<notin> set (R @ P) \<and> (\<exists>C. tq_mem (put_batch b B q) c = Some C \<and> b_next C = None) \<and>
      (\<forall>k < tq_writers (put_batch b B q). tq_writer_batches (put_batch b B q) ! k = Some c \<longrightarrow> k = j)"
      by (simp add: put_batch_def)
  qed
  moreover have "mem_ok (put_batch b B q) (R @ P)" unfolding mem_ok_def
  proof (intro allI impI)
    fix a C assume a: "tq_mem (put_batch b B q) a = Some C"
    from own_batch [OF inv i b] obtain D where "tq_mem q b = Some D" by blast
    with a obtain E where E: "tq_mem q a = Some E" by (cases "a = b") (auto simp: put_batch_def)
    from a B mem_okD(1) [OF ok(2)] have "batch_ok (tq_batch_size q) C" by (cases "a = b") (auto simp: put_batch_def)
    with mem_okD(2,3) [OF ok(2) E] show "batch_ok (tq_batch_size (put_batch b B q)) C \<and> a < tq_next (put_batch b B q) \<and>
      (a \<in> set (R @ P) \<or> (\<exists>i < tq_writers (put_batch b B q). tq_writer_batches (put_batch b B q) ! i = Some a))"
      by (simp add: put_batch_def)
  qed
  ultimately show "tq_inv (put_batch b B q) R P" using inv notin by (simp add: tq_inv_def put_batch_def)
  have "map (own_cont (put_batch b B q)) [0..<tq_writers q] = (map (own_cont q) [0..<tq_writers q])[i := bcont ((tq_mem q)(b \<mapsto> B)) b]"
    by (rule map_upt_update [OF i]) (rule own_upd [OF inv i b])
  then show "view (put_batch b B q) R P = (view q R P)\<lparr>a_own := (a_own (view q R P))[i := bcont ((tq_mem q)(b \<mapsto> B)) b]\<rparr>"
    using notin by (simp add: view_def put_batch_def)
qed

lemma bcont_write:
  assumes "tq_mem q b = Some B" "batch_ok bs B" "b_write_pos B < bs"
  shows "bcont ((tq_mem q)(b \<mapsto> B\<lparr>b_elems := (b_elems B)[b_write_pos B := Some e], b_write_pos := b_write_pos B + 1\<rparr>)) b
      = bcont (tq_mem q) b @ [e]"
    "batch_ok bs (B\<lparr>b_elems := (b_elems B)[b_write_pos B := Some e], b_write_pos := b_write_pos B + 1\<rparr>)"
  using assms by (auto simp: bcont_def batch_ok_def take_Suc_conv_app_nth nth_list_update less_Suc_eq)

lemma num_written_upd: 
  "length ns = length (tq_num_written q) \<Longrightarrow> tq_inv (q\<lparr>tq_num_written := ns\<rparr>) R P \<longleftrightarrow> tq_inv q R P"
  "view (q\<lparr>tq_num_written := ns\<rparr>) R P = (view q R P)\<lparr>a_written := ns\<rparr>"
  by (auto simp: tq_inv_def own_ok_def mem_ok_def view_def own_cont_def split: option.splits)

text \<open>Making the elements of a writer one more, and counting it.\<close>

lemma write_elem_ok:
  assumes inv: "tq_inv q R P" and i: "i < tq_writers q" and b: "tq_writer_batches q ! i = Some b" and len: "length (own_cont q i) < tq_batch_size q"
  shows "\<exists>q1. write_elem i e q = Some (fst (a_write_loop i e (view q R P)), q1) \<and> tq_inv q1 R P \<and>
    view q1 R P = snd (a_write_loop i e (view q R P))"
proof -
  from own_batch [OF inv i b] obtain B where B: "tq_mem q b = Some B" "b_next B = None" "batch_ok (tq_batch_size q) B" by blast
  from bcont_length [of "tq_mem q", OF B(1,3)] len b have pos: "b_write_pos B < tq_batch_size q" by (simp add: own_cont_def)
  let ?B = "B\<lparr>b_elems := (b_elems B)[b_write_pos B := Some e], b_write_pos := b_write_pos B + 1\<rparr>"
  let ?ns = "(tq_num_written q)[i := add64 (tq_num_written q ! i) 1]"
  let ?q1 = "put_batch b ?B q"
  note bw = bcont_write [OF B(1,3) pos, of e]
  have q1: "tq_inv ?q1 R P" "view ?q1 R P = (view q R P)\<lparr>a_own := (a_own (view q R P))[i := own_cont q i @ [e]]\<rparr>"
    using write_inv [OF inv i b, of ?B] B(2) bw b by (simp_all add: own_cont_def)
  have lens: "length (tq_num_written q) = tq_writers q" "length (tq_writer_stats q) = tq_writers q"
    "b_write_pos B < length (b_elems B)" "length (tq_writer_batches q) = tq_writers q"
    using inv B(3) pos by (auto simp: tq_inv_def batch_ok_def)
  let ?q2 = "?q1\<lparr>tq_num_written := ?ns\<rparr>"
  have q2: "tq_inv ?q2 R P" "view ?q2 R P = (view ?q1 R P)\<lparr>a_written := ?ns\<rparr>"
    using num_written_upd [of ?ns ?q1] q1(1) by (simp_all add: put_batch_def)
  obtain ss where ss: "upd_wstats i (\<lambda>s. s\<lparr>st_elems := add64 (st_elems s) 1\<rparr>) ?q2 = Some (?q2\<lparr>tq_writer_stats := ss\<rparr>)"
    "length ss = length (tq_writer_stats ?q2)"
    using upd_wstats_ok [of i ?q2] lens i by (auto simp: put_batch_def)
  let ?q3 = "?q2\<lparr>tq_writer_stats := ss\<rparr>"
  have q3: "tq_inv ?q3 R P" "view ?q3 R P = view ?q2 R P" "tq_writers ?q3 = tq_writers q" "tq_need_flush ?q3 = tq_need_flush q"
    using q2(1) stats_inv [OF ss(2), of R P] by (simp_all only: stats_irrelevant) (simp_all add: put_batch_def)
  have "write_elem i e q = hlt_thread_queue_writer_update i ?q3"
    using b B(1) pos lens i ss(1) by (simp add: write_elem_def rd_Some wr_Some Let_def put_batch_def)
  also have "\<dots> = Some (if tq_need_flush q then InFlush else Idle, ?q3)"
    using flush_ok [OF q3(1), of i] i q3(2-4) q2(2) q1(2) by (simp add: hlt_thread_queue_writer_update_def a_flush_def del: view_simps(11))
  finally show ?thesis using q3 q2 q1 len i lens by (simp add: a_write_loop_def)
qed

lemma write_loop_ok:
  assumes inv: "tq_inv q R P" and i: "i < tq_writers q"
  shows "\<exists>q1. write_loop i e q = Some (fst (a_write_loop i e (view q R P)), q1) \<and> tq_inv q1 R P \<and> view q1 R P = snd (a_write_loop i e (view q R P))"
proof -
  from ensure_batch_ok [OF assms] obtain b q1 B where q1: "ensure_batch i q = Some (b, q1)" "tq_inv q1 R P" "view q1 R P = view q R P"
    "tq_writers q1 = tq_writers q" "tq_writer_batches q1 ! i = Some b" "tq_mem q1 b = Some B" by blast
  have i1: "i < tq_writers q1" using i q1 by simp
  from own_batch [OF q1(2) i1 q1(5)] q1(6) have ok: "batch_ok (tq_batch_size q1) B" by auto
  from bcont_length [of "tq_mem q1", OF q1(6) ok] q1(5) have pos: "b_write_pos B = length (own_cont q1 i)" by (simp add: own_cont_def)
  have own: "own_cont q1 i = a_own (view q R P) ! i" "tq_batch_size q1 = a_size (view q R P)"
    using q1(3,4) i1 view_simps(1,11) [of q1 R P] by simp_all
  show ?thesis
  proof (cases "length (own_cont q1 i) < tq_batch_size q1")
    case True
    have "write_loop i e q = write_elem i e q1"
      using q1(1,6) True pos flush_needed_ok [OF q1(2) i1] by (simp add: write_loop_def)
    with write_elem_ok [OF q1(2) i1 q1(5) True, of e] q1(3) show ?thesis by simp
  next
    case False
    have "0 < tq_batch_size q1" using q1(2) by (simp add: tq_inv_def)
    with False have "own_cont q1 i \<noteq> []" by auto
    then have "write_loop i e q = Some (InWrite e, q1)"
      using q1(1,6) False pos flush_needed_ok [OF q1(2) i1] by (simp add: write_loop_def)
    with q1 False own show ?thesis by (simp add: a_write_loop_def del: view_simps)
  qed
qed

text \<open>A batch moves from its writer to the end of the pending ones.\<close>

definition moved :: "nat \<Rightarrow> addr \<Rightarrow> 'e thread_queue \<Rightarrow> 'e thread_queue" where
  "moved i b q = q\<lparr>tq_pending_tail := Some b, tq_num_pending := tq_num_pending q + 1, tq_writer_batches := (tq_writer_batches q)[i := None]\<rparr>"

lemma link_pending_ok:
  assumes inv: "tq_inv q R P" and b: "tq_mem q b = Some B" "b_next B = None" "b \<notin> set (R @ P)"
  shows "\<exists>m p. link_pending b q = Some (q\<lparr>tq_mem := m, tq_pending_head := p\<rparr>) \<and> bchain m p (P @ [b]) \<and> bchain m (tq_reader_head q) R \<and>
    bcont m = bcont (tq_mem q) \<and> (\<forall>a. a \<notin> set P \<longrightarrow> m a = tq_mem q a) \<and> (\<forall>a A. m a = Some A \<longrightarrow> (\<exists>B. tq_mem q a = Some B \<and>
      (batch_ok (tq_batch_size q) B \<longrightarrow> batch_ok (tq_batch_size q) A)))"
proof (cases "P = []")
  case True
  then have "link_pending b q = Some (q\<lparr>tq_mem := tq_mem q, tq_pending_head := Some b\<rparr>)" using inv by (simp add: link_pending_def tq_inv_def)
  moreover have "bchain (tq_mem q) (Some b) (P @ [b])" using True b by simp
  ultimately show ?thesis using inv by (intro exI [of _ "tq_mem q"] exI [of _ "Some b"]) (simp add: tq_inv_def)
next
  case False
  then obtain P' t where P: "P = P' @ [t]" by (cases P rule: rev_cases) auto
  have c: "bchain (tq_mem q) (tq_pending_head q) (P' @ [t])" "distinct (P' @ [t])" "t \<notin> set R" "bchain (tq_mem q) (tq_reader_head q) R"
    "tq_pending_tail q = Some t" using inv P by (auto simp: tq_inv_def)
  from bchain_mem [OF c(1), of t] obtain T where T: "tq_mem q t = Some T" by auto
  let ?m = "(tq_mem q)(t \<mapsto> T\<lparr>b_next := Some b\<rparr>)"
  have "link_pending b q = Some (q\<lparr>tq_mem := ?m, tq_pending_head := tq_pending_head q\<rparr>)" using c(5) T by (simp add: link_pending_def put_batch_def)
  moreover have "bchain ?m (tq_pending_head q) (P @ [b])" using bchain_snoc [OF c(1) T _ b(1,2) c(2)] b(3) P by simp
  moreover have "bcont ?m = bcont (tq_mem q)" using T by (intro ext) simp
  moreover have "batch_ok bs T \<longrightarrow> batch_ok bs (T\<lparr>b_next := Some b\<rparr>)" for bs by (simp add: batch_ok_def)
  ultimately show ?thesis using T c P by (intro exI [of _ ?m] exI [of _ "tq_pending_head q"]) auto
qed

lemma moved_ok:
  assumes inv: "tq_inv q R P" and i: "i < tq_writers q" and b: "tq_writer_batches q ! i = Some b"
  shows "\<exists>q1. link_pending b q = Some q1 \<and> tq_inv (moved i b q1) R (P @ [b]) \<and> tq_writer_stats q1 = tq_writer_stats q \<and>
    tq_writer_batches q1 = tq_writer_batches q \<and> view (moved i b q1) R (P @ [b]) =
      (view q R P)\<lparr>a_pending := a_pending (view q R P) @ [own_cont q i], a_own := (a_own (view q R P))[i := []]\<rparr>"
proof -
  have ok: "own_ok q (R @ P)" "mem_ok q (R @ P)" "length (tq_writer_batches q) = tq_writers q" using inv by (simp_all add: tq_inv_def)
  from own_batch [OF inv i b] obtain B where B: "tq_mem q b = Some B" "b_next B = None" by blast
  from link_pending_ok [OF inv B own_okD(1) [OF ok(1) i b]] obtain m p where
    l: "link_pending b q = Some (q\<lparr>tq_mem := m, tq_pending_head := p\<rparr>)" and c: "bchain m p (P @ [b])" "bchain m (tq_reader_head q) R"
      "bcont m = bcont (tq_mem q)" and old: "\<And>a. a \<notin> set P \<Longrightarrow> m a = tq_mem q a"
    and bat: "\<And>a A. m a = Some A \<Longrightarrow> \<exists>B. tq_mem q a = Some B \<and> (batch_ok (tq_batch_size q) B \<longrightarrow> batch_ok (tq_batch_size q) A)" by blast
  let ?q1 = "q\<lparr>tq_mem := m, tq_pending_head := p\<rparr>"
  let ?q = "moved i b ?q1"
  have "own_ok ?q (R @ P @ [b])" unfolding own_ok_def
  proof (intro allI impI)
    fix j c assume "j < tq_writers ?q" "tq_writer_batches ?q ! j = Some c"
    then have j: "j < tq_writers q" "tq_writer_batches q ! j = Some c" "j \<noteq> i" using ok(3) i
      by (auto simp: moved_def nth_list_update split: if_splits)
    from own_okD [OF ok(1) j(1,2)] own_okD(3) [OF ok(1) i b j(1)] j(2,3) old [of c] show
      "c \<notin> set (R @ P @ [b]) \<and> (\<exists>C. tq_mem ?q c = Some C \<and> b_next C = None) \<and> (\<forall>k < tq_writers ?q. tq_writer_batches ?q ! k = Some c \<longrightarrow> k = j)"
      using ok(3) i by (auto simp: moved_def nth_list_update split: if_splits)
  qed
  moreover have "mem_ok ?q (R @ P @ [b])" unfolding mem_ok_def
  proof (intro allI impI)
    fix a A assume "tq_mem ?q a = Some A"
    then have "m a = Some A" by (simp add: moved_def)
    from bat [OF this] obtain B where "tq_mem q a = Some B" "batch_ok (tq_batch_size q) B \<longrightarrow> batch_ok (tq_batch_size q) A" by blast
    with mem_okD [OF ok(2) this(1)] b show "batch_ok (tq_batch_size ?q) A \<and> a < tq_next ?q \<and>
      (a \<in> set (R @ P @ [b]) \<or> (\<exists>i < tq_writers ?q. tq_writer_batches ?q ! i = Some a))"
      by (auto simp: moved_def) (metis nth_list_update_neq option.inject)
  qed
  ultimately have "tq_inv ?q R (P @ [b])" using inv c own_okD(1) [OF ok(1) i b] by (simp add: tq_inv_def moved_def)
  moreover have "map (own_cont ?q) [0..<tq_writers q] = (map (own_cont q) [0..<tq_writers q])[i := []]"
    by (rule map_upt_update [OF i]) (use ok(3) c(3) i in \<open>simp add: own_cont_def moved_def nth_list_update split: option.splits\<close>)
  then have "view ?q R (P @ [b]) = (view q R P)\<lparr>a_pending := a_pending (view q R P) @ [own_cont q i], a_own := (a_own (view q R P))[i := []]\<rparr>"
    using c(3) b by (simp add: view_def moved_def own_cont_def)
  ultimately show ?thesis using l by simp
qed

lemma block_upd: "tq_inv (q\<lparr>tq_block := x\<rparr>) R P \<longleftrightarrow> tq_inv q R P" "view (q\<lparr>tq_block := x\<rparr>) R P = (view q R P)\<lparr>a_block := x\<rparr>"
  by (auto simp: tq_inv_def own_ok_def mem_ok_def view_def own_cont_def split: option.splits)

lemma flush_round_ok:
  assumes inv: "tq_inv q R P" and i: "i < tq_writers q" and own: "own_cont q i \<noteq> []"
  shows "\<exists>q1 P1. flush_round i q = Some (fst (a_round i (view q R P)), q1) \<and> tq_inv q1 R P1 \<and> view q1 R P1 = snd (a_round i (view q R P))"
proof -
  from own_elems [OF inv i own] obtain b where b: "tq_writer_batches q ! i = Some b" by blast
  have lens: "length (tq_writer_stats q) = tq_writers q" "length (tq_writer_batches q) = tq_writers q" "tq_num_pending q = length P"
    using inv by (simp_all add: tq_inv_def)
  from upd_wstats_ok [of i q "\<lambda>s. s\<lparr>st_locked := add64 (st_locked s) 1\<rparr>"] i lens obtain ss where
    ss: "upd_wstats i (\<lambda>s. s\<lparr>st_locked := add64 (st_locked s) 1\<rparr>) q = Some (q\<lparr>tq_writer_stats := ss\<rparr>)" "length ss = length (tq_writer_stats q)" by auto
  let ?q1 = "q\<lparr>tq_writer_stats := ss\<rparr>"
  have inv1: "tq_inv ?q1 R P" using inv stats_inv [OF ss(2)] by blast
  show ?thesis
  proof (cases "\<not> tq_block q \<and> (tq_num_pending q < tq_max_batches q \<or> tq_max_batches q = 0)")
    case True
    from moved_ok [OF inv1, of i b] i b obtain q2 where q2: "link_pending b ?q1 = Some q2" "tq_inv (moved i b q2) R (P @ [b])"
      "tq_writer_stats q2 = ss" "tq_writer_batches q2 = tq_writer_batches q"
      "view (moved i b q2) R (P @ [b]) = (view q R P)\<lparr>a_pending := a_pending (view q R P) @ [own_cont q i], a_own := (a_own (view q R P))[i := []]\<rparr>"
      by auto
    let ?q2 = "q2\<lparr>tq_pending_tail := Some b, tq_num_pending := tq_num_pending q2 + 1\<rparr>"
    from upd_wstats_ok [of i ?q2 "\<lambda>s. s\<lparr>st_batches := add64 (st_batches s) 1\<rparr>"] i lens ss q2(3) obtain tt where
      tt: "upd_wstats i (\<lambda>s. s\<lparr>st_batches := add64 (st_batches s) 1\<rparr>) ?q2 = Some (?q2\<lparr>tq_writer_stats := tt\<rparr>)" "length tt = length ss" by auto
    have "flush_round i q = Some (False, (moved i b q2)\<lparr>tq_writer_stats := tt\<rparr>)"
      using True b i lens ss(1) q2(1,4) tt(1) by (simp add: flush_round_def rd_Some wr_Some moved_def)
    moreover have "tq_inv ((moved i b q2)\<lparr>tq_writer_stats := tt\<rparr>) R (P @ [b])"
      using q2(2,3) tt(2) stats_inv [of tt "moved i b q2"] by (simp add: moved_def)
    ultimately show ?thesis using True i lens q2(5)
      by (intro exI [of _ "(moved i b q2)\<lparr>tq_writer_stats := tt\<rparr>"] exI [of _ "P @ [b]"]) (simp add: a_round_def)
  next
    case False
    let ?q2 = "?q1\<lparr>tq_block := True\<rparr>"
    from upd_wstats_ok [of i ?q2 "\<lambda>s. s\<lparr>st_blocked := add64 (st_blocked s) 1\<rparr>"] i lens ss obtain tt where
      tt: "upd_wstats i (\<lambda>s. s\<lparr>st_blocked := add64 (st_blocked s) 1\<rparr>) ?q2 = Some (?q2\<lparr>tq_writer_stats := tt\<rparr>)" "length tt = length (tq_writer_stats ?q2)" by auto
    have "flush_round i q = Some (True, ?q2\<lparr>tq_writer_stats := tt\<rparr>)"
      using False b i lens ss(1) tt(1) by (auto simp: flush_round_def rd_Some)
    moreover have "tq_inv (?q2\<lparr>tq_writer_stats := tt\<rparr>) R P" using stats_inv [OF tt(2)] block_upd(1) inv1 by blast
    moreover have "view (?q2\<lparr>tq_writer_stats := tt\<rparr>) R P = (view q R P)\<lparr>a_block := True\<rparr>" using block_upd(2) stats_irrelevant(1) by metis
    moreover have "a_round i (view q R P) = (True, (view q R P)\<lparr>a_block := True\<rparr>)" using False lens by (auto simp: a_round_def)
    ultimately show ?thesis by (intro exI [of _ "?q2\<lparr>tq_writer_stats := tt\<rparr>"] exI [of _ P]) simp
  qed
qed

text \<open>The calls of a writer, and going on after a wait.\<close>

lemma term_upd:
  "length ts = length (tq_writers_terminated q) \<Longrightarrow> tq_inv (q\<lparr>tq_writers_terminated := ts\<rparr>) R P \<longleftrightarrow> tq_inv q R P"
  "view (q\<lparr>tq_writers_terminated := ts\<rparr>) R P = (view q R P)\<lparr>a_term := ts\<rparr>"
  by (auto simp: tq_inv_def own_ok_def mem_ok_def view_def own_cont_def split: option.splits)

lemma abs_write:
  assumes "tq_abs q A" "i < length (a_own A)"
  shows "\<exists>q1. hlt_thread_queue_write i e q = Some (fst (a_write i e A), q1) \<and> tq_abs q1 (snd (a_write i e A))"
proof -
  from assms obtain R P where inv: "tq_inv q R P" and A: "A = view q R P" by (auto simp: tq_abs_def)
  with assms(2) have i: "i < tq_writers q" "length (tq_writers_terminated q) = tq_writers q" by (simp_all add: tq_inv_def)
  with write_loop_ok [OF inv i(1), of e] inv A show ?thesis unfolding tq_abs_def
    by (auto simp: hlt_thread_queue_write_def rd_Some a_write_def simp del: view_simps(9-13)) metis
qed

lemma abs_flush:
  assumes "tq_abs q A" "i < length (a_own A)"
  shows "hlt_thread_queue_flush i q = Some (a_flush i A, q)"
  using assms flush_ok by (auto simp: tq_abs_def)

lemma abs_update:
  assumes "tq_abs q A" "i < length (a_own A)"
  shows "hlt_thread_queue_writer_update i q = Some (if a_need A then a_flush i A else Idle, q)"
proof -
  have "tq_need_flush q = a_need A" using assms(1) by (auto simp: tq_abs_def)
  then show ?thesis using abs_flush [OF assms] by (simp add: hlt_thread_queue_writer_update_def)
qed

lemma abs_terminate:
  assumes "tq_abs q A" "i < length (a_own A)"
  shows "\<exists>q1. hlt_thread_queue_terminate_writer i q = Some (a_flush i A, q1) \<and> tq_abs q1 (A\<lparr>a_term := (a_term A)[i := True]\<rparr>)"
proof -
  from assms obtain R P where inv: "tq_inv q R P" and A: "A = view q R P" by (auto simp: tq_abs_def)
  let ?ts = "(tq_writers_terminated q)[i := True]"
  have i: "i < length (tq_writers_terminated q)" "i < tq_writers q" using assms(2) inv A by (simp_all add: tq_inv_def)
  have inv1: "tq_inv (q\<lparr>tq_writers_terminated := ?ts\<rparr>) R P" using inv term_upd(1) [of ?ts q] by simp
  have abs: "tq_abs (q\<lparr>tq_writers_terminated := ?ts\<rparr>) (A\<lparr>a_term := (a_term A)[i := True]\<rparr>)"
    unfolding tq_abs_def using inv1 A by (intro exI [of _ R] exI [of _ P]) (simp add: term_upd(2))
  have "a_flush i (A\<lparr>a_term := (a_term A)[i := True]\<rparr>) = a_flush i A" by (simp add: a_flush_def)
  with abs_flush [OF abs] assms(2) i abs show ?thesis by (simp add: hlt_thread_queue_terminate_writer_def wr_Some)
qed

lemma abs_resume:
  assumes abs: "tq_abs q A" and i: "i < length (a_own A)" and own: "w \<noteq> Idle \<Longrightarrow> a_own A ! i \<noteq> []"
  shows "\<exists>q1. resume i w q = Some (fst (a_resume i w A), q1) \<and> tq_abs q1 (snd (a_resume i w A))"
proof (cases "w = Idle")
  case True
  then show ?thesis using abs by simp
next
  case False
  from abs obtain R P where inv: "tq_inv q R P" and A: "A = view q R P" by (auto simp: tq_abs_def)
  from i A have iw: "i < tq_writers q" by simp
  with own False A have "own_cont q i \<noteq> []" by simp
  from flush_round_ok [OF inv iw this] obtain q1 P1 where
    q1: "flush_round i q = Some (fst (a_round i A), q1)" "tq_inv q1 R P1" "view q1 R P1 = snd (a_round i A)" unfolding A by blast
  have "length (a_own (snd (a_round i A))) = length (a_own A)" by (simp add: a_round_def)
  with q1(3) i have "i < tq_writers q1" by (metis view_simps(9))
  from write_loop_ok [OF q1(2) this] q1 False show ?thesis
    by (cases w) (auto simp: tq_abs_def split: if_splits, metis+)
qed

section \<open>The reader's operations\<close>

lemma take_elem_simps:
  "take_elem q = (case tq_reader_head q of
     None \<Rightarrow> Some (None, q)
   | Some b \<Rightarrow> (case tq_mem q b of
       None \<Rightarrow> None
     | Some B \<Rightarrow>
        (if tq_reader_pos q < b_write_pos B then do {
           x \<leftarrow> rd (b_elems B) (tq_reader_pos q);
           e \<leftarrow> x;
           Some (Some e, upd_rstats (\<lambda>s. s\<lparr>st_elems := add64 (st_elems s) 1\<rparr>)
             (q\<lparr>tq_need_flush := False, tq_num_read := add64 (tq_num_read q) 1, tq_reader_pos := tq_reader_pos q + 1\<rparr>))
         }
         else take_elem (upd_rstats (\<lambda>s. s\<lparr>st_batches := add64 (st_batches s) 1\<rparr>)
           (q\<lparr>tq_need_flush := False, tq_mem := (tq_mem q)(b := None), tq_reader_head := b_next B, tq_reader_pos := 0\<rparr>)))))"
  by (subst take_elem.simps) (simp split: option.splits)

lemma drop_batch_ok:
  assumes inv: "tq_inv q (b # R) P" and B: "tq_mem q b = Some B"
  shows "tq_inv (q\<lparr>tq_need_flush := False, tq_mem := (tq_mem q)(b := None), tq_reader_head := b_next B, tq_reader_pos := 0\<rparr>) R P" (is "tq_inv ?q R P")
    "view (q\<lparr>tq_need_flush := False, tq_mem := (tq_mem q)(b := None), tq_reader_head := b_next B, tq_reader_pos := 0\<rparr>) R P =
      (view q (b # R) P)\<lparr>a_reader := map (bcont (tq_mem q)) R, a_need := False\<rparr>"
proof -
  have ok: "own_ok q (b # R @ P)" "mem_ok q (b # R @ P)" "b \<notin> set R" "b \<notin> set P" using inv by (simp_all add: tq_inv_def)
  have other: "tq_writer_batches q ! j \<noteq> Some b" if "j < tq_writers q" for j using own_okD(1) [OF ok(1) that, of b] by auto
  have "own_ok ?q (R @ P)" unfolding own_ok_def
  proof (intro allI impI)
    fix j c assume "j < tq_writers ?q" "tq_writer_batches ?q ! j = Some c"
    then have j: "j < tq_writers q" "tq_writer_batches q ! j = Some c" by simp_all
    from own_okD [OF ok(1) j] other [OF j(1)] j(2) show
      "c \<notin> set (R @ P) \<and> (\<exists>C. tq_mem ?q c = Some C \<and> b_next C = None) \<and> (\<forall>k < tq_writers ?q. tq_writer_batches ?q ! k = Some c \<longrightarrow> k = j)" by auto
  qed
  moreover have "mem_ok ?q (R @ P)" unfolding mem_ok_def
  proof (intro allI impI)
    fix a A assume "tq_mem ?q a = Some A"
    then have "tq_mem q a = Some A" "a \<noteq> b" by (auto split: if_splits)
    with mem_okD [OF ok(2) this(1)] show "batch_ok (tq_batch_size ?q) A \<and> a < tq_next ?q \<and>
      (a \<in> set (R @ P) \<or> (\<exists>i < tq_writers ?q. tq_writer_batches ?q ! i = Some a))" by simp
  qed
  ultimately show "tq_inv ?q R P" using inv B ok(3,4) by (simp add: tq_inv_def)
  have "own_cont ?q j = own_cont q j" if "j < tq_writers q" for j
    using other [OF that] by (auto simp: own_cont_def split: option.splits)
  then show "view ?q R P = (view q (b # R) P)\<lparr>a_reader := map (bcont (tq_mem q)) R, a_need := False\<rparr>"
    using ok(3,4) by (simp add: view_def)
qed

lemma reader_upd:
  "tq_inv (q\<lparr>tq_need_flush := x, tq_num_read := y, tq_reader_pos := z\<rparr>) R P \<longleftrightarrow> tq_inv q R P"
  "view (q\<lparr>tq_need_flush := x, tq_num_read := y, tq_reader_pos := z\<rparr>) R P =
    (view q R P)\<lparr>a_need := x, a_read := y, a_reader := drop_first z (map (bcont (tq_mem q)) R)\<rparr>"
  by (auto simp: tq_inv_def own_ok_def mem_ok_def view_def own_cont_def split: option.splits)

lemma take_elem_ok:
  assumes "tq_inv q R P"
  shows "\<exists>q1 R1. take_elem q = Some (fst (a_take (view q R P)), q1) \<and> tq_inv q1 R1 P \<and> view q1 R1 P = snd (a_take (view q R P))"
  using assms
proof (induction R arbitrary: q)
  case Nil
  then have "take_elem q = Some (None, q)" by (subst take_elem_simps) (simp add: tq_inv_def)
  with Nil show ?case by (intro exI [of _ q] exI [of _ "[]"]) (simp add: a_take_def view_def)
next
  case (Cons b R)
  then obtain B where h: "tq_reader_head q = Some b" and B: "tq_mem q b = Some B" by (auto simp: tq_inv_def)
  from Cons.prems B mem_okD(1) [of q] have ok: "batch_ok (tq_batch_size q) B" unfolding tq_inv_def by metis
  have len: "length (bcont (tq_mem q) b) = b_write_pos B" by (rule bcont_length [of "tq_mem q", OF B ok])
  show ?case
  proof (cases "tq_reader_pos q < b_write_pos B")
    case True
    let ?p = "tq_reader_pos q"
    from ok True obtain e where e: "rd (b_elems B) ?p = Some (Some e)" by (auto simp: rd_Some batch_ok_def)
    then have "bcont (tq_mem q) b ! ?p = e" using True B ok by (auto simp: bcont_def rd_eq_Some batch_ok_def)
    then have d: "drop ?p (bcont (tq_mem q) b) = e # drop (?p + 1) (bcont (tq_mem q) b)" using True len by (metis Cons_nth_drop_Suc Suc_eq_plus1)
    let ?q = "q\<lparr>tq_need_flush := False, tq_num_read := add64 (tq_num_read q) 1, tq_reader_pos := ?p + 1\<rparr>"
    have "take_elem q = Some (Some e, upd_rstats (\<lambda>s. s\<lparr>st_elems := add64 (st_elems s) 1\<rparr>) ?q)"
      using h B True e by (subst take_elem_simps) simp
    moreover have "tq_inv ?q (b # R) P" using Cons.prems reader_upd(1) by blast
    moreover have "a_take (view q (b # R) P) = (Some e, view ?q (b # R) P)"
      using d by (simp add: a_take_def reader_upd(2)) 
    ultimately show ?thesis
      by (intro exI [of _ "upd_rstats (\<lambda>s. s\<lparr>st_elems := add64 (st_elems s) 1\<rparr>) ?q"] exI [of _ "b # R"]) simp
  next
    case False
    then have d: "drop (tq_reader_pos q) (bcont (tq_mem q) b) = []" using len by simp
    let ?q = "upd_rstats (\<lambda>s. s\<lparr>st_batches := add64 (st_batches s) 1\<rparr>)
      (q\<lparr>tq_need_flush := False, tq_mem := (tq_mem q)(b := None), tq_reader_head := b_next B, tq_reader_pos := 0\<rparr>)"
    have "take_elem q = take_elem ?q" using h B False by (subst take_elem_simps) simp
    moreover have "tq_inv ?q R P" using drop_batch_ok(1) [OF Cons.prems B] by (simp only: stats_irrelevant)
    moreover have "a_take (view ?q R P) = a_take (view q (b # R) P)"
      unfolding stats_irrelevant drop_batch_ok(2) [OF Cons.prems B] using d by (simp add: a_take_def split: prod.splits)
    ultimately show ?thesis using Cons.IH [of ?q] by simp
  qed
qed

lemma abs_take:
  assumes "tq_abs q A"
  shows "\<exists>q1. take_elem q = Some (fst (a_take A), q1) \<and> tq_abs q1 (snd (a_take A))"
  using assms take_elem_ok unfolding tq_abs_def by metis

lemma abs_head: "tq_abs q A \<Longrightarrow> tq_reader_head q = None \<longleftrightarrow> a_reader A = []"
proof -
  assume "tq_abs q A"
  then obtain R P where "tq_inv q R P" "A = view q R P" by (auto simp: tq_abs_def)
  then show ?thesis by (cases R) (auto simp: tq_inv_def)
qed

lemma abs_grab:
  assumes "tq_abs q A" "a_reader A = []"
  shows "tq_abs (grab_pending q) (a_grab A)"
proof -
  from assms obtain R P where inv: "tq_inv q R P" and A: "A = view q R P" by (auto simp: tq_abs_def)
  from assms(2) A have R: "R = []" by (cases R) auto
  let ?q = "q\<lparr>tq_reader_head := tq_pending_head q, tq_reader_pos := 0, tq_pending_head := None, tq_pending_tail := None, tq_num_pending := 0,
    tq_block := False, tq_num_terminated := length (filter id (tq_writers_terminated q))\<rparr>"
  have "own_cont ?q = own_cont q" by (auto simp: own_cont_def split: option.splits)
  then have "view ?q P [] = a_grab A" using A by (simp add: view_def a_grab_def)
  moreover have "own_ok ?q P \<longleftrightarrow> own_ok q P" "mem_ok ?q P \<longleftrightarrow> mem_ok q P" by (simp_all add: own_ok_def mem_ok_def)
  then have "tq_inv ?q P []" using inv R by (simp add: tq_inv_def)
  ultimately show ?thesis unfolding tq_abs_def grab_pending_def by (intro exI [of _ P] exI [of _ "[]"]) simp
qed

definition a_total :: "'e aqueue \<Rightarrow> nat" where
  "a_total A = sub64 (foldl add64 0 (a_written A)) (a_read A)"

lemma abs_queries:
  assumes "tq_abs q A"
  shows "hlt_thread_queue_can_read q \<longleftrightarrow> a_reader A \<noteq> []" "hlt_thread_queue_size q = a_total A"
    "hlt_thread_queue_pending q = length (a_pending A)"
    "hlt_thread_queue_terminated q \<longleftrightarrow> a_nterm A = length (a_own A) \<and> a_total A = 0"
  using assms abs_head [OF assms]
  by (auto simp: hlt_thread_queue_can_read_def hlt_thread_queue_size_def hlt_thread_queue_pending_def hlt_thread_queue_terminated_def
    tq_abs_def tq_inv_def a_total_def)

fun a_read_on :: "rstate \<Rightarrow> 'e aqueue \<Rightarrow> ('e read_res \<times> 'e aqueue) option" where
  "a_read_on RIdle A = None"
| "a_read_on (RTake t bl) A = Some (case fst (a_take A) of Some e \<Rightarrow> Got (Some e) | None \<Rightarrow> Waiting (RLock t bl), snd (a_take A))"
| "a_read_on (RLock t bl) A = Some (Waiting (if a_pending A = [] then REmpty t bl else RTake t bl), a_grab A)"
| "a_read_on (REmpty t bl) A =
     (if t \<le> 0 \<and> \<not> bl \<or> a_nterm A = length (a_own A) \<and> a_total A = 0 then Some (Got None, A\<lparr>a_need := True\<rparr>)
      else do { t' \<leftarrow> as_int32 (t - 1000); Some (Waiting (RTake t' bl), A\<lparr>a_need := True\<rparr>) })"

lemma need_upd: "tq_abs q A \<Longrightarrow> tq_abs (q\<lparr>tq_need_flush := x\<rparr>) (A\<lparr>a_need := x\<rparr>)"
proof -
  assume "tq_abs q A"
  then obtain R P where inv: "tq_inv q R P" and A: "A = view q R P" by (auto simp: tq_abs_def)
  have "own_cont (q\<lparr>tq_need_flush := x\<rparr>) = own_cont q" by (auto simp: own_cont_def split: option.splits)
  then have "view (q\<lparr>tq_need_flush := x\<rparr>) R P = A\<lparr>a_need := x\<rparr>" using A by (simp add: view_def)
  moreover have "tq_inv (q\<lparr>tq_need_flush := x\<rparr>) R P \<longleftrightarrow> tq_inv q R P" by (simp add: tq_inv_def own_ok_def mem_ok_def)
  ultimately show ?thesis using inv unfolding tq_abs_def by metis
qed

lemma abs_read_on:
  assumes abs: "tq_abs q A" and r: "\<And>t bl. r = RLock t bl \<Longrightarrow> a_reader A = []"
  shows "case a_read_on r A of None \<Rightarrow> read_on r q = None | Some (x, A1) \<Rightarrow> \<exists>q1. read_on r q = Some (x, q1) \<and> tq_abs q1 A1"
proof (cases r)
  case (RTake t bl)
  then show ?thesis using abs_take [OF abs] by auto
next
  case (RLock t bl)
  with r have "a_reader A = []" by blast
  from abs_grab [OF abs this] abs_head [OF abs_grab [OF abs this]] show ?thesis using RLock by (auto simp: Let_def a_grab_def)
next
  case (REmpty t bl)
  let ?q = "upd_rstats (\<lambda>s. s\<lparr>st_blocked := add64 (st_blocked s) 1\<rparr>) q"
  let ?q1 = "?q\<lparr>tq_need_flush := True\<rparr>"
  have "tq_abs ?q A" using abs by (simp add: tq_abs_def)
  from need_upd [OF this, of True] have abs1: "tq_abs ?q1 (A\<lparr>a_need := True\<rparr>)" .
  have "hlt_thread_queue_terminated ?q1 \<longleftrightarrow> a_nterm A = length (a_own A) \<and> a_total A = 0"
    using abs_queries(4) [OF abs1] by (simp add: a_total_def)
  then have "read_on r q = (if t \<le> 0 \<and> \<not> bl \<or> a_nterm A = length (a_own A) \<and> a_total A = 0 then Some (Got None, ?q1)
    else do { t' \<leftarrow> as_int32 (t - 1000); Some (Waiting (RTake t' bl), ?q1) })" using REmpty by (simp add: Let_def)
  then show ?thesis using abs1 REmpty by (cases "as_int32 (t - 1000)") auto
qed simp

section \<open>Deleting a queue\<close>

lemma free_chain_ok:
  assumes "bchain (tq_mem q) p as" "distinct as"
  shows "free_chain p q = Some (q\<lparr>tq_mem := (tq_mem q) |` (- set as)\<rparr>)"
  using assms
proof (induction as arbitrary: p q)
  case Nil
  have "tq_mem q |` (- set []) = tq_mem q" by (auto simp: restrict_map_def)
  then show ?case using Nil by (simp add: free_chain.simps [of None q])
next
  case (Cons a as)
  then obtain B where B: "p = Some a" "tq_mem q a = Some B" "bchain (tq_mem q) (b_next B) as" "a \<notin> set as" "distinct as" by auto
  let ?q = "q\<lparr>tq_mem := (tq_mem q)(a := None)\<rparr>"
  have "bchain (tq_mem ?q) (b_next B) as" using B(3,4) bchain_upd by fastforce
  note 1 = Cons.IH [OF this B(5)]
  have eq: "tq_mem ?q |` (- set as) = tq_mem q |` (- set (a # as))" by (auto simp: restrict_map_def)
  have 2: "?q\<lparr>tq_mem := (tq_mem ?q) |` (- set as)\<rparr> = q\<lparr>tq_mem := tq_mem q |` (- set (a # as))\<rparr>" unfolding eq by simp
  have "free_chain p q = free_chain (b_next B) ?q" using B(1,2) by (simp add: free_chain.simps [of "Some a" q])
  then show ?case unfolding 1 2 .
qed

lemma free_writers_ok:
  assumes "\<And>b. Some b \<in> set ps \<Longrightarrow> \<exists>B. tq_mem q b = Some B \<and> b_next B = None" "\<And>i j b. i < length ps \<Longrightarrow> j < length ps \<Longrightarrow> ps ! i = Some b \<Longrightarrow> ps ! j = Some b \<Longrightarrow> i = j"
  shows "free_writers ps q = Some (q\<lparr>tq_mem := (tq_mem q) |` (- {b. Some b \<in> set ps})\<rparr>)"
  using assms
proof (induction ps arbitrary: q)
  case Nil
  then show ?case by simp
next
  case (Cons p ps)
  define as where "as = (case p of None \<Rightarrow> [] | Some b \<Rightarrow> [b])"
  have "bchain (tq_mem q) p as" "distinct as" using Cons.prems(1) by (auto simp: as_def split: option.splits)
  note 1 = free_chain_ok [OF this]
  let ?q = "q\<lparr>tq_mem := (tq_mem q) |` (- set as)\<rparr>"
  have "p \<notin> set ps" if "p \<noteq> None"
    using Cons.prems(2) [of 0 "Suc k" for k] that by (fastforce simp: in_set_conv_nth)
  then have "\<exists>B. tq_mem ?q b = Some B \<and> b_next B = None" if "Some b \<in> set ps" for b
    using Cons.prems(1) [of b] that by (auto simp: as_def restrict_map_def split: option.splits)
  moreover have "i = j" if "i < length ps" "j < length ps" "ps ! i = Some b" "ps ! j = Some b" for i j b
    using Cons.prems(2) [of "Suc i" "Suc j" b] that by simp
  ultimately have "free_writers ps ?q = Some (?q\<lparr>tq_mem := (tq_mem ?q) |` (- {b. Some b \<in> set ps})\<rparr>)" by (rule Cons.IH)
  moreover have "tq_mem q |` (- set as) |` (- {b. Some b \<in> set ps}) = tq_mem q |` (- {b. Some b \<in> set (p # ps)})"
    by (auto simp: as_def restrict_map_def split: option.splits)
  ultimately show ?case using 1 by simp
qed

lemma abs_delete:
  assumes "tq_abs q A"
  shows "\<exists>q1. hlt_thread_queue_delete q = Some q1 \<and> tq_mem q1 = Map.empty"
proof -
  from assms obtain R P where inv: "tq_inv q R P" by (auto simp: tq_abs_def)
  then have ok: "own_ok q (R @ P)" "mem_ok q (R @ P)" "length (tq_writer_batches q) = tq_writers q"
    "bchain (tq_mem q) (tq_reader_head q) R" "bchain (tq_mem q) (tq_pending_head q) P" "distinct (R @ P)" by (simp_all add: tq_inv_def)
  let ?W = "{b. Some b \<in> set (tq_writer_batches q)}"
  have W: "b \<notin> set (R @ P) \<and> (\<exists>B. tq_mem q b = Some B \<and> b_next B = None)" if "b \<in> ?W" for b
  proof -
    from that ok(3) obtain j where "j < tq_writers q" "tq_writer_batches q ! j = Some b" by (auto simp: in_set_conv_nth)
    from own_okD(1,2) [OF ok(1) this] show ?thesis by blast
  qed
  let ?q1 = "q\<lparr>tq_mem := tq_mem q |` (- ?W)\<rparr>"
  have 1: "free_writers (tq_writer_batches q) q = Some ?q1"
  proof (rule free_writers_ok)
    show "\<exists>B. tq_mem q b = Some B \<and> b_next B = None" if "Some b \<in> set (tq_writer_batches q)" for b using W that by blast
    show "i = j" if "i < length (tq_writer_batches q)" "j < length (tq_writer_batches q)"
      "tq_writer_batches q ! i = Some b" "tq_writer_batches q ! j = Some b" for i j b
      by (rule own_okD(3) [OF ok(1)]) (use that ok(3) in simp_all)
  qed
  have bchain_res: "bchain (m |` S) p as \<longleftrightarrow> bchain m p as" if "set as \<subseteq> S" for m :: "nat \<rightharpoonup> 'a batch" and S p as
    using that by (induction as arbitrary: p) auto
  have sub: "set R \<subseteq> - ?W" "set P \<subseteq> - ?W" "set P \<subseteq> - set R" using W ok(6) by auto
  let ?q2 = "q\<lparr>tq_mem := tq_mem q |` (- ?W) |` (- set R)\<rparr>"
  have 2: "free_chain (tq_reader_head ?q1) ?q1 = Some ?q2"
    using free_chain_ok [of ?q1 "tq_reader_head q" R] bchain_res [OF sub(1)] ok(4,6) by simp
  have 3: "free_chain (tq_pending_head ?q2) ?q2 = Some (q\<lparr>tq_mem := tq_mem q |` (- ?W) |` (- set R) |` (- set P)\<rparr>)"
    using free_chain_ok [of ?q2 "tq_pending_head q" P] bchain_res [of P "- ?W \<inter> - set R" "tq_mem q"] sub(2,3) ok(5,6) by simp
  have "a \<in> ?W \<or> a \<in> set R \<or> a \<in> set P" if "tq_mem q a = Some B" for a B
    using mem_okD(3) [OF ok(2) that] ok(3) by (auto simp: in_set_conv_nth)
  then have "tq_mem q |` (- ?W) |` (- set R) |` (- set P) = Map.empty" by (auto simp: restrict_map_def intro!: ext) (metis not_Some_eq)
  then show ?thesis using 1 2 3 by (simp add: hlt_thread_queue_delete_def)
qed

section \<open>Schedules\<close>

text \<open>
  An event lets one thread go on for one step: a writer starts a call or continues the one in which it waits, the reader starts or
  continues a read. An event of a thread that cannot take the step does nothing. The elements carry the number of their writer; the
  queue never looks at them. \<open>c_sent\<close> holds the elements that each writer has handed to a write that did not ignore them,
  \<open>c_got\<close> what the reader has been given.
\<close>

datatype 'x wcall = CWrite 'x | CFlush | CUpdate | CTerminate

datatype 'x event = Call nat "'x wcall" | Go nat | Read int | GoRead

record 'x tq_conf =
  c_queue :: "(nat \<times> 'x) thread_queue"
  c_wstate :: "(nat \<times> 'x) wstate list"
  c_rstate :: rstate
  c_sent :: "'x list list"
  c_got :: "(nat \<times> 'x) list"

definition new_conf :: "nat \<Rightarrow> nat \<Rightarrow> nat \<Rightarrow> 'x tq_conf" where
  "new_conf n bs mx = \<lparr>c_queue = hlt_thread_queue_new n bs mx, c_wstate = replicate n Idle, c_rstate = RIdle, c_sent = replicate n [], c_got = []\<rparr>"

fun start_call :: "nat \<Rightarrow> 'x wcall \<Rightarrow> (nat \<times> 'x) thread_queue \<Rightarrow> ((nat \<times> 'x) wstate \<times> (nat \<times> 'x) thread_queue) option" where
  "start_call i (CWrite x) q = hlt_thread_queue_write i (i, x) q"
| "start_call i CFlush q = hlt_thread_queue_flush i q"
| "start_call i CUpdate q = hlt_thread_queue_writer_update i q"
| "start_call i CTerminate q = hlt_thread_queue_terminate_writer i q"

fun accepted :: "'x wcall \<Rightarrow> bool \<Rightarrow> 'x list" where
  "accepted (CWrite x) t = (if t then [] else [x])"
| "accepted c t = []"

fun tq_exec :: "'x event \<Rightarrow> 'x tq_conf \<Rightarrow> 'x tq_conf option" where
  "tq_exec (Call i k) c =
     (if i < tq_writers (c_queue c) \<and> c_wstate c ! i = Idle then do {
        (w, q) \<leftarrow> start_call i k (c_queue c);
        Some (c\<lparr>c_queue := q, c_wstate := (c_wstate c)[i := w],
          c_sent := (c_sent c)[i := c_sent c ! i @ accepted k (tq_writers_terminated (c_queue c) ! i)]\<rparr>)
      }
      else Some c)"
| "tq_exec (Go i) c =
     (if i < tq_writers (c_queue c) then do {
        (w, q) \<leftarrow> resume i (c_wstate c ! i) (c_queue c);
        Some (c\<lparr>c_queue := q, c_wstate := (c_wstate c)[i := w]\<rparr>)
      }
      else Some c)"
| "tq_exec (Read t) c =
     (if c_rstate c = RIdle then do { r \<leftarrow> hlt_thread_queue_read t; Some (c\<lparr>c_rstate := r\<rparr>) } else Some c)"
| "tq_exec GoRead c =
     (if c_rstate c = RIdle then Some c
      else do {
        (x, q) \<leftarrow> read_on (c_rstate c) (c_queue c);
        Some (case x of
          Waiting r \<Rightarrow> c\<lparr>c_queue := q, c_rstate := r\<rparr>
        | Got y \<Rightarrow> c\<lparr>c_queue := q, c_rstate := RIdle, c_got := c_got c @ (case y of None \<Rightarrow> [] | Some e \<Rightarrow> [e])\<rparr>)
      })"

primrec tq_run :: "'x event list \<Rightarrow> 'x tq_conf \<Rightarrow> 'x tq_conf option" where
  "tq_run [] c = Some c"
| "tq_run (e # es) c = do { c1 \<leftarrow> tq_exec e c; tq_run es c1 }"

subsection \<open>What becomes of the elements\<close>

definition from_writer :: "nat \<Rightarrow> (nat \<times> 'x) list \<Rightarrow> 'x list" where
  "from_writer i es = map snd (filter (\<lambda>e. fst e = i) es)"

definition passed :: "'x tq_conf \<Rightarrow> (nat \<times> 'x) aqueue \<Rightarrow> (nat \<times> 'x) list" where
  "passed c A = c_got c @ concat (a_reader A) @ concat (a_pending A)"

fun waiting :: "(nat \<times> 'x) wstate \<Rightarrow> 'x list" where
  "waiting (InWrite e) = [snd e]"
| "waiting w = []"

definition writer_ok :: "nat \<Rightarrow> nat \<Rightarrow> 'x list \<Rightarrow> 'x list \<Rightarrow> (nat \<times> 'x) list \<Rightarrow> (nat \<times> 'x) wstate \<Rightarrow> nat \<Rightarrow> bool \<Rightarrow> bool" where
  "writer_ok i sz sent thru own w k t \<longleftrightarrow> sent = thru @ map snd own @ waiting w \<and> (\<forall>e \<in> set own. fst e = i) \<and> (w \<noteq> Idle \<longrightarrow> own \<noteq> []) \<and>
     (\<forall>e. w = InWrite e \<longrightarrow> fst e = i \<and> \<not> t) \<and> length own \<le> sz \<and> k = (length thru + length own) mod 18446744073709551616"

definition writers_ok :: "'x tq_conf \<Rightarrow> (nat \<times> 'x) aqueue \<Rightarrow> bool" where
  "writers_ok c A \<longleftrightarrow> (\<forall>i < length (a_own A).
     writer_ok i (a_size A) (c_sent c ! i) (from_writer i (passed c A)) (a_own A ! i) (c_wstate c ! i) (a_written A ! i) (a_term A ! i))"

definition lens_ok :: "'x tq_conf \<Rightarrow> (nat \<times> 'x) aqueue \<Rightarrow> bool" where
  "lens_ok c A \<longleftrightarrow> length (c_wstate c) = length (a_own A) \<and> length (c_sent c) = length (a_own A) \<and> length (a_written A) = length (a_own A) \<and>
     length (a_term A) = length (a_own A) \<and> 0 < a_size A"

fun remaining :: "rstate \<Rightarrow> int" where
  "remaining RIdle = 0"
| "remaining (RTake t bl) = t"
| "remaining (RLock t bl) = t"
| "remaining (REmpty t bl) = t"

definition reader_ok :: "'x tq_conf \<Rightarrow> (nat \<times> 'x) aqueue \<Rightarrow> bool" where
  "reader_ok c A \<longleftrightarrow> a_read A = length (c_got c) mod 18446744073709551616 \<and> a_nterm A \<le> length (filter id (a_term A)) \<and>
     (\<forall>e \<in> set (passed c A). fst e < length (a_own A)) \<and> (a_max A \<noteq> 0 \<longrightarrow> length (a_pending A) \<le> a_max A) \<and>
     (\<forall>t bl. c_rstate c = RLock t bl \<longrightarrow> a_reader A = []) \<and> (\<forall>t bl. c_rstate c = REmpty t bl \<longrightarrow> a_reader A = []) \<and> remaining (c_rstate c) \<le> 2147483647 \<and>
     [] \<notin> set (a_pending A) \<and> (a_block A \<longrightarrow> 0 < a_max A \<and> a_max A \<le> length (a_pending A))"

definition sched_inv :: "'x tq_conf \<Rightarrow> (nat \<times> 'x) aqueue \<Rightarrow> bool" where
  "sched_inv c A \<longleftrightarrow> tq_abs (c_queue c) A \<and> lens_ok c A \<and> writers_ok c A \<and> reader_ok c A"

lemma abs_writers: "tq_abs q A \<Longrightarrow> tq_writers q = length (a_own A) \<and> tq_writers_terminated q = a_term A"
  by (auto simp: tq_abs_def)

lemma new_sched:
  assumes "0 < bs"
  shows "\<exists>A. sched_inv (new_conf n bs mx) A \<and> a_max A = mx \<and> length (a_own A) = n"
  using new_abs [OF assms, of n mx, where 'a = "nat \<times> 'x"] assms
  by (auto simp: sched_inv_def lens_ok_def writers_ok_def reader_ok_def writer_ok_def new_conf_def passed_def from_writer_def)

lemma writer_moves:
  fixes c :: "'x tq_conf"
  assumes inv: "sched_inv c A" and i: "i < length (a_own A)" and abs: "tq_abs q A'"
    and A': "A' = A\<lparr>a_own := (a_own A)[i := own], a_written := (a_written A)[i := k], a_term := (a_term A)[i := t],
      a_pending := a_pending A @ ps, a_block := bl\<rparr>"
    and ps: "\<forall>e \<in> set (concat ps). fst e = i" "[] \<notin> set ps" "a_max A \<noteq> 0 \<Longrightarrow> length (a_pending A @ ps) \<le> a_max A" and t: "a_term A ! i \<Longrightarrow> t"
    and w: "writer_ok i (a_size A) sent (from_writer i (passed c A) @ map snd (concat ps)) own w k t"
    and blk: "bl \<Longrightarrow> 0 < a_max A \<and> a_max A \<le> length (a_pending A @ ps)"
  shows "sched_inv (c\<lparr>c_queue := q, c_wstate := (c_wstate c)[i := w], c_sent := (c_sent c)[i := sent]\<rparr>) A'" (is "sched_inv ?c A'")
proof -
  have l: "lens_ok c A" and ws: "writers_ok c A" and r: "reader_ok c A" using inv by (simp_all add: sched_inv_def)
  have pass: "passed ?c A' = passed c A @ concat ps" by (simp add: passed_def A')
  have frm: "from_writer j (passed ?c A') = from_writer j (passed c A) @ (if j = i then map snd (concat ps) else [])" for j
  proof -
    have "filter (\<lambda>e. fst e = j) (concat ps) = (if j = i then concat ps else [])" using ps(1) by (auto simp: filter_empty_conv filter_id_conv)
    then show ?thesis unfolding pass by (simp add: from_writer_def)
  qed
  have "lens_ok ?c A'" using l by (simp add: lens_ok_def A')
  moreover have "writers_ok ?c A'" unfolding writers_ok_def
  proof (intro allI impI)
    fix j assume "j < length (a_own A')"
    then have j: "j < length (a_own A)" by (simp add: A')
    show "writer_ok j (a_size A') (c_sent ?c ! j) (from_writer j (passed ?c A')) (a_own A' ! j) (c_wstate ?c ! j) (a_written A' ! j) (a_term A' ! j)"
      unfolding frm using w ws j i l by (cases "j = i") (simp_all add: A' writers_ok_def lens_ok_def)
  qed
  moreover have "length (filter id (a_term A)) \<le> length (filter id (a_term A'))"
  proof -
    have "{j. j < length (a_term A) \<and> a_term A ! j} \<subseteq> {j. j < length (a_term A') \<and> a_term A' ! j}"
      using t l i by (auto simp: A' nth_list_update lens_ok_def)
    then show ?thesis unfolding length_filter_conv_card by (intro card_mono) auto
  qed
  then have "reader_ok ?c A'" using r ps i blk unfolding reader_ok_def pass by (auto simp: A')
  ultimately show ?thesis using abs by (simp add: sched_inv_def)
qed

text \<open>A step that ends with the loop of a write.\<close>

lemma loop_ok:
  assumes "writer_ok i sz sent thru (a_own A ! i) Idle (a_written A ! i) False" "fst e = i" "sz = a_size A" "0 < sz"
    "i < length (a_own A)" "length (a_written A) = length (a_own A)"
  shows "\<exists>own k. snd (a_write_loop i e A) = A\<lparr>a_own := (a_own A)[i := own], a_written := (a_written A)[i := k]\<rparr> \<and>
    writer_ok i sz (sent @ [snd e]) thru own (fst (a_write_loop i e A)) k False"
proof (cases "length (a_own A ! i) < a_size A")
  case True
  then show ?thesis using assms
    by (intro exI [of _ "a_own A ! i @ [e]"] exI [of _ "add64 (a_written A ! i) 1"])
      (auto simp: a_write_loop_def writer_ok_def add64_def mod_Suc_eq)
next
  case False
  then have "a_write_loop i e A = (InWrite e, A)" by (simp add: a_write_loop_def)
  moreover have "writer_ok i sz (sent @ [snd e]) thru (a_own A ! i) (InWrite e) (a_written A ! i) False"
    using False assms(1-4) by (auto simp: writer_ok_def)
  ultimately show ?thesis by (intro exI [of _ "a_own A ! i"] exI [of _ "a_written A ! i"]) simp
qed

lemma writer_state:
  assumes "sched_inv c A" "i < length (a_own A)"
  shows "tq_abs (c_queue c) A" "writer_ok i (a_size A) (c_sent c ! i) (from_writer i (passed c A)) (a_own A ! i) (c_wstate c ! i) (a_written A ! i) (a_term A ! i)"
    "length (c_wstate c) = length (a_own A)" "length (c_sent c) = length (a_own A)" "length (a_written A) = length (a_own A)"
    "length (a_term A) = length (a_own A)" "0 < a_size A" "a_max A \<noteq> 0 \<Longrightarrow> length (a_pending A) \<le> a_max A"
    "a_block A \<Longrightarrow> 0 < a_max A \<and> a_max A \<le> length (a_pending A)"
  using assms by (auto simp: sched_inv_def lens_ok_def writers_ok_def reader_ok_def)

lemma flush_writer_ok:
  "writer_ok i sz sent thru (a_own A ! i) Idle k t \<Longrightarrow> writer_ok i sz sent thru (a_own A ! i) (a_flush i A) k t'"
  by (auto simp: writer_ok_def a_flush_def)

lemma term_id: "(a_term A)[i := t] = a_term A \<Longrightarrow> A\<lparr>a_term := (a_term A)[i := t]\<rparr> = A"
  by simp

lemma call_ok:
  assumes inv: "sched_inv c A" and i: "i < length (a_own A)" and idle: "c_wstate c ! i = Idle"
  shows "\<exists>c' A'. tq_exec (Call i k) c = Some c' \<and> sched_inv c' A' \<and> a_max A' = a_max A \<and> length (a_own A') = length (a_own A)"
proof -
  note s = writer_state [OF inv i]
  note aw = abs_writers [OF s(1)]
  note ok = s(2) [unfolded idle]
  note st = writer_moves [OF inv i, where bl = "a_block A" and ps = "[]", simplified]
  have flushed: ?thesis if q: "start_call i k (c_queue c) = Some (w, q)" and acc: "accepted k (a_term A ! i) = []"
    and abs: "tq_abs q (A\<lparr>a_term := (a_term A)[i := t]\<rparr>)" and w: "w = a_flush i A \<or> w = Idle" and t: "a_term A ! i \<Longrightarrow> t" for w q t
  proof -
    have "writer_ok i (a_size A) (c_sent c ! i) (from_writer i (passed c A)) (a_own A ! i) w (a_written A ! i) t"
      using w flush_writer_ok [OF ok] ok by (auto simp: writer_ok_def)
    from st [OF abs _ s(8) t this s(9)] s show ?thesis using q acc i idle aw by (auto simp: list_update_id)
  qed
  show ?thesis
  proof (cases k)
    case (CWrite x)
    from abs_write [OF s(1) i, of "(i, x)"] obtain q where
      q: "hlt_thread_queue_write i (i, x) (c_queue c) = Some (fst (a_write i (i, x) A), q)" "tq_abs q (snd (a_write i (i, x) A))" by blast
    show ?thesis
    proof (cases "a_term A ! i")
      case True
      then have "A\<lparr>a_term := (a_term A)[i := True]\<rparr> = A" by (metis (full_types) list_update_id term_id)
      with True show ?thesis by (intro flushed [of Idle q True]) (use CWrite q in \<open>auto simp: a_write_def\<close>)
    next
      case False
      from ok False have ok': "writer_ok i (a_size A) (c_sent c ! i) (from_writer i (passed c A)) (a_own A ! i) Idle (a_written A ! i) False" by simp
      from loop_ok [OF ok', of "(i, x)"] s i obtain own m where
        l: "snd (a_write_loop i (i, x) A) = A\<lparr>a_own := (a_own A)[i := own], a_written := (a_written A)[i := m]\<rparr>"
        "writer_ok i (a_size A) (c_sent c ! i @ [x]) (from_writer i (passed c A)) own (fst (a_write_loop i (i, x) A)) m False" by auto
      have "(a_term A)[i := False] = a_term A" using False by (metis (full_types) list_update_id)
      then have eq: "snd (a_write i (i, x) A) = A\<lparr>a_own := (a_own A)[i := own], a_written := (a_written A)[i := m], a_term := (a_term A)[i := False],
        a_pending := a_pending A @ [], a_block := a_block A\<rparr>" using False l(1) by (simp add: a_write_def)
      have "sched_inv (c\<lparr>c_queue := q, c_wstate := (c_wstate c)[i := fst (a_write_loop i (i, x) A)], c_sent := (c_sent c)[i := c_sent c ! i @ [x]]\<rparr>)
        (snd (a_write i (i, x) A))"
        by (rule writer_moves [OF inv i q(2) eq]) (use l(2) False s(8,9) in auto)
      then show ?thesis using CWrite q(1) False i idle aw l(1) by (auto simp: a_write_def)
    qed
  next
    case CFlush
    show ?thesis by (rule flushed [of "a_flush i A" "c_queue c" "a_term A ! i"]) (use CFlush abs_flush [OF s(1) i] s(1) in auto)
  next
    case CUpdate
    show ?thesis by (rule flushed [of "if a_need A then a_flush i A else Idle" "c_queue c" "a_term A ! i"])
      (use CUpdate abs_update [OF s(1) i] s(1) in auto)
  next
    case CTerminate
    from abs_terminate [OF s(1) i] obtain q where "hlt_thread_queue_terminate_writer i (c_queue c) = Some (a_flush i A, q)"
      "tq_abs q (A\<lparr>a_term := (a_term A)[i := True]\<rparr>)" by blast
    then show ?thesis using flushed [of "a_flush i A" q True] CTerminate by simp
  qed
qed

lemma go_ok:
  assumes inv: "sched_inv c A" and i: "i < length (a_own A)"
  shows "\<exists>c' A'. tq_exec (Go i) c = Some c' \<and> sched_inv c' A' \<and> a_max A' = a_max A \<and> length (a_own A') = length (a_own A)"
proof -
  note s = writer_state [OF inv i]
  note aw = abs_writers [OF s(1)]
  let ?w = "c_wstate c ! i" and ?A' = "snd (a_resume i (c_wstate c ! i) A)" and ?w' = "fst (a_resume i (c_wstate c ! i) A)"
  from s(2) have own: "?w \<noteq> Idle \<Longrightarrow> a_own A ! i \<noteq> []" by (simp add: writer_ok_def)
  from abs_resume [OF s(1) i own] obtain q where q: "resume i ?w (c_queue c) = Some (?w', q)" "tq_abs q ?A'" by blast
  have "\<exists>own k ps bl. ?A' = A\<lparr>a_own := (a_own A)[i := own], a_written := (a_written A)[i := k], a_term := (a_term A)[i := a_term A ! i],
      a_pending := a_pending A @ ps, a_block := bl\<rparr> \<and> (\<forall>e \<in> set (concat ps). fst e = i) \<and> [] \<notin> set ps \<and>
      (a_max A \<noteq> 0 \<longrightarrow> length (a_pending A @ ps) \<le> a_max A) \<and> (bl \<longrightarrow> 0 < a_max A \<and> a_max A \<le> length (a_pending A @ ps)) \<and>
      writer_ok i (a_size A) (c_sent c ! i) (from_writer i (passed c A) @ map snd (concat ps)) own ?w' k (a_term A ! i)"
  proof (cases "?w = Idle \<or> fst (a_round i A)")
    case True
    then have "?A' = A\<lparr>a_block := a_block ?A'\<rparr>" "?w' = ?w" by (cases ?w; auto simp: a_round_def)+
    moreover have "a_block ?A' \<Longrightarrow> 0 < a_max A \<and> a_max A \<le> length (a_pending A)"
      using True s(9) by (cases ?w) (auto simp: a_round_def split: if_splits)
    ultimately show ?thesis using s(2,8) by (intro exI [of _ "a_own A ! i"] exI [of _ "a_written A ! i"] exI [of _ "[]"] exI [of _ "a_block ?A'"]) simp
  next
    case False
    then have r: "snd (a_round i A) = A\<lparr>a_pending := a_pending A @ [a_own A ! i], a_own := (a_own A)[i := []]\<rparr>" (is "_ = ?A1")
      and pend: "a_max A \<noteq> 0 \<longrightarrow> length (a_pending A @ [a_own A ! i]) \<le> a_max A" and nb: "\<not> a_block A" by (auto simp: a_round_def split: if_splits)
    let ?thru = "from_writer i (passed c A) @ map snd (a_own A ! i)"
    from s(2) have all: "\<forall>e \<in> set (a_own A ! i). fst e = i" and k: "a_written A ! i = length ?thru mod 18446744073709551616"
      by (auto simp: writer_ok_def)
    show ?thesis
    proof (cases ?w)
      case (InWrite e)
      with s(2) have e: "fst e = i" "\<not> a_term A ! i" "c_sent c ! i = ?thru @ [snd e]" by (auto simp: writer_ok_def)
      have "writer_ok i (a_size A) ?thru ?thru (a_own ?A1 ! i) Idle (a_written ?A1 ! i) False" using i k by (simp add: writer_ok_def)
      from loop_ok [OF this e(1)] s(5,7) i obtain own m where
        "snd (a_write_loop i e ?A1) = ?A1\<lparr>a_own := (a_own ?A1)[i := own], a_written := (a_written ?A1)[i := m]\<rparr>"
        "writer_ok i (a_size A) (?thru @ [snd e]) ?thru own (fst (a_write_loop i e ?A1)) m False" by auto
      moreover have "(a_term A)[i := False] = a_term A" using e(2) by (metis (full_types) list_update_id)
      ultimately show ?thesis using InWrite False r e pend nb all own
        by (intro exI [of _ own] exI [of _ m] exI [of _ "[a_own A ! i]"] exI [of _ "a_block A"]) simp
    next
      case InFlush
      then have "writer_ok i (a_size A) (c_sent c ! i) ?thru [] Idle (a_written A ! i) (a_term A ! i)" using s(2) by (simp add: writer_ok_def)
      then show ?thesis using InFlush False r pend nb all own
        by (intro exI [of _ "[]"] exI [of _ "a_written A ! i"] exI [of _ "[a_own A ! i]"] exI [of _ "a_block A"]) simp
    qed (use False in simp)
  qed
  then obtain own k ps bl where A': "?A' = A\<lparr>a_own := (a_own A)[i := own], a_written := (a_written A)[i := k], a_term := (a_term A)[i := a_term A ! i],
      a_pending := a_pending A @ ps, a_block := bl\<rparr>" and ps: "\<forall>e \<in> set (concat ps). fst e = i" "[] \<notin> set ps" "a_max A \<noteq> 0 \<longrightarrow> length (a_pending A @ ps) \<le> a_max A"
    and bl: "bl \<longrightarrow> 0 < a_max A \<and> a_max A \<le> length (a_pending A @ ps)"
    and w: "writer_ok i (a_size A) (c_sent c ! i) (from_writer i (passed c A) @ map snd (concat ps)) own ?w' k (a_term A ! i)" by blast
  have "sched_inv (c\<lparr>c_queue := q, c_wstate := (c_wstate c)[i := ?w'], c_sent := (c_sent c)[i := c_sent c ! i]\<rparr>) ?A'"
    by (rule writer_moves [OF inv i q(2) A' ps(1,2) _ _ w]) (use ps(3) bl in auto)
  moreover have "a_max ?A' = a_max A" "length (a_own ?A') = length (a_own A)" unfolding A' by simp_all
  ultimately show ?thesis using q(1) aw i by (intro exI [of _ ?A'] exI) auto
qed

lemma first_elem_concat: "concat bs = (case fst (first_elem bs) of None \<Rightarrow> [] | Some e \<Rightarrow> [e]) @ concat (snd (first_elem bs))"
  by (induction bs rule: first_elem.induct) auto

lemma first_elem_None: "fst (first_elem bs) = None \<Longrightarrow> snd (first_elem bs) = []"
  by (induction bs rule: first_elem.induct) auto

text \<open>A step of the reader leaves what passed through the queue as it is.\<close>

lemma reader_step:
  assumes inv: "sched_inv c A" and abs: "tq_abs q A'" and pass: "passed (c\<lparr>c_queue := q, c_rstate := r, c_got := got\<rparr>) A' = passed c A"
    and A': "a_size A' = a_size A" "a_max A' = a_max A" "a_own A' = a_own A" "a_written A' = a_written A" "a_term A' = a_term A"
    and pend: "a_pending A' = a_pending A \<and> a_block A' = a_block A \<or> a_pending A' = [] \<and> \<not> a_block A'" and got: "a_read A' = length got mod 18446744073709551616"
    and nterm: "a_nterm A' = a_nterm A \<or> a_nterm A' = length (filter id (a_term A))"
    and r: "\<And>t bl. r = RLock t bl \<or> r = REmpty t bl \<Longrightarrow> a_reader A' = []" and rem: "remaining r \<le> 2147483647"
  shows "sched_inv (c\<lparr>c_queue := q, c_rstate := r, c_got := got\<rparr>) A'"
proof -
  have blk: "a_block A' \<longrightarrow> 0 < a_max A' \<and> a_max A' \<le> length (a_pending A')"
    using pend inv A'(2) by (auto simp: sched_inv_def reader_ok_def)
  from pend have "a_pending A' = a_pending A \<or> a_pending A' = []" by blast
  then have "a_max A' \<noteq> 0 \<longrightarrow> length (a_pending A') \<le> a_max A'" "[] \<notin> set (a_pending A')"
    using inv A'(2) by (auto simp: sched_inv_def reader_ok_def)
  moreover have "a_nterm A' \<le> length (filter id (a_term A'))" using nterm inv A'(5) by (auto simp: sched_inv_def reader_ok_def)
  moreover have "\<forall>e \<in> set (passed c A). fst e < length (a_own A)" using inv by (simp add: sched_inv_def reader_ok_def)
  ultimately have "reader_ok (c\<lparr>c_queue := q, c_rstate := r, c_got := got\<rparr>) A'"
    unfolding reader_ok_def pass A'(3) using got r rem blk by simp
  moreover have "lens_ok (c\<lparr>c_queue := q, c_rstate := r, c_got := got\<rparr>) A'" "writers_ok (c\<lparr>c_queue := q, c_rstate := r, c_got := got\<rparr>) A'"
    using inv by (simp_all add: sched_inv_def lens_ok_def writers_ok_def pass A')
  ultimately show ?thesis using abs by (simp add: sched_inv_def)
qed

lemma read_state:
  assumes "sched_inv c A"
  shows "tq_abs (c_queue c) A" "a_read A = length (c_got c) mod 18446744073709551616" "\<And>t bl. c_rstate c = RLock t bl \<Longrightarrow> a_reader A = []"
    "\<And>t bl. c_rstate c = REmpty t bl \<Longrightarrow> a_reader A = []" "remaining (c_rstate c) \<le> 2147483647"
  using assms by (auto simp: sched_inv_def reader_ok_def)

lemma take_fields:
  "a_size (snd (a_take A)) = a_size A" "a_max (snd (a_take A)) = a_max A" "a_own (snd (a_take A)) = a_own A" "a_written (snd (a_take A)) = a_written A"
  "a_term (snd (a_take A)) = a_term A" "a_pending (snd (a_take A)) = a_pending A" "a_block (snd (a_take A)) = a_block A" "a_nterm (snd (a_take A)) = a_nterm A"
  "fst (a_take A) = fst (first_elem (a_reader A))" "a_reader (snd (a_take A)) = snd (first_elem (a_reader A))"
  "a_read (snd (a_take A)) = (if fst (first_elem (a_reader A)) = None then a_read A else add64 (a_read A) 1)"
  by (simp_all add: a_take_def split: prod.splits)

lemma read_on_ok:
  assumes inv: "sched_inv c A" and rd: "a_read_on (c_rstate c) A = Some (x, A')"
  shows "\<exists>c'. tq_exec GoRead c = Some c' \<and> sched_inv c' A' \<and> a_max A' = a_max A \<and> length (a_own A') = length (a_own A)"
proof -
  note s = read_state [OF inv]
  from abs_read_on [OF s(1), of "c_rstate c"] s(3) rd obtain q where q: "read_on (c_rstate c) (c_queue c) = Some (x, q)" "tq_abs q A'" by auto
  define r where "r = (case x of Waiting r \<Rightarrow> r | Got y \<Rightarrow> RIdle)"
  define got where "got = c_got c @ (case x of Waiting r \<Rightarrow> [] | Got y \<Rightarrow> (case y of None \<Rightarrow> [] | Some e \<Rightarrow> [e]))"
  let ?c = "c\<lparr>c_queue := q, c_rstate := r, c_got := got\<rparr>"
  have "c_rstate c \<noteq> RIdle" using rd by auto
  then have ex: "tq_exec GoRead c = Some ?c" using q(1) by (cases x) (simp_all add: r_def got_def)
  have "sched_inv ?c A'"
  proof (cases "c_rstate c")
    case (RTake t bl)
    with rd have A': "A' = snd (a_take A)" and x: "x = (case fst (a_take A) of Some e \<Rightarrow> Got (Some e) | None \<Rightarrow> Waiting (RLock t bl))" by auto
    have "passed ?c A' = passed c A" using first_elem_concat [of "a_reader A"] x
      by (auto simp: passed_def A' take_fields got_def split: option.splits)
    then show ?thesis
      by (rule reader_step [OF inv q(2)])
        (use x s(2,5) RTake first_elem_None [of "a_reader A"] in \<open>auto simp: A' take_fields got_def r_def add64_def mod_Suc_eq split: option.splits\<close>)
  next
    case (RLock t bl)
    with rd have A': "A' = a_grab A" and x: "x = Waiting (if a_pending A = [] then REmpty t bl else RTake t bl)" by auto
    have "passed ?c A' = passed c A" using s(3) [OF RLock] x by (simp add: passed_def A' got_def a_grab_def)
    then show ?thesis
      by (rule reader_step [OF inv q(2)]) (use x s(2,5) RLock in \<open>auto simp: A' a_grab_def got_def r_def split: if_splits\<close>)
  next
    case (REmpty t bl)
    then have A': "A' = A\<lparr>a_need := True\<rparr>" and x: "x = Got None \<or> (\<exists>t'. x = Waiting (RTake t' bl) \<and> t' \<le> 2147483647)" using rd
      by (auto simp: as_int32_def split: if_splits bind_splits)
    have "passed ?c A' = passed c A" using x by (auto simp: passed_def A' got_def)
    then show ?thesis
      by (rule reader_step [OF inv q(2)]) (use x s(2) in \<open>auto simp: A' got_def r_def\<close>)
  qed (use rd in simp)
  moreover have "a_max A' = a_max A \<and> a_own A' = a_own A" using rd
    by (cases "c_rstate c") (auto simp: take_fields a_grab_def split: if_splits bind_splits)
  ultimately show ?thesis using ex by auto
qed

text \<open>The reader's number of nanoseconds overflows.\<close>

fun timeout_overflow :: "'x event \<Rightarrow> 'x tq_conf \<Rightarrow> bool" where
  "timeout_overflow (Read t) c \<longleftrightarrow> c_rstate c = RIdle \<and> \<not> (- 2147483 \<le> t \<and> t \<le> 2147483)"
| "timeout_overflow GoRead c \<longleftrightarrow> (case c_rstate c of
     REmpty t bl \<Rightarrow> t < - 2147482648 \<and> bl \<and> \<not> hlt_thread_queue_terminated (c_queue c) | _ \<Rightarrow> False)"
| "timeout_overflow e c \<longleftrightarrow> False"

lemma read_call_ok:
  assumes inv: "sched_inv c A" and r: "hlt_thread_queue_read t = Some r"
  shows "sched_inv (c\<lparr>c_rstate := r\<rparr>) A"
  using assms by (auto simp: sched_inv_def lens_ok_def writers_ok_def reader_ok_def passed_def hlt_thread_queue_read_def as_int32_def split: if_splits)

lemma exec_ok:
  assumes inv: "sched_inv c A"
  shows "if timeout_overflow e c then tq_exec e c = None
    else \<exists>c' A'. tq_exec e c = Some c' \<and> sched_inv c' A' \<and> a_max A' = a_max A \<and> length (a_own A') = length (a_own A)"
proof -
  have abs: "tq_abs (c_queue c) A" using inv by (simp add: sched_inv_def)
  note aw = abs_writers [OF abs]
  have stay: "\<exists>c' A'. Some c = Some c' \<and> sched_inv c' A' \<and> a_max A' = a_max A \<and> length (a_own A') = length (a_own A)" using inv by blast
  show ?thesis
  proof (cases e)
    case (Call i k)
    then show ?thesis using call_ok [OF inv, of i k] stay aw by (cases "i < length (a_own A) \<and> c_wstate c ! i = Idle") auto
  next
    case (Go i)
    then show ?thesis using go_ok [OF inv, of i] stay aw by (cases "i < length (a_own A)") auto
  next
    case (Read t)
    show ?thesis
    proof (cases "c_rstate c = RIdle")
      case True
      then show ?thesis using Read read_call_ok [OF inv, of t] by (auto simp: hlt_thread_queue_read_def as_int32_def)
    qed (use Read stay in simp)
  next
    case GoRead
    show ?thesis
    proof (cases "c_rstate c = RIdle")
      case False
      have "a_read_on (c_rstate c) A = None \<longleftrightarrow> timeout_overflow e c"
        using False GoRead abs_queries(4) [OF abs] read_state(5) [OF inv] by (cases "c_rstate c") (auto simp: as_int32_def)
      moreover have "tq_exec e c = None" if "a_read_on (c_rstate c) A = None"
        using abs_read_on [OF abs, of "c_rstate c"] read_state(3) [OF inv] that GoRead False by auto
      moreover have ?thesis if "a_read_on (c_rstate c) A = Some (x, A')" for x A'
        using read_on_ok [OF inv that] that calculation(1) GoRead by auto
      ultimately show ?thesis by (cases "a_read_on (c_rstate c) A") auto
    qed (use GoRead stay in simp)
  qed
qed

lemma run_ok:
  assumes "sched_inv c A" "tq_run es c = Some c'"
  shows "\<exists>A'. sched_inv c' A' \<and> a_max A' = a_max A \<and> length (a_own A') = length (a_own A)"
  using assms
proof (induction es arbitrary: c A)
  case (Cons e es)
  from exec_ok [OF Cons.prems(1), of e] Cons.prems(2) obtain c1 A1 where
    "tq_exec e c = Some c1" "sched_inv c1 A1" "a_max A1 = a_max A" "length (a_own A1) = length (a_own A)" by (auto split: if_splits)
  with Cons.IH [of c1 A1] Cons.prems(2) show ?case by simp
qed auto

lemma reached:
  assumes "0 < bs" "tq_run es (new_conf n bs mx) = Some c"
  shows "\<exists>A. sched_inv c A \<and> a_max A = mx \<and> length (a_own A) = n"
  using new_sched [OF assms(1), of n mx] run_ok [OF _ assms(2)] by fastforce

subsection \<open>Counting\<close>

lemma foldl_add64: "foldl add64 (a mod 18446744073709551616) ns = (a + sum_list ns) mod 18446744073709551616"
proof (induction ns arbitrary: a)
  case (Cons k ns)
  have "add64 (a mod 18446744073709551616) k = (a + k) mod 18446744073709551616" by (simp add: add64_def mod_add_left_eq)
  with Cons.IH [of "a + k"] show ?case by (simp add: add.assoc)
qed simp

lemma sum_from_writer:
  "(\<forall>e \<in> set es. fst e < n) \<Longrightarrow> (\<Sum>i<n. length (from_writer i es)) = length es"
proof (induction es)
  case (Cons e es)
  have "length (from_writer i (e # es)) = length (from_writer i es) + (if fst e = i then 1 else 0)" for i by (simp add: from_writer_def)
  with Cons show ?case by (simp add: sum.distrib)
qed (simp add: from_writer_def)

lemma sum_mod_list: "(\<And>i. i < length ns \<Longrightarrow> ns ! i = f i mod m) \<Longrightarrow> sum_list ns mod m = (\<Sum>i<length ns. f i) mod (m :: nat)"
proof -
  assume a: "\<And>i. i < length ns \<Longrightarrow> ns ! i = f i mod m"
  have "sum_list ns = (\<Sum>i<length ns. f i mod m)" using a by (simp add: sum_list_sum_nth atLeast0LessThan)
  then show ?thesis by (simp add: mod_sum_eq)
qed

lemma sub64_mod:
  assumes "b \<le> a"
  shows "sub64 (a mod 18446744073709551616) (b mod 18446744073709551616) = (a - b) mod 18446744073709551616"
proof -
  let ?M = "18446744073709551616 :: nat"
  obtain d where a: "a = b + d" using assms le_Suc_ex by blast
  have b: "b mod ?M < ?M" by simp
  then have le: "b mod ?M \<le> ?M" by linarith
  have "b mod ?M + d + (?M - b mod ?M) = d + ?M" using le by linarith
  moreover have "((b + d) mod M + x) mod M = (b mod M + d + x) mod M" for M x :: nat by (simp add: mod_simps add.assoc)
  ultimately have "((b + d) mod ?M + (?M - b mod ?M)) mod ?M = (d + ?M) mod ?M" by metis
  then show ?thesis unfolding sub64_def a by simp
qed

text \<open>The size is the number of elements that are in the queue and not yet read.\<close>

lemma size_counts:
  assumes inv: "sched_inv c A"
  shows "a_total A = (length (concat (a_reader A)) + length (concat (a_pending A)) + (\<Sum>i<length (a_own A). length (a_own A ! i))) mod 18446744073709551616"
proof -
  let ?n = "length (a_own A)" and ?p = "passed c A" and ?M = "18446744073709551616 :: nat"
  have "length (a_written A) = ?n" using inv by (simp add: sched_inv_def lens_ok_def)
  then have "sum_list (a_written A) mod ?M = (\<Sum>i<?n. length (from_writer i ?p) + length (a_own A ! i)) mod ?M"
    using sum_mod_list [of "a_written A" "\<lambda>i. length (from_writer i ?p) + length (a_own A ! i)" ?M] inv
    by (simp add: sched_inv_def writers_ok_def writer_ok_def)
  also have "(\<Sum>i<?n. length (from_writer i ?p) + length (a_own A ! i)) = length ?p + (\<Sum>i<?n. length (a_own A ! i))"
    using sum_from_writer [of ?p ?n] inv by (simp add: sum.distrib sched_inv_def reader_ok_def)
  finally have w: "foldl add64 0 (a_written A) = (length ?p + (\<Sum>i<?n. length (a_own A ! i))) mod ?M" using foldl_add64 [of 0 "a_written A"] by simp
  have "a_read A = length (c_got c) mod ?M" using inv by (simp add: sched_inv_def reader_ok_def)
  then show ?thesis unfolding a_total_def w using sub64_mod [of "length (c_got c)" "length ?p + (\<Sum>i<?n. length (a_own A ! i))"]
    by (simp add: passed_def add.assoc)
qed

lemma all_terminated:
  assumes inv: "sched_inv c A" and n: "a_nterm A = length (a_own A)" and i: "i < length (a_own A)"
  shows "a_term A ! i"
proof -
  have l: "length (a_term A) = length (a_own A)" "a_nterm A \<le> length (filter id (a_term A))" using inv by (simp_all add: sched_inv_def lens_ok_def reader_ok_def)
  then have "length (filter id (a_term A)) = length (a_term A)" using n length_filter_le [of id "a_term A"] by simp
  then have "\<forall>x \<in> set (a_term A). x" using filter_id_conv [of id "a_term A"] by (metis (mono_tags, lifting) id_apply length_filter_less linorder_neq_iff)
  then show ?thesis using i l nth_mem by metis
qed

subsection \<open>Reading\<close>

lemma go_read:
  assumes "sched_inv c A" "a_read_on (c_rstate c) A = Some (x, A')"
  shows "\<exists>c'. tq_exec GoRead c = Some c' \<and> sched_inv c' A' \<and> c_rstate c' = (case x of Waiting r \<Rightarrow> r | Got y \<Rightarrow> RIdle) \<and>
    c_got c' = c_got c @ (case x of Got (Some e) \<Rightarrow> [e] | _ \<Rightarrow> [])"
proof -
  from read_on_ok [OF assms] obtain c' where c': "tq_exec GoRead c = Some c'" "sched_inv c' A'" by blast
  have r: "c_rstate c \<noteq> RIdle" using assms(2) by auto
  from abs_read_on [OF read_state(1) [OF assms(1)], of "c_rstate c"] read_state(3) [OF assms(1)] assms(2) obtain q where
    "read_on (c_rstate c) (c_queue c) = Some (x, q)" by auto
  then show ?thesis using c' r by (auto split: read_res.splits option.splits)
qed

lemma take_some:
  assumes "concat (a_reader A) \<noteq> []"
  shows "\<exists>e A'. a_read_on (RTake t bl) A = Some (Got (Some e), A')"
proof -
  have "fst (first_elem (a_reader A)) \<noteq> None" using first_elem_concat [of "a_reader A"] first_elem_None [of "a_reader A"] assms
    by (metis append_Nil concat.simps(1) option.simps(4))
  then show ?thesis by (auto simp: take_fields)
qed

lemma take_next:
  assumes inv: "sched_inv c A" and r: "c_rstate c = RTake t bl" and el: "concat (a_reader A) \<noteq> []"
  shows "\<exists>c' e. tq_exec GoRead c = Some c' \<and> c_rstate c' = RIdle \<and> c_got c' = c_got c @ [e]"
proof -
  from take_some [OF el] r obtain e A' where "a_read_on (c_rstate c) A = Some (Got (Some e), A')" by metis
  from go_read [OF inv this] show ?thesis by auto
qed

lemma read_pending:
  assumes inv: "sched_inv c A" and r: "c_rstate c = RTake t bl" and p: "a_pending A \<noteq> []"
  shows "\<exists>k c' e. k \<le> 3 \<and> tq_run (replicate k GoRead) c = Some c' \<and> c_rstate c' = RIdle \<and> c_got c' = c_got c @ [e]"
proof (cases "concat (a_reader A) = []")
  case False
  from take_next [OF inv r this] obtain c' e where "tq_exec GoRead c = Some c'" "c_rstate c' = RIdle" "c_got c' = c_got c @ [e]" by blast
  then show ?thesis by (intro exI [of _ 1] exI [of _ c'] exI [of _ e]) simp
next
  case True
  then have none: "fst (first_elem (a_reader A)) = None" using first_elem_concat [of "a_reader A"] by (auto split: option.splits)
  define A1 where "A1 = snd (a_take A)"
  have "a_read_on (c_rstate c) A = Some (Waiting (RLock t bl), A1)" using r none by (simp add: take_fields A1_def)
  from go_read [OF inv this] obtain c1 where c1: "tq_exec GoRead c = Some c1" "sched_inv c1 A1" "c_rstate c1 = RLock t bl" "c_got c1 = c_got c" by auto
  have p1: "a_pending A1 = a_pending A" by (simp add: A1_def take_fields)
  then have "a_read_on (c_rstate c1) A1 = Some (Waiting (RTake t bl), a_grab A1)" using c1(3) p by simp
  from go_read [OF c1(2) this] obtain c2 where c2: "tq_exec GoRead c1 = Some c2" "sched_inv c2 (a_grab A1)" "c_rstate c2 = RTake t bl" "c_got c2 = c_got c"
    using c1(4) by auto
  have "[] \<notin> set (a_pending A)" using inv by (simp add: sched_inv_def reader_ok_def)
  then have "concat (a_reader (a_grab A1)) \<noteq> []" using p p1 by (cases "a_pending A") (auto simp: a_grab_def)
  from take_next [OF c2(2,3) this] obtain c' e where "tq_exec GoRead c2 = Some c'" "c_rstate c' = RIdle" "c_got c' = c_got c @ [e]" using c2(4) by auto
  then show ?thesis using c1(1) c2(1) by (intro exI [of _ 3] exI [of _ c'] exI [of _ e]) (simp add: numeral_3_eq_3)
qed

section \<open>Properties\<close>

text \<open>A schedule of two writers, batches of two elements and at most one pending batch, in which a writer blocks.\<close>

definition demo_schedule :: "nat event list" where
  "demo_schedule = [Call 0 (CWrite 10), Call 0 (CWrite 11), Call 1 (CWrite 20), Call 0 (CWrite 12), Go 0, Call 1 CFlush, Go 1,
     Read 0, GoRead, GoRead, GoRead, Read 0, GoRead, Go 1, Call 0 CTerminate, Go 0, Call 1 CTerminate]"

definition drain_schedule :: "nat event list" where
  "drain_schedule = [Read 0, GoRead, GoRead, GoRead, Go 0, Read 0, GoRead, GoRead, GoRead, Read 0, GoRead, GoRead, GoRead]"

text \<open>
  C8: Whatever the threads' interleaving, what the reader has been given of a writer's elements is a prefix of what the writer has written:
  the elements of one writer arrive in order, and none is lost in between, duplicated or made up. With a limit on the pending batches, there are never more.
\<close>

theorem thread_queue_in_order:
  assumes "0 < bs" "tq_run es (new_conf n bs mx) = Some c"
  shows "(\<forall>i < n. \<exists>rest. c_sent c ! i = from_writer i (c_got c) @ rest) \<and> (\<forall>e \<in> set (c_got c). fst e < n) \<and>
    (mx \<noteq> 0 \<longrightarrow> hlt_thread_queue_pending (c_queue c) \<le> mx)"
proof -
  from reached [OF assms] obtain A where inv: "sched_inv c A" and A: "a_max A = mx" "length (a_own A) = n" by blast
  have "\<exists>rest. c_sent c ! i = from_writer i (c_got c) @ rest" if "i < n" for i
    using writer_state(2) [OF inv, of i] that A by (simp add: writer_ok_def passed_def from_writer_def)
  then show ?thesis using inv A abs_queries(3) [OF read_state(1) [OF inv]] by (auto simp: sched_inv_def reader_ok_def passed_def)
qed

theorem thread_queue_in_order_witness:
  "\<exists>c. tq_run demo_schedule (new_conf 2 2 1) = Some c \<and> c_got c = [(0, 10), (0, 11)] \<and>
     (\<exists>rest. [10, 11, 12] = from_writer 0 (c_got c) @ rest)"
proof -
  have run: "map_option (\<lambda>c. (c_got c, c_sent c)) (tq_run demo_schedule (new_conf 2 2 1)) = Some ([(0, 10), (0, 11)], [[10, 11, 12], [20]])" by code_simp
  then obtain c where c: "tq_run demo_schedule (new_conf 2 2 1) = Some c" "c_got c = [(0, 10), (0, 11)]" "c_sent c = [[10, 11, 12], [20]]" by auto
  from thread_queue_in_order [OF _ c(1)] c(3) have "\<exists>rest. [10, 11, 12] = from_writer 0 (c_got c) @ rest" by fastforce
  with c show ?thesis by blast
qed

text \<open>
  C9: When the reader is told that the queue has terminated, every writer has terminated and every element that a writer wrote before has been
  read, in order, as long as fewer than $2^{64}$ elements were written. This holds although the reader decides it from counters that it reads without the lock.
\<close>

theorem thread_queue_terminated_complete:
  assumes "0 < bs" "tq_run es (new_conf n bs mx) = Some c" "hlt_thread_queue_terminated (c_queue c)"
    "(\<Sum>xs\<leftarrow>c_sent c. length xs) \<le> max64"
  shows "\<forall>i < n. tq_writers_terminated (c_queue c) ! i \<and> from_writer i (c_got c) = c_sent c ! i"
proof -
  from reached [OF assms(1,2)] obtain A where inv: "sched_inv c A" and A: "length (a_own A) = n" by blast
  note abs = read_state(1) [OF inv]
  from abs_queries(4) [OF abs] assms(3) have t: "a_nterm A = length (a_own A)" "a_total A = 0" by auto
  let ?own = "\<Sum>i<n. length (a_own A ! i)" and ?p = "passed c A"
  have sent: "c_sent c ! i = from_writer i ?p @ map snd (a_own A ! i)" if "i < n" for i
    using writer_state(2) [OF inv, of i] all_terminated [OF inv t(1), of i] that A by (cases "c_wstate c ! i") (auto simp: writer_ok_def)
  have "length (c_sent c) = n" "\<forall>e \<in> set ?p. fst e < n" using inv A by (auto simp: sched_inv_def lens_ok_def reader_ok_def)
  then have "(\<Sum>xs\<leftarrow>c_sent c. length xs) = (\<Sum>i<n. length (from_writer i ?p) + length (a_own A ! i))"
    using sent by (simp add: sum_list_sum_nth atLeast0LessThan)
  also have "\<dots> = length ?p + ?own" using sum_from_writer [of ?p n] \<open>\<forall>e \<in> set ?p. fst e < n\<close> by (simp add: sum.distrib)
  finally have "length (concat (a_reader A)) + length (concat (a_pending A)) + ?own \<le> max64" using assms(4) by (simp add: passed_def)
  with size_counts [OF inv] t(2) A have z: "length (concat (a_reader A)) + length (concat (a_pending A)) + ?own = 0" by simp
  then have own: "a_own A ! i = []" if "i < n" for i using that by simp
  have pass: "?p = c_got c" using z by (simp add: passed_def)
  show ?thesis
  proof (intro allI impI conjI)
    fix i assume i: "i < n"
    show "tq_writers_terminated (c_queue c) ! i" using all_terminated [OF inv t(1)] i A abs_writers [OF abs] by simp
    show "from_writer i (c_got c) = c_sent c ! i" using sent [OF i] own [OF i] pass by simp
  qed
qed

theorem thread_queue_terminated_complete_witness:
  "\<exists>c. tq_run (demo_schedule @ drain_schedule) (new_conf 2 2 1) = Some c \<and> hlt_thread_queue_terminated (c_queue c) \<and>
     from_writer 0 (c_got c) = [10, 11, 12] \<and> from_writer 1 (c_got c) = [20]"
proof -
  have "map_option (\<lambda>c. (hlt_thread_queue_terminated (c_queue c), c_sent c)) (tq_run (demo_schedule @ drain_schedule) (new_conf 2 2 1))
    = Some (True, [[10, 11, 12], [20]])" by code_simp
  then obtain c where c: "tq_run (demo_schedule @ drain_schedule) (new_conf 2 2 1) = Some c" "hlt_thread_queue_terminated (c_queue c)"
    "c_sent c = [[10, 11, 12], [20]]" by auto
  from thread_queue_terminated_complete [OF _ c(1,2)] c(3) have "\<forall>i < 2. from_writer i (c_got c) = c_sent c ! i" by simp
  then have "from_writer 0 (c_got c) = c_sent c ! 0" "from_writer 1 (c_got c) = c_sent c ! 1" by (metis zero_less_numeral, metis one_less_numeral_iff semiring_norm(76))
  with c show ?thesis by simp
qed

text \<open>
  C10: No step of any thread uses freed or foreign memory or fails an assertion; a step is undefined exactly if the reader's time-out in nanoseconds leaves the range
  of \<open>int\<close>. At any time the queue can be deleted, which frees every batch.
\<close>

theorem thread_queue_safe:
  assumes "0 < bs" "tq_run es (new_conf n bs mx) = Some c"
  shows "(\<forall>e. tq_exec e c = None \<longleftrightarrow> timeout_overflow e c) \<and> (\<exists>q. hlt_thread_queue_delete (c_queue c) = Some q \<and> tq_mem q = Map.empty)"
proof -
  from reached [OF assms] obtain A where inv: "sched_inv c A" by blast
  have "tq_exec e c = None \<longleftrightarrow> timeout_overflow e c" for e using exec_ok [OF inv, of e] by (auto split: if_splits)
  then show ?thesis using abs_delete [OF read_state(1) [OF inv]] by blast
qed

theorem thread_queue_safe_witness:
  "\<exists>c. tq_run demo_schedule (new_conf 2 2 1) = Some c \<and> tq_exec GoRead c \<noteq> None \<and> tq_exec (Read 2147484) c = None"
proof -
  have "map_option c_rstate (tq_run demo_schedule (new_conf 2 2 1)) = Some RIdle" by code_simp
  then obtain c where c: "tq_run demo_schedule (new_conf 2 2 1) = Some c" "c_rstate c = RIdle" by auto
  from thread_queue_safe [OF _ c(1)] have "tq_exec e c = None \<longleftrightarrow> timeout_overflow e c" for e by simp
  then have "tq_exec GoRead c \<noteq> None" "tq_exec (Read 2147484) c = None" using c(2) by (simp_all del: tq_exec.simps)
  with c(1) show ?thesis by blast
qed

text \<open>
  C24: A read that starts while a batch is pending returns an element after at most three steps of the reader, whatever its time-out is (at most 2147483
  microseconds, beyond which the code's conversion overflows), without waiting for a writer.
\<close>

theorem thread_queue_read_delivers:
  assumes "0 < bs" "tq_run es (new_conf n bs mx) = Some c" "c_rstate c = RIdle" "0 < hlt_thread_queue_pending (c_queue c)"
    "- 2147483 \<le> t" "t \<le> 2147483"
  shows "\<exists>k c' e. k \<le> 3 \<and> tq_run (Read t # replicate k GoRead) c = Some c' \<and> c_rstate c' = RIdle \<and> c_got c' = c_got c @ [e]"
proof -
  from reached [OF assms(1,2)] obtain A where inv: "sched_inv c A" by blast
  have r: "hlt_thread_queue_read t = Some (RTake (t * 1000) (t = 0))" using assms(5,6) by (simp add: hlt_thread_queue_read_def as_int32_def)
  have p: "a_pending A \<noteq> []" using assms(4) abs_queries(3) [OF read_state(1) [OF inv]] by auto
  from read_pending [OF read_call_ok [OF inv r] _ p] r assms(3) show ?thesis by simp
qed

theorem thread_queue_read_delivers_witness:
  "\<exists>c k c' e. tq_run (take 5 demo_schedule) (new_conf 2 2 1) = Some c \<and> k \<le> 3 \<and> tq_run (Read 1 # replicate k GoRead) c = Some c' \<and> c_got c' = [e]"
proof -
  have "map_option (\<lambda>c. (c_rstate c, c_got c, hlt_thread_queue_pending (c_queue c))) (tq_run (take 5 demo_schedule) (new_conf 2 2 1)) = Some (RIdle, [], 1)" by code_simp
  then obtain c where c: "tq_run (take 5 demo_schedule) (new_conf 2 2 1) = Some c" "c_rstate c = RIdle" "c_got c = []"
    "hlt_thread_queue_pending (c_queue c) = 1" by auto
  have "0 < (2 :: nat)" "0 < hlt_thread_queue_pending (c_queue c)" "- 2147483 \<le> (1 :: int)" "(1 :: int) \<le> 2147483" using c(4) by simp_all
  from thread_queue_read_delivers [OF this(1) c(1,2) this(2-4)] c(1,3) show ?thesis unfolding c(3) append_Nil by blast
qed

text \<open>
  C25: Waiting for room. In every state that the threads can reach, the next attempt of a writer that waits succeeds exactly if fewer batches are
  pending than the queue's limit (or there is no limit): then it hands over its batch, and a flush ends with it, while a write stores its
  element and ends or goes on to flush; otherwise the writer keeps waiting, and nothing is added. Once the reader finds its own batches
  used up, its next step takes all pending batches, so that as many writers can go on as the limit allows.
\<close>

theorem thread_queue_writer_unblocks:
  assumes "0 < bs" "tq_run es (new_conf n bs mx) = Some c" "i < n" "c_wstate c ! i \<noteq> Idle"
  shows "(\<exists>c'. tq_exec (Go i) c = Some c' \<and>
      (if mx = 0 \<or> hlt_thread_queue_pending (c_queue c) < mx
       then hlt_thread_queue_pending (c_queue c') = hlt_thread_queue_pending (c_queue c) + 1 \<and>
         (if c_wstate c ! i = InFlush then c_wstate c' ! i = Idle else c_wstate c' ! i \<in> {Idle, InFlush})
       else hlt_thread_queue_pending (c_queue c') = hlt_thread_queue_pending (c_queue c) \<and> c_wstate c' = c_wstate c)) \<and>
    (\<forall>t bl. c_rstate c = RLock t bl \<longrightarrow>
      (\<exists>c'. tq_exec GoRead c = Some c' \<and> hlt_thread_queue_pending (c_queue c') = 0 \<and> c_wstate c' = c_wstate c))"
proof (intro conjI allI impI)
  from reached [OF assms(1,2)] obtain A where inv: "sched_inv c A" and A: "length (a_own A) = n" "a_max A = mx" by blast
  have i: "i < length (a_own A)" using assms(3) A by simp
  note s = writer_state [OF inv i]
  let ?w = "fst (a_resume i (c_wstate c ! i) A)" and ?A = "snd (a_resume i (c_wstate c ! i) A)"
  from s(2) have own: "c_wstate c ! i \<noteq> Idle \<Longrightarrow> a_own A ! i \<noteq> []" by (simp add: writer_ok_def)
  from abs_resume [OF s(1) i own] obtain q where q: "resume i (c_wstate c ! i) (c_queue c) = Some (?w, q)" "tq_abs q ?A" by blast
  have free: "\<not> fst (a_round i A) \<longleftrightarrow> mx = 0 \<or> length (a_pending A) < mx" using s(9) A by (auto simp: a_round_def)
  have "if mx = 0 \<or> length (a_pending A) < mx
    then length (a_pending ?A) = length (a_pending A) + 1 \<and> (if c_wstate c ! i = InFlush then ?w = Idle else ?w \<in> {Idle, InFlush})
    else length (a_pending ?A) = length (a_pending A) \<and> ?w = c_wstate c ! i"
    unfolding free [symmetric] using assms(4) i s(7) by (cases "c_wstate c ! i") (auto simp: a_round_def a_write_loop_def)
  moreover have "tq_exec (Go i) c = Some (c\<lparr>c_queue := q, c_wstate := (c_wstate c)[i := ?w]\<rparr>)"
    using q(1) i abs_writers [OF s(1)] by simp
  ultimately show "\<exists>c'. tq_exec (Go i) c = Some c' \<and>
      (if mx = 0 \<or> hlt_thread_queue_pending (c_queue c) < mx
       then hlt_thread_queue_pending (c_queue c') = hlt_thread_queue_pending (c_queue c) + 1 \<and>
         (if c_wstate c ! i = InFlush then c_wstate c' ! i = Idle else c_wstate c' ! i \<in> {Idle, InFlush})
       else hlt_thread_queue_pending (c_queue c') = hlt_thread_queue_pending (c_queue c) \<and> c_wstate c' = c_wstate c)"
    using abs_queries(3) [OF s(1)] abs_queries(3) [OF q(2)] s(3) i
    by (intro exI [of _ "c\<lparr>c_queue := q, c_wstate := (c_wstate c)[i := ?w]\<rparr>"]) (auto split: if_splits)
  fix t bl assume r: "c_rstate c = RLock t bl"
  then have "a_read_on (c_rstate c) A = Some (Waiting (if a_pending A = [] then REmpty t bl else RTake t bl), a_grab A)" by simp
  from read_on_ok [OF inv this] obtain c' where c': "tq_exec GoRead c = Some c'" "sched_inv c' (a_grab A)" by blast
  have "hlt_thread_queue_pending (c_queue c') = 0" using abs_queries(3) [OF read_state(1) [OF c'(2)]] by (simp add: a_grab_def)
  moreover have "c_wstate c' = c_wstate c" using c'(1) r by (auto simp: Let_def)
  ultimately show "\<exists>c'. tq_exec GoRead c = Some c' \<and> hlt_thread_queue_pending (c_queue c') = 0 \<and> c_wstate c' = c_wstate c" using c'(1) by blast
qed

theorem thread_queue_writer_unblocks_witness:
  "\<exists>c c1. tq_run (take 9 demo_schedule) (new_conf 2 2 1) = Some c \<and> c_wstate c ! 1 = InFlush \<and>
     hlt_thread_queue_pending (c_queue c) = 1 \<and> tq_exec GoRead c = Some c1 \<and> hlt_thread_queue_pending (c_queue c1) = 0"
proof -
  have "map_option (\<lambda>c. (c_rstate c, c_wstate c ! 1, hlt_thread_queue_pending (c_queue c)))
      (tq_run (take 9 demo_schedule) (new_conf 2 2 1)) = Some (RLock 0 True, InFlush, 1)" by code_simp
  then obtain c where c: "tq_run (take 9 demo_schedule) (new_conf 2 2 1) = Some c" "c_rstate c = RLock 0 True"
    "c_wstate c ! 1 = InFlush" "hlt_thread_queue_pending (c_queue c) = 1" by auto
  have "0 < (2 :: nat)" "1 < (2 :: nat)" "c_wstate c ! 1 \<noteq> Idle" using c(3) by simp_all
  from thread_queue_writer_unblocks [OF this(1) c(1) this(2,3)] c show ?thesis by blast
qed

text \<open>
  C11: The operations on batches in memory do what operations on lists do: each writer has a list of its own, which it extends, or, unless too many batches
  are pending, moves to the end of the pending ones; the reader takes the first element of its batches, and all pending batches when it has none.
\<close>

theorem thread_queue_refines_lists:
  assumes "tq_abs q A" "i < length (a_own A)"
  shows "(\<exists>q1. hlt_thread_queue_write i e q = Some (fst (a_write i e A), q1) \<and> tq_abs q1 (snd (a_write i e A))) \<and>
    hlt_thread_queue_flush i q = Some (a_flush i A, q) \<and>
    (\<exists>q1. hlt_thread_queue_terminate_writer i q = Some (a_flush i A, q1) \<and> tq_abs q1 (A\<lparr>a_term := (a_term A)[i := True]\<rparr>)) \<and>
    (a_own A ! i \<noteq> [] \<longrightarrow> (\<exists>q1. resume i w q = Some (fst (a_resume i w A), q1) \<and> tq_abs q1 (snd (a_resume i w A)))) \<and>
    (\<exists>q1. take_elem q = Some (fst (a_take A), q1) \<and> tq_abs q1 (snd (a_take A))) \<and> (a_reader A = [] \<longrightarrow> tq_abs (grab_pending q) (a_grab A))"
  using abs_write [OF assms] abs_flush [OF assms] abs_terminate [OF assms] abs_resume [OF assms] abs_take [OF assms(1)] abs_grab [OF assms(1)] by blast

theorem thread_queue_refines_lists_witness:
  "\<exists>A q1. hlt_thread_queue_write 0 (5 :: nat) (hlt_thread_queue_new 1 2 0) = Some (Idle, q1) \<and> tq_abs q1 A \<and> a_own A = [[5]]"
proof -
  let ?A = "\<lparr>a_size = 2, a_max = 0, a_own = replicate 1 [], a_written = replicate 1 0, a_reader = [], a_read = 0, a_nterm = 0, a_pending = [],
    a_block = False, a_term = replicate 1 False, a_need = False\<rparr> :: nat aqueue"
  have abs: "tq_abs (hlt_thread_queue_new 1 2 0) ?A" by (rule new_abs) simp
  have i: "0 < length (a_own ?A)" by simp
  have "fst (a_write 0 5 ?A) = Idle" "a_own (snd (a_write 0 5 ?A)) = [[5]]" by (simp_all add: a_write_def a_write_loop_def)
  with thread_queue_refines_lists [OF abs i, of 5 Idle] show ?thesis by metis
qed

text \<open>
  After the last element of a batch has been read, the reader still holds the batch, and \<^verbatim>\<open>hlt_thread_queue_can_read\<close> says that an element is ready; yet the next
  read returns nothing.
\<close>

lemma can_read_without_element:
  "map_option (\<lambda>c. hlt_thread_queue_can_read (c_queue c)) (tq_run [Call 0 (CWrite (7 :: nat)), Call 0 CFlush, Go 0, Read 1, GoRead, GoRead, GoRead] (new_conf 1 2 0)) = Some True"
  "map_option (\<lambda>c. (c_rstate c, c_got c)) (tq_run ([Call 0 (CWrite (7 :: nat)), Call 0 CFlush, Go 0, Read 1, GoRead, GoRead, GoRead] @
     [Read 1, GoRead, GoRead, GoRead, GoRead, GoRead, GoRead]) (new_conf 1 2 0)) = Some (RIdle, [(0, 7)])"
  by code_simp+

end
