(* ===== verification/Bytes.thy ===== *)
theory Bytes
  imports Prelude "HOL-Library.Word"
begin

text \<open>
  The bytes type, \<^verbatim>\<open>libhilti/bytes.c\<close>.

  A bytes object is a chain of chunks. A chunk is a buffer with a start and an end position, the
  offset of its first byte in the stream, a frozen flag, an optional list of marks, and, for a
  separator, an embedded object instead of data. An iterator is a chunk and a position in the
  chunk's buffer; it may point one or more positions past the end of the data, and is moved on
  lazily once more data has been appended. The state \<open>bworld\<close> is the store of chunks.

  Pointers into a buffer are positions, of type \<^typ>\<open>nat\<close>. The loops of the code that walk
  along \<open>next\<close> pointers are recursive functions on the list of chunks that \<open>chunks\<close> reads off the
  store. The buffer pointers of a separator chunk are uninitialised in the code and are position 0
  here; where the code computes with them the model is undefined (\<^term>\<open>None\<close>).

  The abstract value of a bytes object is the list of its bytes up to the first separator,
  \<open>content\<close>, and that of an iterator the list of bytes from its position on, \<open>rest\<close>. The lemmas say
  that the operations compute on these lists.
\<close>

type_synonym byte = "8 word"

datatype marks = NoMarks | Marks "int list" | FreedMarks

record bchunk =
  bc_frozen :: bool
  bc_object :: "(nat \<times> val) option"
  bc_next :: ptr
  bc_offset :: int
  bc_start :: nat
  bc_end :: nat
  bc_buf :: "byte list"
  bc_to_free :: bool
  bc_marks :: marks

record bworld =
  bw_chunks :: "addr \<rightharpoonup> bchunk"
  bw_next :: addr
  bw_excpt :: "exn option"

record bytes_iter =
  bi_bytes :: ptr
  bi_cur :: nat

type_synonym chain = "(addr \<times> bchunk) list"

definition bytes_min_reserve :: nat where
  "bytes_min_reserve = 32"

definition bytes_error :: "exn \<Rightarrow> bworld \<Rightarrow> bworld" where
  "bytes_error e w = w\<lparr>bw_excpt := Some e\<rparr>"

section \<open>Chunks and iterators\<close>

text \<open>The chunks reached from a pointer along \<open>next\<close>; undefined on a dangling pointer or a cycle.\<close>

partial_function (option) chunks :: "(addr \<rightharpoonup> bchunk) \<Rightarrow> ptr \<Rightarrow> chain option" where
  "chunks h p = (case p of
       None \<Rightarrow> Some []
     | Some a \<Rightarrow> do { c \<leftarrow> h a; r \<leftarrow> chunks h (bc_next c); Some ((a, c) # r) })"

declare chunks.simps [code]

definition is_object :: "bchunk \<Rightarrow> bool" where
  "is_object c \<longleftrightarrow> bc_object c \<noteq> None"

fun tail_chunk :: "bool \<Rightarrow> chain \<Rightarrow> (addr \<times> bchunk) option" where
  "tail_chunk consider_object [] = None"
| "tail_chunk consider_object [x] = Some x"
| "tail_chunk consider_object (x # y # r) =
     (if \<not> consider_object \<and> is_object (snd y) then Some x else tail_chunk consider_object (y # r))"

definition generic_end_pos :: bytes_iter where
  "generic_end_pos = \<lparr>bi_bytes = None, bi_cur = 0\<rparr>"

definition create_iterator :: "ptr \<Rightarrow> nat \<Rightarrow> bytes_iter" where
  "create_iterator b p = \<lparr>bi_bytes = b, bi_cur = p\<rparr>"

abbreviation iter_chunks :: "bworld \<Rightarrow> bytes_iter \<Rightarrow> chain option" where
  "iter_chunks w i \<equiv> chunks (bw_chunks w) (bi_bytes i)"

definition at_object :: "bworld \<Rightarrow> bytes_iter \<Rightarrow> bool option" where
  "at_object w i = map_option (\<lambda>xs. xs \<noteq> [] \<and> is_object (snd (hd xs))) (iter_chunks w i)"

fun mark_list :: "marks \<Rightarrow> int list option" where
  "mark_list NoMarks = Some []"
| "mark_list (Marks ms) = Some ms"
| "mark_list FreedMarks = None"

definition at_mark :: "bworld \<Rightarrow> bytes_iter \<Rightarrow> bool option" where
  "at_mark w i = (case bi_bytes i of
      None \<Rightarrow> Some False
    | Some a \<Rightarrow> do { c \<leftarrow> bw_chunks w a; ms \<leftarrow> mark_list (bc_marks c);
                     Some (int (bi_cur i) - int (bc_start c) \<in> set ms) })"

text \<open>The end test on the chunks from the iterator's chunk on.\<close>

definition is_end_at :: "chain \<Rightarrow> nat \<Rightarrow> bool" where
  "is_end_at xs k \<longleftrightarrow> xs = [] \<or> is_object (snd (hd xs)) \<or>
     (tail_chunk False xs = Some (hd xs) \<and> bc_end (snd (hd xs)) \<le> k)"

definition is_end :: "bworld \<Rightarrow> bytes_iter \<Rightarrow> bool option" where
  "is_end w i = map_option (\<lambda>xs. is_end_at xs (bi_cur i)) (iter_chunks w i)"

definition is_frozen :: "bworld \<Rightarrow> ptr \<Rightarrow> bool option" where
  "is_frozen w b = (case b of None \<Rightarrow> Some False | Some a \<Rightarrow> map_option bc_frozen (bw_chunks w a))"

fun is_empty_chain :: "bool \<Rightarrow> chain \<Rightarrow> bool" where
  "is_empty_chain consider_objects [] = True"
| "is_empty_chain consider_objects ((a, c) # r) =
     (if is_object c then \<not> consider_objects
      else if bc_start c \<noteq> bc_end c then False
      else is_empty_chain consider_objects r)"

fun pred_chunk :: "chain \<Rightarrow> ptr \<Rightarrow> ptr" where
  "pred_chunk [] p = None"
| "pred_chunk ((a, c) # r) p = (if bc_next c = p then Some a else pred_chunk r p)"

text \<open>
  The loop of \<^verbatim>\<open>__hlt_iterator_bytes_incr_by\<close>. A pointer before the start of the buffer is
  undefined.
\<close>

fun incr_by_loop :: "chain \<Rightarrow> nat \<Rightarrow> int \<Rightarrow> bool \<Rightarrow> bytes_iter option" where
  "incr_by_loop [] k n beyond = None"
| "incr_by_loop ((a, c) # r) k n beyond =
     (if int k + n < 0 then None
      else if int k + n < int (bc_end c) then Some (create_iterator (Some a) (nat (int k + n)))
      else if r = [] \<or> is_object c then
        Some (create_iterator (Some a) (if beyond then nat (int (bc_end c) + n) else bc_end c))
      else incr_by_loop r (bc_start (snd (hd r))) (n - (int (bc_end c) - int k)) beyond)"

definition iter_incr_by :: "bworld \<Rightarrow> bytes_iter \<Rightarrow> int \<Rightarrow> bool \<Rightarrow> bytes_iter option" where
  "iter_incr_by w i n beyond = do {
     xs \<leftarrow> iter_chunks w i;
     (if is_end_at xs (bi_cur i) \<or> n = 0 then Some i else incr_by_loop xs (bi_cur i) n beyond)
   }"

fun normalize_loop :: "chain \<Rightarrow> nat \<Rightarrow> int \<Rightarrow> (addr \<times> nat \<times> int) option" where
  "normalize_loop [] k incr = None"
| "normalize_loop [(a, c)] k incr = Some (a, k, incr)"
| "normalize_loop ((a, c) # (b, d) # r) k incr =
     (if bc_end c \<le> k \<and> \<not> is_object c
      then normalize_loop ((b, d) # r) (bc_start d) (incr + (int k - int (bc_end c)))
      else Some (a, k, incr))"

definition normalize_iter :: "bworld \<Rightarrow> bytes_iter \<Rightarrow> bytes_iter option" where
  "normalize_iter w i = do {
     xs \<leftarrow> iter_chunks w i;
     (if xs = [] \<or> is_object (snd (hd xs)) then Some i
      else do {
        (a, k, incr) \<leftarrow> normalize_loop xs (bi_cur i) 0;
        (if incr \<noteq> 0 then iter_incr_by w (create_iterator (Some a) k) incr True
         else Some (create_iterator (Some a) k))
      })
   }"

text \<open>
  \<^verbatim>\<open>__normalize_iter_hilti\<close> has no separator test in its loop and compares the pointers of
  a separator chunk it steps onto.
\<close>

fun normalize_hilti_loop :: "chain \<Rightarrow> nat \<Rightarrow> int \<Rightarrow> (addr \<times> nat \<times> int) option" where
  "normalize_hilti_loop [] k incr = None"
| "normalize_hilti_loop [(a, c)] k incr = (if is_object c then None else Some (a, k, incr))"
| "normalize_hilti_loop ((a, c) # (b, d) # r) k incr =
     (if is_object c then None
      else if bc_end c \<le> k
      then normalize_hilti_loop ((b, d) # r) (bc_start d) (incr + (int k - int (bc_end c)))
      else Some (a, k, incr))"

definition normalize_iter_hilti :: "bworld \<Rightarrow> bytes_iter \<Rightarrow> bytes_iter option" where
  "normalize_iter_hilti w i = do {
     xs \<leftarrow> iter_chunks w i;
     (if xs = [] \<or> is_object (snd (hd xs)) then Some i
      else do {
        (a, k, incr) \<leftarrow> normalize_hilti_loop xs (bi_cur i) 0;
        (if incr \<noteq> 0 then iter_incr_by w (create_iterator (Some a) k) incr True
         else Some (create_iterator (Some a) k))
      })
   }"

fun chain_len :: "chain \<Rightarrow> int" where
  "chain_len [] = 0"
| "chain_len ((a, c) # r) = (if is_object c then 0 else int (bc_end c) - int (bc_start c) + chain_len r)"

section \<open>Building chunks\<close>

definition slice :: "byte list \<Rightarrow> nat \<Rightarrow> nat \<Rightarrow> byte list option" where
  "slice buf s e = (if s \<le> e \<and> e \<le> length buf then Some (take (e - s) (drop s buf)) else None)"

definition bytes_init :: "byte list \<Rightarrow> nat \<Rightarrow> bchunk" where
  "bytes_init data reserve =
     \<lparr>bc_frozen = False, bc_object = None, bc_next = None, bc_offset = 0, bc_start = 0,
      bc_end = length data, bc_buf = data @ replicate (reserve - length data) 0, bc_to_free = False,
      bc_marks = NoMarks\<rparr>"

definition bytes_init_reuse :: "byte list \<Rightarrow> bchunk" where
  "bytes_init_reuse data =
     \<lparr>bc_frozen = False, bc_object = None, bc_next = None, bc_offset = 0, bc_start = 0,
      bc_end = length data, bc_buf = data, bc_to_free = True, bc_marks = NoMarks\<rparr>"

definition bytes_init_object :: "nat \<Rightarrow> val \<Rightarrow> bchunk" where
  "bytes_init_object ty x =
     \<lparr>bc_frozen = False, bc_object = Some (ty, x), bc_next = None, bc_offset = 0, bc_start = 0,
      bc_end = 0, bc_buf = [], bc_to_free = False, bc_marks = NoMarks\<rparr>"

text \<open>
  The chunk of a hoisted bytes object: 32 bytes inline, or allocated memory for more. The initial
  data is always copied to the inline array.
\<close>

definition bytes_init_hoisted :: "byte list option \<Rightarrow> nat \<Rightarrow> bchunk option" where
  "bytes_init_hoisted data len =
     (let c = (if len \<le> 32
               then (bytes_init (replicate len 0) 32)
               else (bytes_init (replicate len 0) len)\<lparr>bc_to_free := True\<rparr>)
      in case data of
           None \<Rightarrow> Some c
         | Some d \<Rightarrow> if len \<le> 32 then Some (c\<lparr>bc_buf := take len d @ drop len (bc_buf c)\<rparr>) else None)"

definition reserve_for :: "nat \<Rightarrow> nat" where
  "reserve_for len = (if len \<noteq> 0 then len else bytes_min_reserve)"

definition alloc_chunk :: "bchunk \<Rightarrow> bworld \<Rightarrow> addr \<times> bworld" where
  "alloc_chunk c w =
     (bw_next w, w\<lparr>bw_chunks := (bw_chunks w)(bw_next w \<mapsto> c), bw_next := bw_next w + 1\<rparr>)"

definition bytes_new_chunk :: "byte list \<Rightarrow> bworld \<Rightarrow> addr \<times> bworld" where
  "bytes_new_chunk data w = alloc_chunk (bytes_init data (reserve_for (length data))) w"

text \<open>A new chunk of \<open>len\<close> bytes that a copying loop has filled with \<open>out\<close>.\<close>

definition filled_chunk :: "nat \<Rightarrow> byte list \<Rightarrow> marks \<Rightarrow> bchunk option" where
  "filled_chunk len out ms =
     (if length out \<le> reserve_for len
      then Some ((bytes_init (take len (out @ replicate len 0)) (reserve_for len))\<lparr>bc_marks := ms\<rparr>)
      else None)"

definition hlt_bytes_new :: "bworld \<Rightarrow> addr \<times> bworld" where
  "hlt_bytes_new w = bytes_new_chunk [] w"

definition hlt_bytes_new_from_data :: "byte list \<Rightarrow> bworld \<Rightarrow> addr \<times> bworld" where
  "hlt_bytes_new_from_data data w = alloc_chunk (bytes_init_reuse data) w"

definition hlt_bytes_new_from_data_copy :: "byte list \<Rightarrow> bworld \<Rightarrow> addr \<times> bworld" where
  "hlt_bytes_new_from_data_copy data w = bytes_new_chunk data w"

section \<open>Marks\<close>

text \<open>
  An array of marks ends at the entry -1; a deleted mark is the entry -2. Space for more marks is
  made after the leading non-negative entries.
\<close>

fun reserve_marks :: "marks \<Rightarrow> int list option" where
  "reserve_marks NoMarks = Some []"
| "reserve_marks (Marks ms) = Some (takeWhile (\<lambda>m. m \<ge> 0) ms)"
| "reserve_marks FreedMarks = None"

definition int8 :: "int \<Rightarrow> int" where
  "int8 k = sint (word_of_int k :: 8 word)"

definition copy_marks :: "marks \<Rightarrow> bchunk \<Rightarrow> nat option \<Rightarrow> nat option \<Rightarrow> int \<Rightarrow> marks option" where
  "copy_marks dst c frst lst adjoffset =
     (case bc_marks c of
        NoMarks \<Rightarrow> Some dst
      | FreedMarks \<Rightarrow> None
      | Marks ms \<Rightarrow> do {
          kept \<leftarrow> reserve_marks dst;
          let offset_first = (case frst of None \<Rightarrow> -1 | Some p \<Rightarrow> int p - int (bc_start c));
          let offset_last = (case lst of None \<Rightarrow> -1 | Some p \<Rightarrow> int p - int (bc_start c));
          let moved = map (\<lambda>m. m + int8 adjoffset) (filter (\<lambda>m. m \<ge> 0) ms);
          Some (Marks (kept @ filter (\<lambda>m. \<not> (offset_first \<ge> 0 \<and> m < offset_first) \<and>
                                          \<not> (offset_last \<ge> 0 \<and> m \<ge> offset_last)) moved))
        })"

text \<open>The pointer assignments of \<^verbatim>\<open>__add_chunk\<close>, with its assertions.\<close>

definition link_chunk :: "addr \<Rightarrow> addr \<Rightarrow> bworld \<Rightarrow> bworld option" where
  "link_chunk t c w = do {
     tc \<leftarrow> bw_chunks w t;
     cc \<leftarrow> bw_chunks w c;
     (if bc_next tc \<noteq> None \<or> bc_frozen tc then None
      else Some (w\<lparr>bw_chunks := (bw_chunks w)(t \<mapsto> tc\<lparr>bc_next := Some c\<rparr>,
             c \<mapsto> cc\<lparr>bc_offset := bc_offset tc +
                  (if is_object tc then 0 else int (bc_end tc) - int (bc_start tc))\<rparr>)\<rparr>))
   }"

text \<open>
  \<^verbatim>\<open>__hlt_bytes_append_mark\<close>. The chunk it adds after a separator is added by
  \<^verbatim>\<open>__add_chunk\<close>, whose loop over marks does nothing there since a separator has none.
\<close>

definition append_mark :: "ptr \<Rightarrow> int \<Rightarrow> bworld \<Rightarrow> bworld option" where
  "append_mark b mark w = do {
     xs \<leftarrow> chunks (bw_chunks w) b;
     (t, tc) \<leftarrow> tail_chunk True xs;
     (t1, w1) \<leftarrow> (if is_object tc
        then (let (e, w') = bytes_new_chunk [] w in map_option (Pair e) (link_chunk t e w'))
        else Some (t, w));
     c \<leftarrow> bw_chunks w1 t1;
     kept \<leftarrow> reserve_marks (bc_marks c);
     let m = (if mark \<ge> 0 then mark else int (bc_end c) - int (bc_start c));
     Some (w1\<lparr>bw_chunks := (bw_chunks w1)(t1 \<mapsto> c\<lparr>bc_marks := Marks (kept @ [m])\<rparr>)\<rparr>)
   }"

text \<open>The loop of \<^verbatim>\<open>__add_chunk\<close> over the marks of the old tail, by position in the array.\<close>

fun pass_marks :: "addr \<Rightarrow> int list \<Rightarrow> int list \<Rightarrow> bworld \<Rightarrow> bworld option" where
  "pass_marks t pre [] w = Some w"
| "pass_marks t pre (m # ms) w = do {
     tc \<leftarrow> bw_chunks w t;
     let len = int (bc_end tc) - int (bc_start tc);
     (if m \<ge> len then do {
        w1 \<leftarrow> append_mark (Some t) (m - len) w;
        tc1 \<leftarrow> bw_chunks w1 t;
        pass_marks t (pre @ [-2]) ms
          (w1\<lparr>bw_chunks := (bw_chunks w1)(t \<mapsto> tc1\<lparr>bc_marks := Marks (pre @ -2 # ms)\<rparr>)\<rparr>)
      } else pass_marks t (pre @ [m]) ms w)
   }"

definition add_chunk :: "ptr \<Rightarrow> addr \<Rightarrow> bworld \<Rightarrow> bworld option" where
  "add_chunk tail c w = do {
     t \<leftarrow> tail;
     w1 \<leftarrow> link_chunk t c w;
     tc \<leftarrow> bw_chunks w1 t;
     ms \<leftarrow> mark_list (bc_marks tc);
     pass_marks t [] ms w1
   }"

section \<open>Length, append, concatenation\<close>

definition hlt_bytes_len :: "ptr \<Rightarrow> bworld \<Rightarrow> (int \<times> bworld) option" where
  "hlt_bytes_len b w = (case b of
      None \<Rightarrow> Some (0, bytes_error NullReference w)
    | Some _ \<Rightarrow> map_option (\<lambda>xs. (chain_len xs, w)) (chunks (bw_chunks w) b))"

definition hlt_bytes_empty :: "ptr \<Rightarrow> bworld \<Rightarrow> (bool \<times> bworld) option" where
  "hlt_bytes_empty b w = (case b of
      None \<Rightarrow> Some (False, bytes_error NullReference w)
    | Some _ \<Rightarrow> map_option (\<lambda>xs. (is_empty_chain False xs, w)) (chunks (bw_chunks w) b))"

text \<open>
  Copying the data and the marks of a chain up to the first separator behind the bytes \<open>out\<close>
  written so far.
\<close>

fun copy_chain :: "chain \<Rightarrow> byte list \<Rightarrow> marks \<Rightarrow> (byte list \<times> marks) option" where
  "copy_chain [] out ms = Some (out, ms)"
| "copy_chain ((a, c) # r) out ms =
     (if is_object c then Some (out, ms)
      else do {
        ms1 \<leftarrow> copy_marks ms c None None (int (length out));
        d \<leftarrow> slice (bc_buf c) (bc_start c) (bc_end c);
        copy_chain r (out @ d) ms1
      })"

definition hlt_bytes_append :: "ptr \<Rightarrow> ptr \<Rightarrow> bworld \<Rightarrow> bworld option" where
  "hlt_bytes_append b oth w = (case b of
      None \<Rightarrow> Some (bytes_error NullReference w)
    | Some a \<Rightarrow> do {
        frozen \<leftarrow> is_frozen w b;
        (if frozen then Some (bytes_error ValueError w)
         else do {
           (len, w1) \<leftarrow> hlt_bytes_len oth w;
           (if len = 0 then Some w1
            else do {
              ys \<leftarrow> chunks (bw_chunks w1) oth;
              (out, ms) \<leftarrow> copy_chain ys [] NoMarks;
              c \<leftarrow> filled_chunk (nat len) out ms;
              let (dst, w2) = alloc_chunk c w1;
              xs \<leftarrow> chunks (bw_chunks w2) b;
              add_chunk (map_option fst (tail_chunk True xs)) dst w2
            })
         })
      })"

definition bytes_append_raw :: "addr \<Rightarrow> byte list \<Rightarrow> bool \<Rightarrow> bworld \<Rightarrow> bworld option" where
  "bytes_append_raw b raw reuse w =
     (if raw = [] then Some w
      else do {
        frozen \<leftarrow> is_frozen w (Some b);
        (if frozen then Some (bytes_error ValueError w)
         else do {
           let (c, w1) = (if reuse then hlt_bytes_new_from_data raw w else bytes_new_chunk raw w);
           xs \<leftarrow> chunks (bw_chunks w1) (Some b);
           add_chunk (map_option fst (tail_chunk True xs)) c w1
         })
      })"

definition hlt_bytes_append_raw :: "ptr \<Rightarrow> byte list \<Rightarrow> bworld \<Rightarrow> bworld option" where
  "hlt_bytes_append_raw b raw w = (case b of
      None \<Rightarrow> Some (bytes_error NullReference w) | Some a \<Rightarrow> bytes_append_raw a raw True w)"

definition hlt_bytes_append_raw_copy :: "ptr \<Rightarrow> byte list \<Rightarrow> bworld \<Rightarrow> bworld option" where
  "hlt_bytes_append_raw_copy b raw w = (case b of
      None \<Rightarrow> Some (bytes_error NullReference w) | Some a \<Rightarrow> bytes_append_raw a raw False w)"

definition hlt_bytes_concat :: "ptr \<Rightarrow> ptr \<Rightarrow> bworld \<Rightarrow> (ptr \<times> bworld) option" where
  "hlt_bytes_concat b1 b2 w =
     (if b1 = None \<or> b2 = None then Some (None, bytes_error NullReference w)
      else do {
        (len1, w1) \<leftarrow> hlt_bytes_len b1 w;
        (len2, w2) \<leftarrow> hlt_bytes_len b2 w1;
        xs \<leftarrow> chunks (bw_chunks w2) b1;
        ys \<leftarrow> chunks (bw_chunks w2) b2;
        (out, ms) \<leftarrow> copy_chain xs [] NoMarks;
        (out', ms') \<leftarrow> copy_chain ys out ms;
        c \<leftarrow> filled_chunk (nat (len1 + len2)) out' ms';
        let (dst, w3) = alloc_chunk c w2;
        Some (Some dst, w3)
      })"

text \<open>\<^verbatim>\<open>hlt_bytes_copy\<close> does not stop at a separator, whose data pointers are not valid.\<close>

definition hlt_bytes_copy :: "ptr \<Rightarrow> bworld \<Rightarrow> (ptr \<times> bworld) option" where
  "hlt_bytes_copy b w =
     (if b = None then Some (None, bytes_error NullReference w)
      else do {
        (len, w1) \<leftarrow> hlt_bytes_len b w;
        xs \<leftarrow> chunks (bw_chunks w1) b;
        (if \<exists>x \<in> set xs. is_object (snd x) then None
         else do {
           (out, ms) \<leftarrow> copy_chain xs [] NoMarks;
           c \<leftarrow> filled_chunk (nat len) out ms;
           let (dst, w2) = alloc_chunk c w1;
           Some (Some dst, w2)
         })
      })"

section \<open>Iterators\<close>

definition bytes_end :: "ptr \<Rightarrow> bworld \<Rightarrow> (bytes_iter \<times> bworld) option" where
  "bytes_end b w = (case b of
      None \<Rightarrow> Some (generic_end_pos, bytes_error NullReference w)
    | Some _ \<Rightarrow> do {
        xs \<leftarrow> chunks (bw_chunks w) b;
        (t, tc) \<leftarrow> tail_chunk False xs;
        Some (create_iterator (Some t) (bc_end tc), w)
      })"

definition hlt_bytes_end :: "ptr \<Rightarrow> bworld \<Rightarrow> (bytes_iter \<times> bworld) option" where
  "hlt_bytes_end b w = bytes_end b w"

definition bytes_begin :: "ptr \<Rightarrow> bworld \<Rightarrow> (bytes_iter \<times> bworld) option" where
  "bytes_begin b w = do {
     xs \<leftarrow> chunks (bw_chunks w) b;
     (if is_empty_chain False xs then bytes_end b w
      else do {
        i \<leftarrow> normalize_iter w (create_iterator b (bc_start (snd (hd xs))));
        Some (i, w)
      })
   }"

definition hlt_bytes_begin :: "ptr \<Rightarrow> bworld \<Rightarrow> (bytes_iter \<times> bworld) option" where
  "hlt_bytes_begin b w = (if b = None then Some (generic_end_pos, bytes_error NullReference w)
                          else bytes_begin b w)"

definition iter_incr :: "bworld \<Rightarrow> bytes_iter \<Rightarrow> bytes_iter option" where
  "iter_incr w i = do {
     xs \<leftarrow> iter_chunks w i;
     (if is_end_at xs (bi_cur i) then Some i
      else if bi_cur i + 1 < bc_end (snd (hd xs)) then Some (i\<lparr>bi_cur := bi_cur i + 1\<rparr>)
      else if tl xs = [] then Some (i\<lparr>bi_cur := bc_end (snd (hd xs))\<rparr>)
      else Some (create_iterator (Some (fst (hd (tl xs)))) (bc_start (snd (hd (tl xs))))))
   }"

definition raw_deref :: "bworld \<Rightarrow> bytes_iter \<Rightarrow> byte option" where
  "raw_deref w i = do { a \<leftarrow> bi_bytes i; c \<leftarrow> bw_chunks w a; rd (bc_buf c) (bi_cur i) }"

definition iter_deref :: "bytes_iter \<Rightarrow> bworld \<Rightarrow> (byte \<times> bworld) option" where
  "iter_deref i w = do {
     e \<leftarrow> is_end w i;
     (if e then Some (0, bytes_error ValueError w)
      else map_option (\<lambda>b. (b, w)) (raw_deref w i))
   }"

definition iter_eq :: "bworld \<Rightarrow> bytes_iter \<Rightarrow> bytes_iter \<Rightarrow> bool option" where
  "iter_eq w p1 p2 = do {
     e1 \<leftarrow> is_end w p1;
     e2 \<leftarrow> is_end w p2;
     Some (e1 \<and> e2 \<or> p1 = p2)
   }"

definition hlt_iterator_bytes_index :: "bworld \<Rightarrow> bytes_iter \<Rightarrow> int option" where
  "hlt_iterator_bytes_index w i0 = do {
     i \<leftarrow> normalize_iter w i0;
     (case bi_bytes i of
        None \<Rightarrow> Some (-1)
      | Some a \<Rightarrow> do {
          c \<leftarrow> bw_chunks w a;
          Some (if is_object c then bc_offset c
                else bc_offset c + (int (min (bi_cur i) (bc_end c)) - int (bc_start c)))
        })
   }"

definition iter_diff :: "bworld \<Rightarrow> bytes_iter \<Rightarrow> bytes_iter \<Rightarrow> int option" where
  "iter_diff w p1 p2 = do {
     xs \<leftarrow> iter_chunks w p1;
     e2 \<leftarrow> is_end w p2;
     (if is_end_at xs (bi_cur p1) then Some 0
      else if e2 then
        (let c = snd (hd xs) in
         Some (chain_len xs - (int (min (bi_cur p1) (bc_end c)) - int (bc_start c))))
      else do {
        j \<leftarrow> hlt_iterator_bytes_index w p2;
        i \<leftarrow> hlt_iterator_bytes_index w p1;
        Some (if j - i > 0 then j - i else 0)
      })
   }"

definition hlt_iterator_bytes_diff :: "bworld \<Rightarrow> bytes_iter \<Rightarrow> bytes_iter \<Rightarrow> int option" where
  "hlt_iterator_bytes_diff w p1 p2 = do {
     q1 \<leftarrow> normalize_iter w p1; q2 \<leftarrow> normalize_iter w p2; iter_diff w q1 q2 }"

definition hlt_iterator_bytes_eq :: "bworld \<Rightarrow> bytes_iter \<Rightarrow> bytes_iter \<Rightarrow> bool option" where
  "hlt_iterator_bytes_eq w p1 p2 = do {
     q1 \<leftarrow> normalize_iter w p1; q2 \<leftarrow> normalize_iter w p2; iter_eq w q1 q2 }"

definition hlt_iterator_bytes_deref :: "bytes_iter \<Rightarrow> bworld \<Rightarrow> (byte \<times> bworld) option" where
  "hlt_iterator_bytes_deref i w = do { j \<leftarrow> normalize_iter w i; iter_deref j w }"

definition hlt_iterator_bytes_incr :: "bworld \<Rightarrow> bytes_iter \<Rightarrow> bytes_iter option" where
  "hlt_iterator_bytes_incr w i = do { j \<leftarrow> normalize_iter w i; iter_incr w j }"

definition hlt_iterator_bytes_incr_by :: "bworld \<Rightarrow> bytes_iter \<Rightarrow> int \<Rightarrow> bytes_iter option" where
  "hlt_iterator_bytes_incr_by w i n = do { j \<leftarrow> normalize_iter w i; iter_incr_by w j n False }"

definition hlt_iterator_bytes_copy :: "bworld \<Rightarrow> bytes_iter \<Rightarrow> bytes_iter option" where
  "hlt_iterator_bytes_copy w i = do {
     j \<leftarrow> normalize_iter w i;
     e \<leftarrow> is_end w j;
     Some (if e then generic_end_pos else j)
   }"

definition hlt_iterator_bytes_is_frozen :: "bworld \<Rightarrow> bytes_iter \<Rightarrow> bool option" where
  "hlt_iterator_bytes_is_frozen w i = do { j \<leftarrow> normalize_iter w i; is_frozen w (bi_bytes j) }"

definition hlt_bytes_is_frozen :: "ptr \<Rightarrow> bworld \<Rightarrow> (bool \<times> bworld) option" where
  "hlt_bytes_is_frozen b w =
     (if b = None then Some (False, bytes_error NullReference w)
      else map_option (\<lambda>f. (f, w)) (is_frozen w b))"

text \<open>The loop of \<^verbatim>\<open>hlt_bytes_offset\<close>: the chunk that contains offset \<open>p\<close>, or what is missing.\<close>

fun offset_loop :: "chain \<Rightarrow> int \<Rightarrow> (addr \<times> bchunk) option \<times> int" where
  "offset_loop [] p = (None, p)"
| "offset_loop ((a, c) # r) p =
     (if is_object c \<or> p < int (bc_end c) - int (bc_start c) then (Some (a, c), p)
      else offset_loop r (p - (int (bc_end c) - int (bc_start c))))"

definition hlt_bytes_offset :: "ptr \<Rightarrow> int \<Rightarrow> bworld \<Rightarrow> (bytes_iter \<times> bworld) option" where
  "hlt_bytes_offset b p w =
     (if b = None then Some (generic_end_pos, bytes_error NullReference w)
      else if p = 0 then hlt_bytes_begin b w
      else do {
        xs \<leftarrow> chunks (bw_chunks w) b;
        let p1 = (if p < 0 then p + chain_len xs else p);
        (if p1 < 0 then hlt_bytes_end b w
         else (case offset_loop xs p1 of
             (None, rem) \<Rightarrow> do {
               (t, tc) \<leftarrow> tail_chunk False xs;
               Some (create_iterator (Some t) (nat (int (bc_end tc) + rem)), w)
             }
           | (Some (a, c), rem) \<Rightarrow> Some (create_iterator (Some a) (nat (int (bc_start c) + rem)), w)))
      })"

section \<open>Searching\<close>

text \<open>\<^verbatim>\<open>memchr\<close> over the positions \<open>s\<close> up to \<open>e\<close> of a buffer.\<close>

definition memchr :: "byte list \<Rightarrow> nat \<Rightarrow> nat \<Rightarrow> byte \<Rightarrow> nat option option" where
  "memchr buf s e chr =
     (if s \<le> e \<and> e \<le> length buf then Some (List.find (\<lambda>k. buf ! k = chr) [s..<e]) else None)"

fun find_byte_loop :: "chain \<Rightarrow> byte \<Rightarrow> bytes_iter option" where
  "find_byte_loop [] chr = Some generic_end_pos"
| "find_byte_loop ((a, c) # r) chr =
     (if is_object c then Some generic_end_pos
      else do {
        m \<leftarrow> memchr (bc_buf c) (bc_start c) (bc_end c) chr;
        (case m of Some k \<Rightarrow> Some (create_iterator (Some a) k) | None \<Rightarrow> find_byte_loop r chr)
      })"

definition hlt_bytes_find_byte :: "ptr \<Rightarrow> byte \<Rightarrow> bworld \<Rightarrow> (bytes_iter \<times> bworld) option" where
  "hlt_bytes_find_byte b chr w =
     (if b = None then Some (generic_end_pos, bytes_error NullReference w)
      else do {
        xs \<leftarrow> chunks (bw_chunks w) b;
        i \<leftarrow> find_byte_loop xs chr;
        Some (i, w)
      })"

text \<open>
  \<^verbatim>\<open>__hlt_bytes_find_byte_from\<close>. The variable that the loop over the subsequent chunks sets
  is local to the loop body and shadows the one that is tested afterwards, so only a byte of the
  first chunk is found.
\<close>

definition find_byte_from :: "bytes_iter \<Rightarrow> byte \<Rightarrow> bworld \<Rightarrow> (bytes_iter \<times> bworld) option" where
  "find_byte_from i chr w = do {
     b \<leftarrow> bi_bytes i;
     c \<leftarrow> bw_chunks w b;
     (if is_object c then None
      else do {
        m \<leftarrow> memchr (bc_buf c) (bi_cur i) (bc_end c) chr;
        (case m of
           Some k \<Rightarrow> Some (create_iterator (Some b) k, w)
         | None \<Rightarrow> bytes_end (Some b) w)
      })
   }"

text \<open>The result of \<^verbatim>\<open>__hlt_bytes_match_at\<close>: 0, 1, or -1 when the input ran out.\<close>

datatype match_result = NoMatch | Match | MoreInput

partial_function (option) match_loop ::
  "bworld \<Rightarrow> bytes_iter \<Rightarrow> bytes_iter \<Rightarrow> match_result option" where
  "match_loop w c1 c2 = do {
     b1 \<leftarrow> raw_deref w c1;
     b2 \<leftarrow> raw_deref w c2;
     (if b1 \<noteq> b2 then Some NoMatch
      else do {
        d1 \<leftarrow> iter_incr w c1;
        d2 \<leftarrow> iter_incr w c2;
        e2 \<leftarrow> is_end w d2;
        (if e2 then Some Match
         else do {
           e1 \<leftarrow> is_end w d1;
           (if e1 then Some MoreInput else match_loop w d1 d2)
         })
      })
   }"

declare match_loop.simps [code]

definition match_at :: "bytes_iter \<Rightarrow> ptr \<Rightarrow> bworld \<Rightarrow> match_result option" where
  "match_at p b w = do {
     e \<leftarrow> is_end w p;
     xs \<leftarrow> chunks (bw_chunks w) b;
     (if e then Some (if is_empty_chain False xs then Match else NoMatch)
      else if is_empty_chain False xs then Some NoMatch
      else do {
        (c2, _) \<leftarrow> bytes_begin b w;
        match_loop w p c2
      })
   }"

definition hlt_bytes_match_at :: "bytes_iter \<Rightarrow> ptr \<Rightarrow> bworld \<Rightarrow> (bool \<times> bworld) option" where
  "hlt_bytes_match_at p b w =
     (if b = None then Some (False, bytes_error NullReference w)
      else do {
        q \<leftarrow> normalize_iter w p;
        r \<leftarrow> match_at q b w;
        Some (r = Match, w)
      })"

partial_function (option) find_bytes_loop ::
  "bytes_iter \<Rightarrow> byte \<Rightarrow> ptr \<Rightarrow> ptr \<Rightarrow> bworld \<Rightarrow> (bool \<times> bytes_iter \<times> bworld) option" where
  "find_bytes_loop i chr b oth w = do {
     (p, w1) \<leftarrow> find_byte_from i chr w;
     e \<leftarrow> is_end w1 p;
     (if e then do { (q, w2) \<leftarrow> bytes_end b w1; Some (False, q, w2) }
      else do {
        (m, w2) \<leftarrow> hlt_bytes_match_at p oth w1;
        (if m then Some (True, p, w2)
         else do {
           j \<leftarrow> iter_incr w2 i;
           e2 \<leftarrow> is_end w2 j;
           (if e2 then do { (q, w3) \<leftarrow> bytes_end b w2; Some (False, q, w3) }
            else find_bytes_loop j chr b oth w2)
         })
      })
   }"

declare find_bytes_loop.simps [code]

definition find_bytes :: "ptr \<Rightarrow> ptr \<Rightarrow> bworld \<Rightarrow> (bool \<times> bytes_iter \<times> bworld) option" where
  "find_bytes b oth w = do {
     ys \<leftarrow> chunks (bw_chunks w) oth;
     (if is_empty_chain False ys then do { (p, w1) \<leftarrow> bytes_begin b w; Some (True, p, w1) }
      else do {
        (begin, w1) \<leftarrow> bytes_begin oth w;
        (_, w2) \<leftarrow> bytes_end oth w1;
        chr \<leftarrow> raw_deref w2 begin;
        (i, w3) \<leftarrow> bytes_begin b w2;
        find_bytes_loop i chr b oth w3
      })
   }"

definition hlt_bytes_contains_bytes :: "ptr \<Rightarrow> ptr \<Rightarrow> bworld \<Rightarrow> (bool \<times> bworld) option" where
  "hlt_bytes_contains_bytes b oth w =
     (if b = None \<or> oth = None then Some (False, bytes_error NullReference w)
      else do { (r, _, w1) \<leftarrow> find_bytes b oth w; Some (r, w1) })"

definition hlt_bytes_find_bytes :: "ptr \<Rightarrow> ptr \<Rightarrow> bworld \<Rightarrow> (bytes_iter \<times> bworld) option" where
  "hlt_bytes_find_bytes b oth w =
     (if b = None \<or> oth = None then Some (generic_end_pos, bytes_error NullReference w)
      else do { (_, p, w1) \<leftarrow> find_bytes b oth w; Some (p, w1) })"

partial_function (option) find_at_iter_loop ::
  "bytes_iter \<Rightarrow> byte \<Rightarrow> ptr \<Rightarrow> bworld \<Rightarrow> (bool \<times> bytes_iter \<times> bworld) option" where
  "find_at_iter_loop i chr needle w = do {
     (p, w1) \<leftarrow> find_byte_from i chr w;
     e \<leftarrow> is_end w1 p;
     (if e then Some (False, p, w1)
      else do {
        rc \<leftarrow> match_at p needle w1;
        (case rc of
           Match \<Rightarrow> Some (True, p, w1)
         | MoreInput \<Rightarrow> Some (False, p, w1)
         | NoMatch \<Rightarrow> do {
             j \<leftarrow> iter_incr w1 p;
             e2 \<leftarrow> is_end w1 j;
             (if e2 then Some (False, j, w1) else find_at_iter_loop j chr needle w1)
           })
      })
   }"

declare find_at_iter_loop.simps [code]

definition hlt_bytes_find_bytes_at_iter ::
  "bytes_iter \<Rightarrow> ptr \<Rightarrow> bworld \<Rightarrow> (bool \<times> bytes_iter \<times> bworld) option" where
  "hlt_bytes_find_bytes_at_iter i needle w =
     (if needle = None then Some (False, generic_end_pos, bytes_error NullReference w)
      else do {
        ys \<leftarrow> chunks (bw_chunks w) needle;
        (if is_empty_chain False ys then Some (True, i, w)
         else do {
           (nbegin, w1) \<leftarrow> bytes_begin needle w;
           chr \<leftarrow> raw_deref w1 nbegin;
           j \<leftarrow> normalize_iter w1 i;
           find_at_iter_loop j chr needle w1
         })
      })"

section \<open>Sub-sequences\<close>

text \<open>
  \<^verbatim>\<open>__hlt_bytes_sub_raw_internal\<close>. The result says whether the returned pointer is
  non-null, and gives the bytes and marks written; \<open>marks\<close> is \<^term>\<open>None\<close> for a null pointer.
\<close>

fun sub_marks :: "marks option \<Rightarrow> bchunk \<Rightarrow> nat option \<Rightarrow> nat option \<Rightarrow> int \<Rightarrow> marks option option" where
  "sub_marks None c frst lst adj = Some None"
| "sub_marks (Some ms) c frst lst adj = map_option Some (copy_marks ms c frst lst adj)"

fun sub_blocks ::
  "chain \<Rightarrow> ptr \<Rightarrow> bool \<Rightarrow> nat \<Rightarrow> byte list \<Rightarrow> marks option \<Rightarrow> (byte list \<times> marks option \<times> chain) option" where
  "sub_blocks [] p2 p2_is_end bsize out ms = Some (out, ms, [])"
| "sub_blocks ((a, c) # r) p2 p2_is_end bsize out ms =
     (if (Some a \<noteq> p2 \<or> p2_is_end) \<and> \<not> is_object c then do {
        ms1 \<leftarrow> sub_marks ms c None None (int (length out));
        d \<leftarrow> slice (bc_buf c) (bc_start c) (bc_start c + min (bc_end c - bc_start c) (bsize - length out));
        sub_blocks r p2 p2_is_end bsize (out @ d) ms1
      } else Some (out, ms, (a, c) # r))"

text \<open>
  In the last block the code passes the position of the first iterator, a pointer into another
  buffer, as the limit up to which marks are copied: undefined when there are marks to copy.
\<close>

definition sub_last ::
  "bchunk \<Rightarrow> nat \<Rightarrow> nat \<Rightarrow> byte list \<Rightarrow> marks option \<Rightarrow> (byte list \<times> marks option) option" where
  "sub_last c k bsize out ms =
     (if k < bc_start c \<or> ms \<noteq> None \<and> bc_marks c \<noteq> NoMarks then None
      else do {
        d \<leftarrow> slice (bc_buf c) (bc_start c) (bc_start c + min (k - bc_start c) (bsize - length out));
        Some (out @ d, ms)
      })"

definition sub_raw_internal ::
  "marks option \<Rightarrow> nat \<Rightarrow> nat \<Rightarrow> bytes_iter \<Rightarrow> bytes_iter \<Rightarrow> bworld
   \<Rightarrow> (bool \<times> byte list \<times> marks option \<times> bworld) option" where
  "sub_raw_internal ms bsize len p1 p2_in w =
     (if bsize = 0 then Some (len = 0, [], ms, w)
      else if len = 0 then Some (True, [], ms, w)
      else do {
        xs \<leftarrow> iter_chunks w p1;
        (if is_end_at xs (bi_cur p1) \<and> \<not> (xs \<noteq> [] \<and> is_object (snd (hd xs)))
         then Some (False, [], ms, bytes_error ValueError w)
         else do {
           (p2, w1) \<leftarrow> (if bi_bytes p2_in = None then bytes_end (bi_bytes p1) w else Some (p2_in, w));
           let c1 = snd (hd xs);
           (if is_object c1 then None
            else if bi_bytes p1 = bi_bytes p2 then do {
              d \<leftarrow> (if bi_cur p2 < bi_cur p1 then None
                    else slice (bc_buf c1) (bi_cur p1) (bi_cur p1 + min (bi_cur p2 - bi_cur p1) bsize));
              ms1 \<leftarrow> sub_marks ms c1 (Some (bi_cur p1)) (Some (bi_cur p2)) (int (bc_start c1) - int (bi_cur p1));
              Some (bsize \<le> len, d, ms1, w1)
            } else do {
              let n = min (bc_end c1 - bi_cur p1) bsize;
              ms1 \<leftarrow> (if n \<noteq> 0 then sub_marks ms c1 (Some (bi_cur p1)) None (int (bc_start c1) - int (bi_cur p1))
                      else Some ms);
              d \<leftarrow> slice (bc_buf c1) (bi_cur p1) (bi_cur p1 + n);
              p2_is_end \<leftarrow> is_end w1 p2;
              (out, ms2, r) \<leftarrow> sub_blocks (tl xs) (bi_bytes p2) p2_is_end bsize d ms1;
              (if r \<noteq> [] \<and> \<not> is_object (snd (hd r)) then do {
                 (out', ms3) \<leftarrow> sub_last (snd (hd r)) (bi_cur p2) bsize out ms2;
                 Some (bsize \<le> len, out', ms3, w1)
               } else if \<not> p2_is_end \<and> r = [] then
                 Some (False, out, ms2, bytes_error ValueError w1)
               else Some (bsize \<le> len, out, ms2, w1))
            })
         })
      })"

definition hlt_bytes_sub :: "bytes_iter \<Rightarrow> bytes_iter \<Rightarrow> bworld \<Rightarrow> (ptr \<times> bworld) option" where
  "hlt_bytes_sub p1 p2 w = do {
     q1 \<leftarrow> normalize_iter w p1;
     q2 \<leftarrow> normalize_iter w p2;
     len \<leftarrow> iter_diff w q1 q2;
     (if len = 0 then (let (dst, w1) = bytes_new_chunk [] w in Some (Some dst, w1))
      else do {
        (ok, out, ms, w1) \<leftarrow> sub_raw_internal (Some NoMarks) (nat len) (nat len) q1 q2 w;
        (if ok then do {
           m \<leftarrow> ms;
           c \<leftarrow> filled_chunk (nat len) out m;
           let (dst, w2) = alloc_chunk c w1;
           Some (Some dst, w2)
         } else Some (None, w1))
      })
   }"

text \<open>The bytes written to the caller's buffer, and whether the buffer is returned.\<close>

definition hlt_bytes_sub_raw ::
  "nat \<Rightarrow> bytes_iter \<Rightarrow> bytes_iter \<Rightarrow> bworld \<Rightarrow> (bool \<times> byte list \<times> bworld) option" where
  "hlt_bytes_sub_raw dst_len p1 p2 w = do {
     q1 \<leftarrow> normalize_iter w p1;
     q2 \<leftarrow> normalize_iter w p2;
     len \<leftarrow> iter_diff w q1 q2;
     (ok, out, _, w1) \<leftarrow> sub_raw_internal None dst_len (nat len) q1 q2 w;
     Some (ok, out, w1)
   }"

definition hlt_bytes_to_raw :: "nat \<Rightarrow> ptr \<Rightarrow> bworld \<Rightarrow> (bool \<times> byte list \<times> bworld) option" where
  "hlt_bytes_to_raw dst_len b w =
     (if b = None then Some (False, [], bytes_error NullReference w)
      else do {
        (begin, w1) \<leftarrow> bytes_begin b w;
        (en, w2) \<leftarrow> bytes_end b w1;
        hlt_bytes_sub_raw dst_len begin en w2
      })"

section \<open>Freezing, trimming, extracting\<close>

definition freeze_chain :: "bool \<Rightarrow> chain \<Rightarrow> (addr \<rightharpoonup> bchunk) \<Rightarrow> (addr \<rightharpoonup> bchunk)" where
  "freeze_chain freeze xs h = fold (\<lambda>(a, c) h. h(a \<mapsto> c\<lparr>bc_frozen := freeze\<rparr>)) xs h"

definition hlt_bytes_freeze :: "ptr \<Rightarrow> bool \<Rightarrow> bworld \<Rightarrow> bworld option" where
  "hlt_bytes_freeze b freeze w =
     (if b = None then Some (bytes_error NullReference w)
      else do {
        xs \<leftarrow> chunks (bw_chunks w) b;
        Some (w\<lparr>bw_chunks := freeze_chain freeze xs (bw_chunks w)\<rparr>)
      })"

text \<open>
  Trimming past the first chunk keeps that chunk, emptied, and frees its data and marks when they
  were allocated separately; the marks pointer is left dangling.
\<close>

definition hlt_bytes_trim :: "addr \<Rightarrow> bytes_iter \<Rightarrow> bworld \<Rightarrow> bworld option" where
  "hlt_bytes_trim b p0 w = do {
     p \<leftarrow> normalize_iter w p0;
     e \<leftarrow> is_end w p;
     ob \<leftarrow> at_object w p;
     (if e \<and> \<not> ob then Some w
      else do {
        bc \<leftarrow> bw_chunks w b;
        (if bi_bytes p = Some b then
           Some (w\<lparr>bw_chunks := (bw_chunks w)(b \<mapsto>
              bc\<lparr>bc_offset := bc_offset bc + (int (bi_cur p) - int (bc_start bc)), bc_start := bi_cur p\<rparr>)\<rparr>)
         else do {
           xs \<leftarrow> chunks (bw_chunks w) (Some b);
           (case pred_chunk xs (bi_bytes p) of
              None \<Rightarrow> Some (bytes_error ValueError w)
            | Some _ \<Rightarrow> do {
                n \<leftarrow> bi_bytes p;
                nc \<leftarrow> bw_chunks w n;
                let nc1 = nc\<lparr>bc_offset := bc_offset nc + (int (bi_cur p) - int (bc_start nc)), bc_start := bi_cur p\<rparr>;
                let bc1 = bc\<lparr>bc_offset := bc_offset bc + (if is_object bc then 0 else int (bc_end bc) - int (bc_start bc)),
                             bc_start := bc_end bc, bc_next := bi_bytes p\<rparr>;
                let bc2 = (if is_object bc then bc1
                           else if bc_to_free bc then
                             bc1\<lparr>bc_to_free := False, bc_buf := replicate (bc_end bc) 0,
                                 bc_marks := (if bc_marks bc = NoMarks then NoMarks else FreedMarks)\<rparr>
                           else bc1);
                Some (w\<lparr>bw_chunks := (bw_chunks w)(n \<mapsto> nc1, b \<mapsto> bc2)\<rparr>)
              })
         })
      })
   }"

definition extract_one_slowpath :: "bytes_iter \<Rightarrow> bytes_iter \<Rightarrow> bworld \<Rightarrow> (byte \<times> bytes_iter \<times> bworld) option" where
  "extract_one_slowpath p en w =
     (if bi_bytes p = None then None
      else do {
        q \<leftarrow> normalize_iter_hilti w p;
        e \<leftarrow> normalize_iter w en;
        at_end \<leftarrow> is_end w q;
        same \<leftarrow> hlt_iterator_bytes_eq w q e;
        (if at_end \<or> same then Some (0, q, bytes_error WouldBlock w)
         else do {
           (b, w1) \<leftarrow> iter_deref q w;
           q1 \<leftarrow> iter_incr w1 q;
           Some (b, q1, w1)
         })
      })"

definition extract_one :: "bytes_iter \<Rightarrow> bytes_iter \<Rightarrow> bworld \<Rightarrow> (byte \<times> bytes_iter \<times> bworld) option" where
  "extract_one p en w = (case bi_bytes p of
      None \<Rightarrow> extract_one_slowpath p en w
    | Some a \<Rightarrow> do {
        c \<leftarrow> bw_chunks w a;
        (if \<not> is_object c \<and>
            ((bi_bytes p = bi_bytes en \<and> bi_cur p + 1 < bi_cur en) \<or>
             (bi_bytes p \<noteq> bi_bytes en \<and> bi_cur p + 1 < bc_end c))
         then map_option (\<lambda>b. (b, p\<lparr>bi_cur := bi_cur p + 1\<rparr>, w)) (rd (bc_buf c) (bi_cur p))
         else extract_one_slowpath p en w)
      })"

section \<open>Comparison and conversion\<close>

partial_function (option) cmp_loop :: "bytes_iter \<Rightarrow> bytes_iter \<Rightarrow> bworld \<Rightarrow> (int \<times> bworld) option" where
  "cmp_loop p1 p2 w = do {
     e1 \<leftarrow> is_end w p1;
     e2 \<leftarrow> is_end w p2;
     (if e1 then Some (if e2 then 0 else 1, w)
      else if e2 then Some (-1, w)
      else do {
        (c1, w1) \<leftarrow> iter_deref p1 w;
        (c2, w2) \<leftarrow> iter_deref p2 w1;
        (if c1 \<noteq> c2 then Some (if sint c1 > sint c2 then -1 else 1, w2)
         else do {
           q1 \<leftarrow> iter_incr w2 p1;
           q2 \<leftarrow> iter_incr w2 p2;
           cmp_loop q1 q2 w2
         })
      })
   }"

declare cmp_loop.simps [code]

definition hlt_bytes_cmp :: "ptr \<Rightarrow> ptr \<Rightarrow> bworld \<Rightarrow> (int \<times> bworld) option" where
  "hlt_bytes_cmp b1 b2 w =
     (if b1 = None \<or> b2 = None then Some (0, bytes_error NullReference w)
      else do {
        xs \<leftarrow> chunks (bw_chunks w) b1;
        ys \<leftarrow> chunks (bw_chunks w) b2;
        (if is_empty_chain False xs then Some (if is_empty_chain False ys then 0 else 1, w)
         else if is_empty_chain False ys then Some (if is_empty_chain False xs then 0 else -1, w)
         else do {
           (p1, w1) \<leftarrow> bytes_begin b1 w;
           (p2, w2) \<leftarrow> bytes_begin b2 w1;
           cmp_loop p1 p2 w2
         })
      })"

text \<open>\<^verbatim>\<open>hlt_bytes_equal\<close> discards the exception of the comparison.\<close>

definition hlt_bytes_equal :: "ptr \<Rightarrow> ptr \<Rightarrow> bworld \<Rightarrow> bool option" where
  "hlt_bytes_equal b1 b2 w = map_option (\<lambda>r. fst r = 0) (hlt_bytes_cmp b1 b2 w)"

definition isdigit :: "byte \<Rightarrow> bool" where
  "isdigit c \<longleftrightarrow> 48 \<le> sint c \<and> sint c \<le> 57"

definition isupper :: "byte \<Rightarrow> bool" where
  "isupper c \<longleftrightarrow> 65 \<le> sint c \<and> sint c \<le> 90"

definition islower :: "byte \<Rightarrow> bool" where
  "islower c \<longleftrightarrow> 97 \<le> sint c \<and> sint c \<le> 122"

definition isspace :: "byte \<Rightarrow> bool" where
  "isspace c \<longleftrightarrow> sint c = 32 \<or> 9 \<le> sint c \<and> sint c \<le> 13"

definition toupper :: "byte \<Rightarrow> byte" where
  "toupper c = (if islower c then c - 32 else c)"

definition tolower :: "byte \<Rightarrow> byte" where
  "tolower c = (if isupper c then c + 32 else c)"

definition in_int64 :: "int \<Rightarrow> bool" where
  "in_int64 v \<longleftrightarrow> - (2 ^ 63) \<le> v \<and> v < 2 ^ 63"

text \<open>
  The loop of \<^verbatim>\<open>hlt_bytes_to_int\<close>: signed overflow is undefined. \<open>t\<close> keeps its value
  across iterations, as in the code, where a leading minus sign leaves it at 0.
\<close>

partial_function (option) to_int_loop ::
  "bytes_iter \<Rightarrow> int \<Rightarrow> int \<Rightarrow> int \<Rightarrow> bool \<Rightarrow> bool \<Rightarrow> bworld \<Rightarrow> (int \<times> bworld) option" where
  "to_int_loop i base v t frst negate w = do {
     e \<leftarrow> is_end w i;
     (if e then (if negate then (if in_int64 (- v) then Some (- v, w) else None) else Some (v, w))
      else do {
        (ch, w1) \<leftarrow> iter_deref i w;
        (if \<not> (isdigit ch \<or> isupper ch \<or> islower ch \<or> frst \<and> ch = 45)
         then Some (0, bytes_error ValueError w1)
         else do {
           let t1 = (if isdigit ch then sint ch - 48
                     else if isupper ch \<or> islower ch then 10 + sint (tolower ch) - 97
                     else t);
           let negate1 = (negate \<or> \<not> (isdigit ch \<or> isupper ch \<or> islower ch));
           (if t1 \<ge> base then Some (0, bytes_error ValueError w1)
            else do {
              let v1 = v * base + t1;
              (if \<not> in_int64 v1 then None
               else do {
                 j \<leftarrow> iter_incr w1 i;
                 to_int_loop j base v1 t1 False negate1 w1
               })
            })
         })
      })
   }"

declare to_int_loop.simps [code]

definition hlt_bytes_to_int :: "ptr \<Rightarrow> int \<Rightarrow> bworld \<Rightarrow> (int \<times> bworld) option" where
  "hlt_bytes_to_int b base w =
     (if b = None then Some (0, bytes_error NullReference w)
      else do { (cur, w1) \<leftarrow> bytes_begin b w; to_int_loop cur base 0 0 True False w1 })"

text \<open>The bytes of a 64-bit word, least significant first, and their reversal \<^verbatim>\<open>hlt_flip64\<close>.\<close>

definition byte_of :: "64 word \<Rightarrow> nat \<Rightarrow> byte" where
  "byte_of v k = ucast (drop_bit (8 * k) v)"

definition word_of_bytes :: "byte list \<Rightarrow> 64 word" where
  "word_of_bytes bs = foldr (\<lambda>b v. or (ucast b) (push_bit 8 v)) bs 0"

definition hlt_flip64 :: "64 word \<Rightarrow> 64 word" where
  "hlt_flip64 v = word_of_bytes (map (byte_of v) [7, 6, 5, 4, 3, 2, 1, 0])"

text \<open>A shift by 64 (\<open>n = 0\<close>) or by a negative amount is undefined.\<close>

definition hlt_int_flip :: "64 word \<Rightarrow> nat \<Rightarrow> 64 word option" where
  "hlt_int_flip v n = (if 1 \<le> n \<and> n \<le> 8 then Some (drop_bit (64 - n * 8) (hlt_flip64 v)) else None)"

definition byte_order_little :: hlt_enum where
  "byte_order_little = ELabel ''Little''"

partial_function (option) to_binary_loop :: "bytes_iter \<Rightarrow> 64 word \<Rightarrow> bworld \<Rightarrow> (64 word \<times> bworld) option" where
  "to_binary_loop i v w = do {
     e \<leftarrow> is_end w i;
     (if e then Some (v, w)
      else do {
        (ch, w1) \<leftarrow> iter_deref i w;
        j \<leftarrow> iter_incr w1 i;
        to_binary_loop j (or (push_bit 8 v) (ucast ch)) w1
      })
   }"

declare to_binary_loop.simps [code]

definition hlt_bytes_to_uint_binary :: "ptr \<Rightarrow> hlt_enum \<Rightarrow> bworld \<Rightarrow> (64 word \<times> bworld) option" where
  "hlt_bytes_to_uint_binary b byte_order w =
     (if b = None then Some (0, bytes_error NullReference w)
      else do {
        (len, w1) \<leftarrow> hlt_bytes_len b w;
        (if len > 8 then Some (0, bytes_error ValueError w1)
         else do {
           (cur, w2) \<leftarrow> bytes_begin b w1;
           (i, w3) \<leftarrow> to_binary_loop cur 0 w2;
           (if hlt_enum_equal byte_order byte_order_little
            then map_option (\<lambda>j. (j, w3)) (hlt_int_flip i (nat len)) else Some (i, w3))
         })
      })"

text \<open>
  \<^verbatim>\<open>hlt_bytes_to_int_binary\<close> extends the sign of the top bit; for an empty bytes object it
  shifts by -1, which is undefined.
\<close>

definition hlt_bytes_to_int_binary :: "ptr \<Rightarrow> hlt_enum \<Rightarrow> bworld \<Rightarrow> (64 word \<times> bworld) option" where
  "hlt_bytes_to_int_binary b byte_order w =
     (if b = None then Some (0, bytes_error NullReference w)
      else do {
        (len, w1) \<leftarrow> hlt_bytes_len b w;
        (if len > 8 then Some (0, bytes_error ValueError w1)
         else do {
           (i, w2) \<leftarrow> hlt_bytes_to_uint_binary b byte_order w1;
           (if len = 0 then None
            else if bit i (nat len * 8 - 1)
            then (if len = 8 then Some (- (not i + 1), w2)
                  else Some (- (xor i (push_bit (nat len * 8) 1 - 1)) - 1, w2))
            else Some (i, w2))
         })
      })"

fun map_chain :: "(byte \<Rightarrow> byte) \<Rightarrow> chain \<Rightarrow> byte list \<Rightarrow> marks \<Rightarrow> (byte list \<times> marks) option" where
  "map_chain f [] out ms = Some (out, ms)"
| "map_chain f ((a, c) # r) out ms =
     (if is_object c then Some (out, ms)
      else do {
        ms1 \<leftarrow> copy_marks ms c None None (int (length out));
        d \<leftarrow> slice (bc_buf c) (bc_start c) (bc_end c);
        map_chain f r (out @ map f d) ms1
      })"

definition bytes_map :: "(byte \<Rightarrow> byte) \<Rightarrow> ptr \<Rightarrow> bworld \<Rightarrow> (ptr \<times> bworld) option" where
  "bytes_map f b w =
     (if b = None then Some (None, bytes_error NullReference w)
      else do {
        (len, w1) \<leftarrow> hlt_bytes_len b w;
        xs \<leftarrow> chunks (bw_chunks w1) b;
        (out, ms) \<leftarrow> map_chain f xs [] NoMarks;
        c \<leftarrow> filled_chunk (nat len) out ms;
        let (dst, w2) = alloc_chunk c w1;
        Some (Some dst, w2)
      })"

definition hlt_bytes_upper :: "ptr \<Rightarrow> bworld \<Rightarrow> (ptr \<times> bworld) option" where
  "hlt_bytes_upper b w = bytes_map toupper b w"

definition hlt_bytes_lower :: "ptr \<Rightarrow> bworld \<Rightarrow> (ptr \<times> bworld) option" where
  "hlt_bytes_lower b w = bytes_map tolower b w"

partial_function (option) starts_with_loop :: "bytes_iter \<Rightarrow> bytes_iter \<Rightarrow> bworld \<Rightarrow> (bool \<times> bworld) option" where
  "starts_with_loop cur_b cur_s w = do {
     e \<leftarrow> is_end w cur_s;
     (if e then Some (True, w)
      else do {
        (c1, w1) \<leftarrow> iter_deref cur_b w;
        (c2, w2) \<leftarrow> iter_deref cur_s w1;
        (if c1 \<noteq> c2 then Some (False, w2)
         else do {
           i \<leftarrow> iter_incr w2 cur_b;
           j \<leftarrow> iter_incr w2 cur_s;
           starts_with_loop i j w2
         })
      })
   }"

declare starts_with_loop.simps [code]

definition hlt_bytes_starts_with :: "ptr \<Rightarrow> ptr \<Rightarrow> bworld \<Rightarrow> (bool \<times> bworld) option" where
  "hlt_bytes_starts_with b s w =
     (if b = None \<or> s = None then Some (False, bytes_error NullReference w)
      else do {
        (len_b, w1) \<leftarrow> hlt_bytes_len b w;
        (len_s, w2) \<leftarrow> hlt_bytes_len s w1;
        (if len_s > len_b then Some (False, w2)
         else do {
           (cur_b, w3) \<leftarrow> bytes_begin b w2;
           (cur_s, w4) \<leftarrow> bytes_begin s w3;
           starts_with_loop cur_b cur_s w4
         })
      })"

section \<open>Splitting and stripping\<close>

text \<open>
  The positions of a chain up to the first separator, in the order in which a loop over the chunks
  with an inner loop over a chunk's data visits them.
\<close>

fun positions :: "chain \<Rightarrow> (addr \<times> nat \<times> byte) list" where
  "positions [] = []"
| "positions ((a, c) # r) =
     (if is_object c then [] else map (\<lambda>k. (a, k, bc_buf c ! k)) [bc_start c..<bc_end c] @ positions r)"

fun drop_to :: "(byte \<Rightarrow> bool) \<Rightarrow> (addr \<times> nat \<times> byte) list \<Rightarrow> (addr \<times> nat \<times> byte) list" where
  "drop_to P [] = []"
| "drop_to P ((a, k, c) # r) = (if P c then (a, k, c) # r else drop_to P r)"

text \<open>White space: the iterators of the first space and of the first other byte behind it.\<close>

definition split_at_space :: "bworld \<Rightarrow> chain \<Rightarrow> (bytes_iter \<times> bytes_iter) option option" where
  "split_at_space w xs =
     (case drop_to isspace (positions xs) of
        [] \<Rightarrow> Some None
      | (a, k, _) # r \<Rightarrow>
          let i = create_iterator (Some a) k in
          (case drop_to (\<lambda>c. \<not> isspace c) r of
             [] \<Rightarrow> map_option (\<lambda>j. Some (i, j)) (iter_incr w i)
           | (b, l, _) # _ \<Rightarrow> Some (Some (i, create_iterator (Some b) l))))"

definition split1 :: "ptr \<Rightarrow> ptr \<Rightarrow> bworld \<Rightarrow> (bool \<times> ptr \<times> ptr \<times> bworld) option" where
  "split1 b sep w = do {
     (sep_len, w1) \<leftarrow> hlt_bytes_len sep w;
     xs \<leftarrow> chunks (bw_chunks w1) b;
     (ij, w2) \<leftarrow> (if sep_len \<noteq> 0 then do {
          (_, i, w2) \<leftarrow> find_bytes b sep w1;
          e \<leftarrow> is_end w2 i;
          (if e then Some (None, w2)
           else do { j \<leftarrow> iter_incr_by w2 i sep_len False; Some (Some (i, j), w2) })
        } else map_option (\<lambda>r. (r, w1)) (split_at_space w1 xs));
     (case ij of
        None \<Rightarrow> (let (e, w3) = hlt_bytes_new w2 in Some (False, b, Some e, w3))
      | Some (i, j) \<Rightarrow> do {
          (begin, w3) \<leftarrow> bytes_begin b w2;
          (en, w4) \<leftarrow> bytes_end b w3;
          (first, w5) \<leftarrow> hlt_bytes_sub begin i w4;
          (second, w6) \<leftarrow> hlt_bytes_sub j en w5;
          Some (True, first, second, w6)
        })
   }"

definition hlt_bytes_split1 :: "ptr \<Rightarrow> ptr \<Rightarrow> bworld \<Rightarrow> (ptr \<times> ptr \<times> bworld) option" where
  "hlt_bytes_split1 b sep w = do { (_, r) \<leftarrow> split1 b sep w; Some r }"

text \<open>\<^verbatim>\<open>hlt_bytes_split\<close>; the vector of parts is a list.\<close>

partial_function (option) split_loop :: "ptr \<Rightarrow> ptr \<Rightarrow> ptr list \<Rightarrow> bworld \<Rightarrow> (ptr list \<times> bworld) option" where
  "split_loop b sep v w = do {
     (found, first, second, w1) \<leftarrow> split1 b sep w;
     (if \<not> found then Some (v @ [b], w1) else split_loop second sep (v @ [first]) w1)
   }"

declare split_loop.simps [code]

definition hlt_bytes_split :: "ptr \<Rightarrow> ptr \<Rightarrow> bworld \<Rightarrow> (ptr list \<times> bworld) option" where
  "hlt_bytes_split b sep w = (let (_, w1) = hlt_bytes_new w in split_loop b sep [] w1)"

definition strip_it :: "(addr \<rightharpoonup> bchunk) \<Rightarrow> ptr \<Rightarrow> byte \<Rightarrow> bool option" where
  "strip_it h pat ch = (case pat of
      None \<Rightarrow> Some (isspace ch)
    | Some _ \<Rightarrow> map_option (\<lambda>xs. ch \<in> (snd \<circ> snd) ` set (positions xs)) (chunks h pat))"

definition side_left :: hlt_enum where "side_left = ELabel ''Left''"
definition side_right :: hlt_enum where "side_right = ELabel ''Right''"
definition side_both :: hlt_enum where "side_both = ELabel ''Both''"

fun find_kept :: "(byte \<Rightarrow> bool option) \<Rightarrow> (addr \<times> nat \<times> byte) list \<Rightarrow> (addr \<times> nat) option option" where
  "find_kept P [] = Some None"
| "find_kept P ((a, k, c) # r) = do { s \<leftarrow> P c; (if \<not> s then Some (Some (a, k)) else find_kept P r) }"

text \<open>
  When every byte is stripped, the left loop ends behind the last data chunk and the right loop at a
  null chunk.
\<close>

definition strip_calc_iters :: "ptr \<Rightarrow> hlt_enum \<Rightarrow> ptr \<Rightarrow> bworld \<Rightarrow> (bytes_iter \<times> bytes_iter) option" where
  "strip_calc_iters b side pat w = do {
     xs \<leftarrow> chunks (bw_chunks w) b;
     start \<leftarrow> (if hlt_enum_equal side side_left \<or> hlt_enum_equal side side_both then do {
          f \<leftarrow> find_kept (strip_it (bw_chunks w) pat) (positions xs);
          Some (case f of
              Some (a, k) \<Rightarrow> create_iterator (Some a) k
            | None \<Rightarrow> (case dropWhile (\<lambda>x. \<not> is_object (snd x)) xs of
                          [] \<Rightarrow> generic_end_pos | x # _ \<Rightarrow> create_iterator (Some (fst x)) 0))
        } else (case xs of [] \<Rightarrow> None | x # _ \<Rightarrow> Some (create_iterator b (bc_start (snd x)))));
     en \<leftarrow> (if hlt_enum_equal side side_right \<or> hlt_enum_equal side side_both then do {
          f \<leftarrow> find_kept (strip_it (bw_chunks w) pat) (rev (positions xs));
          Some (case f of
              Some (a, k) \<Rightarrow> create_iterator (Some a) (k + 1)
            | None \<Rightarrow> generic_end_pos)
        } else Some generic_end_pos);
     Some (start, en)
   }"

definition hlt_bytes_strip :: "ptr \<Rightarrow> hlt_enum \<Rightarrow> ptr \<Rightarrow> bworld \<Rightarrow> (ptr \<times> bworld) option" where
  "hlt_bytes_strip b side pat w = do {
     (start, en) \<leftarrow> strip_calc_iters b side pat w;
     hlt_bytes_sub start en w
   }"

section \<open>Separator objects and marks\<close>

definition hlt_bytes_append_object :: "ptr \<Rightarrow> nat \<Rightarrow> val option \<Rightarrow> bworld \<Rightarrow> bworld option" where
  "hlt_bytes_append_object b ty ob w =
     (case (b, ob) of
        (Some a, Some x) \<Rightarrow> do {
          let (c1, w1) = alloc_chunk (bytes_init_object ty x) w;
          let (c2, w2) = bytes_new_chunk [] w1;
          xs \<leftarrow> chunks (bw_chunks w2) b;
          w3 \<leftarrow> add_chunk (map_option fst (tail_chunk True xs)) c1 w2;
          add_chunk (Some c1) c2 w3
        }
      | _ \<Rightarrow> Some (bytes_error NullReference w))"

definition hlt_bytes_retrieve_object :: "bytes_iter \<Rightarrow> nat option \<Rightarrow> bworld \<Rightarrow> (val option \<times> bworld) option" where
  "hlt_bytes_retrieve_object i0 ty w = do {
     i \<leftarrow> normalize_iter w i0;
     ob \<leftarrow> at_object w i;
     (if \<not> ob then Some (None, bytes_error ValueError w)
      else do {
        a \<leftarrow> bi_bytes i;
        c \<leftarrow> bw_chunks w a;
        (oty, x) \<leftarrow> bc_object c;
        (if ty \<noteq> None \<and> ty \<noteq> Some oty then Some (None, bytes_error TypeError w)
         else Some (Some x, w))
      })
   }"

definition hlt_bytes_at_object :: "bworld \<Rightarrow> bytes_iter \<Rightarrow> bool option" where
  "hlt_bytes_at_object w i = do { j \<leftarrow> normalize_iter w i; at_object w j }"

definition hlt_bytes_at_object_of_type :: "bworld \<Rightarrow> bytes_iter \<Rightarrow> nat \<Rightarrow> bool option" where
  "hlt_bytes_at_object_of_type w i ty = do {
     j \<leftarrow> normalize_iter w i;
     (case bi_bytes j of
        None \<Rightarrow> Some False
      | Some a \<Rightarrow> map_option (\<lambda>c. case bc_object c of None \<Rightarrow> False | Some (oty, _) \<Rightarrow> ty = oty) (bw_chunks w a))
   }"

definition hlt_bytes_skip_object :: "bytes_iter \<Rightarrow> bworld \<Rightarrow> (bytes_iter \<times> bworld) option" where
  "hlt_bytes_skip_object old0 w = do {
     old \<leftarrow> normalize_iter w old0;
     ob \<leftarrow> at_object w old;
     (if \<not> ob then Some (generic_end_pos, bytes_error ValueError w)
      else do {
        a \<leftarrow> bi_bytes old;
        c \<leftarrow> bw_chunks w a;
        n \<leftarrow> bc_next c;
        nc \<leftarrow> bw_chunks w n;
        Some (create_iterator (Some n) (bc_start nc), w)
      })
   }"

fun next_object_loop :: "chain \<Rightarrow> nat \<Rightarrow> bytes_iter" where
  "next_object_loop [] k = generic_end_pos"
| "next_object_loop ((a, c) # r) k =
     (if is_end_at ((a, c) # r) k then create_iterator (Some a) k
      else if r = [] then create_iterator (Some a) (bc_end c)
      else next_object_loop r (bc_start (snd (hd r))))"

definition hlt_bytes_next_object :: "bworld \<Rightarrow> bytes_iter \<Rightarrow> bytes_iter option" where
  "hlt_bytes_next_object w i = do {
     j \<leftarrow> normalize_iter w i;
     xs \<leftarrow> iter_chunks w j;
     Some (if xs = [] then j else next_object_loop xs (bi_cur j))
   }"

definition hlt_bytes_append_mark :: "ptr \<Rightarrow> bworld \<Rightarrow> bworld option" where
  "hlt_bytes_append_mark b w = append_mark b (-1) w"

fun next_mark_loop :: "chain \<Rightarrow> int \<Rightarrow> bytes_iter option" where
  "next_mark_loop [] k = None"
| "next_mark_loop ((a, c) # r) k =
     (if is_object c then Some (create_iterator (Some a) (bc_end c))
      else do {
        ms \<leftarrow> mark_list (bc_marks c);
        (case List.find (\<lambda>m. m \<ge> k - int (bc_start c)) ms of
           Some m \<Rightarrow> if int (bc_start c) + m < 0 then None
                     else Some (create_iterator (Some a) (nat (int (bc_start c) + m)))
         | None \<Rightarrow> if r = [] then Some (create_iterator (Some a) (bc_end c))
                   else next_mark_loop r (int (bc_start (snd (hd r)))))
      })"

definition hlt_bytes_next_mark :: "bworld \<Rightarrow> bytes_iter \<Rightarrow> bytes_iter option" where
  "hlt_bytes_next_mark w i = do {
     j \<leftarrow> normalize_iter w i;
     xs \<leftarrow> iter_chunks w j;
     next_mark_loop xs (int (bi_cur j) + 1)
   }"

definition hlt_bytes_at_mark :: "bworld \<Rightarrow> bytes_iter \<Rightarrow> bool option" where
  "hlt_bytes_at_mark w i = do { j \<leftarrow> normalize_iter w i; at_mark w j }"

end
