(* ===== verification/BytesCorrect.thy ===== *)
theory BytesCorrect
  imports Bytes
begin

text \<open>
  Correctness of the bytes operations.

  A bytes object is a chain of chunks. \<open>content\<close> is its value, the bytes up to the first separator
  object; \<open>bytes_obj w b xs\<close> says that the chain \<open>xs\<close> starts at \<open>b\<close> and is well formed: the chunks'
  bounds lie inside their buffers (\<open>chunk_ok\<close>) and only the first data chunk may be empty (\<open>no_gaps\<close>).
  An iterator stands for the bytes from its position on: \<open>cursor w i bs\<close> for a normalised one,
  \<open>position w i bs\<close> in general. The lemmas show each operation to compute its list function on these
  values, without undefined behaviour, across chunk borders.
\<close>

section \<open>Chains\<close>

lemma chunks_None [simp]: "chunks h None = Some []"
  by (subst chunks.simps) simp

lemma chunks_Some: "chunks h (Some a) = do { c \<leftarrow> h a; r \<leftarrow> chunks h (bc_next c); Some ((a, c) # r) }"
  by (subst chunks.simps) simp

lemma chunks_Cons: "chunks h p = Some ((a, c) # r) \<longleftrightarrow> p = Some a \<and> h a = Some c \<and> chunks h (bc_next c) = Some r"
  by (cases p) (auto simp: chunks_Some split: bind_splits)

lemma chunks_Nil: "chunks h p = Some [] \<longleftrightarrow> p = None"
  by (cases p) (auto simp: chunks_Some split: bind_splits)

lemma chunks_suffix: "chunks h p = Some (xs @ (a, c) # r) \<Longrightarrow> chunks h (Some a) = Some ((a, c) # r)"
  by (induction xs arbitrary: p) (auto simp: chunks_Cons)

lemma chunks_lookup: "chunks h p = Some xs \<Longrightarrow> (a, c) \<in> set xs \<Longrightarrow> h a = Some c"
  by (induction xs arbitrary: p) (auto simp: chunks_Cons)

lemma chunks_distinct: "chunks h p = Some xs \<Longrightarrow> distinct (map fst xs)"
proof (induction xs arbitrary: p)
  case (Cons x r)
  obtain a c where x: "x = (a, c)" by (cases x)
  from Cons.prems x have h: "chunks h (Some a) = Some ((a, c) # r)" "chunks h (bc_next c) = Some r"
    by (auto simp: chunks_Cons)
  have "a \<notin> fst ` set r"
  proof
    assume "a \<in> fst ` set r"
    then obtain c' where "(a, c') \<in> set r" by auto
    then obtain u v where "r = u @ (a, c') # v" by (meson split_list)
    with h(2) have "chunks h (Some a) = Some ((a, c') # v)" by (auto dest: chunks_suffix)
    with h(1) \<open>r = u @ (a, c') # v\<close> have "length ((a, c) # u @ (a, c') # v) = length ((a, c') # v)" by simp
    then show False by simp
  qed
  with Cons.IH [OF h(2)] x show ?case by simp
qed simp

lemma chunks_frame: "chunks h p = Some xs \<Longrightarrow> a \<notin> fst ` set xs \<Longrightarrow> chunks (h(a := v)) p = Some xs"
  by (induction xs arbitrary: p) (auto simp: chunks_Cons chunks_Nil)

lemma chunks_append_iff:
  "chunks h p = Some (xs @ ys) \<and> ys \<noteq> [] \<Longrightarrow> chunks h (Some (fst (hd ys))) = Some ys"
  by (cases ys) (auto dest: chunks_suffix)

subsection \<open>Abstract values\<close>

definition chunk_ok :: "bchunk \<Rightarrow> bool" where
  "chunk_ok c \<longleftrightarrow> is_object c \<or> bc_start c \<le> bc_end c \<and> bc_end c \<le> length (bc_buf c)"

definition chunk_data :: "bchunk \<Rightarrow> byte list" where
  "chunk_data c = take (bc_end c - bc_start c) (drop (bc_start c) (bc_buf c))"

fun content :: "chain \<Rightarrow> byte list" where
  "content [] = []"
| "content ((a, c) # r) = (if is_object c then [] else chunk_data c @ content r)"

fun rest_at :: "chain \<Rightarrow> nat \<Rightarrow> byte list" where
  "rest_at [] k = []"
| "rest_at ((a, c) # r) k =
     (if is_object c then [] else take (bc_end c - k) (drop k (bc_buf c)) @ content r)"

text \<open>
  The invariant of a chain: every chunk is well-formed, and the chunk behind a data chunk is a
  separator or not empty.
\<close>

fun no_gaps :: "chain \<Rightarrow> bool" where
  "no_gaps ((a, c) # (b, d) # r) \<longleftrightarrow>
     (is_object c \<or> is_object d \<or> bc_start d < bc_end d) \<and> no_gaps ((b, d) # r)"
| "no_gaps _ \<longleftrightarrow> True"

definition chain_inv :: "chain \<Rightarrow> bool" where
  "chain_inv xs \<longleftrightarrow> (\<forall>x \<in> set xs. chunk_ok (snd x)) \<and> no_gaps xs"

definition iter_ok :: "chain \<Rightarrow> nat \<Rightarrow> bool" where
  "iter_ok xs k \<longleftrightarrow> xs = [] \<or> is_object (snd (hd xs)) \<or> bc_start (snd (hd xs)) \<le> k \<and> k \<le> bc_end (snd (hd xs))"

definition norm_at :: "chain \<Rightarrow> nat \<Rightarrow> bool" where
  "norm_at xs k \<longleftrightarrow> xs = [] \<or> is_object (snd (hd xs)) \<or> k < bc_end (snd (hd xs)) \<or> tl xs = [] \<or>
     is_object (snd (hd (tl xs)))"

text \<open>\<open>cursor w i bs\<close>: \<open>i\<close> is a usable iterator, and the bytes from its position on are \<open>bs\<close>.\<close>

definition cursor :: "bworld \<Rightarrow> bytes_iter \<Rightarrow> byte list \<Rightarrow> bool" where
  "cursor w i bs \<longleftrightarrow> (\<exists>xs. iter_chunks w i = Some xs \<and> chain_inv xs \<and> iter_ok xs (bi_cur i) \<and>
     norm_at xs (bi_cur i) \<and> rest_at xs (bi_cur i) = bs)"

lemma chain_inv_Cons: "chain_inv ((a, c) # r) \<Longrightarrow> chunk_ok c \<and> chain_inv r"
  by (cases r) (auto simp: chain_inv_def)

lemma chain_inv_gaps: "chain_inv xs \<Longrightarrow> no_gaps xs"
  by (simp add: chain_inv_def)

lemma chain_inv_append: "chain_inv (xs @ ys) \<Longrightarrow> chain_inv ys"
  by (induction xs) (auto dest: chain_inv_Cons)

lemma length_chunk_data: "chunk_ok c \<Longrightarrow> \<not> is_object c \<Longrightarrow> length (chunk_data c) = bc_end c - bc_start c"
  by (auto simp: chunk_ok_def chunk_data_def)

lemma chain_len_content: "chain_inv xs \<Longrightarrow> chain_len xs = int (length (content xs))"
proof (induction xs)
  case (Cons x r)
  obtain a c where x: "x = (a, c)" by (cases x)
  with Cons chain_inv_Cons [of a c r] show ?case
    by (auto simp: length_chunk_data chunk_ok_def)
qed simp

lemma rest_at_start: "rest_at ((a, c) # r) (bc_start c) = content ((a, c) # r)"
  by (simp add: chunk_data_def)

lemma is_empty_content: "chain_inv xs \<Longrightarrow> is_empty_chain False xs \<longleftrightarrow> content xs = []"
proof (induction xs)
  case (Cons x r)
  obtain a c where x: "x = (a, c)" by (cases x)
  with Cons chain_inv_Cons [of a c r] show ?case
    by (auto simp: chunk_ok_def chunk_data_def)
qed simp

lemma slice_data: "chunk_ok c \<Longrightarrow> \<not> is_object c \<Longrightarrow> slice (bc_buf c) (bc_start c) (bc_end c) = Some (chunk_data c)"
  by (simp add: slice_def chunk_ok_def chunk_data_def)

lemma tail_chunk_hd:
  assumes "distinct (map fst (x # xs))"
  shows "tail_chunk False (x # xs) = Some x \<longleftrightarrow> xs = [] \<or> is_object (snd (hd xs))"
proof (cases xs)
  case (Cons y r)
  have "tail_chunk False (y # r) = Some z \<Longrightarrow> z \<in> set (y # r)" for z y r
    by (induction "False" "y # r" arbitrary: y r rule: tail_chunk.induct) (auto split: if_splits)
  then have "tail_chunk False (y # r) \<noteq> Some x" using assms Cons by (metis image_eqI distinct.simps(2) list.map(2) list.set_map)
  then show ?thesis using Cons by auto
qed simp

section \<open>Iterators walk along the content\<close>

lemma is_end_rest:
  assumes "chunks h p = Some xs" "chain_inv xs" "iter_ok xs k" "norm_at xs k"
  shows "is_end_at xs k \<longleftrightarrow> rest_at xs k = []"
proof (cases xs)
  case Nil
  then show ?thesis by (simp add: is_end_at_def)
next
  case (Cons x r)
  obtain a c where x: "x = (a, c)" by (cases x)
  have d: "distinct (map fst (x # r))" using chunks_distinct assms(1) Cons by blast
  have ok: "chunk_ok c" using assms(2) chain_inv_Cons Cons x by blast
  show ?thesis
  proof (cases "is_object c")
    case True
    then show ?thesis using Cons x by (simp add: is_end_at_def)
  next
    case False
    have "r = [] \<or> is_object (snd (hd r)) \<Longrightarrow> content r = []" by (cases r) auto
    then show ?thesis
      using assms(3,4) ok Cons x False tail_chunk_hd [OF d]
      by (auto simp: is_end_at_def iter_ok_def norm_at_def chunk_ok_def)
  qed
qed

lemma cursor_is_end: "cursor w i bs \<Longrightarrow> is_end w i = Some (bs = [])"
  unfolding cursor_def is_end_def using is_end_rest by fastforce

lemma cursor_nonempty:
  assumes "cursor w i (b # bs)"
  obtains a c r where "iter_chunks w i = Some ((a, c) # r)" "bi_bytes i = Some a" "bw_chunks w a = Some c"
    "\<not> is_object c" "chain_inv ((a, c) # r)" "bc_start c \<le> bi_cur i" "bi_cur i < bc_end c"
    "bc_end c \<le> length (bc_buf c)" "bc_buf c ! bi_cur i = b"
    "bs = take (bc_end c - (bi_cur i + 1)) (drop (bi_cur i + 1) (bc_buf c)) @ content r"
proof -
  from assms obtain xs where xs: "iter_chunks w i = Some xs" "chain_inv xs" "iter_ok xs (bi_cur i)"
    "norm_at xs (bi_cur i)" "rest_at xs (bi_cur i) = b # bs" unfolding cursor_def by blast
  then obtain a c r where [simp]: "xs = (a, c) # r" by (cases xs) auto
  have c: "\<not> is_object c" using xs(5) by auto
  have ok: "bc_end c \<le> length (bc_buf c)" using xs(2) c by (auto dest: chain_inv_Cons simp: chunk_ok_def)
  have lt: "bi_cur i < bc_end c"
  proof (rule ccontr)
    assume n: "\<not> bi_cur i < bc_end c"
    then have "content r = []" using xs(4) c by (cases r) (auto simp: norm_at_def)
    with n xs(5) c show False by simp
  qed
  have "take (bc_end c - bi_cur i) (drop (bi_cur i) (bc_buf c)) =
        bc_buf c ! bi_cur i # take (bc_end c - (bi_cur i + 1)) (drop (bi_cur i + 1) (bc_buf c))"
    using lt ok by (simp add: Cons_nth_drop_Suc [symmetric] Suc_diff_Suc take_Suc_conv_app_nth
      take_Cons' flip: Suc_eq_plus1)
  then show thesis
    using that [of a c r] xs c lt ok by (auto simp: chunks_Cons iter_ok_def)
qed

lemma cursor_raw_deref: "cursor w i (b # bs) \<Longrightarrow> raw_deref w i = Some b"
  by (erule cursor_nonempty) (simp add: raw_deref_def rd_def)

lemma cursor_deref: "cursor w i (b # bs) \<Longrightarrow> iter_deref i w = Some (b, w)"
  by (simp add: iter_deref_def cursor_is_end cursor_raw_deref)

lemma norm_at_start: "no_gaps ((a, c) # r) \<Longrightarrow> \<not> is_object c \<Longrightarrow> r \<noteq> [] \<Longrightarrow>
    norm_at r (bc_start (snd (hd r))) \<and> rest_at r (bc_start (snd (hd r))) = content r"
  by (cases r) (auto simp: norm_at_def chunk_data_def)

lemma iter_ok_start: "chain_inv r \<Longrightarrow> r \<noteq> [] \<Longrightarrow> iter_ok r (bc_start (snd (hd r)))"
  by (cases r) (auto simp: chain_inv_def iter_ok_def chunk_ok_def)

lemma cursor_incr:
  assumes "cursor w i (b # bs)"
  shows "\<exists>j. iter_incr w i = Some j \<and> cursor w j bs"
proof -
  obtain a c r where c: "iter_chunks w i = Some ((a, c) # r)" "bi_bytes i = Some a" "bw_chunks w a = Some c"
    "\<not> is_object c" "chain_inv ((a, c) # r)" "bc_start c \<le> bi_cur i" "bi_cur i < bc_end c"
    "bc_end c \<le> length (bc_buf c)"
    "bs = take (bc_end c - (bi_cur i + 1)) (drop (bi_cur i + 1) (bc_buf c)) @ content r"
    using cursor_nonempty [OF assms] by metis
  have ne: "\<not> is_end_at ((a, c) # r) (bi_cur i)"
    using cursor_is_end [OF assms] c(1) by (simp add: is_end_def)
  have inv: "chain_inv r" "no_gaps ((a, c) # r)" using c(5) by (auto dest: chain_inv_Cons chain_inv_gaps)
  consider (stay) "bi_cur i + 1 < bc_end c" | (last) "bi_cur i + 1 = bc_end c" "r = []"
    | (move) "bi_cur i + 1 = bc_end c" "r \<noteq> []" using c(7) by linarith
  then show ?thesis
  proof cases
    case stay
    then have "iter_incr w i = Some (i\<lparr>bi_cur := bi_cur i + 1\<rparr>)" using c(1) ne by (simp add: iter_incr_def)
    moreover have "cursor w (i\<lparr>bi_cur := bi_cur i + 1\<rparr>) bs"
      unfolding cursor_def using c(1-7) stay
      by (intro exI [of _ "(a, c) # r"]) (simp add: iter_ok_def norm_at_def c(9))
    ultimately show ?thesis by blast
  next
    case last
    then have "iter_incr w i = Some (i\<lparr>bi_cur := bc_end c\<rparr>)" using c(1) ne by (simp add: iter_incr_def)
    moreover have "cursor w (i\<lparr>bi_cur := bc_end c\<rparr>) bs"
      unfolding cursor_def using c(1-7) last
      by (intro exI [of _ "(a, c) # r"]) (simp add: iter_ok_def norm_at_def c(9))
    ultimately show ?thesis by blast
  next
    case move
    let ?j = "create_iterator (Some (fst (hd r))) (bc_start (snd (hd r)))"
    have "iter_incr w i = Some ?j" using c(1) ne move by (simp add: iter_incr_def)
    moreover have "iter_chunks w ?j = Some r"
      using c(1) move(2) chunks_suffix [of _ _ "[(a, c)]"] by (cases r) (auto simp: create_iterator_def)
    then have "cursor w ?j bs"
      unfolding cursor_def using inv move norm_at_start [OF inv(2) c(4) move(2)] iter_ok_start [OF inv(1) move(2)] c(9)
      by (intro exI [of _ r]) (simp add: create_iterator_def)
    ultimately show ?thesis by blast
  qed
qed

lemma incr_by_loop_ok:
  assumes "chunks (bw_chunks w) p = Some ((a, c) # r)" "chain_inv ((a, c) # r)" "\<not> is_object c"
    "bc_start c \<le> k" "k \<le> bc_end c"
  shows "\<exists>j. incr_by_loop ((a, c) # r) k (int n) False = Some j \<and> cursor w j (drop n (rest_at ((a, c) # r) k))"
  using assms
proof (induction r arbitrary: p a c k n)
  case Nil
  then have ok: "bc_end c \<le> length (bc_buf c)" by (auto simp: chain_inv_def chunk_ok_def)
  let ?j = "create_iterator (Some a) (min (k + n) (bc_end c))"
  have "incr_by_loop [(a, c)] k (int n) False = Some ?j"
    by (cases "k + n < bc_end c") (auto simp: min_def nat_add_distrib)
  moreover have "cursor w ?j (drop n (rest_at [(a, c)] k))"
    unfolding cursor_def using Nil ok
    by (intro exI [of _ "[(a, c)]"]) (auto simp: create_iterator_def chunks_Cons iter_ok_def norm_at_def min_def
        drop_take add.commute)
  ultimately show ?case by blast
next
  case (Cons y r)
  obtain b d where y: "y = (b, d)" by (cases y)
  have ok: "bc_end c \<le> length (bc_buf c)" using Cons.prems by (auto simp: chain_inv_def chunk_ok_def)
  show ?case
  proof (cases "k + n < bc_end c")
    case True
    let ?j = "create_iterator (Some a) (k + n)"
    have "incr_by_loop ((a, c) # y # r) k (int n) False = Some ?j" using True by (auto simp: nat_add_distrib)
    moreover have "cursor w ?j (drop n (rest_at ((a, c) # y # r) k))"
      unfolding cursor_def using Cons.prems ok True
      by (intro exI [of _ "(a, c) # y # r"]) (auto simp: create_iterator_def chunks_Cons iter_ok_def norm_at_def
          drop_take add.commute)
    ultimately show ?thesis by blast
  next
    case False
    let ?n = "n - (bc_end c - k)"
    have n: "int n - (int (bc_end c) - int k) = int ?n" using False Cons.prems by simp
    have step: "incr_by_loop ((a, c) # y # r) k (int n) False = incr_by_loop (y # r) (bc_start d) (int ?n) False"
      using False Cons.prems(3) y n by auto
    have dr: "drop n (rest_at ((a, c) # y # r) k) = drop ?n (content (y # r))"
      using False Cons.prems ok by (simp add: drop_append)
    have yr: "chunks (bw_chunks w) (bc_next c) = Some ((b, d) # r)" "chain_inv ((b, d) # r)" "no_gaps ((a, c) # (b, d) # r)"
      using Cons.prems y by (auto simp: chunks_Cons dest: chain_inv_Cons chain_inv_gaps)
    show ?thesis
    proof (cases "is_object d")
      case True
      have "incr_by_loop (y # r) (bc_start d) (int ?n) False = Some (create_iterator (Some b)
          (if bc_start d + ?n < bc_end d then bc_start d + ?n else bc_end d))"
        using True y by (auto simp: nat_add_distrib)
      moreover have "cursor w (create_iterator (Some b) e) (drop ?n (content (y # r)))" for e
        unfolding cursor_def using yr True y
        by (intro exI [of _ "(b, d) # r"]) (auto simp: create_iterator_def chunks_Cons iter_ok_def norm_at_def)
      ultimately show ?thesis using step dr by metis
    next
      case False
      have "bc_start d \<le> bc_end d" using yr(2) False by (auto simp: chain_inv_def chunk_ok_def)
      from Cons.IH [OF yr(1,2) False order.refl this, of ?n] show ?thesis
        using step dr y False by (simp add: chunk_data_def)
    qed
  qed
qed

lemma cursor_incr_by:
  assumes "cursor w i bs"
  shows "\<exists>j. iter_incr_by w i (int n) False = Some j \<and> cursor w j (drop n bs)"
proof (cases bs)
  case Nil
  then show ?thesis using assms cursor_is_end [OF assms] by (auto simp: iter_incr_by_def is_end_def split: bind_splits)
next
  case (Cons b bs')
  then obtain a c r where c: "iter_chunks w i = Some ((a, c) # r)" "\<not> is_object c" "chain_inv ((a, c) # r)"
    "bc_start c \<le> bi_cur i" "bi_cur i < bc_end c"
    using cursor_nonempty assms by metis
  have ne: "\<not> is_end_at ((a, c) # r) (bi_cur i)" and rs: "rest_at ((a, c) # r) (bi_cur i) = bs"
    using cursor_is_end [OF assms] Cons c(1) assms by (auto simp: is_end_def cursor_def)
  show ?thesis
  proof (cases "n = 0")
    case True
    then show ?thesis using assms c(1) by (simp add: iter_incr_by_def)
  next
    case False
    then have "iter_incr_by w i (int n) False = incr_by_loop ((a, c) # r) (bi_cur i) (int n) False"
      using c(1) ne by (simp add: iter_incr_by_def)
    then show ?thesis using incr_by_loop_ok [OF c(1,3,2,4), of n] c(5) unfolding rs by simp
  qed
qed

text \<open>\<open>position w i bs\<close>: as \<open>cursor\<close>, for an iterator that may have to be moved on to the next chunk.\<close>

definition position :: "bworld \<Rightarrow> bytes_iter \<Rightarrow> byte list \<Rightarrow> bool" where
  "position w i bs \<longleftrightarrow> (\<exists>xs. iter_chunks w i = Some xs \<and> chain_inv xs \<and> iter_ok xs (bi_cur i) \<and>
     rest_at xs (bi_cur i) = bs)"

lemma cursor_position: "cursor w i bs \<Longrightarrow> position w i bs"
  unfolding cursor_def position_def by blast

lemma normalize_loop_ok:
  assumes "chunks (bw_chunks w) p = Some ((a, c) # r)" "chain_inv ((a, c) # r)" "\<not> is_object c"
    "bc_start c \<le> k" "k \<le> bc_end c"
  shows "\<exists>b l. normalize_loop ((a, c) # r) k 0 = Some (b, l, 0) \<and>
    cursor w (create_iterator (Some b) l) (rest_at ((a, c) # r) k)"
  using assms
proof (induction r arbitrary: p a c k)
  case Nil
  then show ?case
    by (auto simp: cursor_def create_iterator_def chunks_Cons iter_ok_def norm_at_def intro!: exI [of _ "[(a, c)]"])
next
  case (Cons y r)
  obtain b d where y: "y = (b, d)" by (cases y)
  have yr: "chunks (bw_chunks w) (bc_next c) = Some ((b, d) # r)" "chain_inv ((b, d) # r)" "no_gaps ((a, c) # (b, d) # r)"
    using Cons.prems y by (auto simp: chunks_Cons dest: chain_inv_Cons chain_inv_gaps)
  show ?case
  proof (cases "k = bc_end c")
    case False
    then have "k < bc_end c" using Cons.prems by simp
    then show ?thesis
      using Cons.prems y
      by (auto simp: cursor_def create_iterator_def chunks_Cons iter_ok_def norm_at_def
          intro!: exI [of _ "(a, c) # (b, d) # r"])
  next
    case True
    have step: "normalize_loop ((a, c) # y # r) k 0 = normalize_loop ((b, d) # r) (bc_start d) 0"
      using True y Cons.prems(3) by simp
    have rest: "rest_at ((a, c) # y # r) k = content ((b, d) # r)" using True Cons.prems(3) y by simp
    show ?thesis
    proof (cases "is_object d")
      case True
      then have "normalize_loop ((b, d) # r) (bc_start d) 0 = Some (b, bc_start d, 0)" by (cases r) auto
      moreover have "cursor w (create_iterator (Some b) (bc_start d)) (content ((b, d) # r))"
        unfolding cursor_def using yr True
        by (intro exI [of _ "(b, d) # r"]) (auto simp: create_iterator_def chunks_Cons iter_ok_def norm_at_def)
      ultimately show ?thesis using step rest by simp
    next
      case False
      have "bc_start d \<le> bc_end d" using yr(2) False by (auto simp: chain_inv_def chunk_ok_def)
      from Cons.IH [OF yr(1,2) False order.refl this] show ?thesis
        using step rest False by (simp add: chunk_data_def)
    qed
  qed
qed

lemma normalize_ok:
  assumes "position w i bs"
  shows "\<exists>j. normalize_iter w i = Some j \<and> cursor w j bs"
proof -
  from assms obtain xs where xs: "iter_chunks w i = Some xs" "chain_inv xs" "iter_ok xs (bi_cur i)"
    "rest_at xs (bi_cur i) = bs" unfolding position_def by blast
  show ?thesis
  proof (cases "xs = [] \<or> is_object (snd (hd xs))")
    case True
    then show ?thesis using xs by (auto simp: normalize_iter_def cursor_def norm_at_def)
  next
    case False
    then obtain a c r where [simp]: "xs = (a, c) # r" and c: "\<not> is_object c" by (cases xs) auto
    have "bc_start c \<le> bi_cur i" "bi_cur i \<le> bc_end c" using xs(3) c by (auto simp: iter_ok_def)
    from normalize_loop_ok [OF xs(1,2) [simplified] c this] xs(4)
    obtain b l where nl: "normalize_loop ((a, c) # r) (bi_cur i) 0 = Some (b, l, 0)"
      and cur: "cursor w (create_iterator (Some b) l) bs" by auto
    have "normalize_iter w i = Some (create_iterator (Some b) l)"
      using xs(1) c nl by (simp add: normalize_iter_def)
    then show ?thesis using cur by blast
  qed
qed

text \<open>\<open>bytes_obj w b xs\<close>: \<open>b\<close> is a bytes object with the chunks \<open>xs\<close>.\<close>

definition bytes_obj :: "bworld \<Rightarrow> addr \<Rightarrow> chain \<Rightarrow> bool" where
  "bytes_obj w b xs \<longleftrightarrow> chunks (bw_chunks w) (Some b) = Some xs \<and> chain_inv xs"

lemma bytes_obj_chunks: "bytes_obj w b xs \<Longrightarrow> chunks (bw_chunks w) (Some b) = Some xs"
  by (simp add: bytes_obj_def)

lemma bytes_obj_Cons: "bytes_obj w b xs \<Longrightarrow> \<exists>c r. xs = (b, c) # r \<and> bw_chunks w b = Some c"
  by (cases xs) (auto simp: bytes_obj_def chunks_Cons chunks_Nil)

lemma tail_chunk_split:
  "xs \<noteq> [] \<Longrightarrow> \<exists>us t tc r. xs = us @ (t, tc) # r \<and> tail_chunk False xs = Some (t, tc) \<and>
     (r = [] \<or> is_object (snd (hd r)))"
proof (induction xs)
  case (Cons x xs)
  show ?case
  proof (cases "xs = [] \<or> is_object (snd (hd xs))")
    case True
    then have "tail_chunk False (x # xs) = Some x" by (cases xs) auto
    then show ?thesis using True by (metis append_Nil surj_pair)
  next
    case False
    then obtain us t tc r where "xs = us @ (t, tc) # r" "tail_chunk False xs = Some (t, tc)" "r = [] \<or> is_object (snd (hd r))"
      using Cons.IH by auto
    moreover have "tail_chunk False (x # xs) = tail_chunk False xs" using False by (cases xs) auto
    ultimately show ?thesis by (metis append_Cons)
  qed
qed simp

lemma chunks_suffix_pair: "chunks h p = Some (us @ y # r) \<Longrightarrow> chunks h (Some (fst y)) = Some (y # r)"
  by (cases y) (auto dest: chunks_suffix)

lemma bytes_end_ok:
  assumes "bytes_obj w b xs"
  shows "\<exists>i. bytes_end (Some b) w = Some (i, w) \<and> cursor w i []"
proof -
  have ch: "chunks (bw_chunks w) (Some b) = Some xs" "chain_inv xs" using assms by (auto simp: bytes_obj_def)
  have "xs \<noteq> []" using bytes_obj_Cons [OF assms] by auto
  from tail_chunk_split [OF this] obtain us t tc r where t: "xs = us @ (t, tc) # r"
    "tail_chunk False xs = Some (t, tc)" "r = [] \<or> is_object (snd (hd r))" by blast
  have cr: "chunks (bw_chunks w) (Some t) = Some ((t, tc) # r)" using ch(1) t(1) chunks_suffix by blast
  have inv: "chain_inv ((t, tc) # r)" using ch(2) t(1) chain_inv_append by blast
  have "content r = []" using t(3) by (cases r) auto
  then have "cursor w (create_iterator (Some t) (bc_end tc)) []"
    unfolding cursor_def using cr inv t(3)
    by (intro exI [of _ "(t, tc) # r"]) (auto simp: create_iterator_def iter_ok_def norm_at_def chain_inv_def chunk_ok_def)
  moreover have "bytes_end (Some b) w = Some (create_iterator (Some t) (bc_end tc), w)"
    using ch(1) t(2) by (simp add: bytes_end_def)
  ultimately show ?thesis by blast
qed

lemma bytes_begin_ok:
  assumes "bytes_obj w b xs"
  shows "\<exists>i. bytes_begin (Some b) w = Some (i, w) \<and> cursor w i (content xs)"
proof -
  have ch: "chunks (bw_chunks w) (Some b) = Some xs" "chain_inv xs" using assms by (auto simp: bytes_obj_def)
  obtain c r where xs: "xs = (b, c) # r" using bytes_obj_Cons [OF assms] by blast
  show ?thesis
  proof (cases "content xs = []")
    case True
    then show ?thesis using bytes_end_ok [OF assms] ch is_empty_content [OF ch(2)] by (simp add: bytes_begin_def)
  next
    case False
    then have c: "\<not> is_object c" using xs by auto
    have "position w (create_iterator (Some b) (bc_start c)) (content xs)"
      unfolding position_def using ch xs c iter_ok_start [of xs]
      by (intro exI [of _ xs]) (auto simp: create_iterator_def chunk_data_def)
    from normalize_ok [OF this] show ?thesis
      using ch(1) False is_empty_content [OF ch(2)] xs by (auto simp: bytes_begin_def)
  qed
qed

section \<open>Reading operations\<close>

fun cmp_spec :: "byte list \<Rightarrow> byte list \<Rightarrow> int" where
  "cmp_spec [] [] = 0"
| "cmp_spec [] (y # ys) = 1"
| "cmp_spec (x # xs) [] = -1"
| "cmp_spec (x # xs) (y # ys) =
     (if x = y then cmp_spec xs ys else if sint x > sint y then -1 else 1)"

lemma cmp_spec_0: "cmp_spec xs ys = 0 \<longleftrightarrow> xs = ys"
  by (induction xs ys rule: cmp_spec.induct) auto

lemma cmp_spec_swap: "cmp_spec ys xs = - cmp_spec xs ys"
proof (induction xs ys rule: cmp_spec.induct)
  case (4 x xs y ys)
  have "x \<noteq> y \<Longrightarrow> sint x \<noteq> sint y" using signed_word_eqI by blast
  then show ?case using 4 by auto
qed auto

lemma cmp_spec_lex: "cmp_spec xs ys = -1 \<longleftrightarrow> (ys, xs) \<in> lexord {(a, b). sint a < sint b}"
proof (induction xs ys rule: cmp_spec.induct)
  case (4 x xs y ys)
  have "x \<noteq> y \<Longrightarrow> sint x \<noteq> sint y" using signed_word_eqI by blast
  then show ?case using 4 by auto
qed auto

lemma cmp_loop_ok: "cursor w p1 xs \<Longrightarrow> cursor w p2 ys \<Longrightarrow> cmp_loop p1 p2 w = Some (cmp_spec xs ys, w)"
proof (induction xs ys arbitrary: p1 p2 rule: cmp_spec.induct)
  case (4 x xs y ys)
  obtain q1 q2 where "iter_incr w p1 = Some q1" "cursor w q1 xs" "iter_incr w p2 = Some q2" "cursor w q2 ys"
    using cursor_incr [OF "4.prems"(1)] cursor_incr [OF "4.prems"(2)] by blast
  then show ?case
    using "4.IH" "4.prems" by (subst cmp_loop.simps) (simp add: cursor_is_end cursor_deref)
qed (subst cmp_loop.simps, simp add: cursor_is_end)+

lemma cmp_ok:
  assumes "bytes_obj w b1 xs" "bytes_obj w b2 ys"
  shows "hlt_bytes_cmp (Some b1) (Some b2) w = Some (cmp_spec (content xs) (content ys), w)"
proof -
  obtain p1 p2 where p: "bytes_begin (Some b1) w = Some (p1, w)" "cursor w p1 (content xs)"
    "bytes_begin (Some b2) w = Some (p2, w)" "cursor w p2 (content ys)"
    using bytes_begin_ok assms by blast
  have e: "is_empty_chain False xs \<longleftrightarrow> content xs = []" "is_empty_chain False ys \<longleftrightarrow> content ys = []"
    using assms is_empty_content by (auto simp: bytes_obj_def)
  show ?thesis
    using assms p e cmp_loop_ok [OF p(2,4)]
    by (cases "content xs"; cases "content ys") (simp_all add: hlt_bytes_cmp_def bytes_obj_chunks)
qed

lemma starts_with_loop_ok:
  "cursor w i xs \<Longrightarrow> cursor w j ys \<Longrightarrow> length ys \<le> length xs \<Longrightarrow>
   starts_with_loop i j w = Some (take (length ys) xs = ys, w)"
proof (induction ys arbitrary: xs i j)
  case Nil
  then show ?case by (subst starts_with_loop.simps) (simp add: cursor_is_end)
next
  case (Cons y ys)
  then obtain x xs' where x: "xs = x # xs'" by (cases xs) auto
  obtain q1 q2 where "iter_incr w i = Some q1" "cursor w q1 xs'" "iter_incr w j = Some q2" "cursor w q2 ys"
    using cursor_incr [OF Cons.prems(1) [unfolded x]] cursor_incr [OF Cons.prems(2)] by blast
  then show ?case
    using Cons x by (subst starts_with_loop.simps) (simp add: cursor_is_end cursor_deref)
qed

lemma len_ok: "bytes_obj w b xs \<Longrightarrow> hlt_bytes_len (Some b) w = Some (int (length (content xs)), w)"
  by (auto simp: hlt_bytes_len_def bytes_obj_def chain_len_content)

lemma starts_with_ok:
  assumes "bytes_obj w b xs" "bytes_obj w s ys"
  shows "hlt_bytes_starts_with (Some b) (Some s) w = Some (take (length (content ys)) (content xs) = content ys, w)"
proof -
  obtain p1 p2 where p: "bytes_begin (Some b) w = Some (p1, w)" "cursor w p1 (content xs)"
    "bytes_begin (Some s) w = Some (p2, w)" "cursor w p2 (content ys)"
    using bytes_begin_ok assms by blast
  show ?thesis
    using p starts_with_loop_ok [OF p(2,4)] len_ok assms
    by (auto simp: hlt_bytes_starts_with_def dest: arg_cong [where f = length])
qed

definition big_endian :: "byte list \<Rightarrow> int" where
  "big_endian bs = foldl (\<lambda>v b. v * 256 + uint b) 0 bs"

lemma foldl_bytes:
  "foldl (\<lambda>v b. v * 256 + uint b) v bs = v * 256 ^ length bs + foldl (\<lambda>v b. v * 256 + uint (b :: byte)) 0 bs"
proof (induction bs arbitrary: v)
  case (Cons b bs)
  have "foldl (\<lambda>v b. v * 256 + uint b) v (b # bs) = (v * 256 + uint b) * 256 ^ length bs + foldl (\<lambda>v b. v * 256 + uint b) 0 bs"
    using Cons.IH [of "v * 256 + uint b"] by simp
  moreover have "foldl (\<lambda>v b. v * 256 + uint b) 0 (b # bs) = uint b * 256 ^ length bs + foldl (\<lambda>v b. v * 256 + uint b) 0 bs"
    using Cons.IH [of "uint b"] by simp
  ultimately show ?case by (simp add: algebra_simps)
qed simp

lemma big_endian_Cons: "big_endian (b # bs) = uint b * 256 ^ length bs + big_endian bs"
  using foldl_bytes [of "uint b" bs] by (simp add: big_endian_def)

lemma big_endian_bounds: "0 \<le> big_endian bs \<and> big_endian bs < 256 ^ length bs"
proof (induction bs)
  case (Cons b bs)
  have "uint b \<le> 255" using uint_bounded [of b] by simp
  then have "uint b * 256 ^ length bs \<le> 255 * 256 ^ length bs" by (intro mult_right_mono) auto
  moreover have "0 \<le> uint b * 256 ^ length bs" by simp
  moreover have "(256 :: int) ^ length (b # bs) = 256 * 256 ^ length bs" by simp
  ultimately show ?case unfolding big_endian_Cons using Cons by linarith
qed (simp add: big_endian_def)

lemma shift_byte: "or (push_bit 8 (v :: 64 word)) (ucast (b :: byte)) = v * 256 + ucast b"
proof -
  have "and (push_bit 8 v) (ucast b) = 0"
    by (rule bit_word_eqI) (auto simp: bit_simps dest: bit_imp_le_length)
  then have "or (push_bit 8 v) (ucast b) = push_bit 8 v + ucast b"
    by (simp add: disjunctive_add_eq_or)
  then show ?thesis by (simp add: push_bit_eq_mult)
qed

lemma to_binary_loop_ok:
  "cursor w i bs \<Longrightarrow> to_binary_loop i v w = Some (foldl (\<lambda>v b. v * 256 + ucast b) v bs, w)"
proof (induction bs arbitrary: i v)
  case Nil
  then show ?case by (subst to_binary_loop.simps) (simp add: cursor_is_end)
next
  case (Cons b bs)
  obtain j where "iter_incr w i = Some j" "cursor w j bs" using cursor_incr Cons.prems by blast
  then show ?case
    using Cons by (subst to_binary_loop.simps) (simp add: cursor_is_end cursor_deref shift_byte)
qed

lemma foldl_word_of_int:
  "foldl (\<lambda>v b. v * 256 + ucast b) (word_of_int v :: 64 word) bs = word_of_int (foldl (\<lambda>v b. v * 256 + uint (b :: byte)) v bs)"
proof (induction bs arbitrary: v)
  case (Cons b bs)
  have "(word_of_int v * 256 + ucast b :: 64 word) = word_of_int (v * 256 + uint b)"
    by simp
  then show ?case using Cons.IH [of "v * 256 + uint b"] by simp
qed simp

lemma word_of_bytes_Cons: "word_of_bytes (b # bs) = word_of_bytes bs * 256 + ucast b"
  using shift_byte [of "word_of_bytes bs" b] by (simp add: word_of_bytes_def or.commute)

lemma word_of_bytes_value: "word_of_bytes bs = word_of_int (big_endian (rev bs))"
proof (induction bs)
  case (Cons b bs)
  have "big_endian (rev (b # bs)) = big_endian (rev bs) * 256 + uint b"
    by (simp add: big_endian_def)
  then show ?case using Cons by (simp add: word_of_bytes_Cons)
qed (simp add: word_of_bytes_def big_endian_def)

lemma foldl_word: "foldl (\<lambda>v b. v * 256 + ucast b) (0 :: 64 word) bs = word_of_int (big_endian bs)"
  using foldl_word_of_int [of 0 bs] by (simp add: big_endian_def)

lemma big_endian_append: "big_endian (xs @ ys) = big_endian xs * 256 ^ length ys + big_endian ys"
  by (induction xs) (simp_all add: big_endian_Cons algebra_simps power_add, simp add: big_endian_def)

text \<open>The bytes of a number that fits, and the flipped word.\<close>

lemma byte_of_big_endian:
  assumes "length bs \<le> 8" "k < length bs"
  shows "byte_of (word_of_int (big_endian bs)) k = rev bs ! k"
  using assms
proof (induction bs arbitrary: k rule: rev_induct)
  case (snoc b bs)
  have v: "(word_of_int (big_endian (bs @ [b])) :: 64 word) = word_of_int (big_endian bs) * 256 + ucast b"
    by (simp add: big_endian_append) (simp add: big_endian_def)
  show ?case
  proof (cases k)
    case 0
    show ?thesis unfolding v byte_of_def 0
      by (simp flip: shift_byte) (rule bit_word_eqI, auto simp: bit_simps)
  next
    case (Suc n)
    have "byte_of (or (push_bit 8 (word_of_int (big_endian bs) :: 64 word)) (ucast b)) (Suc n) =
          byte_of (word_of_int (big_endian bs)) n"
      using snoc.prems Suc
      by (intro bit_word_eqI) (auto simp: byte_of_def bit_simps dest: bit_imp_le_length)
    with snoc Suc show ?thesis unfolding v by (simp flip: shift_byte)
  qed
qed simp

lemma big_endian_zeros: "big_endian (replicate n 0 @ bs) = big_endian bs"
  by (induction n) (simp_all add: big_endian_Cons)

lemma big_endian_shift: "big_endian (bs @ replicate n 0) = big_endian bs * 256 ^ n"
  using big_endian_zeros [of n "[]"] by (simp add: big_endian_append) (simp add: big_endian_def)

lemma flip64_ok:
  assumes "length bs \<le> 8"
  shows "hlt_flip64 (word_of_int (big_endian bs)) = word_of_int (big_endian (rev bs) * 256 ^ (8 - length bs))"
proof -
  let ?bs = "replicate (8 - length bs) 0 @ bs"
  let ?v = "word_of_int (big_endian bs) :: 64 word"
  have len: "length ?bs = 8" using assms by simp
  have v: "?v = word_of_int (big_endian ?bs)" by (simp add: big_endian_zeros)
  have "map (byte_of ?v) [0..<8] = rev ?bs"
    unfolding v using byte_of_big_endian [of ?bs] len by (intro nth_equalityI) simp_all
  moreover have "[7, 6, 5, 4, 3, 2, 1, 0] = rev [0..<8::nat]" by (simp add: upt_rec)
  ultimately have "hlt_flip64 ?v = word_of_bytes ?bs"
    unfolding hlt_flip64_def by (metis rev_map rev_rev_ident)
  then show ?thesis by (simp add: word_of_bytes_value big_endian_shift)
qed

lemma uint_of_int64: "0 \<le> y \<Longrightarrow> y < 256 ^ 8 \<Longrightarrow> uint (word_of_int y :: 64 word) = y"
  by (simp add: uint_word_of_int)

lemma uint_drop64: "uint (drop_bit n (v :: 64 word)) = uint v div 2 ^ n"
proof -
  have "uint (drop_bit n v) = drop_bit n (uint v)"
    by (rule bit_eqI) (simp add: bit_unsigned_iff bit_drop_bit_eq)
  then show ?thesis by (simp add: drop_bit_eq_div)
qed

lemma int_flip_ok:
  assumes "1 \<le> length bs" "length bs \<le> 8"
  shows "hlt_int_flip (word_of_int (big_endian bs)) (length bs) = Some (word_of_int (big_endian (rev bs)))"
proof -
  let ?n = "8 - length bs"
  let ?x = "big_endian (rev bs)"
  have b: "0 \<le> ?x" "?x < 256 ^ length bs" using big_endian_bounds [of "rev bs"] by auto
  have "(256 :: int) ^ length bs * 256 ^ ?n = 256 ^ 8" using assms by (simp flip: power_add)
  then have lt: "?x * 256 ^ ?n < 256 ^ 8" using b
    by (metis mult_less_cancel_right_pos zero_less_numeral zero_less_power)
  have p: "(256 :: int) ^ ?n = 2 ^ (64 - length bs * 8)"
  proof -
    have "(256 :: int) ^ ?n = (2 ^ 8) ^ ?n" by simp
    also have "\<dots> = 2 ^ (8 * ?n)" by (simp only: power_mult)
    finally show ?thesis by (simp add: algebra_simps)
  qed
  have "uint (word_of_int (?x * 256 ^ ?n) :: 64 word) = ?x * 256 ^ ?n"
    using b(1) lt by (intro uint_of_int64) auto
  moreover have "?x < 256 ^ 8"
    using b(2) assms(2) power_increasing [of "length bs" 8 "256 :: int"] by linarith
  then have "uint (word_of_int ?x :: 64 word) = ?x" using b(1) by (intro uint_of_int64) auto
  ultimately have "drop_bit (64 - length bs * 8) (word_of_int (?x * 256 ^ ?n) :: 64 word) = word_of_int ?x"
    by (intro word_uint_eqI) (simp only: uint_drop64 p, simp)
  then show ?thesis using assms by (simp add: hlt_int_flip_def flip64_ok)
qed

lemma to_uint_empty_little:
  assumes o: "bytes_obj w b xs" and e: "content xs = []" "hlt_enum_equal order byte_order_little"
  shows "hlt_bytes_to_uint_binary (Some b) order w = None"
proof -
  obtain i where i: "bytes_begin (Some b) w = Some (i, w)" "cursor w i (content xs)" using bytes_begin_ok o by blast
  show ?thesis using i len_ok [OF o] to_binary_loop_ok [OF i(2)] e by (simp add: hlt_bytes_to_uint_binary_def hlt_int_flip_def)
qed

lemma to_uint_binary_ok:
  assumes o: "bytes_obj w b xs" and n: "length (content xs) \<le> 8"
    and l: "hlt_enum_equal order byte_order_little \<Longrightarrow> content xs \<noteq> []"
  shows "hlt_bytes_to_uint_binary (Some b) order w =
    Some (word_of_int (big_endian (if hlt_enum_equal order byte_order_little then rev (content xs) else content xs)), w)"
proof -
  obtain i where i: "bytes_begin (Some b) w = Some (i, w)" "cursor w i (content xs)" using bytes_begin_ok o by blast
  have "1 \<le> length (content xs)" if "hlt_enum_equal order byte_order_little" using l that by (cases "content xs") auto
  then show ?thesis
    using i len_ok [OF o] n int_flip_ok [of "content xs"] to_binary_loop_ok [OF i(2)]
    by (simp add: hlt_bytes_to_uint_binary_def foldl_word)
qed

lemma uint_big_endian: "length bs \<le> 8 \<Longrightarrow> uint (word_of_int (big_endian bs) :: 64 word) = big_endian bs"
proof -
  assume "length bs \<le> 8"
  then have "(256 :: int) ^ length bs \<le> 256 ^ 8" by (intro power_increasing) auto
  then show ?thesis using big_endian_bounds [of bs] by (simp add: uint_word_of_int)
qed

section \<open>Sub-sequences\<close>

text \<open>
  Offsets count the bytes of the stream up to a chunk. After trimming, the emptied first chunk need
  not be adjacent to its successor.
\<close>

fun offs_cont :: "chain \<Rightarrow> bool" where
  "offs_cont ((a, c) # (b, d) # r) \<longleftrightarrow>
     bc_offset d = bc_offset c + (if is_object c then 0 else int (bc_end c) - int (bc_start c)) \<and>
     offs_cont ((b, d) # r)"
| "offs_cont _ \<longleftrightarrow> True"

fun offs_ok :: "chain \<Rightarrow> bool" where
  "offs_ok [] \<longleftrightarrow> True"
| "offs_ok ((a, c) # r) \<longleftrightarrow> offs_cont r \<and> (offs_cont ((a, c) # r) \<or> \<not> is_object c \<and> bc_start c = bc_end c)"

definition data_only :: "chain \<Rightarrow> bool" where
  "data_only us \<longleftrightarrow> (\<forall>x \<in> set us. \<not> is_object (snd x))"

definition plain :: "chain \<Rightarrow> bool" where
  "plain xs \<longleftrightarrow> (\<forall>x \<in> set xs. bc_marks (snd x) = NoMarks)"

lemma content_append: "data_only us \<Longrightarrow> content (us @ zs) = content us @ content zs"
  by (induction us) (auto simp: data_only_def)

lemma offs_cont_append:
  assumes "offs_cont (us @ (b, d) # r)" "data_only us" "\<forall>x \<in> set us. chunk_ok (snd x)" "us \<noteq> []"
  shows "bc_offset d = bc_offset (snd (hd us)) + int (length (content us))"
  using assms
proof (induction us)
  case (Cons x us)
  obtain a c where x: "x = (a, c)" by (cases x)
  have c: "\<not> is_object c" "chunk_ok c" using Cons.prems x by (auto simp: data_only_def)
  have len: "int (length (chunk_data c)) = int (bc_end c) - int (bc_start c)"
    using c by (simp add: length_chunk_data chunk_ok_def)
  show ?case
  proof (cases us)
    case Nil
    then show ?thesis using Cons.prems x c len by simp
  next
    case (Cons y vs)
    obtain a' c' where y: "y = (a', c')" by (cases y)
    have "bc_offset d = bc_offset c' + int (length (content us))"
      using Cons.IH Cons.prems x y Cons by (auto simp: data_only_def)
    then show ?thesis using Cons.prems x y Cons c len by simp
  qed
qed simp

lemma sub_blocks_upto:
  assumes "data_only us" "plain us" "\<forall>x \<in> set us. chunk_ok (snd x)" "b \<notin> fst ` set us"
    "length out + length (content us) \<le> n"
  shows "sub_blocks (us @ (b, d) # r) (Some b) False n out (Some NoMarks) = Some (out @ content us, Some NoMarks, (b, d) # r)"
  using assms
proof (induction us arbitrary: out)
  case (Cons x us)
  obtain a c where x: "x = (a, c)" by (cases x)
  have c: "\<not> is_object c" "chunk_ok c" "bc_marks c = NoMarks" "a \<noteq> b"
    using Cons.prems x by (auto simp: data_only_def plain_def)
  have n: "min (bc_end c - bc_start c) (n - length out) = bc_end c - bc_start c"
    using Cons.prems(5) x c length_chunk_data [OF c(2,1)] by simp
  have sl: "slice (bc_buf c) (bc_start c) (bc_start c + (bc_end c - bc_start c)) = Some (chunk_data c)"
    using c(1,2) by (auto simp: slice_def chunk_ok_def chunk_data_def)
  show ?case
    using Cons.IH [of "out @ chunk_data c"] Cons.prems x c n sl
    by (simp add: copy_marks_def data_only_def plain_def)
qed simp

lemma sub_blocks_end:
  assumes "plain ys" "\<forall>x \<in> set ys. chunk_ok (snd x)" "length out + length (content ys) \<le> n"
  shows "sub_blocks ys p True n out (Some NoMarks) =
    Some (out @ content ys, Some NoMarks, dropWhile (\<lambda>x. \<not> is_object (snd x)) ys)"
  using assms
proof (induction ys arbitrary: out)
  case (Cons x ys)
  obtain a c where x: "x = (a, c)" by (cases x)
  show ?case
  proof (cases "is_object c")
    case False
    have c: "chunk_ok c" "bc_marks c = NoMarks" using Cons.prems x by (auto simp: plain_def)
    have n: "min (bc_end c - bc_start c) (n - length out) = bc_end c - bc_start c"
      using Cons.prems(3) x c False length_chunk_data [OF c(1) False] by simp
    have sl: "slice (bc_buf c) (bc_start c) (bc_start c + (bc_end c - bc_start c)) = Some (chunk_data c)"
      using c(1) False by (auto simp: slice_def chunk_ok_def chunk_data_def)
    show ?thesis
      using Cons.IH [of "out @ chunk_data c"] Cons.prems x c n sl False
      by (simp add: copy_marks_def plain_def)
  qed (simp add: x)
qed simp

lemma cursor_head:
  assumes "cursor w i (b # bs)" "iter_chunks w i = Some ((a, c) # r)"
  shows "bi_bytes i = Some a \<and> bw_chunks w a = Some c \<and> \<not> is_object c \<and> chain_inv ((a, c) # r) \<and>
    bc_start c \<le> bi_cur i \<and> bi_cur i < bc_end c \<and> bc_end c \<le> length (bc_buf c) \<and>
    b # bs = take (bc_end c - bi_cur i) (drop (bi_cur i) (bc_buf c)) @ content r"
proof -
  from assms have "rest_at ((a, c) # r) (bi_cur i) = b # bs" by (auto simp: cursor_def)
  moreover have "bi_bytes i = Some a" using assms(2) by (simp add: chunks_Cons)
  ultimately show ?thesis
    by (rule_tac cursor_nonempty [OF assms(1)]) (use assms(2) in auto)
qed

lemma normalize_id:
  assumes "cursor w i (b # bs)"
  shows "normalize_iter w i = Some i"
proof -
  obtain a c r where c: "iter_chunks w i = Some ((a, c) # r)" "bi_bytes i = Some a" "\<not> is_object c" "bi_cur i < bc_end c"
    using cursor_nonempty [OF assms] by metis
  have "normalize_loop ((a, c) # r) (bi_cur i) 0 = Some (a, bi_cur i, 0)"
    using c by (cases r) auto
  moreover have "create_iterator (Some a) (bi_cur i) = i" using c(2) by (simp add: create_iterator_def)
  ultimately show ?thesis using c by (simp add: normalize_iter_def)
qed

lemma index_ok:
  assumes "cursor w i (b # bs)" "iter_chunks w i = Some ((a, c) # r)"
  shows "hlt_iterator_bytes_index w i = Some (bc_offset c + int (bi_cur i) - int (bc_start c))"
proof -
  have "bw_chunks w a = Some c" "bi_bytes i = Some a" "\<not> is_object c" "bi_cur i < bc_end c"
    using cursor_head [OF assms] by auto
  then show ?thesis by (simp add: hlt_iterator_bytes_index_def normalize_id [OF assms(1)] min_def)
qed

text \<open>\<open>from_to w i j\<close>: \<open>j\<close> is reached from \<open>i\<close> across data chunks without marks.\<close>

definition from_to :: "bworld \<Rightarrow> bytes_iter \<Rightarrow> bytes_iter \<Rightarrow> bool" where
  "from_to w i j \<longleftrightarrow> (\<exists>us b d r. iter_chunks w i = Some (us @ (b, d) # r) \<and> bi_bytes j = Some b \<and>
     data_only us \<and> offs_cont (us @ [(b, d)]) \<and> (us = [] \<longrightarrow> bi_cur i \<le> bi_cur j))"

definition bfresh :: "bworld \<Rightarrow> bool" where
  "bfresh w \<longleftrightarrow> (\<forall>a. bw_chunks w a \<noteq> None \<longrightarrow> a < bw_next w)"

definition bextends :: "bworld \<Rightarrow> bworld \<Rightarrow> bool" where
  "bextends w w' \<longleftrightarrow> bw_chunks w \<subseteq>\<^sub>m bw_chunks w' \<and> bw_excpt w' = bw_excpt w"

lemma bextends_chunks: "bextends w w' \<Longrightarrow> chunks (bw_chunks w) p = Some xs \<Longrightarrow> chunks (bw_chunks w') p = Some xs"
  by (induction xs arbitrary: p) (force simp: chunks_Cons chunks_Nil bextends_def map_le_def)+

lemma bytes_objI: "cursor w i bs \<Longrightarrow> bi_bytes i = Some a \<Longrightarrow> \<exists>xs. bytes_obj w a xs"
  by (auto simp: cursor_def bytes_obj_def)

lemma sub_internal_end:
  assumes i: "cursor w i bs" "bs \<noteq> []" and j: "cursor w j []"
    and p: "iter_chunks w i = Some xs" "plain xs"
  shows "sub_raw_internal (Some NoMarks) (length bs) (length bs) i j w = Some (True, bs, Some NoMarks, w)"
proof -
  obtain b0 bs' where bs: "bs = b0 # bs'" using i(2) by (cases bs) auto
  obtain a c r where xs: "xs = (a, c) # r"
    using i p(1) bs cursor_nonempty [of w i b0 bs'] by (metis option.inject)
  have c: "bi_bytes i = Some a" "\<not> is_object c" "chain_inv ((a, c) # r)" "bc_start c \<le> bi_cur i" "bi_cur i < bc_end c"
      "bc_end c \<le> length (bc_buf c)" "bs = take (bc_end c - bi_cur i) (drop (bi_cur i) (bc_buf c)) @ content r"
    using cursor_head i(1) p(1) bs xs by auto
  have ne: "\<not> is_end_at ((a, c) # r) (bi_cur i)"
    using cursor_is_end [OF i(1)] i(2) p(1) xs by (simp add: is_end_def)
  obtain q where q: "(if bi_bytes j = None then bytes_end (bi_bytes i) w else Some (j, w)) = Some (q, w)"
      "cursor w q []" "bi_bytes q \<noteq> None"
  proof (cases "bi_bytes j")
    case None
    obtain ys where o: "bytes_obj w a ys" using bytes_objI [OF i(1) c(1)] by blast
    from bytes_end_ok [OF this] obtain q where "bytes_end (Some a) w = Some (q, w)" "cursor w q []" by blast
    moreover from this have "bi_bytes q \<noteq> None"
      by (auto simp: bytes_end_def create_iterator_def split: bind_splits)
    ultimately show thesis using that None c(1) by simp
  qed (use that j in auto)
  have len: "length bs = bc_end c - bi_cur i + length (content r)" using c(5-7) by simp
  have inv: "\<forall>x \<in> set r. chunk_ok (snd x)" "plain r" "bc_marks c = NoMarks"
    using c(3) p(2) xs by (auto simp: chain_inv_def plain_def)
  show ?thesis
  proof (cases "bi_bytes i = bi_bytes q")
    case True
    have "iter_chunks w q = Some ((a, c) # r)" using True p(1) xs by simp
    with q(2) have q': "bi_cur q = bc_end c" "content r = []"
      using c(2,5,6) by (auto simp: cursor_def iter_ok_def)
    have "slice (bc_buf c) (bi_cur i) (bi_cur i + (bc_end c - bi_cur i)) = Some bs"
      using c(5-7) q'(2) by (auto simp: slice_def)
    then show ?thesis
      using p(1) xs ne c(1,2,5) q(1) True q' i(2) len inv(3)
      by (simp add: sub_raw_internal_def copy_marks_def)
  next
    case False
    let ?d = "take (bc_end c - bi_cur i) (drop (bi_cur i) (bc_buf c))"
    let ?z = "dropWhile (\<lambda>x. \<not> is_object (snd x)) r"
    have sl: "slice (bc_buf c) (bi_cur i) (bi_cur i + (bc_end c - bi_cur i)) = Some ?d"
      using c(5,6) by (auto simp: slice_def)
    have n: "min (bc_end c - bi_cur i) (length bs) = bc_end c - bi_cur i" using len by simp
    have sb: "sub_blocks r (bi_bytes q) True (length bs) ?d (Some NoMarks) = Some (bs, Some NoMarks, ?z)"
      using sub_blocks_end [OF inv(2,1), of ?d "length bs" "bi_bytes q"] c(5-7) by simp
    have z: "?z = [] \<or> is_object (snd (hd ?z))" using hd_dropWhile [of "\<lambda>x. \<not> is_object (snd x)" r] by blast
    have "bc_end c - bi_cur i \<noteq> 0" using c(5) by simp
    then show ?thesis
      unfolding sub_raw_internal_def
      using p(1) xs ne c(2) q(1) False i(2) n sl sb inv(3) cursor_is_end [OF q(2)] z
      by (simp add: copy_marks_def) blast
  qed
qed

lemma diff_end:
  assumes "cursor w i bs" "cursor w j []"
  shows "iter_diff w i j = Some (int (length bs))"
proof (cases bs)
  case Nil
  then show ?thesis
    using cursor_is_end [OF assms(1)] cursor_is_end [OF assms(2)]
    by (auto simp: iter_diff_def is_end_def split: bind_splits)
next
  case (Cons b bs')
  then obtain a c r where ch: "iter_chunks w i = Some ((a, c) # r)" using assms(1) cursor_nonempty by metis
  have c: "\<not> is_object c" "chain_inv ((a, c) # r)" "bc_start c \<le> bi_cur i" "bi_cur i < bc_end c"
      "bc_end c \<le> length (bc_buf c)" "bs = take (bc_end c - bi_cur i) (drop (bi_cur i) (bc_buf c)) @ content r"
    using cursor_head [OF assms(1) [unfolded Cons] ch] Cons by auto
  have ne: "\<not> is_end_at ((a, c) # r) (bi_cur i)"
    using cursor_is_end [OF assms(1)] Cons ch by (simp add: is_end_def)
  have "chain_len r = int (length (content r))" using c(2) chain_inv_Cons chain_len_content by blast
  then show ?thesis
    using ch ne c cursor_is_end [OF assms(2)] by (simp add: iter_diff_def Let_def min_def) linarith
qed

lemma sub_internal_mid:
  assumes i: "cursor w i bs1" and j: "cursor w j (b2 # bs2)" and ft: "from_to w i j"
    and p: "iter_chunks w i = Some xs" "plain xs"
  shows "\<exists>bs. bs1 = bs @ b2 # bs2 \<and> iter_diff w i j = Some (int (length bs)) \<and>
    (bs \<noteq> [] \<longrightarrow> sub_raw_internal (Some NoMarks) (length bs) (length bs) i j w = Some (True, bs, Some NoMarks, w))"
proof -
  from ft p(1) obtain us b d r where u: "xs = us @ (b, d) # r" "bi_bytes j = Some b" "data_only us"
    "offs_cont (us @ [(b, d)])" "us = [] \<Longrightarrow> bi_cur i \<le> bi_cur j" unfolding from_to_def by auto
  have chj: "iter_chunks w j = Some ((b, d) # r)" using p(1) u(1,2) chunks_suffix by auto
  have d: "\<not> is_object d" "chain_inv ((b, d) # r)" "bc_start d \<le> bi_cur j" "bi_cur j < bc_end d"
      "bc_end d \<le> length (bc_buf d)" "b2 # bs2 = take (bc_end d - bi_cur j) (drop (bi_cur j) (bc_buf d)) @ content r"
    using cursor_head [OF j chj] by auto
  have rj: "take (bc_end d - bi_cur i) (drop (bi_cur i) (bc_buf d)) =
      take (bi_cur j - bi_cur i) (drop (bi_cur i) (bc_buf d)) @ take (bc_end d - bi_cur j) (drop (bi_cur j) (bc_buf d))"
    if "bi_cur i \<le> bi_cur j" for i :: bytes_iter
    using that d(4,5) take_add [of "bi_cur j - bi_cur i" "bc_end d - bi_cur j" "drop (bi_cur i) (bc_buf d)"] by simp
  have ch: "chain_inv xs" "iter_ok xs (bi_cur i)" "rest_at xs (bi_cur i) = bs1"
    using i p(1) by (auto simp: cursor_def)
  show ?thesis
  proof (cases us)
    case Nil
    let ?bs = "take (bi_cur j - bi_cur i) (drop (bi_cur i) (bc_buf d))"
    have le: "bi_cur i \<le> bi_cur j" using u(5) Nil by simp
    have bs1: "bs1 = ?bs @ b2 # bs2" using ch(3) u(1) Nil d(1) rj [OF le] d(6) by simp
    have len: "length ?bs = bi_cur j - bi_cur i" using d(4,5) by simp
    have "bs1 \<noteq> []" using bs1 by simp
    then obtain b1 bs1' where c1: "cursor w i (b1 # bs1')" using i by (metis neq_Nil_conv)
    have chi: "iter_chunks w i = Some ((b, d) # r)" using p(1) u(1) Nil by simp
    have ne: "\<not> is_end_at ((b, d) # r) (bi_cur i)" "is_end w j = Some False"
      using cursor_is_end [OF c1] chi cursor_is_end [OF j] by (simp_all add: is_end_def)
    have diff: "iter_diff w i j = Some (int (length ?bs))"
      using chi ne index_ok [OF c1 chi] index_ok [OF j chj] le len by (simp add: iter_diff_def)
    have "slice (bc_buf d) (bi_cur i) (bi_cur j) = Some ?bs" using le d(4,5) by (simp add: slice_def)
    moreover have "bi_bytes i = Some b" "bc_marks d = NoMarks"
      using chi p(2) u(1) by (auto simp: chunks_Cons plain_def)
    ultimately have "sub_raw_internal (Some NoMarks) (length ?bs) (length ?bs) i j w = Some (True, ?bs, Some NoMarks, w)"
      if "?bs \<noteq> []"
      unfolding sub_raw_internal_def len using that chi ne(1) u(2) d(1) le by (simp add: copy_marks_def)
    then show ?thesis using bs1 diff by blast
  next
    case (Cons x vs)
    obtain a c where x: "x = (a, c)" by (cases x)
    have chi: "iter_chunks w i = Some ((a, c) # vs @ (b, d) # r)" using p(1) u(1) Cons x by simp
    have cd: "\<not> is_object c" "data_only vs" "plain vs" "bc_marks c = NoMarks" "bc_marks d = NoMarks"
      "\<forall>y \<in> set (us @ [(b, d)]). chunk_ok (snd y)"
      using u(1,3) p(2) ch(1) Cons x by (auto simp: data_only_def plain_def chain_inv_def)
    let ?e = "take (bc_end c - bi_cur i) (drop (bi_cur i) (bc_buf c))"
    let ?f = "take (bi_cur j - bc_start d) (drop (bc_start d) (bc_buf d))"
    let ?bs = "?e @ content vs @ ?f"
    have "content ((b, d) # r) = ?f @ b2 # bs2"
      using rj [of "create_iterator None (bc_start d)"] d(1,3,6) by (simp add: create_iterator_def chunk_data_def)
    then have bs1: "bs1 = ?bs @ b2 # bs2"
      using ch(3) u(1) Cons x cd(1) by (simp add: content_append [OF cd(2)])
    have "bs1 \<noteq> []" using bs1 by simp
    then obtain b1 bs1' where c1: "cursor w i (b1 # bs1')" using i by (metis neq_Nil_conv)
    have c: "bi_bytes i = Some a" "bc_start c \<le> bi_cur i" "bi_cur i < bc_end c" "bc_end c \<le> length (bc_buf c)"
      using cursor_head [OF c1 chi] by auto
    have len: "length ?e = bc_end c - bi_cur i" "length ?f = bi_cur j - bc_start d" using c d(4,5) by simp_all
    have ne: "\<not> is_end_at ((a, c) # vs @ (b, d) # r) (bi_cur i)" "is_end w j = Some False"
      using cursor_is_end [OF c1] chi cursor_is_end [OF j] by (simp_all add: is_end_def)
    have "bc_offset d = bc_offset c + int (length (content us))"
      using offs_cont_append [OF u(4,3)] cd(6) Cons x by simp
    moreover have "int (length (content us)) = int (bc_end c) - int (bc_start c) + int (length (content vs))"
      using Cons x cd(1,6) c(2,3) by (simp add: length_chunk_data)
    ultimately have diff: "iter_diff w i j = Some (int (length ?bs))"
      using chi ne index_ok [OF c1 chi] index_ok [OF j chj] c(2,3) d(3) len by (simp add: iter_diff_def)
    have ab: "a \<noteq> b" "b \<notin> fst ` set vs" using chunks_distinct [OF chi] by auto
    have n: "length ?bs = bc_end c - bi_cur i + length (content vs) + (bi_cur j - bc_start d)" using len by simp
    define e where "e = ?e"
    define bs where "bs = ?bs"
    have m: "min (bc_end c - bi_cur i) (length bs) = bc_end c - bi_cur i" "bc_end c - bi_cur i \<noteq> 0"
      unfolding bs_def n using c(3) by simp_all
    have sl: "slice (bc_buf c) (bi_cur i) (bi_cur i + (bc_end c - bi_cur i)) = Some e"
      using c(3,4) by (simp add: slice_def e_def)
    have sb: "sub_blocks (vs @ (b, d) # r) (Some b) False (length bs) e (Some NoMarks) =
        Some (e @ content vs, Some NoMarks, (b, d) # r)"
      unfolding bs_def e_def
      using sub_blocks_upto [OF cd(2,3) _ ab(2), of ?e "length ?bs" d r] cd(6) Cons x by simp
    have sla: "sub_last d (bi_cur j) (length bs) (e @ content vs) (Some NoMarks) = Some (bs, Some NoMarks)"
      unfolding bs_def e_def using d(3-5) cd(5) n len by (simp add: sub_last_def slice_def min_def)
    have "bs \<noteq> []" using len(1) c(3) by (auto simp: bs_def)
    then have "sub_raw_internal (Some NoMarks) (length bs) (length bs) i j w = Some (True, bs, Some NoMarks, w)"
      unfolding sub_raw_internal_def
      using chi ne u(2) c(1) ab(1) cd(1,4) m sl sb sla d(1) by (simp add: copy_marks_def)
    then show ?thesis using bs1 diff unfolding bs_def by blast
  qed
qed

text \<open>A new bytes object of one chunk, with nothing else changed.\<close>

definition new_bytes :: "bworld \<Rightarrow> bworld \<Rightarrow> addr \<Rightarrow> byte list \<Rightarrow> bool" where
  "new_bytes w w' dst bs \<longleftrightarrow> (\<exists>c. bytes_obj w' dst [(dst, c)] \<and> chunk_data c = bs \<and> \<not> is_object c \<and>
     bc_frozen c = False \<and> bw_chunks w dst = None) \<and> bextends w w' \<and> bfresh w'"

lemma alloc_new:
  assumes "bfresh w" "chunk_ok c" "\<not> is_object c" "bc_next c = None" "\<not> bc_frozen c"
    "alloc_chunk c w = (dst, w')"
  shows "new_bytes w w' dst (chunk_data c)"
proof -
  have fr: "bw_chunks w (bw_next w) = None" using assms(1) by (force simp: bfresh_def)
  have "bw_chunks w \<subseteq>\<^sub>m (bw_chunks w)(bw_next w \<mapsto> c)" using fr by (auto simp: map_le_def)
  moreover have "bfresh w'"
    using assms(1,6) unfolding bfresh_def alloc_chunk_def by (auto split: if_splits) (metis less_SucI option.distinct(1))
  ultimately show ?thesis
    using assms fr
    by (auto simp: new_bytes_def bytes_obj_def alloc_chunk_def chunks_Some chain_inv_def bextends_def)
qed

lemma filled_chunk_ok:
  "\<exists>c. filled_chunk (length bs) bs ms = Some c \<and> chunk_ok c \<and> \<not> is_object c \<and> bc_next c = None \<and>
     \<not> bc_frozen c \<and> chunk_data c = bs"
  by (simp add: filled_chunk_def bytes_init_def chunk_ok_def is_object_def chunk_data_def reserve_for_def)

lemma new_chunk_ok:
  "bfresh w \<Longrightarrow> bytes_new_chunk bs w = (dst, w') \<Longrightarrow> new_bytes w w' dst bs"
  using alloc_new [of w "bytes_init bs (reserve_for (length bs))" dst w']
  by (simp add: bytes_new_chunk_def bytes_init_def chunk_ok_def is_object_def chunk_data_def)

lemma filled_alloc:
  assumes "bfresh w"
  shows "\<exists>c dst w'. filled_chunk (length bs) bs ms = Some c \<and> alloc_chunk c w = (dst, w') \<and> new_bytes w w' dst bs"
  using filled_chunk_ok [of bs ms] alloc_new [OF assms] by (metis surj_pair)

theorem sub_ok:
  assumes i: "cursor w i bs1" "iter_chunks w i = Some xs" "plain xs" and j: "cursor w j bs2"
    and ft: "bs2 \<noteq> [] \<Longrightarrow> from_to w i j" and fr: "bfresh w"
  shows "\<exists>bs dst w'. bs1 = bs @ bs2 \<and> hlt_bytes_sub i j w = Some (Some dst, w') \<and> new_bytes w w' dst bs"
proof (cases "bs1 = []")
  case True
  then obtain i' j' where n: "normalize_iter w i = Some i'" "cursor w i' []" "normalize_iter w j = Some j'" "cursor w j' bs2"
    using normalize_ok cursor_position i(1) j by metis
  have "bs2 = []" using sub_internal_mid [of w i "[]" j _ _ xs] i j ft True by (cases bs2) auto
  then have "iter_diff w i' j' = Some 0" using diff_end n(2,4) by fastforce
  then show ?thesis
    using n(1,3) True \<open>bs2 = []\<close> new_chunk_ok [OF fr]
    by (auto simp: hlt_bytes_sub_def split: prod.splits)
next
  case False
  then have ni: "normalize_iter w i = Some i" using normalize_id i(1) by (metis neq_Nil_conv)
  obtain j' where nj: "normalize_iter w j = Some j'" "cursor w j' bs2" "bs2 \<noteq> [] \<Longrightarrow> j' = j"
    using normalize_ok [OF cursor_position [OF j]] normalize_id j by (metis neq_Nil_conv option.inject)
  obtain bs where bs: "bs1 = bs @ bs2" "iter_diff w i j' = Some (int (length bs))"
    "bs \<noteq> [] \<Longrightarrow> sub_raw_internal (Some NoMarks) (length bs) (length bs) i j' w = Some (True, bs, Some NoMarks, w)"
  proof (cases bs2)
    case Nil
    then show thesis
      using that [of bs1] diff_end [OF i(1)] sub_internal_end [OF i(1) False _ i(2,3)] nj(2) by simp
  next
    case (Cons b2 bs2')
    then show thesis
      using that sub_internal_mid [OF i(1) _ ft i(2,3)] nj j by auto
  qed
  obtain c dst w' where c: "filled_chunk (length bs) bs NoMarks = Some c" "alloc_chunk c w = (dst, w')" "new_bytes w w' dst bs"
    using filled_alloc [OF fr] by blast
  obtain dst0 w0 where c0: "bytes_new_chunk [] w = (dst0, w0)" "new_bytes w w0 dst0 []"
    using new_chunk_ok [OF fr] by (metis surj_pair)
  show ?thesis
    using ni nj(1) bs c c0 by (cases "bs = []") (auto simp: hlt_bytes_sub_def)
qed

section \<open>Copying and appending\<close>

lemma copy_chain_ok:
  assumes "chain_inv xs" "plain xs"
  shows "copy_chain xs out ms = Some (out @ content xs, ms)"
  using assms
proof (induction xs arbitrary: out)
  case (Cons x xs)
  obtain a c where x: "x = (a, c)" by (cases x)
  have c: "chunk_ok c" "chain_inv xs" using Cons.prems(1) x by (auto dest: chain_inv_Cons)
  have "bc_marks c = NoMarks" "plain xs" using Cons.prems(2) x by (auto simp: plain_def)
  then show ?case using Cons.IH [OF c(2)] x c(1) slice_data [OF c(1)] by (simp add: copy_marks_def)
qed simp

lemma map_chain_ok:
  assumes "chain_inv xs" "plain xs"
  shows "map_chain f xs out ms = Some (out @ map f (content xs), ms)"
  using assms
proof (induction xs arbitrary: out)
  case (Cons x xs)
  obtain a c where x: "x = (a, c)" by (cases x)
  have c: "chunk_ok c" "chain_inv xs" using Cons.prems(1) x by (auto dest: chain_inv_Cons)
  have "bc_marks c = NoMarks" "plain xs" using Cons.prems(2) x by (auto simp: plain_def)
  then show ?case using Cons.IH [OF c(2)] x c(1) slice_data [OF c(1)] by (simp add: copy_marks_def)
qed simp

lemma map_ok:
  assumes o: "bytes_obj w b xs" "plain xs" and fr: "bfresh w"
  shows "\<exists>dst w'. bytes_map f (Some b) w = Some (Some dst, w') \<and> new_bytes w w' dst (map f (content xs))"
proof -
  let ?bs = "map f (content xs)"
  obtain c dst w' where c: "filled_chunk (length ?bs) ?bs NoMarks = Some c" "alloc_chunk c w = (dst, w')" "new_bytes w w' dst ?bs"
    using filled_alloc [OF fr] by blast
  have ch: "chunks (bw_chunks w) (Some b) = Some xs" "chain_inv xs" using o(1) by (auto simp: bytes_obj_def)
  show ?thesis
    using c map_chain_ok [OF ch(2) o(2)] ch(1) len_ok [OF o(1)] by (simp add: bytes_map_def)
qed

lemma concat_ok:
  assumes o: "bytes_obj w b1 xs" "plain xs" "bytes_obj w b2 ys" "plain ys" and fr: "bfresh w"
  shows "\<exists>dst w'. hlt_bytes_concat (Some b1) (Some b2) w = Some (Some dst, w') \<and>
    new_bytes w w' dst (content xs @ content ys)"
proof -
  let ?bs = "content xs @ content ys"
  obtain c dst w' where c: "filled_chunk (length ?bs) ?bs NoMarks = Some c" "alloc_chunk c w = (dst, w')" "new_bytes w w' dst ?bs"
    using filled_alloc [OF fr] by blast
  have ch: "chunks (bw_chunks w) (Some b1) = Some xs" "chain_inv xs" "chunks (bw_chunks w) (Some b2) = Some ys" "chain_inv ys"
    using o by (auto simp: bytes_obj_def)
  show ?thesis
    using c copy_chain_ok [OF ch(2) o(2)] copy_chain_ok [OF ch(4) o(4)] ch(1,3) len_ok [OF o(1)] len_ok [OF o(3)]
    by (simp add: hlt_bytes_concat_def nat_add_distrib)
qed

lemma copy_ok:
  assumes o: "bytes_obj w b xs" "plain xs" "data_only xs" and fr: "bfresh w"
  shows "\<exists>dst w'. hlt_bytes_copy (Some b) w = Some (Some dst, w') \<and> new_bytes w w' dst (content xs)"
proof -
  obtain c dst w' where c: "filled_chunk (length (content xs)) (content xs) NoMarks = Some c" "alloc_chunk c w = (dst, w')"
    "new_bytes w w' dst (content xs)" using filled_alloc [OF fr] by blast
  have ch: "chunks (bw_chunks w) (Some b) = Some xs" "chain_inv xs" using o(1) by (auto simp: bytes_obj_def)
  show ?thesis
    using c copy_chain_ok [OF ch(2) o(2)] ch(1) len_ok [OF o(1)] o(3)
    by (simp add: hlt_bytes_copy_def data_only_def)
qed

text \<open>Adding a chunk \<open>c\<close> behind the last chunk.\<close>

lemma chunks_snoc:
  assumes "chunks h p = Some (us @ [(t, tc)])" "h' t = Some (tc\<lparr>bc_next := Some c\<rparr>)" "h' c = Some cc" "bc_next cc = None"
    "\<And>a. a \<in> fst ` set us \<Longrightarrow> h' a = h a"
  shows "chunks h' p = Some (us @ [(t, tc\<lparr>bc_next := Some c\<rparr>), (c, cc)])"
  using assms
proof (induction us arbitrary: p)
  case (Cons x us)
  then show ?case by (cases x) (auto simp: chunks_Cons)
qed (auto simp: chunks_Cons chunks_Nil)

lemma no_gaps_snoc: "no_gaps (us @ [(t, tc)]) \<Longrightarrow> bc_start cc < bc_end cc \<Longrightarrow>
    no_gaps (us @ [(t, tc\<lparr>bc_next := n\<rparr>), (c, cc)])"
proof (induction us)
  case (Cons x us)
  then show ?case by (cases x; cases us) (auto simp: is_object_def)
qed auto

lemma offs_cont_snoc: "offs_cont (us @ [(t, tc)]) \<Longrightarrow>
    bc_offset cc = bc_offset tc + (if is_object tc then 0 else int (bc_end tc) - int (bc_start tc)) \<Longrightarrow>
    offs_cont (us @ [(t, tc\<lparr>bc_next := n\<rparr>), (c, cc)])"
proof (induction us)
  case (Cons x us)
  then show ?case by (cases x; cases us) (auto simp: is_object_def)
qed (auto simp: is_object_def)

lemma tail_chunk_True: "tail_chunk True (us @ [x]) = Some x"
proof (induction us)
  case (Cons y us)
  then show ?case by (cases us) auto
qed simp

lemma chunk_data_cong [simp]: "chunk_data (c\<lparr>bc_next := n\<rparr>) = chunk_data c" "chunk_data (c\<lparr>bc_offset := k\<rparr>) = chunk_data c"
  "chunk_data (c\<lparr>bc_frozen := f\<rparr>) = chunk_data c" "chunk_data (c\<lparr>bc_marks := m\<rparr>) = chunk_data c"
  by (simp_all add: chunk_data_def)

lemma is_object_cong [simp]: "is_object (c\<lparr>bc_next := n\<rparr>) = is_object c" "is_object (c\<lparr>bc_offset := k\<rparr>) = is_object c"
  "is_object (c\<lparr>bc_frozen := f\<rparr>) = is_object c" "is_object (c\<lparr>bc_marks := m\<rparr>) = is_object c"
  "is_object (c\<lparr>bc_start := s\<rparr>) = is_object c"
  by (simp_all add: is_object_def)

lemma chunk_ok_cong [simp]: "chunk_ok (c\<lparr>bc_next := n\<rparr>) = chunk_ok c" "chunk_ok (c\<lparr>bc_offset := k\<rparr>) = chunk_ok c"
  "chunk_ok (c\<lparr>bc_frozen := f\<rparr>) = chunk_ok c" "chunk_ok (c\<lparr>bc_marks := m\<rparr>) = chunk_ok c"
  by (simp_all add: chunk_ok_def)

lemma content_snoc: "data_only (us @ [(t, tc)]) \<Longrightarrow> \<not> is_object cc \<Longrightarrow>
    content (us @ [(t, tc\<lparr>bc_next := n\<rparr>), (c, cc)]) = content (us @ [(t, tc)]) @ chunk_data cc"
  by (simp add: content_append data_only_def)

text \<open>
  \<open>appended w w' b xs bs\<close>: the object \<open>b\<close> with chunks \<open>xs\<close> in \<open>w\<close> has one more chunk with the bytes
  \<open>bs\<close> in \<open>w'\<close>; the other chunks of the store are unchanged.
\<close>

definition unfrozen :: "chain \<Rightarrow> bool" where
  "unfrozen xs \<longleftrightarrow> (\<forall>x \<in> set xs. \<not> bc_frozen (snd x))"

definition appended :: "bworld \<Rightarrow> bworld \<Rightarrow> addr \<Rightarrow> chain \<Rightarrow> byte list \<Rightarrow> bool" where
  "appended w w' b xs bs \<longleftrightarrow> (\<exists>us t tc c cc. xs = us @ [(t, tc)] \<and>
     bytes_obj w' b (us @ [(t, tc\<lparr>bc_next := Some c\<rparr>), (c, cc)]) \<and>
     \<not> is_object cc \<and> \<not> bc_frozen cc \<and> bc_marks cc = NoMarks \<and> chunk_data cc = bs \<and>
     bc_offset cc = bc_offset tc + (if is_object tc then 0 else int (bc_end tc) - int (bc_start tc)) \<and>
     bw_chunks w c = None \<and> bw_excpt w' = bw_excpt w \<and> bfresh w' \<and>
     (\<forall>a. a \<noteq> t \<longrightarrow> a \<noteq> c \<longrightarrow> bw_chunks w' a = bw_chunks w a))"

lemma chunk_data_nonempty: "chunk_data c \<noteq> [] \<Longrightarrow> bc_start c < bc_end c"
  by (auto simp: chunk_data_def)

lemma chain_inv_snoc:
  assumes "chain_inv (us @ [(t, tc)])" "chunk_ok cc" "bc_start cc < bc_end cc"
  shows "chain_inv (us @ [(t, tc\<lparr>bc_next := n\<rparr>), (c, cc)])"
  using assms no_gaps_snoc [of us t tc cc n c] by (auto simp: chain_inv_def)

lemma append_chunk_ok:
  assumes o: "bytes_obj w b xs" "plain xs" "unfrozen xs" and fr: "bfresh w"
    and c: "chunk_ok c" "\<not> is_object c" "bc_next c = None" "\<not> bc_frozen c" "bc_marks c = NoMarks" "chunk_data c \<noteq> []"
    and al: "alloc_chunk c w = (dst, w1)"
  shows "\<exists>w'. chunks (bw_chunks w1) (Some b) = Some xs \<and>
    add_chunk (map_option fst (tail_chunk True xs)) dst w1 = Some w' \<and> appended w w' b xs (chunk_data c)"
proof -
  have ch: "chunks (bw_chunks w) (Some b) = Some xs" "chain_inv xs" using o(1) by (auto simp: bytes_obj_def)
  have "xs \<noteq> []" using bytes_obj_Cons [OF o(1)] by auto
  then obtain us t tc where xs: "xs = us @ [(t, tc)]" by (metis rev_exhaust surj_pair)
  have nb: "new_bytes w w1 dst (chunk_data c)" using alloc_new [OF fr c(1-4) al] .
  have w1: "bw_chunks w1 = (bw_chunks w)(dst \<mapsto> c)" "bw_chunks w dst = None" "bw_excpt w1 = bw_excpt w" "bfresh w1"
    using al nb by (auto simp: alloc_chunk_def new_bytes_def bextends_def)
  have ch1: "chunks (bw_chunks w1) (Some b) = Some xs" using nb ch(1) bextends_chunks by (auto simp: new_bytes_def)
  have t: "bw_chunks w t = Some tc" "bc_next tc = None" "\<not> bc_frozen tc" "bc_marks tc = NoMarks"
    using chunks_lookup [OF ch(1)] chunks_suffix [OF ch(1) [unfolded xs]] o(2,3) xs
    by (auto simp: plain_def unfrozen_def chunks_Cons chunks_Nil)
  have td: "t \<noteq> dst" using t(1) w1(2) by auto
  let ?k = "bc_offset tc + (if is_object tc then 0 else int (bc_end tc) - int (bc_start tc))"
  let ?w' = "w1\<lparr>bw_chunks := (bw_chunks w1)(t \<mapsto> tc\<lparr>bc_next := Some dst\<rparr>, dst \<mapsto> c\<lparr>bc_offset := ?k\<rparr>)\<rparr>"
  have "link_chunk t dst w1 = Some ?w'" using t td w1 by (simp add: link_chunk_def)
  then have add: "add_chunk (map_option fst (tail_chunk True xs)) dst w1 = Some ?w'"
    using t(4) td by (simp add: add_chunk_def xs tail_chunk_True)
  have us: "a \<noteq> t \<and> a \<noteq> dst" if "a \<in> fst ` set us" for a
    using chunks_distinct [OF ch(1)] that xs chunks_lookup [OF ch(1)] w1(2) by force
  have cc: "chunk_ok (c\<lparr>bc_offset := ?k\<rparr>)" "bc_start (c\<lparr>bc_offset := ?k\<rparr>) < bc_end (c\<lparr>bc_offset := ?k\<rparr>)"
    using c(1,6) chunk_data_nonempty by simp_all
  have "chunks (bw_chunks ?w') (Some b) = Some (us @ [(t, tc\<lparr>bc_next := Some dst\<rparr>), (dst, c\<lparr>bc_offset := ?k\<rparr>)])"
    by (rule chunks_snoc [OF ch1 [unfolded xs]]) (use td c(3) us in auto)
  then have "bytes_obj ?w' b (us @ [(t, tc\<lparr>bc_next := Some dst\<rparr>), (dst, c\<lparr>bc_offset := ?k\<rparr>)])"
    using chain_inv_snoc [OF ch(2) [unfolded xs] cc] by (simp add: bytes_obj_def)
  moreover have "bfresh ?w'" using w1(4) w1(1) t(1) td by (auto simp: bfresh_def)
  ultimately have "appended w ?w' b xs (chunk_data c)"
    unfolding appended_def using xs c(2,4,5) w1
    by (intro exI [of _ us] exI [of _ t] exI [of _ tc] exI [of _ dst] exI [of _ "c\<lparr>bc_offset := ?k\<rparr>"]) simp
  then show ?thesis using ch1 add by blast
qed

lemma bytes_append_ok:
  assumes o: "bytes_obj w b xs" "plain xs" "unfrozen xs" and p: "bytes_obj w oth ys" "plain ys" "content ys \<noteq> []"
    and fr: "bfresh w"
  shows "\<exists>w'. hlt_bytes_append (Some b) (Some oth) w = Some w' \<and> appended w w' b xs (content ys)"
proof -
  have ch: "chunks (bw_chunks w) (Some oth) = Some ys" "chain_inv ys" using p(1) by (auto simp: bytes_obj_def)
  obtain c where c: "filled_chunk (length (content ys)) (content ys) NoMarks = Some c" "chunk_ok c" "\<not> is_object c"
    "bc_next c = None" "\<not> bc_frozen c" "chunk_data c = content ys" "bc_marks c = NoMarks"
    using filled_chunk_ok [of "content ys" NoMarks] by (auto simp: filled_chunk_def bytes_init_def split: if_splits)
  obtain dst w1 where al: "alloc_chunk c w = (dst, w1)" by (cases "alloc_chunk c w")
  from append_chunk_ok [OF o fr c(2-5,7) _ al] obtain w' where w': "chunks (bw_chunks w1) (Some b) = Some xs"
    "add_chunk (map_option fst (tail_chunk True xs)) dst w1 = Some w'" "appended w w' b xs (content ys)"
    using p(3) c(6) by auto
  obtain hc r where h: "xs = (b, hc) # r" "bw_chunks w b = Some hc" using bytes_obj_Cons [OF o(1)] by blast
  have "\<not> bc_frozen hc" using o(3) h(1) by (simp add: unfrozen_def)
  then show ?thesis
    using h(2) len_ok [OF p(1)] p(3) ch(1) copy_chain_ok [OF ch(2) p(2)] c(1) al w'
    by (simp add: hlt_bytes_append_def is_frozen_def)
qed

lemma appended_content:
  assumes "appended w w' b xs bs" "data_only xs"
  shows "\<exists>xs'. bytes_obj w' b xs' \<and> content xs' = content xs @ bs \<and> data_only xs'"
proof -
  from assms(1) obtain us t tc c cc where a: "xs = us @ [(t, tc)]"
    "bytes_obj w' b (us @ [(t, tc\<lparr>bc_next := Some c\<rparr>), (c, cc)])" "\<not> is_object cc" "chunk_data cc = bs"
    unfolding appended_def by blast
  then show ?thesis
    using content_snoc [of us t tc cc "Some c" c] assms(2)
    by (intro exI [of _ "us @ [(t, tc\<lparr>bc_next := Some c\<rparr>), (c, cc)]"]) (auto simp: data_only_def)
qed

lemma rest_at_snoc:
  assumes "data_only (vs @ [(t, tc)])" "\<not> is_object cc"
  shows "rest_at (vs @ [(t, tc\<lparr>bc_next := n\<rparr>), (c, cc)]) k = rest_at (vs @ [(t, tc)]) k @ chunk_data cc"
  using assms by (cases vs) (auto simp: data_only_def content_append)

lemma appended_position:
  assumes ap: "appended w w' b (ws @ zs) bs" "data_only (ws @ zs)"
    and i: "iter_chunks w i = Some zs" "zs \<noteq> []" "iter_ok zs (bi_cur i)" "rest_at zs (bi_cur i) = cs"
  shows "position w' i (cs @ bs)"
proof -
  from ap(1) obtain us t tc c cc where a: "ws @ zs = us @ [(t, tc)]"
    "bytes_obj w' b (us @ [(t, tc\<lparr>bc_next := Some c\<rparr>), (c, cc)])" "\<not> is_object cc" "chunk_data cc = bs"
    unfolding appended_def by blast
  from a(1) i(2) obtain vs where zs: "zs = vs @ [(t, tc)]" "us = ws @ vs"
    by (cases zs rule: rev_exhaust) auto
  let ?zs = "vs @ [(t, tc\<lparr>bc_next := Some c\<rparr>), (c, cc)]"
  have o: "chunks (bw_chunks w') (Some b) = Some (ws @ ?zs)" "chain_inv (ws @ ?zs)"
    using a(2) zs(2) by (auto simp: bytes_obj_def)
  have ib: "bi_bytes i = Some (fst (hd zs))" using i(1,2) by (cases zs) (auto simp: chunks_Cons)
  have "iter_chunks w' i = Some ?zs"
  proof (cases vs)
    case Nil
    then show ?thesis using chunks_suffix [OF o(1) [unfolded Nil append_Nil]] ib zs(1) by simp
  next
    case (Cons y r)
    then show ?thesis using chunks_suffix_pair [of _ _ ws y] o(1) ib zs(1) by simp
  qed
  moreover have "iter_ok ?zs (bi_cur i)" using i(3) zs(1) by (cases vs) (auto simp: iter_ok_def)
  moreover have "rest_at ?zs (bi_cur i) = cs @ bs"
    using rest_at_snoc [of vs t tc cc "Some c" c] ap(2) zs a(3,4) i(4) by (auto simp: data_only_def)
  moreover have "chain_inv ?zs" using o(2) chain_inv_append by blast
  ultimately show ?thesis unfolding position_def by blast
qed

section \<open>Freezing, trimming, extracting\<close>

lemma frozen_append:
  assumes "bw_chunks w b = Some c" "bc_frozen c"
  shows "hlt_bytes_append (Some b) oth w = Some (bytes_error ValueError w)"
    and "raw \<noteq> [] \<Longrightarrow> hlt_bytes_append_raw (Some b) raw w = Some (bytes_error ValueError w)"
  using assms by (simp_all add: hlt_bytes_append_def hlt_bytes_append_raw_def bytes_append_raw_def is_frozen_def)

definition freeze_pairs :: "bool \<Rightarrow> chain \<Rightarrow> chain" where
  "freeze_pairs f xs = map (apsnd (\<lambda>c. c\<lparr>bc_frozen := f\<rparr>)) xs"

lemma freeze_chain_other: "a \<notin> fst ` set xs \<Longrightarrow> freeze_chain f xs h a = h a"
  unfolding freeze_chain_def by (induction xs arbitrary: h) auto

lemma freeze_chain_in: "distinct (map fst xs) \<Longrightarrow> (a, c) \<in> set xs \<Longrightarrow> freeze_chain f xs h a = Some (c\<lparr>bc_frozen := f\<rparr>)"
proof (induction xs arbitrary: h)
  case (Cons x xs)
  obtain a' c' where x: "x = (a', c')" by (cases x)
  have step: "freeze_chain f (x # xs) h = freeze_chain f xs (h(a' \<mapsto> c'\<lparr>bc_frozen := f\<rparr>))"
    by (simp add: freeze_chain_def x)
  show ?case
  proof (cases "(a, c) \<in> set xs")
    case True
    then show ?thesis using Cons step by simp
  next
    case False
    then have "a = a'" "c = c'" using Cons.prems(2) x by auto
    then show ?thesis using Cons.prems(1) x step freeze_chain_other [of a xs f] by simp
  qed
qed simp

lemma freeze_chunks:
  assumes "chunks h p = Some ys" "\<And>a c. (a, c) \<in> set ys \<Longrightarrow> h' a = Some (c\<lparr>bc_frozen := f\<rparr>)"
  shows "chunks h' p = Some (freeze_pairs f ys)"
  using assms by (induction ys arbitrary: p) (auto simp: chunks_Cons chunks_Nil freeze_pairs_def)

lemma content_freeze [simp]: "content (freeze_pairs f xs) = content xs"
  by (induction xs) (auto simp: freeze_pairs_def)

lemma chain_inv_freeze: "chain_inv xs \<Longrightarrow> chain_inv (freeze_pairs f xs)"
  unfolding chain_inv_def by (auto simp: freeze_pairs_def) (induction xs rule: no_gaps.induct, auto)

lemma freeze_ok:
  assumes o: "bytes_obj w b xs"
  shows "\<exists>w'. hlt_bytes_freeze (Some b) f w = Some w' \<and> bytes_obj w' b (freeze_pairs f xs) \<and> bw_excpt w' = bw_excpt w"
proof -
  have ch: "chunks (bw_chunks w) (Some b) = Some xs" "chain_inv xs" using o by (auto simp: bytes_obj_def)
  have "chunks (freeze_chain f xs (bw_chunks w)) (Some b) = Some (freeze_pairs f xs)"
    using freeze_chunks [OF ch(1)] freeze_chain_in [OF chunks_distinct [OF ch(1)]] by blast
  then show ?thesis using ch chain_inv_freeze by (auto simp: hlt_bytes_freeze_def bytes_obj_def)
qed

lemma chunks_replace_head:
  assumes "chunks h (Some b) = Some ((b, c) # us @ (n, d) # r)"
  shows "chunks (h(n \<mapsto> d\<lparr>bc_offset := k, bc_start := st\<rparr>, b \<mapsto> c'\<lparr>bc_next := Some n\<rparr>)) (Some b) =
    Some ((b, c'\<lparr>bc_next := Some n\<rparr>) # (n, d\<lparr>bc_offset := k, bc_start := st\<rparr>) # r)"
proof -
  have d: "distinct (map fst ((b, c) # us @ (n, d) # r))" using chunks_distinct [OF assms] .
  have "chunks h (Some n) = Some ((n, d) # r)" by (rule chunks_suffix [of h "Some b" "(b, c) # us"]) (simp add: assms)
  then have "chunks h (bc_next d) = Some r" by (simp add: chunks_Cons)
  then have "chunks (h(n \<mapsto> d\<lparr>bc_offset := k, bc_start := st\<rparr>, b \<mapsto> c'\<lparr>bc_next := Some n\<rparr>)) (bc_next d) = Some r"
    using d by (intro chunks_frame) auto
  then show ?thesis using d by (simp add: chunks_Some)
qed

lemma pred_chunk_found:
  "chunks h p = Some (xs @ (n, d) # r) \<Longrightarrow> xs \<noteq> [] \<Longrightarrow> pred_chunk (xs @ (n, d) # r) (Some n) \<noteq> None"
proof (induction xs arbitrary: p)
  case (Cons x xs)
  obtain a c where x: "x = (a, c)" by (cases x)
  show ?case
  proof (cases xs)
    case Nil
    then show ?thesis using Cons.prems x by (auto simp: chunks_Cons)
  next
    case (Cons y ys)
    have "chunks h (bc_next c) = Some (xs @ (n, d) # r)" using Cons.prems(1) x by (simp add: chunks_Cons)
    then show ?thesis using Cons.IH \<open>xs = y # ys\<close> x by simp
  qed
qed simp

lemma rest_as_start:
  "\<not> is_object d \<Longrightarrow> content ((n, d\<lparr>bc_offset := k, bc_start := st\<rparr>) # r) = rest_at ((n, d) # r) st"
  by (simp add: chunk_data_def)

text \<open>At the end of the data nothing is trimmed.\<close>

lemma trim_end:
  assumes i: "cursor w i []" and zs: "iter_chunks w i = Some zs" "zs \<noteq> []" "data_only zs"
  shows "hlt_bytes_trim b i w = Some w"
proof -
  obtain a c r where z: "zs = (a, c) # r" using zs(2) by (cases zs) auto
  have c: "\<not> is_object c" using zs(3) z by (simp add: data_only_def)
  have a: "bi_bytes i = Some a" using zs(1) z by (cases "bi_bytes i") (auto simp: chunks_Cons)
  have "\<not> bi_cur i < bc_end c" using i zs(1) z c by (auto simp: cursor_def chain_inv_def chunk_ok_def)
  then have "r = []" using i zs z by (cases r) (auto simp: cursor_def norm_at_def data_only_def)
  then have "normalize_iter w i = Some i" using zs(1) z c a by (simp add: normalize_iter_def create_iterator_def)
  then show ?thesis using cursor_is_end [OF i] zs(1) z c by (simp add: hlt_bytes_trim_def at_object_def)
qed

lemma trim_ok:
  assumes o: "bytes_obj w b xs" "\<not> is_object (snd (hd xs))" and i: "cursor w i (b0 # bs)"
    and xs: "xs = us @ zs" "iter_chunks w i = Some zs"
  shows "\<exists>w' xs'. hlt_bytes_trim b i w = Some w' \<and> bytes_obj w' b xs' \<and> content xs' = b0 # bs \<and> bw_excpt w' = bw_excpt w"
proof -
  have ch: "chunks (bw_chunks w) (Some b) = Some xs" "chain_inv xs" using o(1) by (auto simp: bytes_obj_def)
  obtain n d r where zs: "zs = (n, d) # r" using i xs(2) cursor_nonempty by (metis option.inject)
  have d: "bi_bytes i = Some n" "bw_chunks w n = Some d" "\<not> is_object d" "chain_inv ((n, d) # r)"
    "bc_start d \<le> bi_cur i" "bi_cur i < bc_end d" "bc_end d \<le> length (bc_buf d)"
    using cursor_head [OF i xs(2) [unfolded zs]] by auto
  have rest: "rest_at ((n, d) # r) (bi_cur i) = b0 # bs" using i xs(2) zs by (auto simp: cursor_def)
  let ?d = "d\<lparr>bc_offset := bc_offset d + (int (bi_cur i) - int (bc_start d)), bc_start := bi_cur i\<rparr>"
  have inv: "chain_inv ((n, ?d) # r)"
    using d(4-7) chain_inv_def d(3) by (cases r) (auto simp: chain_inv_def chunk_ok_def)
  have nor: "normalize_iter w i = Some i" "is_end w i = Some False" "at_object w i = Some False"
    using normalize_id [OF i] cursor_is_end [OF i] xs(2) zs d(3) by (simp_all add: at_object_def)
  obtain c0 r0 where h0: "xs = (b, c0) # r0" "bw_chunks w b = Some c0" using bytes_obj_Cons [OF o(1)] by blast
  show ?thesis
  proof (cases "us = []")
    case True
    then have bn: "n = b" "c0 = d" "r0 = r" using h0 xs(1) zs by auto
    have "b \<notin> fst ` set r" using chunks_distinct [OF ch(1)] h0(1) bn by simp
    then have "chunks ((bw_chunks w)(b \<mapsto> ?d)) (Some b) = Some ((b, ?d) # r)"
      using ch(1) h0(1) bn chunks_frame [of "bw_chunks w"] by (auto simp: chunks_Cons)
    moreover have "hlt_bytes_trim b i w = Some (w\<lparr>bw_chunks := (bw_chunks w)(b \<mapsto> ?d)\<rparr>)"
      using nor h0(2) d(1) bn by (simp add: hlt_bytes_trim_def)
    ultimately show ?thesis
      using inv bn rest rest_as_start [OF d(3)] by (auto simp: bytes_obj_def)
  next
    case False
    then obtain us' where us: "us = (b, c0) # us'" "r0 = us' @ zs" using h0 xs(1) by (cases us) auto
    have bn: "b \<noteq> n" using chunks_distinct [OF ch(1)] h0(1) us zs by simp
    have pr: "pred_chunk xs (Some n) \<noteq> None"
      using pred_chunk_found [of "bw_chunks w" "Some b" us n d r] ch(1) xs(1) zs False by simp
    have chs: "chunks (bw_chunks w) (Some b) = Some ((b, c0) # us' @ (n, d) # r)" using ch(1) h0(1) us(2) zs by simp
    let ?c1 = "c0\<lparr>bc_offset := bc_offset c0 + (if is_object c0 then 0 else int (bc_end c0) - int (bc_start c0)),
                  bc_start := bc_end c0, bc_next := Some n\<rparr>"
    let ?c2 = "(if is_object c0 then ?c1 else if bc_to_free c0 then
                 ?c1\<lparr>bc_to_free := False, bc_buf := replicate (bc_end c0) 0,
                     bc_marks := (if bc_marks c0 = NoMarks then NoMarks else FreedMarks)\<rparr> else ?c1)"
    let ?w' = "w\<lparr>bw_chunks := (bw_chunks w)(n \<mapsto> ?d, b \<mapsto> ?c2)\<rparr>"
    have t: "hlt_bytes_trim b i w = Some ?w'"
      using nor h0(2) d(1,2) bn pr ch(1) by (auto simp: hlt_bytes_trim_def Let_def)
    have c2: "?c2\<lparr>bc_next := Some n\<rparr> = ?c2" by simp
    have "chunks (bw_chunks ?w') (Some b) = Some ((b, ?c2) # (n, ?d) # r)"
      using chunks_replace_head [OF chs, of _ _ ?c2] unfolding c2 by simp
    moreover have ok: "chunk_ok c0" using ch(2) h0(1) by (auto dest: chain_inv_Cons)
    then have "chunk_ok ?c2" by (auto simp: chunk_ok_def is_object_def)
    then have "chain_inv ((b, ?c2) # (n, ?d) # r)" using inv d(6) by (simp add: chain_inv_def)
    moreover have "\<not> is_object c0" using o(2) h0(1) by simp
    then have "content ((b, ?c2) # (n, ?d) # r) = b0 # bs"
      using rest rest_as_start [OF d(3)] by (auto simp: chunk_data_def is_object_def)
    ultimately show ?thesis using t by (auto simp: bytes_obj_def)
  qed
qed

lemma normalize_hilti_id:
  assumes "cursor w i (b # bs)"
  shows "normalize_iter_hilti w i = Some i"
proof -
  obtain a c r where c: "iter_chunks w i = Some ((a, c) # r)" "bi_bytes i = Some a" "\<not> is_object c" "bi_cur i < bc_end c"
    using cursor_nonempty [OF assms] by metis
  have "normalize_hilti_loop ((a, c) # r) (bi_cur i) 0 = Some (a, bi_cur i, 0)"
    using c by (cases r) auto
  moreover have "create_iterator (Some a) (bi_cur i) = i" using c(2) by (simp add: create_iterator_def)
  ultimately show ?thesis using c by (simp add: normalize_iter_hilti_def)
qed

text \<open>The fast path of extracting one byte agrees with the slow path.\<close>

lemma extract_one_ok:
  assumes p: "cursor w p (b # bs)" and e: "cursor w en []"
  shows "\<exists>q. extract_one p en w = Some (b, q, w) \<and> cursor w q bs"
proof -
  obtain a c r where ch: "iter_chunks w p = Some ((a, c) # r)" using p cursor_nonempty by metis
  have c: "bi_bytes p = Some a" "bw_chunks w a = Some c" "\<not> is_object c" "bi_cur p < bc_end c"
    "bc_end c \<le> length (bc_buf c)" using cursor_head [OF p ch] by auto
  obtain q where q: "iter_incr w p = Some q" "cursor w q bs" using cursor_incr [OF p] by blast
  have ne: "is_end w p = Some False" "is_end_at ((a, c) # r) (bi_cur p) = False"
    using cursor_is_end [OF p] ch by (simp_all add: is_end_def)
  have b: "bc_buf c ! bi_cur p = b" using cursor_raw_deref [OF p] c by (simp add: raw_deref_def rd_def)
  show ?thesis
  proof (cases "(bi_bytes p = bi_bytes en \<and> bi_cur p + 1 < bi_cur en) \<or> (bi_bytes p \<noteq> bi_bytes en \<and> bi_cur p + 1 < bc_end c)")
    case True
    have "bi_cur en \<le> bc_end c" if "bi_bytes p = bi_bytes en"
      using e that ch c(3) by (auto simp: cursor_def iter_ok_def)
    then have "bi_cur p + 1 < bc_end c" using True by auto
    then have "q = p\<lparr>bi_cur := bi_cur p + 1\<rparr>" using q(1) ch ne(2) by (simp add: iter_incr_def)
    moreover have "extract_one p en w = Some (b, p\<lparr>bi_cur := bi_cur p + 1\<rparr>, w)"
      using True c b by (auto simp: extract_one_def rd_def)
    ultimately show ?thesis using q(2) by blast
  next
    case False
    obtain en' where en': "normalize_iter w en = Some en'" "cursor w en' []" using normalize_ok [OF cursor_position [OF e]] by blast
    obtain en2 where en2: "normalize_iter w en' = Some en2" "cursor w en2 []" using normalize_ok [OF cursor_position [OF en'(2)]] by blast
    have "p \<noteq> en2" using cursor_is_end [OF p] cursor_is_end [OF en2(2)] by auto
    then have eq: "hlt_iterator_bytes_eq w p en' = Some False"
      using normalize_id [OF p] en2 ne(1) cursor_is_end [OF en2(2)] by (simp add: hlt_iterator_bytes_eq_def iter_eq_def)
    have "extract_one_slowpath p en w = Some (b, q, w)"
      using c(1) normalize_hilti_id [OF p] en'(1) ne(1) eq cursor_deref [OF p] q(1) by (simp add: extract_one_slowpath_def)
    then have "extract_one p en w = Some (b, q, w)" using False c(1,2,3) by (auto simp: extract_one_def)
    then show ?thesis using q(2) by blast
  qed
qed

lemma extract_one_end:
  assumes p: "cursor w p []" "bi_bytes p \<noteq> None" "at_object w p = Some False" and e: "cursor w en []"
    and z: "iter_chunks w p = Some [(a, c)]"
  shows "\<exists>q. extract_one_slowpath p en w = Some (0, q, bytes_error WouldBlock w)"
proof -
  have "\<not> is_object c" using p(3) z by (simp add: at_object_def)
  then have n: "normalize_iter_hilti w p = Some (create_iterator (Some a) (bi_cur p))"
    using z by (simp add: normalize_iter_hilti_def)
  have "create_iterator (Some a) (bi_cur p) = p" using z by (simp add: chunks_Cons create_iterator_def)
  then have e2: "normalize_iter_hilti w p = Some p" "is_end w p = Some True" using n cursor_is_end [OF p(1)] by auto
  obtain en' where en': "normalize_iter w en = Some en'" "cursor w en' []" using normalize_ok [OF cursor_position [OF e]] by blast
  obtain p1 e1 where "normalize_iter w p = Some p1" "normalize_iter w en' = Some e1" "cursor w p1 []" "cursor w e1 []"
    using normalize_ok [OF cursor_position [OF p(1)]] normalize_ok [OF cursor_position [OF en'(2)]] by blast
  then have "hlt_iterator_bytes_eq w p en' = Some True" using cursor_is_end by (simp add: hlt_iterator_bytes_eq_def iter_eq_def)
  then show ?thesis using p(2) e2 en'(1) by (simp add: extract_one_slowpath_def)
qed

section \<open>Numbers and searching\<close>

definition digit_val :: "byte \<Rightarrow> int" where
  "digit_val c = (if isdigit c then sint c - 48 else 10 + sint (tolower c) - 97)"

definition is_num :: "int \<Rightarrow> byte \<Rightarrow> bool" where
  "is_num base c \<longleftrightarrow> (isdigit c \<or> isupper c \<or> islower c) \<and> digit_val c < base"

definition num_val :: "int \<Rightarrow> int \<Rightarrow> byte list \<Rightarrow> int" where
  "num_val base v bs = foldl (\<lambda>v c. v * base + digit_val c) v bs"

lemma digit_val_nonneg: "is_num base c \<Longrightarrow> 0 \<le> digit_val c"
proof -
  assume n: "is_num base c"
  show ?thesis
  proof (cases "isupper c")
    case True
    then have "65 \<le> sint c" "sint c \<le> 90" by (auto simp: isupper_def)
    moreover have "sint (c + 32) = sint c + 32"
      using calculation by (simp add: sint_word_ariths signed_take_bit_eq_take_bit_shift take_bit_eq_mod)
    ultimately show ?thesis using True by (auto simp: digit_val_def tolower_def isdigit_def)
  qed (use n in \<open>auto simp: is_num_def digit_val_def tolower_def isdigit_def islower_def\<close>)
qed

lemma num_val_mono: "0 \<le> v \<Longrightarrow> \<forall>c \<in> set bs. is_num base c \<Longrightarrow> v \<le> num_val base v bs"
proof (induction bs arbitrary: v)
  case (Cons c bs)
  have d: "0 \<le> digit_val c" "digit_val c < base" using Cons.prems(2) digit_val_nonneg [of base c] by (auto simp: is_num_def)
  then have "v * 1 \<le> v * base" using Cons.prems(1) by (intro mult_left_mono) auto
  then have "v \<le> v * base + digit_val c" using d by simp
  moreover have "v * base + digit_val c \<le> num_val base (v * base + digit_val c) bs"
    using Cons.IH [of "v * base + digit_val c"] Cons.prems calculation by simp
  ultimately show ?case by (simp add: num_val_def)
qed (simp add: num_val_def)

lemma to_int_loop_ok:
  "cursor w i bs \<Longrightarrow> \<forall>c \<in> set bs. is_num base c \<Longrightarrow> 0 \<le> v \<Longrightarrow> in_int64 (num_val base v bs) \<Longrightarrow>
   to_int_loop i base v t frst neg w = Some (if neg then - num_val base v bs else num_val base v bs, w)"
proof (induction bs arbitrary: i v t frst)
  case Nil
  then show ?case by (subst to_int_loop.simps) (simp add: cursor_is_end num_val_def in_int64_def)
next
  case (Cons c bs)
  obtain j where j: "iter_incr w i = Some j" "cursor w j bs" using cursor_incr [OF Cons.prems(1)] by blast
  have n: "is_num base c" "0 \<le> digit_val c" using Cons.prems(2) digit_val_nonneg [of base c] by auto
  then have base: "0 \<le> base" by (simp add: is_num_def)
  let ?v = "v * base + digit_val c"
  have v: "0 \<le> ?v" "num_val base v (c # bs) = num_val base ?v bs"
    using n(2) Cons.prems(3) base by (simp_all add: num_val_def)
  have "?v \<le> num_val base ?v bs" using num_val_mono [OF v(1)] Cons.prems(2) by simp
  then have "in_int64 ?v" using v Cons.prems(4) by (simp add: in_int64_def)
  moreover have "digit_val c = (if isdigit c then sint c - 48 else if isupper c \<or> islower c then 10 + sint (tolower c) - 97 else t)"
    using n(1) by (auto simp: digit_val_def is_num_def)
  ultimately show ?case
    using Cons.IH [OF j(2) _ v(1)] Cons.prems j(1) n(1) v(2)
    by (subst to_int_loop.simps) (auto simp: cursor_is_end cursor_deref is_num_def Let_def)
qed

lemma to_int_minus:
  assumes i: "cursor w i (45 # bs)" and bs: "\<forall>c \<in> set bs. is_num base c" "0 < base" "in_int64 (num_val base 0 bs)"
  shows "to_int_loop i base 0 0 True False w = Some (- num_val base 0 bs, w)"
proof -
  obtain j where j: "iter_incr w i = Some j" "cursor w j bs" using cursor_incr [OF i] by blast
  have m: "\<not> isdigit 45" "\<not> isupper 45" "\<not> islower 45"
    by (simp_all add: isdigit_def isupper_def islower_def)
  show ?thesis
    using to_int_loop_ok [OF j(2) bs(1) order.refl bs(3), of 0 False True] j(1) m bs(2)
    by (subst to_int_loop.simps) (simp add: cursor_is_end [OF i] cursor_deref [OF i] in_int64_def)
qed

lemma find_upt_drop:
  assumes "e \<le> length buf"
  shows "(case List.find (\<lambda>k. buf ! k = chr) [s..<e] of
       Some k \<Rightarrow> s \<le> k \<and> k < e \<and> dropWhile (\<lambda>x. x \<noteq> chr) (take (e - s) (drop s buf)) = take (e - k) (drop k buf)
     | None \<Rightarrow> chr \<notin> set (take (e - s) (drop s buf)))"
proof (induction "e - s" arbitrary: s)
  case (Suc n)
  then have lt: "s < e" by simp
  have t: "take (e - s) (drop s buf) = buf ! s # take (e - Suc s) (drop (Suc s) buf)"
    using lt assms by (simp add: Cons_nth_drop_Suc [symmetric] Suc_diff_Suc take_Cons')
  have u: "[s..<e] = s # [Suc s..<e]" using lt upt_conv_Cons by blast
  have "n = e - Suc s" using Suc.hyps(2) by simp
  from Suc.hyps(1) [OF this] show ?case
    unfolding t u using lt by (cases "buf ! s = chr") (auto simp: t split: option.splits)
qed simp

lemma dropWhile_none: "chr \<notin> set xs \<Longrightarrow> dropWhile (\<lambda>x. x \<noteq> chr) (xs @ ys) = dropWhile (\<lambda>x. x \<noteq> chr) ys"
  by (induction xs) auto

lemma find_byte_loop_ok:
  assumes "chunks (bw_chunks w) p = Some xs" "chain_inv xs"
  shows "\<exists>i. find_byte_loop xs chr = Some i \<and> cursor w i (dropWhile (\<lambda>x. x \<noteq> chr) (content xs))"
  using assms
proof (induction xs arbitrary: p)
  case Nil
  then show ?case by (simp add: cursor_def generic_end_pos_def chain_inv_def iter_ok_def norm_at_def)
next
  case (Cons x r)
  obtain a c where x: "x = (a, c)" by (cases x)
  have ch: "chunks (bw_chunks w) (bc_next c) = Some r" "chain_inv r" "chunk_ok c"
    using Cons.prems x by (auto simp: chunks_Cons dest: chain_inv_Cons)
  show ?case
  proof (cases "is_object c")
    case True
    then show ?thesis using x by (simp add: cursor_def generic_end_pos_def chain_inv_def iter_ok_def norm_at_def)
  next
    case False
    then have e: "bc_start c \<le> bc_end c" "bc_end c \<le> length (bc_buf c)" using ch(3) by (auto simp: chunk_ok_def)
    show ?thesis
    proof (cases "List.find (\<lambda>k. bc_buf c ! k = chr) [bc_start c..<bc_end c]")
      case None
      then have "chr \<notin> set (chunk_data c)"
        using find_upt_drop [OF e(2), of chr "bc_start c"] by (simp add: chunk_data_def)
      then show ?thesis
        using Cons.IH [OF ch(1,2)] x False None e by (simp add: memchr_def dropWhile_none)
    next
      case (Some k)
      have k: "bc_start c \<le> k" "k < bc_end c"
        "dropWhile (\<lambda>x. x \<noteq> chr) (chunk_data c) = take (bc_end c - k) (drop k (bc_buf c))"
        using find_upt_drop [OF e(2), of chr "bc_start c"] Some by (auto simp: chunk_data_def)
      have "dropWhile (\<lambda>x. x \<noteq> chr) (chunk_data c) \<noteq> []" using k e by simp
      then have "dropWhile (\<lambda>x. x \<noteq> chr) (chunk_data c @ content r) = dropWhile (\<lambda>x. x \<noteq> chr) (chunk_data c) @ content r"
        by (metis dropWhile_append dropWhile_eq_Nil_conv)
      then have "cursor w (create_iterator (Some a) k) (dropWhile (\<lambda>x. x \<noteq> chr) (content ((a, c) # r)))"
        unfolding cursor_def using Cons.prems x k False
        by (intro exI [of _ "(a, c) # r"]) (auto simp: create_iterator_def chunks_Cons iter_ok_def norm_at_def)
      then show ?thesis using x False Some e by (simp add: memchr_def)
    qed
  qed
qed

lemma offset_loop_ok:
  assumes "chunks (bw_chunks w) p = Some xs" "chain_inv xs" "n < length (content xs)"
  shows "\<exists>a c k. offset_loop xs (int n) = (Some (a, c), int k) \<and>
    cursor w (create_iterator (Some a) (bc_start c + k)) (drop n (content xs))"
  using assms
proof (induction xs arbitrary: p n)
  case (Cons x r)
  obtain a c where x: "x = (a, c)" by (cases x)
  have ch: "chunks (bw_chunks w) (bc_next c) = Some r" "chain_inv r" "chunk_ok c"
    using Cons.prems x by (auto simp: chunks_Cons dest: chain_inv_Cons)
  have no: "\<not> is_object c" using Cons.prems(3) x by auto
  have e: "bc_start c \<le> bc_end c" "bc_end c \<le> length (bc_buf c)" using ch(3) no by (auto simp: chunk_ok_def)
  have len: "length (chunk_data c) = bc_end c - bc_start c" using length_chunk_data [OF ch(3) no] .
  show ?case
  proof (cases "n < bc_end c - bc_start c")
    case True
    then have "cursor w (create_iterator (Some a) (bc_start c + n)) (drop n (content ((a, c) # r)))"
      unfolding cursor_def using Cons.prems x e no len
      by (intro exI [of _ "(a, c) # r"])
        (auto simp: create_iterator_def chunks_Cons iter_ok_def norm_at_def chunk_data_def drop_take add.commute)
    then show ?thesis using True x no by (intro exI [of _ a] exI [of _ c] exI [of _ n]) auto
  next
    case False
    define m where "m = n - (bc_end c - bc_start c)"
    have m: "m < length (content r)" using Cons.prems(3) x no len False by (simp add: m_def)
    have i: "int n - (int (bc_end c) - int (bc_start c)) = int m" using False e(1) by (simp add: m_def)
    have "offset_loop (x # r) (int n) = offset_loop r (int m)"
      unfolding x offset_loop.simps i using no False by auto
    moreover have "drop n (content (x # r)) = drop m (content r)" using x no len False by (simp add: m_def)
    ultimately show ?thesis using Cons.IH [OF ch(1,2) m] by simp
  qed
qed simp

section \<open>Properties\<close>

text \<open>A store with the two-chunk object 1, 2, 3, 4, 5 at address 0, and the object 4, 5 at address 7.\<close>

definition data_chunk :: "ptr \<Rightarrow> int \<Rightarrow> byte list \<Rightarrow> bchunk" where
  "data_chunk nxt off d = \<lparr>bc_frozen = False, bc_object = None, bc_next = nxt, bc_offset = off, bc_start = 0,
     bc_end = length d, bc_buf = d, bc_to_free = True, bc_marks = NoMarks\<rparr>"

definition two_objects :: bworld where
  "two_objects = \<lparr>bw_chunks = [0 \<mapsto> data_chunk (Some 1) 0 [1, 2, 3], 1 \<mapsto> data_chunk None 3 [4, 5],
     7 \<mapsto> data_chunk None 0 [4, 5]], bw_next = 8, bw_excpt = None\<rparr>"

abbreviation obj0 :: chain where
  "obj0 \<equiv> [(0, data_chunk (Some 1) 0 [1, 2, 3]), (1, data_chunk None 3 [4, 5])]"

abbreviation obj7 :: chain where
  "obj7 \<equiv> [(7, data_chunk None 0 [4, 5])]"

lemma data_chunk_simps [simp]: "\<not> is_object (data_chunk n f d)" "chunk_ok (data_chunk n f d)" "chunk_data (data_chunk n f d) = d"
  "bc_next (data_chunk n f d) = n" "bc_start (data_chunk n f d) = 0" "bc_end (data_chunk n f d) = length d"
  "bc_frozen (data_chunk n f d) = False" "bc_marks (data_chunk n f d) = NoMarks" "bc_buf (data_chunk n f d) = d"
  "bc_offset (data_chunk n f d) = f"
  by (simp_all add: data_chunk_def is_object_def chunk_ok_def chunk_data_def)

lemma two_objects_ok: "bytes_obj two_objects 0 obj0" "bytes_obj two_objects 7 obj7" "bfresh two_objects"
  by (auto simp: bytes_obj_def chunks_Some two_objects_def chain_inv_def bfresh_def split: if_splits)

lemma two_objects_plain: "plain obj0" "plain obj7" "unfrozen obj0" "data_only obj0" "content obj0 = [1, 2, 3, 4, 5]" "content obj7 = [4, 5]"
  by (simp_all add: plain_def unfrozen_def data_only_def)

text \<open>An iterator at the second byte of the first object, and one at its fourth.\<close>

lemma two_objects_cursor:
  "cursor two_objects \<lparr>bi_bytes = Some 0, bi_cur = 1\<rparr> [2, 3, 4, 5]" "cursor two_objects \<lparr>bi_bytes = Some 1, bi_cur = 0\<rparr> [4, 5]"
  "chunks (bw_chunks two_objects) (Some 0) = Some obj0" "chunks (bw_chunks two_objects) (Some 1) = Some [(1, data_chunk None 3 [4, 5])]"
proof -
  show c: "chunks (bw_chunks two_objects) (Some 0) = Some obj0" "chunks (bw_chunks two_objects) (Some 1) = Some [(1, data_chunk None 3 [4, 5])]"
    by (simp_all add: chunks_Some two_objects_def)
  show "cursor two_objects \<lparr>bi_bytes = Some 0, bi_cur = 1\<rparr> [2, 3, 4, 5]" "cursor two_objects \<lparr>bi_bytes = Some 1, bi_cur = 0\<rparr> [4, 5]"
    unfolding cursor_def using c by (simp_all add: chain_inv_def iter_ok_def norm_at_def)
qed

text \<open>
  C17: Appending one bytes object to another succeeds and appends its value; an iterator into the first object, at any
  position and also past the end, stays valid and stands for the bytes it stood for followed by the new ones. The two objects may be
  the same: then the value is doubled, while the header and the instruction's documentation announce a value error for that case, which
  the code does not test.
\<close>

theorem bytes_append_extends_iterators:
  assumes "bytes_obj w b (ws @ zs)" "plain (ws @ zs)" "unfrozen (ws @ zs)" "data_only (ws @ zs)"
    "bytes_obj w oth ys" "plain ys" "content ys \<noteq> []" "bfresh w"
    "iter_chunks w i = Some zs" "zs \<noteq> []" "iter_ok zs (bi_cur i)"
  shows "\<exists>w' xs'. hlt_bytes_append (Some b) (Some oth) w = Some w' \<and> bytes_obj w' b xs' \<and>
    content xs' = content (ws @ zs) @ content ys \<and> position w' i (rest_at zs (bi_cur i) @ content ys)"
proof -
  from bytes_append_ok [OF assms(1-3,5-8)] obtain w' where
    w': "hlt_bytes_append (Some b) (Some oth) w = Some w'" "appended w w' b (ws @ zs) (content ys)" by blast
  from appended_content [OF w'(2) assms(4)] appended_position [OF w'(2) assms(4,9-11) refl] w'(1) show ?thesis by blast
qed

theorem bytes_append_extends_iterators_witness:
  "\<exists>w' xs'. hlt_bytes_append (Some 0) (Some 7) two_objects = Some w' \<and> bytes_obj w' 0 xs' \<and>
    content xs' = [1, 2, 3, 4, 5] @ [4, 5] \<and> position w' \<lparr>bi_bytes = Some 1, bi_cur = 2\<rparr> ([] @ [4, 5])"
  using bytes_append_extends_iterators [of two_objects 0 "[(0, data_chunk (Some 1) 0 [1, 2, 3])]" "[(1, data_chunk None 3 [4, 5])]" 7 obj7
      "\<lparr>bi_bytes = Some 1, bi_cur = 2\<rparr>"] two_objects_ok two_objects_plain two_objects_cursor(4)
  by (simp add: iter_ok_def)

text \<open>
  C18: The sub-sequence between two iterators. A new object is made that holds exactly the bytes from the first iterator up to the second, also
  across chunks; nothing that exists is changed.
\<close>

theorem bytes_sub_between:
  assumes "cursor w i bs1" "iter_chunks w i = Some xs" "plain xs" "cursor w j bs2" "bs2 \<noteq> [] \<longrightarrow> from_to w i j" "bfresh w"
  shows "\<exists>bs dst w'. bs1 = bs @ bs2 \<and> hlt_bytes_sub i j w = Some (Some dst, w') \<and> new_bytes w w' dst bs"
  by (rule sub_ok [OF assms(1-4) _ assms(6)]) (use assms(5) in blast)

theorem bytes_sub_between_witness:
  "\<exists>bs dst w'. [2, 3, 4, 5] = bs @ [4, 5] \<and>
    hlt_bytes_sub \<lparr>bi_bytes = Some 0, bi_cur = 1\<rparr> \<lparr>bi_bytes = Some 1, bi_cur = 0\<rparr> two_objects = Some (Some dst, w') \<and>
    new_bytes two_objects w' dst bs"
proof (rule bytes_sub_between [OF two_objects_cursor(1) _ two_objects_plain(1) two_objects_cursor(2) _ two_objects_ok(3)])
  show "iter_chunks two_objects \<lparr>bi_bytes = Some 0, bi_cur = 1\<rparr> = Some obj0" using two_objects_cursor(3) by simp
  show "[4, 5] \<noteq> [] \<longrightarrow> from_to two_objects \<lparr>bi_bytes = Some 0, bi_cur = 1\<rparr> \<lparr>bi_bytes = Some 1, bi_cur = 0\<rparr>"
    unfolding from_to_def using two_objects_cursor(3)
    by (intro impI exI [of _ "[(0, data_chunk (Some 1) 0 [1, 2, 3])]"] exI [of _ "1 :: addr"] exI [of _ "data_chunk None 3 [4, 5]"] exI [of _ "[]"])
      (simp add: data_only_def)
qed

text \<open>
  C27: Comparison. The result is 0 exactly for equal values, and otherwise the sign of the lexicographic order on bytes read as signed
  characters, however the values are cut into chunks: 1 when the first is smaller, -1 when it is greater. The documentation of the
  instruction and its test agree with that; the comment in \<^verbatim>\<open>bytes.h\<close> gives the opposite sign.
\<close>

theorem bytes_cmp_lexicographic:
  assumes "bytes_obj w b1 xs" "bytes_obj w b2 ys"
  shows "\<exists>r. hlt_bytes_cmp (Some b1) (Some b2) w = Some (r, w) \<and> hlt_bytes_cmp (Some b2) (Some b1) w = Some (- r, w) \<and>
    (r = 0 \<longleftrightarrow> content xs = content ys) \<and> (r = -1 \<longleftrightarrow> (content ys, content xs) \<in> lexord {(a, b). sint a < sint b})"
  using cmp_ok [OF assms] cmp_ok [OF assms(2,1)] cmp_spec_0 [of "content xs" "content ys"] cmp_spec_swap [of "content ys" "content xs"]
    cmp_spec_lex [of "content xs" "content ys"] by simp

theorem bytes_cmp_lexicographic_witness:
  "\<exists>r. hlt_bytes_cmp (Some 0) (Some 7) two_objects = Some (r, two_objects) \<and> hlt_bytes_cmp (Some 7) (Some 0) two_objects = Some (- r, two_objects) \<and>
    (r = 0 \<longleftrightarrow> content obj0 = content obj7) \<and> (r = -1 \<longleftrightarrow> (content obj7, content obj0) \<in> lexord {(a, b). sint a < sint b})"
  by (rule bytes_cmp_lexicographic [OF two_objects_ok(1,2)])

text \<open>
  C30: Conversion to an unsigned integer. For up to eight bytes the result is the number that they denote, read from the last byte to the first
  for the little-endian order, and from the first to the last for every other one: big-endian, network and also host order. The 64-bit word holds it
  without wrap-around. An empty object gives 0, except for the little-endian order, where the shift by 64 in \<^verbatim>\<open>hlt_int_flip\<close> is undefined.
\<close>

theorem bytes_to_uint_value:
  assumes "bytes_obj w b xs" "length (content xs) \<le> 8"
  shows "if content xs = [] \<and> hlt_enum_equal order byte_order_little then hlt_bytes_to_uint_binary (Some b) order w = None
    else \<exists>v. hlt_bytes_to_uint_binary (Some b) order w = Some (v, w) \<and>
      uint v = big_endian (if hlt_enum_equal order byte_order_little then rev (content xs) else content xs)"
proof (cases "content xs = [] \<and> hlt_enum_equal order byte_order_little")
  case True
  then show ?thesis using to_uint_empty_little [OF assms(1)] by simp
next
  case False
  then show ?thesis using to_uint_binary_ok [OF assms, of order] uint_big_endian [of "content xs"] uint_big_endian [of "rev (content xs)"] assms(2)
    by auto
qed

theorem bytes_to_uint_value_witness:
  "\<exists>v. hlt_bytes_to_uint_binary (Some 0) byte_order_little two_objects = Some (v, two_objects) \<and>
    uint v = big_endian (if hlt_enum_equal byte_order_little byte_order_little then rev (content obj0) else content obj0)"
  using bytes_to_uint_value [OF two_objects_ok(1), of byte_order_little] two_objects_plain by simp

text \<open>
  C26: Trimming at an iterator that stands before a byte drops exactly the bytes before it, in whichever chunk it is. At the end of the data
  it drops nothing: the object stays as it is, although all of its bytes lie before the position.
\<close>

theorem bytes_trim_keeps_rest:
  assumes "bytes_obj w b (us @ zs)" "\<not> is_object (snd (hd (us @ zs)))" "cursor w i bs" "iter_chunks w i = Some zs"
  shows "(bs \<noteq> [] \<longrightarrow> (\<exists>w' xs'. hlt_bytes_trim b i w = Some w' \<and> bytes_obj w' b xs' \<and> content xs' = bs \<and> bw_excpt w' = bw_excpt w)) \<and>
    (bs = [] \<and> zs \<noteq> [] \<and> data_only zs \<longrightarrow> hlt_bytes_trim b i w = Some w)"
proof (intro conjI impI)
  assume "bs \<noteq> []"
  then obtain b0 bs' where "bs = b0 # bs'" by (cases bs) simp_all
  then show "\<exists>w' xs'. hlt_bytes_trim b i w = Some w' \<and> bytes_obj w' b xs' \<and> content xs' = bs \<and> bw_excpt w' = bw_excpt w"
    using trim_ok [OF assms(1,2) _ refl assms(4)] assms(3) by blast
next
  assume "bs = [] \<and> zs \<noteq> [] \<and> data_only zs"
  then show "hlt_bytes_trim b i w = Some w" using trim_end [OF _ assms(4)] assms(3) by blast
qed

theorem bytes_trim_keeps_rest_witness:
  "(\<exists>w' xs'. hlt_bytes_trim 0 \<lparr>bi_bytes = Some 1, bi_cur = 0\<rparr> two_objects = Some w' \<and> bytes_obj w' 0 xs' \<and> content xs' = [4, 5] \<and>
    bw_excpt w' = bw_excpt two_objects) \<and> hlt_bytes_trim 0 \<lparr>bi_bytes = Some 1, bi_cur = 2\<rparr> two_objects = Some two_objects"
proof -
  have o: "bytes_obj two_objects 0 ([(0, data_chunk (Some 1) 0 [1, 2, 3])] @ [(1, data_chunk None 3 [4, 5])])" using two_objects_ok(1) by simp
  have "cursor two_objects \<lparr>bi_bytes = Some 1, bi_cur = 2\<rparr> []" using two_objects_cursor by (auto simp: cursor_def norm_at_def iter_ok_def)
  with bytes_trim_keeps_rest [OF o, of "\<lparr>bi_bytes = Some 1, bi_cur = 0\<rparr>" "[4, 5]"] bytes_trim_keeps_rest [OF o, of "\<lparr>bi_bytes = Some 1, bi_cur = 2\<rparr>" "[]"]
  show ?thesis using two_objects_cursor by (simp add: data_only_def)
qed

text \<open>Taking several bytes off the front of an iterator.\<close>

fun extract_n :: "nat \<Rightarrow> bytes_iter \<Rightarrow> bytes_iter \<Rightarrow> bworld \<Rightarrow> (byte list \<times> bytes_iter \<times> bworld) option" where
  "extract_n 0 p en w = Some ([], p, w)"
| "extract_n (Suc n) p en w = do {
     (b, q, w1) \<leftarrow> extract_one p en w;
     (bs, r, w2) \<leftarrow> extract_n n q en w1;
     Some (b # bs, r, w2)
   }"

lemma extract_n_ok:
  assumes "cursor w en []"
  shows "cursor w p (as @ bs) \<Longrightarrow> \<exists>q. extract_n (length as) p en w = Some (as, q, w) \<and> cursor w q bs"
proof (induction as arbitrary: p)
  case (Cons a as)
  from extract_one_ok [of w p a "as @ bs", OF _ assms] Cons.prems obtain q where
    q: "extract_one p en w = Some (a, q, w)" "cursor w q (as @ bs)" by auto
  from Cons.IH [OF q(2)] q(1) show ?case by auto
qed simp

lemma bytes_of_int:
  assumes "0 \<le> x" "x < 256 ^ n"
  shows "\<exists>bs :: byte list. length bs = n \<and> big_endian bs = x"
  using assms
proof (induction n arbitrary: x)
  case 0
  then show ?case by (auto simp: big_endian_def)
next
  case (Suc n)
  then have "0 \<le> x div 256" "x div 256 < 256 ^ n" by (auto simp: div_less_iff_less_mult pos_imp_zdiv_nonneg_iff)
  from Suc.IH [OF this] obtain bs :: "byte list" where bs: "length bs = n" "big_endian bs = x div 256" by blast
  let ?b = "word_of_int (x mod 256) :: byte"
  have "uint ?b = x mod 256" by (simp add: uint_word_of_int)
  then have "big_endian (bs @ [?b]) = x" using bs by (simp add: big_endian_append big_endian_def [of "[_]"])
  then show ?case using bs by (intro exI [of _ "bs @ [?b]"]) simp
qed

text \<open>
  Extraction. Taking \<open>n\<close> bytes from an iterator that has at least \<open>n\<close> bytes ahead of it yields exactly these bytes, and leaves the
  iterator right behind them.
\<close>

theorem bytes_extract_n:
  assumes "cursor w p (as @ bs)" "cursor w en []"
  shows "\<exists>q. extract_n (length as) p en w = Some (as, q, w) \<and> cursor w q bs"
  by (rule extract_n_ok [OF assms(2,1)])

theorem bytes_extract_n_witness:
  "\<exists>q. extract_n (length [2, 3, 4 :: byte]) \<lparr>bi_bytes = Some 0, bi_cur = 1\<rparr> \<lparr>bi_bytes = None, bi_cur = 0\<rparr> two_objects =
     Some ([2, 3, 4], q, two_objects) \<and> cursor two_objects q [5]"
  by (rule bytes_extract_n) (use two_objects_cursor(1) in \<open>simp_all add: cursor_def chain_inv_def iter_ok_def norm_at_def\<close>)

text \<open>
  Byte order. Reversing the \<open>n\<close> low bytes of a value that fits into them is its own inverse, and the result fits again.
\<close>

theorem int_flip_involutive:
  assumes "1 \<le> n" "n \<le> 8" "uint v < 256 ^ n"
  shows "\<exists>u. hlt_int_flip v n = Some u \<and> hlt_int_flip u n = Some v \<and> uint u < 256 ^ n"
proof -
  obtain bs :: "byte list" where bs: "length bs = n" "big_endian bs = uint v" using bytes_of_int [of "uint v" n] assms(3) by auto
  have v: "word_of_int (big_endian bs) = v" using bs(2) by simp
  have u: "hlt_int_flip v n = Some (word_of_int (big_endian (rev bs)))" using int_flip_ok [of bs] assms(1,2) bs(1) v by simp
  moreover have "hlt_int_flip (word_of_int (big_endian (rev bs))) n = Some v" using int_flip_ok [of "rev bs"] assms(1,2) bs(1) v by simp
  moreover have "uint (word_of_int (big_endian (rev bs)) :: 64 word) < 256 ^ n"
    using uint_big_endian [of "rev bs"] big_endian_bounds [of "rev bs"] bs(1) assms(2) by simp
  ultimately show ?thesis by blast
qed

theorem int_flip_involutive_witness:
  "\<exists>u. hlt_int_flip (258 :: 64 word) 3 = Some u \<and> hlt_int_flip u 3 = Some 258 \<and> uint u < 256 ^ 3"
  by (rule int_flip_involutive) simp_all

text \<open>
  Parsing a decimal or other number. An object whose bytes are all digits of the base, after an optional minus sign, gives the number
  they denote, as long as it fits into 64 bits.
\<close>

theorem bytes_to_int_parses:
  assumes "bytes_obj w b xs" "content xs = (if neg then [45] else []) @ ds" "\<forall>c \<in> set ds. is_num base c" "0 < base"
    "in_int64 (num_val base 0 ds)"
  shows "hlt_bytes_to_int (Some b) base w = Some (if neg then - num_val base 0 ds else num_val base 0 ds, w)"
proof -
  from bytes_begin_ok [OF assms(1)] obtain i where i: "bytes_begin (Some b) w = Some (i, w)" "cursor w i (content xs)" by blast
  show ?thesis
  proof (cases neg)
    case True
    then show ?thesis using to_int_minus [of w i ds base] i assms by (simp add: hlt_bytes_to_int_def)
  next
    case False
    then show ?thesis using to_int_loop_ok [of w i ds base 0 0 True False] i assms by (simp add: hlt_bytes_to_int_def)
  qed
qed

definition minus_42 :: bworld where
  "minus_42 = \<lparr>bw_chunks = [0 \<mapsto> data_chunk (Some 1) 0 [45, 52], 1 \<mapsto> data_chunk None 2 [50]], bw_next = 2, bw_excpt = None\<rparr>"

theorem bytes_to_int_parses_witness: "hlt_bytes_to_int (Some 0) 10 minus_42 = Some (- 42, minus_42)"
proof -
  let ?xs = "[(0, data_chunk (Some 1) 0 [45, 52]), (1, data_chunk None 2 [50])]"
  have o: "bytes_obj minus_42 0 ?xs" by (simp add: bytes_obj_def chunks_Some minus_42_def chain_inv_def)
  have n: "is_num 10 52" "is_num 10 50" "num_val 10 0 [52, 50] = 42"
    by (simp_all add: is_num_def digit_val_def isdigit_def num_val_def)
  show ?thesis
    using bytes_to_int_parses [OF o, of True "[52, 50]" 10] n by (simp add: in_int64_def)
qed

text \<open>
  Finding a byte. The iterator returned stands at the first occurrence of the byte, in whichever chunk it is, or at the end if there is none.
\<close>

theorem bytes_find_byte_first:
  assumes "bytes_obj w b xs"
  shows "\<exists>i. hlt_bytes_find_byte (Some b) chr w = Some (i, w) \<and> cursor w i (dropWhile (\<lambda>x. x \<noteq> chr) (content xs))"
  using find_byte_loop_ok [of w "Some b" xs chr] assms by (auto simp: hlt_bytes_find_byte_def bytes_obj_def)

theorem bytes_find_byte_first_witness:
  "\<exists>i. hlt_bytes_find_byte (Some 0) 4 two_objects = Some (i, two_objects) \<and>
     cursor two_objects i (dropWhile (\<lambda>x. x \<noteq> 4) (content obj0))"
  by (rule bytes_find_byte_first [OF two_objects_ok(1)])

text \<open>
  C31: Searching for a sub-sequence misses matches in later chunks. If the first byte of the pattern does not occur in the first chunk, the search
  reports that the pattern is not contained, whatever the other chunks hold: a variable that is set in the loop over the later
  chunks is not the one that is tested after the loop.
\<close>

theorem bytes_contains_misses_later_chunks:
  assumes "bytes_obj w b ((b, c) # r)" "\<not> is_object c" "chunk_data c \<noteq> []" "bytes_obj w p ys" "content ys = x # qs" "x \<notin> set (chunk_data c)"
  shows "hlt_bytes_contains_bytes (Some b) (Some p) w = Some (False, w)"
proof -
  have ch: "chunks (bw_chunks w) (Some b) = Some ((b, c) # r)" "chain_inv ((b, c) # r)" "bw_chunks w b = Some c" "chunk_ok c"
    and cy: "chunks (bw_chunks w) (Some p) = Some ys" "chain_inv ys"
    using assms(1,4) by (auto simp: bytes_obj_def chunks_Cons chain_inv_def)
  obtain y bs where y: "content ((b, c) # r) = y # bs" using assms(2,3) by (cases "chunk_data c") auto
  let ?i = "create_iterator (Some b) (bc_start c)"
  have pos: "position w ?i (y # bs)"
    unfolding position_def using ch y assms(2) iter_ok_start [of "(b, c) # r"]
    by (intro exI [of _ "(b, c) # r"]) (auto simp: create_iterator_def chunk_data_def)
  have "bc_start c < bc_end c" using chunk_data_nonempty assms(3) by blast
  then have "cursor w ?i (y # bs)"
    using pos ch by (auto simp: position_def cursor_def norm_at_def create_iterator_def)
  then have b1: "bytes_begin (Some b) w = Some (?i, w)"
    using normalize_id ch is_empty_content [OF ch(2)] y by (fastforce simp: bytes_begin_def)
  from bytes_begin_ok [OF assms(4)] obtain k where k: "bytes_begin (Some p) w = Some (k, w)" "cursor w k (x # qs)" using assms(5) by auto
  from bytes_end_ok [OF assms(4)] obtain pe where pe: "bytes_end (Some p) w = Some (pe, w)" by blast
  from bytes_end_ok [OF assms(1)] obtain be where be: "bytes_end (Some b) w = Some (be, w)" "cursor w be []" by blast
  have "bc_buf c ! j \<in> set (chunk_data c)" if "bc_start c \<le> j" "j < bc_end c" for j
  proof -
    have "chunk_data c ! (j - bc_start c) = bc_buf c ! j" "j - bc_start c < length (chunk_data c)"
      using that ch(4) assms(2) by (simp_all add: chunk_data_def chunk_ok_def)
    then show ?thesis by (metis nth_mem)
  qed
  then have "List.find (\<lambda>j. bc_buf c ! j = x) [bc_start c..<bc_end c] = None"
    using assms(6) by (auto simp: find_None_iff)
  then have "memchr (bc_buf c) (bc_start c) (bc_end c) x = Some None" using ch(4) assms(2) by (simp add: memchr_def chunk_ok_def)
  then have "find_byte_from ?i x w = Some (be, w)" using ch(3) assms(2) be(1) by (simp add: find_byte_from_def create_iterator_def)
  then have "find_bytes_loop ?i x (Some b) (Some p) w = Some (False, be, w)"
    using cursor_is_end [OF be(2)] be(1) by (subst find_bytes_loop.simps) simp
  then have "find_bytes (Some b) (Some p) w = Some (False, be, w)"
    using cy k pe b1 is_empty_content [OF cy(2)] assms(5) cursor_raw_deref [OF k(2)] by (simp add: find_bytes_def)
  then show ?thesis by (simp add: hlt_bytes_contains_bytes_def)
qed

theorem bytes_contains_misses_later_chunks_witness:
  "content obj0 = [1, 2, 3] @ content obj7 \<and> hlt_bytes_contains_bytes (Some 0) (Some 7) two_objects = Some (False, two_objects)"
  using bytes_contains_misses_later_chunks [OF two_objects_ok(1) _ _ two_objects_ok(2), of 4 "[5]"] by simp

text \<open>
  C32: Freezing. Freezing an object keeps its value; from then on appending to it changes nothing and raises a value error, for an object and
  for raw bytes; unfreezing it restores the chunks. That holds for an empty object too, which can be frozen like any other, although the comment
  in \<^verbatim>\<open>bytes.h\<close> announces a value error for it.
\<close>

theorem bytes_frozen_rejects_append:
  assumes "bytes_obj w b xs" "unfrozen xs" "raw \<noteq> []"
  shows "\<exists>w' xs' w''. hlt_bytes_freeze (Some b) True w = Some w' \<and> bytes_obj w' b xs' \<and> content xs' = content xs \<and>
    hlt_bytes_append (Some b) oth w' = Some (w'\<lparr>bw_excpt := Some ValueError\<rparr>) \<and>
    hlt_bytes_append_raw (Some b) raw w' = Some (w'\<lparr>bw_excpt := Some ValueError\<rparr>) \<and>
    hlt_bytes_freeze (Some b) False w' = Some w'' \<and> bytes_obj w'' b xs"
proof -
  from freeze_ok [OF assms(1), of True] obtain w' where
    w': "hlt_bytes_freeze (Some b) True w = Some w'" "bytes_obj w' b (freeze_pairs True xs)" by blast
  from freeze_ok [OF w'(2), of False] obtain w'' where
    w'': "hlt_bytes_freeze (Some b) False w' = Some w''" "bytes_obj w'' b (freeze_pairs False (freeze_pairs True xs))" by blast
  have "freeze_pairs False (freeze_pairs True xs) = xs"
    unfolding freeze_pairs_def using assms(2) by (induction xs) (auto simp: unfrozen_def)
  moreover obtain c r where "xs = (b, c) # r" using bytes_obj_Cons [OF assms(1)] by blast
  then have "bw_chunks w' b = Some (c\<lparr>bc_frozen := True\<rparr>)" using w'(2) by (auto simp: bytes_obj_def freeze_pairs_def chunks_Cons)
  note frozen_append [OF this]
  ultimately show ?thesis
    using w' w'' assms(3) by (intro exI [of _ w'] exI [of _ "freeze_pairs True xs"] exI [of _ w'']) (simp add: bytes_error_def)
qed

theorem bytes_frozen_rejects_append_witness:
  "\<exists>w' xs' w''. hlt_bytes_freeze (Some 0) True two_objects = Some w' \<and> bytes_obj w' 0 xs' \<and> content xs' = content obj0 \<and>
    hlt_bytes_append (Some 0) (Some 7) w' = Some (w'\<lparr>bw_excpt := Some ValueError\<rparr>) \<and>
    hlt_bytes_append_raw (Some 0) [9] w' = Some (w'\<lparr>bw_excpt := Some ValueError\<rparr>) \<and>
    hlt_bytes_freeze (Some 0) False w' = Some w'' \<and> bytes_obj w'' 0 obj0"
  by (rule bytes_frozen_rejects_append [OF two_objects_ok(1) two_objects_plain(3)]) simp

end
