(* ===== verification/Strings.thy ===== *)
theory Strings
  imports Bytes "HOL-Library.Sublist"
begin

text \<open>
  Strings, \<^verbatim>\<open>libhilti/string.c\<close>, and the functions of \<^verbatim>\<open>libhilti/utf8proc.c\<close> that they rest on. A string is a pointer to an object with the bytes of
  its UTF-8 encoding; the null pointer stands for the empty string. Functions that read the bytes check every access against the object, so that reading
  behind it is undefined. A result comes with the exception that the function raises, if any.

  The theorems show that the functions compute on code points what their names say, if the string is the encoding of valid code points: length,
  sub-strings, concatenation and search; and that encoding and decoding a code point are inverse.
\<close>

section \<open>UTF-8\<close>

unbundle bit_operations_syntax

type_synonym hlt_string = "byte list option"

definition utf8class :: "int list" where
  "utf8class = replicate 128 1 @ replicate 64 0 @ replicate 32 2 @ replicate 16 3 @ replicate 8 4 @ replicate 8 0"

definition utf8_invalid :: int where
  "utf8_invalid = -3"

text \<open>The bytes behind the first one.\<close>

function cont_loop :: "byte list \<Rightarrow> int \<Rightarrow> int \<Rightarrow> bool option" where
  "cont_loop s i len =
     (if i < len then do {
        b \<leftarrow> rd s (nat i);
        (if uint b AND 0xC0 \<noteq> 0x80 then Some False else cont_loop s (i + 1) len)
      }
      else Some True)"
  by auto
termination by (relation "measure (\<lambda>(s, i, len). nat (len - i))") auto

definition utf8_code :: "int \<Rightarrow> byte list \<Rightarrow> int" where
  "utf8_code len s =
     (let b = (\<lambda>i. uint (s ! i)) in
      if len = 1 then b 0
      else if len = 2 then
        (let uc = push_bit 6 (b 0 AND 0x1F) + (b 1 AND 0x3F) in (if uc < 0x80 then -1 else uc))
      else if len = 3 then
        (let uc = push_bit 12 (b 0 AND 0x0F) + push_bit 6 (b 1 AND 0x3F) + (b 2 AND 0x3F) in
         (if uc < 0x800 \<or> 0xD800 \<le> uc \<and> uc < 0xE000 \<or> 0xFDD0 \<le> uc \<and> uc < 0xFDF0 then -1 else uc))
      else
        (let uc = push_bit 18 (b 0 AND 0x07) + push_bit 12 (b 1 AND 0x3F) + push_bit 6 (b 2 AND 0x3F) + (b 3 AND 0x3F) in
         (if uc < 0x10000 \<or> 0x110000 \<le> uc then -1 else uc)))"

text \<open>The result is the number of bytes or an error, and the code point.\<close>

definition utf8proc_iterate :: "byte list \<Rightarrow> int \<Rightarrow> (int \<times> int) option" where
  "utf8proc_iterate s strlen =
     (if strlen = 0 then Some (0, -1)
      else do {
        b \<leftarrow> rd s 0;
        let len = utf8class ! unat b;
        (if len = 0 \<or> 0 \<le> strlen \<and> strlen < len then Some (utf8_invalid, -1)
         else do {
           ok \<leftarrow> cont_loop s 1 len;
           (if \<not> ok then Some (utf8_invalid, -1)
            else let uc = utf8_code len s in
              (if uc < 0 \<or> 0xFFFE \<le> uc AND 0xFFFF then Some (utf8_invalid, -1) else Some (len, uc)))
         })
      })"

definition utf8proc_codepoint_valid :: "int \<Rightarrow> bool" where
  "utf8proc_codepoint_valid uc \<longleftrightarrow> \<not> (uc < 0 \<or> 0x110000 \<le> uc \<or> 0xFFFE \<le> uc AND 0xFFFF \<or> 0xD800 \<le> uc \<and> uc < 0xE000 \<or> 0xFDD0 \<le> uc \<and> uc < 0xFDF0)"

definition utf8proc_encode_char :: "int \<Rightarrow> byte list" where
  "utf8proc_encode_char uc = map word_of_int
     (if uc < 0 then []
      else if uc < 0x80 then [uc]
      else if uc < 0x800 then [0xC0 + drop_bit 6 uc, 0x80 + (uc AND 0x3F)]
      else if uc = 0xFFFF then [0xFF]
      else if uc = 0xFFFE then [0xFE]
      else if uc < 0x10000 then [0xE0 + drop_bit 12 uc, 0x80 + (drop_bit 6 uc AND 0x3F), 0x80 + (uc AND 0x3F)]
      else if uc < 0x110000 then
        [0xF0 + drop_bit 18 uc, 0x80 + (drop_bit 12 uc AND 0x3F), 0x80 + (drop_bit 6 uc AND 0x3F), 0x80 + (uc AND 0x3F)]
      else [])"

section \<open>Strings\<close>

definition slen :: "hlt_string \<Rightarrow> nat" where
  "slen s = (case s of None \<Rightarrow> 0 | Some bs \<Rightarrow> length bs)"

text \<open>The loop that counts code points; \<open>p\<close> is the offset of the next one.\<close>

partial_function (option) len_loop :: "byte list \<Rightarrow> nat \<Rightarrow> int \<Rightarrow> (int \<times> exn option) option" where
  "len_loop s p len =
     (if p < length s then do {
        (n, cp) \<leftarrow> utf8proc_iterate (drop p s) (int (length s - p));
        (if n < 0 then Some (0, Some ValueError) else len_loop s (p + nat n) (len + 1))
      }
      else if p \<noteq> length s then Some (0, Some ValueError)
      else Some (len, None))"

declare len_loop.simps [code]

definition hlt_string_len :: "hlt_string \<Rightarrow> (int \<times> exn option) option" where
  "hlt_string_len s = (case s of None \<Rightarrow> Some (0, None) | Some bs \<Rightarrow> len_loop bs 0 0)"

definition hlt_string_concat :: "hlt_string \<Rightarrow> hlt_string \<Rightarrow> hlt_string" where
  "hlt_string_concat s1 s2 =
     (if slen s1 = 0 then s2 else if slen s2 = 0 then s1 else Some (the s1 @ the s2))"

text \<open>A C string ends at its first zero byte.\<close>

definition hlt_string_from_asciiz :: "byte list \<Rightarrow> hlt_string" where
  "hlt_string_from_asciiz cs = Some (takeWhile (\<lambda>c. c \<noteq> 0) cs)"

definition hlt_string_concat_asciiz :: "hlt_string \<Rightarrow> byte list \<Rightarrow> hlt_string" where
  "hlt_string_concat_asciiz s1 cs =
     (let s2 = takeWhile (\<lambda>c. c \<noteq> 0) cs in
      if slen s1 = 0 then hlt_string_from_asciiz cs else if length s2 = 0 then s1 else Some (the s1 @ s2))"

definition hlt_string_from_data :: "byte list \<Rightarrow> hlt_string" where
  "hlt_string_from_data bs = Some bs"

definition hlt_string_empty :: hlt_string where
  "hlt_string_empty = None"

definition hlt_string_copy :: "hlt_string \<Rightarrow> hlt_string option" where
  "hlt_string_copy s = map_option hlt_string_from_data s"

text \<open>Moving on by a number of code points, for the start and for the end of a sub-string.\<close>

partial_function (option) skip_loop :: "byte list \<Rightarrow> nat \<Rightarrow> int \<Rightarrow> (exn + nat) option" where
  "skip_loop s p k =
     (if p < length s \<and> k \<noteq> 0 then do {
        (n, cp) \<leftarrow> utf8proc_iterate (drop p s) (int (length s - p));
        (if n < 0 then Some (Inl ValueError) else skip_loop s (p + nat n) (k - 1))
      }
      else Some (Inr p))"

declare skip_loop.simps [code]

definition hlt_string_substr :: "hlt_string \<Rightarrow> int \<Rightarrow> int \<Rightarrow> (hlt_string \<times> exn option) option" where
  "hlt_string_substr s pos len =
     (case s of
        None \<Rightarrow> Some (None, None)
      | Some bs \<Rightarrow>
          (if len = 0 \<or> length bs = 0 then Some (None, None)
           else do {
             r \<leftarrow> skip_loop bs 0 pos;
             (case r of
                Inl e \<Rightarrow> Some (None, Some e)
              | Inr f \<Rightarrow> do {
                  r2 \<leftarrow> skip_loop bs f len;
                  (case r2 of
                     Inl e \<Rightarrow> Some (None, Some e)
                   | Inr p \<Rightarrow> Some (if p = f then None else hlt_string_from_data (take (p - f) (drop f bs)), None))
                })
           }))"

text \<open>
  The search compares as many bytes as the pattern has, so these have to exist; an error of \<open>utf8proc_iterate\<close>
  is a negative number, by which the search moves back. The code holds the two lengths in an \<open>int\<close>; the model takes them to fit.
\<close>

partial_function (option) find_loop :: "byte list \<Rightarrow> byte list \<Rightarrow> int \<Rightarrow> int \<Rightarrow> int option" where
  "find_loop s pat p pos =
     (if p < int (length s) then
        (if p < 0 \<or> p + int (length pat) > int (length s) then None
         else if take (length pat) (drop (nat p) s) = pat then Some pos
         else do {
           (n, cp) \<leftarrow> utf8proc_iterate (drop (nat p) s) (int (length s) - p);
           find_loop s pat (p + n) (pos + 1)
         })
      else Some (-1))"

declare find_loop.simps [code]

definition hlt_string_find :: "hlt_string \<Rightarrow> hlt_string \<Rightarrow> int option" where
  "hlt_string_find s pat =
     (if slen s = 0 \<and> slen pat = 0 then Some 0
      else if slen s = 0 then Some (-1)
      else if slen pat = 0 then Some 0
      else find_loop (the s) (the pat) 0 0)"

definition as_int8 :: "int \<Rightarrow> int" where
  "as_int8 x = (x + 128) mod 256 - 128"

text \<open>The comparison counts code points in \<open>i\<close>, but takes it for a number of bytes.\<close>

partial_function (option) string_cmp_loop :: "byte list \<Rightarrow> byte list \<Rightarrow> nat \<Rightarrow> nat \<Rightarrow> int \<Rightarrow> (int \<times> exn option) option" where
  "string_cmp_loop s1 s2 p1 p2 i = do {
     (n1, cp1) \<leftarrow> utf8proc_iterate (drop p1 s1) (int (length s1) - i);
     (if n1 < 0 then Some (0, Some ValueError)
      else do {
        (n2, cp2) \<leftarrow> utf8proc_iterate (drop p2 s2) (int (length s2) - i);
        (if n2 < 0 then Some (0, Some ValueError)
         else if cp1 \<noteq> cp2 then Some (as_int8 (cp1 - cp2), None)
         else if i = int (length s1) \<or> i = int (length s2) then
           Some (if i = int (length s1) \<and> i = int (length s2) then 0 else if i = int (length s1) then -1 else 1, None)
         else string_cmp_loop s1 s2 (p1 + nat n1) (p2 + nat n2) (i + 1))
      })
   }"

declare string_cmp_loop.simps [code]

definition hlt_string_cmp :: "hlt_string \<Rightarrow> hlt_string \<Rightarrow> (int \<times> exn option) option" where
  "hlt_string_cmp s1 s2 =
     (if slen s1 = 0 \<and> slen s2 = 0 then Some (0, None)
      else if slen s1 = 0 then Some (-1, None)
      else if slen s2 = 0 then Some (1, None)
      else string_cmp_loop (the s1) (the s2) 0 0 0)"

text \<open>Copying to a buffer of \<open>n\<close> bytes, with the terminating zero; the number of bytes in front of it is computed without sign.\<close>

definition hlt_string_to_asciiz :: "nat \<Rightarrow> hlt_string \<Rightarrow> (nat \<times> byte list) option" where
  "hlt_string_to_asciiz n s = do {
     bs \<leftarrow> s;
     let len = (if length bs < sub64 n 1 then length bs else sub64 n 1);
     (if len + 1 > n then None else Some (len, take len bs @ [0]))
   }"

subsection \<open>Hash and equality\<close>

text \<open>The length is an \<open>int16_t\<close>; the loop ends when it reaches zero.\<close>

function hash_loop :: "byte list \<Rightarrow> 16 word \<Rightarrow> 64 word \<Rightarrow> 64 word option" where
  "hash_loop s len h =
     (if len = 0 then Some h
      else (case s of [] \<Rightarrow> None | b # r \<Rightarrow> hash_loop r (len - 1) (push_bit 5 h - h + scast b)))"
  by auto
termination by (relation "measure (\<lambda>(s, len, h). length s)") auto

definition hlt_hash_bytes :: "byte list \<Rightarrow> 16 word \<Rightarrow> 64 word \<Rightarrow> 64 word option" where
  "hlt_hash_bytes s len prev_hash = (if len = 0 then Some 0 else hash_loop s len prev_hash)"

definition hlt_string_hash :: "hlt_string \<Rightarrow> 64 word option" where
  "hlt_string_hash s = (case s of None \<Rightarrow> Some 0 | Some bs \<Rightarrow> hlt_hash_bytes bs (word_of_nat (length bs)) 0)"

definition hlt_string_equal :: "hlt_string \<Rightarrow> hlt_string \<Rightarrow> bool" where
  "hlt_string_equal s1 s2 =
     (if \<not> (s1 \<noteq> None \<and> s2 \<noteq> None) then s1 = s2
      else if length (the s1) \<noteq> length (the s2) then False
      else the s1 = the s2)"

section \<open>Encoding and decoding are inverse\<close>

lemma and_mask_mod: "(x :: int) AND 0x3F = x mod 64" "x AND 0x1F = x mod 32" "x AND 0x0F = x mod 16" "x AND 0x07 = x mod 8" "x AND 0xFFFF = x mod 65536"
  using take_bit_eq_mask [of 6 x] take_bit_eq_mask [of 5 x] take_bit_eq_mask [of 4 x] take_bit_eq_mask [of 3 x] take_bit_eq_mask [of 16 x]
  by (simp_all add: take_bit_eq_mod mask_eq_exp_minus_1)

lemma and_c0: "(x :: int) AND 0xC0 = (x div 64 mod 4) * 64"
proof -
  have "x AND push_bit 6 (mask 2) = push_bit 6 (take_bit 2 (drop_bit 6 x))"
    by (rule bit_eqI) (auto simp: bit_simps)
  then show ?thesis by (simp add: push_bit_eq_mult take_bit_eq_mod drop_bit_eq_div mask_eq_exp_minus_1)
qed

lemma uint_byte: "0 \<le> x \<Longrightarrow> x < 256 \<Longrightarrow> uint (word_of_int x :: byte) = x"
  by (simp add: uint_word_of_int)

lemma and_cont: "0 \<le> x \<Longrightarrow> x < 64 \<Longrightarrow> ((0x80 :: int) + x) AND 0xC0 = 0x80"
proof -
  assume "0 \<le> x" "x < 64"
  then have "(x + 2 * 64) div 64 = 2" by (simp only: div_mult_self1)
  then show ?thesis by (simp add: and_c0 add.commute)
qed

lemma class_nth:
  "x < 128 \<Longrightarrow> utf8class ! x = 1" "192 \<le> x \<Longrightarrow> x < 224 \<Longrightarrow> utf8class ! x = 2" "224 \<le> x \<Longrightarrow> x < 240 \<Longrightarrow> utf8class ! x = 3"
  "240 \<le> x \<Longrightarrow> x < 248 \<Longrightarrow> utf8class ! x = 4"
  by (auto simp: utf8class_def nth_append)

lemma unat_of: "uint b = x \<Longrightarrow> unat b = nat x"
  by auto

lemma mod_shift: "(k * m + y) mod m = (y :: int) mod m"
  by simp

lemma lead_mod: "((192 :: int) + y) mod 32 = y mod 32" "((224 :: int) + y) mod 16 = y mod 16" "((240 :: int) + y) mod 8 = y mod 8" "((128 :: int) + y) mod 64 = y mod 64"
proof -
  show "((192 :: int) + y) mod 32 = y mod 32" using mod_shift [of 6 32 y] by simp
  show "((224 :: int) + y) mod 16 = y mod 16" using mod_shift [of 14 16 y] by simp
  show "((240 :: int) + y) mod 8 = y mod 8" using mod_shift [of 30 8 y] by simp
  show "((128 :: int) + y) mod 64 = y mod 64" using mod_shift [of 2 64 y] by simp
qed

lemma split64: "(x :: int) = x div 64 * 64 + x mod 64"
  by simp

lemma split4096: "(x :: int) = x div 4096 * 4096 + x div 64 mod 64 * 64 + x mod 64"
proof -
  have "x div 64 = x div 4096 * 64 + x div 64 mod 64" using split64 [of "x div 64"] by (simp add: zdiv_zmult2_eq [symmetric])
  then show ?thesis using split64 [of x] by linarith
qed

lemma split262144: "(x :: int) = x div 262144 * 262144 + x div 4096 mod 64 * 4096 + x div 64 mod 64 * 64 + x mod 64"
proof -
  have "x div 4096 = x div 262144 * 64 + x div 4096 mod 64" using split64 [of "x div 4096"] by (simp add: zdiv_zmult2_eq [symmetric])
  then show ?thesis using split4096 [of x] by linarith
qed

lemmas bits_arith = push_bit_eq_mult drop_bit_eq_div and_mask_mod

lemma iterate_ok:
  assumes "utf8class ! unat b = len" "len \<noteq> 0" "len \<le> n" "cont_loop (b # s) 1 len = Some True" "utf8_code len (b # s) = uc"
    "0 \<le> uc" "uc mod 65536 < 0xFFFE"
  shows "utf8proc_iterate (b # s) n = Some (len, uc)"
proof -
  have "n \<noteq> 0 \<or> len < 0" using assms(2,3) by auto
  moreover have "0 \<le> len"
  proof -
    have "unat b < 256" using unsigned_less [where ?'a = nat, of b] by simp
    then have "utf8class ! unat b \<in> set utf8class" by (intro nth_mem) (simp add: utf8class_def)
    then show ?thesis using assms(1) by (auto simp: utf8class_def)
  qed
  ultimately show ?thesis using assms by (auto simp: utf8proc_iterate_def rd_def and_mask_mod Let_def)
qed

lemma decode_encode:
  assumes "utf8proc_codepoint_valid uc" "int (length (utf8proc_encode_char uc)) \<le> n"
  shows "utf8proc_iterate (utf8proc_encode_char uc @ rest) n = Some (int (length (utf8proc_encode_char uc)), uc)"
proof -
  have v: "0 \<le> uc" "uc < 0x110000" "uc mod 65536 < 0xFFFE" "\<not> (0xD800 \<le> uc \<and> uc < 0xE000)" "\<not> (0xFDD0 \<le> uc \<and> uc < 0xFDF0)"
    using assms(1) by (auto simp: utf8proc_codepoint_valid_def and_mask_mod)
  then have nc: "uc \<noteq> 0xFFFF" "uc \<noteq> 0xFFFE" by auto
  define c where "c k = (word_of_int (0x80 + uc div 2 ^ k mod 64) :: byte)" for k :: nat
  have c: "uint (c k) = 0x80 + uc div 2 ^ k mod 64" "uint (c k) AND 0xC0 = 0x80" for k
  proof -
    have "0 \<le> uc div 2 ^ k mod 64" "uc div 2 ^ k mod 64 < 64" by simp_all
    then show u: "uint (c k) = 0x80 + uc div 2 ^ k mod 64" unfolding c_def by (intro uint_byte) linarith+
    show "uint (c k) AND 0xC0 = 0x80" unfolding u by (rule and_cont) simp_all
  qed
  consider "uc < 0x80" | "0x80 \<le> uc" "uc < 0x800" | "0x800 \<le> uc" "uc < 0x10000" | "0x10000 \<le> uc" by linarith
  then show ?thesis
  proof cases
    case 1
    define b where "b = (word_of_int uc :: byte)"
    have b: "uint b = uc" unfolding b_def using 1 v by (intro uint_byte) auto
    have enc: "utf8proc_encode_char uc = [b]" using 1 v by (simp add: utf8proc_encode_char_def b_def)
    have code: "utf8_code 1 (b # rest) = uc" using b by (simp add: utf8_code_def)
    have "utf8proc_iterate (b # rest) n = Some (1, uc)"
    proof (rule iterate_ok [OF _ _ _ _ code])
      show "utf8class ! unat b = 1" unfolding unat_of [OF b] using 1 by (intro class_nth(1)) auto
    qed (use v assms(2) enc in auto)
    then show ?thesis unfolding enc by simp
  next
    case 2
    define b where "b = (word_of_int (0xC0 + uc div 64) :: byte)"
    have b: "uint b = 0xC0 + uc div 64" unfolding b_def using 2 by (intro uint_byte) auto
    have enc: "utf8proc_encode_char uc = [b, c 0]" using 2 by (simp add: utf8proc_encode_char_def b_def c_def bits_arith)
    have "uc div 64 mod 32 = uc div 64" using 2 by (intro mod_pos_pos_trivial) auto
    have parts: "push_bit 6 (uint b AND 0x1F) = uc div 64 * 64" "uint (c 0) AND 0x3F = uc mod 64"
      unfolding b c(1) bits_arith lead_mod \<open>uc div 64 mod 32 = uc div 64\<close> by simp_all
    have code: "utf8_code 2 (b # c 0 # rest) = uc" using 2 split64 [of uc] unfolding utf8_code_def by (simp add: parts Let_def del: push_bit_and)
    have "utf8proc_iterate (b # c 0 # rest) n = Some (2, uc)"
    proof (rule iterate_ok [OF _ _ _ _ code])
      show "utf8class ! unat b = 2" unfolding unat_of [OF b] using 2 by (intro class_nth(2)) auto
    qed (use v assms(2) enc c(2) in \<open>auto simp: rd_def\<close>)
    then show ?thesis unfolding enc by simp
  next
    case 3
    define b where "b = (word_of_int (0xE0 + uc div 4096) :: byte)"
    have b: "uint b = 0xE0 + uc div 4096" unfolding b_def using 3 by (intro uint_byte) auto
    have enc: "utf8proc_encode_char uc = [b, c 6, c 0]" using 3 nc by (simp add: utf8proc_encode_char_def b_def c_def bits_arith)
    have "uc div 4096 mod 16 = uc div 4096" using 3 by (intro mod_pos_pos_trivial) auto
    have "uc div 4096 * 4096 + uc div 64 mod 64 * 64 + uc mod 64 = uc" using split4096 [of uc] by linarith
    note sum = this
    have parts: "push_bit 12 (uint b AND 0x0F) = uc div 4096 * 4096" "push_bit 6 (uint (c 6) AND 0x3F) = uc div 64 mod 64 * 64" "uint (c 0) AND 0x3F = uc mod 64"
      unfolding b c(1) bits_arith lead_mod \<open>uc div 4096 mod 16 = uc div 4096\<close> by simp_all
    have code: "utf8_code 3 (b # c 6 # c 0 # rest) = uc" using 3 v(4,5) unfolding utf8_code_def by (simp add: parts sum Let_def del: push_bit_and)
    have "utf8proc_iterate (b # c 6 # c 0 # rest) n = Some (3, uc)"
    proof (rule iterate_ok [OF _ _ _ _ code])
      show "utf8class ! unat b = 3" unfolding unat_of [OF b] using 3 by (intro class_nth(3)) auto
    qed (use v assms(2) enc c(2) in \<open>auto simp: rd_def\<close>)
    then show ?thesis unfolding enc by simp
  next
    case 4
    define b where "b = (word_of_int (0xF0 + uc div 262144) :: byte)"
    have b: "uint b = 0xF0 + uc div 262144" unfolding b_def using 4 v by (intro uint_byte) auto
    have enc: "utf8proc_encode_char uc = [b, c 12, c 6, c 0]" using 4 v nc by (simp add: utf8proc_encode_char_def b_def c_def bits_arith)
    have "uc div 262144 mod 8 = uc div 262144" using 4 v by (intro mod_pos_pos_trivial) auto
    have "uc div 262144 * 262144 + uc div 4096 mod 64 * 4096 + uc div 64 mod 64 * 64 + uc mod 64 = uc" using split262144 [of uc] by linarith
    note sum = this
    have parts: "push_bit 18 (uint b AND 0x07) = uc div 262144 * 262144" "push_bit 12 (uint (c 12) AND 0x3F) = uc div 4096 mod 64 * 4096"
      "push_bit 6 (uint (c 6) AND 0x3F) = uc div 64 mod 64 * 64" "uint (c 0) AND 0x3F = uc mod 64"
      unfolding b c(1) bits_arith lead_mod \<open>uc div 262144 mod 8 = uc div 262144\<close> by simp_all
    have code: "utf8_code 4 (b # c 12 # c 6 # c 0 # rest) = uc" using 4 v(2) unfolding utf8_code_def by (simp add: parts sum Let_def del: push_bit_and)
    have "utf8proc_iterate (b # c 12 # c 6 # c 0 # rest) n = Some (4, uc)"
    proof (rule iterate_ok [OF _ _ _ _ code])
      show "utf8class ! unat b = 4" unfolding unat_of [OF b] using 4 v by (intro class_nth(4)) auto
    qed (use v assms(2) enc c(2) in \<open>auto simp: rd_def\<close>)
    then show ?thesis unfolding enc by simp
  qed
qed

section \<open>Strings as code points\<close>

definition utf8 :: "int list \<Rightarrow> byte list" where
  "utf8 cps = concat (map utf8proc_encode_char cps)"

abbreviation valid_points :: "int list \<Rightarrow> bool" where
  "valid_points cps \<equiv> list_all utf8proc_codepoint_valid cps"

text \<open>The value of a string, for which the null pointer and an object without bytes are the same.\<close>

definition sval :: "hlt_string \<Rightarrow> byte list" where
  "sval s = (case s of None \<Rightarrow> [] | Some bs \<Rightarrow> bs)"

lemma utf8_simps [simp]: "utf8 [] = []" "utf8 (c # cs) = utf8proc_encode_char c @ utf8 cs" "utf8 (xs @ ys) = utf8 xs @ utf8 ys"
  by (simp_all add: utf8_def)

lemma encode_nonempty: "utf8proc_codepoint_valid c \<Longrightarrow> 0 < length (utf8proc_encode_char c)"
  by (auto simp: utf8proc_codepoint_valid_def utf8proc_encode_char_def)

lemma iterate_next:
  assumes "utf8proc_codepoint_valid c"
  shows "utf8proc_iterate (drop (length (utf8 xs)) (utf8 (xs @ c # ys))) (int (length (utf8 (xs @ c # ys)) - length (utf8 xs))) =
    Some (int (length (utf8proc_encode_char c)), c)"
  using decode_encode [OF assms, of "int (length (utf8 (xs @ c # ys)) - length (utf8 xs))" "utf8 ys"] by simp

lemma len_loop_ok:
  assumes "valid_points ys"
  shows "len_loop (utf8 (xs @ ys)) (length (utf8 xs)) k = Some (k + int (length ys), None)"
  using assms
proof (induction ys arbitrary: xs k)
  case Nil
  then show ?case by (subst len_loop.simps) simp
next
  case (Cons c ys)
  then have c: "utf8proc_codepoint_valid c" by simp
  have next_pos: "length (utf8 xs) + nat (int (length (utf8proc_encode_char c))) = length (utf8 (xs @ [c]))" by simp
  have "len_loop (utf8 (xs @ c # ys)) (length (utf8 xs)) k = len_loop (utf8 (xs @ c # ys)) (length (utf8 (xs @ [c]))) (k + 1)"
    unfolding next_pos [symmetric] using iterate_next [OF c, of xs ys] encode_nonempty [OF c]
    by (subst len_loop.simps) (simp del: utf8_simps(3) add: utf8_simps(3) [of xs])
  also have "\<dots> = Some (k + 1 + int (length ys), None)" using Cons.IH [of "xs @ [c]"] Cons.prems by simp
  finally show ?case by simp
qed

lemma skip_loop_ok:
  assumes "valid_points ys" "0 \<le> k"
  shows "skip_loop (utf8 (xs @ ys)) (length (utf8 xs)) k = Some (Inr (length (utf8 (xs @ take (nat k) ys))))"
  using assms
proof (induction ys arbitrary: xs k)
  case Nil
  then show ?case by (subst skip_loop.simps) simp
next
  case (Cons c ys)
  then have c: "utf8proc_codepoint_valid c" by simp
  show ?case
  proof (cases "k = 0")
    case True
    then show ?thesis by (subst skip_loop.simps) simp
  next
    case False
    then obtain n where n: "nat k = Suc n" "nat (k - 1) = n" using Cons.prems(2) by (cases "nat k") auto
    have next_pos: "length (utf8 xs) + nat (int (length (utf8proc_encode_char c))) = length (utf8 (xs @ [c]))" by simp
    have "skip_loop (utf8 (xs @ c # ys)) (length (utf8 xs)) k = skip_loop (utf8 (xs @ c # ys)) (length (utf8 (xs @ [c]))) (k - 1)"
      unfolding next_pos [symmetric] using iterate_next [OF c, of xs ys] encode_nonempty [OF c] False
      by (subst skip_loop.simps) (simp del: utf8_simps(3) add: utf8_simps(3) [of xs])
    then show ?thesis using Cons.IH [of "k - 1" "xs @ [c]"] Cons.prems False n by simp
  qed
qed

lemma utf8_empty: "valid_points cps \<Longrightarrow> utf8 cps = [] \<longleftrightarrow> cps = []"
  using encode_nonempty by (cases cps) auto

lemma substr_ok:
  assumes v: "valid_points cps" and k: "0 \<le> pos" "0 \<le> len"
  shows "\<exists>r. hlt_string_substr (Some (utf8 cps)) pos len = Some (r, None) \<and> sval r = utf8 (take (nat len) (drop (nat pos) cps))"
proof (cases "len = 0 \<or> cps = []")
  case True
  then show ?thesis by (auto simp: hlt_string_substr_def sval_def)
next
  case False
  let ?xs = "take (nat pos) cps" and ?ys = "drop (nat pos) cps"
  have vs: "valid_points ?ys" using v by (metis append_take_drop_id list_all_append)
  have 1: "skip_loop (utf8 cps) 0 pos = Some (Inr (length (utf8 ?xs)))" using skip_loop_ok [OF v k(1), of "[]"] by simp
  have 2: "skip_loop (utf8 cps) (length (utf8 ?xs)) len = Some (Inr (length (utf8 (?xs @ take (nat len) ?ys))))"
    using skip_loop_ok [OF vs k(2), of ?xs] by simp
  have 3: "take (length (utf8 (take (nat len) ?ys))) (drop (length (utf8 ?xs)) (utf8 cps)) = utf8 (take (nat len) ?ys)"
  proof -
    have "utf8 cps = utf8 ?xs @ utf8 (take (nat len) ?ys) @ utf8 (drop (nat len) ?ys)"
      by (metis append_take_drop_id utf8_simps(3))
    then show ?thesis by simp
  qed
  show ?thesis using False 1 2 3 utf8_empty [OF v] by (auto simp: hlt_string_substr_def hlt_string_from_data_def sval_def)
qed

lemma concat_sval: "sval (hlt_string_concat s1 s2) = sval s1 @ sval s2"
  by (auto simp: hlt_string_concat_def sval_def slen_def split: option.splits)

subsection \<open>Search\<close>

lemma encode_inj:
  assumes "utf8proc_codepoint_valid c" "utf8proc_codepoint_valid d" "utf8proc_encode_char c @ s = utf8proc_encode_char d @ t"
  shows "c = d \<and> s = t"
proof -
  let ?n = "int (length (utf8proc_encode_char c @ s))"
  have n: "int (length (utf8proc_encode_char c)) \<le> ?n" "int (length (utf8proc_encode_char d)) \<le> ?n"
    using arg_cong [OF assms(3), of length] by simp_all
  have "Some (int (length (utf8proc_encode_char c)), c) = Some (int (length (utf8proc_encode_char d)), d)"
    using decode_encode [OF assms(1) n(1), of s] decode_encode [OF assms(2) n(2), of t] unfolding assms(3) by (rule trans [OF sym])
  then show ?thesis using assms(3) by simp
qed

lemma utf8_prefix:
  assumes "valid_points zs" "valid_points ps"
  shows "take (length (utf8 ps)) (utf8 zs) = utf8 ps \<longleftrightarrow> prefix ps zs"
proof -
  have "prefix (utf8 ps) (utf8 zs) \<longleftrightarrow> prefix ps zs" using assms
  proof (induction ps arbitrary: zs)
    case (Cons c ps)
    show ?case
    proof (cases zs)
      case Nil
      then show ?thesis using encode_nonempty [of c] Cons.prems by auto
    next
      case (Cons d zs')
      have "prefix (utf8 (c # ps)) (utf8 (d # zs')) \<longleftrightarrow> c = d \<and> prefix (utf8 ps) (utf8 zs')"
        using encode_inj [of d c] Cons Cons.prems by (fastforce simp: prefix_def)
      with Cons.IH [of zs'] Cons.prems Cons show ?thesis by auto
    qed
  qed simp
  then show ?thesis by (metis append_eq_conv_conj prefix_def append_take_drop_id)
qed

lemma find_step:
  assumes v: "valid_points (c # zs)" "valid_points ps" and len: "length (utf8 ps) \<le> length (utf8 (c # zs))"
  shows "find_loop (utf8 (xs @ c # zs)) (utf8 ps) (int (length (utf8 xs))) pos =
    (if prefix ps (c # zs) then Some pos else find_loop (utf8 (xs @ c # zs)) (utf8 ps) (int (length (utf8 (xs @ [c])))) (pos + 1))"
proof -
  have c: "utf8proc_codepoint_valid c" using v by simp
  have "int (length (utf8 (xs @ c # zs)) - length (utf8 xs)) = int (length (utf8 (xs @ c # zs))) - int (length (utf8 xs))" by simp
  then have it: "utf8proc_iterate (drop (length (utf8 xs)) (utf8 (xs @ c # zs))) (int (length (utf8 (xs @ c # zs))) - int (length (utf8 xs))) =
    Some (int (length (utf8proc_encode_char c)), c)" using iterate_next [OF c, of xs zs] by simp
  have "length (utf8 xs) < length (utf8 (xs @ c # zs))" using encode_nonempty [OF c] by simp
  then have "int (length (utf8 xs)) < int (length (utf8 (xs @ c # zs)))" by (simp only: of_nat_less_iff)
  with it utf8_prefix [OF v] len show ?thesis by (subst find_loop.simps) auto
qed

lemma find_found:
  assumes "valid_points zs" "valid_points ps" "ps \<noteq> []" "prefix ps (drop m zs)" "\<And>j. j < m \<Longrightarrow> \<not> prefix ps (drop j zs)"
  shows "find_loop (utf8 (xs @ zs)) (utf8 ps) (int (length (utf8 xs))) pos = Some (pos + int m)"
  using assms
proof (induction m arbitrary: xs zs pos)
  case 0
  then obtain c zs' where zs: "zs = c # zs'" by (cases zs) auto
  have "length (utf8 ps) \<le> length (utf8 zs)" using 0 by (auto simp: prefix_def)
  with find_step [of c zs' ps xs pos] 0 zs show ?case by simp
next
  case (Suc m)
  then obtain c zs' where zs: "zs = c # zs'" by (cases zs) auto
  have np: "\<not> prefix ps zs" using Suc.prems(5) [of 0] by simp
  have "length (utf8 ps) \<le> length (utf8 (drop m zs'))" using Suc.prems(4) zs by (auto simp: prefix_def)
  also have "\<dots> \<le> length (utf8 zs')" by (metis append_take_drop_id le_add2 length_append utf8_simps(3))
  finally have "length (utf8 ps) \<le> length (utf8 (c # zs'))" by simp
  from find_step [OF _ Suc.prems(2) this, of xs pos] Suc.prems(1) zs np have
    "find_loop (utf8 (xs @ zs)) (utf8 ps) (int (length (utf8 xs))) pos = find_loop (utf8 ((xs @ [c]) @ zs')) (utf8 ps) (int (length (utf8 (xs @ [c])))) (pos + 1)"
    by simp
  also have "\<dots> = Some (pos + 1 + int m)"
  proof (rule Suc.IH)
    show "\<not> prefix ps (drop j zs')" if "j < m" for j using Suc.prems(5) [of "Suc j"] that zs by simp
  qed (use Suc.prems zs in auto)
  finally show ?case by simp
qed

lemma find_missing:
  assumes "valid_points zs" "valid_points ps" "zs \<noteq> []" "\<And>j. \<not> prefix ps (drop j zs)"
    "length (utf8proc_encode_char (last zs)) < length (utf8 ps)"
  shows "find_loop (utf8 (xs @ zs)) (utf8 ps) (int (length (utf8 xs))) pos = None"
  using assms
proof (induction zs arbitrary: xs pos)
  case (Cons c zs)
  have c: "0 < length (utf8proc_encode_char c)" using encode_nonempty Cons.prems(1) by simp
  show ?case
  proof (cases "length (utf8 ps) \<le> length (utf8 (c # zs))")
    case True
    then have zs: "zs \<noteq> []" using Cons.prems(5) by auto
    from find_step [OF Cons.prems(1,2) True, of xs pos] Cons.prems(4) [of 0] have
      "find_loop (utf8 (xs @ c # zs)) (utf8 ps) (int (length (utf8 xs))) pos = find_loop (utf8 ((xs @ [c]) @ zs)) (utf8 ps) (int (length (utf8 (xs @ [c])))) (pos + 1)" by simp
    also have "\<dots> = None"
    proof (rule Cons.IH)
      show "\<not> prefix ps (drop j zs)" for j using Cons.prems(4) [of "Suc j"] by simp
    qed (use Cons.prems zs in auto)
    finally show ?thesis .
  next
    case False
    have "length (utf8 xs) < length (utf8 (xs @ c # zs))" using c by simp
    then have "int (length (utf8 xs)) < int (length (utf8 (xs @ c # zs)))" by (simp only: of_nat_less_iff)
    with False show ?thesis by (subst find_loop.simps) auto
  qed
qed simp

subsection \<open>Comparison\<close>

abbreviation ascii :: "int list \<Rightarrow> bool" where
  "ascii cps \<equiv> list_all (\<lambda>c. 0 \<le> c \<and> c < 127) cps"

lemma ascii_valid: "0 \<le> c \<Longrightarrow> c < 127 \<Longrightarrow> utf8proc_codepoint_valid c \<and> length (utf8proc_encode_char c) = 1"
  by (simp add: utf8proc_codepoint_valid_def utf8proc_encode_char_def and_mask_mod)

lemma ascii_points: "ascii cps \<Longrightarrow> valid_points cps \<and> length (utf8 cps) = length cps"
  using ascii_valid by (induction cps) auto

lemma as_int8_small: "-128 \<le> x \<Longrightarrow> x < 128 \<Longrightarrow> as_int8 x = x"
  by (simp add: as_int8_def)

lemma iterate_ascii:
  assumes "ascii (xs @ ys)"
  shows "utf8proc_iterate (drop (length xs) (utf8 (xs @ ys))) (int (length (utf8 (xs @ ys))) - int (length xs)) =
    Some (if ys = [] then (0, -1) else (1, hd ys))"
proof (cases ys)
  case Nil
  then show ?thesis using assms ascii_points [of xs] by (simp add: utf8proc_iterate_def)
next
  case (Cons c zs)
  have x: "length (utf8 xs) = length xs" using assms ascii_points [of xs] by simp
  have c: "utf8proc_codepoint_valid c" "length (utf8proc_encode_char c) = 1" using assms Cons ascii_valid [of c] by auto
  have "int (length (utf8 (xs @ ys)) - length (utf8 xs)) = int (length (utf8 (xs @ ys))) - int (length (utf8 xs))" by simp
  with iterate_next [OF c(1), of xs zs] Cons c(2) x show ?thesis by simp
qed

lemma cmp_step:
  assumes "utf8proc_iterate (drop p1 s1) (int (length s1) - i) = Some (n1, c1)" "utf8proc_iterate (drop p2 s2) (int (length s2) - i) = Some (n2, c2)"
    "0 \<le> n1" "0 \<le> n2"
  shows "string_cmp_loop s1 s2 p1 p2 i =
    (if c1 \<noteq> c2 then Some (as_int8 (c1 - c2), None)
     else if i = int (length s1) \<or> i = int (length s2) then
       Some (if i = int (length s1) \<and> i = int (length s2) then 0 else if i = int (length s1) then -1 else 1, None)
     else string_cmp_loop s1 s2 (p1 + nat n1) (p2 + nat n2) (i + 1))"
  using assms by (subst string_cmp_loop.simps) simp

lemma cmp_ascii:
  assumes "ascii (xs @ ys)" "ascii (xs @ zs)"
  shows "\<exists>r. string_cmp_loop (utf8 (xs @ ys)) (utf8 (xs @ zs)) (length xs) (length xs) (int (length xs)) = Some (r, None) \<and>
    (r = 0 \<longleftrightarrow> ys = zs) \<and> (r < 0 \<longleftrightarrow> (ys, zs) \<in> lexord {(x, y). x < y})"
  using assms
proof (induction ys arbitrary: xs zs)
  case Nil
  note it = iterate_ascii [OF Nil(1)] iterate_ascii [OF Nil(2)]
  have lens: "length (utf8 (xs @ [])) = length xs" "length (utf8 (xs @ zs)) = length xs + length zs"
    using ascii_points [OF Nil(1)] ascii_points [OF Nil(2)] by auto
  show ?case
  proof (cases zs)
    case z: Nil
    note it' = it [unfolded z if_P [OF refl]]
    show ?thesis unfolding z by (subst cmp_step [OF it']) (use lens in simp_all)
  next
    case (Cons c zs')
    then have c: "0 \<le> c" "c < 127" and ne: "zs \<noteq> []" "hd zs = c" using Nil(2) by auto
    have it2: "utf8proc_iterate (drop (length xs) (utf8 (xs @ zs))) (int (length (utf8 (xs @ zs))) - int (length xs)) = Some (1, c)" using it(2) ne by simp
    have "string_cmp_loop (utf8 (xs @ [])) (utf8 (xs @ zs)) (length xs) (length xs) (int (length xs)) = Some (as_int8 (- 1 - c), None)"
      by (subst cmp_step [OF it(1) [unfolded if_P [OF refl]] it2]) (use c in auto)
    then show ?thesis using c Cons by (simp add: as_int8_small)
  qed
next
  case (Cons a ys)
  have a: "0 \<le> a" "a < 127" using Cons.prems(1) by auto
  have it1: "utf8proc_iterate (drop (length xs) (utf8 (xs @ a # ys))) (int (length (utf8 (xs @ a # ys))) - int (length xs)) = Some (1, a)"
    using iterate_ascii [OF Cons.prems(1)] by simp
  have it2: "utf8proc_iterate (drop (length xs) (utf8 (xs @ zs))) (int (length (utf8 (xs @ zs))) - int (length xs)) = Some (if zs = [] then (0, -1) else (1, hd zs))"
    by (rule iterate_ascii [OF Cons.prems(2)])
  have lens: "length (utf8 (xs @ a # ys)) = length xs + Suc (length ys)" "length (utf8 (xs @ zs)) = length xs + length zs"
    using ascii_points [OF Cons.prems(1)] ascii_points [OF Cons.prems(2)] by auto
  have cmp: "string_cmp_loop (utf8 (xs @ a # ys)) (utf8 (xs @ zs)) (length xs) (length xs) (int (length xs)) =
    (if zs = [] \<or> a \<noteq> hd zs then Some (as_int8 (a - (if zs = [] then -1 else hd zs)), None)
     else string_cmp_loop (utf8 (xs @ a # ys)) (utf8 (xs @ zs)) (length xs + 1) (length xs + 1) (int (length xs) + 1))"
  proof (cases zs)
    case Nil
    note it2' = it2 [unfolded Nil if_P [OF refl]]
    show ?thesis unfolding Nil by (subst cmp_step [OF it1 it2']) (use a in auto)
  next
    case z: (Cons b zs')
    then have it2': "utf8proc_iterate (drop (length xs) (utf8 (xs @ zs))) (int (length (utf8 (xs @ zs))) - int (length xs)) = Some (1, hd zs)" using it2 by simp
    have "int (length xs) \<noteq> int (length (utf8 (xs @ a # ys)))" "int (length xs) \<noteq> int (length (utf8 (xs @ zs)))" using z unfolding lens by simp_all
    then show ?thesis unfolding cmp_step [OF it1 it2' zero_le_one zero_le_one] using z by (cases "a = b") simp_all
  qed
  show ?case
  proof (cases zs)
    case Nil
    with a cmp show ?thesis by (simp add: as_int8_small)
  next
    case zs: (Cons b zs')
    have b: "0 \<le> b" "b < 127" using Cons.prems(2) zs by auto
    show ?thesis
    proof (cases "a = b")
      case False
      with a b zs cmp show ?thesis by (auto simp: as_int8_small)
    next
      case True
      with Cons.IH [of "xs @ [a]" zs'] Cons.prems zs cmp show ?thesis by (simp add: add.commute)
    qed
  qed
qed

section \<open>Properties\<close>

text \<open>
  C20: Decoding inverts encoding: for every valid code point, \<^verbatim>\<open>utf8proc_iterate\<close> reads the code point back from the bytes that \<^verbatim>\<open>utf8proc_encode_char\<close> writes,
  whatever follows, and returns their number.
\<close>

theorem utf8_roundtrip:
  assumes "utf8proc_codepoint_valid uc"
  shows "utf8proc_iterate (utf8proc_encode_char uc @ rest) (int (length (utf8proc_encode_char uc @ rest))) =
    Some (int (length (utf8proc_encode_char uc)), uc)"
  using decode_encode [OF assms] by simp

theorem utf8_roundtrip_witness: "utf8proc_iterate (utf8proc_encode_char 0x1F600 @ [7]) 5 = Some (4, 0x1F600)"
proof -
  have "utf8proc_codepoint_valid 0x1F600" "length (utf8proc_encode_char 0x1F600) = 4"
    by (simp_all add: utf8proc_codepoint_valid_def utf8proc_encode_char_def and_mask_mod)
  then show ?thesis using utf8_roundtrip [of "0x1F600" "[7]"] by simp
qed

text \<open>
  C19: On the encoding of valid code points, the length of a string is the number of code points, a sub-string holds the code points
  from the given position on, at most as many as asked for, and concatenation appends.
\<close>

theorem string_ops_on_code_points:
  assumes "valid_points cps" "0 \<le> pos" "0 \<le> len"
  shows "hlt_string_len (Some (utf8 cps)) = Some (int (length cps), None) \<and>
    (\<exists>r. hlt_string_substr (Some (utf8 cps)) pos len = Some (r, None) \<and> sval r = utf8 (take (nat len) (drop (nat pos) cps))) \<and>
    sval (hlt_string_concat (Some (utf8 cps)) (Some (utf8 ds))) = utf8 (cps @ ds)"
  using len_loop_ok [OF assms(1), of "[]" 0] substr_ok [OF assms] concat_sval [of "Some (utf8 cps)" "Some (utf8 ds)"]
  by (simp add: hlt_string_len_def sval_def)

theorem string_ops_on_code_points_witness:
  "hlt_string_len (Some (utf8 [0x61, 0xE9, 0x62])) = Some (3, None) \<and>
    (\<exists>r. hlt_string_substr (Some (utf8 [0x61, 0xE9, 0x62])) 1 2 = Some (r, None) \<and> sval r = utf8 [0xE9, 0x62])"
proof -
  have "valid_points [0x61, 0xE9, 0x62]" by (simp add: utf8proc_codepoint_valid_def and_mask_mod)
  from string_ops_on_code_points [OF this, of 1 2] show ?thesis by (simp add: numeral_2_eq_2 del: utf8_simps)
qed

text \<open>
  C29: A search returns the number of code points in front of the first occurrence of the pattern. If the pattern does not occur and has
  more bytes than the last code point of the string, the search reads behind the end of the string.
\<close>

theorem string_find_first:
  assumes "valid_points cps" "valid_points ps" "cps \<noteq> []" "ps \<noteq> []"
  shows "(\<forall>m. prefix ps (drop m cps) \<and> (\<forall>j < m. \<not> prefix ps (drop j cps)) \<longrightarrow> hlt_string_find (Some (utf8 cps)) (Some (utf8 ps)) = Some (int m)) \<and>
    ((\<forall>j. \<not> prefix ps (drop j cps)) \<and> length (utf8proc_encode_char (last cps)) < length (utf8 ps) \<longrightarrow>
      hlt_string_find (Some (utf8 cps)) (Some (utf8 ps)) = None)"
proof -
  have f: "hlt_string_find (Some (utf8 cps)) (Some (utf8 ps)) = find_loop (utf8 cps) (utf8 ps) 0 0"
    using utf8_empty assms by (simp add: hlt_string_find_def slen_def)
  show ?thesis unfolding f using find_found [OF assms(1,2,4), of _ "[]" 0] find_missing [OF assms(1,2,3), of "[]" 0] by auto
qed

theorem string_find_first_witness:
  "hlt_string_find (Some (utf8 [0xE9, 0x61, 0x62])) (Some (utf8 [0x61, 0x62])) = Some 1 \<and>
   hlt_string_find (Some (utf8 [0xE9, 0x61, 0x62])) (Some (utf8 [0x62, 0x61])) = None"
proof
  have v: "valid_points [0xE9, 0x61, 0x62]" "valid_points [0x61, 0x62]" "valid_points [0x62, 0x61]" by (simp_all add: utf8proc_codepoint_valid_def and_mask_mod)
  have "prefix [0x61, 0x62] (drop 1 [0xE9, 0x61, 0x62 :: int])" "\<forall>j < 1. \<not> prefix [0x61, 0x62] (drop j [0xE9, 0x61, 0x62 :: int])" by simp_all
  then show "hlt_string_find (Some (utf8 [0xE9, 0x61, 0x62])) (Some (utf8 [0x61, 0x62])) = Some 1"
    using string_find_first [OF v(1,2)] by (metis list.distinct(1) of_nat_1)
  have "\<not> prefix [0x62, 0x61] (drop j [0xE9, 0x61, 0x62 :: int])" for j by (cases j; cases "j - 1"; cases "j - 2") (auto simp: drop_Cons split: nat.splits)
  moreover have "length (utf8proc_encode_char (last [0xE9, 0x61, 0x62])) < length (utf8 [0x62, 0x61])" by (simp add: utf8proc_encode_char_def)
  ultimately show "hlt_string_find (Some (utf8 [0xE9, 0x61, 0x62])) (Some (utf8 [0x62, 0x61])) = None"
    using string_find_first [OF v(1,3)] by simp
qed

text \<open>
  C28: For strings of the code points 0 to 126, the comparison is the lexicographic order: the result is zero exactly for equal strings, and negative exactly if the first
  string comes before the second.
\<close>

theorem string_cmp_ascii:
  assumes "ascii xs" "ascii ys"
  shows "\<exists>r. hlt_string_cmp (Some (utf8 xs)) (Some (utf8 ys)) = Some (r, None) \<and> (r = 0 \<longleftrightarrow> xs = ys) \<and> (r < 0 \<longleftrightarrow> (xs, ys) \<in> lexord {(x, y). x < y})"
proof -
  have "utf8 xs = [] \<longleftrightarrow> xs = []" "utf8 ys = [] \<longleftrightarrow> ys = []" using utf8_empty ascii_points assms by auto
  with cmp_ascii [of "[]" xs ys] assms show ?thesis by (cases xs; cases ys) (auto simp: hlt_string_cmp_def slen_def)
qed

theorem string_cmp_ascii_witness: "\<exists>r < 0. hlt_string_cmp (Some (utf8 [0x61])) (Some (utf8 [0x61, 0x62])) = Some (r, None)"
  using string_cmp_ascii [of "[0x61]" "[0x61, 0x62]"] by auto

text \<open>
  Beyond that range, the comparison takes strings for equal whose code points differ by a multiple of 256, and comparing a string with a code point of several bytes with
  itself reads behind its end. The null pointer and an object without bytes are both the empty string, but not equal.
\<close>

lemma string_cmp_defects:
  "hlt_string_cmp (Some (utf8 [0x161])) (Some (utf8 [0x61])) = Some (0, None)"
  "hlt_string_cmp (Some (utf8 [0xE9])) (Some (utf8 [0xE9])) = None"
  "\<not> hlt_string_equal None (Some [])"
  by code_simp+

end
