(* ===== verification/Sink.thy ===== *)
theory Sink
  imports Dll Bytes
begin

text \<open>
  The reassembling sink of Spicy, \<^verbatim>\<open>libspicy/sink.c\<close>, with the filter chain of
  \<^verbatim>\<open>libspicy/filter.c\<close>.

  A sink receives blocks of bytes at sequence numbers, keeps those that cannot be delivered yet in a
  sorted doubly linked list of chunks, and passes data on in order to the parsers connected to it.
  The state \<open>sink_world\<close> holds the sink, the store of chunks, the store of filters, the exception
  reported, and the trace of what the sink has done: data passed to delivery, calls of the parsers'
  functions, and calls of their hooks.

  Bytes objects are values here, a byte list with a frozen flag, and the operations on them are the
  list functions that the theory on bytes shows the code to compute: \<open>hb_sub\<close> for a sub-sequence
  between two clipped positions, \<open>hb_append\<close> for appending, and so on.

  The parse functions are generated code: they are the argument \<open>pc\<close>. A call has one of four
  outcomes and may disconnect parsers from the sink. The filters' decoders are the argument \<open>dec\<close>;
  a decoder keeps state between calls, so its result may depend on everything that was delivered.
  Code run in a hook or by a parser is taken not to call back into the same sink otherwise.
\<close>

section \<open>State\<close>

record hbytes =
  hb_data :: "byte list"
  hb_frozen :: bool

record chunk =
  c_rseq :: nat
  c_rupper :: nat
  c_data :: "hbytes option"

record spicy_parser =
  p_hook_gap :: bool
  p_hook_skip :: bool
  p_hook_overlap :: bool
  p_hook_undelivered :: bool

record parser_state =
  ps_parser :: spicy_parser
  ps_pobj :: nat
  ps_data :: "hbytes option"
  ps_resume :: "nat option"
  ps_disconnected :: bool

record spicy_filter =
  f_kind :: nat
  f_next :: ptr

record spicy_sink =
  sk_states :: "(addr \<times> parser_state) list"
  sk_filter :: ptr
  sk_size :: nat
  sk_policy :: nat
  sk_auto_trim :: bool
  sk_initial_seq :: nat
  sk_cur_rseq :: nat
  sk_last_reassem_rseq :: nat
  sk_trim_rseq :: nat
  sk_first_chunk :: ptr
  sk_last_chunk :: ptr

datatype sink_event =
    Delivering nat hbytes
  | ParseCall nat hbytes
  | ResumeCall nat hbytes
  | HookGap nat nat nat
  | HookSkip nat nat
  | HookOverlap nat nat hbytes hbytes
  | HookUndelivered nat nat hbytes

record sink_world =
  sw_sink :: spicy_sink
  sw_chunks :: "chunk dheap"
  sw_filters :: "addr \<rightharpoonup> spicy_filter"
  sw_next :: addr
  sw_events :: "sink_event list"
  sw_excpt :: "exn option"

datatype parse_outcome = POk | PYield nat | PDisabled | PError exn

record parser_code =
  pc_parse :: "nat \<Rightarrow> hbytes \<Rightarrow> parse_outcome \<times> nat list"
  pc_resume :: "nat \<Rightarrow> hbytes \<Rightarrow> parse_outcome \<times> nat list"

type_synonym decoder = "nat \<Rightarrow> sink_event list \<Rightarrow> hbytes \<Rightarrow> exn + hbytes"

abbreviation upd_sink :: "(spicy_sink \<Rightarrow> spicy_sink) \<Rightarrow> sink_world \<Rightarrow> sink_world" where
  "upd_sink g w \<equiv> w\<lparr>sw_sink := g (sw_sink w)\<rparr>"

definition log_event :: "sink_event \<Rightarrow> sink_world \<Rightarrow> sink_world" where
  "log_event e w = w\<lparr>sw_events := sw_events w @ [e]\<rparr>"

definition sink_error :: "exn \<Rightarrow> sink_world \<Rightarrow> sink_world" where
  "sink_error e w = w\<lparr>sw_excpt := Some e\<rparr>"

section \<open>Bytes values\<close>

definition hb_new :: "byte list \<Rightarrow> hbytes" where
  "hb_new d = \<lparr>hb_data = d, hb_frozen = False\<rparr>"

definition hb_len :: "hbytes \<Rightarrow> nat" where
  "hb_len b = length (hb_data b)"

text \<open>
  Moving an iterator at offset \<open>i\<close> on by \<open>n\<close> stops at the end; \<open>n\<close> is an \<open>int64_t\<close>, and a negative
  one moves before the data.
\<close>

definition hb_incr_by :: "hbytes \<Rightarrow> nat \<Rightarrow> int \<Rightarrow> nat option" where
  "hb_incr_by b i n = (if hb_len b \<le> i then Some i
     else if int i + n < 0 then None else Some (min (nat (int i + n)) (hb_len b)))"

definition hb_sub :: "hbytes \<Rightarrow> nat \<Rightarrow> nat \<Rightarrow> hbytes" where
  "hb_sub b i j = hb_new (take (j - i) (drop i (hb_data b)))"

definition hb_copy :: "hbytes \<Rightarrow> hbytes" where
  "hb_copy b = hb_new (hb_data b)"

definition hb_freeze :: "hbytes \<Rightarrow> hbytes" where
  "hb_freeze b = b\<lparr>hb_frozen := True\<rparr>"

text \<open>Appending to a frozen object changes nothing and raises an exception.\<close>

definition hb_append :: "hbytes \<Rightarrow> hbytes \<Rightarrow> exn option \<times> hbytes" where
  "hb_append b d = (if hb_frozen b then (Some ValueError, b) else (None, b\<lparr>hb_data := hb_data b @ hb_data d\<rparr>))"

text \<open>The conversion of a \<open>uint64_t\<close> to \<open>int64_t\<close>.\<close>

definition s64 :: "nat \<Rightarrow> int" where
  "s64 v = (if v < 9223372036854775808 then int v else int v - 18446744073709551616)"

definition unavailable :: hbytes where
  "unavailable = hb_new (map (word_of_int \<circ> of_char) ''<unavailable>'' @ [0])"

section \<open>Parser states and hooks\<close>

definition unlink_state :: "addr \<Rightarrow> sink_world \<Rightarrow> sink_world option" where
  "unlink_state s w =
     (if s \<in> fst ` set (sk_states (sw_sink w))
      then Some (upd_sink (\<lambda>k. k\<lparr>sk_states := filter (\<lambda>x. fst x \<noteq> s) (sk_states k)\<rparr>) w)
      else None)"

definition get_state :: "addr \<Rightarrow> sink_world \<Rightarrow> parser_state option" where
  "get_state s w = map_of (sk_states (sw_sink w)) s"

definition set_state :: "addr \<Rightarrow> (parser_state \<Rightarrow> parser_state) \<Rightarrow> sink_world \<Rightarrow> sink_world" where
  "set_state s g w =
     upd_sink (\<lambda>k. k\<lparr>sk_states := map (\<lambda>(a, p). (a, if a = s then g p else p)) (sk_states k)\<rparr>) w"

text \<open>\<^verbatim>\<open>spicyhilti_sink_disconnect\<close>: the first parser of that object is only marked.\<close>

definition spicyhilti_sink_disconnect :: "nat \<Rightarrow> sink_world \<Rightarrow> sink_world" where
  "spicyhilti_sink_disconnect pobj w =
     (case List.find (\<lambda>x. ps_pobj (snd x) = pobj) (sk_states (sw_sink w)) of
        None \<Rightarrow> w
      | Some (s, _) \<Rightarrow> set_state s (\<lambda>p. p\<lparr>ps_disconnected := True\<rparr>) w)"

definition call_hooks ::
  "(spicy_parser \<Rightarrow> bool) \<Rightarrow> (nat \<Rightarrow> sink_event) \<Rightarrow> sink_world \<Rightarrow> sink_world" where
  "call_hooks has ev w =
     w\<lparr>sw_events := sw_events w @
         map (\<lambda>x. ev (ps_pobj (snd x))) (filter (\<lambda>x. has (ps_parser (snd x))) (sk_states (sw_sink w)))\<rparr>"

definition report_gap :: "nat \<Rightarrow> nat \<Rightarrow> sink_world \<Rightarrow> sink_world" where
  "report_gap rseq len w =
     call_hooks p_hook_gap (\<lambda>o'. HookGap o' (add64 rseq (sk_initial_seq (sw_sink w))) len) w"

definition report_skip :: "nat \<Rightarrow> sink_world \<Rightarrow> sink_world" where
  "report_skip rseq w =
     call_hooks p_hook_skip (\<lambda>o'. HookSkip o' (add64 rseq (sk_initial_seq (sw_sink w)))) w"

definition report_overlap :: "hbytes option \<Rightarrow> hbytes option \<Rightarrow> nat \<Rightarrow> sink_world \<Rightarrow> sink_world" where
  "report_overlap old_data new_data rseq w =
     (let od = (case old_data of None \<Rightarrow> unavailable | Some d \<Rightarrow> d);
          nd = (case new_data of None \<Rightarrow> unavailable | Some d \<Rightarrow> d)
      in call_hooks p_hook_overlap (\<lambda>o'. HookOverlap o' (add64 rseq (sk_initial_seq (sw_sink w))) od nd) w)"

definition report_undelivered :: "nat \<Rightarrow> hbytes \<Rightarrow> sink_world \<Rightarrow> sink_world" where
  "report_undelivered rseq b w =
     call_hooks p_hook_undelivered (\<lambda>o'. HookUndelivered o' (add64 rseq (sk_initial_seq (sw_sink w))) b) w"

partial_function (option) report_undelivered_loop :: "ptr \<Rightarrow> nat \<Rightarrow> sink_world \<Rightarrow> sink_world option" where
  "report_undelivered_loop p rupper w = (case p of
      None \<Rightarrow> Some w
    | Some a \<Rightarrow> do {
        n \<leftarrow> sw_chunks w a;
        let c = dn_val n;
        (if c_rseq c < rupper then
           (case c_data c of
              None \<Rightarrow> report_undelivered_loop (dn_next n) rupper w
            | Some d \<Rightarrow> do {
                b \<leftarrow> (if c_rupper c \<le> rupper then Some d
                      else do { j \<leftarrow> hb_incr_by d 0 (s64 (sub64 (c_rupper c) rupper)); Some (hb_sub d 0 j) });
                report_undelivered_loop (dn_next n) rupper (report_undelivered (c_rseq c) b w)
              })
         else Some w)
      })"

declare report_undelivered_loop.simps [code]

definition report_undelivered_up_to :: "nat \<Rightarrow> sink_world \<Rightarrow> sink_world option" where
  "report_undelivered_up_to rupper w = report_undelivered_loop (sk_first_chunk (sw_sink w)) rupper w"

text \<open>
  \<^verbatim>\<open>__finish_parser\<close>; \<open>ex\<close> is the caller's exception variable. Unless the parser is disabled it is
  overwritten, also when parsing ended well; a parser that yields again fails an assertion.
\<close>

definition finish_parser ::
  "parser_code \<Rightarrow> addr \<Rightarrow> exn option \<Rightarrow> sink_world \<Rightarrow> (exn option \<times> sink_world) option" where
  "finish_parser pc s ex w = do {
     p \<leftarrow> get_state s w;
     (ex1, w1) \<leftarrow> (case (ps_data p, ps_resume p) of
          (Some d, Some r) \<Rightarrow>
            let d1 = hb_freeze d;
                (oc, disc) = pc_resume pc r d1;
                w1 = fold spicyhilti_sink_disconnect disc
                       (log_event (ResumeCall (ps_pobj p) d1) (set_state s (\<lambda>p. p\<lparr>ps_data := Some d1\<rparr>) w));
                w2 = set_state s (\<lambda>p. p\<lparr>ps_resume := None\<rparr>) w1
            in (case oc of
                  PYield _ \<Rightarrow> None
                | PDisabled \<Rightarrow> Some (ex, w2)
                | PError e \<Rightarrow> Some (Some e, w2)
                | POk \<Rightarrow> Some (None, w2))
        | _ \<Rightarrow> Some (ex, w));
     w2 \<leftarrow> unlink_state s w1;
     Some (ex1, w2)
   }"

section \<open>Filters\<close>

text \<open>
  The filter types that are known are those of the table in \<^verbatim>\<open>filter.c\<close>. Adding a filter to
  a chain walks to its last member and returns that member.
\<close>

definition known_filters :: "nat list" where
  "known_filters = [1, 2, 3]"

partial_function (option) last_filter :: "(addr \<rightharpoonup> spicy_filter) \<Rightarrow> addr \<Rightarrow> addr option" where
  "last_filter h a = do {
     f \<leftarrow> h a;
     (case f_next f of None \<Rightarrow> Some a | Some n \<Rightarrow> last_filter h n)
   }"

declare last_filter.simps [code]

definition filter_append :: "ptr \<Rightarrow> addr \<Rightarrow> (addr \<rightharpoonup> spicy_filter) \<Rightarrow> (addr \<times> (addr \<rightharpoonup> spicy_filter)) option" where
  "filter_append hd0 f h = (case hd0 of
      None \<Rightarrow> Some (f, h)
    | Some a \<Rightarrow> do {
        t \<leftarrow> last_filter h a;
        h1 \<leftarrow> upd h t (\<lambda>x. x\<lparr>f_next := Some f\<rparr>);
        Some (t, h1)
      })"

definition spicyhilti_filter_add :: "ptr \<Rightarrow> nat \<Rightarrow> sink_world \<Rightarrow> (ptr \<times> sink_world) option" where
  "spicyhilti_filter_add hd0 ftype w =
     (if ftype \<notin> set known_filters then Some (None, sink_error FilterUnsupported w)
      else do {
        let f = sw_next w;
        (a, h) \<leftarrow> filter_append hd0 f ((sw_filters w)(f \<mapsto> \<lparr>f_kind = ftype, f_next = None\<rparr>));
        Some (Some a, w\<lparr>sw_filters := h, sw_next := f + 1\<rparr>)
      })"

text \<open>Decoding with each filter of the chain; the frozen flag is passed on.\<close>

partial_function (option) filter_decode ::
  "decoder \<Rightarrow> ptr \<Rightarrow> hbytes \<Rightarrow> sink_world \<Rightarrow> (hbytes option \<times> sink_world) option" where
  "filter_decode dec p data w = (case p of
      None \<Rightarrow> Some (Some data, w)
    | Some a \<Rightarrow> do {
        f \<leftarrow> sw_filters w a;
        (case dec (f_kind f) (sw_events w) data of
           Inl e \<Rightarrow> Some (None, sink_error e w)
         | Inr d \<Rightarrow>
             (if sw_excpt w \<noteq> None then Some (None, w)
              else filter_decode dec (f_next f) (if hb_frozen data then hb_freeze d else d) w))
      })"

declare filter_decode.simps [code]

section \<open>Chunks\<close>

definition sink_new_chunk :: "hbytes option \<Rightarrow> nat \<Rightarrow> nat \<Rightarrow> sink_world \<Rightarrow> addr \<times> sink_world" where
  "sink_new_chunk data rseq len w =
     (sw_next w,
      w\<lparr>sw_chunks := (sw_chunks w)(sw_next w \<mapsto> \<lparr>dn_next = None, dn_prev = None,
           dn_val = \<lparr>c_rseq = rseq, c_rupper = add64 rseq len, c_data = data\<rparr>\<rparr>),
        sw_next := sw_next w + 1\<rparr>)"

abbreviation chunk_hdr :: "sink_world \<Rightarrow> dhead" where
  "chunk_hdr w \<equiv> (sk_first_chunk (sw_sink w), sk_last_chunk (sw_sink w))"

definition set_chunks :: "chunk dheap \<Rightarrow> dhead \<Rightarrow> sink_world \<Rightarrow> sink_world" where
  "set_chunks h hdr w =
     w\<lparr>sw_chunks := h, sw_sink := (sw_sink w)\<lparr>sk_first_chunk := fst hdr, sk_last_chunk := snd hdr\<rparr>\<rparr>"

definition sink_link_chunk :: "ptr \<Rightarrow> addr \<Rightarrow> sink_world \<Rightarrow> sink_world option" where
  "sink_link_chunk prev c w = do {
     (h, hdr) \<leftarrow> dll_link (sw_chunks w) (chunk_hdr w) c prev;
     Some (set_chunks h hdr w)
   }"

definition sink_unlink_chunk :: "addr \<Rightarrow> sink_world \<Rightarrow> sink_world option" where
  "sink_unlink_chunk c w = do {
     (h, hdr) \<leftarrow> dll_unlink (sw_chunks w) (chunk_hdr w) c;
     Some (set_chunks h hdr w)
   }"

definition sink_delete_chunk :: "addr \<Rightarrow> sink_world \<Rightarrow> sink_world option" where
  "sink_delete_chunk c w = (case sw_chunks w c of
      None \<Rightarrow> None
    | Some _ \<Rightarrow> Some (w\<lparr>sw_chunks := (sw_chunks w)(c := None)\<rparr>))"

partial_function (option) trim_loop :: "ptr \<Rightarrow> nat \<Rightarrow> sink_world \<Rightarrow> sink_world option" where
  "trim_loop p rseq w = (case p of
      None \<Rightarrow> Some w
    | Some a \<Rightarrow> do {
        n \<leftarrow> sw_chunks w a;
        let c = dn_val n;
        (if c_rupper c > rseq then Some w
         else do {
           let w1 = (case c_data c of
                Some d \<Rightarrow> if c_rupper c < sk_cur_rseq (sw_sink w) then report_undelivered (c_rseq c) d w else w
              | None \<Rightarrow> w);
           w2 \<leftarrow> sink_unlink_chunk a w1;
           w3 \<leftarrow> sink_delete_chunk a w2;
           trim_loop (dn_next n) rseq w3
         })
      })"

declare trim_loop.simps [code]

definition trim :: "nat \<Rightarrow> sink_world \<Rightarrow> sink_world option" where
  "trim rseq w = do {
     w1 \<leftarrow> trim_loop (sk_first_chunk (sw_sink w)) rseq w;
     Some (upd_sink (\<lambda>k. k\<lparr>sk_trim_rseq := rseq\<rparr>) w1)
   }"

section \<open>Delivery\<close>

text \<open>
  What follows a call of a parser's function: the disconnects it made, then the dispatch on its
  outcome. The result is the exception with which delivery is aborted, if any.
\<close>

definition after_parse :: "addr \<Rightarrow> parse_outcome \<times> nat list \<Rightarrow> sink_world \<Rightarrow> (exn option \<times> sink_world) option" where
  "after_parse s r w = (let w1 = fold spicyhilti_sink_disconnect (snd r) w in
     case fst r of
       PYield t \<Rightarrow> Some (None, set_state s (\<lambda>p. p\<lparr>ps_resume := Some t\<rparr>) w1)
     | PDisabled \<Rightarrow> map_option (Pair None) (unlink_state s w1)
     | POk \<Rightarrow> map_option (Pair None) (unlink_state s w1)
     | PError e \<Rightarrow> map_option (Pair (Some e)) (unlink_state s w1))"

text \<open>
  The loop over the parsers, by the addresses of their states. For a parser marked as disconnected
  the code continues the loop without moving on to the next parser: it tries the same one again. The
  result says whether delivery was aborted.
\<close>

partial_function (option) deliver_loop ::
  "parser_code \<Rightarrow> addr list \<Rightarrow> hbytes \<Rightarrow> sink_world \<Rightarrow> (bool \<times> sink_world) option" where
  "deliver_loop pc todo data w = (case todo of
      [] \<Rightarrow> Some (False, w)
    | s # ss \<Rightarrow> do {
        p \<leftarrow> get_state s w;
        (if ps_disconnected p then deliver_loop pc (s # ss) data w
         else (case ps_data p of
             None \<Rightarrow> do {
               let d = (if hb_frozen data then hb_freeze (hb_copy data) else hb_copy data);
               let w1 = log_event (ParseCall (ps_pobj p) d) (set_state s (\<lambda>p. p\<lparr>ps_data := Some d\<rparr>) w);
               (ex, w2) \<leftarrow> after_parse s (pc_parse pc (ps_pobj p) d) w1;
               (case ex of None \<Rightarrow> deliver_loop pc ss data w2 | Some e \<Rightarrow> Some (True, sink_error e w2))
             }
           | Some d0 \<Rightarrow>
               (case ps_resume p of
                  None \<Rightarrow> deliver_loop pc ss data w
                | Some r \<Rightarrow> do {
                    let (e0, d1) = hb_append d0 data;
                    let d = (if hb_frozen data then hb_freeze d1 else d1);
                    let w1 = (case e0 of None \<Rightarrow> w | Some e \<Rightarrow> sink_error e w);
                    let w2 = log_event (ResumeCall (ps_pobj p) d)
                               (set_state s (\<lambda>p. p\<lparr>ps_data := Some d, ps_resume := None\<rparr>) w1);
                    (ex, w3) \<leftarrow> after_parse s (pc_resume pc r d) w2;
                    (case ex of None \<Rightarrow> deliver_loop pc ss data w3 | Some e \<Rightarrow> Some (True, sink_error e w3))
                  })))
      })"

declare deliver_loop.simps [code]

text \<open>The parsers disconnected meanwhile are finished one by one, their errors ignored.\<close>

partial_function (option) finish_disconnected :: "parser_code \<Rightarrow> sink_world \<Rightarrow> sink_world option" where
  "finish_disconnected pc w =
     (case List.find (\<lambda>x. ps_disconnected (snd x)) (sk_states (sw_sink w)) of
        None \<Rightarrow> Some w
      | Some (s, _) \<Rightarrow> do { (_, w1) \<leftarrow> finish_parser pc s None w; finish_disconnected pc w1 })"

declare finish_disconnected.simps [code]

definition deliver_parsers :: "parser_code \<Rightarrow> hbytes \<Rightarrow> sink_world \<Rightarrow> sink_world option" where
  "deliver_parsers pc data w = do {
     (aborted, w1) \<leftarrow> deliver_loop pc (map fst (sk_states (sw_sink w))) data w;
     (if aborted then Some w1 else finish_disconnected pc w1)
   }"

definition deliver_data :: "parser_code \<Rightarrow> decoder \<Rightarrow> hbytes \<Rightarrow> sink_world \<Rightarrow> sink_world option" where
  "deliver_data pc dec data0 w = do {
     (decoded, w1) \<leftarrow> filter_decode dec (sk_filter (sw_sink w)) data0 w;
     (case decoded of
        None \<Rightarrow> Some w1
      | Some data \<Rightarrow> do {
          let w2 = upd_sink (\<lambda>k. k\<lparr>sk_size := add64 (sk_size k) (hb_len data)\<rparr>) w1;
          (if sw_excpt w2 \<noteq> None \<or> sk_states (sw_sink w2) = [] then Some w2
           else deliver_parsers pc data w2)
        })
   }"

text \<open>
  The event \<open>Delivering\<close> marks the call of \<^verbatim>\<open>spicy_dbg_deliver\<close>, before the filters and the parsers;
  what the parsers see is recorded by the events \<open>ParseCall\<close> and \<open>ResumeCall\<close>.
\<close>

definition deliver_chunk ::
  "parser_code \<Rightarrow> decoder \<Rightarrow> hbytes option \<Rightarrow> nat \<Rightarrow> nat \<Rightarrow> sink_world \<Rightarrow> (bool \<times> sink_world) option" where
  "deliver_chunk pc dec data rseq rupper w = (case data of
      None \<Rightarrow>
        (if sk_cur_rseq (sw_sink w) \<noteq> rupper then do {
           let w1 = upd_sink (\<lambda>k. k\<lparr>sk_cur_rseq := rupper\<rparr>) (report_gap rseq (sub64 rupper rseq) w);
           w2 \<leftarrow> (if sk_auto_trim (sw_sink w1) then trim rseq w1 else Some w1);
           Some (False, w2)
         } else Some (False, w))
    | Some d \<Rightarrow> do {
        w1 \<leftarrow> deliver_data pc dec d (log_event (Delivering rseq d) w);
        let w2 = upd_sink (\<lambda>k. k\<lparr>sk_cur_rseq := rupper, sk_last_reassem_rseq := rupper\<rparr>) w1;
        w3 \<leftarrow> (if sk_auto_trim (sw_sink w2) then trim rupper w2 else Some w2);
        Some (True, w3)
      })"

partial_function (option) try_deliver :: "parser_code \<Rightarrow> decoder \<Rightarrow> ptr \<Rightarrow> sink_world \<Rightarrow> sink_world option" where
  "try_deliver pc dec p w = (case p of
      None \<Rightarrow> Some w
    | Some a \<Rightarrow> do {
        n \<leftarrow> sw_chunks w a;
        let c = dn_val n;
        (if c_rseq c > sk_last_reassem_rseq (sw_sink w) then Some w
         else if c_rseq c = sk_last_reassem_rseq (sw_sink w) then do {
           let w1 = upd_sink (\<lambda>k. k\<lparr>sk_last_reassem_rseq :=
                       add64 (sk_last_reassem_rseq k) (sub64 (c_rupper c) (c_rseq c))\<rparr>) w;
           (more, w2) \<leftarrow> deliver_chunk pc dec (c_data c) (c_rseq c) (c_rupper c) w1;
           (if more then try_deliver pc dec (dn_next n) w2 else Some w2)
         } else try_deliver pc dec (dn_next n) w)
      })"

declare try_deliver.simps [code]

definition skip :: "parser_code \<Rightarrow> decoder \<Rightarrow> nat \<Rightarrow> sink_world \<Rightarrow> sink_world option" where
  "skip pc dec rseq w = do {
     w1 \<leftarrow> report_undelivered_up_to rseq w;
     w2 \<leftarrow> (if sk_auto_trim (sw_sink w1) then trim rseq w1 else Some w1);
     let w3 = report_skip rseq
                (upd_sink (\<lambda>k. k\<lparr>sk_cur_rseq := rseq, sk_last_reassem_rseq := rseq\<rparr>) w2);
     try_deliver pc dec (sk_first_chunk (sw_sink w3)) w3
   }"

section \<open>Adding blocks\<close>

text \<open>The loop that finds the first chunk that is not completely before \<open>rseq\<close>, or the last one.\<close>

partial_function (option) find_chunk :: "chunk dheap \<Rightarrow> addr \<Rightarrow> nat \<Rightarrow> addr option" where
  "find_chunk h b rseq = do {
     n \<leftarrow> h b;
     (case dn_next n of
        Some x \<Rightarrow> if c_rupper (dn_val n) \<le> rseq then find_chunk h x rseq else Some b
      | None \<Rightarrow> Some b)
   }"

declare find_chunk.simps [code]

definition insert_chunk :: "ptr \<Rightarrow> hbytes option \<Rightarrow> nat \<Rightarrow> nat \<Rightarrow> sink_world \<Rightarrow> (addr \<times> sink_world) option" where
  "insert_chunk prev data rseq len w =
     (let (c, w1) = sink_new_chunk data rseq len w in map_option (Pair c) (sink_link_chunk prev c w1))"

text \<open>
  The part of the new block before chunk \<open>b\<close>. Without data (a gap) nothing is inserted for it, and
  the result of \<^verbatim>\<open>__add_and_check\<close> stays a null pointer.
\<close>

definition add_prefix ::
  "addr \<Rightarrow> chunk dnode \<Rightarrow> nat \<Rightarrow> hbytes option \<Rightarrow> sink_world \<Rightarrow> (ptr \<times> nat \<times> hbytes option \<times> sink_world) option" where
  "add_prefix b bn rseq data w =
     (if rseq < c_rseq (dn_val bn) then do {
        let prefix_len = sub64 (c_rseq (dn_val bn)) rseq;
        (case data of
           Some d \<Rightarrow> do {
             i \<leftarrow> hb_incr_by d 0 (s64 prefix_len);
             (c, w1) \<leftarrow> insert_chunk (dn_prev bn) (Some (hb_sub d 0 i)) rseq prefix_len w;
             Some (Some c, add64 rseq prefix_len, Some (hb_sub d i (hb_len d)), w1)
           }
         | None \<Rightarrow> Some (None, add64 rseq prefix_len, None, w))
      } else Some (Some b, rseq, data, w))"

definition overlap_part :: "hbytes option \<Rightarrow> nat \<Rightarrow> int \<Rightarrow> hbytes option option" where
  "overlap_part data start len = (case data of
      None \<Rightarrow> Some None
    | Some d \<Rightarrow> do {
        i \<leftarrow> hb_incr_by d 0 (s64 start);
        j \<leftarrow> hb_incr_by d i len;
        Some (Some (hb_sub d i j))
      })"

partial_function (option) add_and_check ::
  "addr \<Rightarrow> nat \<Rightarrow> nat \<Rightarrow> hbytes option \<Rightarrow> sink_world \<Rightarrow> (ptr \<times> sink_world) option" where
  "add_and_check b0 rseq0 rupper data0 w = do {
     _ \<leftarrow> sk_first_chunk (sw_sink w);
     l \<leftarrow> sk_last_chunk (sw_sink w);
     ln \<leftarrow> sw_chunks w l;
     (if rseq0 = c_rupper (dn_val ln) then do {
        (c, w1) \<leftarrow> insert_chunk (Some l) data0 rseq0 (sub64 rupper rseq0) w;
        Some (Some c, w1)
      } else do {
        b \<leftarrow> find_chunk (sw_chunks w) b0 rseq0;
        bn \<leftarrow> sw_chunks w b;
        (if c_rupper (dn_val bn) \<le> rseq0 then do {
           (c, w1) \<leftarrow> insert_chunk (Some b) data0 rseq0 (sub64 rupper rseq0) w;
           Some (Some c, w1)
         } else if rupper \<le> c_rseq (dn_val bn) then do {
           (c, w1) \<leftarrow> insert_chunk (dn_prev bn) data0 rseq0 (sub64 rupper rseq0) w;
           Some (Some c, w1)
         } else do {
           (new_b, rseq, data, w1) \<leftarrow> add_prefix b bn rseq0 data0 w;
           let new_b_len = s64 (sub64 rupper rseq);
           let b_len = s64 (sub64 (c_rupper (dn_val bn)) rseq);
           let overlap_len = (if new_b_len < b_len then new_b_len else b_len);
           old_data \<leftarrow> overlap_part (c_data (dn_val bn)) (sub64 rseq (c_rseq (dn_val bn))) overlap_len;
           new_data \<leftarrow> overlap_part data 0 overlap_len;
           let w2 = report_overlap old_data new_data rseq w1;
           (if overlap_len < new_b_len then
              (case data of
                 None \<Rightarrow> None
               | Some d \<Rightarrow> do {
                   i \<leftarrow> hb_incr_by d 0 overlap_len;
                   (r, w3) \<leftarrow> add_and_check b (nat ((int rseq + overlap_len) mod 18446744073709551616)) rupper
                               (Some (hb_sub d i (hb_len d))) w2;
                   Some (if new_b = Some b then r else new_b, w3)
                 })
            else Some (new_b, w2))
         })
      })
   }"

declare add_and_check.simps [code]

definition new_block ::
  "parser_code \<Rightarrow> decoder \<Rightarrow> hbytes option \<Rightarrow> nat \<Rightarrow> nat \<Rightarrow> sink_world \<Rightarrow> sink_world option" where
  "new_block pc dec data0 rseq0 len w =
     (if len = 0 then Some w
      else if rseq0 = sk_cur_rseq (sw_sink w) \<and> sk_first_chunk (sw_sink w) = None
      then map_option snd (deliver_chunk pc dec data0 rseq0 (add64 rseq0 len) w)
      else do {
        let rupper = add64 rseq0 len;
        (if rupper \<le> sk_trim_rseq (sw_sink w) then Some w
         else do {
           (rseq, data) \<leftarrow> (if rseq0 < sk_trim_rseq (sw_sink w) then do {
                let amount_old = s64 (sub64 (sk_trim_rseq (sw_sink w)) rseq0);
                let rseq = nat ((int rseq0 + amount_old) mod 18446744073709551616);
                (case data0 of
                   None \<Rightarrow> Some (rseq, None)
                 | Some d \<Rightarrow> do { i \<leftarrow> hb_incr_by d 0 amount_old; Some (rseq, Some (hb_sub d i (hb_len d))) })
              } else Some (rseq0, data0));
           (cp, w1) \<leftarrow> (case sk_first_chunk (sw_sink w) of
                None \<Rightarrow>
                  (let (c, w1) = sink_new_chunk data rseq len w
                   in Some (Some c, upd_sink (\<lambda>k. k\<lparr>sk_first_chunk := Some c, sk_last_chunk := Some c\<rparr>) w1))
              | Some f \<Rightarrow> add_and_check f rseq rupper data w);
           c \<leftarrow> cp;
           n \<leftarrow> sw_chunks w1 c;
           (if c_rseq (dn_val n) > sk_last_reassem_rseq (sw_sink w1) \<or>
               c_rupper (dn_val n) \<le> sk_last_reassem_rseq (sw_sink w1)
            then Some w1
            else try_deliver pc dec (Some c) w1)
         })
      })"

section \<open>Interface\<close>

definition spicyhilti_sink_new :: spicy_sink where
  "spicyhilti_sink_new =
     \<lparr>sk_states = [], sk_filter = None, sk_size = 0, sk_policy = 0, sk_auto_trim = True, sk_initial_seq = 0,
      sk_cur_rseq = 0, sk_last_reassem_rseq = 0, sk_trim_rseq = 0, sk_first_chunk = None, sk_last_chunk = None\<rparr>"

definition reassembly_policy_first :: nat where
  "reassembly_policy_first = 0"

text \<open>\<open>while ( sink->head ) __finish_parser(sink, sink->head, excpt, ctx)\<close>.\<close>

partial_function (option) finish_all :: "parser_code \<Rightarrow> sink_world \<Rightarrow> sink_world option" where
  "finish_all pc w = (case sk_states (sw_sink w) of
      [] \<Rightarrow> Some w
    | (s, _) # _ \<Rightarrow> do {
        (ex, w1) \<leftarrow> finish_parser pc s (sw_excpt w) w;
        finish_all pc (w1\<lparr>sw_excpt := ex\<rparr>)
      })"

declare finish_all.simps [code]

definition spicyhilti_sink_close :: "parser_code \<Rightarrow> sink_world \<Rightarrow> sink_world option" where
  "spicyhilti_sink_close pc w = do {
     w1 \<leftarrow> finish_all pc (upd_sink (\<lambda>k. k\<lparr>sk_filter := None\<rparr>) w);
     w2 \<leftarrow> trim max64 w1;
     (if sk_first_chunk (sw_sink w2) \<noteq> None \<or> sk_last_chunk (sw_sink w2) \<noteq> None then None
      else Some (upd_sink (\<lambda>k. k\<lparr>sk_cur_rseq := 0, sk_last_reassem_rseq := 0, sk_trim_rseq := 0\<rparr>) w2))
   }"

definition check_seq :: "parser_code \<Rightarrow> nat \<Rightarrow> sink_world \<Rightarrow> (bool \<times> sink_world) option" where
  "check_seq pc seq w =
     (if seq \<ge> sk_initial_seq (sw_sink w) then Some (True, w)
      else map_option (\<lambda>w1. (False, sink_error ValueError w1)) (spicyhilti_sink_close pc w))"

definition spicyhilti_sink_set_initial_sequence_number :: "parser_code \<Rightarrow> nat \<Rightarrow> sink_world \<Rightarrow> sink_world option" where
  "spicyhilti_sink_set_initial_sequence_number pc seq w = do {
     w1 \<leftarrow> (if sk_cur_rseq (sw_sink w) \<noteq> 0 \<or> sk_first_chunk (sw_sink w) \<noteq> None
            then map_option (sink_error ValueError) (spicyhilti_sink_close pc w) else Some w);
     Some (upd_sink (\<lambda>k. k\<lparr>sk_initial_seq := seq\<rparr>) w1)
   }"

definition spicyhilti_sink_set_policy :: "parser_code \<Rightarrow> nat \<Rightarrow> sink_world \<Rightarrow> sink_world option" where
  "spicyhilti_sink_set_policy pc policy w =
     (if policy = reassembly_policy_first then Some w
      else map_option (sink_error NotImplemented) (spicyhilti_sink_close pc w))"

definition spicyhilti_sink_set_auto_trim :: "parser_code \<Rightarrow> bool \<Rightarrow> sink_world \<Rightarrow> sink_world option" where
  "spicyhilti_sink_set_auto_trim pc enable w =
     (if enable then Some w else map_option (sink_error NotImplemented) (spicyhilti_sink_close pc w))"

definition spicyhilti_sink_connect :: "nat \<Rightarrow> spicy_parser \<Rightarrow> sink_world \<Rightarrow> sink_world" where
  "spicyhilti_sink_connect pobj parser w =
     upd_sink (\<lambda>k. k\<lparr>sk_states := (sw_next w, \<lparr>ps_parser = parser, ps_pobj = pobj, ps_data = None,
        ps_resume = None, ps_disconnected = False\<rparr>) # sk_states k\<rparr>) (w\<lparr>sw_next := sw_next w + 1\<rparr>)"

definition spicyhilti_sink_append :: "parser_code \<Rightarrow> decoder \<Rightarrow> hbytes \<Rightarrow> sink_world \<Rightarrow> sink_world option" where
  "spicyhilti_sink_append pc dec data w =
     new_block pc dec (Some data) (sk_cur_rseq (sw_sink w)) (hb_len data) w"

definition with_seq ::
  "parser_code \<Rightarrow> nat \<Rightarrow> (nat \<Rightarrow> sink_world \<Rightarrow> sink_world option) \<Rightarrow> sink_world \<Rightarrow> sink_world option" where
  "with_seq pc seq act w = do {
     (ok, w1) \<leftarrow> check_seq pc seq w;
     (if ok then act (sub64 seq (sk_initial_seq (sw_sink w1))) w1 else Some w1)
   }"

definition spicyhilti_sink_write :: "parser_code \<Rightarrow> decoder \<Rightarrow> hbytes \<Rightarrow> nat \<Rightarrow> sink_world \<Rightarrow> sink_world option" where
  "spicyhilti_sink_write pc dec data seq w =
     with_seq pc seq (\<lambda>rseq. new_block pc dec (Some data) rseq (hb_len data)) w"

definition spicyhilti_sink_write_custom_length ::
  "parser_code \<Rightarrow> decoder \<Rightarrow> hbytes \<Rightarrow> nat \<Rightarrow> nat \<Rightarrow> sink_world \<Rightarrow> sink_world option" where
  "spicyhilti_sink_write_custom_length pc dec data seq len w =
     with_seq pc seq (\<lambda>rseq. new_block pc dec (Some data) rseq len) w"

definition spicyhilti_sink_gap :: "parser_code \<Rightarrow> decoder \<Rightarrow> nat \<Rightarrow> nat \<Rightarrow> sink_world \<Rightarrow> sink_world option" where
  "spicyhilti_sink_gap pc dec seq len w = with_seq pc seq (\<lambda>rseq. new_block pc dec None rseq len) w"

definition spicyhilti_sink_trim :: "parser_code \<Rightarrow> nat \<Rightarrow> sink_world \<Rightarrow> sink_world option" where
  "spicyhilti_sink_trim pc seq w = with_seq pc seq trim w"

definition spicyhilti_sink_skip :: "parser_code \<Rightarrow> decoder \<Rightarrow> nat \<Rightarrow> sink_world \<Rightarrow> sink_world option" where
  "spicyhilti_sink_skip pc dec seq w = with_seq pc seq (skip pc dec) w"

text \<open>The result of \<^verbatim>\<open>spicyhilti_filter_add\<close> replaces the sink's filter, also when it is null.\<close>

definition spicyhilti_sink_add_filter :: "nat \<Rightarrow> sink_world \<Rightarrow> sink_world option" where
  "spicyhilti_sink_add_filter ftype w = do {
     (f, w1) \<leftarrow> spicyhilti_filter_add (sk_filter (sw_sink w)) ftype w;
     Some (upd_sink (\<lambda>k. k\<lparr>sk_filter := f\<rparr>) w1)
   }"

definition spicyhilti_sink_size :: "sink_world \<Rightarrow> nat" where
  "spicyhilti_sink_size w = sk_size (sw_sink w)"

definition spicyhilti_sink_sequence :: "sink_world \<Rightarrow> nat" where
  "spicyhilti_sink_sequence w = add64 (sk_cur_rseq (sw_sink w)) (sk_initial_seq (sw_sink w))"

section \<open>The reassembly buffer\<close>

text \<open>\<open>buf w ps cs\<close>: the buffer's chunks are at the addresses \<open>ps\<close> and have the values \<open>cs\<close>.\<close>

definition vals :: "'p dheap \<Rightarrow> addr list \<Rightarrow> 'p option list" where
  "vals h ps = map (\<lambda>a. map_option dn_val (h a)) ps"

lemma vals_simps [simp]: "vals h [] = []" "vals h (a # ps) = map_option dn_val (h a) # vals h ps"
  "vals h (ps @ qs) = vals h ps @ vals h qs" "length (vals h ps) = length ps"
  by (simp_all add: vals_def)

lemma vals_frame [simp]: "a \<notin> set ps \<Longrightarrow> vals (h(a := v)) ps = vals h ps"
  by (simp add: vals_def)

lemma vals_keeps: "keeps_vals h h' \<Longrightarrow> vals h' ps = vals h ps"
  by (simp add: vals_def keeps_vals_def)

definition buf :: "sink_world \<Rightarrow> addr list \<Rightarrow> chunk list \<Rightarrow> bool" where
  "buf w ps cs \<longleftrightarrow> dll (sw_chunks w) (chunk_hdr w) ps \<and>
     vals (sw_chunks w) ps = map Some cs \<and>
     (\<forall>a. sw_chunks w a \<noteq> None \<longrightarrow> a < sw_next w)"

fun delivered :: "sink_event list \<Rightarrow> (nat \<times> hbytes) list" where
  "delivered [] = []"
| "delivered (Delivering s d # es) = (s, d) # delivered es"
| "delivered (_ # es) = delivered es"

lemma delivered_append [simp]: "delivered (xs @ ys) = delivered xs @ delivered ys"
  by (induction xs rule: delivered.induct) auto

text \<open>
  The calls of the parsers' functions, with the object of the parser and the data it sees, and the data
  that a parser saw in the last call.
\<close>

fun parser_calls :: "sink_event list \<Rightarrow> (nat \<times> hbytes) list" where
  "parser_calls [] = []"
| "parser_calls (ParseCall x d # es) = (x, d) # parser_calls es"
| "parser_calls (ResumeCall x d # es) = (x, d) # parser_calls es"
| "parser_calls (_ # es) = parser_calls es"

definition last_input :: "nat \<Rightarrow> sink_event list \<Rightarrow> byte list option" where
  "last_input x es = (let cs = filter (\<lambda>c. fst c = x) (parser_calls es) in
     if cs = [] then None else Some (hb_data (snd (last cs))))"

lemma parser_calls_append [simp]: "parser_calls (xs @ ys) = parser_calls xs @ parser_calls ys"
  by (induction xs rule: parser_calls.induct) auto

lemma last_input_cong: "parser_calls es' = parser_calls es \<Longrightarrow> last_input x es' = last_input x es"
  by (simp add: last_input_def)

lemma last_input_snoc:
  "parser_calls [e] = [(y, d)] \<Longrightarrow> last_input x (es @ [e]) = (if x = y then Some (hb_data d) else last_input x es)"
  by (simp add: last_input_def Let_def)

text \<open>
  What operations on the buffer leave alone: everything but the buffer and calls of hooks.
\<close>

definition unbuffered :: "spicy_sink \<Rightarrow> spicy_sink" where
  "unbuffered k = k\<lparr>sk_first_chunk := None, sk_last_chunk := None\<rparr>"

definition bframe :: "sink_world \<Rightarrow> sink_world \<Rightarrow> bool" where
  "bframe w w' \<longleftrightarrow> unbuffered (sw_sink w') = unbuffered (sw_sink w) \<and> sw_filters w' = sw_filters w \<and>
     sw_excpt w' = sw_excpt w \<and> delivered (sw_events w') = delivered (sw_events w) \<and>
     parser_calls (sw_events w') = parser_calls (sw_events w)"

lemma bframe_refl [simp]: "bframe w w"
  by (simp add: bframe_def)

lemma bframe_trans: "bframe w w1 \<Longrightarrow> bframe w1 w2 \<Longrightarrow> bframe w w2"
  by (simp add: bframe_def)

lemma unbuffered_eq:
  assumes "unbuffered k' = unbuffered k"
  shows "sk_states k' = sk_states k \<and> sk_filter k' = sk_filter k \<and> sk_size k' = sk_size k \<and>
    sk_auto_trim k' = sk_auto_trim k \<and> sk_initial_seq k' = sk_initial_seq k \<and> sk_cur_rseq k' = sk_cur_rseq k \<and>
    sk_last_reassem_rseq k' = sk_last_reassem_rseq k \<and> sk_trim_rseq k' = sk_trim_rseq k"
  using assms by (cases k; cases k') (simp add: unbuffered_def)

lemma delivered_hooks: "(\<And>x. delivered [ev x] = []) \<Longrightarrow> delivered (map ev xs) = []"
proof (induction xs)
  case (Cons x xs)
  then show ?case using delivered_append [of "[ev x]" "map ev xs"] by simp
qed simp

lemma parser_calls_hooks: "(\<And>x. parser_calls [ev x] = []) \<Longrightarrow> parser_calls (map ev xs) = []"
proof (induction xs)
  case (Cons x xs)
  then show ?case using parser_calls_append [of "[ev x]" "map ev xs"] by simp
qed simp

lemma report_overlap_frame: "report_overlap od nd rseq w = w' \<Longrightarrow> bframe w w' \<and> sw_chunks w' = sw_chunks w \<and>
    sw_sink w' = sw_sink w \<and> sw_next w' = sw_next w"
  by (auto simp: report_overlap_def Let_def call_hooks_def bframe_def intro!: delivered_hooks parser_calls_hooks)

lemma report_undelivered_frame: "report_undelivered rseq b w = w' \<Longrightarrow> bframe w w' \<and> sw_chunks w' = sw_chunks w \<and>
    sw_sink w' = sw_sink w \<and> sw_next w' = sw_next w"
  by (auto simp: report_undelivered_def call_hooks_def bframe_def intro!: delivered_hooks parser_calls_hooks)

lemma buf_cong: "sw_chunks w' = sw_chunks w \<Longrightarrow> chunk_hdr w' = chunk_hdr w \<Longrightarrow> sw_next w' = sw_next w \<Longrightarrow>
    buf w' ps cs = buf w ps cs"
  by (simp add: buf_def)

lemma buf_length: "buf w ps cs \<Longrightarrow> length ps = length cs"
  unfolding buf_def by (metis length_map vals_simps(4))

lemma buf_lookup:
  assumes "buf w (xs @ p # ys) (as @ c # bs)" "length xs = length as"
  shows "\<exists>n. sw_chunks w p = Some n \<and> dn_val n = c \<and> dn_next n = (case ys of [] \<Rightarrow> None | y # _ \<Rightarrow> Some y) \<and>
    dn_prev n = (if xs = [] then None else Some (last xs))"
proof -
  from assms have d: "dll (sw_chunks w) (chunk_hdr w) (xs @ p # ys)"
    and v: "map_option dn_val (sw_chunks w p) = Some c" by (auto simp: buf_def append_eq_append_conv)
  from dll_next [OF d] v show ?thesis by auto
qed

lemma buf_first: "buf w ps cs \<Longrightarrow> sk_first_chunk (sw_sink w) = (case ps of [] \<Rightarrow> None | p # _ \<Rightarrow> Some p)"
  unfolding buf_def using dll_first by fastforce

lemma buf_last: "buf w ps cs \<Longrightarrow> sk_last_chunk (sw_sink w) = (if ps = [] then None else Some (last ps))"
  unfolding buf_def using dll_last by fastforce

lemma insert_chunk_ok:
  assumes b: "buf w (xs @ ys) (as @ bs)" "length xs = length as"
  shows "\<exists>n w'. insert_chunk (if xs = [] then None else Some (last xs)) data rseq len w = Some (n, w') \<and>
    buf w' (xs @ n # ys) (as @ \<lparr>c_rseq = rseq, c_rupper = add64 rseq len, c_data = data\<rparr> # bs) \<and> bframe w w'"
proof -
  let ?c = "\<lparr>c_rseq = rseq, c_rupper = add64 rseq len, c_data = data\<rparr>"
  let ?nn = "\<lparr>dn_next = None, dn_prev = None, dn_val = ?c\<rparr>"
  let ?n = "sw_next w"
  let ?h = "(sw_chunks w)(?n \<mapsto> ?nn)"
  from b have d: "dll (sw_chunks w) (chunk_hdr w) (xs @ ys)"
    and v: "vals (sw_chunks w) (xs @ ys) = map Some (as @ bs)"
    and fr: "\<And>a. sw_chunks w a \<noteq> None \<Longrightarrow> a < ?n" unfolding buf_def by auto
  have nin: "?n \<notin> set (xs @ ys)" using dll_live [OF d] fr by fastforce
  have dh: "dll ?h (chunk_hdr w) (xs @ ys)" by (rule iffD2 [OF dll_frame [OF nin] d])
  obtain h' hdr' where l: "dll_link ?h (chunk_hdr w) ?n (if xs = [] then None else Some (last xs)) = Some (h', hdr')"
      "dll h' hdr' (xs @ ?n # ys)" "keeps_vals ?h h'" "\<forall>a. a \<notin> set (xs @ ?n # ys) \<longrightarrow> h' a = ?h a"
    using dll_link_at [OF dh _ nin, of ?nn] by (metis (no_types, lifting) dnode.select_convs(2) fun_upd_same)
  let ?w' = "set_chunks h' hdr' (w\<lparr>sw_chunks := ?h, sw_next := ?n + 1\<rparr>)"
  have "insert_chunk (if xs = [] then None else Some (last xs)) data rseq len w = Some (?n, ?w')"
    using l(1) by (simp add: insert_chunk_def sink_new_chunk_def sink_link_chunk_def)
  moreover have "vals h' (xs @ ?n # ys) = map Some (as @ ?c # bs)"
    unfolding vals_keeps [OF l(3)] using v nin b(2) by simp
  moreover have "a < ?n + 1" if "h' a \<noteq> None" for a
  proof -
    have "?h a \<noteq> None" using that l(3) unfolding keeps_vals_def by (metis option.map_disc_iff)
    then show ?thesis using fr [of a] by (auto split: if_splits)
  qed
  ultimately show ?thesis
    using l(2) by (intro exI [of _ ?n] exI [of _ ?w']) (auto simp: buf_def set_chunks_def bframe_def unbuffered_def)
qed

section \<open>Adding a block: the first bytes win\<close>

text \<open>
  The buffer invariant: the chunks are in sequence order, disjoint and not empty, and carry as many
  bytes as their range is long. Sequence numbers are taken to stay below $2^{63}$, so that the
  conversions between \<open>uint64_t\<close> and \<open>int64_t\<close> in the code are exact.
\<close>

abbreviation seq_bound :: nat where
  "seq_bound \<equiv> 9223372036854775808"

definition chunk_fine :: "chunk \<Rightarrow> bool" where
  "chunk_fine c \<longleftrightarrow> c_rseq c < c_rupper c \<and> c_rupper c < seq_bound \<and>
     (\<exists>d. c_data c = Some d \<and> hb_len d = c_rupper c - c_rseq c)"

definition chunks_fine :: "chunk list \<Rightarrow> bool" where
  "chunks_fine cs \<longleftrightarrow> sorted_wrt (\<lambda>c c'. c_rupper c \<le> c_rseq c') cs \<and> (\<forall>c \<in> set cs. chunk_fine c)"

definition mk_chunk :: "nat \<Rightarrow> nat \<Rightarrow> hbytes \<Rightarrow> chunk" where
  "mk_chunk rs ru d = \<lparr>c_rseq = rs, c_rupper = ru, c_data = Some d\<rparr>"

text \<open>The specification of adding a block: a recursion over the sorted list.\<close>

fun add_block :: "nat \<Rightarrow> nat \<Rightarrow> hbytes \<Rightarrow> chunk list \<Rightarrow> chunk list" where
  "add_block rs ru d [] = [mk_chunk rs ru d]"
| "add_block rs ru d (c # cs) =
     (if c_rupper c \<le> rs then c # add_block rs ru d cs
      else if ru \<le> c_rseq c then mk_chunk rs ru d # c # cs
      else (let k = c_rseq c - rs;
                d1 = (if rs < c_rseq c then hb_sub d k (hb_len d) else d);
                rs1 = max rs (c_rseq c)
            in (if rs < c_rseq c then [mk_chunk rs (c_rseq c) (hb_sub d 0 k)] else []) @ c #
               (if ru \<le> c_rupper c then cs
                else add_block (c_rupper c) ru (hb_sub d1 (c_rupper c - rs1) (hb_len d1)) cs)))"

lemma add_block_append: "\<forall>c \<in> set xs. c_rupper c \<le> rs \<Longrightarrow> add_block rs ru d (xs @ ys) = xs @ add_block rs ru d ys"
  by (induction xs) auto

lemma chunks_fine_append: "chunks_fine (xs @ ys) \<longleftrightarrow> chunks_fine xs \<and> chunks_fine ys \<and>
    (\<forall>c \<in> set xs. \<forall>c' \<in> set ys. c_rupper c \<le> c_rseq c')"
  by (auto simp: chunks_fine_def sorted_wrt_append)

lemma chunks_fine_Cons: "chunks_fine (c # cs) \<longleftrightarrow> chunk_fine c \<and> chunks_fine cs \<and> (\<forall>c' \<in> set cs. c_rupper c \<le> c_rseq c')"
  by (auto simp: chunks_fine_def)

lemma chunks_fine_Nil [simp]: "chunks_fine []"
  by (simp add: chunks_fine_def)

lemma chunks_fine_mono: "chunks_fine (xs @ c # ys) \<Longrightarrow> c_rupper c \<le> rs \<Longrightarrow> \<forall>x \<in> set xs. c_rupper x \<le> rs"
  by (auto simp: chunks_fine_append chunks_fine_Cons chunk_fine_def dest: order_trans [OF _ less_imp_le])

text \<open>The scan for the chunk to start with.\<close>

lemma find_chunk_ok:
  assumes "buf w (us @ p # vs) (as @ c # bs)" "length us = length as"
  shows "\<exists>ws b zs cs e ds. p # vs = ws @ b # zs \<and> c # bs = cs @ e # ds \<and> length ws = length cs \<and>
    find_chunk (sw_chunks w) p rs = Some b \<and> (\<forall>x \<in> set cs. c_rupper x \<le> rs) \<and> (ds = [] \<or> rs < c_rupper e)"
  using assms
proof (induction vs arbitrary: us p as c bs)
  case Nil
  then have "bs = []" using buf_length by fastforce
  obtain n where "sw_chunks w p = Some n" "dn_next n = None" using buf_lookup [OF Nil.prems] by auto
  then have "find_chunk (sw_chunks w) p rs = Some p" by (subst find_chunk.simps) simp
  then show ?case using \<open>bs = []\<close> by (intro exI [of _ "[]"] exI [of _ p] exI [of _ c]) auto
next
  case (Cons v vs)
  have "length (us @ p # v # vs) = length (as @ c # bs)" using buf_length [OF Cons.prems(1)] .
  then obtain e bs' where bs: "bs = e # bs'" using Cons.prems(2) by (cases bs) auto
  obtain n where n: "sw_chunks w p = Some n" "dn_next n = Some v" "dn_val n = c" using buf_lookup [OF Cons.prems] by auto
  show ?case
  proof (cases "c_rupper c \<le> rs")
    case True
    have "buf w ((us @ [p]) @ v # vs) ((as @ [c]) @ e # bs')" using Cons.prems(1) bs by simp
    from Cons.IH [OF this] obtain ws b zs cs e' ds where ih: "v # vs = ws @ b # zs" "e # bs' = cs @ e' # ds"
      "length ws = length cs" "find_chunk (sw_chunks w) v rs = Some b" "\<forall>x \<in> set cs. c_rupper x \<le> rs" "ds = [] \<or> rs < c_rupper e'"
      using Cons.prems(2) by auto
    have "find_chunk (sw_chunks w) p rs = Some b" using n True ih(4) by (subst find_chunk.simps) simp
    then show ?thesis
      using ih True bs by (intro exI [of _ "p # ws"] exI [of _ b] exI [of _ zs] exI [of _ "c # cs"] exI [of _ e'] exI [of _ ds]) auto
  next
    case False
    then have "find_chunk (sw_chunks w) p rs = Some p" using n by (subst find_chunk.simps) simp
    then show ?thesis using False by (intro exI [of _ "[]"] exI [of _ p] exI [of _ "v # vs"] exI [of _ "[]"] exI [of _ c] exI [of _ bs]) auto
  qed
qed

lemma s64_small: "v < seq_bound \<Longrightarrow> s64 v = int v"
  by (simp add: s64_def)

lemma hb_sub_len: "hb_len (hb_sub d i j) = min (j - i) (hb_len d - i)"
  by (simp add: hb_sub_def hb_len_def hb_new_def min.commute)

definition keeps :: "sink_world \<Rightarrow> addr list \<Rightarrow> sink_world \<Rightarrow> addr list \<Rightarrow> bool" where
  "keeps w ps w' ps' \<longleftrightarrow> (\<forall>a \<in> set ps. a \<in> set ps' \<and>
     map_option dn_val (sw_chunks w' a) = map_option dn_val (sw_chunks w a))"

lemma keeps_trans: "keeps w ps w1 ps1 \<Longrightarrow> keeps w1 ps1 w2 ps2 \<Longrightarrow> keeps w ps w2 ps2"
  by (auto simp: keeps_def)

lemma keeps_insert:
  assumes "buf w (xs @ ys) (as @ bs)" "buf w' (xs @ n # ys) (as @ c # bs)" "length xs = length as"
  shows "keeps w (xs @ ys) w' (xs @ n # ys)"
proof -
  have "vals (sw_chunks w') xs = vals (sw_chunks w) xs" "vals (sw_chunks w') ys = vals (sw_chunks w) ys"
    using assms by (auto simp: buf_def)
  then show ?thesis by (auto simp: keeps_def vals_def)
qed

lemma hb_incr_by_exact: "k < hb_len d \<Longrightarrow> hb_incr_by d 0 (int k) = Some k"
  by (simp add: hb_incr_by_def)

lemma overlap_part_Some: "0 \<le> n \<Longrightarrow> k < seq_bound \<Longrightarrow> \<exists>r. overlap_part data k n = Some r"
  by (auto simp: overlap_part_def hb_incr_by_def s64_small split: option.splits)

lemma add_prefix_ok:
  assumes b: "buf w (xs @ b # ys) (as @ c # bs)" "length xs = length as" "chunk_fine c" "sw_chunks w b = Some bn"
    and r: "rs < c_rupper c" "c_rseq c < ru" "ru < seq_bound" "rs < ru" "hb_len d = ru - rs"
  shows "\<exists>nb w1 xs1 as1 d1. add_prefix b bn rs (Some d) w = Some (Some nb, max rs (c_rseq c), Some d1, w1) \<and>
    buf w1 (xs1 @ b # ys) (as1 @ c # bs) \<and> length xs1 = length as1 \<and> bframe w w1 \<and>
    keeps w (xs @ b # ys) w1 (xs1 @ b # ys) \<and>
    as1 = as @ (if rs < c_rseq c then [mk_chunk rs (c_rseq c) (hb_sub d 0 (c_rseq c - rs))] else []) \<and>
    d1 = (if rs < c_rseq c then hb_sub d (c_rseq c - rs) (hb_len d) else d) \<and>
    nb \<in> set (xs1 @ b # ys) \<and>
    (if rs < c_rseq c then nb \<noteq> b \<and> (\<exists>n. sw_chunks w1 nb = Some n \<and> c_rseq (dn_val n) = rs) else nb = b)"
proof (cases "rs < c_rseq c")
  case True
  let ?k = "c_rseq c - rs"
  obtain n0 where "sw_chunks w b = Some n0" "dn_val n0 = c" "dn_prev n0 = (if xs = [] then None else Some (last xs))"
    using buf_lookup [OF b(1,2)] by auto
  then have bn: "dn_val bn = c" "dn_prev bn = (if xs = [] then None else Some (last xs))" using b(4) by auto
  have k: "sub64 (c_rseq c) rs = ?k" "?k < seq_bound" "add64 rs ?k = c_rseq c" "?k < hb_len d"
    using True r by (auto simp: sub64_exact add64_def)
  have hk: "hb_incr_by d 0 (s64 ?k) = Some ?k"
    unfolding s64_small [OF k(2)] by (rule hb_incr_by_exact [OF k(4)])
  from insert_chunk_ok [OF b(1,2), of "Some (hb_sub d 0 ?k)" rs ?k]
  obtain n w1 where ins: "insert_chunk (if xs = [] then None else Some (last xs)) (Some (hb_sub d 0 ?k)) rs ?k w = Some (n, w1)"
    "buf w1 (xs @ n # b # ys) (as @ \<lparr>c_rseq = rs, c_rupper = add64 rs ?k, c_data = Some (hb_sub d 0 ?k)\<rparr> # c # bs)" "bframe w w1"
    by blast
  have b1: "buf w1 ((xs @ [n]) @ b # ys) ((as @ [mk_chunk rs (c_rseq c) (hb_sub d 0 ?k)]) @ c # bs)"
    using ins(2) k(3) by (simp add: mk_chunk_def)
  have "add_prefix b bn rs (Some d) w = Some (Some n, max rs (c_rseq c), Some (hb_sub d ?k (hb_len d)), w1)"
    using True bn k(1,3) hk ins(1) by (simp add: add_prefix_def max_def)
  moreover have "n \<noteq> b" using b1 by (auto simp: buf_def dll_def)
  moreover have "\<exists>m. sw_chunks w1 n = Some m \<and> c_rseq (dn_val m) = rs"
    using buf_lookup [of w1 xs n "b # ys" as] ins(2) b(2) by fastforce
  ultimately show ?thesis
    using True b1 b(2) ins(3) keeps_insert [OF b(1) ins(2) b(2)]
    by (intro exI [of _ n] exI [of _ w1] exI [of _ "xs @ [n]"] exI [of _ "as @ [mk_chunk rs (c_rseq c) (hb_sub d 0 ?k)]"]
        exI [of _ "hb_sub d ?k (hb_len d)"]) simp
next
  case False
  obtain n0 where "sw_chunks w b = Some n0" "dn_val n0 = c" using buf_lookup [OF b(1,2)] by auto
  then have "dn_val bn = c" using b(4) by auto
  then have "add_prefix b bn rs (Some d) w = Some (Some b, max rs (c_rseq c), Some d, w)"
    using False by (simp add: add_prefix_def max_def)
  then show ?thesis
    using False b(1,2) by (intro exI [of _ b] exI [of _ w] exI [of _ xs] exI [of _ as] exI [of _ d]) (simp add: keeps_def)
qed

text \<open>The result that the lemma on \<open>add_and_check\<close> states.\<close>

definition added :: "sink_world \<Rightarrow> addr list \<Rightarrow> chunk list \<Rightarrow> nat \<Rightarrow> nat \<Rightarrow> hbytes \<Rightarrow> (ptr \<times> sink_world) option \<Rightarrow> bool" where
  "added w ps cs rs ru d res \<longleftrightarrow> (\<exists>r w' ps' n. res = Some (Some r, w') \<and> buf w' ps' (add_block rs ru d cs) \<and>
     bframe w w' \<and> keeps w ps w' ps' \<and> r \<in> set ps' \<and> sw_chunks w' r = Some n \<and>
     ((\<forall>c \<in> set cs. \<not> (c_rseq c \<le> rs \<and> rs < c_rupper c)) \<longrightarrow> c_rseq (dn_val n) = rs))"

lemma added_insert:
  assumes b: "buf w (xs @ ys) (as @ bs)" "length xs = length as" "rs < ru" "ru < seq_bound"
    and a: "add_block rs ru d (as @ bs) = as @ mk_chunk rs ru d # bs"
  shows "added w (xs @ ys) (as @ bs) rs ru d
    (do { (c, w1) \<leftarrow> insert_chunk (if xs = [] then None else Some (last xs)) (Some d) rs (sub64 ru rs) w; Some (Some c, w1) })"
proof -
  have k: "add64 rs (sub64 ru rs) = ru" using b(3,4) by (simp add: sub64_exact add64_def)
  obtain n w' where i: "insert_chunk (if xs = [] then None else Some (last xs)) (Some d) rs (sub64 ru rs) w = Some (n, w')"
    "buf w' (xs @ n # ys) (as @ mk_chunk rs ru d # bs)" "bframe w w'"
    using insert_chunk_ok [OF b(1,2), of "Some d" rs "sub64 ru rs"] unfolding k mk_chunk_def by blast
  obtain m where m: "sw_chunks w' n = Some m" "dn_val m = mk_chunk rs ru d" using buf_lookup [OF i(2) b(2)] by blast
  show ?thesis
    unfolding added_def a using i m keeps_insert [OF b(1) i(2) b(2)]
    by (intro exI [of _ n] exI [of _ w'] exI [of _ "xs @ n # ys"] exI [of _ m]) (simp add: mk_chunk_def)
qed

text \<open>The step at a chunk that overlaps the new block, given the result \<open>rec\<close> for the remainder.\<close>

lemma add_overlap:
  assumes b: "buf w (xs @ b # ys) (as @ c # bs)" "length xs = length as" "chunks_fine (as @ c # bs)" "sw_chunks w b = Some bn"
    and r: "rs < c_rupper c" "c_rseq c < ru" "ru < seq_bound" "rs < ru" "hb_len d = ru - rs"
    and pre: "\<forall>x \<in> set as. c_rupper x \<le> rs"
    and rec: "\<And>w1 xs1 as1 d1. buf w1 (xs1 @ b # ys) (as1 @ c # bs) \<Longrightarrow> length xs1 = length as1 \<Longrightarrow>
        chunks_fine (as1 @ c # bs) \<Longrightarrow> \<forall>x \<in> set as1. c_rupper x \<le> c_rupper c \<Longrightarrow> c_rupper c < ru \<Longrightarrow>
        hb_len d1 = ru - c_rupper c \<Longrightarrow>
        added w1 (xs1 @ b # ys) (as1 @ c # bs) (c_rupper c) ru d1 (add_and_check b (c_rupper c) ru (Some d1) w1)"
  shows "added w (xs @ b # ys) (as @ c # bs) rs ru d (do {
       (new_b, rseq, data, w1) \<leftarrow> add_prefix b bn rs (Some d) w;
       let new_b_len = s64 (sub64 ru rseq);
       let b_len = s64 (sub64 (c_rupper (dn_val bn)) rseq);
       let overlap_len = (if new_b_len < b_len then new_b_len else b_len);
       old_data \<leftarrow> overlap_part (c_data (dn_val bn)) (sub64 rseq (c_rseq (dn_val bn))) overlap_len;
       new_data \<leftarrow> overlap_part data 0 overlap_len;
       let w2 = report_overlap old_data new_data rseq w1;
       (if overlap_len < new_b_len then
          (case data of
             None \<Rightarrow> None
           | Some d \<Rightarrow> do {
               i \<leftarrow> hb_incr_by d 0 overlap_len;
               (r, w3) \<leftarrow> add_and_check b (nat ((int rseq + overlap_len) mod 18446744073709551616)) ru
                           (Some (hb_sub d i (hb_len d))) w2;
               Some (if new_b = Some b then r else new_b, w3)
             })
        else Some (new_b, w2))
     })"
proof -
  let ?rs = "max rs (c_rseq c)"
  have cf: "chunk_fine c" using b(3) by (simp add: chunks_fine_append chunks_fine_Cons)
  then have c: "c_rseq c < c_rupper c" "c_rupper c < seq_bound" by (auto simp: chunk_fine_def)
  obtain n0 where "sw_chunks w b = Some n0" "dn_val n0 = c" using buf_lookup [OF b(1,2)] by auto
  then have bn: "dn_val bn = c" using b(4) by auto
  from add_prefix_ok [OF b(1,2) cf b(4) r] obtain nb w1 xs1 as1 d1 where p:
    "add_prefix b bn rs (Some d) w = Some (Some nb, ?rs, Some d1, w1)"
    "buf w1 (xs1 @ b # ys) (as1 @ c # bs)" "length xs1 = length as1" "bframe w w1"
    "keeps w (xs @ b # ys) w1 (xs1 @ b # ys)"
    "as1 = as @ (if rs < c_rseq c then [mk_chunk rs (c_rseq c) (hb_sub d 0 (c_rseq c - rs))] else [])"
    "d1 = (if rs < c_rseq c then hb_sub d (c_rseq c - rs) (hb_len d) else d)"
    "nb \<in> set (xs1 @ b # ys)"
    "if rs < c_rseq c then nb \<noteq> b \<and> (\<exists>n. sw_chunks w1 nb = Some n \<and> c_rseq (dn_val n) = rs) else nb = b" by blast
  have len: "s64 (sub64 ru ?rs) = int (ru - ?rs)" "s64 (sub64 (c_rupper c) ?rs) = int (c_rupper c - ?rs)"
    "sub64 ?rs (c_rseq c) = ?rs - c_rseq c" "?rs - c_rseq c < seq_bound" "?rs < ru" "?rs < c_rupper c"
    using r c by (auto simp: s64_small sub64_exact)
  have ld: "hb_len d1 = ru - ?rs" using p(7) r by (auto simp: hb_sub_len max_def)
  have fine1: "chunks_fine (as1 @ c # bs)" "\<forall>x \<in> set as1. c_rupper x \<le> c_rupper c"
  proof -
    have "chunk_fine (mk_chunk rs (c_rseq c) (hb_sub d 0 (c_rseq c - rs)))" if "rs < c_rseq c"
      using that r c by (auto simp: chunk_fine_def mk_chunk_def hb_sub_len)
    then show "chunks_fine (as1 @ c # bs)"
      using b(3) pre p(6) r c by (auto simp: chunks_fine_append chunks_fine_Cons mk_chunk_def)
    show "\<forall>x \<in> set as1. c_rupper x \<le> c_rupper c" using p(6) pre r c by (auto simp: mk_chunk_def)
  qed
  define ov where "ov = min (ru - ?rs) (c_rupper c - ?rs)"
  have ovl: "(if s64 (sub64 ru ?rs) < s64 (sub64 (c_rupper c) ?rs) then s64 (sub64 ru ?rs) else s64 (sub64 (c_rupper c) ?rs)) = int ov"
    unfolding len(1,2) ov_def by auto
  obtain od nd where o: "overlap_part (c_data c) (?rs - c_rseq c) (int ov) = Some od" "overlap_part (Some d1) 0 (int ov) = Some nd"
    using overlap_part_Some len(4) by (metis of_nat_0_le_iff zero_less_numeral)
  let ?w2 = "report_overlap od nd ?rs w1"
  have w2: "bframe w1 ?w2" "sw_chunks ?w2 = sw_chunks w1" "sw_sink ?w2 = sw_sink w1" "sw_next ?w2 = sw_next w1"
    using report_overlap_frame [of od nd ?rs w1] by auto
  have b2: "buf ?w2 (xs1 @ b # ys) (as1 @ c # bs)" using p(2) w2 by (simp add: buf_cong [of ?w2 w1])
  have k2: "keeps w (xs @ b # ys) ?w2 (xs1 @ b # ys)" using p(5) w2(2) by (simp add: keeps_def)
  have cov: "\<not> rs < c_rseq c \<Longrightarrow> \<exists>x \<in> set (as @ c # bs). c_rseq x \<le> rs \<and> rs < c_rupper x" using r(1) by auto
  have eq: "add_block rs ru d (as @ c # bs) = as1 @ c # (if ru \<le> c_rupper c then bs
      else add_block (c_rupper c) ru (hb_sub d1 (c_rupper c - ?rs) (hb_len d1)) bs)"
    unfolding add_block_append [OF pre] using r(1,2) p(6,7) by (simp add: Let_def)
  show ?thesis
  proof (cases "ru \<le> c_rupper c")
    case True
    then have "ov = ru - ?rs" by (simp add: ov_def)
    obtain m where "sw_chunks ?w2 nb = Some m" "rs < c_rseq c \<Longrightarrow> c_rseq (dn_val m) = rs"
      using p(9) w2(2) b(4) dll_live [of "sw_chunks w1" _ _ nb] p(2,8) by (metis buf_def)
    then show ?thesis
      unfolding p(1) bind.simps prod.case Let_def bn ovl len(3) o added_def eq
      using True b2 k2 p(4,8) w2(1) bframe_trans [of w w1 ?w2] cov len(1) \<open>ov = ru - ?rs\<close>
      by (intro exI [of _ nb] exI [of _ ?w2] exI [of _ "xs1 @ b # ys"] exI [of _ m]) auto
  next
    case False
    then have "ov = c_rupper c - ?rs" unfolding ov_def by (simp add: min_def)
    moreover from this have "int ov < s64 (sub64 ru ?rs)" unfolding len(1) using False len(6) by linarith
    ultimately have ov: "ov = c_rupper c - ?rs" "int ov < s64 (sub64 ru ?rs)" by simp_all
    have rs': "nat ((int ?rs + int ov) mod 18446744073709551616) = c_rupper c" using ov len(6) c by simp
    have hk: "hb_incr_by d1 0 (int ov) = Some ov" unfolding ov(1) by (intro hb_incr_by_exact) (use ld False len(5,6) in linarith)
    have ld2: "hb_len (hb_sub d1 ov (hb_len d1)) = ru - c_rupper c" using ld ov False len(6) by (simp add: hb_sub_len)
    from rec [OF b2 p(3) fine1 _ ld2] obtain r w' ps' n where rr:
      "add_and_check b (c_rupper c) ru (Some (hb_sub d1 ov (hb_len d1))) ?w2 = Some (Some r, w')"
      "buf w' ps' (add_block (c_rupper c) ru (hb_sub d1 ov (hb_len d1)) (as1 @ c # bs))" "bframe ?w2 w'"
      "keeps ?w2 (xs1 @ b # ys) w' ps'" "r \<in> set ps'" "sw_chunks w' r = Some n"
      using False unfolding added_def by auto
    have e2: "add_block (c_rupper c) ru (hb_sub d1 ov (hb_len d1)) (as1 @ c # bs) = add_block rs ru d (as @ c # bs)"
      unfolding eq using False fine1(2) ov(1) by (simp add: add_block_append)
    have fr: "bframe w w'" using p(4) w2(1) rr(3) bframe_trans by blast
    have kk: "keeps w (xs @ b # ys) w' ps'" using k2 rr(4) keeps_trans by blast
    show ?thesis
    proof (cases "rs < c_rseq c")
      case True
      obtain m0 where m0: "sw_chunks w1 nb = Some m0" "c_rseq (dn_val m0) = rs" "nb \<noteq> b" using p(9) True by auto
      have "nb \<in> set ps'" "map_option dn_val (sw_chunks w' nb) = Some (dn_val m0)"
        using bspec [OF rr(4) [unfolded keeps_def] p(8)] m0(1) w2(2) by simp_all
      then obtain m where "nb \<in> set ps'" "sw_chunks w' nb = Some m" "c_rseq (dn_val m) = rs" using m0(2) by auto
      then show ?thesis
        unfolding p(1) bind.simps prod.case Let_def bn ovl len(3) o added_def
        using ov(2) hk rs' rr(1,2) e2 fr kk m0(3)
        by (intro exI [of _ nb] exI [of _ w'] exI [of _ ps'] exI [of _ m]) auto
    next
      case False
      then have "nb = b" using p(9) by simp
      then show ?thesis
        unfolding p(1) bind.simps prod.case Let_def bn ovl len(3) o added_def
        using ov(2) hk rs' rr e2 fr kk cov False
        by (intro exI [of _ r] exI [of _ w'] exI [of _ ps'] exI [of _ n]) auto
    qed
  qed
qed

lemma add_and_check_ok:
  assumes "buf w (us @ p # vs) cs" "chunks_fine cs" "\<forall>x \<in> set (take (length us) cs). c_rupper x \<le> rs"
    "rs < ru" "ru < seq_bound" "hb_len d = ru - rs"
  shows "added w (us @ p # vs) cs rs ru d (add_and_check p rs ru (Some d) w)"
  using assms
proof (induction "length (filter (\<lambda>c. rs < c_rupper c) cs)" arbitrary: w us p vs cs rs d rule: less_induct)
  case less
  note b = less.prems(1) and fine = less.prems(2)
  have lcs: "length cs = length us + Suc (length vs)" using buf_length [OF b] by simp
  then have lt: "length us < length cs" by simp
  define as where "as = take (length us) cs"
  define c where "c = cs ! length us"
  define bs where "bs = drop (Suc (length us)) cs"
  have cs: "cs = as @ c # bs" "as = take (length us) cs" "length us = length as"
    using id_take_nth_drop [OF lt] lt unfolding as_def c_def bs_def by simp_all
  have b1: "buf w (us @ p # vs) (as @ c # bs)" using b cs(1) by simp
  let ?ps = "us @ p # vs"
  obtain qs l where ps: "?ps = qs @ [l]" by (metis append_is_Nil_conv list.distinct(1) rev_exhaust)
  obtain es e where es: "cs = es @ [e]" using cs(1) by (metis append_is_Nil_conv list.distinct(1) rev_exhaust)
  have le: "length qs = length es" using lcs ps es by (metis add_Suc_right length_append_singleton buf_length [OF b] nat.inject)
  obtain f0 where first: "sk_first_chunk (sw_sink w) = Some f0" "sk_last_chunk (sw_sink w) = Some l"
    using buf_first [OF b] buf_last [OF b] ps by (auto split: list.splits)
  have bl: "buf w (qs @ l # []) (es @ e # [])" using b ps es by simp
  obtain ln where ln: "sw_chunks w l = Some ln" "dn_val ln = e" using buf_lookup [OF bl le] by auto
  show ?case
  proof (cases "rs = c_rupper e")
    case True
    have all: "\<forall>x \<in> set cs. c_rupper x \<le> rs"
      using fine es True by (auto simp: chunks_fine_append chunks_fine_Cons chunk_fine_def dest: order_trans [OF _ less_imp_le])
    have "add_block rs ru d (cs @ []) = cs @ mk_chunk rs ru d # []" using add_block_append [OF all, of ru d "[]"] by simp
    from added_insert [OF _ _ less.prems(4,5) this, of w ?ps "[]"] show ?thesis
      using b buf_length [OF b] True first ln ps by (subst add_and_check.simps) simp
  next
    case False
    from find_chunk_ok [OF b1 cs(3), of rs] obtain ws q zs cs' e' ds where f: "p # vs = ws @ q # zs" "c # bs = cs' @ e' # ds"
      "length ws = length cs'" "find_chunk (sw_chunks w) p rs = Some q" "\<forall>x \<in> set cs'. c_rupper x \<le> rs" "ds = [] \<or> rs < c_rupper e'"
      by blast
    let ?xs = "us @ ws" and ?as = "as @ cs'"
    have b2: "buf w (?xs @ q # zs) (?as @ e' # ds)" "length ?xs = length ?as" "cs = ?as @ e' # ds" "?ps = ?xs @ q # zs"
      using b1 f(1,2,3) cs(1,3) by simp_all
    have pre: "\<forall>x \<in> set ?as. c_rupper x \<le> rs" using f(5) less.prems(3) cs(2) by auto
    obtain qn where qn: "sw_chunks w q = Some qn" "dn_val qn = e'" "dn_prev qn = (if ?xs = [] then None else Some (last ?xs))"
      using buf_lookup [OF b2(1,2)] by auto
    have unf: "add_and_check p rs ru (Some d) w =
      (if c_rupper e' \<le> rs then do {
           (c, w1) \<leftarrow> insert_chunk (Some q) (Some d) rs (sub64 ru rs) w;
           Some (Some c, w1)
         } else if ru \<le> c_rseq e' then do {
           (c, w1) \<leftarrow> insert_chunk (dn_prev qn) (Some d) rs (sub64 ru rs) w;
           Some (Some c, w1)
         } else do {
           (new_b, rseq, data, w1) \<leftarrow> add_prefix q qn rs (Some d) w;
           let new_b_len = s64 (sub64 ru rseq);
           let b_len = s64 (sub64 (c_rupper (dn_val qn)) rseq);
           let overlap_len = (if new_b_len < b_len then new_b_len else b_len);
           old_data \<leftarrow> overlap_part (c_data (dn_val qn)) (sub64 rseq (c_rseq (dn_val qn))) overlap_len;
           new_data \<leftarrow> overlap_part data 0 overlap_len;
           let w2 = report_overlap old_data new_data rseq w1;
           (if overlap_len < new_b_len then
              (case data of
                 None \<Rightarrow> None
               | Some d \<Rightarrow> do {
                   i \<leftarrow> hb_incr_by d 0 overlap_len;
                   (r, w3) \<leftarrow> add_and_check q (nat ((int rseq + overlap_len) mod 18446744073709551616)) ru
                               (Some (hb_sub d i (hb_len d))) w2;
                   Some (if new_b = Some q then r else new_b, w3)
                 })
            else Some (new_b, w2))
         })"
      using first ln False f(4) qn(1,2) by (subst add_and_check.simps) auto
    consider (after) "c_rupper e' \<le> rs" | (before) "rs < c_rupper e'" "ru \<le> c_rseq e'" | (over) "rs < c_rupper e'" "c_rseq e' < ru"
      by linarith
    then show ?thesis
    proof cases
      case after
      then have "ds = []" using f(6) by auto
      moreover have "length zs = length ds"
        using b2(2) buf_length [OF b2(1)] unfolding length_append list.size by linarith
      ultimately have nil: "ds = []" "zs = []" by simp_all
      have all: "\<forall>x \<in> set cs. c_rupper x \<le> rs" using pre after b2(3) nil by simp
      have "add_block rs ru d (cs @ []) = cs @ mk_chunk rs ru d # []" using add_block_append [OF all, of ru d "[]"] by simp
      from added_insert [OF _ _ less.prems(4,5) this, of w ?ps "[]"] show ?thesis
        unfolding unf using b buf_length [OF b] after b2(4) nil by simp
    next
      case before
      have "add_block rs ru d (?as @ e' # ds) = ?as @ mk_chunk rs ru d # e' # ds"
        unfolding add_block_append [OF pre] using before by simp
      from added_insert [OF b2(1,2) less.prems(4,5) this] show ?thesis
        unfolding unf b2(3,4) using before qn(3) by simp
    next
      case over
      have u: "\<not> c_rupper e' \<le> rs" "\<not> ru \<le> c_rseq e'" using over by auto
      show ?thesis
        unfolding unf b2(3,4) if_not_P [OF u(1)] if_not_P [OF u(2)]
      proof (rule add_overlap [OF b2(1,2) fine [unfolded b2(3)] qn(1) over less.prems(5,4,6) pre])
        fix w1 xs1 as1 d1
        assume h: "buf w1 (xs1 @ q # zs) (as1 @ e' # ds)" "length xs1 = length as1" "chunks_fine (as1 @ e' # ds)"
          "\<forall>x \<in> set as1. c_rupper x \<le> c_rupper e'" "c_rupper e' < ru" "hb_len d1 = ru - c_rupper e'"
        have "filter (\<lambda>c. c_rupper e' < c_rupper c) (as1 @ e' # ds) = filter (\<lambda>c. c_rupper e' < c_rupper c) ds"
          using h(4) by (simp add: filter_empty_conv leD)
        moreover have "length (filter (\<lambda>c. c_rupper e' < c_rupper c) ds) \<le> length (filter (\<lambda>c. rs < c_rupper c) ds)"
          using over(1) by (induction ds) auto
        moreover have "length (filter (\<lambda>c. rs < c_rupper c) cs) \<ge> Suc (length (filter (\<lambda>c. rs < c_rupper c) ds))"
          unfolding b2(3) using over(1) by simp
        ultimately have "length (filter (\<lambda>c. c_rupper e' < c_rupper c) (as1 @ e' # ds)) < length (filter (\<lambda>c. rs < c_rupper c) cs)"
          by simp
        from less.hyps [OF this h(1,3) _ h(5) less.prems(5) h(6)] h(2,4)
        show "added w1 (xs1 @ q # zs) (as1 @ e' # ds) (c_rupper e') ru d1 (add_and_check q (c_rupper e') ru (Some d1) w1)"
          by simp
      qed
    qed
  qed
qed

text \<open>The bytes a buffer holds, by sequence number.\<close>

definition chunk_map :: "chunk \<Rightarrow> nat \<Rightarrow> byte option" where
  "chunk_map c s = (if c_rseq c \<le> s \<and> s < c_rupper c
     then map_option (\<lambda>d. hb_data d ! (s - c_rseq c)) (c_data c) else None)"

fun buf_map :: "chunk list \<Rightarrow> nat \<Rightarrow> byte option" where
  "buf_map [] = Map.empty"
| "buf_map (c # cs) = buf_map cs ++ chunk_map c"

lemma chunk_map_out: "s < c_rseq c \<or> c_rupper c \<le> s \<Longrightarrow> chunk_map c s = None"
  by (auto simp: chunk_map_def)

lemma buf_map_below: "chunks_fine cs \<Longrightarrow> \<forall>c \<in> set cs. s < c_rseq c \<Longrightarrow> buf_map cs s = None"
  by (induction cs) (auto simp: map_add_def chunk_map_def chunks_fine_Cons)

lemma buf_map_append: "buf_map (xs @ ys) = buf_map ys ++ buf_map xs"
  by (induction xs) (simp_all add: map_add_assoc)

lemma chunk_map_prefix:
  assumes "k \<le> hb_len d" "s < rs + k"
  shows "chunk_map (mk_chunk rs (rs + k) (hb_sub d 0 k)) s = chunk_map (mk_chunk rs ru d) s \<or> ru < rs + k"
  using assms by (auto simp: chunk_map_def mk_chunk_def hb_sub_def hb_new_def hb_len_def)

lemma chunk_map_suffix:
  assumes "k \<le> hb_len d" "rs + k \<le> s" "hb_len d = ru - rs"
  shows "chunk_map (mk_chunk (rs + k) ru (hb_sub d k (hb_len d))) s = chunk_map (mk_chunk rs ru d) s"
  using assms by (auto simp: chunk_map_def mk_chunk_def hb_sub_def hb_new_def hb_len_def add.commute)

lemma hb_sub_sub: "hb_sub (hb_sub d i (hb_len d)) j (hb_len (hb_sub d i (hb_len d))) = hb_sub d (i + j) (hb_len d)"
  by (simp add: hb_sub_def hb_new_def hb_len_def add.commute)

text \<open>The remainder that the recursion is called with.\<close>

lemma add_block_rest:
  assumes "rs < c_rupper c" "c_rseq c < c_rupper c"
  shows "(let d1 = (if rs < c_rseq c then hb_sub d (c_rseq c - rs) (hb_len d) else d);
              rs1 = max rs (c_rseq c) in hb_sub d1 (c_rupper c - rs1) (hb_len d1)) = hb_sub d (c_rupper c - rs) (hb_len d)"
  using assms by (auto simp: Let_def hb_sub_sub max_def)

lemma add_block_over:
  assumes "rs < c_rupper c" "c_rseq c < ru" "c_rseq c < c_rupper c"
  shows "add_block rs ru d (c # cs) =
    (if rs < c_rseq c then [mk_chunk rs (c_rseq c) (hb_sub d 0 (c_rseq c - rs))] else []) @ c #
    (if ru \<le> c_rupper c then cs else add_block (c_rupper c) ru (hb_sub d (c_rupper c - rs) (hb_len d)) cs)"
  using assms add_block_rest [OF assms(1,3), of d] by (simp add: Let_def)

lemma add_block_lower: "\<forall>c \<in> set cs. k \<le> c_rseq c \<Longrightarrow> k \<le> rs \<Longrightarrow> rs < ru \<Longrightarrow> \<forall>c \<in> set (add_block rs ru d cs). k \<le> c_rseq c"
proof (induction cs arbitrary: rs d)
  case (Cons c cs)
  show ?case
  proof (cases "c_rupper c \<le> rs \<or> ru \<le> c_rseq c \<or> ru \<le> c_rupper c")
    case True
    then show ?thesis using Cons by (auto simp: mk_chunk_def Let_def)
  next
    case False
    have "\<forall>c' \<in> set (add_block (c_rupper c) ru d' cs). k \<le> c_rseq c'" for d'
      using Cons.IH [of "c_rupper c" d'] Cons.prems False by auto
    then show ?thesis using Cons.prems False by (auto simp: mk_chunk_def Let_def)
  qed
qed (simp add: mk_chunk_def)

lemma add_block_fine:
  "chunks_fine cs \<Longrightarrow> rs < ru \<Longrightarrow> ru < seq_bound \<Longrightarrow> hb_len d = ru - rs \<Longrightarrow> chunks_fine (add_block rs ru d cs)"
proof (induction cs arbitrary: rs d)
  case Nil
  then show ?case by (simp add: chunks_fine_def chunk_fine_def mk_chunk_def)
next
  case (Cons c cs)
  have c: "chunk_fine c" "chunks_fine cs" "\<forall>c' \<in> set cs. c_rupper c \<le> c_rseq c'" "c_rseq c < c_rupper c"
    using Cons.prems(1) by (auto simp: chunks_fine_Cons chunk_fine_def)
  consider (after) "c_rupper c \<le> rs" | (before) "rs < c_rupper c" "ru \<le> c_rseq c" | (over) "rs < c_rupper c" "c_rseq c < ru"
    by linarith
  then show ?case
  proof cases
    case after
    then show ?thesis
      using c Cons.IH [OF c(2) Cons.prems(2-4)] add_block_lower [of cs "c_rupper c" rs ru d] Cons.prems(2)
      by (simp add: chunks_fine_Cons)
  next
    case before
    then show ?thesis
      using c Cons.prems by (auto simp: chunks_fine_Cons chunk_fine_def mk_chunk_def dest: bspec)
  next
    case over
    have rest: "chunks_fine (c # (if ru \<le> c_rupper c then cs else add_block (c_rupper c) ru (hb_sub d (c_rupper c - rs) (hb_len d)) cs))"
    proof (cases "ru \<le> c_rupper c")
      case False
      let ?d = "hb_sub d (c_rupper c - rs) (hb_len d)"
      have "hb_len ?d = ru - c_rupper c" using Cons.prems(4) over(1) by (simp add: hb_sub_len)
      from Cons.IH [OF c(2) _ Cons.prems(3) this] show ?thesis
        using c False add_block_lower [of cs "c_rupper c" "c_rupper c" ru ?d] by (simp add: chunks_fine_Cons)
    qed (use Cons.prems(1) in simp)
    moreover have "chunk_fine (mk_chunk rs (c_rseq c) (hb_sub d 0 (c_rseq c - rs)))" if "rs < c_rseq c"
      using that c(1) Cons.prems(4) over(2) by (auto simp: chunk_fine_def mk_chunk_def hb_sub_len)
    moreover have "\<forall>c' \<in> set (if ru \<le> c_rupper c then cs else add_block (c_rupper c) ru (hb_sub d (c_rupper c - rs) (hb_len d)) cs).
        c_rseq c \<le> c_rseq c'"
      using rest c(4) by (fastforce simp: chunks_fine_Cons)
    ultimately show ?thesis
      unfolding add_block_over [OF over c(4)] by (auto simp: chunks_fine_Cons chunks_fine_append mk_chunk_def)
  qed
qed

lemma add_block_map:
  "chunks_fine cs \<Longrightarrow> rs < ru \<Longrightarrow> ru < seq_bound \<Longrightarrow> hb_len d = ru - rs \<Longrightarrow>
   buf_map (add_block rs ru d cs) = chunk_map (mk_chunk rs ru d) ++ buf_map cs"
proof (induction cs arbitrary: rs d)
  case (Cons c cs)
  have c: "chunk_fine c" "chunks_fine cs" "\<forall>c' \<in> set cs. c_rupper c \<le> c_rseq c'" "c_rseq c < c_rupper c"
    using Cons.prems(1) by (auto simp: chunks_fine_Cons chunk_fine_def)
  let ?blk = "chunk_map (mk_chunk rs ru d)"
  consider (after) "c_rupper c \<le> rs" | (before) "rs < c_rupper c" "ru \<le> c_rseq c" | (over) "rs < c_rupper c" "c_rseq c < ru"
    by linarith
  then show ?case
  proof cases
    case after
    then show ?thesis using Cons.IH [OF c(2) Cons.prems(2-4)] by (simp add: map_add_assoc)
  next
    case before
    have "((buf_map cs ++ chunk_map c) ++ ?blk) s = (?blk ++ (buf_map cs ++ chunk_map c)) s" for s
    proof (cases "s < ru")
      case True
      have "\<forall>c' \<in> set cs. s < c_rseq c'" using True before c(3,4) by fastforce
      then have "buf_map cs s = None" by (rule buf_map_below [OF c(2)])
      moreover have "chunk_map c s = None" using True before by (simp add: chunk_map_out)
      ultimately show ?thesis by (simp add: map_add_def split: option.splits)
    next
      case False
      then have "?blk s = None" by (simp add: chunk_map_out mk_chunk_def)
      then show ?thesis by (simp add: map_add_def split: option.splits)
    qed
    then show ?thesis using before by auto
  next
    case over
    let ?d = "hb_sub d (c_rupper c - rs) (hb_len d)"
    let ?rest = "if ru \<le> c_rupper c then cs else add_block (c_rupper c) ru ?d cs"
    let ?pre = "if rs < c_rseq c then [mk_chunk rs (c_rseq c) (hb_sub d 0 (c_rseq c - rs))] else []"
    have rest: "buf_map ?rest s = (if s < c_rupper c then None else (?blk ++ buf_map cs) s)" for s
    proof (cases "ru \<le> c_rupper c")
      case True
      have "s < c_rupper c \<Longrightarrow> buf_map cs s = None" using c(3) by (intro buf_map_below [OF c(2)]) auto
      moreover have "c_rupper c \<le> s \<Longrightarrow> ?blk s = None" using True by (simp add: chunk_map_out mk_chunk_def)
      ultimately show ?thesis using True by (auto simp: map_add_def split: option.splits)
    next
      case False
      have "hb_len ?d = ru - c_rupper c" using Cons.prems(4) over(1) by (simp add: hb_sub_len)
      then have ih: "buf_map (add_block (c_rupper c) ru ?d cs) = chunk_map (mk_chunk (c_rupper c) ru ?d) ++ buf_map cs"
        using Cons.IH [OF c(2) _ Cons.prems(3)] False by simp
      have "s < c_rupper c \<Longrightarrow> buf_map cs s = None" using c(3) by (intro buf_map_below [OF c(2)]) auto
      moreover have "s < c_rupper c \<Longrightarrow> chunk_map (mk_chunk (c_rupper c) ru ?d) s = None" by (simp add: chunk_map_out mk_chunk_def)
      moreover have "c_rupper c \<le> s \<Longrightarrow> chunk_map (mk_chunk (c_rupper c) ru ?d) s = ?blk s"
        using chunk_map_suffix [of "c_rupper c - rs" d rs s ru] Cons.prems(4) over(1) False by simp
      ultimately show ?thesis using False ih by (auto simp: map_add_def split: option.splits)
    qed
    have pre: "buf_map ?pre s = (if s < c_rseq c then ?blk s else None)" for s
    proof (cases "rs < c_rseq c")
      case True
      then show ?thesis
        using chunk_map_prefix [of "c_rseq c - rs" d s rs ru] Cons.prems(4) over(2)
        by (auto simp: chunk_map_out mk_chunk_def)
    qed (simp add: chunk_map_out mk_chunk_def)
    have cm: "chunk_map c s = None \<longleftrightarrow> s < c_rseq c \<or> c_rupper c \<le> s" for s
      using c(1) by (auto simp: chunk_map_def chunk_fine_def)
    have "buf_map (?pre @ c # ?rest) s = (?blk ++ (buf_map cs ++ chunk_map c)) s" for s
    proof -
      have "s < c_rseq c \<Longrightarrow> buf_map cs s = None" using c(3,4) by (intro buf_map_below [OF c(2)]) fastforce
      then show ?thesis
        unfolding buf_map_append buf_map.simps using pre [of s] rest [of s] cm [of s] c(4)
        by (auto simp: map_add_def split: option.splits)
    qed
    then show ?thesis unfolding add_block_over [OF over c(4)] buf_map.simps by blast
  qed
qed simp

section \<open>Trimming\<close>

lemma unlink_front_ok:
  assumes b: "buf w (p # ps) (c # cs)"
  shows "\<exists>w1 w2. sink_unlink_chunk p w = Some w1 \<and> sink_delete_chunk p w1 = Some w2 \<and> buf w2 ps cs \<and> bframe w w2"
proof -
  have d: "dll (sw_chunks w) (sk_first_chunk (sw_sink w), sk_last_chunk (sw_sink w)) ([] @ p # ps)"
    and v: "vals (sw_chunks w) ps = map Some cs" and fr: "\<forall>a. sw_chunks w a \<noteq> None \<longrightarrow> a < sw_next w"
    using b by (auto simp: buf_def)
  from dll_unlink_ok [OF d] obtain h' hdr' nn where u: "dll_unlink (sw_chunks w) (chunk_hdr w) p = Some (h', hdr')"
    "dll h' hdr' ps" "h' p = Some (nn\<lparr>dn_next := None, dn_prev := None\<rparr>)" "keeps_vals (sw_chunks w) h'"
    by auto
  have pn: "p \<notin> set ps" using d by (auto simp: dll_def)
  let ?w1 = "set_chunks h' hdr' w"
  let ?w2 = "?w1\<lparr>sw_chunks := h'(p := None)\<rparr>"
  have a: "sink_unlink_chunk p w = Some ?w1" using u(1) by (simp add: sink_unlink_chunk_def)
  have b: "sink_delete_chunk p ?w1 = Some ?w2" using u(3) by (simp add: sink_delete_chunk_def set_chunks_def)
  have dom: "sw_chunks w x \<noteq> None" if "h' x \<noteq> None" for x
    using that u(4) unfolding keeps_vals_def by (metis option.map_disc_iff)
  have "vals (h'(p := None)) ps = map Some cs" using v vals_keeps [OF u(4)] pn by simp
  then have "buf ?w2 ps cs"
    using u(2) dll_frame [OF pn, of h' None hdr'] fr dom by (auto simp: buf_def set_chunks_def split: if_splits)
  then show ?thesis using a b by (auto simp: bframe_def set_chunks_def unbuffered_def)
qed

lemma trim_loop_ok:
  "buf w ps cs \<Longrightarrow> \<exists>w'. trim_loop (case ps of [] \<Rightarrow> None | p # _ \<Rightarrow> Some p) rseq w = Some w' \<and>
     buf w' (drop (length (takeWhile (\<lambda>c. c_rupper c \<le> rseq) cs)) ps) (dropWhile (\<lambda>c. c_rupper c \<le> rseq) cs) \<and> bframe w w'"
proof (induction cs arbitrary: w ps)
  case Nil
  then have "ps = []" using buf_length by fastforce
  then show ?case using Nil by (subst trim_loop.simps) simp
next
  case (Cons c cs)
  then obtain p qs where ps: "ps = p # qs" using buf_length [of w ps "c # cs"] by (cases ps) auto
  have b: "buf w ([] @ p # qs) ([] @ c # cs)" using Cons.prems ps by simp
  obtain n where n: "sw_chunks w p = Some n" "dn_val n = c" "dn_next n = (case qs of [] \<Rightarrow> None | y # _ \<Rightarrow> Some y)"
    using buf_lookup [OF b] by auto
  show ?case
  proof (cases "c_rupper c \<le> rseq")
    case False
    then have "trim_loop (Some p) rseq w = Some w" using n by (subst trim_loop.simps) simp
    then show ?thesis using False Cons.prems ps by simp
  next
    case True
    define w1 where "w1 = (case c_data c of
                Some d \<Rightarrow> if c_rupper c < sk_cur_rseq (sw_sink w) then report_undelivered (c_rseq c) d w else w
              | None \<Rightarrow> w)"
    have w1: "bframe w w1 \<and> sw_chunks w1 = sw_chunks w \<and> sw_sink w1 = sw_sink w \<and> sw_next w1 = sw_next w"
      unfolding w1_def using report_undelivered_frame by (auto split: option.splits)
    have "buf w1 (p # qs) (c # cs)" using Cons.prems ps w1 by (simp add: buf_def)
    from unlink_front_ok [OF this] obtain w2 w3 where u: "sink_unlink_chunk p w1 = Some w2" "sink_delete_chunk p w2 = Some w3"
      "buf w3 qs cs" "bframe w1 w3" by blast
    from Cons.IH [OF u(3)] obtain w' where ih: "trim_loop (case qs of [] \<Rightarrow> None | p # _ \<Rightarrow> Some p) rseq w3 = Some w'"
      "buf w' (drop (length (takeWhile (\<lambda>c. c_rupper c \<le> rseq) cs)) qs) (dropWhile (\<lambda>c. c_rupper c \<le> rseq) cs)" "bframe w3 w'" by blast
    have "trim_loop (Some p) rseq w = Some w'"
      using True n(1,3) u(1,2) ih(1) unfolding w1_def n(2) [symmetric] by (subst trim_loop.simps) (simp add: Let_def)
    moreover have "bframe w w'" using w1 u(4) ih(3) bframe_trans by blast
    ultimately show ?thesis using True ih(2) ps by simp
  qed
qed

section \<open>Delivery to the parsers\<close>

text \<open>Parser code that does not disconnect parsers while it runs; no parser is marked as disconnected.\<close>

definition quiet_code :: "parser_code \<Rightarrow> bool" where
  "quiet_code pc \<longleftrightarrow> (\<forall>x d. snd (pc_parse pc x d) = [] \<and> snd (pc_resume pc x d) = [])"

definition state_ids :: "sink_world \<Rightarrow> addr set" where
  "state_ids w = fst ` set (sk_states (sw_sink w))"

definition states_ok :: "sink_world \<Rightarrow> bool" where
  "states_ok w \<longleftrightarrow> (\<forall>x \<in> set (sk_states (sw_sink w)). \<not> ps_disconnected (snd x)) \<and>
     distinct (map fst (sk_states (sw_sink w)))"

text \<open>What delivering to the parsers leaves alone.\<close>

definition unparsed :: "spicy_sink \<Rightarrow> spicy_sink" where
  "unparsed k = k\<lparr>sk_states := [], sk_size := 0\<rparr>"

definition dframe :: "sink_world \<Rightarrow> sink_world \<Rightarrow> bool" where
  "dframe w w' \<longleftrightarrow> unparsed (sw_sink w') = unparsed (sw_sink w) \<and> sw_chunks w' = sw_chunks w \<and>
     sw_next w' = sw_next w \<and> sw_filters w' = sw_filters w \<and> delivered (sw_events w') = delivered (sw_events w)"

lemma dframe_refl [simp]: "dframe w w"
  by (simp add: dframe_def)

lemma dframe_trans: "dframe w w1 \<Longrightarrow> dframe w1 w2 \<Longrightarrow> dframe w w2"
  by (simp add: dframe_def)

lemma unparsed_eq:
  assumes "unparsed k' = unparsed k"
  shows "sk_filter k' = sk_filter k \<and> sk_auto_trim k' = sk_auto_trim k \<and> sk_initial_seq k' = sk_initial_seq k \<and>
    sk_cur_rseq k' = sk_cur_rseq k \<and> sk_last_reassem_rseq k' = sk_last_reassem_rseq k \<and>
    sk_trim_rseq k' = sk_trim_rseq k \<and> sk_first_chunk k' = sk_first_chunk k \<and> sk_last_chunk k' = sk_last_chunk k"
  using assms by (cases k; cases k') (simp add: unparsed_def)

lemma set_state_fst: "map fst (map (\<lambda>(a, p). (a, if a = s then g p else p)) xs) = map fst xs"
  by (induction xs) auto

lemma set_state_states:
  "sk_states (sw_sink (set_state s g w)) = map (\<lambda>(a, p). (a, if a = s then g p else p)) (sk_states (sw_sink w))"
  by (simp add: set_state_def)

lemma set_state_ids: "state_ids (set_state s g w) = state_ids w"
  unfolding state_ids_def set_state_states using set_state_fst by (metis list.set_map)

lemma set_state_frame: "dframe w (set_state s g w)"
  by (simp add: set_state_def dframe_def unparsed_def)

lemma set_state_ok:
  assumes "\<And>p. ps_disconnected (g p) = ps_disconnected p" "states_ok w"
  shows "states_ok (set_state s g w)"
proof -
  have "distinct (map fst (sk_states (sw_sink (set_state s g w))))"
    unfolding set_state_states set_state_fst using assms(2) by (simp add: states_ok_def)
  moreover have "\<forall>x \<in> set (sk_states (sw_sink (set_state s g w))). \<not> ps_disconnected (snd x)"
    unfolding set_state_states using assms by (auto simp: states_ok_def split: if_splits)
  ultimately show ?thesis by (simp add: states_ok_def)
qed

lemma get_state_ok:
  assumes "states_ok w" "s \<in> state_ids w"
  shows "\<exists>p. get_state s w = Some p \<and> \<not> ps_disconnected p"
proof -
  from assms(2) obtain p where "get_state s w = Some p"
    unfolding state_ids_def get_state_def by (metis map_of_eq_None_iff option.exhaust)
  moreover from this have "(s, p) \<in> set (sk_states (sw_sink w))" by (simp add: get_state_def map_of_SomeD)
  ultimately show ?thesis using assms(1) by (auto simp: states_ok_def)
qed

lemma unlink_state_ok:
  assumes "states_ok w" "s \<in> state_ids w"
  shows "\<exists>w'. unlink_state s w = Some w' \<and> dframe w w' \<and> states_ok w' \<and> state_ids w' = state_ids w - {s}"
proof -
  let ?w' = "upd_sink (\<lambda>k. k\<lparr>sk_states := filter (\<lambda>x. fst x \<noteq> s) (sk_states k)\<rparr>) w"
  have "unlink_state s w = Some ?w'" using assms(2) by (simp add: unlink_state_def state_ids_def)
  moreover have "distinct (map fst (filter (\<lambda>x. fst x \<noteq> s) (sk_states (sw_sink w))))"
    using assms(1) by (simp add: states_ok_def distinct_map_filter)
  then have "states_ok ?w'" using assms(1) by (auto simp: states_ok_def)
  ultimately show ?thesis by (auto simp: dframe_def unparsed_def state_ids_def)
qed

lemma after_parse_ok:
  assumes "states_ok w" "s \<in> state_ids w" "snd r = []"
  shows "\<exists>ex w'. after_parse s r w = Some (ex, w') \<and> dframe w w' \<and> states_ok w' \<and> state_ids w - {s} \<subseteq> state_ids w'"
proof -
  obtain w' where u: "unlink_state s w = Some w'" "dframe w w'" "states_ok w'" "state_ids w' = state_ids w - {s}"
    using unlink_state_ok [OF assms(1,2)] by blast
  show ?thesis
  proof (cases "fst r")
    case (PYield t)
    then show ?thesis
      using assms set_state_ok [of "\<lambda>p. p\<lparr>ps_resume := Some t\<rparr>" w s] set_state_frame set_state_ids
      by (auto simp: after_parse_def Let_def)
  qed (use u assms(3) in \<open>auto simp: after_parse_def Let_def\<close>)
qed

lemma log_event_frame:
  "delivered [e] = [] \<Longrightarrow> dframe w (log_event e w) \<and> states_ok (log_event e w) = states_ok w \<and> state_ids (log_event e w) = state_ids w"
  by (simp add: log_event_def dframe_def states_ok_def state_ids_def)

lemma sink_error_frame: "dframe w (sink_error e w) \<and> states_ok (sink_error e w) = states_ok w \<and> state_ids (sink_error e w) = state_ids w"
  by (simp add: sink_error_def dframe_def states_ok_def state_ids_def)

lemma deliver_loop_ok:
  assumes "quiet_code pc" "states_ok w" "distinct ss" "set ss \<subseteq> state_ids w"
  shows "\<exists>ab w'. deliver_loop pc ss data w = Some (ab, w') \<and> dframe w w' \<and> states_ok w'"
  using assms
proof (induction ss arbitrary: w)
  case (Cons s ss)
  obtain p where p: "get_state s w = Some p" "\<not> ps_disconnected p"
    using get_state_ok [OF Cons.prems(2), of s] Cons.prems(4) by auto
  have step: "\<exists>ab w'. (do { (ex, w2) \<leftarrow> after_parse s r w1;
        (case ex of None \<Rightarrow> deliver_loop pc ss data w2 | Some e \<Rightarrow> Some (True, sink_error e w2)) }) = Some (ab, w') \<and>
      dframe w w' \<and> states_ok w'"
    if w1: "dframe w w1" "states_ok w1" "state_ids w1 = state_ids w" and r: "snd r = []" for r w1
  proof -
    obtain ex w2 where a: "after_parse s r w1 = Some (ex, w2)" "dframe w1 w2" "states_ok w2" "state_ids w1 - {s} \<subseteq> state_ids w2"
      using after_parse_ok [OF w1(2) _ r, of s] Cons.prems(4) w1(3) by auto
    have fr: "dframe w w2" using w1(1) a(2) dframe_trans by blast
    have "set ss \<subseteq> state_ids w2" using Cons.prems(3,4) w1(3) a(4) by auto
    then obtain ab w' where "deliver_loop pc ss data w2 = Some (ab, w')" "dframe w2 w'" "states_ok w'"
      using Cons.IH [OF Cons.prems(1) a(3)] Cons.prems(3) by auto
    then show ?thesis using a fr dframe_trans sink_error_frame by (cases ex) fastforce+
  qed
  have set_ok: "dframe w (set_state s (\<lambda>p. p\<lparr>ps_data := d, ps_resume := r\<rparr>) w') \<and> states_ok (set_state s (\<lambda>p. p\<lparr>ps_data := d, ps_resume := r\<rparr>) w') \<and>
      state_ids (set_state s (\<lambda>p. p\<lparr>ps_data := d, ps_resume := r\<rparr>) w') = state_ids w"
    if "dframe w w'" "states_ok w'" "state_ids w' = state_ids w" for d r w'
    using that dframe_trans [OF that(1) set_state_frame] set_state_ok [of "\<lambda>p. p\<lparr>ps_data := d, ps_resume := r\<rparr>" w' s] set_state_ids by auto
  have set_ok': "dframe w (set_state s (\<lambda>p. p\<lparr>ps_data := d\<rparr>) w) \<and> states_ok (set_state s (\<lambda>p. p\<lparr>ps_data := d\<rparr>) w) \<and>
      state_ids (set_state s (\<lambda>p. p\<lparr>ps_data := d\<rparr>) w) = state_ids w" for d
    using set_state_frame set_state_ok [of "\<lambda>p. p\<lparr>ps_data := d\<rparr>" w s] set_state_ids Cons.prems(2) by auto
  have lg: "dframe w (log_event e w') \<and> states_ok (log_event e w') \<and> state_ids (log_event e w') = state_ids w"
    if "dframe w w' \<and> states_ok w' \<and> state_ids w' = state_ids w" "delivered [e] = []" for e w'
    using that log_event_frame [OF that(2)] dframe_trans by blast
  show ?case
  proof (cases "ps_data p")
    case None
    let ?d = "if hb_frozen data then hb_freeze (hb_copy data) else hb_copy data"
    from step [of "log_event (ParseCall (ps_pobj p) ?d) (set_state s (\<lambda>p. p\<lparr>ps_data := Some ?d\<rparr>) w)" "pc_parse pc (ps_pobj p) ?d"]
    show ?thesis using p None lg [OF set_ok'] Cons.prems(1) by (subst deliver_loop.simps) (simp add: Let_def quiet_code_def)
  next
    case (Some d0)
    show ?thesis
    proof (cases "ps_resume p")
      case None
      then show ?thesis using p Some Cons.IH [OF Cons.prems(1,2)] Cons.prems(3,4) by (subst deliver_loop.simps) simp
    next
      case (Some r)
      obtain e0 d1 where ap: "hb_append d0 data = (e0, d1)" by (cases "hb_append d0 data")
      let ?d = "if hb_frozen data then hb_freeze d1 else d1"
      let ?w1 = "case e0 of None \<Rightarrow> w | Some e \<Rightarrow> sink_error e w"
      have w1: "dframe w ?w1" "states_ok ?w1" "state_ids ?w1 = state_ids w"
        using sink_error_frame Cons.prems(2) by (auto split: option.splits)
      from step [of "log_event (ResumeCall (ps_pobj p) ?d) (set_state s (\<lambda>p. p\<lparr>ps_data := Some ?d, ps_resume := None\<rparr>) ?w1)"
          "pc_resume pc r ?d"]
      show ?thesis using p Some \<open>ps_data p = Some d0\<close> lg [OF set_ok [OF w1]] Cons.prems(1) ap
        by (subst deliver_loop.simps) (simp add: Let_def quiet_code_def)
    qed
  qed
qed (subst deliver_loop.simps, auto intro: exI [of _ False])

lemma deliver_data_ok:
  assumes "quiet_code pc" "states_ok w" "sk_filter (sw_sink w) = None"
  shows "\<exists>w'. deliver_data pc dec d w = Some w' \<and> dframe w w' \<and> states_ok w'"
proof -
  let ?w2 = "upd_sink (\<lambda>k. k\<lparr>sk_size := add64 (sk_size k) (hb_len d)\<rparr>) w"
  have w2: "dframe w ?w2" "states_ok ?w2" using assms(2) by (simp_all add: dframe_def unparsed_def states_ok_def)
  have "distinct (map fst (sk_states (sw_sink w)))" using assms(2) by (simp add: states_ok_def)
  then obtain ab w' where l: "deliver_loop pc (map fst (sk_states (sw_sink w))) d ?w2 = Some (ab, w')" "dframe ?w2 w'" "states_ok w'"
    using deliver_loop_ok [OF assms(1) w2(2), of "map fst (sk_states (sw_sink w))" d] by (auto simp: state_ids_def)
  have "List.find (\<lambda>x. ps_disconnected (snd x)) (sk_states (sw_sink w')) = None"
    using l(3) by (auto simp: states_ok_def find_None_iff)
  then have "finish_disconnected pc w' = Some w'" by (subst finish_disconnected.simps) simp
  then have "deliver_parsers pc d ?w2 = Some w'" using l(1) by (simp add: deliver_parsers_def)
  moreover have "filter_decode dec None d w = Some (Some d, w)" by (subst filter_decode.simps) simp
  ultimately show ?thesis
    using assms(3) l(2,3) w2 dframe_trans [OF w2(1) l(2)] by (simp add: deliver_data_def Let_def)
qed

section \<open>What the parsers receive\<close>

text \<open>
  Parser code that neither disconnects parsers nor fails, and parser code that always asks for more.
\<close>

definition calm_code :: "parser_code \<Rightarrow> bool" where
  "calm_code pc \<longleftrightarrow> quiet_code pc \<and> (\<forall>x d e. fst (pc_parse pc x d) \<noteq> PError e \<and> fst (pc_resume pc x d) \<noteq> PError e)"

definition yielding_code :: "parser_code \<Rightarrow> bool" where
  "yielding_code pc \<longleftrightarrow> (\<forall>x d. (\<exists>t. fst (pc_parse pc x d) = PYield t) \<and> (\<exists>t. fst (pc_resume pc x d) = PYield t))"

text \<open>
  \<open>given D p\<close>: the data object of a parser holds the bytes \<open>D\<close> and it waits for more; \<open>None\<close> stands for
  a parser that has not been called yet. \<open>fed D es p\<close>: the parser was last called with the bytes \<open>D\<close>.
\<close>

definition given :: "byte list option \<Rightarrow> parser_state \<Rightarrow> bool" where
  "given D p \<longleftrightarrow> (case D of None \<Rightarrow> ps_data p = None | Some b \<Rightarrow> ps_data p = Some (hb_new b) \<and> ps_resume p \<noteq> None)"

definition fed :: "byte list option \<Rightarrow> sink_event list \<Rightarrow> parser_state \<Rightarrow> bool" where
  "fed D es p \<longleftrightarrow> given D p \<and> last_input (ps_pobj p) es = D"

definition parser_ids :: "sink_world \<Rightarrow> (addr \<times> nat) list" where
  "parser_ids w = map (\<lambda>(a, p). (a, ps_pobj p)) (sk_states (sw_sink w))"

text \<open>The loop over the parsers: those still to come have seen \<open>D\<close>, the others \<open>D'\<close>.\<close>

definition loop_inv :: "byte list option \<Rightarrow> byte list \<Rightarrow> addr list \<Rightarrow> sink_world \<Rightarrow> bool" where
  "loop_inv D D' todo w \<longleftrightarrow> sw_excpt w = None \<and> (\<forall>(a, p) \<in> set (sk_states (sw_sink w)).
     if a \<in> set todo then given D p else fed (Some D') (sw_events w) p)"

lemma feed_step:
  assumes st: "states_ok w" "s \<in> state_ids w" "s \<notin> set ss" and inv: "loop_inv D D' (s # ss) w"
    and p: "get_state s w = Some p" and e: "parser_calls [e] = [(ps_pobj p, hb_new D')]"
    and g: "\<And>q. ps_data (g q) = Some (hb_new D') \<and> ps_pobj (g q) = ps_pobj q"
    and r: "snd r = []" "\<And>x. fst r \<noteq> PError x"
  shows "\<exists>w2. after_parse s r (log_event e (set_state s g w)) = Some (None, w2) \<and> loop_inv D D' ss w2 \<and>
    ((\<exists>t. fst r = PYield t) \<longrightarrow> parser_ids w2 = parser_ids w)"
proof -
  let ?w1 = "log_event e (set_state s g w)"
  have li: "last_input x (sw_events ?w1) = (if x = ps_pobj p then Some D' else last_input x (sw_events w))" for x
    using last_input_snoc [OF e, of x "sw_events w"] by (simp add: log_event_def set_state_def hb_new_def)
  have me: "q = p" if "(s, q) \<in> set (sk_states (sw_sink w))" for q
    using that st(1) p by (auto simp: states_ok_def get_state_def)
  have others: "if a \<in> set ss then given D q else fed (Some D') (sw_events ?w1) q"
    if "(a, q) \<in> set (sk_states (sw_sink w))" "a \<noteq> s" for a q
    using inv that li by (fastforce simp: loop_inv_def fed_def)
  have ex: "sw_excpt ?w1 = None" using inv by (simp add: loop_inv_def log_event_def set_state_def)
  show ?thesis
  proof (cases "\<exists>t. fst r = PYield t")
    case True
    then obtain t where t: "fst r = PYield t" by blast
    let ?w2 = "set_state s (\<lambda>p. p\<lparr>ps_resume := Some t\<rparr>) ?w1"
    have states: "sk_states (sw_sink ?w2) = map (\<lambda>(a, q). (a, if a = s then (g q)\<lparr>ps_resume := Some t\<rparr> else q)) (sk_states (sw_sink w))"
      unfolding set_state_states by (auto simp: log_event_def set_state_def)
    have ev: "sw_events ?w2 = sw_events ?w1" "sw_excpt ?w2 = None" using ex by (simp_all add: set_state_def)
    have "fed (Some D') (sw_events ?w1) ((g p)\<lparr>ps_resume := Some t\<rparr>)"
      using g [of p] li by (simp add: fed_def given_def)
    then have "loop_inv D D' ss ?w2"
      unfolding loop_inv_def states ev using others me st(3) by (fastforce split: if_splits)
    moreover have "parser_ids ?w2 = parser_ids w" using g unfolding parser_ids_def states by auto
    moreover have "after_parse s r ?w1 = Some (None, ?w2)" using t r(1) by (simp add: after_parse_def)
    ultimately show ?thesis by blast
  next
    case False
    let ?w2 = "upd_sink (\<lambda>k. k\<lparr>sk_states := filter (\<lambda>x. fst x \<noteq> s) (sk_states k)\<rparr>) ?w1"
    have "s \<in> state_ids ?w1" using st(2) set_state_ids by (simp add: log_event_def state_ids_def)
    then have "unlink_state s ?w1 = Some ?w2" by (simp add: unlink_state_def state_ids_def)
    then have "after_parse s r ?w1 = Some (None, ?w2)"
      using r False by (cases "fst r") (auto simp: after_parse_def Let_def)
    moreover have "loop_inv D D' ss ?w2"
    proof -
      have ev: "sw_events ?w2 = sw_events ?w1" "sw_excpt ?w2 = None" using ex by simp_all
      have "(a, q) \<in> set (sk_states (sw_sink w)) \<and> a \<noteq> s" if "(a, q) \<in> set (sk_states (sw_sink ?w2))" for a q
        using that by (auto simp: log_event_def set_state_def split: if_splits)
      then show ?thesis unfolding loop_inv_def ev using others by blast
    qed
    ultimately show ?thesis using False by blast
  qed
qed

lemma deliver_loop_feeds:
  assumes "calm_code pc" "states_ok w" "distinct ss" "set ss \<subseteq> state_ids w" "\<not> hb_frozen data" "loop_inv D D' ss w"
    "D' = (case D of None \<Rightarrow> [] | Some b \<Rightarrow> b) @ hb_data data"
  shows "\<exists>w'. deliver_loop pc ss data w = Some (False, w') \<and> loop_inv D D' [] w' \<and>
    (yielding_code pc \<longrightarrow> parser_ids w' = parser_ids w)"
  using assms
proof (induction ss arbitrary: w)
  case Nil
  then show ?case by (subst deliver_loop.simps) simp
next
  case (Cons s ss)
  have s: "s \<in> state_ids w" "s \<notin> set ss" using Cons.prems by auto
  obtain p where p: "get_state s w = Some p" "\<not> ps_disconnected p" using get_state_ok [OF Cons.prems(2) s(1)] by blast
  then have "(s, p) \<in> set (sk_states (sw_sink w))" by (simp add: get_state_def map_of_SomeD)
  then have gv: "given D p" using Cons.prems(6) by (fastforce simp: loop_inv_def)
  have step: "\<exists>w'. (do { (ex, w2) \<leftarrow> after_parse s r (log_event e (set_state s g w));
        (case ex of None \<Rightarrow> deliver_loop pc ss data w2 | Some e \<Rightarrow> Some (True, sink_error e w2)) }) = Some (False, w') \<and>
      loop_inv D D' [] w' \<and> (yielding_code pc \<longrightarrow> parser_ids w' = parser_ids w)"
    if e: "parser_calls [e] = [(ps_pobj p, hb_new D')]" "delivered [e] = []"
      and g: "\<And>q. ps_data (g q) = Some (hb_new D') \<and> ps_pobj (g q) = ps_pobj q \<and> ps_disconnected (g q) = ps_disconnected q"
      and r: "snd r = []" "\<And>x. fst r \<noteq> PError x" "yielding_code pc \<Longrightarrow> \<exists>t. fst r = PYield t" for e g r
  proof -
    let ?w1 = "log_event e (set_state s g w)"
    obtain w2 where w2: "after_parse s r ?w1 = Some (None, w2)" "loop_inv D D' ss w2"
      "yielding_code pc \<longrightarrow> parser_ids w2 = parser_ids w"
      using feed_step [OF Cons.prems(2) s Cons.prems(6) p(1) e(1) _ r(1,2), of g] g r(3) by blast
    have ok1: "states_ok ?w1" "state_ids ?w1 = state_ids w"
      using set_state_ok [of g w s] g Cons.prems(2) log_event_frame [OF e(2)] set_state_ids by simp_all
    have "states_ok w2" "state_ids ?w1 - {s} \<subseteq> state_ids w2"
      using after_parse_ok [OF ok1(1) _ r(1), of s] ok1(2) s(1) w2(1) by auto
    moreover from this have "set ss \<subseteq> state_ids w2" using Cons.prems(4) s(2) ok1(2) by auto
    ultimately show ?thesis using Cons.IH [OF Cons.prems(1) _ _ _ Cons.prems(5) w2(2) Cons.prems(7)] Cons.prems(3) w2 by auto
  qed
  show ?case
  proof (cases D)
    case None
    then have d: "ps_data p = None" "hb_copy data = hb_new D'" using gv Cons.prems(7) by (simp_all add: given_def hb_copy_def)
    from step [of "ParseCall (ps_pobj p) (hb_new D')" "\<lambda>p. p\<lparr>ps_data := Some (hb_new D')\<rparr>" "pc_parse pc (ps_pobj p) (hb_new D')"]
    show ?thesis using p d Cons.prems(1,5)
      by (subst deliver_loop.simps) (simp add: calm_code_def quiet_code_def yielding_code_def Let_def)
  next
    case (Some b)
    then obtain t where d: "ps_data p = Some (hb_new b)" "ps_resume p = Some t" using gv by (auto simp: given_def)
    have "hb_append (hb_new b) data = (None, hb_new D')" using Some Cons.prems(7) by (simp add: hb_append_def hb_new_def)
    with step [of "ResumeCall (ps_pobj p) (hb_new D')" "\<lambda>p. p\<lparr>ps_data := Some (hb_new D'), ps_resume := None\<rparr>" "pc_resume pc t (hb_new D')"]
    show ?thesis using p d Cons.prems(1,5)
      by (subst deliver_loop.simps) (simp add: calm_code_def quiet_code_def yielding_code_def Let_def)
  qed
qed

text \<open>
  \<open>in_step w\<close>: no exception is pending, and every connected parser was last called with exactly the bytes
  that have been passed on so far. \<open>feeds pc w w'\<close>: this is kept from \<open>w\<close> to \<open>w'\<close> unless frozen data was passed
  on, and parsers that always ask for more stay connected.
\<close>

definition passed_on :: "sink_event list \<Rightarrow> byte list" where
  "passed_on es = concat (map (hb_data \<circ> snd) (delivered es))"

definition input_so_far :: "sink_event list \<Rightarrow> byte list option" where
  "input_so_far es = (if delivered es = [] then None else Some (passed_on es))"

definition in_step :: "sink_world \<Rightarrow> bool" where
  "in_step w \<longleftrightarrow> sw_excpt w = None \<and> (\<forall>(a, p) \<in> set (sk_states (sw_sink w)). fed (input_so_far (sw_events w)) (sw_events w) p)"

definition unfrozen :: "sink_event list \<Rightarrow> bool" where
  "unfrozen es \<longleftrightarrow> (\<forall>(r, d) \<in> set (delivered es). \<not> hb_frozen d)"

definition feeds :: "parser_code \<Rightarrow> sink_world \<Rightarrow> sink_world \<Rightarrow> bool" where
  "feeds pc w w' \<longleftrightarrow> (calm_code pc \<and> unfrozen (sw_events w') \<and> in_step w \<longrightarrow> in_step w') \<and>
     (unfrozen (sw_events w') \<longrightarrow> unfrozen (sw_events w)) \<and>
     (calm_code pc \<and> yielding_code pc \<and> unfrozen (sw_events w') \<and> in_step w \<longrightarrow> parser_ids w' = parser_ids w)"

lemma feeds_refl [simp]: "feeds pc w w"
  by (simp add: feeds_def)

lemma feeds_trans: "feeds pc w w1 \<Longrightarrow> feeds pc w1 w2 \<Longrightarrow> feeds pc w w2"
  unfolding feeds_def by metis

lemma feeds_same:
  assumes "sk_states (sw_sink w') = sk_states (sw_sink w)" "sw_excpt w' = sw_excpt w"
    "delivered (sw_events w') = delivered (sw_events w)" "parser_calls (sw_events w') = parser_calls (sw_events w)"
  shows "feeds pc w w'"
  using assms last_input_cong [OF assms(4)]
  by (simp add: feeds_def in_step_def fed_def input_so_far_def passed_on_def unfrozen_def parser_ids_def)

lemma bframe_feeds: "bframe w w' \<Longrightarrow> feeds pc w w'"
  by (rule feeds_same) (auto simp: bframe_def dest: unbuffered_eq)

lemma deliver_data_feeds:
  assumes "quiet_code pc" "states_ok w" "sk_filter (sw_sink w) = None" "deliver_data pc dec d (log_event (Delivering rs d) w) = Some w'"
    "delivered (sw_events w') = delivered (sw_events w) @ [(rs, d)]"
  shows "feeds pc w w'"
proof -
  let ?w0 = "log_event (Delivering rs d) w"
  let ?w2 = "upd_sink (\<lambda>k. k\<lparr>sk_size := add64 (sk_size k) (hb_len d)\<rparr>) ?w0"
  let ?D = "input_so_far (sw_events w)" and ?D' = "passed_on (sw_events w @ [Delivering rs d])"
  have fd: "filter_decode dec None d ?w0 = Some (Some d, ?w0)" by (subst filter_decode.simps) simp
  have uf: "unfrozen (sw_events w') \<longleftrightarrow> unfrozen (sw_events w) \<and> \<not> hb_frozen d" using assms(5) by (auto simp: unfrozen_def)
  have so_far: "input_so_far (sw_events w') = Some ?D'" using assms(5) by (simp add: input_so_far_def passed_on_def)
  have D': "?D' = (case ?D of None \<Rightarrow> [] | Some b \<Rightarrow> b) @ hb_data d" by (simp add: input_so_far_def passed_on_def)
  have main: "in_step w' \<and> (yielding_code pc \<longrightarrow> parser_ids w' = parser_ids w)"
    if pc: "calm_code pc" and un: "unfrozen (sw_events w')" and i: "in_step w"
  proof (cases "sk_states (sw_sink w) = []")
    case True
    then have "w' = ?w2" using assms(3,4) fd by (simp add: deliver_data_def log_event_def Let_def)
    then show ?thesis using True i by (simp add: in_step_def parser_ids_def log_event_def)
  next
    case False
    have ok: "states_ok ?w2" using assms(2) by (simp add: states_ok_def log_event_def)
    have "loop_inv ?D ?D' (map fst (sk_states (sw_sink w))) ?w2"
      using i by (force simp: loop_inv_def in_step_def fed_def log_event_def)
    moreover have "distinct (map fst (sk_states (sw_sink w)))" using assms(2) by (simp add: states_ok_def)
    moreover have "set (map fst (sk_states (sw_sink w))) \<subseteq> state_ids ?w2" by (simp add: state_ids_def log_event_def)
    ultimately obtain w1 where w1: "deliver_loop pc (map fst (sk_states (sw_sink w))) d ?w2 = Some (False, w1)"
      "loop_inv ?D ?D' [] w1" "yielding_code pc \<longrightarrow> parser_ids w1 = parser_ids ?w2"
      using deliver_loop_feeds [OF pc ok _ _ _ _ D'] un uf by blast
    have "w' = w1"
    proof -
      obtain ab w1' where l: "deliver_loop pc (map fst (sk_states (sw_sink w))) d ?w2 = Some (ab, w1')" "states_ok w1'"
        using deliver_loop_ok [OF assms(1) ok, of "map fst (sk_states (sw_sink w))" d] assms(2)
        by (auto simp: state_ids_def states_ok_def log_event_def)
      then have "List.find (\<lambda>x. ps_disconnected (snd x)) (sk_states (sw_sink w1)) = None"
        using w1(1) by (auto simp: states_ok_def find_None_iff)
      then have "finish_disconnected pc w1 = Some w1" by (subst finish_disconnected.simps) simp
      then show ?thesis using assms(3,4) fd w1(1) False i
        by (simp add: deliver_data_def deliver_parsers_def Let_def log_event_def in_step_def)
    qed
    then show ?thesis
      using w1(2,3) so_far by (auto simp: loop_inv_def in_step_def parser_ids_def log_event_def)
  qed
  then show ?thesis using uf unfolding feeds_def by blast
qed

section \<open>Reassembly\<close>

lemma sink_trim_ok:
  assumes b: "buf w ps cs"
  shows "\<exists>w'. trim r w = Some w' \<and>
     buf w' (drop (length (takeWhile (\<lambda>c. c_rupper c \<le> r) cs)) ps) (dropWhile (\<lambda>c. c_rupper c \<le> r) cs) \<and>
     bframe (upd_sink (\<lambda>k. k\<lparr>sk_trim_rseq := r\<rparr>) w) w'"
proof -
  obtain w1 where w1: "trim_loop (sk_first_chunk (sw_sink w)) r w = Some w1"
    "buf w1 (drop (length (takeWhile (\<lambda>c. c_rupper c \<le> r) cs)) ps) (dropWhile (\<lambda>c. c_rupper c \<le> r) cs)" "bframe w w1"
    using trim_loop_ok [OF b, of r] unfolding buf_first [OF b] by blast
  let ?w' = "upd_sink (\<lambda>k. k\<lparr>sk_trim_rseq := r\<rparr>) w1"
  have "unbuffered (sw_sink ?w') = unbuffered ((sw_sink w)\<lparr>sk_trim_rseq := r\<rparr>)"
    using w1(3) by (cases "sw_sink w"; cases "sw_sink w1") (simp add: bframe_def unbuffered_def)
  then have "bframe (upd_sink (\<lambda>k. k\<lparr>sk_trim_rseq := r\<rparr>) w) ?w'" using w1(3) by (simp add: bframe_def)
  moreover have "buf ?w' (drop (length (takeWhile (\<lambda>c. c_rupper c \<le> r) cs)) ps) (dropWhile (\<lambda>c. c_rupper c \<le> r) cs)"
    using w1(2) by (simp add: buf_def)
  ultimately show ?thesis using w1(1) by (simp add: trim_def)
qed

text \<open>
  \<open>ready pc w n\<close>: the sink is in its normal mode of operation: everything up to \<open>n\<close> has been
  delivered and trimmed, no filter is attached, and no parser is disconnected.
\<close>

definition ready :: "sink_world \<Rightarrow> nat \<Rightarrow> bool" where
  "ready w n \<longleftrightarrow> states_ok w \<and> sk_filter (sw_sink w) = None \<and> sk_auto_trim (sw_sink w) \<and>
     sk_cur_rseq (sw_sink w) = n \<and> sk_last_reassem_rseq (sw_sink w) = n \<and> sk_trim_rseq (sw_sink w) = n"

definition mode_ok :: "sink_world \<Rightarrow> bool" where
  "mode_ok w \<longleftrightarrow> states_ok w \<and> sk_filter (sw_sink w) = None \<and> sk_auto_trim (sw_sink w)"

lemma deliver_chunk_ok:
  assumes pc: "quiet_code pc" and m: "mode_ok w" and b: "buf w ps cs"
  shows "\<exists>w'. deliver_chunk pc dec (Some d) rs ru w = Some (True, w') \<and> ready w' ru \<and>
     buf w' (drop (length (takeWhile (\<lambda>c. c_rupper c \<le> ru) cs)) ps) (dropWhile (\<lambda>c. c_rupper c \<le> ru) cs) \<and>
     delivered (sw_events w') = delivered (sw_events w) @ [(rs, d)] \<and>
     sk_initial_seq (sw_sink w') = sk_initial_seq (sw_sink w) \<and> feeds pc w w'"
proof -
  let ?w0 = "log_event (Delivering rs d) w"
  have w0: "states_ok ?w0" "sk_filter (sw_sink ?w0) = None"
    using m by (simp_all add: mode_ok_def log_event_def states_ok_def)
  from deliver_data_ok [OF pc w0] obtain w1 where w1: "deliver_data pc dec d ?w0 = Some w1" "dframe ?w0 w1" "states_ok w1" by blast
  let ?w2 = "upd_sink (\<lambda>k. k\<lparr>sk_cur_rseq := ru, sk_last_reassem_rseq := ru\<rparr>) w1"
  note e = unparsed_eq [of "sw_sink w1" "sw_sink w"]
  have f: "sk_auto_trim (sw_sink w1)" "sk_filter (sw_sink w1) = None" "sk_initial_seq (sw_sink w1) = sk_initial_seq (sw_sink w)"
    "chunk_hdr w1 = chunk_hdr w" "sw_chunks w1 = sw_chunks w" "sw_next w1 = sw_next w"
    "delivered (sw_events w1) = delivered (sw_events w) @ [(rs, d)]"
    using w1(2) m e by (auto simp: dframe_def mode_ok_def log_event_def)
  have "buf ?w2 ps cs" using b f(4-6) by (simp add: buf_def)
  from sink_trim_ok [OF this, of ru] obtain w' where w': "trim ru ?w2 = Some w'"
    "buf w' (drop (length (takeWhile (\<lambda>c. c_rupper c \<le> ru) cs)) ps) (dropWhile (\<lambda>c. c_rupper c \<le> ru) cs)"
    "bframe (upd_sink (\<lambda>k. k\<lparr>sk_trim_rseq := ru\<rparr>) ?w2) w'" by blast
  have "unbuffered (sw_sink w') = unbuffered ((sw_sink w1)\<lparr>sk_cur_rseq := ru, sk_last_reassem_rseq := ru, sk_trim_rseq := ru\<rparr>)"
    and dv: "delivered (sw_events w') = delivered (sw_events w1)"
    using w'(3) by (simp_all add: bframe_def)
  note g = unbuffered_eq [OF this(1)]
  have "ready w' ru" using g f w1(3) by (simp add: ready_def states_ok_def)
  moreover have "deliver_chunk pc dec (Some d) rs ru w = Some (True, w')"
    using w1(1) w'(1) f(1) by (simp add: deliver_chunk_def)
  moreover have "feeds pc w w1"
    using deliver_data_feeds [OF pc _ _ w1(1) f(7)] m by (simp add: mode_ok_def)
  then have "feeds pc w w'"
    using feeds_trans [OF feeds_trans [of pc w w1] bframe_feeds [OF w'(3)]] feeds_same [of "upd_sink (\<lambda>k. k\<lparr>sk_trim_rseq := ru\<rparr>) ?w2" w1] by simp
  ultimately show ?thesis using w'(2) dv f(3,7) g by auto
qed

text \<open>The chunks that follow on from \<open>n\<close> without a hole, and where they end.\<close>

fun run_chunks :: "nat \<Rightarrow> chunk list \<Rightarrow> chunk list" where
  "run_chunks n [] = []"
| "run_chunks n (c # cs) = (if c_rseq c = n then c # run_chunks (c_rupper c) cs else [])"

fun run_rest :: "nat \<Rightarrow> chunk list \<Rightarrow> chunk list" where
  "run_rest n [] = []"
| "run_rest n (c # cs) = (if c_rseq c = n then run_rest (c_rupper c) cs else c # cs)"

fun run_end :: "nat \<Rightarrow> chunk list \<Rightarrow> nat" where
  "run_end n [] = n"
| "run_end n (c # cs) = (if c_rseq c = n then run_end (c_rupper c) cs else n)"

definition payload :: "chunk \<Rightarrow> nat \<times> hbytes" where
  "payload c = (c_rseq c, the (c_data c))"

lemma try_deliver_ok:
  assumes "quiet_code pc" "ready w n" "buf w ps cs" "chunks_fine cs" "\<forall>c \<in> set cs. n \<le> c_rseq c"
  shows "\<exists>w' ps'. try_deliver pc dec (case ps of [] \<Rightarrow> None | p # _ \<Rightarrow> Some p) w = Some w' \<and>
    ready w' (run_end n cs) \<and> buf w' ps' (run_rest n cs) \<and>
    delivered (sw_events w') = delivered (sw_events w) @ map payload (run_chunks n cs) \<and>
    sk_initial_seq (sw_sink w') = sk_initial_seq (sw_sink w) \<and> feeds pc w w'"
  using assms
proof (induction cs arbitrary: w n ps)
  case Nil
  then have "ps = []" using buf_length by fastforce
  then show ?case using Nil by (subst try_deliver.simps) auto
next
  case (Cons c cs)
  then obtain p qs where ps: "ps = p # qs" using buf_length [of w ps "c # cs"] by (cases ps) auto
  have b: "buf w ([] @ p # qs) ([] @ c # cs)" using Cons.prems(3) ps by simp
  obtain m where m: "sw_chunks w p = Some m" "dn_val m = c" "dn_next m = (case qs of [] \<Rightarrow> None | y # _ \<Rightarrow> Some y)"
    using buf_lookup [OF b] by auto
  have last: "sk_last_reassem_rseq (sw_sink w) = n" using Cons.prems(2) by (simp add: ready_def)
  show ?case
  proof (cases "c_rseq c = n")
    case False
    then have "n < c_rseq c" using Cons.prems(5) by simp
    then have "try_deliver pc dec (Some p) w = Some w" using m last by (subst try_deliver.simps) simp
    then show ?thesis using False Cons.prems ps by auto
  next
    case True
    obtain d where d: "c_data c = Some d" using Cons.prems(4) by (auto simp: chunks_fine_Cons chunk_fine_def)
    define w1 where "w1 = upd_sink (\<lambda>k. k\<lparr>sk_last_reassem_rseq :=
                       add64 (sk_last_reassem_rseq k) (sub64 (c_rupper c) (c_rseq c))\<rparr>) w"
    have "mode_ok w1" "buf w1 ps (c # cs)"
      using Cons.prems(2,3) by (auto simp: w1_def ready_def mode_ok_def states_ok_def buf_def)
    from deliver_chunk_ok [OF Cons.prems(1) this, of dec d "c_rseq c" "c_rupper c"]
    obtain w2 where w2: "deliver_chunk pc dec (Some d) (c_rseq c) (c_rupper c) w1 = Some (True, w2)" "ready w2 (c_rupper c)"
      "buf w2 (drop (length (takeWhile (\<lambda>x. c_rupper x \<le> c_rupper c) (c # cs))) ps) (dropWhile (\<lambda>x. c_rupper x \<le> c_rupper c) (c # cs))"
      "delivered (sw_events w2) = delivered (sw_events w1) @ [(c_rseq c, d)]" "sk_initial_seq (sw_sink w2) = sk_initial_seq (sw_sink w1)"
      "feeds pc w1 w2" by blast
    have later: "\<forall>x \<in> set cs. c_rupper c \<le> c_rseq x \<and> c_rseq x < c_rupper x" "chunks_fine cs"
      using Cons.prems(4) by (auto simp: chunks_fine_Cons chunks_fine_def chunk_fine_def)
    then have "takeWhile (\<lambda>x. c_rupper x \<le> c_rupper c) cs = [] \<and> dropWhile (\<lambda>x. c_rupper x \<le> c_rupper c) cs = cs"
      by (cases cs) fastforce+
    then have b2: "buf w2 qs cs" using w2(3) ps by simp
    from Cons.IH [OF Cons.prems(1) w2(2) b2 later(2)] later(1) obtain w' ps' where ih:
      "try_deliver pc dec (case qs of [] \<Rightarrow> None | p # _ \<Rightarrow> Some p) w2 = Some w'" "ready w' (run_end (c_rupper c) cs)"
      "buf w' ps' (run_rest (c_rupper c) cs)" "delivered (sw_events w') = delivered (sw_events w2) @ map payload (run_chunks (c_rupper c) cs)"
      "sk_initial_seq (sw_sink w') = sk_initial_seq (sw_sink w2)" "feeds pc w2 w'" by auto
    have "feeds pc w w1" by (rule feeds_same) (simp_all add: w1_def)
    then have fd: "feeds pc w w'" using w2(6) ih(6) feeds_trans by blast
    have "try_deliver pc dec (Some p) w = Some w'"
      using m(1,3) last True ih(1) w2(1) d unfolding w1_def m(2) [symmetric] by (subst try_deliver.simps) (simp add: Let_def)
    then show ?thesis
      using True ih(2-5) w2(4,5) fd d ps by (intro exI [of _ w'] exI [of _ ps']) (simp add: w1_def payload_def)
  qed
qed

section \<open>The stream that the parsers see\<close>

text \<open>
  The bytes passed on to the parsers, and the bytes of a stream \<open>S\<close> (a function from positions to
  bytes) in a range. \<open>sink_inv S w n cs\<close>: the sink has passed on exactly the first \<open>n\<close> bytes of \<open>S\<close>,
  its buffer holds the chunks \<open>cs\<close>, which lie behind \<open>n\<close> and carry bytes of \<open>S\<close>, and the byte at
  \<open>n\<close> itself is not known.
\<close>

definition range_of :: "(nat \<Rightarrow> byte) \<Rightarrow> nat \<Rightarrow> nat \<Rightarrow> byte list" where
  "range_of S i j = map S [i..<j]"

definition agrees :: "(nat \<Rightarrow> byte) \<Rightarrow> chunk list \<Rightarrow> bool" where
  "agrees S cs \<longleftrightarrow> (\<forall>s b. buf_map cs s = Some b \<longrightarrow> b = S s)"

definition sink_inv :: "(nat \<Rightarrow> byte) \<Rightarrow> sink_world \<Rightarrow> nat \<Rightarrow> chunk list \<Rightarrow> bool" where
  "sink_inv S w n cs \<longleftrightarrow> ready w n \<and> n < seq_bound \<and> (\<exists>ps. buf w ps cs) \<and> chunks_fine cs \<and> (\<forall>c \<in> set cs. n < c_rseq c) \<and>
     agrees S cs \<and> passed_on (sw_events w) = range_of S 0 n"

lemma range_of_simps [simp]: "length (range_of S i j) = j - i" "range_of S i i = []"
  by (simp_all add: range_of_def)

lemma range_of_split: "i \<le> k \<Longrightarrow> k \<le> j \<Longrightarrow> range_of S i k @ range_of S k j = range_of S i j"
  unfolding range_of_def by (metis le_Suc_ex map_append upt_add_eq_append)

lemma range_of_nth: "k < j - i \<Longrightarrow> range_of S i j ! k = S (i + k)"
  by (simp add: range_of_def)

lemma range_of_drop: "drop k (range_of S i j) = range_of S (i + k) j"
  by (simp add: range_of_def drop_map)

lemma passed_on_append: "delivered es' = delivered es @ ds \<Longrightarrow> passed_on es' = passed_on es @ concat (map (hb_data \<circ> snd) ds)"
  by (simp add: passed_on_def)

lemma chunk_fine_map:
  assumes "chunk_fine c"
  shows "dom (chunk_map c) = {c_rseq c..<c_rupper c}"
  using assms by (auto simp: chunk_fine_def chunk_map_def dom_def)

lemma chunk_fine_data:
  assumes "chunk_fine c" "\<forall>s b. chunk_map c s = Some b \<longrightarrow> b = S s"
  shows "hb_data (the (c_data c)) = range_of S (c_rseq c) (c_rupper c)"
proof -
  from assms(1) obtain d where d: "c_data c = Some d" "hb_len d = c_rupper c - c_rseq c" "c_rseq c < c_rupper c"
    by (auto simp: chunk_fine_def)
  show ?thesis
  proof (rule nth_equalityI)
    show "length (hb_data (the (c_data c))) = length (range_of S (c_rseq c) (c_rupper c))" using d by (simp add: hb_len_def)
    show "hb_data (the (c_data c)) ! k = range_of S (c_rseq c) (c_rupper c) ! k" if "k < length (hb_data (the (c_data c)))" for k
      using assms(2) [rule_format, of "c_rseq c + k" "hb_data d ! k"] that d by (simp add: chunk_map_def hb_len_def range_of_nth)
  qed
qed

lemma dom_buf_map: "chunks_fine cs \<Longrightarrow> dom (buf_map cs) = (\<Union>c \<in> set cs. {c_rseq c..<c_rupper c})"
  by (induction cs) (auto simp: chunks_fine_Cons chunk_fine_map)

lemma agrees_Cons:
  assumes "chunks_fine (c # cs)"
  shows "agrees S (c # cs) \<longleftrightarrow> (\<forall>s b. chunk_map c s = Some b \<longrightarrow> b = S s) \<and> agrees S cs"
proof -
  from assms have f: "chunk_fine c" "chunks_fine cs" "\<forall>x \<in> set cs. c_rupper c \<le> c_rseq x" by (auto simp: chunks_fine_Cons)
  have "dom (chunk_map c) \<inter> dom (buf_map cs) = {}"
    unfolding chunk_fine_map [OF f(1)] dom_buf_map [OF f(2)] using f(3) by fastforce
  then have "buf_map cs s = Some b \<Longrightarrow> chunk_map c s = None" for s b by (auto simp: dom_def)
  then have "buf_map (c # cs) s = Some b \<longleftrightarrow> chunk_map c s = Some b \<or> buf_map cs s = Some b" for s b
    by (auto simp: map_add_Some_iff)
  then show ?thesis unfolding agrees_def by blast
qed

text \<open>The chunks delivered in one go carry the bytes between the old and the new position.\<close>

lemma run_facts:
  assumes "chunks_fine cs" "\<forall>c \<in> set cs. n \<le> c_rseq c" "agrees S cs"
  shows "n \<le> run_end n cs \<and> (run_end n cs = n \<or> run_end n cs < seq_bound) \<and> chunks_fine (run_rest n cs) \<and> (\<forall>c \<in> set (run_rest n cs). run_end n cs < c_rseq c) \<and>
    agrees S (run_rest n cs) \<and> concat (map (hb_data \<circ> snd) (map payload (run_chunks n cs))) = range_of S n (run_end n cs) \<and>
    dom (buf_map cs) = {n..<run_end n cs} \<union> dom (buf_map (run_rest n cs))"
  using assms
proof (induction cs arbitrary: n)
  case (Cons c cs)
  have c: "chunk_fine c" "chunks_fine cs" "\<forall>x \<in> set cs. c_rupper c \<le> c_rseq x" "c_rseq c < c_rupper c" "c_rupper c < seq_bound"
    using Cons.prems(1) by (auto simp: chunks_fine_Cons chunk_fine_def)
  have a: "agrees S cs" "\<forall>s b. chunk_map c s = Some b \<longrightarrow> b = S s" using Cons.prems(3) agrees_Cons [OF Cons.prems(1)] by auto
  show ?case
  proof (cases "c_rseq c = n")
    case True
    note ih = Cons.IH [OF c(2,3) a(1)]
    have "range_of S n (c_rupper c) @ range_of S (c_rupper c) (run_end (c_rupper c) cs) = range_of S n (run_end (c_rupper c) cs)"
      using ih c(4) True by (intro range_of_split) auto
    moreover have "hb_data (snd (payload c)) = range_of S n (c_rupper c)"
      using chunk_fine_data [OF c(1) a(2)] True by (simp add: payload_def)
    moreover have "dom (buf_map (c # cs)) = {n..<c_rupper c} \<union> dom (buf_map cs)"
      using chunk_fine_map [OF c(1)] True by auto
    moreover have "{n..<c_rupper c} \<union> {c_rupper c..<run_end (c_rupper c) cs} = {n..<run_end (c_rupper c) cs}"
      using ih c(4) True by auto
    ultimately show ?thesis using True ih c(4,5) by auto
  next
    case False
    then have "n < c_rseq c" using Cons.prems(2) by auto
    moreover have "n < c_rseq x" if "x \<in> set cs" for x using c(3,4) that calculation by fastforce
    ultimately show ?thesis using False Cons.prems by auto
  qed
qed simp

text \<open>Which positions are known: passed on, or in the buffer.\<close>

definition known :: "nat \<Rightarrow> chunk list \<Rightarrow> nat set" where
  "known n cs = {0..<n} \<union> dom (buf_map cs)"

lemma sink_inv_ready:
  assumes "sink_inv S w n cs"
  shows "sk_cur_rseq (sw_sink w) = n \<and> sk_last_reassem_rseq (sw_sink w) = n \<and> sk_trim_rseq (sw_sink w) = n"
  using assms by (simp add: sink_inv_def ready_def)

lemma s64_exact: "v < seq_bound \<Longrightarrow> s64 v = int v"
  by (simp add: s64_def)

lemma hb_suffix:
  assumes "hb_data d = range_of S rs ru" "k \<le> ru - rs"
  shows "hb_data (hb_sub d k (hb_len d)) = range_of S (rs + k) ru"
  using assms by (simp add: hb_sub_def hb_new_def hb_len_def range_of_drop)

lemma range_chunk_agrees:
  assumes "hb_data d = range_of S rs ru" "chunk_map (mk_chunk rs ru d) s = Some b"
  shows "b = S s"
  using assms by (auto simp: chunk_map_def mk_chunk_def range_of_nth split: if_splits)

lemma add_block_agrees:
  assumes "chunks_fine cs" "rs < ru" "ru < seq_bound" "hb_data d = range_of S rs ru" "agrees S cs"
  shows "agrees S (add_block rs ru d cs)"
    and "dom (buf_map (add_block rs ru d cs)) = {rs..<ru} \<union> dom (buf_map cs)"
proof -
  have l: "hb_len d = ru - rs" using assms(4) by (simp add: hb_len_def)
  note m = add_block_map [OF assms(1-3) l]
  show "agrees S (add_block rs ru d cs)"
    using assms(5) range_chunk_agrees [OF assms(4)] unfolding agrees_def m by (auto simp: map_add_Some_iff)
  have "chunk_fine (mk_chunk rs ru d)" using assms l by (simp add: chunk_fine_def mk_chunk_def)
  from chunk_fine_map [OF this] show "dom (buf_map (add_block rs ru d cs)) = {rs..<ru} \<union> dom (buf_map cs)"
    unfolding m by (simp add: mk_chunk_def Un_commute)
qed

text \<open>Nothing frozen has been passed on or is in the buffer.\<close>

definition plain :: "sink_world \<Rightarrow> chunk list \<Rightarrow> bool" where
  "plain w cs \<longleftrightarrow> unfrozen (sw_events w) \<and> (\<forall>c \<in> set cs. \<not> hb_frozen (the (c_data c)))"

lemma add_block_plain:
  assumes "\<not> hb_frozen d" "\<forall>c \<in> set cs. \<not> hb_frozen (the (c_data c))"
  shows "\<forall>c \<in> set (add_block rs ru d cs). \<not> hb_frozen (the (c_data c))"
  using assms by (induction rs ru d cs rule: add_block.induct)
    (auto simp: mk_chunk_def hb_sub_def hb_new_def Let_def split: if_splits)

lemma run_plain:
  assumes "\<forall>c \<in> set cs. \<not> hb_frozen (the (c_data c))"
  shows "(\<forall>(r, d) \<in> set (map payload (run_chunks n cs)). \<not> hb_frozen d) \<and> (\<forall>c \<in> set (run_rest n cs). \<not> hb_frozen (the (c_data c)))"
  using assms by (induction n cs rule: run_chunks.induct) (auto simp: payload_def)

lemma plain_cong:
  "delivered (sw_events w') = delivered (sw_events w) \<Longrightarrow> plain w' cs = plain w cs"
  by (simp add: plain_def unfrozen_def)

text \<open>A block that is next in line, with nothing buffered, is passed on at once.\<close>

lemma new_block_fast:
  assumes pc: "quiet_code pc" and inv: "sink_inv S w n []" and d: "hb_data d = range_of S n ru" "n < ru" "ru < seq_bound"
  shows "\<exists>w'. new_block pc dec (Some d) n (ru - n) w = Some w' \<and> sink_inv S w' ru [] \<and>
    sk_initial_seq (sw_sink w') = sk_initial_seq (sw_sink w) \<and> feeds pc w w' \<and> (\<not> hb_frozen d \<and> plain w [] \<longrightarrow> plain w' [])"
proof -
  have m: "mode_ok w" using inv by (simp add: sink_inv_def ready_def mode_ok_def)
  obtain ps where b: "buf w ps []" using inv by (auto simp: sink_inv_def)
  then have [simp]: "ps = []" using buf_length by fastforce
  from deliver_chunk_ok [OF pc m b, of dec d n ru] obtain w' where
    w': "deliver_chunk pc dec (Some d) n ru w = Some (True, w')" "ready w' ru" "buf w' [] []"
      "delivered (sw_events w') = delivered (sw_events w) @ [(n, d)]" "sk_initial_seq (sw_sink w') = sk_initial_seq (sw_sink w)"
      "feeds pc w w'" by auto
  have u: "add64 n (ru - n) = ru" using d by (simp add: add64_def)
  have "new_block pc dec (Some d) n (ru - n) w = Some w'"
    using d w'(1) sink_inv_ready [OF inv] buf_first [OF b] by (simp add: new_block_def u)
  moreover have "passed_on (sw_events w') = range_of S 0 ru"
    using passed_on_append [OF w'(4)] inv d by (simp add: sink_inv_def range_of_split)
  moreover have "\<not> hb_frozen d \<and> plain w [] \<longrightarrow> plain w' []" using w'(4) by (auto simp: plain_def unfrozen_def)
  ultimately show ?thesis using w'(2,3,5,6) d(3) by (intro exI [of _ w']) (auto simp: sink_inv_def agrees_def)
qed

text \<open>A block behind a hole, with nothing buffered, becomes the only chunk.\<close>

lemma first_chunk_ok:
  assumes b: "buf w [] []" and r: "add64 rs len = ru"
  shows "case sink_new_chunk (Some d) rs len w of (c, w1) \<Rightarrow>
    buf (upd_sink (\<lambda>k. k\<lparr>sk_first_chunk := Some c, sk_last_chunk := Some c\<rparr>) w1) [c] [mk_chunk rs ru d] \<and>
    bframe w (upd_sink (\<lambda>k. k\<lparr>sk_first_chunk := Some c, sk_last_chunk := Some c\<rparr>) w1) \<and>
    sw_chunks w1 c = Some \<lparr>dn_next = None, dn_prev = None, dn_val = mk_chunk rs ru d\<rparr>"
  using b unfolding sink_new_chunk_def r
  by (auto simp: buf_def dll_def mk_chunk_def bframe_def unbuffered_def less_Suc_eq split: if_splits)

lemma bframe_inv:
  assumes "sink_inv S w n cs" "bframe w w'" "buf w' ps cs'" "chunks_fine cs'" "\<forall>c \<in> set cs'. n < c_rseq c" "agrees S cs'"
  shows "sink_inv S w' n cs'" "sk_initial_seq (sw_sink w') = sk_initial_seq (sw_sink w)"
proof -
  from assms(2) have e: "unbuffered (sw_sink w') = unbuffered (sw_sink w)" "delivered (sw_events w') = delivered (sw_events w)"
    by (auto simp: bframe_def)
  note u = unbuffered_eq [OF e(1)]
  have "ready w' n" using assms(1) u by (simp add: sink_inv_def ready_def states_ok_def)
  then show "sink_inv S w' n cs'" using assms e(2) by (auto simp: sink_inv_def passed_on_def)
  show "sk_initial_seq (sw_sink w') = sk_initial_seq (sw_sink w)" using u by simp
qed

lemma new_block_hole:
  assumes inv: "sink_inv S w n []" and d: "hb_data d = range_of S rs ru" "n < rs" "rs < ru" "ru < seq_bound"
  shows "\<exists>w'. new_block pc dec (Some d) rs (ru - rs) w = Some w' \<and> sink_inv S w' n [mk_chunk rs ru d] \<and>
    sk_initial_seq (sw_sink w') = sk_initial_seq (sw_sink w) \<and> feeds pc w w' \<and>
    (\<not> hb_frozen d \<and> plain w [] \<longrightarrow> plain w' [mk_chunk rs ru d])"
proof -
  obtain ps where b: "buf w ps []" using inv by (auto simp: sink_inv_def)
  then have [simp]: "ps = []" using buf_length by fastforce
  have u: "add64 rs (ru - rs) = ru" using d by (simp add: add64_def)
  obtain c w1 where c: "sink_new_chunk (Some d) rs (ru - rs) w = (c, w1)" by fastforce
  define w' where "w' = upd_sink (\<lambda>k. k\<lparr>sk_first_chunk := Some c, sk_last_chunk := Some c\<rparr>) w1"
  have f: "buf w' [c] [mk_chunk rs ru d]" "bframe w w'"
    "sw_chunks w1 c = Some \<lparr>dn_next = None, dn_prev = None, dn_val = mk_chunk rs ru d\<rparr>"
    using first_chunk_ok [OF _ u, of w d] b c by (simp_all add: w'_def)
  have "chunks_fine [mk_chunk rs ru d]" "agrees S [mk_chunk rs ru d]"
    using d range_chunk_agrees [OF d(1)] by (auto simp: chunks_fine_def chunk_fine_def mk_chunk_def hb_len_def agrees_def)
  then have i: "sink_inv S w' n [mk_chunk rs ru d]" "sk_initial_seq (sw_sink w') = sk_initial_seq (sw_sink w)"
    using bframe_inv [OF inv f(2,1)] d by (simp_all add: mk_chunk_def)
  have "new_block pc dec (Some d) rs (ru - rs) w = Some w'"
    using d c f(3) sink_inv_ready [OF inv] sink_inv_ready [OF i(1)] buf_first [OF b]
    by (simp add: new_block_def u Let_def w'_def mk_chunk_def)
  moreover have "\<not> hb_frozen d \<and> plain w [] \<longrightarrow> plain w' [mk_chunk rs ru d]"
    using f(2) by (simp add: plain_def bframe_def unfrozen_def mk_chunk_def)
  ultimately show ?thesis using i bframe_feeds [OF f(2)] by blast
qed

text \<open>With chunks buffered, the block is merged; if it fills the hole at \<open>n\<close>, delivery starts there.\<close>

lemma front_chunk:
  assumes b: "buf w ps cs" and f: "chunks_fine cs" "\<forall>c \<in> set cs. n \<le> c_rseq c"
    and r: "r \<in> set ps" "sw_chunks w r = Some m" "c_rseq (dn_val m) = n"
  shows "(case ps of [] \<Rightarrow> None | p # _ \<Rightarrow> Some p) = Some r"
proof -
  obtain xs ys where ps: "ps = xs @ r # ys" using r(1) by (meson split_list)
  then have "length xs < length cs" using buf_length [OF b] by simp
  then obtain as c bs where cs: "cs = as @ c # bs" "length as = length xs" using id_take_nth_drop [of "length xs" cs] by fastforce
  then have c: "c_rseq c = n" using buf_lookup [of w xs r ys as c bs] b ps r(2,3) by auto
  have "as = []"
  proof (rule ccontr)
    assume "as \<noteq> []"
    then obtain e where "e \<in> set as" by fastforce
    then have "c_rupper e \<le> n" "n \<le> c_rseq e" "c_rseq e < c_rupper e"
      using f c unfolding cs(1) by (auto simp: chunks_fine_def chunk_fine_def sorted_wrt_append)
    then show False by simp
  qed
  then show ?thesis using ps cs(2) by simp
qed

lemma buf_member:
  assumes "buf w ps cs" "r \<in> set ps" "sw_chunks w r = Some m"
  shows "dn_val m \<in> set cs"
proof -
  have "Some (dn_val m) \<in> set (vals (sw_chunks w) ps)" using assms(2,3) by (force simp: vals_def)
  then show ?thesis using assms(1) by (auto simp: buf_def)
qed

lemma buffered_merge:
  assumes inv: "sink_inv S w n cs" and p: "sk_first_chunk (sw_sink w) = Some p"
    and d: "hb_data d = range_of S rs ru" "n \<le> rs" "rs < ru" "ru < seq_bound"
  shows "\<exists>r w1 ps m. add_and_check p rs ru (Some d) w = Some (Some r, w1) \<and> sw_chunks w1 r = Some m \<and> r \<in> set ps \<and>
    buf w1 ps (add_block rs ru d cs) \<and> bframe w w1 \<and> chunk_fine (dn_val m) \<and> (if rs = n then c_rseq (dn_val m) = n else n < c_rseq (dn_val m))"
proof -
  obtain ps where b: "buf w ps cs" and f: "chunks_fine cs" "\<forall>c \<in> set cs. n < c_rseq c" using inv by (auto simp: sink_inv_def)
  obtain vs where ps: "ps = p # vs" using buf_first [OF b] p by (auto split: list.splits)
  have l: "hb_len d = ru - rs" using d(1) by (simp add: hb_len_def)
  have "added w ([] @ p # vs) cs rs ru d (add_and_check p rs ru (Some d) w)"
    using b f ps d l by (intro add_and_check_ok) auto
  then obtain r w1 ps' m where a: "add_and_check p rs ru (Some d) w = Some (Some r, w1)" "buf w1 ps' (add_block rs ru d cs)"
      "bframe w w1" "r \<in> set ps'" "sw_chunks w1 r = Some m"
      "(\<forall>c \<in> set cs. \<not> (c_rseq c \<le> rs \<and> rs < c_rupper c)) \<longrightarrow> c_rseq (dn_val m) = rs"
    unfolding added_def by blast
  have mem: "dn_val m \<in> set (add_block rs ru d cs)" by (rule buf_member [OF a(2,4,5)])
  have "chunk_fine (dn_val m)" using mem add_block_fine [OF f(1) d(3,4) l] by (simp add: chunks_fine_def)
  moreover have "c_rseq (dn_val m) = n" if "rs = n" using a(6) f(2) that by fastforce
  moreover have "n < c_rseq (dn_val m)" if "rs \<noteq> n"
    using add_block_lower [of cs "Suc n" rs ru d] f(2) d(2,3) that mem by (auto simp: Suc_le_eq)
  ultimately show ?thesis using a(1-5) by (intro exI [of _ r] exI [of _ w1] exI [of _ ps'] exI [of _ m]) simp
qed

lemma buffered_deliver:
  assumes pc: "quiet_code pc" and inv: "sink_inv S w n cs" and b: "bframe w w1" "buf w1 ps cs1" "chunks_fine cs1" "agrees S cs1"
    "\<forall>c \<in> set cs1. n \<le> c_rseq c" and r: "r \<in> set ps" "sw_chunks w1 r = Some m" "c_rseq (dn_val m) = n"
  shows "\<exists>w'. try_deliver pc dec (Some r) w1 = Some w' \<and> sink_inv S w' (run_end n cs1) (run_rest n cs1) \<and>
    known (run_end n cs1) (run_rest n cs1) = {0..<n} \<union> dom (buf_map cs1) \<and> n \<le> run_end n cs1 \<and>
    sk_initial_seq (sw_sink w') = sk_initial_seq (sw_sink w) \<and> feeds pc w w' \<and> (plain w cs1 \<longrightarrow> plain w' (run_rest n cs1))"
proof -
  from b(1) have e: "unbuffered (sw_sink w1) = unbuffered (sw_sink w)" "delivered (sw_events w1) = delivered (sw_events w)"
    by (auto simp: bframe_def)
  note u = unbuffered_eq [OF e(1)]
  have rd: "ready w1 n" using inv u by (simp add: sink_inv_def ready_def states_ok_def)
  note fr = front_chunk [OF b(2,3,5) r] and k = run_facts [OF b(3,5,4)]
  from try_deliver_ok [OF pc rd b(2,3,5), of dec] obtain w' ps' where
    t: "try_deliver pc dec (Some r) w1 = Some w'" "ready w' (run_end n cs1)" "buf w' ps' (run_rest n cs1)"
      "delivered (sw_events w') = delivered (sw_events w1) @ map payload (run_chunks n cs1)"
      "sk_initial_seq (sw_sink w') = sk_initial_seq (sw_sink w1)" "feeds pc w1 w'"
    unfolding fr by blast
  have fd: "feeds pc w w'" using bframe_feeds [OF b(1)] t(6) feeds_trans by blast
  have pl: "plain w cs1 \<longrightarrow> plain w' (run_rest n cs1)"
    using run_plain [of cs1 n] unfolding plain_def unfrozen_def t(4) e(2) set_append ball_Un by blast
  have "passed_on (sw_events w') = range_of S 0 n @ range_of S n (run_end n cs1)"
    using passed_on_append [OF t(4)] k inv e(2) by (simp add: sink_inv_def passed_on_def)
  then have "passed_on (sw_events w') = range_of S 0 (run_end n cs1)" using k by (simp add: range_of_split)
  then have "sink_inv S w' (run_end n cs1) (run_rest n cs1)"
    using t(2,3) k inv by (auto simp: sink_inv_def)
  moreover have "known (run_end n cs1) (run_rest n cs1) = {0..<n} \<union> dom (buf_map cs1)" using k by (auto simp: known_def)
  ultimately show ?thesis using t(1,5) u k fd pl by auto
qed

text \<open>What adding the positions from \<open>rs\<close> up to \<open>ru\<close> to a sink has to achieve; \<open>fz\<close> says whether the data is frozen.\<close>

definition gains :: "parser_code \<Rightarrow> bool \<Rightarrow> (nat \<Rightarrow> byte) \<Rightarrow> nat \<Rightarrow> chunk list \<Rightarrow> nat \<Rightarrow> nat \<Rightarrow> sink_world \<Rightarrow> sink_world option \<Rightarrow> bool" where
  "gains pc fz S n cs rs ru w res \<longleftrightarrow> (\<exists>w' n' cs'. res = Some w' \<and> sink_inv S w' n' cs' \<and> n \<le> n' \<and>
     known n' cs' = known n cs \<union> {rs..<ru} \<and> sk_initial_seq (sw_sink w') = sk_initial_seq (sw_sink w) \<and>
     feeds pc w w' \<and> (\<not> fz \<and> plain w cs \<longrightarrow> plain w' cs'))"

lemma merge_gains:
  assumes pc: "quiet_code pc" and inv: "sink_inv S w n cs" and p: "sk_first_chunk (sw_sink w) = Some p"
    and d: "hb_data d = range_of S rs ru" "n \<le> rs" "rs < ru" "ru < seq_bound"
  shows "gains pc (hb_frozen d) S n cs rs ru w (do {
           (cp, w1) \<leftarrow> add_and_check p rs ru (Some d) w;
           c \<leftarrow> cp;
           m \<leftarrow> sw_chunks w1 c;
           (if c_rseq (dn_val m) > sk_last_reassem_rseq (sw_sink w1) \<or>
               c_rupper (dn_val m) \<le> sk_last_reassem_rseq (sw_sink w1)
            then Some w1
            else try_deliver pc dec (Some c) w1) })"
proof -
  obtain r w1 ps m where a: "add_and_check p rs ru (Some d) w = Some (Some r, w1)" "sw_chunks w1 r = Some m" "r \<in> set ps"
    "buf w1 ps (add_block rs ru d cs)" "bframe w w1" "chunk_fine (dn_val m)"
    "if rs = n then c_rseq (dn_val m) = n else n < c_rseq (dn_val m)"
    using buffered_merge [OF inv p d] by blast
  have f: "chunks_fine cs" "\<forall>c \<in> set cs. n < c_rseq c" "agrees S cs" using inv by (auto simp: sink_inv_def)
  have l: "hb_len d = ru - rs" using d(1) by (simp add: hb_len_def)
  note fine = add_block_fine [OF f(1) d(3,4) l] and ag = add_block_agrees [OF f(1) d(3,4,1) f(3)]
  have last: "sk_last_reassem_rseq (sw_sink w1) = n"
    using a(5) sink_inv_ready [OF inv] unbuffered_eq [of "sw_sink w1" "sw_sink w"] by (simp add: bframe_def)
  have kn: "{0..<n} \<union> dom (buf_map (add_block rs ru d cs)) = known n cs \<union> {rs..<ru}" unfolding known_def ag(2) by auto
  have pl: "\<not> hb_frozen d \<and> plain w cs \<longrightarrow> plain w (add_block rs ru d cs)" using add_block_plain by (auto simp: plain_def)
  show ?thesis
  proof (cases "rs = n")
    case True
    have "\<forall>c \<in> set (add_block rs ru d cs). n \<le> c_rseq c" using f(2) d by (intro add_block_lower) auto
    from buffered_deliver [OF pc inv a(5,4) fine ag(1) this a(3,2), of dec] True a(7) obtain w' where
      w': "try_deliver pc dec (Some r) w1 = Some w'" "sink_inv S w' (run_end n (add_block rs ru d cs)) (run_rest n (add_block rs ru d cs))"
        "known (run_end n (add_block rs ru d cs)) (run_rest n (add_block rs ru d cs)) = known n cs \<union> {rs..<ru}"
        "n \<le> run_end n (add_block rs ru d cs)" "sk_initial_seq (sw_sink w') = sk_initial_seq (sw_sink w)"
        "feeds pc w w'" "plain w (add_block rs ru d cs) \<longrightarrow> plain w' (run_rest n (add_block rs ru d cs))"
      unfolding kn by auto
    then show ?thesis using a(1,2,6,7) last True pl unfolding gains_def by (auto simp: chunk_fine_def)
  next
    case False
    have "\<forall>c \<in> set (add_block rs ru d cs). n < c_rseq c"
      using add_block_lower [of cs "Suc n" rs ru d] f(2) d False by (auto simp: Suc_le_eq)
    note i = bframe_inv [OF inv a(5,4) fine this ag(1)]
    then show ?thesis using a(1,2,7) last False kn bframe_feeds [OF a(5)] pl plain_cong [of w1 w] a(5)
      unfolding gains_def known_def by (auto simp: bframe_def)
  qed
qed

theorem new_block_gains:
  assumes pc: "quiet_code pc" and inv: "sink_inv S w n cs" and d: "hb_data d = range_of S rs ru" "rs \<le> ru" "ru < seq_bound"
    and part: "rs < n \<Longrightarrow> n < ru \<Longrightarrow> cs \<noteq> []"
  shows "gains pc (hb_frozen d) S n cs rs ru w (new_block pc dec (Some d) rs (ru - rs) w)"
proof -
  note st = sink_inv_ready [OF inv]
  obtain ps where b: "buf w ps cs" using inv by (auto simp: sink_inv_def)
  have u: "add64 rs (ru - rs) = ru" using d by (simp add: add64_def)
  consider (empty) "rs = ru" | (old) "rs < ru" "ru \<le> n" | (none) "rs < ru" "n < ru" "cs = []" | (some) "rs < ru" "n < ru" "cs \<noteq> []"
    using d(2) by linarith
  then show ?thesis
  proof cases
    case empty
    then show ?thesis using inv by (auto simp: gains_def new_block_def)
  next
    case old
    then have "new_block pc dec (Some d) rs (ru - rs) w = Some w" using st by (simp add: new_block_def u)
    moreover have "known n cs \<union> {rs..<ru} = known n cs" using old by (auto simp: known_def)
    ultimately show ?thesis using inv by (auto simp: gains_def)
  next
    case none
    show ?thesis
    proof (cases "rs = n")
      case True
      then obtain w' where "new_block pc dec (Some d) rs (ru - rs) w = Some w'" "sink_inv S w' ru []"
        "sk_initial_seq (sw_sink w') = sk_initial_seq (sw_sink w)" "feeds pc w w'" "\<not> hb_frozen d \<and> plain w cs \<longrightarrow> plain w' []"
        using new_block_fast [OF pc] inv d none by blast
      moreover have "known ru [] = known n cs \<union> {rs..<ru}" using none True by (auto simp: known_def)
      ultimately show ?thesis using none unfolding gains_def by (meson less_imp_le)
    next
      case False
      then have n: "n < rs" using part none by linarith
      then obtain w' where "new_block pc dec (Some d) rs (ru - rs) w = Some w'" "sink_inv S w' n [mk_chunk rs ru d]"
        "sk_initial_seq (sw_sink w') = sk_initial_seq (sw_sink w)" "feeds pc w w'"
        "\<not> hb_frozen d \<and> plain w cs \<longrightarrow> plain w' [mk_chunk rs ru d]"
        using new_block_hole [of S w n d rs ru] inv d none by blast
      moreover have "known n [mk_chunk rs ru d] = known n cs \<union> {rs..<ru}"
        using none by (auto simp: known_def mk_chunk_def chunk_map_def dom_def split: if_splits)
      ultimately show ?thesis unfolding gains_def by blast
    qed
  next
    case some
    then obtain p where p: "sk_first_chunk (sw_sink w) = Some p" using buf_first [OF b] buf_length [OF b] by (cases ps) auto
    define k where "k = n - rs"
    define d1 where "d1 = (if rs < n then hb_sub d k (hb_len d) else d)"
    have d1: "hb_data d1 = range_of S (max rs n) ru"
      using d(1) hb_suffix [OF d(1), of k] some by (auto simp: d1_def k_def max_def)
    have e: "s64 (sub64 n rs) = int k" "hb_incr_by d 0 (int k) = Some k" if "rs < n"
      using that d some by (simp_all add: sub64_exact s64_exact k_def hb_incr_by_def hb_len_def)
    have "new_block pc dec (Some d) rs (ru - rs) w = do {
           (cp, w1) \<leftarrow> add_and_check p (max rs n) ru (Some d1) w;
           c \<leftarrow> cp;
           m \<leftarrow> sw_chunks w1 c;
           (if c_rseq (dn_val m) > sk_last_reassem_rseq (sw_sink w1) \<or>
               c_rupper (dn_val m) \<le> sk_last_reassem_rseq (sw_sink w1)
            then Some w1
            else try_deliver pc dec (Some c) w1) }"
      using st some p d(3) e by (auto simp: new_block_def u Let_def d1_def k_def max_def)
    moreover have "gains pc (hb_frozen d1) S n cs (max rs n) ru w (do {
           (cp, w1) \<leftarrow> add_and_check p (max rs n) ru (Some d1) w;
           c \<leftarrow> cp;
           m \<leftarrow> sw_chunks w1 c;
           (if c_rseq (dn_val m) > sk_last_reassem_rseq (sw_sink w1) \<or>
               c_rupper (dn_val m) \<le> sk_last_reassem_rseq (sw_sink w1)
            then Some w1
            else try_deliver pc dec (Some c) w1) })"
      using merge_gains [OF pc inv p d1] some d(3) by simp
    moreover have "known n cs \<union> {max rs n..<ru} = known n cs \<union> {rs..<ru}" by (auto simp: known_def)
    moreover have "hb_frozen d1 \<longrightarrow> hb_frozen d" by (simp add: d1_def hb_sub_def hb_new_def)
    ultimately show ?thesis unfolding gains_def by auto
  qed
qed

lemma write_is_new_block:
  assumes "sk_initial_seq (sw_sink w) = i0" "i0 + rs \<le> max64"
  shows "spicyhilti_sink_write pc dec d (i0 + rs) w = new_block pc dec (Some d) rs (hb_len d) w"
  using assms by (simp add: spicyhilti_sink_write_def with_seq_def check_seq_def sub64_exact)

text \<open>A sequence of writes, each with its sequence number.\<close>

fun write_all :: "parser_code \<Rightarrow> decoder \<Rightarrow> (nat \<times> hbytes) list \<Rightarrow> sink_world \<Rightarrow> sink_world option" where
  "write_all pc dec [] w = Some w"
| "write_all pc dec ((seq, d) # xs) w = do { w1 \<leftarrow> spicyhilti_sink_write pc dec d seq w; write_all pc dec xs w1 }"

text \<open>
  The writes that transmit segments of a stream \<open>S\<close>. The sequence number of the stream's first byte
  is \<open>i0\<close>. No segment may end inside another one: a sender that cuts its data once and then sends
  and resends those pieces satisfies this.
\<close>

definition covered :: "(nat \<times> nat) list \<Rightarrow> nat set" where
  "covered segs = (\<Union>(rs, ru) \<in> set segs. {rs..<ru})"

definition segment_writes :: "(nat \<Rightarrow> byte) \<Rightarrow> nat \<Rightarrow> (nat \<times> nat) list \<Rightarrow> (nat \<times> hbytes) list" where
  "segment_writes S i0 segs = map (\<lambda>(rs, ru). (i0 + rs, hb_new (range_of S rs ru))) segs"

definition cut_ok :: "(nat \<times> nat) list \<Rightarrow> bool" where
  "cut_ok segs \<longleftrightarrow> (\<forall>(rs, ru) \<in> set segs. rs \<le> ru \<and> (\<forall>(rs', ru') \<in> set segs. \<not> (rs < ru' \<and> ru' < ru)))"

lemma inv_position:
  assumes "sink_inv S w n cs" "known n cs = covered segs" "0 < n"
  shows "\<exists>rs. (rs, n) \<in> set segs"
proof -
  have "n - 1 \<in> covered segs" "n \<notin> covered segs"
    using assms buf_map_below [of cs n] unfolding assms(2) [symmetric] by (auto simp: known_def sink_inv_def)
  then obtain rs ru where "(rs, ru) \<in> set segs" "rs \<le> n - 1" "n - 1 < ru" "\<not> (rs \<le> n \<and> n < ru)" by (auto simp: covered_def)
  moreover have "ru = n" using calculation(2-4) assms(3) by linarith
  ultimately show ?thesis by blast
qed

lemma write_all_gains:
  assumes "quiet_code pc" "sink_inv S w n cs" "known n cs = covered old" "cut_ok (old @ segs)"
    "sk_initial_seq (sw_sink w) = i0" "\<forall>(rs, ru) \<in> set segs. ru < seq_bound \<and> i0 + ru \<le> max64"
  shows "\<exists>w' n' cs'. write_all pc dec (segment_writes S i0 segs) w = Some w' \<and> sink_inv S w' n' cs' \<and>
    known n' cs' = covered (old @ segs) \<and> feeds pc w w' \<and> (plain w cs \<longrightarrow> plain w' cs')"
  using assms(2-6)
proof (induction segs arbitrary: w n cs old)
  case (Cons sg segs)
  obtain rs ru where sg: "sg = (rs, ru)" by fastforce
  from Cons.prems(3,5) sg have r: "rs \<le> ru" "ru < seq_bound" "i0 + rs \<le> max64" by (auto simp: cut_ok_def)
  have part: "cs \<noteq> []" if "rs < n" "n < ru"
    using inv_position [OF Cons.prems(1,2)] Cons.prems(3) that sg by (fastforce simp: cut_ok_def)
  let ?d = "hb_new (range_of S rs ru)"
  have d: "hb_data ?d = range_of S rs ru" "hb_len ?d = ru - rs" "\<not> hb_frozen ?d" by (simp_all add: hb_new_def hb_len_def)
  from new_block_gains [OF assms(1) Cons.prems(1) d(1) r(1,2) part, of dec] obtain w1 n1 cs1 where
    w1: "new_block pc dec (Some ?d) rs (ru - rs) w = Some w1" "sink_inv S w1 n1 cs1"
      "known n1 cs1 = known n cs \<union> {rs..<ru}" "sk_initial_seq (sw_sink w1) = i0"
      "feeds pc w w1" "plain w cs \<longrightarrow> plain w1 cs1"
    unfolding gains_def Cons.prems(4) using d(3) by blast
  have "known n1 cs1 = covered (old @ [sg])" using w1(3) Cons.prems(2) sg by (auto simp: covered_def)
  from Cons.IH [OF w1(2) this _ w1(4)] Cons.prems(3,5) obtain w' n' cs' where
    "write_all pc dec (segment_writes S i0 segs) w1 = Some w'" "sink_inv S w' n' cs'" "known n' cs' = covered (old @ sg # segs)"
    "feeds pc w1 w'" "plain w1 cs1 \<longrightarrow> plain w' cs'" by auto
  moreover have "spicyhilti_sink_write pc dec ?d (i0 + rs) w = Some w1"
    using write_is_new_block [OF Cons.prems(4) r(3)] w1(1) d(2) by simp
  moreover have "feeds pc w w'" using w1(5) calculation(4) feeds_trans by blast
  ultimately show ?case using sg w1(6) by (auto simp: segment_writes_def)
qed (auto simp: segment_writes_def)

text \<open>A sink after \<^verbatim>\<open>spicyhilti_sink_new\<close>, with parsers connected.\<close>

definition sink_world_new :: sink_world where
  "sink_world_new = \<lparr>sw_sink = spicyhilti_sink_new, sw_chunks = Map.empty, sw_filters = Map.empty, sw_next = 0,
     sw_events = [], sw_excpt = None\<rparr>"

fun connect_all :: "(nat \<times> spicy_parser) list \<Rightarrow> sink_world \<Rightarrow> sink_world" where
  "connect_all [] w = w"
| "connect_all ((pobj, parser) # xs) w = connect_all xs (spicyhilti_sink_connect pobj parser w)"

lemma connect_inv:
  assumes "sink_inv S w n []" "\<forall>a \<in> state_ids w. a < sw_next w"
  shows "sink_inv S (spicyhilti_sink_connect pobj parser w) n []"
    "\<forall>a \<in> state_ids (spicyhilti_sink_connect pobj parser w). a < sw_next (spicyhilti_sink_connect pobj parser w)"
    "sk_initial_seq (sw_sink (spicyhilti_sink_connect pobj parser w)) = sk_initial_seq (sw_sink w)"
  using assms by (fastforce simp: sink_inv_def spicyhilti_sink_connect_def ready_def states_ok_def state_ids_def buf_def)+

lemma connect_all_inv:
  assumes "sink_inv S w n []" "\<forall>a \<in> state_ids w. a < sw_next w"
  shows "sink_inv S (connect_all xs w) n [] \<and> sk_initial_seq (sw_sink (connect_all xs w)) = sk_initial_seq (sw_sink w) \<and>
    sw_events (connect_all xs w) = sw_events w \<and> (sw_events w = [] \<and> in_step w \<longrightarrow> in_step (connect_all xs w)) \<and>
    map snd (parser_ids (connect_all xs w)) = rev (map fst xs) @ map snd (parser_ids w)"
  using assms
proof (induction xs w rule: connect_all.induct)
  case (2 pobj parser xs w)
  let ?w1 = "spicyhilti_sink_connect pobj parser w"
  have "sw_events ?w1 = sw_events w" "map snd (parser_ids ?w1) = pobj # map snd (parser_ids w)"
    "sw_events w = [] \<and> in_step w \<longrightarrow> in_step ?w1"
    by (auto simp: spicyhilti_sink_connect_def parser_ids_def in_step_def fed_def given_def input_so_far_def last_input_def)
  then show ?case using connect_inv [OF 2(2,3), of pobj parser] 2(1) by simp
qed simp

lemma sink_new_inv: "sink_inv S sink_world_new 0 []"
proof -
  have "buf sink_world_new [] []" by (simp add: buf_def dll_def sink_world_new_def spicyhilti_sink_new_def)
  then show ?thesis
    by (auto simp: sink_inv_def sink_world_new_def spicyhilti_sink_new_def ready_def states_ok_def agrees_def passed_on_def)
qed

section \<open>Behaviour outside the normal mode\<close>

text \<open>A block that starts before the current position and ends behind it, with nothing buffered.\<close>

lemma new_block_partly_old:
  assumes pc: "quiet_code pc" and inv: "sink_inv S w n []" and d: "hb_data d = range_of S rs ru" "rs < n" "n < ru"
    "n + (ru - rs) < seq_bound"
  shows "\<exists>w'. new_block pc dec (Some d) rs (ru - rs) w = Some w' \<and> ready w' (n + (ru - rs)) \<and> buf w' [] [] \<and>
    passed_on (sw_events w') = range_of S 0 ru \<and> sk_initial_seq (sw_sink w') = sk_initial_seq (sw_sink w)"
proof -
  obtain ps where b: "buf w ps []" using inv by (auto simp: sink_inv_def)
  then have [simp]: "ps = []" using buf_length by fastforce
  let ?d = "hb_sub d (n - rs) (hb_len d)" and ?ru = "n + (ru - rs)"
  have u: "add64 rs (ru - rs) = ru" "add64 n (ru - rs) = ?ru" using d by (simp_all add: add64_def)
  have e: "s64 (sub64 n rs) = int (n - rs)" "hb_incr_by d 0 (int (n - rs)) = Some (n - rs)"
    using d by (simp_all add: sub64_exact s64_exact hb_incr_by_def hb_len_def)
  obtain c w1 where c: "sink_new_chunk (Some ?d) n (ru - rs) w = (c, w1)" by fastforce
  define w2 where "w2 = upd_sink (\<lambda>k. k\<lparr>sk_first_chunk := Some c, sk_last_chunk := Some c\<rparr>) w1"
  have f: "buf w2 [c] [mk_chunk n ?ru ?d]" "bframe w w2"
    "sw_chunks w1 c = Some \<lparr>dn_next = None, dn_prev = None, dn_val = mk_chunk n ?ru ?d\<rparr>"
    using first_chunk_ok [OF _ u(2), of w ?d] b c by (simp_all add: w2_def)
  have bf: "unbuffered (sw_sink w2) = unbuffered (sw_sink w)" "delivered (sw_events w2) = delivered (sw_events w)"
    using f(2) by (simp_all add: bframe_def)
  note uf = unbuffered_eq [OF bf(1)]
  define w3 where "w3 = upd_sink (\<lambda>k. k\<lparr>sk_last_reassem_rseq := add64 (sk_last_reassem_rseq k) (sub64 ?ru n)\<rparr>) w2"
  have w3: "mode_ok w3" "buf w3 [c] [mk_chunk n ?ru ?d]" "delivered (sw_events w3) = delivered (sw_events w)"
    "sk_initial_seq (sw_sink w3) = sk_initial_seq (sw_sink w)"
    using inv uf f(1) bf by (simp_all add: w3_def sink_inv_def ready_def mode_ok_def states_ok_def buf_def)
  have tw: "takeWhile (\<lambda>x. c_rupper x \<le> ?ru) [mk_chunk n ?ru ?d] = [mk_chunk n ?ru ?d]" by (simp add: mk_chunk_def)
  from deliver_chunk_ok [OF pc w3(1,2), of dec ?d n ?ru] obtain w' where
    w': "deliver_chunk pc dec (Some ?d) n ?ru w3 = Some (True, w')" "ready w' ?ru" "buf w' [] []"
      "delivered (sw_events w') = delivered (sw_events w3) @ [(n, ?d)]" "sk_initial_seq (sw_sink w') = sk_initial_seq (sw_sink w3)"
    by (auto simp: mk_chunk_def)
  have t0: "try_deliver pc dec None w' = Some w'" by (subst try_deliver.simps) simp
  have last: "sk_last_reassem_rseq (sw_sink w2) = n" using uf sink_inv_ready [OF inv] by simp
  have "try_deliver pc dec (Some c) w2 = Some w'"
    using f(3) last w'(1) t0 by (subst try_deliver.simps) (simp add: Let_def w3_def w2_def mk_chunk_def)
  then have "new_block pc dec (Some d) rs (ru - rs) w = Some w'"
    using d c e f(3) last sink_inv_ready [OF inv] buf_first [OF b]
    by (simp add: new_block_def u Let_def w2_def mk_chunk_def)
  moreover have "passed_on (sw_events w') = range_of S 0 n @ range_of S n ru"
    using passed_on_append [OF w'(4)] w3(3) inv hb_suffix [OF d(1), of "n - rs"] d by (simp add: sink_inv_def passed_on_def)
  then have "passed_on (sw_events w') = range_of S 0 ru" using d by (simp add: range_of_split)
  ultimately show ?thesis using w'(2,3,5) w3(4) by (intro exI [of _ w']) simp
qed

lemma old_block_dropped:
  assumes "ready w n" "rs < ru" "ru \<le> n" "n < seq_bound"
  shows "new_block pc dec data rs (ru - rs) w = Some w"
  using assms by (simp add: new_block_def ready_def add64_exact)

text \<open>A gap that reaches into a buffered chunk from below: no chunk results, and a null pointer is read.\<close>

lemma gap_over_chunk:
  assumes inv: "sink_inv S w n (c # cs)" and r: "n \<le> rs" "rs < c_rseq c" "c_rseq c < ru" "ru < seq_bound"
  shows "new_block pc dec None rs (ru - rs) w = None"
proof -
  obtain ps where b: "buf w ps (c # cs)" and f: "chunks_fine (c # cs)" using inv by (auto simp: sink_inv_def)
  obtain p qs where ps: "ps = p # qs" using buf_length [OF b] by (cases ps) auto
  have fc: "chunk_fine c" using f by (simp add: chunks_fine_Cons)
  obtain m where m: "sw_chunks w p = Some m" "dn_val m = c" using buf_lookup [of w "[]" p qs "[]" c cs] b ps by auto
  obtain l ln where l: "sk_last_chunk (sw_sink w) = Some l" "sw_chunks w l = Some ln" "dn_val ln \<in> set (c # cs)"
  proof -
    have "last ps \<in> set ps" using ps by simp
    moreover obtain ln where "sw_chunks w (last ps) = Some ln" using dll_live b calculation unfolding buf_def by blast
    ultimately show ?thesis using that [of "last ps" ln] buf_last [OF b] buf_member [OF b] ps by auto
  qed
  have "rs < c_rupper (dn_val ln)" using l(3) f fc r(2) by (fastforce simp: chunks_fine_Cons chunks_fine_def chunk_fine_def)
  moreover have "find_chunk (sw_chunks w) p rs = Some p"
    using m fc r(2) by (subst find_chunk.simps) (auto simp: chunk_fine_def split: option.splits)
  moreover have fst: "sk_first_chunk (sw_sink w) = Some p" using buf_first [OF b] ps by simp
  moreover obtain d where d: "c_data c = Some d" "hb_len d = c_rupper c - c_rseq c" "c_rseq c < c_rupper c" "c_rupper c < seq_bound"
    using fc by (auto simp: chunk_fine_def)
  moreover have "sub64 (c_rseq c) rs = c_rseq c - rs" "add64 rs (c_rseq c - rs) = c_rseq c" "sub64 ru (c_rseq c) = ru - c_rseq c"
      "sub64 (c_rupper c) (c_rseq c) = c_rupper c - c_rseq c" "sub64 (c_rseq c) (c_rseq c) = 0"
    using r d by (simp_all add: sub64_exact add64_exact)
  moreover have "\<exists>x. overlap_part (Some d) 0 (min (int (ru - c_rseq c)) (int (c_rupper c - c_rseq c))) = Some x"
    using d r by (simp add: overlap_part_def hb_incr_by_def s64_def)
  ultimately have nn: "add_and_check p rs ru None w \<noteq> Some (Some x, w')" for x w'
    using l m r by (subst add_and_check.simps)
      (auto simp: add_prefix_def Let_def s64_exact overlap_part_def hb_incr_by_def split: bind_splits)
  have "add64 rs (ru - rs) = ru" using r by (simp add: add64_exact)
  moreover have "do { (cp, w1) \<leftarrow> add_and_check p rs ru None w; c \<leftarrow> cp; g c w1 } = None" for g
    using nn by (auto split: bind_splits option.splits)
  ultimately show ?thesis
    using fst sink_inv_ready [OF inv] r by (simp add: new_block_def Let_def)
qed



text \<open>The filter types along a chain, and what decoding with them in order gives.\<close>

fun filter_chain :: "(addr \<rightharpoonup> spicy_filter) \<Rightarrow> ptr \<Rightarrow> nat list \<Rightarrow> bool" where
  "filter_chain h p [] \<longleftrightarrow> p = None"
| "filter_chain h p (k # ks) \<longleftrightarrow> (case p of None \<Rightarrow> False | Some a \<Rightarrow>
     (case h a of None \<Rightarrow> False | Some f \<Rightarrow> f_kind f = k \<and> filter_chain h (f_next f) ks))"

fun decode_all :: "decoder \<Rightarrow> nat list \<Rightarrow> sink_event list \<Rightarrow> hbytes \<Rightarrow> exn + hbytes" where
  "decode_all dec [] es d = Inr d"
| "decode_all dec (k # ks) es d = (case dec k es d of
      Inl e \<Rightarrow> Inl e
    | Inr d' \<Rightarrow> decode_all dec ks es (if hb_frozen d then hb_freeze d' else d'))"

lemma filter_decode_ok:
  assumes "filter_chain (sw_filters w) p ks" "sw_excpt w = None"
  shows "filter_decode dec p d w = (case decode_all dec ks (sw_events w) d of
     Inl e \<Rightarrow> Some (None, sink_error e w) | Inr d' \<Rightarrow> Some (Some d', w))"
  using assms
proof (induction ks arbitrary: p d)
  case Nil
  then show ?case by (subst filter_decode.simps) simp
next
  case (Cons k ks)
  then obtain a f where f: "p = Some a" "sw_filters w a = Some f" "f_kind f = k" "filter_chain (sw_filters w) (f_next f) ks"
    by (auto split: option.splits)
  show ?case
    using f Cons.IH [OF f(4) Cons.prems(2)] Cons.prems(2) by (subst filter_decode.simps) (auto split: sum.splits)
qed

section \<open>Properties\<close>

text \<open>
  C1: Reassembly. A new sink, with any parsers connected, no filter, and its initial sequence number set,
  receives segments of a stream, in any order and any number of times, so that no segment ends inside
  another. Every write returns, and there is a position \<open>n\<close>, the first that no segment covers, such that
  the bytes passed on are exactly the first \<open>n\<close> bytes of the stream. When no parser fails, every parser that is
  still connected has been called, and the data of its last call are exactly those \<open>n\<close> bytes; parsers
  that always ask for more stay connected, all of them. The parsers' code must not disconnect parsers.
\<close>

theorem sink_reassembly:
  assumes "quiet_code pc" "cut_ok segs" "\<forall>(rs, ru) \<in> set segs. ru < seq_bound \<and> i0 + ru \<le> max64"
  shows "\<exists>w w' n. spicyhilti_sink_set_initial_sequence_number pc i0 (connect_all parsers sink_world_new) = Some w \<and>
    write_all pc dec (segment_writes S i0 segs) w = Some w' \<and>
    passed_on (sw_events w') = range_of S 0 n \<and> {0..<n} \<subseteq> covered segs \<and> n \<notin> covered segs \<and>
    (calm_code pc \<and> 0 < n \<longrightarrow> (\<forall>(a, p) \<in> set (sk_states (sw_sink w')).
       ps_data p = Some (hb_new (range_of S 0 n)) \<and> last_input (ps_pobj p) (sw_events w') = Some (range_of S 0 n))) \<and>
    (calm_code pc \<and> yielding_code pc \<longrightarrow> map (\<lambda>(a, p). ps_pobj p) (sk_states (sw_sink w')) = rev (map fst parsers))"
proof -
  let ?start = "connect_all parsers sink_world_new" and ?init = "\<lambda>w. upd_sink (\<lambda>k. k\<lparr>sk_initial_seq := i0\<rparr>) w"
  have new: "state_ids sink_world_new = {}" "in_step sink_world_new" "sw_events sink_world_new = []" "parser_ids sink_world_new = []"
    by (simp_all add: state_ids_def sink_world_new_def spicyhilti_sink_new_def in_step_def parser_ids_def)
  then have i: "sink_inv S ?start 0 []" "sw_events ?start = []" "in_step ?start" "map snd (parser_ids ?start) = rev (map fst parsers)"
    using connect_all_inv [OF sink_new_inv [of S], of parsers] by simp_all
  then have "sk_first_chunk (sw_sink ?start) = None" using buf_first buf_length by (fastforce simp: sink_inv_def)
  then have s: "spicyhilti_sink_set_initial_sequence_number pc i0 ?start = Some (?init ?start)"
    using sink_inv_ready [OF i(1)] by (simp add: spicyhilti_sink_set_initial_sequence_number_def)
  have st: "sink_inv S (?init ?start) 0 []" "plain (?init ?start) []" "in_step (?init ?start)" "parser_ids (?init ?start) = parser_ids ?start"
    using i by (simp_all add: sink_inv_def ready_def states_ok_def buf_def plain_def unfrozen_def in_step_def parser_ids_def)
  from write_all_gains [OF assms(1) st(1), of "[]" segs i0 dec] assms(2,3) st(2) obtain w' n cs where
    w': "write_all pc dec (segment_writes S i0 segs) (?init ?start) = Some w'" "sink_inv S w' n cs" "known n cs = covered segs"
      "feeds pc (?init ?start) w'" "plain w' cs"
    by (auto simp: known_def covered_def)
  have p: "passed_on (sw_events w') = range_of S 0 n" using w'(2) by (simp add: sink_inv_def)
  have "input_so_far (sw_events w') = Some (range_of S 0 n)" if "0 < n"
    using p that by (auto simp: input_so_far_def passed_on_def range_of_def)
  then have f: "calm_code pc \<and> 0 < n \<longrightarrow> (\<forall>(a, p) \<in> set (sk_states (sw_sink w')).
       ps_data p = Some (hb_new (range_of S 0 n)) \<and> last_input (ps_pobj p) (sw_events w') = Some (range_of S 0 n))"
    using w'(4,5) st(3) by (auto simp: feeds_def in_step_def plain_def fed_def given_def)
  have y: "map (\<lambda>(a, p). ps_pobj p) (sk_states (sw_sink w')) = map snd (parser_ids w')" by (auto simp: parser_ids_def)
  have "calm_code pc \<and> yielding_code pc \<longrightarrow> map (\<lambda>(a, p). ps_pobj p) (sk_states (sw_sink w')) = rev (map fst parsers)"
    unfolding y using w'(4,5) st(3,4) i(4) by (simp add: feeds_def plain_def)
  moreover have "{0..<n} \<subseteq> covered segs" "n \<notin> covered segs"
    using w'(2) buf_map_below [of cs n] unfolding w'(3) [symmetric] by (auto simp: known_def sink_inv_def)
  ultimately show ?thesis using s w'(1) p f by blast
qed

text \<open>Three segments out of order, one of them twice, and two parsers that always ask for more.\<close>

theorem sink_reassembly_witness:
  "\<exists>w w' n. spicyhilti_sink_set_initial_sequence_number \<lparr>pc_parse = \<lambda>x d. (PYield 0, []), pc_resume = \<lambda>x d. (PYield 0, [])\<rparr>
      100 (connect_all [(7, \<lparr>p_hook_gap = True, p_hook_skip = False, p_hook_overlap = True, p_hook_undelivered = True\<rparr>),
        (8, \<lparr>p_hook_gap = False, p_hook_skip = False, p_hook_overlap = False, p_hook_undelivered = False\<rparr>)] sink_world_new) = Some w \<and>
    write_all \<lparr>pc_parse = \<lambda>x d. (PYield 0, []), pc_resume = \<lambda>x d. (PYield 0, [])\<rparr> (\<lambda>k es d. Inr d)
      (segment_writes of_nat 100 [(3, 5), (0, 3), (0, 3), (7, 9)]) w = Some w' \<and>
    passed_on (sw_events w') = range_of of_nat 0 n \<and> {0..<n} \<subseteq> covered [(3, 5), (0, 3), (0, 3), (7, 9)] \<and>
    n \<notin> covered [(3, 5), (0, 3), (0, 3), (7, 9)] \<and> 0 < n \<and>
    (\<forall>(a, p) \<in> set (sk_states (sw_sink w')). ps_data p = Some (hb_new (range_of of_nat 0 n)) \<and>
       last_input (ps_pobj p) (sw_events w') = Some (range_of of_nat 0 n)) \<and>
    map (\<lambda>(a, p). ps_pobj p) (sk_states (sw_sink w')) = [8, 7]"
proof -
  let ?pc = "\<lparr>pc_parse = \<lambda>x d. (PYield 0, []), pc_resume = \<lambda>x d. (PYield 0, [])\<rparr>"
  let ?segs = "[(3, 5), (0, 3), (0, 3), (7, 9)] :: (nat \<times> nat) list"
  have pc: "quiet_code ?pc" "calm_code ?pc" "yielding_code ?pc" by (simp_all add: quiet_code_def calm_code_def yielding_code_def)
  have "0 \<in> covered ?segs" by (simp add: covered_def)
  then have pos: "0 < n" if "n \<notin> covered ?segs" for n using that by (cases n) auto
  have c: "cut_ok ?segs" "\<forall>(rs, ru) \<in> set ?segs. ru < seq_bound \<and> 100 + ru \<le> max64" by (simp_all add: cut_ok_def)
  let ?ps = "[(7, \<lparr>p_hook_gap = True, p_hook_skip = False, p_hook_overlap = True, p_hook_undelivered = True\<rparr>),
        (8, \<lparr>p_hook_gap = False, p_hook_skip = False, p_hook_overlap = False, p_hook_undelivered = False\<rparr>)]"
  obtain w w' n where r: "spicyhilti_sink_set_initial_sequence_number ?pc 100 (connect_all ?ps sink_world_new) = Some w"
    "write_all ?pc (\<lambda>k es d. Inr d) (segment_writes of_nat 100 ?segs) w = Some w'" "passed_on (sw_events w') = range_of of_nat 0 n"
    "{0..<n} \<subseteq> covered ?segs" "n \<notin> covered ?segs"
    "calm_code ?pc \<and> 0 < n \<longrightarrow> (\<forall>(a, p) \<in> set (sk_states (sw_sink w')). ps_data p = Some (hb_new (range_of of_nat 0 n)) \<and>
       last_input (ps_pobj p) (sw_events w') = Some (range_of of_nat 0 n))"
    "calm_code ?pc \<and> yielding_code ?pc \<longrightarrow> map (\<lambda>(a, p). ps_pobj p) (sk_states (sw_sink w')) = rev (map fst ?ps)"
    using sink_reassembly [OF pc(1) c, of ?ps "\<lambda>k es d. Inr d" of_nat] by blast
  have "map (\<lambda>(a, p). ps_pobj p) (sk_states (sw_sink w')) = [8, 7]" using r(7) pc(2,3) by simp
  with r pc(2) pos [OF r(5)] show ?thesis by (intro exI [of _ w] exI [of _ w'] exI [of _ n] conjI) simp_all
qed

text \<open>
  C2: One write. In a state where the first \<open>n\<close> bytes of the stream have been passed on and the chunks \<open>cs\<close>
  are buffered, a write of any further part of the stream returns, keeps that invariant with an
  unchanged or later position, and makes exactly the positions of the block known; parsers that neither fail
  nor disconnect others keep in step with what is passed on, while no data are frozen. Excluded is one
  case: a block that starts before position \<open>n\<close> and ends behind it while nothing is buffered.
\<close>

theorem sink_write_invariant:
  assumes "quiet_code pc" "sink_inv S w n cs" "hb_data d = range_of S rs ru" "rs \<le> ru" "ru < seq_bound"
    "rs < n \<and> n < ru \<longrightarrow> cs \<noteq> []" "sk_initial_seq (sw_sink w) + rs \<le> max64"
  shows "\<exists>w' n' cs'. spicyhilti_sink_write pc dec d (sk_initial_seq (sw_sink w) + rs) w = Some w' \<and> sink_inv S w' n' cs' \<and>
    n \<le> n' \<and> known n' cs' = known n cs \<union> {rs..<ru} \<and> sk_initial_seq (sw_sink w') = sk_initial_seq (sw_sink w) \<and>
    (calm_code pc \<and> in_step w \<and> plain w cs \<and> \<not> hb_frozen d \<longrightarrow> in_step w' \<and> plain w' cs')"
proof -
  have "hb_len d = ru - rs" using assms(3) by (simp add: hb_len_def)
  then have "gains pc (hb_frozen d) S n cs rs ru w (spicyhilti_sink_write pc dec d (sk_initial_seq (sw_sink w) + rs) w)"
    using new_block_gains [OF assms(1-5), of dec] assms(6) write_is_new_block [OF refl assms(7), of pc dec d] by simp
  then show ?thesis unfolding gains_def feeds_def plain_def by meson
qed

theorem sink_write_invariant_witness:
  "\<exists>w' n' cs'. spicyhilti_sink_write \<lparr>pc_parse = \<lambda>x d. (POk, []), pc_resume = \<lambda>x d. (POk, [])\<rparr> (\<lambda>k es d. Inr d)
      (hb_new [5, 6, 7]) (sk_initial_seq (sw_sink sink_world_new) + 5) sink_world_new = Some w' \<and>
    sink_inv of_nat w' n' cs' \<and> 0 \<le> n' \<and> known n' cs' = known 0 [] \<union> {5..<8} \<and>
    sk_initial_seq (sw_sink w') = sk_initial_seq (sw_sink sink_world_new) \<and> in_step w' \<and> plain w' cs'"
proof -
  let ?pc = "\<lparr>pc_parse = \<lambda>x d. (POk, []), pc_resume = \<lambda>x d. (POk, [])\<rparr>"
  have pc: "quiet_code ?pc" "calm_code ?pc" by (simp_all add: quiet_code_def calm_code_def)
  have w: "in_step sink_world_new" "plain sink_world_new []"
    by (simp_all add: in_step_def plain_def unfrozen_def sink_world_new_def spicyhilti_sink_new_def)
  have d: "hb_data (hb_new [5, 6, 7]) = range_of of_nat 5 8" "\<not> hb_frozen (hb_new [5, 6, 7])"
    by (simp_all add: hb_new_def range_of_def upt_rec [of _ 8])
  from sink_write_invariant [OF pc(1) sink_new_inv d(1), of "\<lambda>k es d. Inr d"] pc(2) w d(2)
  show ?thesis by (simp add: sink_world_new_def spicyhilti_sink_new_def)
qed

text \<open>A world whose buffer holds one chunk, bytes 10 and 11 of the stream.\<close>

definition one_chunk_world :: sink_world where
  "one_chunk_world = sink_world_new\<lparr>sw_sink := spicyhilti_sink_new\<lparr>sk_first_chunk := Some 0, sk_last_chunk := Some 0\<rparr>,
     sw_chunks := [0 \<mapsto> \<lparr>dn_next = None, dn_prev = None, dn_val = mk_chunk 10 12 (hb_new [10, 11])\<rparr>], sw_next := 1\<rparr>"

lemma one_chunk_buf: "buf one_chunk_world [0] [mk_chunk 10 12 (hb_new [10, 11])]"
  by (auto simp: buf_def dll_def one_chunk_world_def split: if_splits)

lemma one_chunk_fine: "chunks_fine [mk_chunk 10 12 (hb_new [10, 11])]"
  by (simp add: chunks_fine_def chunk_fine_def mk_chunk_def hb_new_def hb_len_def)

lemma one_chunk_inv: "sink_inv of_nat (one_chunk_world\<lparr>sw_events := []\<rparr>) 0 [mk_chunk 10 12 (hb_new [10, 11])]"
proof -
  have "b = of_nat s" if b: "chunk_map (mk_chunk 10 12 (hb_new [10, 11])) s = Some b" for s b
  proof -
    from b have "10 \<le> s" "s < 12" by (auto simp: chunk_map_def mk_chunk_def split: if_splits)
    then consider "s = 10" | "s = 11" by arith
    then show ?thesis using b by cases (auto simp: chunk_map_def mk_chunk_def hb_new_def)
  qed
  then have "agrees of_nat [mk_chunk 10 12 (hb_new [10, 11])]" by (simp add: agrees_def)
  moreover have "buf (one_chunk_world\<lparr>sw_events := []\<rparr>) [0] [mk_chunk 10 12 (hb_new [10, 11])]"
    using one_chunk_buf by (simp add: buf_def)
  ultimately show ?thesis
    using one_chunk_fine by (auto simp: sink_inv_def ready_def states_ok_def passed_on_def one_chunk_world_def
        sink_world_new_def spicyhilti_sink_new_def mk_chunk_def)
qed

text \<open>
  C21: Adding a block to the buffer. The loop over the linked list of chunks implements the recursion
  \<open>add_block\<close> on the sorted list: it returns, the links stay well formed, the chunks stay sorted and
  disjoint, and the buffered bytes are those of the new block overridden by those that were there
  before, so that the first bytes received for a position win.
\<close>

theorem add_and_check_first_wins:
  assumes "buf w (p # ps) cs" "chunks_fine cs" "rs < ru" "ru < seq_bound" "hb_len d = ru - rs"
  shows "\<exists>r w' ps'. add_and_check p rs ru (Some d) w = Some (Some r, w') \<and> buf w' ps' (add_block rs ru d cs) \<and>
    chunks_fine (add_block rs ru d cs) \<and> delivered (sw_events w') = delivered (sw_events w) \<and>
    buf_map (add_block rs ru d cs) = chunk_map (mk_chunk rs ru d) ++ buf_map cs"
proof -
  have "added w ([] @ p # ps) cs rs ru d (add_and_check p rs ru (Some d) w)"
    using assms by (intro add_and_check_ok) auto
  then show ?thesis
    using add_block_fine [OF assms(2-5)] add_block_map [OF assms(2-5)] by (auto simp: added_def bframe_def)
qed

theorem add_and_check_first_wins_witness:
  "\<exists>r w' ps'. add_and_check 0 8 14 (Some (hb_new [1, 2, 3, 4, 5, 6])) one_chunk_world = Some (Some r, w') \<and>
    buf w' ps' (add_block 8 14 (hb_new [1, 2, 3, 4, 5, 6]) [mk_chunk 10 12 (hb_new [10, 11])]) \<and>
    chunks_fine (add_block 8 14 (hb_new [1, 2, 3, 4, 5, 6]) [mk_chunk 10 12 (hb_new [10, 11])]) \<and>
    delivered (sw_events w') = delivered (sw_events one_chunk_world) \<and>
    buf_map (add_block 8 14 (hb_new [1, 2, 3, 4, 5, 6]) [mk_chunk 10 12 (hb_new [10, 11])]) =
      chunk_map (mk_chunk 8 14 (hb_new [1, 2, 3, 4, 5, 6])) ++ buf_map [mk_chunk 10 12 (hb_new [10, 11])]"
  by (rule add_and_check_first_wins [OF one_chunk_buf one_chunk_fine]) (simp_all add: hb_new_def hb_len_def)

text \<open>
  C39: Data is lost after a partly old block. When a block starts before the current position \<open>n\<close>
  and nothing is buffered, its new bytes are passed on, but the position then advances by the block's
  whole length, past the end \<open>ru\<close> of the block: the block that follows on is taken for old data and
  dropped without being passed on.
\<close>

theorem partly_old_block_loses_data:
  assumes "quiet_code pc" "sink_inv S w n []" "hb_data d = range_of S rs ru" "rs < n" "n < ru"
    "n + (ru - rs) < seq_bound" "ru < ru2" "ru2 \<le> n + (ru - rs)"
  shows "\<exists>w'. new_block pc dec (Some d) rs (ru - rs) w = Some w' \<and> passed_on (sw_events w') = range_of S 0 ru \<and>
    sk_cur_rseq (sw_sink w') = n + (ru - rs) \<and> new_block pc dec data2 ru (ru2 - ru) w' = Some w'"
  using new_block_partly_old [OF assms(1-6), of dec] old_block_dropped [OF _ assms(7,8,6), of _ pc dec data2]
  by (auto simp: ready_def)

theorem partly_old_block_loses_data_witness:
  "\<exists>w w'. sink_inv of_nat w 10 [] \<and>
    new_block \<lparr>pc_parse = \<lambda>x d. (POk, []), pc_resume = \<lambda>x d. (POk, [])\<rparr> (\<lambda>k es d. Inr d)
      (Some (hb_new [5, 6, 7, 8, 9, 10, 11, 12, 13, 14])) 5 (15 - 5) w = Some w' \<and>
    passed_on (sw_events w') = range_of of_nat 0 15 \<and> sk_cur_rseq (sw_sink w') = 10 + (15 - 5) \<and>
    new_block \<lparr>pc_parse = \<lambda>x d. (POk, []), pc_resume = \<lambda>x d. (POk, [])\<rparr> (\<lambda>k es d. Inr d)
      (Some (hb_new [15, 16, 17, 18, 19])) 15 (20 - 15) w' = Some w'"
proof -
  let ?pc = "\<lparr>pc_parse = \<lambda>x d. (POk, []), pc_resume = \<lambda>x d. (POk, [])\<rparr>"
  have pc: "quiet_code ?pc" by (simp add: quiet_code_def)
  have "hb_data (hb_new (range_of of_nat 0 10)) = range_of of_nat 0 10" by (simp add: hb_new_def)
  from new_block_fast [OF pc sink_new_inv this, of "\<lambda>k es d. Inr d"] obtain w where w: "sink_inv of_nat w 10 []" by auto
  have d: "hb_data (hb_new [5, 6, 7, 8, 9, 10, 11, 12, 13, 14]) = range_of of_nat 5 15"
    by (simp add: hb_new_def range_of_def upt_rec [of _ 15])
  from partly_old_block_loses_data [OF pc w d, of 20 "\<lambda>k es d. Inr d" "Some (hb_new [15, 16, 17, 18, 19])"] w
  show ?thesis by auto
qed

text \<open>
  A gap that starts below a buffered chunk and reaches into it makes the code read through a null
  pointer (the result is undefined), whatever the chunks behind it.
\<close>

theorem gap_into_buffered_chunk_undefined:
  assumes "sink_inv S w n (c # cs)" "n \<le> rs" "rs < c_rseq c" "c_rseq c < ru" "ru < seq_bound"
    "sk_initial_seq (sw_sink w) + rs \<le> max64"
  shows "spicyhilti_sink_gap pc dec (sk_initial_seq (sw_sink w) + rs) (ru - rs) w = None"
  using gap_over_chunk [OF assms(1-5)] assms(6)
  by (simp add: spicyhilti_sink_gap_def with_seq_def check_seq_def sub64_exact)

theorem gap_into_buffered_chunk_undefined_witness:
  "spicyhilti_sink_gap \<lparr>pc_parse = \<lambda>x d. (POk, []), pc_resume = \<lambda>x d. (POk, [])\<rparr> (\<lambda>k es d. Inr d)
     (sk_initial_seq (sw_sink (one_chunk_world\<lparr>sw_events := []\<rparr>)) + 5) (11 - 5) (one_chunk_world\<lparr>sw_events := []\<rparr>) = None"
  by (rule gap_into_buffered_chunk_undefined [OF one_chunk_inv])
    (simp_all add: mk_chunk_def one_chunk_world_def spicyhilti_sink_new_def)



text \<open>
  Decoding. Data goes through the filters of a chain in order, each one's output to the next, with the
  frozen flag passed on; the first error ends decoding and is reported.
\<close>

theorem filter_decode_in_order:
  assumes "filter_chain (sw_filters w) p ks" "sw_excpt w = None"
  shows "filter_decode dec p d w = (case decode_all dec ks (sw_events w) d of
     Inl e \<Rightarrow> Some (None, sink_error e w) | Inr d' \<Rightarrow> Some (Some d', w))"
  by (rule filter_decode_ok [OF assms])

theorem filter_decode_in_order_witness:
  "filter_decode (\<lambda>k es d. if k = 2 then Inl ValueError else Inr d) (Some 4) (hb_new [1])
     (sink_world_new\<lparr>sw_filters := [4 \<mapsto> \<lparr>f_kind = 1, f_next = Some 5\<rparr>, 5 \<mapsto> \<lparr>f_kind = 2, f_next = None\<rparr>]\<rparr>) =
   Some (None, sink_error ValueError
     (sink_world_new\<lparr>sw_filters := [4 \<mapsto> \<lparr>f_kind = 1, f_next = Some 5\<rparr>, 5 \<mapsto> \<lparr>f_kind = 2, f_next = None\<rparr>]\<rparr>))"
  by (subst filter_decode_in_order [where ks = "[1, 2]"]) (simp_all add: sink_world_new_def hb_new_def)

text \<open>
  The third filter drops the first. After adding filters of types 1, 2 and 3 to a new sink, the sink's
  chain is the one of types 2 and 3: the function that adds a filter returns the former last member of
  the chain instead of its head.
\<close>

theorem third_filter_drops_first:
  "\<exists>w1 w2 w3. spicyhilti_sink_add_filter 1 sink_world_new = Some w1 \<and> spicyhilti_sink_add_filter 2 w1 = Some w2 \<and>
     spicyhilti_sink_add_filter 3 w2 = Some w3 \<and> filter_chain (sw_filters w2) (sk_filter (sw_sink w2)) [1, 2] \<and>
     filter_chain (sw_filters w3) (sk_filter (sw_sink w3)) [2, 3]"
proof -
  let ?f = "\<lambda>k n. \<lparr>f_kind = k, f_next = n\<rparr>"
  have l1: "last_filter [0 \<mapsto> ?f 1 None, 1 \<mapsto> ?f 2 None] 0 = Some 0" by (subst last_filter.simps) simp
  have "last_filter [0 \<mapsto> ?f 1 (Some 1), 1 \<mapsto> ?f 2 None, 2 \<mapsto> ?f 3 None] 1 = Some 1" by (subst last_filter.simps) simp
  then have l2: "last_filter [0 \<mapsto> ?f 1 (Some 1), 1 \<mapsto> ?f 2 None, 2 \<mapsto> ?f 3 None] 0 = Some 1" by (subst last_filter.simps) simp
  have u: "[0 :: addr \<mapsto> ?f 1 None, 1 \<mapsto> ?f 2 None](0 \<mapsto> ?f 1 (Some 1)) = [0 \<mapsto> ?f 1 (Some 1), 1 \<mapsto> ?f 2 None]"
    by (simp add: fun_eq_iff)
  show ?thesis
    using l1 l2 u
    by (simp add: spicyhilti_sink_add_filter_def spicyhilti_filter_add_def known_filters_def filter_append_def upd_def
        sink_world_new_def spicyhilti_sink_new_def Let_def numeral_2_eq_2)
qed

text \<open>
  A sequence number below the initial one. The write is refused with a value error; the sink is closed
  first, so that it is back at its initial position with an empty buffer, no filter and no parser.
\<close>

theorem write_below_initial_refused:
  assumes "sink_inv S w n cs" "sk_states (sw_sink w) = []" "seq < sk_initial_seq (sw_sink w)"
  shows "\<exists>w'. spicyhilti_sink_write pc dec d seq w = Some w' \<and> sw_excpt w' = Some ValueError \<and>
    sink_inv S (w'\<lparr>sw_events := []\<rparr>) 0 [] \<and> delivered (sw_events w') = delivered (sw_events w)"
proof -
  obtain ps where b: "buf w ps cs" and f: "chunks_fine cs" and rd: "ready w n" using assms(1) by (auto simp: sink_inv_def)
  let ?w = "upd_sink (\<lambda>k. k\<lparr>sk_filter := None\<rparr>) w"
  have b1: "buf ?w ps cs" using b by (simp add: buf_def)
  have "\<forall>c \<in> set cs. c_rupper c \<le> max64" using f by (auto simp: chunks_fine_def chunk_fine_def)
  then have tw: "takeWhile (\<lambda>c. c_rupper c \<le> max64) cs = cs" "dropWhile (\<lambda>c. c_rupper c \<le> max64) cs = []" by auto
  obtain w2 where w2: "trim max64 ?w = Some w2" "buf w2 [] []" "bframe (upd_sink (\<lambda>k. k\<lparr>sk_trim_rseq := max64\<rparr>) ?w) w2"
    using sink_trim_ok [OF b1, of max64] unfolding tw buf_length [OF b, symmetric] by auto
  have hd: "sk_first_chunk (sw_sink w2) = None" "sk_last_chunk (sw_sink w2) = None" using buf_first [OF w2(2)] buf_last [OF w2(2)] by auto
  have u: "unbuffered (sw_sink w2) = unbuffered ((sw_sink w)\<lparr>sk_filter := None, sk_trim_rseq := max64\<rparr>)"
    "delivered (sw_events w2) = delivered (sw_events w)" using w2(3) by (simp_all add: bframe_def)
  note uf = unbuffered_eq [OF u(1)]
  let ?w3 = "upd_sink (\<lambda>k. k\<lparr>sk_cur_rseq := 0, sk_last_reassem_rseq := 0, sk_trim_rseq := 0\<rparr>) w2"
  have "finish_all pc ?w = Some ?w" using assms(2) by (subst finish_all.simps) simp
  then have "spicyhilti_sink_close pc w = Some ?w3" using w2(1) hd by (simp add: spicyhilti_sink_close_def)
  then have "spicyhilti_sink_write pc dec d seq w = Some (sink_error ValueError ?w3)"
    using assms(3) by (simp add: spicyhilti_sink_write_def with_seq_def check_seq_def)
  moreover have "buf (sink_error ValueError ?w3\<lparr>sw_events := []\<rparr>) [] []" using w2(2) by (simp add: buf_def sink_error_def)
  then have "sink_inv S (sink_error ValueError ?w3\<lparr>sw_events := []\<rparr>) 0 []"
    using uf rd assms(2) by (auto simp: sink_inv_def ready_def states_ok_def agrees_def passed_on_def sink_error_def)
  ultimately show ?thesis using u(2) by (auto simp: sink_error_def)
qed

theorem write_below_initial_refused_witness:
  "\<exists>w'. spicyhilti_sink_write \<lparr>pc_parse = \<lambda>x d. (POk, []), pc_resume = \<lambda>x d. (POk, [])\<rparr> (\<lambda>k es d. Inr d) (hb_new [1]) 4
     (upd_sink (\<lambda>k. k\<lparr>sk_initial_seq := 5\<rparr>) sink_world_new) = Some w' \<and> sw_excpt w' = Some ValueError \<and>
     sink_inv of_nat (w'\<lparr>sw_events := []\<rparr>) 0 [] \<and>
     delivered (sw_events w') = delivered (sw_events (upd_sink (\<lambda>k. k\<lparr>sk_initial_seq := 5\<rparr>) sink_world_new))"
proof (rule write_below_initial_refused)
  show "sink_inv of_nat (upd_sink (\<lambda>k. k\<lparr>sk_initial_seq := 5\<rparr>) sink_world_new) 0 []"
    using sink_new_inv [of of_nat] by (simp add: sink_inv_def ready_def states_ok_def buf_def)
qed (simp_all add: sink_world_new_def spicyhilti_sink_new_def)

end
