(* ===== verification/Spec2Isabelle.thy ===== *)
theory Spec2Isabelle
  imports Prelude PQueue Timer Dll HList Vector Channel Classifier Khash MapSet MapSetCorrect Expiry TQueue TQueueCorrect Bytes BytesCorrect Strings Sink
begin

text \<open>
  Verification of the run-time libraries of HILTI and Spicy.

  HILTI is a compiler and run-time system for stateful network traffic analysis; Spicy generates
  protocol parsers on top of it. The compilers (\<^verbatim>\<open>hilti/\<close>, \<^verbatim>\<open>spicy/\<close>, in C++) emit LLVM code that
  calls two run-time libraries in C, \<^verbatim>\<open>libhilti/\<close> and \<^verbatim>\<open>libspicy/\<close>. The development models the parts of
  these libraries that hold the state of an analysis: byte sequences that grow while they are being
  parsed, containers whose elements expire by timers, and the sink that reassembles a stream for the
  parsers connected to it.

  \<^bold>\<open>Parts and theories.\<close>
  \<^item> \<open>Prelude\<close>: addresses, pointers and values; exceptions; \<open>uint64_t\<close> arithmetic; checked array access;
    enum values (\<^verbatim>\<open>libhilti/enum.c\<close>).
  \<^item> \<open>PQueue\<close>: the binary heap of timers (\<^verbatim>\<open>libhilti/3rdparty/libpqueue/src/pqueue.c\<close>). State: the array with
    its size and capacity (\<open>pqueue\<close>), and the store of timers, in which each timer keeps the index of its slot.
    One definition per function; the two loops that move a node are recursive functions with a termination proof.
    The invariant \<open>pq_inv\<close> says that the array is in heap order and that slots and timers refer to each other.
    The locale \<open>timer_queue\<close> is the contract that the timer manager relies on; it is interpreted on the code's
    functions as \<open>tq\<close>.
  \<^item> \<open>Timer\<close>: timers and timer managers (\<^verbatim>\<open>libhilti/timer.c\<close>). The actions that a firing timer runs are an argument
    (\<open>expiry_ops\<close>); the locale \<open>quiet_expiry\<close> states what the containers' actions promise, and under it advancing the
    time is shown to return and to fire exactly the timers that are due, earliest first.
  \<^item> \<open>Dll\<close>: linking and unlinking in a doubly linked list of nodes in a store, the code that
    \<^verbatim>\<open>libhilti/list.c\<close> and \<^verbatim>\<open>libspicy/sink.c\<close> have in common.
  \<^item> \<open>HList\<close>: lists with element expiration (\<^verbatim>\<open>libhilti/list.c\<close>), on top of the last two. The contract
    \<open>quiet_expiry\<close> is interpreted on \<open>hlt_list_expire\<close> as \<open>lx\<close>.
  \<^item> \<open>Vector\<close>: vectors with a default element, growth in single precision, and slots that expire (\<^verbatim>\<open>libhilti/vector.c\<close>).
    \<open>quiet_expiry\<close> is interpreted on lists and vectors together as \<open>cx\<close>.
  \<^item> \<open>Khash\<close>: the hash table with open addressing (\<^verbatim>\<open>libhilti/3rdparty/khash/khash.h\<close>). State: two flag bits per slot, packed into words, and the
    arrays of keys and values, of which a slot is \<^term>\<open>None\<close> until it is written. The invariant \<open>kh_inv\<close> says that the number
    of slots is a prime, that every key is reached by its probe sequence before an empty slot, that keys are different, and that the counters are right.
  \<^item> \<open>MapSet\<close>, \<open>MapSetCorrect\<close>: maps and sets with expiring entries (\<^verbatim>\<open>libhilti/map_set.c\<close>), model and proofs. The locale
    \<open>dictionary\<close> is the contract of a container that follows an association list; it is interpreted on maps as \<open>md\<close> and on sets as \<open>sd\<close>.
  \<^item> \<open>Expiry\<close>: all four containers together. \<open>quiet_expiry\<close> is interpreted on their actions as \<open>ax\<close>; the locale \<open>traversal\<close> of \<open>Prelude\<close>,
    the contract of iterators, is interpreted on lists (\<open>lt\<close>), vectors (\<open>vt\<close>), maps (\<open>mt\<close>) and sets (\<open>st\<close>).
  \<^item> \<open>Channel\<close>: channels between threads (\<^verbatim>\<open>libhilti/channel.c\<close>): chunks of items, and the interleaving of threads that read
    and write under the channel's lock and condition variables as an inductive step relation. The locale \<open>bounded_queue\<close> is the contract
    of the buffer, interpreted as \<open>cq\<close>.
  \<^item> \<open>TQueue\<close>, \<open>TQueueCorrect\<close>: queues from many writers to one reader (\<^verbatim>\<open>libhilti/tqueue.c\<close>), model and proofs. Batches are linked
    objects in memory; the functions are cut where they take the lock or wait, and a schedule interleaves the pieces of all threads. \<open>aqueue\<close> is the
    queue as lists, \<open>tq_abs\<close> the relation between the two, and \<open>sched_inv\<close> the invariant of all schedules.
  \<^item> \<open>Classifier\<close>: rules over packed fields, sorted by priority, and the lookup (\<^verbatim>\<open>libhilti/classifier.c\<close>). The locale \<open>ranking\<close> states
    what the comparison passed to \<open>qsort\<close> has to satisfy; it is interpreted on \<open>cmp_rules\<close> as \<open>rp\<close>.
  \<^item> \<open>Bytes\<close>, \<open>BytesCorrect\<close>: byte sequences (\<^verbatim>\<open>libhilti/bytes.c\<close>): chains of chunks with marks and separator
    objects, and iterators into them. The first theory is the model, the second shows that the operations compute
    list functions on the value of an object, whatever its division into chunks.
  \<^item> \<open>Strings\<close>: strings in UTF-8 (\<^verbatim>\<open>libhilti/string.c\<close>) and the decoding and encoding of code points (\<^verbatim>\<open>libhilti/utf8proc.c\<close>). Reading behind the bytes of
    a string is undefined.
  \<^item> \<open>Sink\<close>: the reassembling sink and its filters (\<^verbatim>\<open>libspicy/sink.c\<close>, \<^verbatim>\<open>libspicy/filter.c\<close>).

  \<^bold>\<open>How code is modelled.\<close> A function of the code becomes a definition of the same name (helper functions without their leading
  underscores) that takes the state and returns the new state, its result and, where the code can raise one, the exception
  stored in the state. \<^term>\<open>None\<close> is undefined behaviour: a null or dangling pointer, an index out of range, a
  failed assertion, and for loops also not returning. Loops are recursive functions where they are over a list that is
  known in advance, and partial functions in the option monad otherwise; there is no fuel. That an operation
  yields \<^term>\<open>Some\<close> under its invariant is therefore its memory safety and termination. Machine integers are words of their width in the theories on bytes, the hash table's flags and the classifier; times
  and sequence numbers are natural numbers with the wrap-around of \<open>uint64_t\<close> written out in \<open>add64\<close> and \<open>sub64\<close>.
  The hash and the comparison of a map's key type are code that the compiler generates, and a parameter (\<open>type_info\<close>). Memory management is left out: objects are live as long as the model's store has them, and reference counting is not
  modelled. Hooks and parse functions are generated code: they are arguments, and their calls are recorded in a trace.

  \<^bold>\<open>What is shown.\<close>
  \<^item> The heap sorts; insertion, removal and change of priority keep its invariant; the validity check decides it.
  \<^item> Scheduling, cancelling and postponing timers keep a manager's invariant; moving a timer to an earlier time does not, and
    a timer then fires too late.
  \<^item> A list follows the double-ended queue on value lists for any sequence of operations; insertion, erasing and
    appending behave as on lists. Appending a list to itself does not return.
  \<^item> A vector follows value sequences with a default; its growth is bounded for appends and quadratic for assignments. Activating expiration on a
    vector made without a timer manager leaves it unusable.
  \<^item> The hash table finds what was put into it, and resizing in place keeps its entries; maps and sets follow association lists for any sequence of
    operations, with or without expiration. Cloning copies a map without timers; with timers it reads the wrong slots.
  \<^item> Advancing the time of a manager expires exactly the elements of lists, vectors, maps and sets that are due. Iterators visit every element of
    a container once and terminate.
  \<^item> A channel delivers items in order under any interleaving, and no thread is stuck; the blocking write ignores the bound.
  \<^item> A thread queue hands the elements of each writer to the reader in order under any interleaving; when it reports its termination, everything has been read. No
    step is undefined but for an overflow of the reader's time-out. A pending batch is delivered to the next read, and a blocked writer goes on once the reader has taken
    the pending batches. \<^verbatim>\<open>hlt_thread_queue_can_read\<close> may promise an element that does not exist.
  \<^item> The classifier returns a matching rule of highest priority; it ignores the last bit of a field and truncates differences of priorities.
  \<^item> Append, sub-sequence, comparison, trimming, extraction, number conversion and byte search of bytes objects compute their list
    functions; iterators survive an append; a frozen object rejects appends. The search for a sub-sequence misses matches in later chunks.
  \<^item> Decoding inverts encoding for every valid code point; length, sub-string, concatenation and search of strings work on code points. The comparison is right for
    7-bit characters below 127 only, and a search without a match reads behind the string.
  \<^item> The sink passes on the stream in order and without gaps or duplicates for any order of
    segments that do not end inside each other, and keeps the first bytes received for a position. Four defects
    outside that mode are proved: lost data after a partly old block, a null pointer for a gap over buffered data, a loop after a disconnect, and a lost filter.

  \<^bold>\<open>Not modelled.\<close> The compilers and the Bro plugin: C++ code against LLVM and against sources that are not in the repository.
  Command queues, threads, fibers, and memory management, in
  place of which the model assumes live objects; the memory model of the hardware: a critical section, and the code of one thread between two of them, is one step; wrappers of vendored libraries (regular expressions, normalization of UTF-8, character sets, zlib, base64); tuples, structs and unions, and the rendering
  of values; I/O. Cloning is modelled for vectors, channels, maps and sets.

  \<^bold>\<open>Assumptions of the properties.\<close> The theorems on the sink take sequence numbers to stay below $2^{63}$, so that the code's
  conversions between signed and unsigned integers are exact, and parser code that does not disconnect parsers
  while it runs (\<open>quiet_code\<close>). The theorems on bytes objects that copy data assume chunks without marks (\<open>plain\<close>). The theorems on lists
  with expiration assume that the time at which a new element expires does not exceed the range of \<open>uint64_t\<close> (\<open>clock_ok\<close>, \<open>vec_clock\<close>, \<open>clock_fits\<close>).
  The theorems on thread queues assume a positive batch size; the completeness of termination assumes fewer than $2^{64}$ elements.
  The theorems on the hash table take the comparison of keys to be an equivalence that the hash respects (\<open>wf_type\<close>), and tables of at most 49158
  entries: these stay within the table sizes up to 98317, which are proved to be prime, so that a probe sequence visits every slot. The theorems
  on the classifier assume priorities within a window of $2^{31}$.
\<close>

section \<open>Properties that span components\<close>

text \<open>
  C4: Expiration. One timer manager serves lists, vectors, maps and sets. When it advances to time \<open>t\<close>, the call returns the number of timers
  that were due, provided that an \<open>int32_t\<close> can hold it; exactly the list elements whose timers were due are unlinked and marked as invalid, exactly
  the vector slots whose timers were due are reset to the default and count as not assigned, and exactly the map and set entries whose timers were due
  are deleted. The settings of all containers, the other elements with their values and timers, the other managers and the rest of the
  state stay as they are, and the manager keeps exactly the timers that are not due.
\<close>

theorem container_expiry_on_advance:
  fixes w :: "'a map_world_scheme"
  assumes "queue_inv m w" "m = the_mgr mgr w" "lists_ok w R" "vecs_ok w" "tables_ok w" "all_timers R m w"
    "size (filter_mset (\<lambda>a. pri (tw_timers w) a \<le> t) (mgr_elems m w)) \<le> 2147483647"
  shows "\<exists>n w'. hlt_timer_mgr_advance (ops\<lparr>x_list := hlt_list_expire, x_vector := hlt_vector_expire, x_map := hlt_map_expire, x_set := hlt_set_expire\<rparr>)
      mgr t w = Some (n, w') \<and>
    n = size (filter_mset (\<lambda>a. pri (tw_timers w) a \<le> t) (mgr_elems m w)) \<and>
    mgr_inv m w' \<and> map_option mgr_time (tw_mgrs w' m) = Some t \<and>
    lists_ok w' (\<lambda>l. filter (\<lambda>n. \<not> is_due t m w (CList l n)) (R l)) \<and> vec_after {c. is_due t m w c} w w' \<and>
    tables_after {c. is_due t m w c} w w' \<and> lists_after {c. is_due t m w c} w w' \<and> others w' = others w \<and>
    mgr_elems m w' = filter_mset (\<lambda>a. \<not> pri (tw_timers w) a \<le> t) (mgr_elems m w) \<and>
    tframe (tw_timers w) (tw_timers w') \<and> (\<forall>k. k \<noteq> m \<longrightarrow> tw_mgrs w' k = tw_mgrs w k)"
  by (rule advance_all [OF assms])

theorem container_expiry_on_advance_witness:
  "\<exists>n w'. hlt_timer_mgr_advance (map_actions\<lparr>x_list := hlt_list_expire, x_vector := hlt_vector_expire, x_map := hlt_map_expire, x_set := hlt_set_expire\<rparr>)
      None 12 four_world = Some (n, w') \<and>
    n = size (filter_mset (\<lambda>a. pri (tw_timers four_world) a \<le> 12) (mgr_elems 9 four_world)) \<and>
    mgr_inv 9 w' \<and> map_option mgr_time (tw_mgrs w' 9) = Some 12 \<and>
    lists_ok w' (\<lambda>l. filter (\<lambda>n. \<not> is_due 12 9 four_world (CList l n)) [1, 2]) \<and> vec_after {c. is_due 12 9 four_world c} four_world w' \<and>
    tables_after {c. is_due 12 9 four_world c} four_world w' \<and> lists_after {c. is_due 12 9 four_world c} four_world w' \<and> others w' = others four_world \<and>
    mgr_elems 9 w' = filter_mset (\<lambda>a. \<not> pri (tw_timers four_world) a \<le> 12) (mgr_elems 9 four_world) \<and>
    tframe (tw_timers four_world) (tw_timers w') \<and> (\<forall>k. k \<noteq> 9 \<longrightarrow> tw_mgrs w' k = tw_mgrs four_world k)"
  by (rule container_expiry_on_advance [OF four_world_queue(1) _ four_world_ok four_world_timers])
    (simp_all add: the_mgr_def four_world_def mgr_elems_def two_queued_elems)

text \<open>
  C22: Traversal. The loop that starts at the beginning of a list, a vector, a map or a set, dereferences the iterator and increments it until it
  equals the end, terminates and yields the content of the container, each element once; lists and vectors in their order, maps and sets in the
  order of the slots. For a vector this also holds when every access postpones the expiration of the element.
\<close>

theorem traversal_visits_all:
  assumes "list_ready l (ps, vs) w" "vec_ready v V u" "map_ready m M x" "set_ready s S x"
  shows "(\<exists>i w'. hlt_list_begin l w = Some i \<and>
      walk (\<lambda>i. hlt_iterator_list_eq ops i (hlt_list_end l)) (hlt_iterator_list_deref ops)
        (\<lambda>i w. map_option fst (hlt_iterator_list_incr i w)) i w = Some (map Some vs, w')) \<and>
    (\<exists>i u'. hlt_vector_begin v u = Some i \<and>
      walk (\<lambda>i. hlt_iterator_vector_eq vops i hlt_vector_end) (hlt_iterator_vector_deref vops) hlt_iterator_vector_incr i u =
        Some (map Some (vvals V), u')) \<and>
    (\<exists>i x' kvl. hlt_map_begin (Some m) x = Some (i, x) \<and>
      walk (\<lambda>i x. Some (hlt_iterator_map_eq i hlt_map_end, x)) hlt_iterator_map_deref hlt_iterator_map_incr i x = Some (map Some kvl, x') \<and>
      set kvl = kvs map_val (entries (m_hash M)) \<and> distinct (map fst kvl)) \<and>
    (\<exists>i x' ks. hlt_set_begin (Some s) x = Some (i, x) \<and>
      walk (\<lambda>i x. Some (hlt_iterator_set_eq i hlt_set_end, x)) hlt_iterator_set_deref hlt_iterator_set_incr i x = Some (map Some ks, x') \<and>
      set ks = {k. has_key (s_hash S) k} \<and> distinct ks)"
proof (intro conjI)
  show "\<exists>i w'. hlt_list_begin l w = Some i \<and>
      walk (\<lambda>i. hlt_iterator_list_eq ops i (hlt_list_end l)) (hlt_iterator_list_deref ops)
        (\<lambda>i w. map_option fst (hlt_iterator_list_incr i w)) i w = Some (map Some vs, w')"
    using lt.walk_all [OF assms(1), of ops] list_begin_at [OF assms(1)] by auto
  show "\<exists>i u'. hlt_vector_begin v u = Some i \<and>
      walk (\<lambda>i. hlt_iterator_vector_eq vops i hlt_vector_end) (hlt_iterator_vector_deref vops) hlt_iterator_vector_incr i u =
        Some (map Some (vvals V), u')"
    using vt.walk_all [OF assms(2), of vops] vec_begin_at [OF assms(2)] by auto
  show "\<exists>i x' kvl. hlt_map_begin (Some m) x = Some (i, x) \<and>
      walk (\<lambda>i x. Some (hlt_iterator_map_eq i hlt_map_end, x)) hlt_iterator_map_deref hlt_iterator_map_incr i x = Some (map Some kvl, x') \<and>
      set kvl = kvs map_val (entries (m_hash M)) \<and> distinct (map fst kvl)"
    using mt.walk_all [OF assms(3)] map_begin_at [OF assms(3)] map_items_set [of M] assms(3) by (auto simp: map_ready_def)
  show "\<exists>i x' ks. hlt_set_begin (Some s) x = Some (i, x) \<and>
      walk (\<lambda>i x. Some (hlt_iterator_set_eq i hlt_set_end, x)) hlt_iterator_set_deref hlt_iterator_set_incr i x = Some (map Some ks, x') \<and>
      set ks = {k. has_key (s_hash S) k} \<and> distinct ks"
    using st.walk_all [OF assms(4)] set_begin_at [OF assms(4)] set_items_set [of "\<lambda>_. True" S] assms(4) by (auto simp: set_ready_def)
qed

theorem traversal_visits_all_witness:
  "(\<exists>i w'. hlt_list_begin 0 plain_lists = Some i \<and>
      walk (\<lambda>i. hlt_iterator_list_eq list_actions i (hlt_list_end 0)) (hlt_iterator_list_deref list_actions)
        (\<lambda>i w. map_option fst (hlt_iterator_list_incr i w)) i plain_lists = Some (map Some [31, 32], w')) \<and>
    (\<exists>i u'. hlt_vector_begin 3 plain_vecs = Some i \<and>
      walk (\<lambda>i. hlt_iterator_vector_eq vec_actions i hlt_vector_end) (hlt_iterator_vector_deref vec_actions) hlt_iterator_vector_incr i plain_vecs =
        Some (map Some (vvals plain_vec), u')) \<and>
    (\<exists>i x' kvl. hlt_map_begin (Some 10) four_world = Some (i, four_world) \<and>
      walk (\<lambda>i x. Some (hlt_iterator_map_eq i hlt_map_end, x)) hlt_iterator_map_deref hlt_iterator_map_incr i four_world = Some (map Some kvl, x') \<and>
      set kvl = kvs map_val (entries (m_hash (the (mw_maps four_world 10)))) \<and> distinct (map fst kvl)) \<and>
    (\<exists>i x' ks. hlt_set_begin (Some 11) four_world = Some (i, four_world) \<and>
      walk (\<lambda>i x. Some (hlt_iterator_set_eq i hlt_set_end, x)) hlt_iterator_set_deref hlt_iterator_set_incr i four_world = Some (map Some ks, x') \<and>
      set ks = {k. has_key (s_hash (the (mw_sets four_world 11))) k} \<and> distinct ks)"
proof (rule traversal_visits_all)
  show "list_ready 0 ([1, 2], [31, 32]) plain_lists"
    using plain_lists_inv(1) plain_lists_vals(1) by (simp add: access_free_def plain_lists_def plain_list_def)
  show "vec_ready 3 plain_vec plain_vecs" using plain_vecs_inv by (simp add: vec_ready_def)
  show "map_ready 10 (the (mw_maps four_world 10)) four_world" "set_ready 11 (the (mw_sets four_world 11)) four_world"
    by (auto simp: map_ready_def set_ready_def four_world_def plain_map_def intro!: slot_table_table(1))
qed

end
